(* ===== verification/Prelude.thy ===== *)
theory Prelude
  imports Main "HOL-Library.Word"
begin

unbundle bit_operations_syntax

named_theorems wire_intros "rules that show that a decoder satisfies the reader interface"
named_theorems parse_rules "what a reader operation returns at a position whose next bytes are known"
named_theorems appends "writer operations as an append of the bytes they write to an empty buffer"

text \<open>
  What every component shares: machine words by their C++ names, the error of
  \<^verbatim>\<open>oracle_scanner/protocol_error.hpp\<close>, sequencing of fallible code, C-locale character
  classes, big-endian byte strings, and the collections of rewrite rules the component
  theories fill.

  A C++ \<^verbatim>\<open>size_t\<close> is a \<^typ>\<open>nat\<close>: it counts bytes or objects held in memory.
  Where the source subtracts two of them and nothing local rules out an underflow, the
  model uses \<open>size_sub\<close>, which wraps at 64 bits as the source does.
\<close>

section \<open>Machine words\<close>

type_synonym u8 = "8 word"
type_synonym u16 = "16 word"
type_synonym u32 = "32 word"
type_synonym u64 = "64 word"
type_synonym bytes = "u8 list"

definition size_sub :: "nat \<Rightarrow> nat \<Rightarrow> nat" where
  "size_sub a b = (if b \<le> a then a - b else 2 ^ 64 + a - b)"

lemma size_sub_le [simp]: "b \<le> a \<Longrightarrow> size_sub a b = a - b"
  by (simp add: size_sub_def)

section \<open>Errors and sequencing\<close>

text \<open>
  \<^verbatim>\<open>ProtocolError\<close> carries a kind, a diagnostic text and, for a refusal by the server,
  the ORA code. Control flow depends on the kind and on the code only (a caller reads more
  of a response exactly when the kind is \<open>TRUNCATED\<close>), so the diagnostic text is the
  one field that is not kept.
\<close>

datatype error_kind = TRUNCATED | MALFORMED | LIMIT_EXCEEDED | INVALID_STATE | UNSUPPORTED

datatype protocol_error = ProtocolError (Kind: error_kind) (OracleCode: "u32 option")

type_synonym 'a result = "protocol_error + 'a"

abbreviation throw :: "error_kind \<Rightarrow> 'a result" where
  "throw k \<equiv> Inl (ProtocolError k None)"

definition andthen :: "('e + 'a) \<Rightarrow> ('a \<Rightarrow> 'e + 'b) \<Rightarrow> 'e + 'b" where
  "andthen m f = (case m of Inl e \<Rightarrow> Inl e | Inr a \<Rightarrow> f a)"

lemma andthen_simps [simp]:
  "andthen (Inl e) f = Inl e"
  "andthen (Inr a) f = f a"
  by (simp_all add: andthen_def)

lemma andthen_eq_Inr: "andthen m f = Inr b \<longleftrightarrow> (\<exists>a. m = Inr a \<and> f a = Inr b)"
  by (cases m) auto

text \<open>Code that runs a loop over a container and stops at the first exception.\<close>

fun collect :: "('a \<Rightarrow> 'e + 'b) \<Rightarrow> 'a list \<Rightarrow> 'e + 'b list" where
  "collect f [] = Inr []"
| "collect f (x # xs) = andthen (f x) (\<lambda>y. andthen (collect f xs) (\<lambda>ys. Inr (y # ys)))"

lemma collect_length: "collect f xs = Inr ys \<Longrightarrow> length ys = length xs"
  by (induction xs arbitrary: ys) (auto simp: andthen_eq_Inr)

lemma collect_pure: "(\<And>x. x \<in> set xs \<Longrightarrow> f x = Inr (g x)) \<Longrightarrow> collect f xs = Inr (map g xs)"
  by (induction xs) auto

text \<open>The same for a loop that updates a state as it goes.\<close>

fun each :: "('a \<Rightarrow> 's \<Rightarrow> 'e + 's) \<Rightarrow> 'a list \<Rightarrow> 's \<Rightarrow> 'e + 's" where
  "each f [] s = Inr s"
| "each f (x # xs) s = andthen (f x s) (each f xs)"

lemma each_Inr_appends:
  "(\<And>x w w'. f x w = Inr w' \<Longrightarrow> x \<in> set xs \<Longrightarrow> w' = w @ g x) \<Longrightarrow> each f xs w = Inr w' \<Longrightarrow>
   w' = w @ concat (map g xs)"
proof (induction xs arbitrary: w)
  case (Cons x xs)
  then obtain w1 where "f x w = Inr w1" "each f xs w1 = Inr w'"
    by (auto simp: andthen_eq_Inr)
  with Cons.prems(1)[of x w w1] Cons.IH[of w1] Cons.prems(1) show ?case by simp
qed simp

lemma each_Inr_step: "each f xs w = Inr w' \<Longrightarrow> x \<in> set xs \<Longrightarrow> \<exists>w1 w2. f x w1 = Inr w2"
  by (induction xs arbitrary: w) (auto simp: andthen_eq_Inr)

text \<open>
  An operation on an object: what it does to the object's state, and its value or exception.
  An exception does not undo the changes made before it.
\<close>

type_synonym ('s, 'a) action = "'s \<Rightarrow> 's \<times> 'a result"

definition returning :: "'a \<Rightarrow> ('s, 'a) action" where
  "returning a s = (s, Inr a)"

definition failing :: "error_kind \<Rightarrow> ('s, 'a) action" where
  "failing k s = (s, throw k)"

definition lifting :: "'a result \<Rightarrow> ('s, 'a) action" where
  "lifting r s = (s, r)"

definition after :: "('s, 'a) action \<Rightarrow> ('a \<Rightarrow> ('s, 'b) action) \<Rightarrow> ('s, 'b) action" where
  "after m f s = (case m s of (s', Inl e) \<Rightarrow> (s', Inl e) | (s', Inr a) \<Rightarrow> f a s')"

lemma after_simps [simp]:
  "m s = (s', Inl e) \<Longrightarrow> after m f s = (s', Inl e)"
  "m s = (s', Inr a) \<Longrightarrow> after m f s = f a s'"
  "after (returning a) f s = f a s"
  "after (lifting (Inl e)) f s = (s, Inl e)"
  "after (lifting (Inr a)) f s = f a s"
  "after (failing k) f s = (s, throw k)"
  by (simp_all add: after_def returning_def lifting_def failing_def)

lemma after_eq_Inr:
  "after m f s = (s'', Inr b) \<longleftrightarrow> (\<exists>a s'. m s = (s', Inr a) \<and> f a s' = (s'', Inr b))"
  by (auto simp: after_def split: prod.splits sum.splits)

lemma after_eq_Inl:
  "after m f s = (s'', Inl e) \<longleftrightarrow> m s = (s'', Inl e) \<or> (\<exists>a s'. m s = (s', Inr a) \<and> f a s' = (s'', Inl e))"
  by (auto simp: after_def split: prod.splits sum.splits)

section \<open>Characters in the C locale\<close>

abbreviation code_of :: "char \<Rightarrow> nat" where
  "code_of \<equiv> of_char"

definition isdigit :: "char \<Rightarrow> bool" where
  "isdigit c \<longleftrightarrow> 48 \<le> code_of c \<and> code_of c \<le> 57"

definition isupper :: "char \<Rightarrow> bool" where
  "isupper c \<longleftrightarrow> 65 \<le> code_of c \<and> code_of c \<le> 90"

definition islower :: "char \<Rightarrow> bool" where
  "islower c \<longleftrightarrow> 97 \<le> code_of c \<and> code_of c \<le> 122"

definition isalpha :: "char \<Rightarrow> bool" where
  "isalpha c \<longleftrightarrow> isupper c \<or> islower c"

definition isalnum :: "char \<Rightarrow> bool" where
  "isalnum c \<longleftrightarrow> isalpha c \<or> isdigit c"

definition isspace :: "char \<Rightarrow> bool" where
  "isspace c \<longleftrightarrow> code_of c = 32 \<or> (9 \<le> code_of c \<and> code_of c \<le> 13)"

definition toupper :: "char \<Rightarrow> char" where
  "toupper c = (if islower c then char_of (code_of c - 32) else c)"

definition tolower :: "char \<Rightarrow> char" where
  "tolower c = (if isupper c then char_of (code_of c + 32) else c)"

definition upper :: "string \<Rightarrow> string" where
  "upper = map toupper"

definition digit_value :: "char \<Rightarrow> nat" where
  "digit_value c = code_of c - 48"

text \<open>\<^verbatim>\<open>std::to_string\<close> of an unsigned number.\<close>

definition digit_char :: "nat \<Rightarrow> char" where
  "digit_char d = char_of (48 + d)"

fun decimal :: "nat \<Rightarrow> string" where
  "decimal n = (if n < 10 then [digit_char n] else decimal (n div 10) @ [digit_char (n mod 10)])"

declare decimal.simps [simp del]

lemma digit_char_simps [simp]:
  "d < 10 \<Longrightarrow> isdigit (digit_char d)"
  "d < 10 \<Longrightarrow> digit_value (digit_char d) = d"
  by (simp_all add: digit_char_def isdigit_def digit_value_def)

lemma decimal_digits: "list_all isdigit (decimal n)"
proof (induction n rule: decimal.induct)
  case (1 n)
  then show ?case by (subst decimal.simps) auto
qed

lemma decimal_not_Nil [simp]: "decimal n \<noteq> []"
  by (subst decimal.simps) simp

lemma decimal_value: "foldl (\<lambda>v c. v * 10 + digit_value c) 0 (decimal n) = n"
proof (induction n rule: decimal.induct)
  case (1 n)
  then show ?case by (subst decimal.simps) auto
qed

lemma decimal_leading: "0 < n \<Longrightarrow> hd (decimal n) \<noteq> CHR ''0''"
proof (induction n rule: decimal.induct)
  case (1 n)
  have "digit_char d \<noteq> CHR ''0''" if "0 < d" "d < 10" for d
    using that digit_char_simps(2)[of d] by (auto simp: digit_value_def)
  with 1 show ?case by (subst decimal.simps) (auto simp: hd_append)
qed

lemma code_of_lt [simp]: "code_of c < 256"
  by simp

lemma toupper_idem [simp]: "toupper (toupper c) = toupper c"
  by (auto simp: toupper_def islower_def)

lemma upper_idem [simp]: "upper (upper s) = upper s"
  by (simp add: upper_def)

lemma length_upper [simp]: "length (upper s) = length s"
  by (simp add: upper_def)

text \<open>A \<^verbatim>\<open>std::string\<close> and the byte vector with the same content.\<close>

definition to_bytes :: "string \<Rightarrow> bytes" where
  "to_bytes s = map of_char s"

definition to_string :: "bytes \<Rightarrow> string" where
  "to_string bs = map (\<lambda>b. char_of (unat b)) bs"

lemma to_bytes_length [simp]: "length (to_bytes s) = length s"
  by (simp add: to_bytes_def)

lemma to_string_length [simp]: "length (to_string bs) = length bs"
  by (simp add: to_string_def)

lemma unat_of_char [simp]: "unat (of_char c :: u8) = code_of c"
proof -
  have "(of_char c :: u8) = of_nat (code_of c)"
    by (rule of_nat_of_char [symmetric])
  then show ?thesis
    by (simp only: unat_of_nat) simp
qed

lemma to_string_to_bytes [simp]: "to_string (to_bytes s) = s"
  by (simp add: to_string_def to_bytes_def o_def)

lemma to_bytes_Nil_iff [simp]: "to_bytes s = [] \<longleftrightarrow> s = []"
  by (simp add: to_bytes_def)

lemma unat_pow2: "n < LENGTH('a) \<Longrightarrow> unat (2 ^ n :: 'a::len word) = 2 ^ n"
  by (simp add: unat_eq_nat_uint uint_2p word_greater_zero_iff)

lemma unat_ucast_up:
  assumes "LENGTH('a) \<le> LENGTH('b)"
  shows "unat (ucast (x :: 'a::len word) :: 'b::len word) = unat x"
proof -
  have "unat x < 2 ^ LENGTH('b)"
    using unsigned_less[of x] power_increasing[OF assms, of "2::nat"] by (meson less_le_trans one_le_numeral)
  then show ?thesis by (simp add: unsigned_ucast_eq take_bit_nat_eq_self)
qed

section \<open>Big-endian byte strings\<close>

definition be_bytes :: "nat \<Rightarrow> 'a::len word \<Rightarrow> bytes" where
  "be_bytes n v = map (\<lambda>i. ucast (drop_bit (8 * i) v)) (rev [0..<n])"

definition be_word :: "bytes \<Rightarrow> 'a::len word" where
  "be_word bs = foldl (\<lambda>a b. push_bit 8 a OR ucast b) 0 bs"

lemma be_bytes_0 [simp]: "be_bytes 0 v = []"
  by (simp add: be_bytes_def)

lemma length_be_bytes [simp]: "length (be_bytes n v) = n"
  by (simp add: be_bytes_def)

lemma be_word_Nil [simp]: "be_word [] = 0"
  by (simp add: be_word_def)

lemma be_word_snoc [simp]: "be_word (bs @ [b]) = push_bit 8 (be_word bs) OR ucast b"
  by (simp add: be_word_def)

lemma be_bytes_Suc: "be_bytes (Suc n) v = be_bytes n (drop_bit 8 v) @ [ucast v]"
proof -
  have "rev [0..<Suc n] = map Suc (rev [0..<n]) @ [0]"
    by (simp only: upt_conv_Cons[OF zero_less_Suc] rev.simps map_Suc_upt[symmetric] rev_map)
  then show ?thesis
    by (simp add: be_bytes_def o_def drop_bit_drop_bit add.commute)
qed

lemma be_bytes_Suc_msb: "be_bytes (Suc n) v = ucast (drop_bit (8 * n) v) # be_bytes n v"
  by (simp add: be_bytes_def)

lemma be_word_be_bytes: "be_word (be_bytes n v) = take_bit (8 * n) (v :: 'a::len word)"
proof (induction n arbitrary: v)
  case 0
  then show ?case by simp
next
  case (Suc n)
  have "push_bit 8 (take_bit (8 * n) (drop_bit 8 v)) OR ucast (ucast v :: u8) = take_bit (8 * Suc n) v"
    by (rule bit_word_eqI) (auto simp: bit_simps)
  with Suc show ?case
    by (simp add: be_bytes_Suc)
qed

lemma be_word_be_bytes_full:
  "LENGTH('a) \<le> 8 * n \<Longrightarrow> be_word (be_bytes n v) = (v :: 'a::len word)"
  by (simp add: be_word_be_bytes take_bit_word_eq_self)

lemma be_word_be_bytes_small:
  "unat v < 2 ^ (8 * n) \<Longrightarrow> be_word (be_bytes n v) = (v :: 'a::len word)"
  by (simp add: be_word_be_bytes word_unat_eq_iff unsigned_take_bit_eq take_bit_nat_eq_self)

lemma bit_be_word: "bit (be_word bs :: 'a::len word) i \<Longrightarrow> i < 8 * length bs"
proof (induction bs arbitrary: i rule: rev_induct)
  case (snoc b bs)
  then consider "8 \<le> i" "bit (be_word bs :: 'a word) (i - 8)" | "bit (ucast b :: 'a word) i"
    by (auto simp: bit_simps)
  then show ?case
  proof cases
    case 1
    with snoc.IH[of "i - 8"] show ?thesis by auto
  qed (auto simp: bit_simps dest: bit_imp_le_length)
qed simp

lemma be_bytes_be_word:
  "8 * length bs \<le> LENGTH('a) \<Longrightarrow> be_bytes (length bs) (be_word bs :: 'a::len word) = bs"
proof (induction bs rule: rev_induct)
  case (snoc b bs)
  have up: "drop_bit 8 (push_bit 8 (be_word bs) OR ucast b :: 'a word) = be_word bs"
  proof (rule bit_word_eqI)
    fix i assume "i < LENGTH('a)"
    show "bit (drop_bit 8 (push_bit 8 (be_word bs) OR ucast b :: 'a word)) i = bit (be_word bs :: 'a word) i"
      using snoc.prems bit_be_word[of bs i, where 'a = 'a] bit_imp_le_length[of b "8 + i"] by (auto simp: bit_simps add.commute)
  qed
  have low: "ucast (push_bit 8 (be_word bs) OR ucast b :: 'a word) = b"
  proof (rule bit_word_eqI)
    fix i assume "i < LENGTH(8)"
    then show "bit (ucast (push_bit 8 (be_word bs) OR ucast b :: 'a word) :: u8) i = bit b i"
      using snoc.prems by (auto simp: bit_simps)
  qed
  from snoc up low show ?case by (simp add: be_bytes_Suc)
qed simp

lemma be_word_inject:
  assumes "length bs = length cs" "8 * length bs \<le> LENGTH('a)" "(be_word bs :: 'a::len word) = be_word cs"
  shows "bs = cs"
  using be_bytes_be_word[OF assms(2)] be_bytes_be_word[of cs, where 'a = 'a] assms by metis

end
