(* ===== verification/Byte_Buffer.thy ===== *)
theory Byte_Buffer
  imports Prelude
begin

text \<open>
  \<^verbatim>\<open>src/byte_buffer.cpp\<close>: the \<^verbatim>\<open>ByteReader\<close> every decoder reads through and the
  \<^verbatim>\<open>ByteWriter\<close> every encoder writes through. A reader operation is a function from the
  reader to an error or a value and the advanced reader; a writer operation returns the
  written buffer.

  Two interfaces are stated here. \<open>wire_reader\<close> is what the message decoders rely on:
  an operation leaves the buffer alone, moves forward, stays inside it, and never depends
  on the bytes after those it consumed. \<open>wire_codec\<close> adds that the operation reads
  back what an encoder wrote. Both compose, and both are interpreted for every operation
  of the class.
\<close>

section \<open>ByteReader\<close>

record byte_reader =
  rd_data :: bytes
  rd_position :: nat

type_synonym 'a reader = "byte_reader \<Rightarrow> ('a \<times> byte_reader) result"

definition new_reader :: "bytes \<Rightarrow> byte_reader" where
  "new_reader d = \<lparr>rd_data = d, rd_position = 0\<rparr>"

definition Remaining :: "byte_reader \<Rightarrow> nat" where
  "Remaining r = length (rd_data r) - rd_position r"

text \<open>Sequencing of reader operations: an exception abandons the rest.\<close>

definition ret :: "'a \<Rightarrow> 'a reader" where
  "ret a = (\<lambda>r. Inr (a, r))"

definition raise :: "error_kind \<Rightarrow> 'a reader" where
  "raise k = (\<lambda>r. throw k)"

definition bindr :: "'a reader \<Rightarrow> ('a \<Rightarrow> 'b reader) \<Rightarrow> 'b reader" where
  "bindr m f = (\<lambda>r. case m r of Inl e \<Rightarrow> Inl e | Inr (a, r') \<Rightarrow> f a r')"

definition thenr :: "'a reader \<Rightarrow> 'b reader \<Rightarrow> 'b reader" where
  "thenr m n = bindr m (\<lambda>_. n)"

text \<open>A counted loop that collects what each iteration reads.\<close>

fun repeatr :: "nat \<Rightarrow> 'a reader \<Rightarrow> 'a list reader" where
  "repeatr 0 m = ret []"
| "repeatr (Suc n) m = bindr m (\<lambda>a. bindr (repeatr n m) (\<lambda>as. ret (a # as)))"

text \<open>A condition that throws, a statement that only runs on a condition, a discarded result.\<close>

definition refuse :: "bool \<Rightarrow> error_kind \<Rightarrow> unit reader" where
  "refuse cond k = (if cond then raise k else ret ())"

definition whenr :: "bool \<Rightarrow> unit reader \<Rightarrow> unit reader" where
  "whenr cond m = (if cond then m else ret ())"

definition discard :: "'a reader \<Rightarrow> unit reader" where
  "discard m = bindr m (\<lambda>_. ret ())"

subsection \<open>The operations of the class\<close>

definition TNS_LONG_LENGTH_INDICATOR :: u8 where
  "TNS_LONG_LENGTH_INDICATOR = 254"

definition TNS_NULL_LENGTH_INDICATOR :: u8 where
  "TNS_NULL_LENGTH_INDICATOR = 255"

definition TNS_MAX_SHORT_LENGTH :: nat where
  "TNS_MAX_SHORT_LENGTH = 252"

definition ReadByte :: "u8 reader" where
  "ReadByte r = (if Remaining r = 0 then throw TRUNCATED
     else Inr (rd_data r ! rd_position r, r\<lparr>rd_position := rd_position r + 1\<rparr>))"

definition PeekByte :: "u8 reader" where
  "PeekByte r = (if Remaining r = 0 then throw TRUNCATED else Inr (rd_data r ! rd_position r, r))"

definition ReadRaw :: "nat \<Rightarrow> bytes reader" where
  "ReadRaw count r = (if count > Remaining r then throw TRUNCATED
     else Inr (take count (drop (rd_position r) (rd_data r)), r\<lparr>rd_position := rd_position r + count\<rparr>))"

definition Skip :: "nat \<Rightarrow> unit reader" where
  "Skip count = thenr (ReadRaw count) (ret ())"

definition ReadUInt16BE :: "u16 reader" where
  "ReadUInt16BE = bindr (ReadRaw 2) (\<lambda>bytes.
     ret (push_bit 8 (ucast (bytes ! 0)) OR ucast (bytes ! 1)))"

definition ReadUInt16LE :: "u16 reader" where
  "ReadUInt16LE = bindr (ReadRaw 2) (\<lambda>bytes.
     ret (push_bit 8 (ucast (bytes ! 1)) OR ucast (bytes ! 0)))"

definition ReadUInt32BE :: "u32 reader" where
  "ReadUInt32BE = bindr (ReadRaw 4) (\<lambda>bytes.
     ret (push_bit 24 (ucast (bytes ! 0)) OR push_bit 16 (ucast (bytes ! 1)) OR
          push_bit 8 (ucast (bytes ! 2)) OR ucast (bytes ! 3)))"

fun universal_loop :: "nat \<Rightarrow> u64 \<Rightarrow> u64 reader" where
  "universal_loop 0 result = ret result"
| "universal_loop (Suc n) result =
     bindr ReadByte (\<lambda>b. universal_loop n (push_bit 8 result OR ucast b))"

definition ReadUniversal :: "nat \<Rightarrow> u64 reader" where
  "ReadUniversal maximum_bytes = bindr ReadByte (\<lambda>length.
     if length AND 0x80 \<noteq> 0 then raise MALFORMED
     else if unat length > maximum_bytes then raise MALFORMED
     else universal_loop (unat length) 0)"

definition ReadUB4 :: "u32 reader" where
  "ReadUB4 = bindr (ReadUniversal 4) (\<lambda>v. ret (ucast v))"

definition ReadUB2 :: "u16 reader" where
  "ReadUB2 = bindr (ReadUniversal 2) (\<lambda>v. ret (ucast v))"

definition ReadUB8 :: "u64 reader" where
  "ReadUB8 = ReadUniversal 8"

text \<open>
  The chunked form of a length-prefixed value is a loop with no bound of its own. Each turn
  consumes at least the length byte of its chunk size, so the unread part of the buffer is
  its measure; the guard of the equation is never false for a turn that read something.
\<close>

function chunk_loop :: "nat \<Rightarrow> bytes \<Rightarrow> bytes option reader" where
  "chunk_loop maximum_size result r =
     (case ReadUB4 r of Inl e \<Rightarrow> Inl e
      | Inr (n, r1) \<Rightarrow>
        if n = 0 then Inr (if result = [] then None else Some result, r1)
        else if unat n > size_sub maximum_size (length result) then throw LIMIT_EXCEEDED
        else (case ReadRaw (unat n) r1 of Inl e \<Rightarrow> Inl e
              | Inr (chunk, r2) \<Rightarrow>
                if Remaining r2 < Remaining r then chunk_loop maximum_size (result @ chunk) r2
                else throw TRUNCATED))"
  by pat_completeness auto
termination
  by (relation "measure (\<lambda>(m, b, r). Remaining r)") auto

declare chunk_loop.simps [simp del]

definition ReadLengthPrefixed :: "nat \<Rightarrow> bytes option reader" where
  "ReadLengthPrefixed maximum_size = bindr ReadByte (\<lambda>first.
     if first = 0 \<or> first = TNS_NULL_LENGTH_INDICATOR then ret None
     else if first \<noteq> TNS_LONG_LENGTH_INDICATOR then
       (if unat first > maximum_size then raise LIMIT_EXCEEDED
        else bindr (ReadRaw (unat first)) (\<lambda>v. ret (Some v)))
     else chunk_loop maximum_size [])"

fun null_terminated_loop :: "nat \<Rightarrow> string \<Rightarrow> string reader" where
  "null_terminated_loop 0 result = raise LIMIT_EXCEEDED"
| "null_terminated_loop (Suc n) result =
     bindr ReadByte (\<lambda>byte. if byte = 0 then ret result
       else null_terminated_loop n (result @ [char_of (unat byte)]))"

definition ReadNullTerminated :: "nat \<Rightarrow> string reader" where
  "ReadNullTerminated maximum_size = null_terminated_loop (maximum_size + 1) []"

section \<open>ByteWriter\<close>

type_synonym byte_writer = bytes

definition WriteByte :: "u8 \<Rightarrow> byte_writer \<Rightarrow> byte_writer" where
  "WriteByte value w = w @ [value]"

definition WriteUInt16BE :: "u16 \<Rightarrow> byte_writer \<Rightarrow> byte_writer" where
  "WriteUInt16BE value w = w @ [ucast (drop_bit 8 value)] @ [ucast value]"

definition WriteUInt16LE :: "u16 \<Rightarrow> byte_writer \<Rightarrow> byte_writer" where
  "WriteUInt16LE value w = w @ [ucast value] @ [ucast (drop_bit 8 value)]"

definition WriteUInt32BE :: "u32 \<Rightarrow> byte_writer \<Rightarrow> byte_writer" where
  "WriteUInt32BE value w = w @ [ucast (drop_bit 24 value)] @ [ucast (drop_bit 16 value)]
     @ [ucast (drop_bit 8 value)] @ [ucast value]"

definition WriteRaw :: "bytes \<Rightarrow> byte_writer \<Rightarrow> byte_writer" where
  "WriteRaw value w = w @ value"

function universal_width :: "u64 \<Rightarrow> nat \<Rightarrow> nat \<Rightarrow> nat" where
  "universal_width value maximum_bytes bytes =
     (if bytes < maximum_bytes \<and> value \<ge> push_bit (bytes * 8) 1
      then universal_width value maximum_bytes (bytes + 1) else bytes)"
  by pat_completeness auto
termination
  by (relation "measure (\<lambda>(v, m, b). m - b)") auto

declare universal_width.simps [simp del]

definition WriteUniversal :: "u64 \<Rightarrow> nat \<Rightarrow> byte_writer \<Rightarrow> byte_writer" where
  "WriteUniversal value maximum_bytes w =
     (if value = 0 then WriteByte 0 w
      else let bytes = universal_width value maximum_bytes 1
           in fold (\<lambda>index. WriteByte (ucast (drop_bit ((index - 1) * 8) value)))
                (rev [1..<bytes + 1]) (WriteByte (of_nat bytes) w))"

definition WriteUB4 :: "u32 \<Rightarrow> byte_writer \<Rightarrow> byte_writer" where
  "WriteUB4 value = WriteUniversal (ucast value) 4"

definition WriteUB2 :: "u16 \<Rightarrow> byte_writer \<Rightarrow> byte_writer" where
  "WriteUB2 value = WriteUniversal (ucast value) 2"

definition WriteUB8 :: "u64 \<Rightarrow> byte_writer \<Rightarrow> byte_writer" where
  "WriteUB8 value = WriteUniversal value 8"

definition chunk_size :: nat where
  "chunk_size = 0x8000"

function write_chunks :: "bytes \<Rightarrow> nat \<Rightarrow> byte_writer \<Rightarrow> byte_writer" where
  "write_chunks value offset w =
     (if offset < length value then
        (let count = min chunk_size (length value - offset)
         in write_chunks value (offset + count)
              (WriteRaw (take count (drop offset value)) (WriteUB4 (of_nat count) w)))
      else WriteUB4 0 w)"
  by pat_completeness auto
termination
  by (relation "measure (\<lambda>(v, off, w). length v - off)") (auto simp: chunk_size_def)

declare write_chunks.simps [simp del]

definition WriteLengthPrefixed :: "bytes option \<Rightarrow> byte_writer \<Rightarrow> byte_writer" where
  "WriteLengthPrefixed value w =
     (case value of None \<Rightarrow> WriteByte TNS_NULL_LENGTH_INDICATOR w
      | Some v \<Rightarrow>
        if v = [] then WriteByte TNS_NULL_LENGTH_INDICATOR w
        else if length v \<le> TNS_MAX_SHORT_LENGTH then WriteRaw v (WriteByte (of_nat (length v)) w)
        else write_chunks v 0 (WriteByte TNS_LONG_LENGTH_INDICATOR w))"

definition WriteNullTerminated :: "string \<Rightarrow> byte_writer \<Rightarrow> byte_writer" where
  "WriteNullTerminated value w = WriteByte 0 (WriteRaw (to_bytes value) w)"

text \<open>A chain of writer calls, in the order the source writes it.\<close>

definition writes :: "(byte_writer \<Rightarrow> byte_writer) list \<Rightarrow> byte_writer \<Rightarrow> byte_writer" where
  "writes ops w = fold (\<lambda>f. f) ops w"

lemma writes_simps [simp]: "writes [] w = w" "writes (f # fs) w = writes fs (f w)"
  by (simp_all add: writes_def)

section \<open>What a decoder relies on\<close>

definition reader_ok :: "byte_reader \<Rightarrow> bool" where
  "reader_ok r \<longleftrightarrow> rd_position r \<le> length (rd_data r)"

definition feed :: "byte_reader \<Rightarrow> bytes \<Rightarrow> byte_reader" where
  "feed r ys = r\<lparr>rd_data := rd_data r @ ys\<rparr>"

lemma feed_simps [simp]:
  "rd_position (feed r ys) = rd_position r"
  "rd_data (feed r ys) = rd_data r @ ys"
  "reader_ok r \<Longrightarrow> reader_ok (feed r ys)"
  "feed (new_reader xs) ys = new_reader (xs @ ys)"
  by (simp_all add: feed_def reader_ok_def new_reader_def)

lemma reader_ok_new [simp]: "reader_ok (new_reader bs)"
  by (simp add: reader_ok_def new_reader_def)

locale wire_reader =
  fixes get :: "'a reader"
  assumes advances: "\<lbrakk>reader_ok r; get r = Inr (a, r')\<rbrakk> \<Longrightarrow>
      rd_data r' = rd_data r \<and> rd_position r \<le> rd_position r' \<and> reader_ok r'"
    and extends: "\<lbrakk>reader_ok r; get r = Inr (a, r')\<rbrakk> \<Longrightarrow> get (feed r ys) = Inr (a, feed r' ys)"
    and fails: "\<lbrakk>reader_ok r; get r = Inl e\<rbrakk> \<Longrightarrow> Kind e = TRUNCATED \<or> get (feed r ys) = Inl e"
begin

lemma keeps_ok: "\<lbrakk>reader_ok r; get r = Inr (a, r')\<rbrakk> \<Longrightarrow> reader_ok r'"
  using advances by blast

lemma remaining_le: "\<lbrakk>reader_ok r; get r = Inr (a, r')\<rbrakk> \<Longrightarrow> Remaining r' \<le> Remaining r"
  by (drule (1) advances) (auto simp: Remaining_def intro: diff_le_mono2)

lemma extended_result:
  assumes "reader_ok r"
  shows "(\<exists>e. get r = Inl e \<and> Kind e = TRUNCATED) \<or>
    get (feed r ys) = map_sum id (\<lambda>(a, r'). (a, feed r' ys)) (get r)"
proof (cases "get r")
  case (Inl e)
  then show ?thesis using fails[OF assms Inl, of ys] by auto
next
  case (Inr x)
  then show ?thesis using extends[OF assms, of "fst x" "snd x" ys] by (cases x) auto
qed

end

text \<open>The interface composes: it is enough to know it for the operations.\<close>

lemma bindr_simps:
  "bindr m f r = Inr (b, r'') \<longleftrightarrow> (\<exists>a r'. m r = Inr (a, r') \<and> f a r' = Inr (b, r''))"
  "bindr m f r = Inl e \<longleftrightarrow> m r = Inl e \<or> (\<exists>a r'. m r = Inr (a, r') \<and> f a r' = Inl e)"
  by (auto simp: bindr_def split: sum.splits)

lemma bindr_Inr [simp]: "m r = Inr (a, r') \<Longrightarrow> bindr m f r = f a r'"
  by (simp add: bindr_def)

lemma bindr_Inl [simp]: "m r = Inl e \<Longrightarrow> bindr m f r = Inl e"
  by (simp add: bindr_def)

lemma bindr_ret_left [simp]: "bindr (ret a) f = f a"
  by (simp add: bindr_def ret_def fun_eq_iff)

lemma wire_ret [wire_intros, simp]: "wire_reader (ret a)"
  by unfold_locales (auto simp: ret_def)

lemma wire_raise [wire_intros, simp]: "wire_reader (raise k)"
  by unfold_locales (auto simp: raise_def)

text \<open>The interface at one reader, for loops whose termination needs the reader.\<close>

definition wire_at :: "'a reader \<Rightarrow> byte_reader \<Rightarrow> bool" where
  "wire_at get r \<longleftrightarrow>
     (case get r of
        Inl e \<Rightarrow> Kind e = TRUNCATED \<or> (\<forall>ys. get (feed r ys) = Inl e)
      | Inr (a, r') \<Rightarrow> rd_data r' = rd_data r \<and> rd_position r \<le> rd_position r' \<and> reader_ok r' \<and>
          (\<forall>ys. get (feed r ys) = Inr (a, feed r' ys)))"

lemma wire_reader_iff: "wire_reader get \<longleftrightarrow> (\<forall>r. reader_ok r \<longrightarrow> wire_at get r)"
proof (intro iffI allI impI)
  fix r assume g: "wire_reader get" and ok: "reader_ok r"
  show "wire_at get r"
  proof (cases "get r")
    case (Inl e)
    then show ?thesis using wire_reader.fails[OF g ok Inl] by (auto simp: wire_at_def)
  next
    case (Inr x)
    then obtain a r' where x: "get r = Inr (a, r')" by (cases x) simp
    show ?thesis using wire_reader.advances[OF g ok x] wire_reader.extends[OF g ok x]
      by (simp add: wire_at_def x)
  qed
next
  assume a: "\<forall>r. reader_ok r \<longrightarrow> wire_at get r"
  show "wire_reader get"
  proof
    fix r assume ok: "reader_ok r"
    then have w: "wire_at get r" using a by blast
    { fix b r' assume "get r = Inr (b, r')"
      then show "rd_data r' = rd_data r \<and> rd_position r \<le> rd_position r' \<and> reader_ok r'"
        and "get (feed r ys) = Inr (b, feed r' ys)" for ys
        using w by (auto simp: wire_at_def) }
    { fix e ys assume "get r = Inl e"
      then show "Kind e = TRUNCATED \<or> get (feed r ys) = Inl e"
        using w by (auto simp: wire_at_def) }
  qed
qed

lemma wire_atD: "\<lbrakk>wire_reader get; reader_ok r\<rbrakk> \<Longrightarrow> wire_at get r"
  by (simp add: wire_reader_iff)

lemma feed_Nil [simp]: "feed r [] = r"
  by (simp add: feed_def)

lemma wire_at_cong:
  assumes "\<And>ys. get (feed r ys) = get' (feed r ys)"
  shows "wire_at get r \<longleftrightarrow> wire_at get' r"
  using assms assms[of "[]"] by (simp add: wire_at_def del: feed_simps split: sum.split prod.split)

lemma wire_at_bindr:
  assumes "wire_at m r" and "\<And>a r'. m r = Inr (a, r') \<Longrightarrow> wire_at (f a) r'"
  shows "wire_at (bindr m f) r"
proof (cases "m r")
  case (Inl e)
  then show ?thesis using assms(1) by (auto simp: wire_at_def bindr_def)
next
  case (Inr x)
  then obtain a r' where x: "m r = Inr (a, r')" by (cases x) simp
  from assms(1) x have m: "rd_data r' = rd_data r" "rd_position r \<le> rd_position r'"
    "m (feed r ys) = Inr (a, feed r' ys)" for ys
    by (simp_all add: wire_at_def)
  show ?thesis
  proof (cases "f a r'")
    case (Inl e)
    then show ?thesis using assms(2)[OF x] by (simp add: wire_at_def x m)
  next
    case (Inr y)
    then show ?thesis using assms(2)[OF x] m(2) by (cases y) (auto simp: wire_at_def x m(1,3))
  qed
qed

lemma wire_bindr [wire_intros]:
  assumes m: "wire_reader m" and f: "\<And>a. wire_reader (f a)"
  shows "wire_reader (bindr m f)"
  unfolding wire_reader_iff
  using wire_at_bindr wire_atD[OF m] wire_atD[OF f] wire_reader.keeps_ok[OF m] by metis

lemma wire_thenr [wire_intros]: "\<lbrakk>wire_reader m; wire_reader n\<rbrakk> \<Longrightarrow> wire_reader (thenr m n)"
  unfolding thenr_def by (intro wire_intros)

lemma wire_if [wire_intros]: "\<lbrakk>P \<Longrightarrow> wire_reader m; \<not> P \<Longrightarrow> wire_reader n\<rbrakk> \<Longrightarrow> wire_reader (if P then m else n)"
  by simp

lemma wire_Let [wire_intros]: "(\<And>x. wire_reader (f x)) \<Longrightarrow> wire_reader (let x = a in f x)"
  by simp

lemma wire_option [wire_intros]:
  "\<lbrakk>wire_reader m; \<And>x. wire_reader (f x)\<rbrakk> \<Longrightarrow> wire_reader (case v of None \<Rightarrow> m | Some x \<Rightarrow> f x)"
  by (cases v) auto

lemma wire_prod [wire_intros]: "(\<And>x y. wire_reader (f x y)) \<Longrightarrow> wire_reader (case v of (x, y) \<Rightarrow> f x y)"
  by (cases v) auto

lemma wire_refuse [wire_intros, simp]: "wire_reader (refuse c k)"
  unfolding refuse_def by (intro wire_intros)

lemma wire_whenr [wire_intros]: "wire_reader m \<Longrightarrow> wire_reader (whenr c m)"
  unfolding whenr_def by (intro wire_intros)

lemma wire_discard [wire_intros]: "wire_reader m \<Longrightarrow> wire_reader (discard m)"
  unfolding discard_def by (intro wire_intros)

lemma wire_repeatr [wire_intros]: "wire_reader m \<Longrightarrow> wire_reader (repeatr n m)"
  by (induction n) (auto intro!: wire_intros)

subsection \<open>Every operation of the class is such a reader\<close>

interpretation read_byte: wire_reader ReadByte
  by unfold_locales
    (auto simp: ReadByte_def Remaining_def reader_ok_def feed_def nth_append split: if_splits)

interpretation peek_byte: wire_reader PeekByte
  by unfold_locales
    (auto simp: PeekByte_def Remaining_def reader_ok_def feed_def nth_append split: if_splits)

interpretation read_raw: wire_reader "ReadRaw n" for n
  by unfold_locales
    (auto simp: ReadRaw_def Remaining_def reader_ok_def feed_def split: if_splits)

lemmas wire_operations [wire_intros] =
  read_byte.wire_reader_axioms peek_byte.wire_reader_axioms read_raw.wire_reader_axioms

interpretation skip: wire_reader "Skip n" for n
  unfolding Skip_def by (intro wire_intros)

interpretation read_uint16_be: wire_reader ReadUInt16BE
  unfolding ReadUInt16BE_def by (intro wire_intros)

interpretation read_uint16_le: wire_reader ReadUInt16LE
  unfolding ReadUInt16LE_def by (intro wire_intros)

interpretation read_uint32_be: wire_reader ReadUInt32BE
  unfolding ReadUInt32BE_def by (intro wire_intros)

lemma wire_universal_loop [wire_intros]: "wire_reader (universal_loop n result)"
  by (induction n arbitrary: result) (auto intro!: wire_intros)

interpretation read_universal: wire_reader "ReadUniversal n" for n
  unfolding ReadUniversal_def by (intro wire_intros)

interpretation read_ub2: wire_reader ReadUB2
  unfolding ReadUB2_def by (intro wire_intros read_universal.wire_reader_axioms)

interpretation read_ub4: wire_reader ReadUB4
  unfolding ReadUB4_def by (intro wire_intros read_universal.wire_reader_axioms)

interpretation read_ub8: wire_reader ReadUB8
  unfolding ReadUB8_def by (rule read_universal.wire_reader_axioms)

lemmas wire_integers [wire_intros] =
  skip.wire_reader_axioms read_uint16_be.wire_reader_axioms read_uint16_le.wire_reader_axioms
  read_uint32_be.wire_reader_axioms read_universal.wire_reader_axioms
  read_ub2.wire_reader_axioms read_ub4.wire_reader_axioms read_ub8.wire_reader_axioms

text \<open>The loops: a turn of the chunk loop always consumes its size byte.\<close>

lemma universal_consumes:
  assumes "reader_ok r" and "ReadUniversal n r = Inr (v, r')"
  shows "Remaining r' < Remaining r"
proof -
  define k where "k b = (if b AND 0x80 \<noteq> 0 then raise MALFORMED
    else if unat b > n then raise MALFORMED else universal_loop (unat b) 0)" for b :: u8
  obtain b r1 where 1: "ReadByte r = Inr (b, r1)" and 2: "k b r1 = Inr (v, r')"
    using assms(2) unfolding ReadUniversal_def k_def[symmetric] bindr_simps by blast
  have "wire_reader (k b)" unfolding k_def by (intro wire_intros)
  from wire_reader.remaining_le[OF this read_byte.keeps_ok[OF assms(1) 1] 2]
  show ?thesis using 1 by (auto simp: ReadByte_def Remaining_def split: if_splits)
qed

lemma ub4_consumes:
  "\<lbrakk>reader_ok r; ReadUB4 r = Inr (v, r')\<rbrakk> \<Longrightarrow> Remaining r' < Remaining r"
  by (auto simp: ReadUB4_def bindr_simps ret_def dest: universal_consumes)

lemma chunk_loop_unfold:
  assumes "reader_ok r"
  shows "chunk_loop m result r = bindr ReadUB4 (\<lambda>n.
    if n = 0 then ret (if result = [] then None else Some result)
    else if unat n > size_sub m (length result) then raise LIMIT_EXCEEDED
    else bindr (ReadRaw (unat n)) (\<lambda>chunk. chunk_loop m (result @ chunk))) r"
proof -
  have "Remaining r2 < Remaining r" if "ReadUB4 r = Inr (n, r1)" "ReadRaw (unat n) r1 = Inr (chunk, r2)" for n r1 chunk r2
    using ub4_consumes[OF assms that(1)] read_raw.remaining_le[OF read_ub4.keeps_ok[OF assms that(1)] that(2)]
    by simp
  then show ?thesis
    by (subst chunk_loop.simps) (auto simp: bindr_def ret_def raise_def split: sum.splits)
qed

lemma wire_at_chunk_loop: "reader_ok r \<Longrightarrow> wire_at (chunk_loop m result) r"
proof (induction m result r rule: chunk_loop.induct)
  case (1 m result r)
  let ?step = "\<lambda>n. if n = 0 then ret (if result = [] then None else Some result)
    else if unat n > size_sub m (length result) then raise LIMIT_EXCEEDED
    else bindr (ReadRaw (unat n)) (\<lambda>chunk. chunk_loop m (result @ chunk))"
  have "wire_at (bindr ReadUB4 ?step) r"
  proof (rule wire_at_bindr)
    show "wire_at ReadUB4 r" using 1(2) by (rule wire_atD[OF read_ub4.wire_reader_axioms])
    fix n r1 assume n: "ReadUB4 r = Inr (n, r1)"
    note ok1 = read_ub4.keeps_ok[OF 1(2) n]
    show "wire_at (?step n) r1"
    proof (cases "n = 0 \<or> unat n > size_sub m (length result)")
      case True
      then show ?thesis using wire_atD[OF wire_ret ok1] wire_atD[OF wire_raise ok1] by auto
    next
      case False
      have "wire_at (bindr (ReadRaw (unat n)) (\<lambda>chunk. chunk_loop m (result @ chunk))) r1"
      proof (rule wire_at_bindr)
        show "wire_at (ReadRaw (unat n)) r1" using ok1 by (rule wire_atD[OF read_raw.wire_reader_axioms])
        fix chunk r2 assume c: "ReadRaw (unat n) r1 = Inr (chunk, r2)"
        have "Remaining r2 < Remaining r"
          using ub4_consumes[OF 1(2) n] read_raw.remaining_le[OF ok1 c] by simp
        then show "wire_at (chunk_loop m (result @ chunk)) r2"
          using 1(1)[OF n refl _ _ c refl] False read_raw.keeps_ok[OF ok1 c] by blast
      qed
      with False show ?thesis by simp
    qed
  qed
  then show ?case
    using wire_at_cong[of "chunk_loop m result" r "bindr ReadUB4 ?step"] chunk_loop_unfold[of "feed r _" m result] 1(2)
    by simp
qed

lemma wire_chunk_loop [wire_intros]: "wire_reader (chunk_loop m result)"
  by (simp add: wire_reader_iff wire_at_chunk_loop)

interpretation read_length_prefixed: wire_reader "ReadLengthPrefixed n" for n
  unfolding ReadLengthPrefixed_def by (intro wire_intros)

lemma wire_null_terminated_loop [wire_intros]: "wire_reader (null_terminated_loop n result)"
  by (induction n arbitrary: result) (auto intro!: wire_intros)

interpretation read_null_terminated: wire_reader "ReadNullTerminated n" for n
  unfolding ReadNullTerminated_def by (intro wire_intros)

lemmas wire_values [wire_intros] =
  read_length_prefixed.wire_reader_axioms read_null_terminated.wire_reader_axioms

section \<open>What an encoder promises\<close>

text \<open>
  \<open>parses get bs a\<close>: wherever the bytes \<open>bs\<close> stand in a buffer, \<open>get\<close> consumes exactly them
  and returns \<open>a\<close>.
\<close>

definition reader_at :: "bytes \<Rightarrow> bytes \<Rightarrow> byte_reader" where
  "reader_at pre post = \<lparr>rd_data = pre @ post, rd_position = length pre\<rparr>"

definition parses :: "'a reader \<Rightarrow> bytes \<Rightarrow> 'a \<Rightarrow> bool" where
  "parses get bs a \<longleftrightarrow>
     (\<forall>pre post. get (reader_at pre (bs @ post)) = Inr (a, reader_at (pre @ bs) post))"

lemma reader_at_simps [simp]:
  "Remaining (reader_at pre post) = length post"
  "rd_position (reader_at pre post) = length pre"
  "rd_data (reader_at pre post) = pre @ post"
  "reader_ok (reader_at pre post)"
  by (simp_all add: reader_at_def Remaining_def reader_ok_def)

lemma new_reader_at: "new_reader bs = reader_at [] bs"
  by (simp add: new_reader_def reader_at_def)

lemma parsesD: "parses get bs a \<Longrightarrow> get (reader_at pre (bs @ post)) = Inr (a, reader_at (pre @ bs) post)"
  by (simp add: parses_def)

lemma parses_all: "parses get bs a \<Longrightarrow> get (new_reader bs) = Inr (a, reader_at bs [])"
  using parsesD[of get bs a "[]" "[]"] by (simp add: new_reader_at)

lemma parses_cong:
  "(\<And>r. reader_ok r \<Longrightarrow> get r = get' r) \<Longrightarrow> parses get bs a \<longleftrightarrow> parses get' bs a"
  by (simp add: parses_def)

lemma parses_ret [parse_rules, simp]: "parses (ret a) [] a"
  by (simp add: parses_def ret_def)

lemma parses_bind:
  assumes "parses m bs a" and "parses (f a) cs b"
  shows "parses (bindr m f) (bs @ cs) b"
  using assms unfolding parses_def bindr_def by simp

lemma parses_then: "\<lbrakk>parses m bs a; parses n cs b\<rbrakk> \<Longrightarrow> parses (thenr m n) (bs @ cs) b"
  unfolding thenr_def by (rule parses_bind)

lemma parses_map: "parses m bs a \<Longrightarrow> parses (bindr m (\<lambda>x. ret (f x))) bs (f a)"
  using parses_bind[of m bs a "\<lambda>x. ret (f x)" "[]"] by simp

lemma parses_map_eq: "\<lbrakk>parses m bs a; f a = b\<rbrakk> \<Longrightarrow> parses (bindr m (\<lambda>x. ret (f x))) bs b"
  using parses_map[of m bs a f] by simp

lemma parses_byte [parse_rules]: "parses ReadByte [b] b"
  by (simp add: parses_def ReadByte_def reader_at_def Remaining_def)

lemma parses_byte_bind: "parses (f b) bs a \<Longrightarrow> parses (bindr ReadByte f) (b # bs) a"
  using parses_bind[OF parses_byte] by fastforce

lemma parses_peek_bind: "parses (f b) (b # bs) a \<Longrightarrow> parses (bindr PeekByte f) (b # bs) a"
  by (simp add: parses_def PeekByte_def bindr_def)

lemma parses_raw [parse_rules]: "length bs = n \<Longrightarrow> parses (ReadRaw n) bs bs"
  by (auto simp: parses_def ReadRaw_def reader_at_def Remaining_def)

lemma parses_skip [parse_rules]: "length bs = n \<Longrightarrow> parses (Skip n) bs ()"
  unfolding Skip_def using parses_then[OF parses_raw parses_ret] by fastforce

lemma parses_refuse [simp]: "\<not> c \<Longrightarrow> parses (refuse c k) [] ()"
  by (simp add: refuse_def)

lemma refuse_simps [simp]: "refuse True k = raise k" "refuse False k = ret ()"
  by (simp_all add: refuse_def)

lemma whenr_simps [simp]: "whenr True m = m" "whenr False m = ret ()"
  by (simp_all add: whenr_def)

lemma thenr_ret [simp]: "thenr (ret a) m = m"
  by (simp add: thenr_def)

lemma parses_repeatr:
  "(\<And>x. x \<in> set xs \<Longrightarrow> parses get (f x) (g x)) \<Longrightarrow>
   parses (repeatr (length xs) get) (concat (map f xs)) (map g xs)"
proof (induction xs)
  case (Cons x xs)
  then have "parses (bindr (repeatr (length xs) get) (\<lambda>as. ret (g x # as)))
      (concat (map f xs)) (map g (x # xs))"
    using parses_map[of "repeatr (length xs) get" _ "map g xs"] by simp
  then show ?case
    using Cons.prems[of x] by (auto intro: parses_bind)
qed simp

locale wire_codec =
  fixes put :: "'a \<Rightarrow> byte_writer \<Rightarrow> byte_writer" and get :: "'b reader"
    and ok :: "'a \<Rightarrow> bool" and view :: "'a \<Rightarrow> 'b"
  assumes put_appends: "put a w = w @ put a []"
    and reads_back: "ok a \<Longrightarrow> parses get (put a []) (view a)"
begin

lemma reads_back_new: "ok a \<Longrightarrow> get (new_reader (put a [] @ post)) = Inr (view a, reader_at (put a []) post)"
  using parsesD[OF reads_back, of a "[]" post] by (simp add: new_reader_at)

lemma self_delimiting:
  assumes "ok a" "ok b" "put a [] @ xs = put b [] @ ys"
  shows "view a = view b \<and> xs = ys"
proof -
  have "Inr (view a, reader_at (put a []) xs) = (Inr (view b, reader_at (put b []) ys) :: _ result)"
    using reads_back_new[OF assms(1), of xs] reads_back_new[OF assms(2), of ys] assms(3) by simp
  then show ?thesis
    using assms(3) by (auto simp: reader_at_def)
qed

lemma fold_put: "fold put as w = w @ concat (map (\<lambda>a. put a []) as)"
proof (induction as arbitrary: w)
  case (Cons a as)
  show ?case using Cons[of "put a w"] put_appends[of a w] by simp
qed simp

lemma reads_back_list:
  "(\<And>a. a \<in> set as \<Longrightarrow> ok a) \<Longrightarrow> parses (repeatr (length as) get) (fold put as []) (map view as)"
  by (simp add: fold_put) (rule parses_repeatr, simp add: reads_back)

end

subsection \<open>Fixed-width integers\<close>

lemma writes_append [appends]:
  "WriteByte v w = w @ [v]"
  "WriteRaw bs w = w @ bs"
  "WriteUInt16BE v16 w = w @ be_bytes 2 v16"
  "WriteUInt16LE v16 w = w @ rev (be_bytes 2 v16)"
  "WriteUInt32BE v32 w = w @ be_bytes 4 v32"
  by (simp_all add: WriteByte_def WriteRaw_def WriteUInt16BE_def WriteUInt16LE_def
      WriteUInt32BE_def be_bytes_def upt_rec[of _ 2] upt_rec[of _ 4] numeral_eq_Suc)

lemma raw_split:
  "length bs = 2 \<Longrightarrow> push_bit 8 (ucast (bs ! 0)) OR ucast (bs ! 1) = (be_word bs :: u16)"
  "length bs = 2 \<Longrightarrow> push_bit 8 (ucast (bs ! 1)) OR ucast (bs ! 0) = (be_word (rev bs) :: u16)"
  by (auto simp: be_word_def length_Suc_conv numeral_eq_Suc)

lemma raw_split_4:
  assumes "length bs = 4"
  shows "push_bit 24 (ucast (bs ! 0)) OR push_bit 16 (ucast (bs ! 1)) OR
     push_bit 8 (ucast (bs ! 2)) OR ucast (bs ! 3) = (be_word bs :: u32)"
proof -
  have e: "push_bit 24 a OR push_bit 16 b OR push_bit 8 c OR d =
      push_bit 8 (push_bit 8 (push_bit 8 (push_bit 8 0 OR a) OR b) OR c) OR d" for a b c d :: u32
    by (rule bit_word_eqI) (auto simp: bit_simps not_less)
  from assms obtain a b c d where "bs = [a, b, c, d]"
    by (auto simp: length_Suc_conv numeral_eq_Suc)
  then show ?thesis
    unfolding be_word_def foldl.simps by (simp only: e nth_Cons_0 nth_Cons_numeral) simp
qed

interpretation byte: wire_codec WriteByte ReadByte "\<lambda>_. True" id
  by unfold_locales (auto simp: appends parses_byte)

interpretation raw: wire_codec WriteRaw "ReadRaw n" "\<lambda>bs. length bs = n" id for n
  by unfold_locales (auto simp: appends parses_raw)

interpretation uint16_be: wire_codec WriteUInt16BE ReadUInt16BE "\<lambda>_. True" id
proof (unfold_locales, goal_cases)
  case (2 a)
  show ?case
    unfolding ReadUInt16BE_def appends append_Nil id_apply
    by (rule parses_map_eq[OF parses_raw]) (simp, subst raw_split, simp_all add: be_word_be_bytes_full)
qed (simp add: appends)

interpretation uint16_le: wire_codec WriteUInt16LE ReadUInt16LE "\<lambda>_. True" id
proof (unfold_locales, goal_cases)
  case (2 a)
  show ?case
    unfolding ReadUInt16LE_def appends append_Nil id_apply
    by (rule parses_map_eq[OF parses_raw]) (simp, subst raw_split, simp_all add: be_word_be_bytes_full)
qed (simp add: appends)

interpretation uint32_be: wire_codec WriteUInt32BE ReadUInt32BE "\<lambda>_. True" id
proof (unfold_locales, goal_cases)
  case (2 a)
  show ?case
    unfolding ReadUInt32BE_def appends append_Nil id_apply
    by (rule parses_map_eq[OF parses_raw]) (simp, subst raw_split_4, simp_all add: be_word_be_bytes_full)
qed (simp add: appends)

subsection \<open>Universal integers\<close>

lemma fold_WriteByte: "fold (\<lambda>x. WriteByte (f x)) xs w = w @ map f xs"
  by (induction xs arbitrary: w) (simp_all add: WriteByte_def)

lemma WriteUniversal_eq:
  "WriteUniversal v m w = w @ (if v = 0 then [0]
     else of_nat (universal_width v m 1) # be_bytes (universal_width v m 1) v)"
proof -
  have "map (\<lambda>i. ucast (drop_bit ((i - 1) * 8) v)) (rev [1..<n + 1]) = be_bytes n v" for n
  proof -
    have "rev [1..<n + 1] = map Suc (rev [0..<n])"
      by (simp add: rev_map[symmetric] map_Suc_upt del: upt_Suc)
    then show ?thesis by (simp add: be_bytes_def o_def mult.commute)
  qed
  then show ?thesis
    by (simp add: WriteUniversal_def Let_def fold_WriteByte WriteByte_def)
qed

lemma universal_width_bounds:
  assumes "b \<le> m" "m \<le> 8" "unat v < 2 ^ (8 * m)"
  shows "b \<le> universal_width v m b \<and> universal_width v m b \<le> m \<and> unat v < 2 ^ (8 * universal_width v m b)"
  using assms
proof (induction v m b rule: universal_width.induct)
  case (1 v m b)
  show ?case
  proof (cases "b < m")
    case True
    have "unat (push_bit (b * 8) 1 :: u64) = 2 ^ (8 * b)"
      using True 1(3) by (simp add: push_bit_eq_mult mult.commute unat_pow2)
    then show ?thesis using 1 True
      by (subst (1 2 3) universal_width.simps) (auto simp: word_le_nat_alt not_le)
  next
    case False
    then show ?thesis using 1(2,4) by (subst (1 2 3) universal_width.simps) simp
  qed
qed

lemma parses_universal_loop [parse_rules]:
  "length bs = n \<Longrightarrow> parses (universal_loop n acc) bs (foldl (\<lambda>a b. push_bit 8 a OR ucast b) acc bs)"
proof (induction bs arbitrary: n acc)
  case (Cons b bs)
  then show ?case by (cases n) (auto intro: parses_byte_bind)
qed simp

lemma universal_reads_back:
  assumes "m \<le> 8" "unat v < 2 ^ (8 * m)" "0 < m"
  shows "parses (ReadUniversal m) (WriteUniversal v m []) v"
proof (cases "v = 0")
  case True
  then show ?thesis
    by (simp add: WriteUniversal_eq ReadUniversal_def) (rule parses_byte_bind, simp)
next
  case False
  define n where "n = universal_width v m 1"
  have n: "n \<le> m" "unat v < 2 ^ (8 * n)"
    using universal_width_bounds[of 1 m v] assms by (auto simp: n_def)
  have u: "unat (of_nat n :: u8) = n"
    using n(1) assms(1) by (simp add: unsigned_of_nat take_bit_nat_eq_self)
  have h: "(of_nat n :: u8) AND 0x80 = 0"
    using n(1) assms(1) by (auto simp: le_Suc_eq numeral_eq_Suc)
  have "parses (universal_loop n 0) (be_bytes n v) v"
    using parses_universal_loop[of "be_bytes n v" n 0] be_word_be_bytes_small[OF n(2)]
    by (simp add: be_word_def)
  then show ?thesis
    unfolding ReadUniversal_def WriteUniversal_eq n_def[symmetric]
    using False u h n(1) by (simp add: parses_byte_bind)
qed

lemma ucast_bound: "LENGTH('a) \<le> 8 * m \<Longrightarrow> unat (ucast (v :: 'a::len word) :: u64) < 2 ^ (8 * m)"
proof -
  assume "LENGTH('a) \<le> 8 * m"
  then have "unat v < 2 ^ (8 * m)"
    using unsigned_less[of v] power_increasing[of "LENGTH('a)" "8 * m" "2::nat"]
    by (meson less_le_trans one_le_numeral)
  moreover have "unat (ucast v :: u64) \<le> unat v"
    by (simp add: unsigned_ucast_eq)
  ultimately show ?thesis by simp
qed

interpretation ub4: wire_codec WriteUB4 ReadUB4 "\<lambda>_. True" id
proof (unfold_locales, goal_cases)
  case (2 a)
  show ?case
    unfolding ReadUB4_def WriteUB4_def
    by (rule parses_map_eq[OF universal_reads_back], simp, rule ucast_bound, simp_all)
      (rule bit_word_eqI, simp add: bit_simps)
qed (simp add: WriteUB4_def, subst (1 2) WriteUniversal_eq, simp)

interpretation ub2: wire_codec WriteUB2 ReadUB2 "\<lambda>_. True" id
proof (unfold_locales, goal_cases)
  case (2 a)
  show ?case
    unfolding ReadUB2_def WriteUB2_def
    by (rule parses_map_eq[OF universal_reads_back], simp, rule ucast_bound, simp_all)
      (rule bit_word_eqI, simp add: bit_simps)
qed (simp add: WriteUB2_def, subst (1 2) WriteUniversal_eq, simp)

interpretation ub8: wire_codec WriteUB8 ReadUB8 "\<lambda>_. True" id
proof (unfold_locales, goal_cases)
  case (2 a)
  show ?case
    using universal_reads_back[of 8 a] unsigned_less[of a] by (simp add: ReadUB8_def WriteUB8_def)
qed (simp add: WriteUB8_def, subst (1 2) WriteUniversal_eq, simp)

subsection \<open>Length-prefixed and null-terminated values\<close>

lemma write_chunks_append: "write_chunks v off w = w @ write_chunks v off []"
proof (induction "length v - off" arbitrary: off w rule: less_induct)
  case less
  let ?n = "min chunk_size (length v - off)"
  let ?c = "take ?n (drop off v)"
  show ?case
  proof (cases "off < length v")
    case True
    then have "length v - (off + ?n) < length v - off"
      by (simp add: chunk_size_def)
    note IH = less[OF this]
    have "write_chunks v off u = u @ WriteUB4 (of_nat ?n) [] @ ?c @ write_chunks v (off + ?n) []" for u
      using True ub4.put_appends[of "of_nat ?n" u] IH[of "WriteRaw ?c (WriteUB4 (of_nat ?n) u)"]
      by (subst write_chunks.simps) (simp add: Let_def WriteRaw_def)
    from this[of w] this[of "[]"] show ?thesis by simp
  next
    case False
    then show ?thesis using ub4.put_appends[of 0 w] by (subst (1 2) write_chunks.simps) simp
  qed
qed

lemma write_chunks_unfold:
  "write_chunks v off [] =
     (if off < length v then
        (let n = min chunk_size (length v - off)
         in WriteUB4 (of_nat n) [] @ take n (drop off v) @ write_chunks v (off + n) [])
      else WriteUB4 0 [])"
  by (subst write_chunks.simps) (simp add: Let_def WriteRaw_def, subst write_chunks_append, simp)

lemma chunks_read_back:
  assumes "off \<le> length v" "length v \<le> m" "v \<noteq> []"
  shows "parses (chunk_loop m (take off v)) (write_chunks v off []) (Some v)"
  using assms(1)
proof (induction "length v - off" arbitrary: off rule: less_induct)
  case less
  let ?n = "min chunk_size (length v - off)"
  let ?c = "take ?n (drop off v)"
  let ?step = "\<lambda>result (n :: u32). if n = 0 then ret (if result = [] then None else Some result)
    else if unat n > size_sub m (length result) then raise LIMIT_EXCEEDED
    else bindr (ReadRaw (unat n)) (\<lambda>chunk. chunk_loop m (result @ chunk))"
  have "parses (bindr ReadUB4 (?step (take off v))) (write_chunks v off []) (Some v)"
  proof (cases "off < length v")
    case True
    obtain n where n: "n = ?n" "0 < n" "n < 2 ^ 32" "off + n \<le> length v"
      using True by (auto simp: chunk_size_def)
    have u: "unat (of_nat n :: u32) = n"
      using n(3) by (simp add: unsigned_of_nat take_bit_nat_eq_self)
    then have n0: "(of_nat n :: u32) \<noteq> 0"
      using n(2) by auto
    have IH: "parses (chunk_loop m (take (off + n) v)) (write_chunks v (off + n) []) (Some v)"
      using less(1)[of "off + n"] n(2,4) by simp
    have s: "?step (take off v) (of_nat n) = bindr (ReadRaw n) (\<lambda>chunk. chunk_loop m (take off v @ chunk))"
    proof -
      have "\<not> unat (of_nat n :: u32) > size_sub m (length (take off v))"
        unfolding u using n(4) assms(2) by simp
      then show ?thesis using n0 by (simp only: if_not_P if_False u)
    qed
    have "parses (?step (take off v) (of_nat n)) (take n (drop off v) @ write_chunks v (off + n) []) (Some v)"
      unfolding s by (rule parses_bind[OF parses_raw]) (use IH n(4) in \<open>simp_all add: take_add\<close>)
    moreover have "write_chunks v off [] = WriteUB4 (of_nat n) [] @ take n (drop off v) @ write_chunks v (off + n) []"
      using True n(1) by (subst write_chunks_unfold) (simp add: Let_def)
    ultimately show ?thesis
      using parses_bind[OF ub4.reads_back[OF TrueI, unfolded id_apply], where f = "?step (take off v)"]
      by (simp only:)
  next
    case False
    then show ?thesis
      using parses_bind[OF ub4.reads_back[of 0], of "?step (take off v)" "[]" "Some v"] assms less(2)
      by (subst write_chunks_unfold) simp
  qed
  then show ?case
    by (subst parses_cong[OF chunk_loop_unfold])
qed

definition null_view :: "bytes option \<Rightarrow> bytes option" where
  "null_view v = (if v = Some [] then None else v)"

lemma WriteLengthPrefixed_append: "WriteLengthPrefixed v w = w @ WriteLengthPrefixed v []"
  by (auto simp: WriteLengthPrefixed_def appends split: option.split)
    (subst (1 2) write_chunks_append, simp)

lemma length_prefixed_reads_back:
  assumes "case v of None \<Rightarrow> True | Some x \<Rightarrow> length x \<le> m"
  shows "parses (ReadLengthPrefixed m) (WriteLengthPrefixed v []) (null_view v)"
proof -
  consider "v = None \<or> v = Some []" | x where "v = Some x" "x \<noteq> []" "length x \<le> 252"
    | x where "v = Some x" "length x > 252"
    by (cases v) (auto, metis not_le)
  then show ?thesis
  proof cases
    case 1
    then show ?thesis
      by (auto simp: WriteLengthPrefixed_def ReadLengthPrefixed_def WriteByte_def null_view_def
          TNS_NULL_LENGTH_INDICATOR_def intro!: parses_byte_bind)
  next
    case (2 x)
    have u: "unat (of_nat (length x) :: u8) = length x"
      using 2 by (simp add: unsigned_of_nat take_bit_nat_eq_self)
    then have "(of_nat (length x) :: u8) \<notin> {0, 254, 255}" using 2 by auto
    then show ?thesis
      using 2 u assms by (auto simp: WriteLengthPrefixed_def ReadLengthPrefixed_def appends null_view_def
          TNS_NULL_LENGTH_INDICATOR_def TNS_LONG_LENGTH_INDICATOR_def TNS_MAX_SHORT_LENGTH_def
          intro!: parses_byte_bind parses_map_eq[OF parses_raw])
  next
    case (3 x)
    have "WriteLengthPrefixed v [] = 254 # write_chunks x 0 []"
      using 3 by (auto simp: WriteLengthPrefixed_def appends TNS_LONG_LENGTH_INDICATOR_def TNS_MAX_SHORT_LENGTH_def)
        (subst write_chunks_append, simp)
    then show ?thesis
      using 3 assms chunks_read_back[of 0 x m]
      by (auto simp: ReadLengthPrefixed_def null_view_def TNS_NULL_LENGTH_INDICATOR_def
          TNS_LONG_LENGTH_INDICATOR_def intro!: parses_byte_bind)
  qed
qed

interpretation length_prefixed: wire_codec WriteLengthPrefixed "ReadLengthPrefixed m"
  "\<lambda>v. case v of None \<Rightarrow> True | Some x \<Rightarrow> length x \<le> m" null_view for m
  by unfold_locales (rule WriteLengthPrefixed_append, rule length_prefixed_reads_back)

lemma null_terminated_reads_back:
  "\<lbrakk>char_of (0::nat) \<notin> set s; length s < n\<rbrakk> \<Longrightarrow>
   parses (null_terminated_loop n acc) (to_bytes s @ [0]) (acc @ s)"
proof (induction s arbitrary: n acc)
  case Nil
  then show ?case by (cases n) (auto simp: to_bytes_def intro!: parses_byte_bind)
next
  case (Cons c s)
  have "(of_char c :: u8) \<noteq> 0"
    using Cons.prems(1) unat_of_char[of c] by (metis char_of_char list.set_intros(1) unat_0)
  then show ?case
    using Cons.IH[of "n - 1" "acc @ [c]"] Cons.prems
    by (cases n) (auto simp: to_bytes_def intro!: parses_byte_bind)
qed

interpretation null_terminated: wire_codec WriteNullTerminated "ReadNullTerminated m"
  "\<lambda>s. char_of (0::nat) \<notin> set s \<and> length s \<le> m" id for m
  by unfold_locales (auto simp: WriteNullTerminated_def appends ReadNullTerminated_def
      dest: null_terminated_reads_back[where acc = "[]" and n = "m + 1"])

section \<open>Decoders of a prefix\<close>

text \<open>
  A message decoder takes the bytes received so far and returns a value and how many bytes
  it consumed. \<open>prefix_decoder\<close> is what a caller that accumulates a response relies on; every
  decoder that runs a \<^const>\<open>wire_reader\<close> from position 0 provides it.
\<close>

type_synonym 'a decoder = "bytes \<Rightarrow> ('a \<times> nat) result"

definition run_prefix :: "'a reader \<Rightarrow> 'a decoder" where
  "run_prefix get bs = map_sum id (\<lambda>(a, r). (a, rd_position r)) (get (new_reader bs))"

locale prefix_decoder =
  fixes decode :: "'a decoder"
  assumes consumed_le: "decode bs = Inr (a, n) \<Longrightarrow> n \<le> length bs"
    and more_bytes: "decode bs = Inr (a, n) \<Longrightarrow> decode (bs @ ys) = Inr (a, n)"
    and more_error: "decode bs = Inl e \<Longrightarrow> Kind e = TRUNCATED \<or> decode (bs @ ys) = Inl e"
begin

lemma prefix_cases:
  "(\<exists>e. decode bs = Inl e \<and> Kind e = TRUNCATED) \<or> decode (bs @ ys) = decode bs"
  using more_bytes[of bs] more_error[of bs] by (cases "decode bs") auto

lemma same_on_prefix:
  "\<lbrakk>decode bs = Inr x; decode (bs @ ys) = Inr y\<rbrakk> \<Longrightarrow> x = y"
  using prefix_cases[of bs ys] by auto

end

lemma prefix_decoder_run: "wire_reader get \<Longrightarrow> prefix_decoder (run_prefix get)"
proof (unfold_locales, goal_cases)
  case (1 bs a n)
  then obtain r where r: "get (new_reader bs) = Inr (a, r)" "n = rd_position r"
    by (auto simp: run_prefix_def map_sum_def split: sum.splits)
  show ?case
    using wire_reader.advances[OF 1(1) reader_ok_new r(1)] r(2)
    by (auto simp: reader_ok_def new_reader_def)
next
  case (2 bs a n ys)
  then obtain r where r: "get (new_reader bs) = Inr (a, r)" "n = rd_position r"
    by (auto simp: run_prefix_def map_sum_def split: sum.splits)
  show ?case
    using wire_reader.extends[OF 2(1) reader_ok_new r(1), of ys] r(2) by (simp add: run_prefix_def)
next
  case (3 bs e ys)
  then have "get (new_reader bs) = Inl e"
    by (auto simp: run_prefix_def map_sum_def split: sum.splits)
  from wire_reader.fails[OF 3(1) reader_ok_new this, of ys] show ?case
    by (auto simp: run_prefix_def)
qed

lemma run_prefix_parses: "parses get bs a \<Longrightarrow> run_prefix get (bs @ post) = Inr (a, length bs)"
  using parsesD[of get bs a "[]" post] by (simp add: run_prefix_def new_reader_at)

section \<open>Properties\<close>

text \<open>
  C16. A length-prefixed value of any size, written anywhere in a message, is read back by
  \<^verbatim>\<open>ReadLengthPrefixed\<close> as what was written, in the short form and in the chunked form: the
  reader consumes exactly the written bytes, and an empty value comes back as NULL.
\<close>

theorem length_prefixed_round_trip:
  assumes "\<forall>x. v = Some x \<longrightarrow> length x \<le> maximum_size"
  shows "ReadLengthPrefixed maximum_size (reader_at pre (WriteLengthPrefixed v [] @ post)) =
    Inr (if v = Some [] then None else v, reader_at (pre @ WriteLengthPrefixed v []) post)"
  using length_prefixed.reads_back[where a = v and m = maximum_size] assms
  by (auto simp: parses_def null_view_def split: option.splits)

lemma length_prefixed_round_trip_witness:
  "ReadLengthPrefixed 5 (reader_at [9] (WriteLengthPrefixed (Some [1, 2, 3]) [] @ [7])) =
    Inr (Some [1, 2, 3], reader_at [9, 3, 1, 2, 3] [7])"
  using length_prefixed_round_trip[of "Some [1, 2, 3]" 5 "[9]" "[7]"]
  by (simp add: WriteLengthPrefixed_def appends TNS_MAX_SHORT_LENGTH_def)

text \<open>
  The universal integers of every width are self-delimiting: if two of them, each
  followed by anything, form the same byte string, they are the same integer followed by
  the same bytes, and the reader returns that integer.
\<close>

theorem universal_integers_self_delimiting:
  assumes "WriteUB8 a [] @ xs = WriteUB8 b [] @ ys"
  shows "a = b \<and> xs = ys \<and> ReadUB8 (new_reader (WriteUB8 a [] @ xs)) = Inr (a, reader_at (WriteUB8 a []) xs)"
  using ub8.self_delimiting[OF TrueI TrueI assms] ub8.reads_back_new[of a xs] by simp

lemma universal_integers_self_delimiting_witness:
  "ReadUB8 (new_reader (WriteUB8 513 [] @ [4])) = Inr (513, reader_at (WriteUB8 513 []) [4])"
  using universal_integers_self_delimiting[OF refl, of 513 "[4]"] by simp

end
