(* ===== verification/Tns_Packet.thy ===== *)
theory Tns_Packet
  imports Byte_Buffer
begin

text \<open>
  \<^verbatim>\<open>src/tns_packet.cpp\<close> and \<^verbatim>\<open>src/data_assembler.cpp\<close>: the framing of a TTC message. A
  message is cut into TNS DATA packets that fit the negotiated session data unit, each with
  the 8-byte packet header and a 2-byte data-flags field, and the receiving side glues the
  DATA payloads together until a packet carries an end flag.
\<close>

section \<open>Packets\<close>

definition TNS_PACKET_HEADER_SIZE :: nat where
  "TNS_PACKET_HEADER_SIZE = 8"

definition MAX_TNS_PACKET_LENGTH :: nat where
  "MAX_TNS_PACKET_LENGTH = push_bit 20 16"

definition TNS_DATA_FLAG_EOF :: u16 where
  "TNS_DATA_FLAG_EOF = 0x0040"

definition TNS_DATA_FLAG_END_OF_RESPONSE :: u16 where
  "TNS_DATA_FLAG_END_OF_RESPONSE = 0x2000"

text \<open>
  The packet type is a scoped enumeration over a byte, and decoding casts any byte to it:
  it is that byte, with the enumerators as constants.
\<close>

type_synonym tns_packet_type = u8

definition DATA :: tns_packet_type where
  "DATA = 6"

record tns_packet =
  pk_type :: tns_packet_type
  pk_flags :: u8
  pk_payload :: bytes

definition header_uint16 :: "bytes \<Rightarrow> u16" where
  "header_uint16 data = push_bit 8 (ucast (data ! 0)) OR ucast (data ! 1)"

definition header_uint32 :: "bytes \<Rightarrow> u32" where
  "header_uint32 data = push_bit 24 (ucast (data ! 0)) OR push_bit 16 (ucast (data ! 1)) OR
     push_bit 8 (ucast (data ! 2)) OR ucast (data ! 3)"

definition DecodeTnsPacket :: "bytes \<Rightarrow> bool \<Rightarrow> nat \<Rightarrow> tns_packet result" where
  "DecodeTnsPacket wire large_length packet_limit =
     (if length wire < TNS_PACKET_HEADER_SIZE then throw TRUNCATED
      else
        let declared_length = if large_length then unat (header_uint32 wire) else unat (header_uint16 wire) in
        if declared_length < TNS_PACKET_HEADER_SIZE then throw MALFORMED
        else if declared_length > packet_limit \<or> declared_length > MAX_TNS_PACKET_LENGTH then throw LIMIT_EXCEEDED
        else if length wire < declared_length then throw TRUNCATED
        else if length wire \<noteq> declared_length then throw MALFORMED
        else Inr \<lparr>pk_type = wire ! 4, pk_flags = wire ! 5, pk_payload = drop TNS_PACKET_HEADER_SIZE wire\<rparr>)"

definition EncodeTnsPacket :: "tns_packet_type \<Rightarrow> u8 \<Rightarrow> bytes \<Rightarrow> bool \<Rightarrow> bytes result" where
  "EncodeTnsPacket type flags payload large_length =
     (let total_size = TNS_PACKET_HEADER_SIZE + length payload in
      if total_size > MAX_TNS_PACKET_LENGTH \<or> (\<not> large_length \<and> total_size > 65535) then throw LIMIT_EXCEEDED
      else
        let result = replicate total_size 0;
            result =
              (if large_length then
                 let value = of_nat total_size :: u32 in
                 result[0 := ucast (drop_bit 24 value), 1 := ucast (drop_bit 16 value),
                        2 := ucast (drop_bit 8 value), 3 := ucast value]
               else
                 let value = of_nat total_size :: u16 in
                 result[0 := ucast (drop_bit 8 value), 1 := ucast value]);
            result = result[4 := type, 5 := flags]
        in Inr (take TNS_PACKET_HEADER_SIZE result @ payload))"

text \<open>
  The loop body runs once more while bytes are left. A turn that copied nothing would
  repeat itself; the caller's check of the SDU rules it out, and the loop stops on it.
\<close>

function data_packets :: "bytes \<Rightarrow> bool \<Rightarrow> u16 \<Rightarrow> nat \<Rightarrow> nat \<Rightarrow> bytes list result" where
  "data_packets ttc_payload large_length final_flags maximum_chunk offset =
     (let count = min maximum_chunk (size_sub (length ttc_payload) offset);
          last = (offset + count = length ttc_payload);
          data_flags = (if last then final_flags else 0);
          payload = [ucast (drop_bit 8 data_flags), ucast data_flags] @ take count (drop offset ttc_payload)
      in andthen (EncodeTnsPacket DATA 0 payload large_length) (\<lambda>packet.
           if offset + count < length ttc_payload \<and> 0 < count then
             andthen (data_packets ttc_payload large_length final_flags maximum_chunk (offset + count))
               (\<lambda>packets. Inr (packet # packets))
           else Inr [packet]))"
  by pat_completeness auto
termination
  by (relation "measure (\<lambda>(p, l, f, m, off). length p - off)") auto

declare data_packets.simps [simp del]

definition EncodeTnsDataPackets :: "bytes \<Rightarrow> bool \<Rightarrow> nat \<Rightarrow> u16 \<Rightarrow> bytes list result" where
  "EncodeTnsDataPackets ttc_payload large_length negotiated_sdu final_flags =
     (if negotiated_sdu \<le> TNS_PACKET_HEADER_SIZE + 2 then throw MALFORMED
      else data_packets ttc_payload large_length final_flags
             (negotiated_sdu - TNS_PACKET_HEADER_SIZE - 2) 0)"

section \<open>The assembler\<close>

record data_assembler =
  maximum_message_size :: nat
  buffered :: bytes

definition TnsDataAssembler :: "nat \<Rightarrow> data_assembler result" where
  "TnsDataAssembler max_size = (if max_size = 0 then throw LIMIT_EXCEEDED
     else Inr \<lparr>maximum_message_size = max_size, buffered = []\<rparr>)"

definition Reset :: "data_assembler \<Rightarrow> data_assembler" where
  "Reset a = a\<lparr>buffered := []\<rparr>"

definition Push :: "data_assembler \<Rightarrow> tns_packet \<Rightarrow> data_assembler \<times> bytes option result" where
  "Push a packet =
     (if pk_type packet \<noteq> DATA then (a, throw INVALID_STATE)
      else if length (pk_payload packet) < 2 then (a, throw TRUNCATED)
      else
        let flags = header_uint16 (pk_payload packet);
            bytes = length (pk_payload packet) - 2
        in if bytes > size_sub (maximum_message_size a) (length (buffered a)) then (Reset a, throw LIMIT_EXCEEDED)
           else
             let a = a\<lparr>buffered := buffered a @ drop 2 (pk_payload packet)\<rparr>
             in if flags AND (TNS_DATA_FLAG_END_OF_RESPONSE OR TNS_DATA_FLAG_EOF) = 0 then (a, Inr None)
                else (a\<lparr>buffered := []\<rparr>, Inr (Some (buffered a))))"

definition TakeBuffered :: "data_assembler \<Rightarrow> data_assembler \<times> bytes result" where
  "TakeBuffered a = (if buffered a = [] then (a, throw MALFORMED)
     else (a\<lparr>buffered := []\<rparr>, Inr (buffered a)))"

definition BufferedBytes :: "data_assembler \<Rightarrow> nat" where
  "BufferedBytes a = length (buffered a)"

section \<open>Lemmas\<close>

lemma header_uint16_be: "header_uint16 (be_bytes 2 v @ bs) = v"
  using raw_split(1)[of "be_bytes 2 v"] be_word_be_bytes_full[of 2 v]
  by (simp add: header_uint16_def nth_append)

lemma header_uint32_be: "header_uint32 (be_bytes 4 v @ bs) = v"
  using raw_split_4[of "be_bytes 4 v"] be_word_be_bytes_full[of 4 v]
  by (simp add: header_uint32_def nth_append)

definition header_bytes :: "bool \<Rightarrow> nat \<Rightarrow> bytes" where
  "header_bytes large n = (if large then be_bytes 4 (of_nat n :: u32) else be_bytes 2 (of_nat n :: u16) @ [0, 0])"

lemma be_bytes_2: "be_bytes 2 v = [ucast (drop_bit 8 v), ucast v]"
  by (simp add: be_bytes_def numeral_eq_Suc)

lemma be_bytes_4: "be_bytes 4 v = [ucast (drop_bit 24 v), ucast (drop_bit 16 v), ucast (drop_bit 8 v), ucast v]"
  by (simp add: be_bytes_def numeral_eq_Suc)

lemma EncodeTnsPacket_eq:
  "EncodeTnsPacket t f payload large =
     (if 8 + length payload > MAX_TNS_PACKET_LENGTH \<or> (\<not> large \<and> 8 + length payload > 65535)
      then throw LIMIT_EXCEEDED
      else Inr (header_bytes large (8 + length payload) @ [t, f, 0, 0] @ payload))"
proof -
  have r: "replicate (8 + n) (0::u8) = [0, 0, 0, 0, 0, 0, 0, 0] @ replicate n 0" for n
    by (simp add: replicate_add numeral_eq_Suc)
  show ?thesis
    unfolding EncodeTnsPacket_def header_bytes_def TNS_PACKET_HEADER_SIZE_def Let_def r be_bytes_2 be_bytes_4
    by simp
qed

lemma header_bytes_length [simp]: "length (header_bytes large n) = 4"
  by (simp add: header_bytes_def)

lemma header_bytes_read:
  "\<lbrakk>n \<le> MAX_TNS_PACKET_LENGTH; large \<or> n \<le> 65535\<rbrakk> \<Longrightarrow>
   (if large then unat (header_uint32 (header_bytes large n @ bs))
    else unat (header_uint16 (header_bytes large n @ bs))) = n"
  by (auto simp: header_bytes_def header_uint16_be header_uint32_be unsigned_of_nat
      MAX_TNS_PACKET_LENGTH_def take_bit_nat_eq_self)

lemma DecodeTnsPacket_EncodeTnsPacket:
  assumes "EncodeTnsPacket t f payload large = Inr wire"
  shows "DecodeTnsPacket wire large limit =
    (if length wire > limit then throw LIMIT_EXCEEDED
     else Inr \<lparr>pk_type = t, pk_flags = f, pk_payload = payload\<rparr>) \<and> length wire = 8 + length payload"
proof -
  let ?n = "8 + length payload"
  have w: "wire = header_bytes large ?n @ [t, f, 0, 0] @ payload"
    and n: "?n \<le> MAX_TNS_PACKET_LENGTH" "large \<or> ?n \<le> 65535"
    using assms by (auto simp: EncodeTnsPacket_eq split: if_splits)
  have len: "length wire = ?n" by (simp add: w)
  have nths: "wire ! 4 = t" "wire ! 5 = f" "drop 8 wire = payload"
    by (simp_all add: w nth_append)
  have h: "(if large then unat (header_uint32 wire) else unat (header_uint16 wire)) = ?n"
    unfolding w by (rule header_bytes_read[OF n])
  show ?thesis
    unfolding DecodeTnsPacket_def Let_def h TNS_PACKET_HEADER_SIZE_def nths using n(1) len by simp
qed

text \<open>What one turn of the fragmentation loop emits.\<close>

definition data_payload :: "u16 \<Rightarrow> bytes \<Rightarrow> bytes" where
  "data_payload flags chunk = [ucast (drop_bit 8 flags), ucast flags] @ chunk"

lemma header_uint16_payload [simp]: "header_uint16 (data_payload flags chunk) = flags"
  using header_uint16_be[of flags chunk] by (simp add: data_payload_def be_bytes_2)

lemma data_payload_simps [simp]:
  "length (data_payload flags chunk) = 2 + length chunk"
  "drop 2 (data_payload flags chunk) = chunk"
  by (simp_all add: data_payload_def)

text \<open>
  The fragments of a message: every one but the last fills the SDU and carries no flags,
  and the last carries the final flags.
\<close>

inductive fragments :: "bool \<Rightarrow> nat \<Rightarrow> u16 \<Rightarrow> bytes \<Rightarrow> bytes list \<Rightarrow> bool"
  for large :: bool and maximum_chunk :: nat and final_flags :: u16 where
  final: "\<lbrakk>length message \<le> maximum_chunk; EncodeTnsPacket DATA 0 (data_payload final_flags message) large = Inr w\<rbrakk>
    \<Longrightarrow> fragments large maximum_chunk final_flags message [w]"
| more: "\<lbrakk>length chunk = maximum_chunk; message \<noteq> [];
     EncodeTnsPacket DATA 0 (data_payload 0 chunk) large = Inr w;
     fragments large maximum_chunk final_flags message ws\<rbrakk>
    \<Longrightarrow> fragments large maximum_chunk final_flags (chunk @ message) (w # ws)"

lemma data_packets_fragments:
  assumes "0 < maximum_chunk" "8 + 2 + maximum_chunk \<le> MAX_TNS_PACKET_LENGTH"
    "large \<or> 8 + 2 + maximum_chunk \<le> 65535" "offset \<le> length p"
  shows "\<exists>ws. data_packets p large flags maximum_chunk offset = Inr ws \<and>
    fragments large maximum_chunk flags (drop offset p) ws"
  using assms(4)
proof (induction "length p - offset" arbitrary: offset rule: less_induct)
  case less
  let ?count = "min maximum_chunk (length p - offset)"
  let ?chunk = "take ?count (drop offset p)"
  have enc: "\<exists>w. EncodeTnsPacket DATA 0 (data_payload f c) large = Inr w" if "length c \<le> maximum_chunk" for f c
    using that assms by (auto simp: EncodeTnsPacket_eq)
  show ?case
  proof (cases "offset + ?count < length p")
    case True
    then have c: "?count = maximum_chunk" and lt: "offset + maximum_chunk < length p"
      by (simp_all add: min_def split: if_splits)
    obtain w where w: "EncodeTnsPacket DATA 0 (data_payload 0 ?chunk) large = Inr w"
      using enc[of ?chunk 0] by auto
    obtain ws where ws: "data_packets p large flags maximum_chunk (offset + ?count) = Inr ws"
      "fragments large maximum_chunk flags (drop (offset + ?count) p) ws"
      using less(1)[of "offset + ?count"] True assms(1) by force
    have "fragments large maximum_chunk flags (?chunk @ drop (offset + ?count) p) (w # ws)"
      by (rule fragments.more) (use True c w ws(2) less(2) in \<open>auto simp: min_def\<close>)
    moreover have "?chunk @ drop (offset + ?count) p = drop offset p"
      by (metis append_take_drop_id drop_drop add.commute)
    ultimately show ?thesis
      using ws(1) w lt c assms(1) less(2)
      by (subst data_packets.simps) (simp add: Let_def data_payload_def)
  next
    case False
    then have c: "?count = length p - offset" "length p - offset \<le> maximum_chunk"
      by (simp_all add: min_def split: if_splits)
    obtain w where w: "EncodeTnsPacket DATA 0 (data_payload flags (drop offset p)) large = Inr w"
      using enc[of "drop offset p" flags] c(2) by auto
    have "data_packets p large flags maximum_chunk offset = Inr [w]"
      using False w c(1) less(2) by (subst data_packets.simps) (simp add: Let_def data_payload_def)
    then show ?thesis
      using w c(2) by (auto intro!: fragments.final)
  qed
qed

lemma EncodeTnsDataPackets_fragments:
  assumes "10 < sdu" "sdu \<le> MAX_TNS_PACKET_LENGTH" "large \<or> sdu \<le> 65535"
  shows "\<exists>ws. EncodeTnsDataPackets p large sdu flags = Inr ws \<and> fragments large (sdu - 10) flags p ws"
  using data_packets_fragments[of "sdu - 10" large 0 p flags] assms
  by (simp add: EncodeTnsDataPackets_def TNS_PACKET_HEADER_SIZE_def)

subsection \<open>The assembler\<close>

definition assembler_ok :: "data_assembler \<Rightarrow> bool" where
  "assembler_ok a \<longleftrightarrow> length (buffered a) \<le> maximum_message_size a"

lemma Push_ok: "assembler_ok a \<Longrightarrow> assembler_ok (fst (Push a packet))"
  by (auto simp: assembler_ok_def Push_def Reset_def Let_def split: if_splits)

lemma Push_data:
  assumes "assembler_ok a"
  shows "Push a \<lparr>pk_type = DATA, pk_flags = f, pk_payload = data_payload flags chunk\<rparr> =
    (if length (buffered a) + length chunk > maximum_message_size a then (a\<lparr>buffered := []\<rparr>, throw LIMIT_EXCEEDED)
     else if flags AND (TNS_DATA_FLAG_END_OF_RESPONSE OR TNS_DATA_FLAG_EOF) = 0
     then (a\<lparr>buffered := buffered a @ chunk\<rparr>, Inr None)
     else (a\<lparr>buffered := []\<rparr>, Inr (Some (buffered a @ chunk))))"
  using assms by (auto simp: Push_def Let_def Reset_def assembler_ok_def)

end
