(* ===== verification/Byte_Stream.thy ===== *)
theory Byte_Stream
  imports Tns_Packet
begin

text \<open>
  \<^verbatim>\<open>src/byte_stream.cpp\<close>: packet boundaries on top of a stream that reads and writes in
  arbitrary pieces. \<^verbatim>\<open>ByteStream\<close> is an abstract class; a stream is modelled by what it will
  do: the pieces the peer's bytes arrive in, and how much each \<^verbatim>\<open>Write\<close> call accepts. A read
  returns at most what was asked for, and nothing once the peer has closed.
\<close>

section \<open>The stream\<close>

record byte_stream =
  inbound :: "bytes list"
  outbound :: bytes
  accepted :: "nat list"

definition Read :: "nat \<Rightarrow> byte_stream \<Rightarrow> bytes \<times> byte_stream" where
  "Read maximum_size s = (case inbound s of
       [] \<Rightarrow> ([], s)
     | piece # pieces \<Rightarrow>
         (take maximum_size piece,
          s\<lparr>inbound := if length piece \<le> maximum_size then pieces else drop maximum_size piece # pieces\<rparr>))"

text \<open>A write takes all it is given once the list of partial sizes is used up.\<close>

definition Write :: "bytes \<Rightarrow> byte_stream \<Rightarrow> nat \<times> byte_stream" where
  "Write source s = (case accepted s of
       [] \<Rightarrow> (length source, s\<lparr>outbound := outbound s @ source\<rparr>)
     | n # ns \<Rightarrow> (min n (length source),
         s\<lparr>outbound := outbound s @ take n source, accepted := ns\<rparr>))"

function ReadExact :: "nat \<Rightarrow> bytes \<Rightarrow> byte_stream \<Rightarrow> byte_stream \<times> bytes result" where
  "ReadExact size_p destination s =
     (if length destination < size_p then
        (let (piece, s') = Read (size_p - length destination) s;
             count = length piece
         in if count = 0 \<or> count > size_p - length destination
            then (s', throw (if count = 0 then TRUNCATED else MALFORMED))
            else ReadExact size_p (destination @ piece) s')
      else (s, Inr destination))"
  by pat_completeness auto
termination
  by (relation "measure (\<lambda>(n, d, s). n - length d)") (auto simp: neq_Nil_conv)

declare ReadExact.simps [simp del]

function WriteAll :: "bytes \<Rightarrow> nat \<Rightarrow> byte_stream \<Rightarrow> byte_stream \<times> unit result" where
  "WriteAll source offset s =
     (if offset < length source then
        (let (count, s') = Write (drop offset source) s
         in if count = 0 \<or> count > length source - offset then (s', throw INVALID_STATE)
            else WriteAll source (offset + count) s')
      else (s, Inr ()))"
  by pat_completeness auto
termination
  by (relation "measure (\<lambda>(v, off, s). length v - off)") auto

declare WriteAll.simps [simp del]

section \<open>The packet stream\<close>

record packet_stream =
  stream :: byte_stream
  large_length :: bool
  packet_limit :: nat
  bytes_sent :: u64
  bytes_received :: u64
  round_trips :: u64
  awaiting_response :: bool

definition TnsPacketStream :: "byte_stream \<Rightarrow> bool \<Rightarrow> nat \<Rightarrow> packet_stream result" where
  "TnsPacketStream s large limit =
     (if limit < TNS_PACKET_HEADER_SIZE \<or> limit > MAX_TNS_PACKET_LENGTH then throw MALFORMED
      else Inr \<lparr>stream = s, large_length = large, packet_limit = limit, bytes_sent = 0,
                bytes_received = 0, round_trips = 0, awaiting_response = False\<rparr>)"

definition send_wire :: "bytes \<Rightarrow> packet_stream \<Rightarrow> packet_stream \<times> unit result" where
  "send_wire wire p =
     (case WriteAll wire 0 (stream p) of
        (s, Inl e) \<Rightarrow> (p\<lparr>stream := s\<rparr>, Inl e)
      | (s, Inr _) \<Rightarrow> (p\<lparr>stream := s, bytes_sent := bytes_sent p + of_nat (length wire), awaiting_response := True\<rparr>, Inr ()))"

definition encode_within :: "packet_stream \<Rightarrow> tns_packet \<Rightarrow> bytes result" where
  "encode_within p packet =
     andthen (EncodeTnsPacket (pk_type packet) (pk_flags packet) (pk_payload packet) (large_length p))
       (\<lambda>wire. if length wire > packet_limit p then throw LIMIT_EXCEEDED else Inr wire)"

definition SendPacket :: "tns_packet \<Rightarrow> packet_stream \<Rightarrow> packet_stream \<times> unit result" where
  "SendPacket packet p = (case encode_within p packet of Inl e \<Rightarrow> (p, Inl e) | Inr wire \<Rightarrow> send_wire wire p)"

definition SendGroup :: "tns_packet list \<Rightarrow> packet_stream \<Rightarrow> packet_stream \<times> unit result" where
  "SendGroup packets p =
     (if packets = [] then (p, throw MALFORMED)
      else case collect (encode_within p) packets of
          Inl e \<Rightarrow> (p, Inl e)
        | Inr wires \<Rightarrow> send_wire (concat wires) p)"

definition ReceivePacket :: "packet_stream \<Rightarrow> packet_stream \<times> tns_packet result" where
  "ReceivePacket p =
     (case ReadExact TNS_PACKET_HEADER_SIZE [] (stream p) of
        (s, Inl e) \<Rightarrow> (p\<lparr>stream := s\<rparr>, Inl e)
      | (s, Inr wire) \<Rightarrow>
          let declared_length =
            (if large_length p then unat (push_bit 24 (ucast (wire ! 0)) OR push_bit 16 (ucast (wire ! 1)) OR
                                       push_bit 8 (ucast (wire ! 2)) OR ucast (wire ! 3) :: u64)
             else unat (push_bit 8 (ucast (wire ! 0)) OR ucast (wire ! 1) :: u64))
          in if declared_length < TNS_PACKET_HEADER_SIZE then (p\<lparr>stream := s\<rparr>, throw MALFORMED)
             else if declared_length > packet_limit p \<or> declared_length > MAX_TNS_PACKET_LENGTH
             then (p\<lparr>stream := s\<rparr>, throw LIMIT_EXCEEDED)
             else case ReadExact declared_length wire s of
                 (s', Inl e) \<Rightarrow> (p\<lparr>stream := s'\<rparr>, Inl e)
               | (s', Inr wire) \<Rightarrow>
                   (p\<lparr>stream := s', bytes_received := bytes_received p + of_nat (length wire),
                      round_trips := round_trips p + (if awaiting_response p then 1 else 0),
                      awaiting_response := False\<rparr>,
                    DecodeTnsPacket wire (large_length p) (packet_limit p)))"

definition GetStatistics :: "packet_stream \<Rightarrow> u64 \<times> u64 \<times> u64" where
  "GetStatistics p = (bytes_sent p, bytes_received p, round_trips p)"

section \<open>Reads and writes do not depend on the pieces\<close>

definition pending :: "byte_stream \<Rightarrow> bytes" where
  "pending s = concat (inbound s)"

definition pieces_ok :: "byte_stream \<Rightarrow> bool" where
  "pieces_ok s \<longleftrightarrow> [] \<notin> set (inbound s)"

lemma Read_pending:
  assumes "pieces_ok s" "pending s \<noteq> []" "0 < n" "Read n s = (piece, s')"
  shows "piece \<noteq> [] \<and> length piece \<le> n \<and> pieces_ok s' \<and> pending s = piece @ pending s' \<and>
    outbound s' = outbound s \<and> accepted s' = accepted s"
  using assms by (cases "inbound s") (auto simp: Read_def pieces_ok_def pending_def split: if_splits)

lemma ReadExact_pending:
  assumes "pieces_ok s" "pending s = bs @ rest" "length destination + length bs = n"
  shows "\<exists>s'. ReadExact n destination s = (s', Inr (destination @ bs)) \<and> pieces_ok s' \<and> pending s' = rest \<and>
    outbound s' = outbound s \<and> accepted s' = accepted s"
  using assms
proof (induction "length bs" arbitrary: bs destination s rule: less_induct)
  case less
  show ?case
  proof (cases "bs = []")
    case True
    with less.prems show ?thesis by (subst ReadExact.simps) auto
  next
    case False
    obtain piece s1 where r: "Read (n - length destination) s = (piece, s1)" by fastforce
    from False less.prems have "0 < n - length destination" "pending s \<noteq> []" by auto
    note p = Read_pending[OF less.prems(1) this(2,1) r]
    then have len: "length piece \<le> length bs" using less.prems(3) by auto
    have "piece @ pending s1 = bs @ rest" using p less.prems(2) by simp
    with len obtain cs where cs: "bs = piece @ cs" "pending s1 = cs @ rest"
      by (auto simp: append_eq_append_conv2)
    have "ReadExact n destination s = ReadExact n (destination @ piece) s1"
      using r p len less.prems(3) False by (subst ReadExact.simps) (auto simp: Let_def)
    with less(1)[of cs s1 "destination @ piece"] show ?thesis
      using p cs less.prems(3) by auto
  qed
qed

lemma WriteAll_positive:
  assumes "0 \<notin> set (accepted s)" "offset \<le> length source"
  shows "\<exists>s'. WriteAll source offset s = (s', Inr ()) \<and> outbound s' = outbound s @ drop offset source \<and>
    inbound s' = inbound s \<and> 0 \<notin> set (accepted s')"
  using assms
proof (induction source offset s rule: WriteAll.induct)
  case (1 source offset s)
  show ?case
  proof (cases "offset < length source")
    case True
    obtain n s1 where w: "Write (drop offset source) s = (n, s1)" by fastforce
    have n: "0 < n" "n \<le> length source - offset" "outbound s1 = outbound s @ take n (drop offset source)"
      "inbound s1 = inbound s" "0 \<notin> set (accepted s1)"
      using w 1(2) True by (auto simp: Write_def split: list.splits) (auto simp: min_def)
    obtain s2 where s2: "WriteAll source (offset + n) s1 = (s2, Inr ())"
      "outbound s2 = outbound s1 @ drop (offset + n) source" "inbound s2 = inbound s1" "0 \<notin> set (accepted s2)"
      using 1(1)[OF True w[symmetric] refl] n True by force
    have "take n (drop offset source) @ drop (offset + n) source = drop offset source"
      by (metis append_take_drop_id drop_drop add.commute)
    with s2 n w True show ?thesis
      by (subst WriteAll.simps) (auto simp: Let_def)
  next
    case False
    with 1(2,3) show ?thesis by (subst WriteAll.simps) auto
  qed
qed

text \<open>A packet that was received has been taken off the stream.\<close>

lemma Read_length: "Read n s = (piece, s') \<Longrightarrow> length (pending s) = length piece + length (pending s') \<and> outbound s' = outbound s"
  by (auto simp: Read_def pending_def split: list.splits if_splits)

lemma ReadExact_length:
  "\<lbrakk>ReadExact n destination s = (s', Inr bs); length destination \<le> n\<rbrakk> \<Longrightarrow>
   length bs = n \<and> length (pending s') + n = length (pending s) + length destination"
proof (induction n destination s rule: ReadExact.induct)
  case (1 n destination s)
  obtain piece s1 where r: "Read (n - length destination) s = (piece, s1)" by fastforce
  show ?case
  proof (cases "length destination < n")
    case True
    with 1(2) r have g: "\<not> (length piece = 0 \<or> length piece > n - length destination)"
      "ReadExact n (destination @ piece) s1 = (s', Inr bs)"
      by (auto simp: ReadExact.simps[of n destination s] Let_def split: if_splits)
    show ?thesis
      using 1(1)[OF True r[symmetric] refl refl g] g(1) Read_length[OF r] True by auto
  next
    case False
    with 1(2,3) show ?thesis by (simp add: ReadExact.simps[of n destination s])
  qed
qed

lemma ReceivePacket_consumes:
  assumes "ReceivePacket p = (p', Inr packet)"
  shows "length (pending (stream p')) < length (pending (stream p))"
proof -
  obtain s wire where h: "ReadExact TNS_PACKET_HEADER_SIZE [] (stream p) = (s, Inr wire)"
    using assms by (auto simp: ReceivePacket_def split: prod.splits sum.splits)
  note l = ReadExact_length[OF h]
  obtain n where n: "TNS_PACKET_HEADER_SIZE \<le> n" "ReadExact n wire s = (stream p', snd (ReadExact n wire s))"
    "\<exists>bs. snd (ReadExact n wire s) = Inr bs"
    using assms h by (auto simp: ReceivePacket_def Let_def not_less split: prod.splits sum.splits if_splits)
  then obtain bs where "ReadExact n wire s = (stream p', Inr bs)" by auto
  from ReadExact_length[OF this] l n(1) show ?thesis
    by (simp add: TNS_PACKET_HEADER_SIZE_def)
qed

lemma WriteAll_inbound: "WriteAll source offset s = (s', r) \<Longrightarrow> inbound s' = inbound s"
proof (induction source offset s rule: WriteAll.induct)
  case (1 source offset s)
  obtain n s1 where w: "Write (drop offset source) s = (n, s1)" by fastforce
  have "inbound s1 = inbound s" using w by (auto simp: Write_def split: list.splits)
  then show ?case
    using 1(1)[OF _ w[symmetric] refl] 1(2) w
    by (auto simp: WriteAll.simps[of source offset s] Let_def split: if_splits)
qed

lemma SendPacket_pending: "SendPacket packet p = (p', r) \<Longrightarrow> pending (stream p') = pending (stream p)"
  by (auto simp: SendPacket_def send_wire_def pending_def split: sum.splits prod.splits dest!: WriteAll_inbound)

lemma ReceivePacket_wire:
  assumes p: "pieces_ok (stream p)" "pending (stream p) = wire @ rest"
    and d: "DecodeTnsPacket wire (large_length p) (packet_limit p) = Inr packet"
  shows "\<exists>p'. ReceivePacket p = (p', Inr packet) \<and> pieces_ok (stream p') \<and> pending (stream p') = rest \<and>
    outbound (stream p') = outbound (stream p) \<and> accepted (stream p') = accepted (stream p) \<and>
    large_length p' = large_length p \<and> packet_limit p' = packet_limit p"
proof -
  let ?large = "large_length p"
  define n where "n = (if ?large then unat (header_uint32 wire) else unat (header_uint16 wire))"
  have len: "8 \<le> length wire" "n = length wire" "\<not> (n > packet_limit p \<or> n > MAX_TNS_PACKET_LENGTH)"
    using d by (auto simp: DecodeTnsPacket_def n_def Let_def TNS_PACKET_HEADER_SIZE_def split: if_splits)
  let ?h = "take 8 wire"
  have h: "pending (stream p) = ?h @ (drop 8 wire @ rest)" using p(2) by simp
  obtain s1 where s1: "ReadExact 8 [] (stream p) = (s1, Inr ?h)" "pieces_ok s1" "pending s1 = drop 8 wire @ rest"
    "outbound s1 = outbound (stream p)" "accepted s1 = accepted (stream p)"
    using ReadExact_pending[OF p(1) h, of "[]" 8] len(1) by auto
  obtain s2 where s2: "ReadExact n ?h s1 = (s2, Inr wire)" "pieces_ok s2" "pending s2 = rest"
    "outbound s2 = outbound s1" "accepted s2 = accepted s1"
    using ReadExact_pending[OF s1(2,3), of ?h n] len by auto
  have e32: "unat (push_bit 24 (ucast (?h ! 0)) OR push_bit 16 (ucast (?h ! 1)) OR
      push_bit 8 (ucast (?h ! 2)) OR ucast (?h ! 3) :: u64) = unat (header_uint32 wire)"
  proof -
    have "(push_bit 24 (ucast a) OR push_bit 16 (ucast b) OR push_bit 8 (ucast c) OR ucast d :: u64) =
      ucast (push_bit 24 (ucast a) OR push_bit 16 (ucast b) OR push_bit 8 (ucast c) OR ucast d :: u32)" for a b c d :: u8
      by (rule bit_word_eqI) (auto simp: bit_simps dest: bit_imp_le_length)
    then show ?thesis
      using len(1) by (simp only: header_uint32_def) (simp add: unat_ucast_up)
  qed
  have e16: "unat (push_bit 8 (ucast (?h ! 0)) OR ucast (?h ! 1) :: u64) = unat (header_uint16 wire)"
  proof -
    have "(push_bit 8 (ucast a) OR ucast b :: u64) = ucast (push_bit 8 (ucast a) OR ucast b :: u16)" for a b :: u8
      by (rule bit_word_eqI) (auto simp: bit_simps dest: bit_imp_le_length)
    then show ?thesis
      using len(1) by (simp only: header_uint16_def) (simp add: unat_ucast_up)
  qed
  show ?thesis
    using s1 s2 len d unfolding ReceivePacket_def Let_def TNS_PACKET_HEADER_SIZE_def s1(1) prod.case sum.case e32 e16
    by (cases ?large) (auto simp: n_def)
qed

end
