(* ===== verification/Ttc_Messages.thy ===== *)
theory Ttc_Messages
  imports Byte_Buffer
begin

text \<open>
  The short TTC messages: \<^verbatim>\<open>src/ttc_error.cpp\<close> (the end-of-call record and the diagnostic
  projection of an error), \<^verbatim>\<open>src/ttc_piggyback.cpp\<close>, \<^verbatim>\<open>src/ttc_parameter.cpp\<close>,
  \<^verbatim>\<open>src/ttc_transaction.cpp\<close> and \<^verbatim>\<open>src/ttc_auth.cpp\<close>. A decoder that also reports how much it
  consumed is a \<^typ>\<open>'a decoder\<close>, whose second component is the \<^verbatim>\<open>bytes_consumed\<close> member.
\<close>

abbreviation TTC_MESSAGE_FUNCTION :: u8 where "TTC_MESSAGE_FUNCTION \<equiv> 3"
abbreviation TTC_MESSAGE_ERROR :: u8 where "TTC_MESSAGE_ERROR \<equiv> 4"
abbreviation TTC_MESSAGE_PARAMETER :: u8 where "TTC_MESSAGE_PARAMETER \<equiv> 8"
abbreviation TTC_MESSAGE_STATUS :: u8 where "TTC_MESSAGE_STATUS \<equiv> 9"
abbreviation TTC_MESSAGE_PIGGYBACK :: u8 where "TTC_MESSAGE_PIGGYBACK \<equiv> 17"
abbreviation TTC_MESSAGE_SERVER_PIGGYBACK :: u8 where "TTC_MESSAGE_SERVER_PIGGYBACK \<equiv> 23"

text \<open>A decoder of a whole message runs from its first byte and drops the rest.\<close>

definition decode_message :: "'a reader \<Rightarrow> bytes \<Rightarrow> 'a result" where
  "decode_message get message = map_sum id fst (get (new_reader message))"

text \<open>The check that nothing is left over.\<close>

definition at_end :: "error_kind \<Rightarrow> unit reader" where
  "at_end k r = (if Remaining r \<noteq> 0 then throw k else Inr ((), r))"

section \<open>TTC ERROR\<close>

subsection \<open>The diagnostic projection\<close>

definition MAX_ERROR_TEXT_BYTES :: nat where
  "MAX_ERROR_TEXT_BYTES = 512"

fun printable_loop :: "bytes \<Rightarrow> string \<Rightarrow> bool \<Rightarrow> string" where
  "printable_loop [] output previous_space = output"
| "printable_loop (character # rest) output previous_space =
     (if length output < MAX_ERROR_TEXT_BYTES then
        if 0x20 \<le> character \<and> character \<le> 0x7e
        then printable_loop rest (output @ [char_of (unat character)]) False
        else if \<not> previous_space then printable_loop rest (output @ '' '') True
        else printable_loop rest output previous_space
      else output)"

definition trim_back :: "char list \<Rightarrow> string \<Rightarrow> string" where
  "trim_back cs s = rev (dropWhile (\<lambda>c. c \<in> set cs) (rev s))"

definition PrintableProjection :: "bytes \<Rightarrow> string" where
  "PrintableProjection message = trim_back '' '' (printable_loop (drop 1 message) [] True)"

definition ora_value :: "string \<Rightarrow> u32" where
  "ora_value digits = foldl (\<lambda>value c. value * 10 + of_nat (digit_value c)) 0 digits"

fun FindOraCode :: "string \<Rightarrow> nat \<Rightarrow> (u32 \<times> nat) option" where
  "FindOraCode [] index = None"
| "FindOraCode (c # cs) index =
     (let text = c # cs; digits = take 5 (drop 4 text) in
      if 9 \<le> length text then
        if take 4 text = ''ORA-'' \<and> list_all isdigit digits then Some (ora_value digits, index)
        else FindOraCode cs (index + 1)
      else None)"

definition IsTtcErrorMessage :: "bytes \<Rightarrow> bool" where
  "IsTtcErrorMessage message \<longleftrightarrow> message \<noteq> [] \<and> hd message = TTC_MESSAGE_ERROR"

record oracle_server_error =
  ora_code :: "u32 option"
  server_message :: string

definition ParseTtcServerError :: "bytes \<Rightarrow> oracle_server_error result" where
  "ParseTtcServerError message =
     (if \<not> IsTtcErrorMessage message then throw MALFORMED
      else let text = PrintableProjection message in
        case FindOraCode text 0 of
          Some (code, code_offset) \<Rightarrow> Inr \<lparr>ora_code = Some code, server_message = drop code_offset text\<rparr>
        | None \<Rightarrow> Inr \<lparr>ora_code = None, server_message = ''Oracle server returned a TTC error''\<rparr>)"

definition ThrowTtcServerError :: "bytes \<Rightarrow> 'a result" where
  "ThrowTtcServerError message =
     andthen (ParseTtcServerError message) (\<lambda>error. Inl (ProtocolError INVALID_STATE (ora_code error)))"

subsection \<open>The structured end-of-call record\<close>

definition MAX_BATCH_ERRORS :: nat where
  "MAX_BATCH_ERRORS = 65535"

definition MAX_TTC_ERROR_TEXT_BYTES :: nat where
  "MAX_TTC_ERROR_TEXT_BYTES = 65535"

definition TTC_FIELD_VERSION_ERROR_TRAILER :: u8 where
  "TTC_FIELD_VERSION_ERROR_TRAILER = 14"

definition SkipPackedUb2Array :: "unit reader" where
  "SkipPackedUb2Array = bindr ReadUB2 (\<lambda>count.
     if count = 0 then ret ()
     else bindr ReadByte (\<lambda>marker.
       thenr (repeatr (unat count)
                (thenr (whenr (marker = TNS_LONG_LENGTH_INDICATOR) (discard ReadUB4)) ReadUB2))
             (whenr (marker = TNS_LONG_LENGTH_INDICATOR) (Skip 1))))"

definition SkipPackedUb4Array :: "unit reader" where
  "SkipPackedUb4Array = bindr ReadUB4 (\<lambda>count.
     if unat count > MAX_BATCH_ERRORS then raise LIMIT_EXCEEDED
     else if count = 0 then ret ()
     else bindr ReadByte (\<lambda>marker.
       thenr (repeatr (unat count)
                (thenr (whenr (marker = TNS_LONG_LENGTH_INDICATOR) (discard ReadUB4)) ReadUB4))
             (whenr (marker = TNS_LONG_LENGTH_INDICATOR) (Skip 1))))"

definition SkipBatchMessages :: "unit reader" where
  "SkipBatchMessages = bindr ReadUB2 (\<lambda>count.
     if unat count > MAX_BATCH_ERRORS then raise LIMIT_EXCEEDED
     else if count = 0 then ret ()
     else thenr (Skip 1)
       (discard (repeatr (unat count)
         (thenr ReadUB2 (thenr (ReadLengthPrefixed MAX_TTC_ERROR_TEXT_BYTES) (Skip 2))))))"

record ttc_error_info =
  error_number :: u32
  error_cursor_id :: u32
  current_row :: u32
  error_row_count :: u64
  error_message :: string

definition read_error_text :: "u32 \<Rightarrow> string reader" where
  "read_error_text number =
     (if number = 0 then ret []
      else bindr (ReadLengthPrefixed MAX_TTC_ERROR_TEXT_BYTES) (\<lambda>text.
        case text of
          None \<Rightarrow> raise MALFORMED
        | Some t \<Rightarrow> ret (trim_back [CHR 0x0A, CHR 0x0D, CHR '' ''] (to_string t))))"

text \<open>
  The exception that reaches the caller keeps the kind of the one thrown inside: the source
  catches it to add the offset to its text.
\<close>

definition ttc_error_reader :: "u8 \<Rightarrow> ttc_error_info reader" where
  "ttc_error_reader ttc_field_version = bindr ReadByte (\<lambda>message_type.
     thenr (refuse (message_type \<noteq> TTC_MESSAGE_ERROR) MALFORMED)
     (thenr ReadUB4 (thenr ReadUB2 (bindr ReadUB4 (\<lambda>row.
      thenr ReadUB2 (thenr ReadUB2 (thenr ReadUB2 (bindr ReadUB4 (\<lambda>cursor_id.
      thenr ReadUB4 (thenr (Skip 6) (thenr ReadUB4 (thenr ReadUB2 (thenr (Skip 1)
      (thenr ReadUB4 (thenr ReadUB2 (thenr ReadUB4 (thenr (Skip 1) (thenr (Skip 1)
      (thenr ReadUB2 (thenr ReadUB4 (bindr ReadUB4 (\<lambda>logical_rowid_bytes.
      thenr (whenr (logical_rowid_bytes \<noteq> 0) (discard (ReadLengthPrefixed MAX_TTC_ERROR_TEXT_BYTES)))
      (thenr SkipPackedUb2Array (thenr SkipPackedUb4Array (thenr SkipBatchMessages
      (bindr ReadUB4 (\<lambda>number. bindr ReadUB8 (\<lambda>rows.
      thenr (whenr (ttc_field_version \<ge> TTC_FIELD_VERSION_ERROR_TRAILER) (thenr ReadUB4 (discard ReadUB4)))
      (bindr (read_error_text number) (\<lambda>text.
      ret \<lparr>error_number = number, error_cursor_id = cursor_id, current_row = row,
           error_row_count = rows, error_message = text\<rparr>))))))))))))))))))))))))))))))"

definition DecodeTtcErrorPrefix :: "u8 \<Rightarrow> ttc_error_info decoder" where
  "DecodeTtcErrorPrefix ttc_field_version = run_prefix (ttc_error_reader ttc_field_version)"

section \<open>Piggybacks\<close>

abbreviation TTC_PIGGYBACK_CLOSE_CURSORS :: u8 where "TTC_PIGGYBACK_CLOSE_CURSORS \<equiv> 105"
abbreviation TTC_PIGGYBACK_END_TO_END :: u8 where "TTC_PIGGYBACK_END_TO_END \<equiv> 135"
abbreviation TTC_FUNCTION_PING :: u8 where "TTC_FUNCTION_PING \<equiv> 147"

definition EncodeTtcCloseCursorsPiggyback :: "u8 \<Rightarrow> u32 list \<Rightarrow> bytes result" where
  "EncodeTtcCloseCursorsPiggyback sequence cursor_ids =
     (if cursor_ids = [] then throw MALFORMED
      else each (\<lambda>cursor_id w. if cursor_id = 0 then throw MALFORMED else Inr (WriteUB4 cursor_id w)) cursor_ids
        (writes [WriteByte TTC_MESSAGE_PIGGYBACK, WriteByte TTC_PIGGYBACK_CLOSE_CURSORS, WriteByte sequence,
                 WriteByte 1, WriteUB4 (of_nat (length cursor_ids))] []))"

record end_to_end_attributes =
  client_identifier :: "string option"
  e2e_module :: "string option"
  e2e_action :: "string option"
  client_info :: "string option"

definition no_attributes :: end_to_end_attributes where
  "no_attributes = \<lparr>client_identifier = None, e2e_module = None, e2e_action = None, client_info = None\<rparr>"

definition attributes_empty :: "end_to_end_attributes \<Rightarrow> bool" where
  "attributes_empty a \<longleftrightarrow> client_identifier a = None \<and> e2e_module a = None \<and> e2e_action a = None \<and> client_info a = None"

definition too_long :: "nat \<Rightarrow> string option \<Rightarrow> bool" where
  "too_long maximum value = (case value of None \<Rightarrow> False | Some s \<Rightarrow> length s > maximum)"

definition declare_value :: "string option \<Rightarrow> byte_writer \<Rightarrow> byte_writer" where
  "declare_value value w = (case value of
       Some s \<Rightarrow> WriteUB4 (of_nat (length s)) (WriteByte 1 w)
     | None \<Rightarrow> WriteUB4 0 (WriteByte 0 w))"

definition write_value :: "string option \<Rightarrow> byte_writer \<Rightarrow> byte_writer" where
  "write_value value w = (case value of
       Some s \<Rightarrow> if s = [] then w else WriteLengthPrefixed (Some (to_bytes s)) w
     | None \<Rightarrow> w)"

definition EncodeTtcEndToEndPiggyback :: "u8 \<Rightarrow> end_to_end_attributes \<Rightarrow> bytes result" where
  "EncodeTtcEndToEndPiggyback sequence a =
     (if attributes_empty a then throw MALFORMED
      else if too_long 64 (client_identifier a) \<or> too_long 48 (e2e_module a) \<or> too_long 32 (e2e_action a)
              \<or> too_long 64 (client_info a) then throw LIMIT_EXCEEDED
      else
        let action = (if e2e_module a \<noteq> None \<and> e2e_action a = None then Some [] else e2e_action a);
            flags = (if client_identifier a \<noteq> None then 0x01 else 0) OR (if e2e_module a \<noteq> None then 0x08 else 0) OR
                    (if action \<noteq> None then 0x10 else 0) OR (if client_info a \<noteq> None then 0x100 else 0)
        in Inr (writes
          [WriteByte TTC_MESSAGE_PIGGYBACK, WriteByte TTC_PIGGYBACK_END_TO_END, WriteByte sequence,
           WriteByte 0, WriteByte 0, WriteUB4 flags,
           declare_value (client_identifier a), declare_value (e2e_module a), declare_value action,
           WriteByte 0, WriteByte 0, WriteByte 0, WriteByte 0,
           declare_value (client_info a),
           WriteByte 0, WriteByte 0, WriteByte 0, WriteByte 0, WriteByte 0, WriteByte 0,
           write_value (client_identifier a), write_value (e2e_module a), write_value action,
           write_value (client_info a)] []))"

definition server_piggyback_reader :: "unit reader" where
  "server_piggyback_reader =
     thenr ReadByte (bindr ReadByte (\<lambda>opcode.
     thenr (refuse (opcode \<noteq> 5) UNSUPPORTED)
     (thenr ReadUB2 (thenr ReadByte (bindr ReadUB2 (\<lambda>elements.
      thenr (refuse (unat elements > 1024) LIMIT_EXCEEDED)
     (thenr ReadByte
     (thenr (repeatr (unat elements)
        (bindr ReadUB2 (\<lambda>key. thenr (whenr (0 < key) (discard (ReadLengthPrefixed 65536)))
        (bindr ReadUB2 (\<lambda>value. thenr (whenr (0 < value) (discard (ReadLengthPrefixed 65536)))
         ReadUB2)))))
     (bindr ReadUB4 (\<lambda>change. refuse (change \<noteq> 0) UNSUPPORTED))))))))))"

definition SkippedTtcServerPiggybackBytes :: "bytes \<Rightarrow> nat result" where
  "SkippedTtcServerPiggybackBytes data =
     (if data = [] \<or> hd data \<noteq> TTC_MESSAGE_SERVER_PIGGYBACK then throw MALFORMED
      else map_sum id snd (run_prefix server_piggyback_reader data))"

definition SkipTtcServerPiggyback :: "bytes \<Rightarrow> nat \<Rightarrow> nat result" where
  "SkipTtcServerPiggyback message offset =
     (if offset > length message then throw MALFORMED
      else andthen (SkippedTtcServerPiggybackBytes (drop offset message)) (\<lambda>n. Inr (offset + n)))"

section \<open>Transactions\<close>

abbreviation TTC_FUNCTION_COMMIT :: u8 where "TTC_FUNCTION_COMMIT \<equiv> 14"
abbreviation TTC_FUNCTION_ROLLBACK :: u8 where "TTC_FUNCTION_ROLLBACK \<equiv> 15"

definition EncodeTransaction :: "u8 \<Rightarrow> u8 \<Rightarrow> bytes" where
  "EncodeTransaction function_code sequence =
     writes [WriteByte TTC_MESSAGE_FUNCTION, WriteByte function_code, WriteByte sequence] []"

definition EncodeTtcCommitRequest :: "u8 \<Rightarrow> bytes" where
  "EncodeTtcCommitRequest = EncodeTransaction TTC_FUNCTION_COMMIT"

definition EncodeTtcRollbackRequest :: "u8 \<Rightarrow> bytes" where
  "EncodeTtcRollbackRequest = EncodeTransaction TTC_FUNCTION_ROLLBACK"

record transaction_status =
  call_status :: u32
  end_to_end_sequence :: u16

definition DecodeTtcTransactionStatus :: "bytes \<Rightarrow> transaction_status result" where
  "DecodeTtcTransactionStatus = decode_message (bindr ReadByte (\<lambda>t.
     thenr (refuse (t \<noteq> TTC_MESSAGE_STATUS) MALFORMED)
     (bindr ReadUB4 (\<lambda>status. bindr ReadUB2 (\<lambda>sequence.
      thenr (at_end MALFORMED) (ret \<lparr>call_status = status, end_to_end_sequence = sequence\<rparr>))))))"

section \<open>Parameters\<close>

definition MAX_PARAMETER_COUNT :: nat where
  "MAX_PARAMETER_COUNT = 64"

definition MAX_PARAMETER_BYTES :: nat where
  "MAX_PARAMETER_BYTES = 65535"

definition MAX_RETURN_PARAMETER_COUNT :: nat where
  "MAX_RETURN_PARAMETER_COUNT = 4096"

record ttc_parameter =
  param_key :: string
  param_value :: string
  param_flags :: u32

definition WriteTwoLengths :: "string \<Rightarrow> byte_writer \<Rightarrow> byte_writer result" where
  "WriteTwoLengths value w =
     (if length value > MAX_PARAMETER_BYTES then throw LIMIT_EXCEEDED
      else let w = WriteUB4 (of_nat (length value)) w
           in Inr (if value \<noteq> [] then WriteLengthPrefixed (Some (to_bytes value)) w else w))"

definition ReadTwoLengths :: "string reader" where
  "ReadTwoLengths = bindr ReadUB4 (\<lambda>declared_size.
     if unat declared_size > MAX_PARAMETER_BYTES then raise LIMIT_EXCEEDED
     else if declared_size = 0 then ret []
     else bindr (ReadLengthPrefixed (unat declared_size)) (\<lambda>encoded.
       case encoded of None \<Rightarrow> raise MALFORMED | Some e \<Rightarrow> ret (to_string e)))"

fun iterations_loop :: "string \<Rightarrow> u32 \<Rightarrow> u32 result" where
  "iterations_loop [] value = Inr value"
| "iterations_loop (c # cs) value =
     (if \<not> isdigit c then throw MALFORMED
      else let value = value * 10 + of_nat (digit_value c)
           in if value > 10000000 then throw LIMIT_EXCEEDED else iterations_loop cs value)"

definition ParseIterations :: "string \<Rightarrow> u32 result" where
  "ParseIterations value =
     (if value = [] \<or> length value > 8 then throw MALFORMED
      else andthen (iterations_loop value 0) (\<lambda>r. if r = 0 then throw MALFORMED else Inr r))"

definition return_parameter_reader :: "unit reader" where
  "return_parameter_reader = bindr ReadByte (\<lambda>t.
     thenr (refuse (t \<noteq> TTC_MESSAGE_PARAMETER) MALFORMED)
     (bindr ReadUB2 (\<lambda>parameter_count.
      thenr (refuse (unat parameter_count > MAX_RETURN_PARAMETER_COUNT) LIMIT_EXCEEDED)
     (thenr (repeatr (unat parameter_count) ReadUB4)
     (bindr ReadUB2 (\<lambda>transaction_id_size.
      thenr (refuse (unat transaction_id_size > MAX_PARAMETER_BYTES) LIMIT_EXCEEDED)
     (thenr (Skip (unat transaction_id_size))
     (bindr ReadUB2 (\<lambda>key_value_count.
      thenr (refuse (unat key_value_count > MAX_RETURN_PARAMETER_COUNT) LIMIT_EXCEEDED)
     (thenr (repeatr (unat key_value_count)
        (bindr ReadUB2 (\<lambda>key_size.
         thenr (whenr (0 < key_size) (discard (ReadLengthPrefixed (unat key_size))))
        (bindr ReadUB2 (\<lambda>value_size.
         thenr (whenr (0 < value_size) (discard (ReadLengthPrefixed (unat value_size))))
         ReadUB2)))))
     (bindr ReadUB2 (\<lambda>registration_size.
      thenr (refuse (unat registration_size > MAX_PARAMETER_BYTES) LIMIT_EXCEEDED)
      (Skip (unat registration_size))))))))))))))"

definition DecodeTtcReturnParameterPrefix :: "unit decoder" where
  "DecodeTtcReturnParameterPrefix = run_prefix return_parameter_reader"

definition write_parameter :: "ttc_parameter \<Rightarrow> byte_writer \<Rightarrow> byte_writer result" where
  "write_parameter p w =
     andthen (WriteTwoLengths (param_key p) w) (\<lambda>w.
     andthen (WriteTwoLengths (param_value p) w) (\<lambda>w. Inr (WriteUB4 (param_flags p) w)))"

definition EncodeTtcParameters :: "ttc_parameter list \<Rightarrow> bytes result" where
  "EncodeTtcParameters parameters =
     (if length parameters > MAX_PARAMETER_COUNT then throw LIMIT_EXCEEDED
      else each write_parameter parameters
        (writes [WriteByte TTC_MESSAGE_PARAMETER, WriteUB4 (of_nat (length parameters))] []))"

definition read_parameter :: "ttc_parameter reader" where
  "read_parameter = bindr ReadTwoLengths (\<lambda>key. bindr ReadTwoLengths (\<lambda>value. bindr ReadUB4 (\<lambda>flags.
     thenr (refuse (key = []) MALFORMED)
       (ret \<lparr>param_key = key, param_value = value, param_flags = flags\<rparr>))))"

definition parameters_reader :: "ttc_parameter list reader" where
  "parameters_reader = bindr ReadByte (\<lambda>t.
     thenr (refuse (t \<noteq> TTC_MESSAGE_PARAMETER) MALFORMED)
     (bindr ReadUB4 (\<lambda>count.
      thenr (refuse (unat count > MAX_PARAMETER_COUNT) LIMIT_EXCEEDED)
        (repeatr (unat count) read_parameter))))"

definition DecodeTtcParameters :: "bytes \<Rightarrow> ttc_parameter list result" where
  "DecodeTtcParameters = decode_message parameters_reader"

subsection \<open>The O5LOGON challenge\<close>

definition O5LOGON_VERIFIER_12C :: u32 where
  "O5LOGON_VERIFIER_12C = 0x4815"

definition RequireSupportedO5LogonVerifier :: "u32 \<Rightarrow> unit result" where
  "RequireSupportedO5LogonVerifier verifier_type =
     (if verifier_type = O5LOGON_VERIFIER_12C then Inr () else throw UNSUPPORTED)"

record o5logon_challenge =
  verifier_data_hex :: string
  server_session_key_hex :: string
  combo_key_salt_hex :: string
  verifier_iterations :: u32
  combo_key_iterations :: u32
  verifier_type :: u32

fun challenge_values :: "ttc_parameter list \<Rightarrow> (string \<rightharpoonup> string) \<Rightarrow> u32 \<Rightarrow> ((string \<rightharpoonup> string) \<times> u32) result" where
  "challenge_values [] values verifier = Inr (values, verifier)"
| "challenge_values (p # ps) values verifier =
     (if values (param_key p) \<noteq> None then throw MALFORMED
      else challenge_values ps (values(param_key p \<mapsto> param_value p))
             (if param_key p = ''AUTH_VFR_DATA'' then param_flags p else verifier))"

definition required :: "(string \<rightharpoonup> string) \<Rightarrow> string \<Rightarrow> string result" where
  "required values key = (case values key of None \<Rightarrow> throw MALFORMED | Some v \<Rightarrow> Inr v)"

definition O5LogonChallengeFromParameters :: "ttc_parameter list \<Rightarrow> o5logon_challenge result" where
  "O5LogonChallengeFromParameters parameters =
     andthen (challenge_values parameters Map.empty 0) (\<lambda>(values, verifier).
     andthen (required values ''AUTH_VFR_DATA'') (\<lambda>_.
     andthen (RequireSupportedO5LogonVerifier verifier) (\<lambda>_.
     andthen (required values ''AUTH_VFR_DATA'') (\<lambda>data.
     andthen (required values ''AUTH_SESSKEY'') (\<lambda>key.
     andthen (required values ''AUTH_PBKDF2_CSK_SALT'') (\<lambda>salt.
     andthen (andthen (required values ''AUTH_PBKDF2_VGEN_COUNT'') ParseIterations) (\<lambda>vgen.
     andthen (andthen (required values ''AUTH_PBKDF2_SDER_COUNT'') ParseIterations) (\<lambda>sder.
     Inr \<lparr>verifier_data_hex = data, server_session_key_hex = key, combo_key_salt_hex = salt,
          verifier_iterations = vgen, combo_key_iterations = sder, verifier_type = verifier\<rparr>))))))))"

section \<open>The authentication function\<close>

abbreviation TTC_FUNCTION_AUTH_PHASE_ONE :: u8 where "TTC_FUNCTION_AUTH_PHASE_ONE \<equiv> 118"
abbreviation TTC_FUNCTION_AUTH_PHASE_TWO :: u8 where "TTC_FUNCTION_AUTH_PHASE_TWO \<equiv> 115"

definition EncodeTtcAuthFunction :: "u8 \<Rightarrow> u8 \<Rightarrow> string \<Rightarrow> u32 \<Rightarrow> ttc_parameter list \<Rightarrow> bytes result" where
  "EncodeTtcAuthFunction function_code sequence username auth_mode parameters =
     (if (function_code \<noteq> TTC_FUNCTION_AUTH_PHASE_ONE \<and> function_code \<noteq> TTC_FUNCTION_AUTH_PHASE_TWO)
         \<or> length username > 252 \<or> length parameters > 64 then throw MALFORMED
      else each (\<lambda>p w. if param_key p = [] then throw MALFORMED else write_parameter p w) parameters
        (writes [WriteByte TTC_MESSAGE_FUNCTION, WriteByte function_code, WriteByte sequence,
                 WriteByte (if username = [] then 0 else 1), WriteUB4 (of_nat (length username)),
                 WriteUB4 auth_mode, WriteByte 1, WriteUB4 (of_nat (length parameters)),
                 WriteByte 1, WriteByte 1,
                 (if username \<noteq> [] then WriteLengthPrefixed (Some (to_bytes username)) else id)] []))"

section \<open>Lemmas\<close>

lemma wire_error_arrays [wire_intros]:
  "wire_reader SkipPackedUb2Array" "wire_reader SkipPackedUb4Array" "wire_reader SkipBatchMessages"
  "wire_reader (read_error_text number)"
  unfolding SkipPackedUb2Array_def SkipPackedUb4Array_def SkipBatchMessages_def read_error_text_def
  by (intro wire_intros)+

interpretation ttc_error: wire_reader "ttc_error_reader v" for v
  unfolding ttc_error_reader_def by (intro wire_intros)

interpretation ttc_error_prefix: prefix_decoder "DecodeTtcErrorPrefix v" for v
  unfolding DecodeTtcErrorPrefix_def by (rule prefix_decoder_run[OF ttc_error.wire_reader_axioms])

interpretation server_piggyback: wire_reader server_piggyback_reader
  unfolding server_piggyback_reader_def by (intro wire_intros)

interpretation return_parameter: wire_reader return_parameter_reader
  unfolding return_parameter_reader_def by (intro wire_intros)

interpretation return_parameter_prefix: prefix_decoder DecodeTtcReturnParameterPrefix
  unfolding DecodeTtcReturnParameterPrefix_def
  by (rule prefix_decoder_run[OF return_parameter.wire_reader_axioms])

lemma wire_two_lengths [wire_intros]: "wire_reader ReadTwoLengths"
  unfolding ReadTwoLengths_def by (intro wire_intros)

interpretation ttc_parameters: wire_reader parameters_reader
  unfolding parameters_reader_def read_parameter_def by (intro wire_intros)

text \<open>The piggyback at the start of a buffer, as a prefix decoder of its length.\<close>

definition skip_piggyback :: "unit decoder" where
  "skip_piggyback data = andthen (SkippedTtcServerPiggybackBytes data) (\<lambda>n. Inr ((), n))"

lemma skip_piggyback_eq:
  "data \<noteq> [] \<Longrightarrow> skip_piggyback data =
     (if hd data \<noteq> TTC_MESSAGE_SERVER_PIGGYBACK then throw MALFORMED else run_prefix server_piggyback_reader data)"
  by (auto simp: skip_piggyback_def SkippedTtcServerPiggybackBytes_def andthen_def map_sum_def split: sum.splits)

lemma decode_message_parses: "parses get bs a \<Longrightarrow> decode_message get (bs @ post) = Inr a"
  using parsesD[of get bs a "[]" post] by (simp add: decode_message_def new_reader_at)

subsection \<open>Parameters read back\<close>

lemma unat_of_nat_u32: "n < 4294967296 \<Longrightarrow> unat (of_nat n :: u32) = n"
  by (simp add: unsigned_of_nat take_bit_nat_eq_self)

definition two_lengths_bytes :: "string \<Rightarrow> bytes" where
  "two_lengths_bytes s = WriteUB4 (of_nat (length s)) [] @
     (if s \<noteq> [] then WriteLengthPrefixed (Some (to_bytes s)) [] else [])"

lemma WriteTwoLengths_eq:
  "WriteTwoLengths s w =
     (if length s > MAX_PARAMETER_BYTES then throw LIMIT_EXCEEDED else Inr (w @ two_lengths_bytes s))"
proof -
  have "WriteLengthPrefixed (Some (to_bytes s)) (WriteUB4 n w) =
      w @ WriteUB4 n [] @ WriteLengthPrefixed (Some (to_bytes s)) []" for n
    by (subst WriteLengthPrefixed_append, subst ub4.put_appends) simp
  moreover have "WriteUB4 n w = w @ WriteUB4 n []" for n by (rule ub4.put_appends)
  ultimately show ?thesis
    by (simp add: WriteTwoLengths_def two_lengths_bytes_def Let_def)
qed

lemma two_lengths_append:
  "WriteTwoLengths s w = Inr w' \<Longrightarrow> \<exists>bs. w' = w @ bs \<and> (\<forall>v. WriteTwoLengths s v = Inr (v @ bs))"
  by (auto simp: WriteTwoLengths_eq split: if_splits)

lemma two_lengths_reads_back:
  assumes "WriteTwoLengths s [] = Inr bs"
  shows "parses ReadTwoLengths bs s"
proof -
  let ?n = "of_nat (length s) :: u32"
  have l: "length s \<le> MAX_PARAMETER_BYTES" using assms by (auto simp: WriteTwoLengths_def split: if_splits)
  then have u: "unat ?n = length s" by (simp add: unat_of_nat_u32 MAX_PARAMETER_BYTES_def)
  show ?thesis
  proof (cases "s = []")
    case True
    have "bs = WriteUB4 0 []" using True assms by (simp add: WriteTwoLengths_def)
    moreover have "parses ReadTwoLengths (WriteUB4 0 [] @ []) s"
      unfolding ReadTwoLengths_def by (rule parses_bind[OF ub4.reads_back]) (simp_all add: True MAX_PARAMETER_BYTES_def)
    ultimately show ?thesis by simp
  next
    case False
    have n0: "?n \<noteq> 0" using u False by (metis length_0_conv unat_0)
    have "bs = WriteUB4 ?n [] @ WriteLengthPrefixed (Some (to_bytes s)) []"
      using False assms l by (simp add: WriteTwoLengths_eq two_lengths_bytes_def)
    moreover have "parses ReadTwoLengths (WriteUB4 ?n [] @ WriteLengthPrefixed (Some (to_bytes s)) [] @ []) s"
      unfolding ReadTwoLengths_def
    proof (rule parses_bind[OF ub4.reads_back[OF TrueI]], unfold id_apply)
      show "parses (if MAX_PARAMETER_BYTES < unat ?n then raise LIMIT_EXCEEDED
          else if ?n = 0 then ret []
          else bindr (ReadLengthPrefixed (unat ?n)) (\<lambda>encoded.
            case encoded of None \<Rightarrow> raise MALFORMED | Some e \<Rightarrow> ret (to_string e)))
          (WriteLengthPrefixed (Some (to_bytes s)) [] @ []) s"
        using l n0 unfolding u
        by (simp del: append_Nil2) (rule parses_bind[OF length_prefixed.reads_back],
            simp_all add: null_view_def False)
    qed
    ultimately show ?thesis by simp
  qed
qed

lemma write_parameter_cases:
  assumes "write_parameter p w = Inr w'"
  obtains ks vs where "WriteTwoLengths (param_key p) [] = Inr ks" "WriteTwoLengths (param_value p) [] = Inr vs"
    "w' = w @ ks @ vs @ WriteUB4 (param_flags p) []"
proof -
  obtain w1 w2 where w: "WriteTwoLengths (param_key p) w = Inr w1" "WriteTwoLengths (param_value p) w1 = Inr w2"
    "w' = WriteUB4 (param_flags p) w2"
    using assms by (auto simp: write_parameter_def andthen_eq_Inr)
  obtain ks where ks: "w1 = w @ ks" "\<forall>v. WriteTwoLengths (param_key p) v = Inr (v @ ks)"
    using two_lengths_append[OF w(1)] by blast
  obtain vs where vs: "w2 = w1 @ vs" "\<forall>v. WriteTwoLengths (param_value p) v = Inr (v @ vs)"
    using two_lengths_append[OF w(2)] by blast
  show ?thesis
    by (rule that[of ks vs]) (use ks vs w(3) ub4.put_appends[of "param_flags p" w2] in simp_all)
qed

lemma parameter_reads_back:
  assumes "write_parameter p w = Inr (w @ bs)" "param_key p \<noteq> []"
  shows "parses read_parameter bs p"
  using assms(1)
proof (rule write_parameter_cases)
  fix ks vs
  assume k: "WriteTwoLengths (param_key p) [] = Inr ks" and v: "WriteTwoLengths (param_value p) [] = Inr vs"
    and "w @ bs = w @ ks @ vs @ WriteUB4 (param_flags p) []"
  then have bs: "bs = ks @ vs @ WriteUB4 (param_flags p) [] @ []" by simp
  show ?thesis
    unfolding read_parameter_def bs
    by (rule parses_bind[OF two_lengths_reads_back[OF k]], rule parses_bind[OF two_lengths_reads_back[OF v]],
        rule parses_bind[OF ub4.reads_back[OF TrueI]]) (cases p, use assms(2) in simp)
qed

definition parameter_bytes :: "ttc_parameter \<Rightarrow> bytes" where
  "parameter_bytes p = (case write_parameter p [] of Inr bs \<Rightarrow> bs | Inl _ \<Rightarrow> [])"

lemma write_parameter_eq:
  "write_parameter p w = Inr w' \<longleftrightarrow>
     length (param_key p) \<le> MAX_PARAMETER_BYTES \<and> length (param_value p) \<le> MAX_PARAMETER_BYTES \<and>
     w' = w @ two_lengths_bytes (param_key p) @ two_lengths_bytes (param_value p) @ WriteUB4 (param_flags p) []"
  unfolding write_parameter_def WriteTwoLengths_eq
  by (subst ub4.put_appends) (auto simp: not_less)

lemma write_parameter_append: "write_parameter p w = Inr w' \<Longrightarrow> w' = w @ parameter_bytes p"
  using write_parameter_eq[of p "[]" "two_lengths_bytes (param_key p) @ two_lengths_bytes (param_value p) @ WriteUB4 (param_flags p) []"]
    write_parameter_eq[of p w w']
  by (simp add: parameter_bytes_def)

section \<open>Properties\<close>

text \<open>
  C17. A parameter list that the encoder accepts is decoded to itself, also when the server
  appends a trailer to the list. The only lists the decoder refuses are those with an empty key.
\<close>

theorem parameters_round_trip:
  assumes "EncodeTtcParameters ps = Inr message" and "\<forall>p\<in>set ps. param_key p \<noteq> []"
  shows "DecodeTtcParameters (message @ trailer) = Inr ps"
proof -
  have len: "length ps \<le> MAX_PARAMETER_COUNT" using assms(1) by (auto simp: EncodeTtcParameters_def split: if_splits)
  then have u: "unat (of_nat (length ps) :: u32) = length ps"
    by (simp add: unat_of_nat_u32 MAX_PARAMETER_COUNT_def)
  have e: "each write_parameter ps (WriteUB4 (of_nat (length ps)) [TTC_MESSAGE_PARAMETER]) = Inr message"
    using assms(1) len by (simp add: EncodeTtcParameters_def appends)
  from each_Inr_appends[OF write_parameter_append e]
  have m: "message = TTC_MESSAGE_PARAMETER # WriteUB4 (of_nat (length ps)) [] @ concat (map parameter_bytes ps)"
    using ub4.put_appends[of "of_nat (length ps)" "[TTC_MESSAGE_PARAMETER]"] by simp
  have "parses read_parameter (parameter_bytes p) (id p)" if p: "p \<in> set ps" for p
  proof -
    obtain w1 w2 where w: "write_parameter p w1 = Inr w2" using each_Inr_step[OF e p] by blast
    show ?thesis
      using parameter_reads_back[of p w1 "parameter_bytes p"] write_parameter_append[OF w] w assms(2) p by simp
  qed
  from parses_repeatr[of ps read_parameter parameter_bytes id, OF this]
  have "parses (repeatr (length ps) read_parameter) (concat (map parameter_bytes ps)) ps" by simp
  then have "parses parameters_reader message ps"
    unfolding m parameters_reader_def
    using len by (intro parses_byte_bind) (simp, rule parses_bind[OF ub4.reads_back[OF TrueI]], simp add: u not_less)
  then show ?thesis
    unfolding DecodeTtcParameters_def by (rule decode_message_parses)
qed

lemma parameters_round_trip_witness:
  "DecodeTtcParameters ([8, 1, 1, 1, 1, 1, 65, 0, 0] @ [9, 9]) =
    Inr [\<lparr>param_key = ''A'', param_value = [], param_flags = 0\<rparr>]"
proof -
  let ?p = "\<lparr>param_key = ''A'', param_value = [], param_flags = 0\<rparr>"
  have "EncodeTtcParameters [?p] = Inr [8, 1, 1, 1, 1, 1, 65, 0, 0]"
    by (simp add: EncodeTtcParameters_def MAX_PARAMETER_COUNT_def write_parameter_def WriteTwoLengths_eq
        two_lengths_bytes_def MAX_PARAMETER_BYTES_def WriteUB4_def WriteUniversal_eq universal_width.simps
        WriteLengthPrefixed_def TNS_MAX_SHORT_LENGTH_def appends to_bytes_def be_bytes_def word_le_nat_alt)
  from parameters_round_trip[OF this] show ?thesis by simp
qed

end
