(* ===== verification/Ttc_Channel.thy ===== *)
theory Ttc_Channel
  imports Byte_Stream Ttc_Messages
begin

text \<open>
  \<^verbatim>\<open>src/ttc_channel.cpp\<close>: TTC messages over a packet stream. A request is cut into DATA
  packets with the queued piggybacks in front; a response is reassembled from DATA packets,
  with break and reset markers answered on the way. The locks are not modelled: every
  operation here runs with its lock held, as one step.
\<close>

section \<open>State\<close>

record ttc_channel =
  packets :: packet_stream
  negotiated_sdu :: nat
  assembler :: data_assembler
  pending_close_cursors :: "u32 list"
  pending_end_to_end :: end_to_end_attributes
  next_piggyback_sequence :: u8
  wire_field_version :: u8
  cancellation_supported :: bool
  cancellation_requested :: bool

definition MARKER :: tns_packet_type where
  "MARKER = 12"

definition TTC_FIELD_VERSION_HEADER_TOKEN :: u8 where
  "TTC_FIELD_VERSION_HEADER_TOKEN = 18"

definition TtcChannel :: "packet_stream \<Rightarrow> nat \<Rightarrow> nat \<Rightarrow> bool \<Rightarrow> ttc_channel result" where
  "TtcChannel packets_p sdu max_size cancellation =
     andthen (TnsDataAssembler max_size) (\<lambda>a.
       if sdu \<le> TNS_PACKET_HEADER_SIZE + 2 \<or> sdu > MAX_TNS_PACKET_LENGTH then throw MALFORMED
       else Inr \<lparr>packets = packets_p, negotiated_sdu = sdu, assembler = a, pending_close_cursors = [],
                 pending_end_to_end = no_attributes, next_piggyback_sequence = 1, wire_field_version = 0,
                 cancellation_supported = cancellation, cancellation_requested = False\<rparr>)"

section \<open>What is queued for the next request\<close>

definition QueueCloseCursor :: "u32 \<Rightarrow> (ttc_channel, unit) action" where
  "QueueCloseCursor cursor_id c =
     (if cursor_id = 0 then (c, throw MALFORMED)
      else (c\<lparr>pending_close_cursors := pending_close_cursors c @ [cursor_id]\<rparr>, Inr ()))"

definition QueueEndToEndAttributes :: "end_to_end_attributes \<Rightarrow> ttc_channel \<Rightarrow> ttc_channel" where
  "QueueEndToEndAttributes attributes c =
     (let old = pending_end_to_end c;
          newer = (\<lambda>new current. if new \<noteq> None then new else current)
      in c\<lparr>pending_end_to_end :=
        \<lparr>client_identifier = newer (client_identifier attributes) (client_identifier old),
         e2e_module = newer (e2e_module attributes) (e2e_module old),
         e2e_action = newer (e2e_action attributes) (e2e_action old),
         client_info = newer (client_info attributes) (client_info old)\<rparr>\<rparr>)"

definition PendingCloseCursorCount :: "ttc_channel \<Rightarrow> nat" where
  "PendingCloseCursorCount c = length (pending_close_cursors c)"

definition SetWireFieldVersion :: "u8 \<Rightarrow> ttc_channel \<Rightarrow> ttc_channel" where
  "SetWireFieldVersion field_version c = c\<lparr>wire_field_version := field_version\<rparr>"

section \<open>Sending\<close>

definition WithHeaderToken :: "bytes \<Rightarrow> u8 \<Rightarrow> bytes" where
  "WithHeaderToken message field_version =
     (if field_version \<ge> TTC_FIELD_VERSION_HEADER_TOKEN \<and> length message \<ge> 3 \<and>
         (message ! 0 = TTC_MESSAGE_FUNCTION \<or> message ! 0 = TTC_MESSAGE_PIGGYBACK)
      then take 3 message @ [0] @ drop 3 message else message)"

definition on_packets :: "(packet_stream, 'a) action \<Rightarrow> (ttc_channel, 'a) action" where
  "on_packets f c = (case f (packets c) of (p, r) \<Rightarrow> (c\<lparr>packets := p\<rparr>, r))"

fun send_each :: "bytes list \<Rightarrow> (ttc_channel, unit) action" where
  "send_each [] = returning ()"
| "send_each (wire # wires) = (\<lambda>c.
     after (lifting (DecodeTnsPacket wire True (negotiated_sdu c)))
       (\<lambda>packet. after (on_packets (SendPacket packet)) (\<lambda>_. send_each wires)) c)"

text \<open>The bytes of one request: the piggybacks that are due, then the call.\<close>

definition outbound_message :: "bytes \<Rightarrow> ttc_channel \<Rightarrow> (bytes \<times> u8) result" where
  "outbound_message request c =
     (let message = WithHeaderToken request (wire_field_version c);
          end_to_end = \<not> attributes_empty (pending_end_to_end c);
          sequence = next_piggyback_sequence c
      in andthen
          (if end_to_end
           then andthen (EncodeTtcEndToEndPiggyback sequence (pending_end_to_end c))
                  (\<lambda>p. Inr (WithHeaderToken p (wire_field_version c), sequence + 1))
           else Inr ([], sequence)) (\<lambda>(e2e, sequence).
         andthen
          (if pending_close_cursors c \<noteq> []
           then andthen (EncodeTtcCloseCursorsPiggyback sequence (pending_close_cursors c))
                  (\<lambda>p. Inr (WithHeaderToken p (wire_field_version c), sequence + 1))
           else Inr ([], sequence)) (\<lambda>(close, sequence).
         Inr (e2e @ close @ message, sequence))))"

definition Send :: "bytes \<Rightarrow> (ttc_channel, unit) action" where
  "Send request c =
     (if request = [] then (c, throw MALFORMED)
      else case outbound_message request c of
          Inl e \<Rightarrow> (c, Inl e)
        | Inr (outbound_bytes, sequence) \<Rightarrow>
            after (after (lifting (EncodeTnsDataPackets outbound_bytes True (negotiated_sdu c) 0)) send_each)
              (\<lambda>_ c'. (c'\<lparr>pending_close_cursors := [], pending_end_to_end := no_attributes,
                        next_piggyback_sequence := sequence\<rparr>, Inr ())) c)"

definition Cancel :: "(ttc_channel, unit) action" where
  "Cancel c =
     (if \<not> cancellation_supported c then (c, throw UNSUPPORTED)
      else if cancellation_requested c then (c, throw INVALID_STATE)
      else case on_packets (SendPacket \<lparr>pk_type = MARKER, pk_flags = 0, pk_payload = [1, 0, 3]\<rparr>)
                 (c\<lparr>cancellation_requested := True\<rparr>) of
          (c', Inl e) \<Rightarrow> (c'\<lparr>cancellation_requested := False\<rparr>, Inl e)
        | (c', Inr _) \<Rightarrow> (c', Inr ()))"

section \<open>Receiving\<close>

definition reset_marker :: "u8 \<Rightarrow> tns_packet" where
  "reset_marker flags = \<lparr>pk_type = MARKER, pk_flags = flags, pk_payload = [1, 0, 2]\<rparr>"

definition on_assembler :: "(data_assembler, 'a) action \<Rightarrow> (ttc_channel, 'a) action" where
  "on_assembler f c = (case f (assembler c) of (a, r) \<Rightarrow> (c\<lparr>assembler := a\<rparr>, r))"

text \<open>
  What one turn of the receive loop does with a packet: it answers a marker and goes on, adds
  a fragment and goes on, or returns a message. The two counters are the turn's and the next one's.
\<close>

datatype turn = Message bytes | Go_on nat nat

definition receive_marker :: "nat \<Rightarrow> nat \<Rightarrow> tns_packet \<Rightarrow> (ttc_channel, turn) action" where
  "receive_marker reset_count empty_fragment_count packet c =
     (let payload = pk_payload packet in
      if length payload \<noteq> 3 \<or> payload ! 0 \<noteq> 1 \<or> payload ! 1 \<noteq> 0 then (c, throw MALFORMED)
      else if payload ! 2 = 2 then
        if cancellation_requested c then
          after (on_packets (SendPacket (reset_marker (pk_flags packet))))
            (\<lambda>_. returning (Go_on reset_count empty_fragment_count)) (c\<lparr>cancellation_requested := False\<rparr>)
        else (c, Inr (Go_on reset_count empty_fragment_count))
      else if (payload ! 2 \<noteq> 1 \<and> payload ! 2 \<noteq> 3) \<or> reset_count + 1 > 2 then (c, throw MALFORMED)
      else after (on_packets (SendPacket (reset_marker (pk_flags packet))))
             (\<lambda>_. returning (Go_on (reset_count + 1) empty_fragment_count)) c)"

definition receive_data :: "nat \<Rightarrow> nat \<Rightarrow> tns_packet \<Rightarrow> (ttc_channel, turn) action" where
  "receive_data reset_count empty_fragment_count packet =
     after (on_assembler (\<lambda>a. Push a packet)) (\<lambda>complete c.
       case complete of
         Some message \<Rightarrow> if message = [] then (c, throw MALFORMED) else (c, Inr (Message message))
       | None \<Rightarrow>
           if pk_type packet = DATA \<and> length (pk_payload packet) = 2 then
             if empty_fragment_count + 1 > 16 then (c, throw LIMIT_EXCEEDED)
             else (c, Inr (Go_on reset_count (empty_fragment_count + 1)))
           else if pk_type packet = DATA \<and> length (pk_payload packet) + TNS_PACKET_HEADER_SIZE < negotiated_sdu c then
             after (on_assembler TakeBuffered) (\<lambda>message. returning (Message message)) c
           else (c, Inr (Go_on reset_count empty_fragment_count)))"

definition receive_turn :: "nat \<Rightarrow> nat \<Rightarrow> (ttc_channel, turn) action" where
  "receive_turn reset_count empty_fragment_count =
     after (on_packets ReceivePacket) (\<lambda>packet.
       if pk_type packet = MARKER then receive_marker reset_count empty_fragment_count packet
       else receive_data reset_count empty_fragment_count packet)"

abbreviation channel_pending :: "ttc_channel \<Rightarrow> bytes" where
  "channel_pending c \<equiv> pending (stream (packets c))"

lemma on_packets_send_pending:
  "on_packets (SendPacket packet) c = (c', r) \<Longrightarrow> channel_pending c' = channel_pending c"
  by (auto simp: on_packets_def split: prod.splits dest!: SendPacket_pending)

lemma receive_turn_consumes:
  assumes "receive_turn n m c = (c', Inr t)"
  shows "length (channel_pending c') < length (channel_pending c)"
proof -
  obtain packet c1 where 1: "on_packets ReceivePacket c = (c1, Inr packet)"
    "(if pk_type packet = MARKER then receive_marker n m packet else receive_data n m packet) c1 = (c', Inr t)"
    using assms by (auto simp: receive_turn_def after_eq_Inr)
  have "length (channel_pending c1) < length (channel_pending c)"
    using 1(1) by (auto simp: on_packets_def split: prod.splits dest!: ReceivePacket_consumes)
  moreover have "channel_pending c' = channel_pending c1"
    using 1(2) by (auto simp: receive_marker_def receive_data_def Let_def after_eq_Inr returning_def on_assembler_def
        split: if_splits prod.splits option.splits dest!: on_packets_send_pending)
  ultimately show ?thesis by simp
qed

text \<open>The loop ends because every turn takes a packet off the stream.\<close>

function receive_loop :: "nat \<Rightarrow> nat \<Rightarrow> (ttc_channel, bytes) action" where
  "receive_loop reset_count empty_fragment_count c =
     (case receive_turn reset_count empty_fragment_count c of
        (c', Inl e) \<Rightarrow> (c', Inl e)
      | (c', Inr (Message message)) \<Rightarrow> (c', Inr message)
      | (c', Inr (Go_on n m)) \<Rightarrow> receive_loop n m c')"
  by pat_completeness auto
termination
  by (relation "measure (\<lambda>(n, m, c). length (channel_pending c))") (auto intro: receive_turn_consumes[OF sym])

declare receive_loop.simps [simp del]

definition Receive :: "(ttc_channel, bytes) action" where
  "Receive = receive_loop 0 0"

section \<open>Transaction calls\<close>

definition ReceiveTransactionStatus :: "u8 \<Rightarrow> (ttc_channel, transaction_status) action" where
  "ReceiveTransactionStatus server_field_version =
     after Receive (\<lambda>response.
       after (if IsTtcErrorMessage response
              then after (lifting (DecodeTtcErrorPrefix server_field_version response)) (\<lambda>(error, consumed).
                if error_number error \<noteq> 0
                then lifting (Inl (ProtocolError INVALID_STATE (Some (error_number error))))
                else returning ())
              else returning ())
         (\<lambda>_. lifting (DecodeTtcTransactionStatus response)))"

text \<open>A piggyback has at least its first byte, so that dropping one shortens the response.\<close>

lemma piggyback_positive: "SkipTtcServerPiggyback message 0 = Inr n \<Longrightarrow> 0 < n"
proof -
  assume a: "SkipTtcServerPiggyback message 0 = Inr n"
  then have "SkippedTtcServerPiggybackBytes message = Inr n"
    by (simp add: SkipTtcServerPiggyback_def andthen_eq_Inr)
  then obtain r where g: "server_piggyback_reader (new_reader message) = Inr ((), r)" "n = rd_position r"
    by (auto simp: SkippedTtcServerPiggybackBytes_def run_prefix_def map_sum_def split: if_splits sum.splits)
  have "\<exists>k. wire_reader k \<and> server_piggyback_reader = thenr ReadByte k"
    unfolding server_piggyback_reader_def by (rule exI, rule conjI[rotated], rule refl, intro wire_intros)
  then obtain k where k: "wire_reader k" "server_piggyback_reader = thenr ReadByte k" by blast
  from g(1) obtain b r1 where b: "ReadByte (new_reader message) = Inr (b, r1)" "k r1 = Inr ((), r)"
    unfolding k(2) thenr_def bindr_simps by blast
  from wire_reader.advances[OF k(1) read_byte.keeps_ok[OF reader_ok_new b(1)] b(2)] b(1) g(2)
  show "0 < n" by (auto simp: ReadByte_def split: if_splits)
qed

function drop_piggybacks :: "bytes \<Rightarrow> bytes result" where
  "drop_piggybacks response =
     (if response \<noteq> [] \<and> hd response = TTC_MESSAGE_SERVER_PIGGYBACK
      then case SkipTtcServerPiggyback response 0 of
          Inl e \<Rightarrow> Inl e
        | Inr after_it \<Rightarrow> drop_piggybacks (drop after_it response)
      else Inr response)"
  by pat_completeness auto
termination
  by (relation "measure length") (auto dest: piggyback_positive)

declare drop_piggybacks.simps [simp del]

definition Ping :: "u8 \<Rightarrow> u8 \<Rightarrow> (ttc_channel, unit) action" where
  "Ping sequence server_field_version =
     after (Send [TTC_MESSAGE_FUNCTION, TTC_FUNCTION_PING, sequence]) (\<lambda>_.
     after Receive (\<lambda>response.
     after (lifting (drop_piggybacks response)) (\<lambda>response.
     after (if IsTtcErrorMessage response
            then after (lifting (DecodeTtcErrorPrefix server_field_version response)) (\<lambda>(error, consumed).
              if error_number error \<noteq> 0
              then lifting (Inl (ProtocolError INVALID_STATE (Some (error_number error))))
              else returning ())
            else returning ())
       (\<lambda>_. after (lifting (DecodeTtcTransactionStatus response)) (\<lambda>_. returning ())))))"

definition Commit :: "u8 \<Rightarrow> u8 \<Rightarrow> (ttc_channel, transaction_status) action" where
  "Commit sequence server_field_version =
     after (Send (EncodeTtcCommitRequest sequence)) (\<lambda>_. ReceiveTransactionStatus server_field_version)"

definition Rollback :: "u8 \<Rightarrow> u8 \<Rightarrow> (ttc_channel, transaction_status) action" where
  "Rollback sequence server_field_version =
     after (Send (EncodeTtcRollbackRequest sequence)) (\<lambda>_. ReceiveTransactionStatus server_field_version)"

section \<open>Lemmas\<close>

text \<open>A channel as the client opens it: large packet lengths, and packets up to the SDU.\<close>

definition channel_ok :: "ttc_channel \<Rightarrow> bool" where
  "channel_ok c \<longleftrightarrow> 10 < negotiated_sdu c \<and> negotiated_sdu c \<le> MAX_TNS_PACKET_LENGTH \<and>
     large_length (packets c) \<and> negotiated_sdu c \<le> packet_limit (packets c) \<and>
     assembler_ok (assembler c) \<and> pieces_ok (stream (packets c))"

abbreviation end_flags :: "u16 \<Rightarrow> bool" where
  "end_flags flags \<equiv> flags AND (TNS_DATA_FLAG_END_OF_RESPONSE OR TNS_DATA_FLAG_EOF) \<noteq> 0"

definition same_settings :: "ttc_channel \<Rightarrow> ttc_channel \<Rightarrow> bool" where
  "same_settings c c' \<longleftrightarrow> negotiated_sdu c' = negotiated_sdu c \<and>
     maximum_message_size (assembler c') = maximum_message_size (assembler c) \<and>
     outbound (stream (packets c')) = outbound (stream (packets c))"

lemma same_settings_trans: "\<lbrakk>same_settings a b; same_settings b c\<rbrakk> \<Longrightarrow> same_settings a c"
  by (simp add: same_settings_def)

lemma receive_fragment:
  assumes c: "channel_ok c" "channel_pending c = w @ rest"
    and w: "EncodeTnsPacket DATA 0 (data_payload flags chunk) True = Inr w" "2 + length chunk + 8 \<le> negotiated_sdu c"
  shows "\<exists>c1. receive_turn n m c = receive_data n m \<lparr>pk_type = DATA, pk_flags = 0, pk_payload = data_payload flags chunk\<rparr> c1 \<and>
    channel_ok c1 \<and> channel_pending c1 = rest \<and> assembler c1 = assembler c \<and> same_settings c c1"
proof -
  let ?packet = "\<lparr>pk_type = DATA, pk_flags = 0, pk_payload = data_payload flags chunk\<rparr>"
  from DecodeTnsPacket_EncodeTnsPacket[OF w(1), of "packet_limit (packets c)"]
  have "DecodeTnsPacket w (large_length (packets c)) (packet_limit (packets c)) = Inr ?packet"
    using c(1) w(2) by (simp add: channel_ok_def)
  from ReceivePacket_wire[OF _ c(2) this] c(1)
  obtain p where p: "ReceivePacket (packets c) = (p, Inr ?packet)" "pieces_ok (stream p)" "pending (stream p) = rest"
    "outbound (stream p) = outbound (stream (packets c))"
    "large_length p = large_length (packets c)" "packet_limit p = packet_limit (packets c)"
    by (auto simp: channel_ok_def)
  then show ?thesis
    using c(1) by (intro exI[of _ "c\<lparr>packets := p\<rparr>"])
      (simp add: receive_turn_def on_packets_def after_def channel_ok_def same_settings_def DATA_def MARKER_def)
qed

lemma receive_data_end:
  assumes "channel_ok c" "end_flags flags" "length (buffered (assembler c)) + length chunk \<le> maximum_message_size (assembler c)"
    "buffered (assembler c) @ chunk \<noteq> []"
  shows "receive_data n m \<lparr>pk_type = DATA, pk_flags = 0, pk_payload = data_payload flags chunk\<rparr> c =
    (c\<lparr>assembler := (assembler c)\<lparr>buffered := []\<rparr>\<rparr>, Inr (Message (buffered (assembler c) @ chunk)))"
  using assms Push_data[of "assembler c" 0 flags chunk]
  by (auto simp: receive_data_def after_def on_assembler_def channel_ok_def)

lemma receive_data_more:
  assumes "channel_ok c" "length (buffered (assembler c)) + length chunk \<le> maximum_message_size (assembler c)"
    "length chunk = negotiated_sdu c - 10"
  shows "receive_data n m \<lparr>pk_type = DATA, pk_flags = 0, pk_payload = data_payload 0 chunk\<rparr> c =
    (c\<lparr>assembler := (assembler c)\<lparr>buffered := buffered (assembler c) @ chunk\<rparr>\<rparr>, Inr (Go_on n m))"
  using assms Push_data[of "assembler c" 0 0 chunk]
  by (auto simp: receive_data_def after_def on_assembler_def channel_ok_def TNS_PACKET_HEADER_SIZE_def)

lemma receive_fragments:
  assumes "fragments True chunk_limit flags message ws" and "chunk_limit = negotiated_sdu c - 10"
    and "channel_ok c" "channel_pending c = concat ws @ rest" "end_flags flags"
    and "length (buffered (assembler c)) + length message \<le> maximum_message_size (assembler c)"
    and "buffered (assembler c) @ message \<noteq> []"
  shows "\<exists>c'. receive_loop n m c = (c', Inr (buffered (assembler c) @ message)) \<and> channel_ok c' \<and>
    channel_pending c' = rest \<and> buffered (assembler c') = [] \<and> same_settings c c'"
  using assms
proof (induction arbitrary: c rule: fragments.induct)
  case (final message w)
  have len: "2 + length message + 8 \<le> negotiated_sdu c"
    using final by (auto simp: channel_ok_def)
  obtain c1 where c1: "receive_turn n m c = receive_data n m \<lparr>pk_type = DATA, pk_flags = 0, pk_payload = data_payload flags message\<rparr> c1"
    "channel_ok c1" "channel_pending c1 = rest" "assembler c1 = assembler c" "same_settings c c1"
    using receive_fragment[of c w rest flags message n m] final len by auto
  have "channel_ok (c1\<lparr>assembler := (assembler c)\<lparr>buffered := []\<rparr>\<rparr>)"
    using c1(2,4) by (simp add: channel_ok_def assembler_ok_def)
  with c1 receive_data_end[OF c1(2), of flags message n m] final show ?case
    by (subst receive_loop.simps) (simp add: same_settings_def)
next
  case (more chunk message w ws)
  have len: "2 + length chunk + 8 \<le> negotiated_sdu c"
    using more by (auto simp: channel_ok_def)
  obtain c1 where c1: "receive_turn n m c = receive_data n m \<lparr>pk_type = DATA, pk_flags = 0, pk_payload = data_payload 0 chunk\<rparr> c1"
    "channel_ok c1" "channel_pending c1 = concat ws @ rest" "assembler c1 = assembler c" "same_settings c c1"
    using receive_fragment[OF more.prems(2) _ more.hyps(3) len, of "concat ws @ rest" n m] more.prems(3) by auto
  let ?c2 = "c1\<lparr>assembler := (assembler c)\<lparr>buffered := buffered (assembler c) @ chunk\<rparr>\<rparr>"
  have t: "receive_turn n m c = (?c2, Inr (Go_on n m))"
    unfolding c1(1) c1(4)[symmetric]
  proof (rule receive_data_more[OF c1(2)])
    show "length (buffered (assembler c1)) + length chunk \<le> maximum_message_size (assembler c1)"
      using c1(4) more.prems(5) by simp
    show "length chunk = negotiated_sdu c1 - 10"
      using c1(5) more.hyps(1) more.prems(1) by (simp add: same_settings_def)
  qed
  have s2: "same_settings c ?c2" and sdu: "negotiated_sdu ?c2 = negotiated_sdu c"
    using c1(5) by (simp_all add: same_settings_def)
  have "channel_ok ?c2"
    using c1(2,4) more.prems(5) by (simp add: channel_ok_def assembler_ok_def)
  moreover have "chunk_limit = negotiated_sdu ?c2 - 10" "channel_pending ?c2 = concat ws @ rest"
    "length (buffered (assembler ?c2)) + length message \<le> maximum_message_size (assembler ?c2)"
    "buffered (assembler ?c2) @ message \<noteq> []"
    using more.prems(1,5) more.hyps(2) sdu c1(3) by simp_all
  ultimately
  obtain c' where "receive_loop n m ?c2 = (c', Inr (buffered (assembler c) @ chunk @ message))"
    "channel_ok c'" "channel_pending c' = rest" "buffered (assembler c') = []" "same_settings ?c2 c'"
    using more.IH[of ?c2] more.prems(4) by auto
  then show ?case
    using same_settings_trans[OF s2] by (subst receive_loop.simps) (simp add: t)
qed

subsection \<open>Sending\<close>

lemma WriteAll_done:
  "WriteAll source offset s = (s', Inr ()) \<Longrightarrow> outbound s' = outbound s @ drop offset source"
proof (induction source offset s rule: WriteAll.induct)
  case (1 source offset s)
  obtain n s1 where w: "Write (drop offset source) s = (n, s1)" by fastforce
  show ?case
  proof (cases "offset < length source")
    case True
    have o: "outbound s1 = outbound s @ take n (drop offset source)"
      using w by (auto simp: Write_def min_def split: list.splits)
    have n: "\<not> (n = 0 \<or> length source - offset < n)" "WriteAll source (offset + n) s1 = (s', Inr ())"
      using 1(2) w True by (auto simp: WriteAll.simps[of source offset s] Let_def split: if_splits)
    have "take n (drop offset source) @ drop (offset + n) source = drop offset source"
      by (metis append_take_drop_id drop_drop add.commute)
    then show ?thesis
      using 1(1)[OF True w[symmetric] refl n] o by simp
  next
    case False
    with 1(2) show ?thesis by (simp add: WriteAll.simps[of source offset s])
  qed
qed

lemma SendPacket_done:
  "SendPacket packet p = (p', Inr ()) \<Longrightarrow> \<exists>wire.
     EncodeTnsPacket (pk_type packet) (pk_flags packet) (pk_payload packet) (large_length p) = Inr wire \<and>
     outbound (stream p') = outbound (stream p) @ wire \<and> large_length p' = large_length p"
  by (auto simp: SendPacket_def send_wire_def encode_within_def andthen_eq_Inr
      split: sum.splits prod.splits if_splits dest!: WriteAll_done)

abbreviation channel_outbound :: "ttc_channel \<Rightarrow> bytes" where
  "channel_outbound c \<equiv> outbound (stream (packets c))"

definition same_queue :: "ttc_channel \<Rightarrow> ttc_channel \<Rightarrow> bool" where
  "same_queue c c' \<longleftrightarrow> pending_close_cursors c' = pending_close_cursors c \<and>
     pending_end_to_end c' = pending_end_to_end c \<and> next_piggyback_sequence c' = next_piggyback_sequence c"

lemma on_packets_queue: "on_packets f c = (c', r) \<Longrightarrow> same_queue c c' \<and> negotiated_sdu c' = negotiated_sdu c"
  by (auto simp: on_packets_def same_queue_def split: prod.splits)

lemma send_each_queue: "send_each ws c = (c', r) \<Longrightarrow> same_queue c c'"
proof (induction ws arbitrary: c)
  case (Cons w ws)
  show ?case
  proof (cases "DecodeTnsPacket w True (negotiated_sdu c)")
    case (Inr packet)
    obtain c1 r1 where s: "on_packets (SendPacket packet) c = (c1, r1)" by fastforce
    show ?thesis
      using Cons.prems Cons.IH[of c1] on_packets_queue[OF s] s
      by (cases r1) (auto simp: Inr same_queue_def)
  qed (use Cons.prems in \<open>simp add: same_queue_def\<close>)
qed (simp add: returning_def same_queue_def)

lemma send_each_done:
  assumes "fragments True mc flags message ws" "send_each ws c = (c', Inr ())" "large_length (packets c)"
  shows "channel_outbound c' = channel_outbound c @ concat ws"
proof -
  have step: "channel_outbound c' = channel_outbound c @ w @ concat us"
    if e: "EncodeTnsPacket DATA 0 payload True = Inr w" and s: "send_each (w # us) c = (c', Inr ())"
      and l: "large_length (packets c)"
      and IH: "\<And>c. send_each us c = (c', Inr ()) \<Longrightarrow> large_length (packets c) \<Longrightarrow>
        channel_outbound c' = channel_outbound c @ concat us" for w us payload c
  proof -
    let ?p = "\<lparr>pk_type = DATA, pk_flags = 0, pk_payload = payload\<rparr>"
    obtain c1 where "DecodeTnsPacket w True (negotiated_sdu c) = Inr ?p"
      "on_packets (SendPacket ?p) c = (c1, Inr ())" "send_each us c1 = (c', Inr ())"
      using s DecodeTnsPacket_EncodeTnsPacket[OF e, of "negotiated_sdu c"]
      by (auto simp: after_eq_Inr lifting_def split: if_splits)
    with IH[of c1] e l show ?thesis
      by (auto simp: on_packets_def split: prod.splits dest!: SendPacket_done)
  qed
  show ?thesis
    using assms
  proof (induction arbitrary: c rule: fragments.induct)
    case (final message w)
    from step[OF final.hyps(2) final.prems] show ?case by (auto simp: returning_def)
  next
    case (more chunk message w ws)
    from step[OF more.hyps(3) more.prems more.IH] show ?case by simp
  qed
qed

lemma message_received:
  assumes "channel_ok c" "buffered (assembler c) = []"
    and "EncodeTnsDataPackets message True (negotiated_sdu c) flags = Inr wires"
    and "message \<noteq> []" "length message \<le> maximum_message_size (assembler c)"
    and "end_flags flags"
    and "channel_pending c = concat wires @ rest"
  shows "\<exists>c'. Receive c = (c', Inr message) \<and> channel_ok c' \<and> buffered (assembler c') = [] \<and>
    channel_pending c' = rest \<and> same_settings c c'"
proof -
  have "fragments True (negotiated_sdu c - 10) flags message wires"
    using EncodeTnsDataPackets_fragments[of "negotiated_sdu c" True message flags] assms(1,3)
    by (auto simp: channel_ok_def)
  from receive_fragments[OF this refl, of rest 0 0] assms show ?thesis
    by (auto simp: Receive_def same_settings_def)
qed

text \<open>What a header token does to a message: from field version 18 on a call and a piggyback carry a zero after their sequence number.\<close>

fun with_token :: "u8 \<Rightarrow> bytes \<Rightarrow> bytes" where
  "with_token version (message_type # operation # sequence # body) =
     (if version \<ge> 18 \<and> (message_type = 3 \<or> message_type = 17) then message_type # operation # sequence # 0 # body
      else message_type # operation # sequence # body)"
| "with_token version message = message"

lemma WithHeaderToken_form: "WithHeaderToken message version = with_token version message"
  by (cases "(version, message)" rule: with_token.cases) (auto simp: WithHeaderToken_def TTC_FIELD_VERSION_HEADER_TOKEN_def)

lemma close_cursors_bytes:
  assumes "EncodeTtcCloseCursorsPiggyback sequence ids = Inr p"
  shows "p = [17, 105, sequence, 1] @ WriteUB4 (of_nat (length ids)) [] @ concat (map (\<lambda>i. WriteUB4 i []) ids)"
proof -
  have ub4: "WriteUB4 i w = w @ WriteUB4 i []" for i w
    by (simp add: WriteUB4_def WriteUniversal_eq appends)
  have "q = w @ concat (map (\<lambda>i. WriteUB4 i []) js)"
    if "each (\<lambda>i w. if i = 0 then throw MALFORMED else Inr (WriteUB4 i w)) js w = Inr q" for js w q
    using that
  proof (induction js arbitrary: w)
    case (Cons i js)
    then have "q = WriteUB4 i w @ concat (map (\<lambda>i. WriteUB4 i []) js)" by (auto simp: andthen_eq_Inr split: if_splits)
    then show ?case using ub4[of i w] by simp
  qed simp
  from this[of ids "[17, 105, sequence, 1] @ WriteUB4 (of_nat (length ids)) []" p] show ?thesis
    using assms ub4[of "of_nat (length ids)" "[17, 105, sequence, 1]"] unfolding EncodeTtcCloseCursorsPiggyback_def
    by (simp add: appends split: if_splits)
qed

text \<open>The piggyback that is due when a queue is not empty, with the sequence number it takes; nothing otherwise.\<close>

definition due :: "bool \<Rightarrow> u8 \<Rightarrow> bytes result \<Rightarrow> bytes \<Rightarrow> bool" where
  "due queued version piggyback sent \<longleftrightarrow> (if queued then \<exists>p. piggyback = Inr p \<and> sent = with_token version p else sent = [])"

lemma andthen_InrE:
  assumes "andthen m f = Inr b"
  obtains a where "m = Inr a" "f a = Inr b"
  using assms by (auto simp: andthen_eq_Inr)

lemma outbound_message_parts:
  assumes "outbound_message request c = Inr (message, sequence)"
  obtains e2e close where "message = e2e @ close @ with_token (wire_field_version c) request"
    "due (\<not> attributes_empty (pending_end_to_end c)) (wire_field_version c)
       (EncodeTtcEndToEndPiggyback (next_piggyback_sequence c) (pending_end_to_end c)) e2e"
    "due (pending_close_cursors c \<noteq> []) (wire_field_version c)
       (EncodeTtcCloseCursorsPiggyback (next_piggyback_sequence c + (if attributes_empty (pending_end_to_end c) then 0 else 1))
         (pending_close_cursors c)) close"
    "sequence = next_piggyback_sequence c + (if attributes_empty (pending_end_to_end c) then 0 else 1) +
       (if pending_close_cursors c = [] then 0 else 1)"
proof -
  let ?e = "\<not> attributes_empty (pending_end_to_end c)" and ?s = "next_piggyback_sequence c" and ?v = "wire_field_version c"
  obtain e2e s1 where
    e: "(if ?e then andthen (EncodeTtcEndToEndPiggyback ?s (pending_end_to_end c)) (\<lambda>p. Inr (WithHeaderToken p ?v, ?s + 1))
         else Inr ([], ?s)) = Inr (e2e, s1)"
    and rest: "andthen (if pending_close_cursors c \<noteq> [] then andthen (EncodeTtcCloseCursorsPiggyback s1 (pending_close_cursors c))
         (\<lambda>p. Inr (WithHeaderToken p ?v, s1 + 1)) else Inr ([], s1)) (\<lambda>(close, sequence).
         Inr (e2e @ close @ WithHeaderToken request ?v, sequence)) = Inr (message, sequence)"
    using assms unfolding outbound_message_def Let_def by (elim andthen_InrE) (simp split: prod.splits)
  from rest obtain close s2 where
    l: "(if pending_close_cursors c \<noteq> [] then andthen (EncodeTtcCloseCursorsPiggyback s1 (pending_close_cursors c))
         (\<lambda>p. Inr (WithHeaderToken p ?v, s1 + 1)) else Inr ([], s1)) = Inr (close, s2)"
    and m: "message = e2e @ close @ WithHeaderToken request ?v" "sequence = s2"
    by (elim andthen_InrE) (auto split: prod.splits)
  have "s1 = ?s + (if ?e then 1 else 0)" using e by (auto simp: andthen_eq_Inr split: if_splits)
  moreover have "s2 = s1 + (if pending_close_cursors c = [] then 0 else 1)" using l by (auto simp: andthen_eq_Inr split: if_splits)
  ultimately show ?thesis
    using that[of e2e close] e l m by (auto simp: due_def WithHeaderToken_form andthen_eq_Inr split: if_splits)
qed

section \<open>Properties\<close>

text \<open>
  C1. Delivery. A response of any size within the channel's limit, cut into DATA packets the way
  the packet encoder cuts it and arriving in any pieces whatever, is returned by
  \<^verbatim>\<open>TtcChannel::Receive\<close> as one message equal to what was sent. The bytes after it stay on the
  stream for the next call, nothing is left in the assembler, and nothing is sent.
\<close>

theorem response_delivery:
  assumes "channel_ok c" and "buffered (assembler c) = []"
    and "EncodeTnsDataPackets message True (negotiated_sdu c) flags = Inr wires"
    and "message \<noteq> []" "length message \<le> maximum_message_size (assembler c)"
    and "flags AND (TNS_DATA_FLAG_END_OF_RESPONSE OR TNS_DATA_FLAG_EOF) \<noteq> 0"
    and "concat (inbound (stream (packets c))) = concat wires @ rest"
  shows "\<exists>c'. Receive c = (c', Inr message) \<and> channel_ok c' \<and> buffered (assembler c') = [] \<and>
    concat (inbound (stream (packets c'))) = rest \<and> outbound (stream (packets c')) = outbound (stream (packets c))"
  using message_received[OF assms(1-6), of rest] assms(7) by (auto simp: pending_def same_settings_def)

definition sample_channel :: ttc_channel where
  "sample_channel = \<lparr>packets = \<lparr>stream = \<lparr>inbound = [[0, 0, 0, 13, 6, 0, 0, 0, 0x20], [0, 1, 2, 3], [9]], outbound = [], accepted = []\<rparr>,
       large_length = True, packet_limit = 100, bytes_sent = 0, bytes_received = 0, round_trips = 0, awaiting_response = False\<rparr>,
     negotiated_sdu = 100, assembler = \<lparr>maximum_message_size = 1000, buffered = []\<rparr>, pending_close_cursors = [],
     pending_end_to_end = no_attributes, next_piggyback_sequence = 1, wire_field_version = 0,
     cancellation_supported = True, cancellation_requested = False\<rparr>"

lemma response_delivery_witness:
  "\<exists>c'. Receive sample_channel = (c', Inr [1, 2, 3]) \<and> channel_ok c' \<and> buffered (assembler c') = [] \<and>
    concat (inbound (stream (packets c'))) = [9] \<and>
    outbound (stream (packets c')) = outbound (stream (packets sample_channel))"
proof (rule response_delivery[where flags = "0x2000" and wires = "[[0, 0, 0, 13, 6, 0, 0, 0, 0x20, 0, 1, 2, 3]]"])
  show "channel_ok sample_channel"
    by (simp add: channel_ok_def sample_channel_def MAX_TNS_PACKET_LENGTH_def assembler_ok_def pieces_ok_def)
  show "EncodeTnsDataPackets [1, 2, 3] True (negotiated_sdu sample_channel) 0x2000 =
      Inr [[0, 0, 0, 13, 6, 0, 0, 0, 0x20, 0, 1, 2, 3]]"
    by (simp add: EncodeTnsDataPackets_def sample_channel_def TNS_PACKET_HEADER_SIZE_def data_packets.simps Let_def
        EncodeTnsPacket_eq MAX_TNS_PACKET_LENGTH_def header_bytes_def be_bytes_4 DATA_def)
qed (simp_all add: sample_channel_def TNS_DATA_FLAG_END_OF_RESPONSE_def TNS_DATA_FLAG_EOF_def)

text \<open>
  C15. A request that was sent went out as exactly the DATA packets of the piggybacks queued so far followed by the call, and the
  queue is empty. The bytes are, in this order: the queued attributes if there are any, the queued cursor closes if there are any,
  each under its own sequence number, and the call, each with the header token that the negotiated version wants; the close message
  is spelt out byte for byte. A request that failed, at whatever point, leaves the queued cursor closes, the queued attributes and
  the piggyback sequence in place for the next one.
\<close>

theorem send_outcome:
  assumes "channel_ok c" and "Send request c = (c', r)"
  shows "case r of
      Inl e \<Rightarrow> pending_close_cursors c' = pending_close_cursors c \<and> pending_end_to_end c' = pending_end_to_end c \<and>
        next_piggyback_sequence c' = next_piggyback_sequence c
    | Inr _ \<Rightarrow> pending_close_cursors c' = [] \<and> pending_end_to_end c' = no_attributes \<and>
        (\<exists>attributes close wires.
          (if pending_end_to_end c = no_attributes then attributes = []
           else \<exists>p. EncodeTtcEndToEndPiggyback (next_piggyback_sequence c) (pending_end_to_end c) = Inr p \<and>
             attributes = with_token (wire_field_version c) p) \<and>
          (if pending_close_cursors c = [] then close = []
           else close = with_token (wire_field_version c)
             ([17, 105, next_piggyback_sequence c + (if pending_end_to_end c = no_attributes then 0 else 1), 1] @
              WriteUB4 (of_nat (length (pending_close_cursors c))) [] @
              concat (map (\<lambda>i. WriteUB4 i []) (pending_close_cursors c)))) \<and>
          next_piggyback_sequence c' = next_piggyback_sequence c + (if pending_end_to_end c = no_attributes then 0 else 1) +
            (if pending_close_cursors c = [] then 0 else 1) \<and>
          EncodeTnsDataPackets (attributes @ close @ with_token (wire_field_version c) request) True (negotiated_sdu c) 0 = Inr wires \<and>
          outbound (stream (packets c')) = outbound (stream (packets c)) @ concat wires)"
proof (cases "request = []")
  case False
  have none: "attributes_empty (pending_end_to_end c) \<longleftrightarrow> pending_end_to_end c = no_attributes"
    by (cases "pending_end_to_end c") (simp add: attributes_empty_def no_attributes_def)
  show ?thesis
  proof (cases "outbound_message request c")
    case (Inl e)
    with assms(2) False show ?thesis by (auto simp: Send_def)
  next
    case (Inr x)
    obtain message sequence where m: "outbound_message request c = Inr (message, sequence)"
      using Inr by (cases x) auto
    obtain attributes close where parts: "message = attributes @ close @ with_token (wire_field_version c) request"
      "due (\<not> attributes_empty (pending_end_to_end c)) (wire_field_version c)
         (EncodeTtcEndToEndPiggyback (next_piggyback_sequence c) (pending_end_to_end c)) attributes"
      "due (pending_close_cursors c \<noteq> []) (wire_field_version c)
         (EncodeTtcCloseCursorsPiggyback (next_piggyback_sequence c + (if attributes_empty (pending_end_to_end c) then 0 else 1))
           (pending_close_cursors c)) close"
      "sequence = next_piggyback_sequence c + (if attributes_empty (pending_end_to_end c) then 0 else 1) +
         (if pending_close_cursors c = [] then 0 else 1)"
      by (rule outbound_message_parts[OF m])
    obtain wires where w: "EncodeTnsDataPackets message True (negotiated_sdu c) 0 = Inr wires"
      and f: "fragments True (negotiated_sdu c - 10) 0 message wires"
      using EncodeTnsDataPackets_fragments[of "negotiated_sdu c" True message 0] assms(1)
      by (auto simp: channel_ok_def)
    obtain c1 r1 where s: "send_each wires c = (c1, r1)" by fastforce
    have q: "same_queue c c1" by (rule send_each_queue[OF s])
    have sent: "(c', r) = (case r1 of Inl e \<Rightarrow> (c1, Inl e) | Inr _ \<Rightarrow>
        (c1\<lparr>pending_close_cursors := [], pending_end_to_end := no_attributes, next_piggyback_sequence := sequence\<rparr>, Inr ()))"
      using assms(2) False m w s by (auto simp: Send_def after_def lifting_def split: sum.splits)
    show ?thesis
    proof (cases r1)
      case (Inl e)
      with sent q show ?thesis by (simp add: same_queue_def)
    next
      case (Inr u)
      have "channel_outbound c1 = channel_outbound c @ concat wires"
        using send_each_done[OF f] s Inr assms(1) by (simp add: channel_ok_def)
      moreover have "if pending_end_to_end c = no_attributes then attributes = []
          else \<exists>p. EncodeTtcEndToEndPiggyback (next_piggyback_sequence c) (pending_end_to_end c) = Inr p \<and>
            attributes = with_token (wire_field_version c) p"
        using parts(2) unfolding due_def none by (simp split: if_splits)
      moreover have "if pending_close_cursors c = [] then close = [] else close = with_token (wire_field_version c)
          ([17, 105, next_piggyback_sequence c + (if pending_end_to_end c = no_attributes then 0 else 1), 1] @
           WriteUB4 (of_nat (length (pending_close_cursors c))) [] @ concat (map (\<lambda>i. WriteUB4 i []) (pending_close_cursors c)))"
        using parts(3) close_cursors_bytes unfolding due_def none by (auto simp del: with_token.simps split: if_splits)
      moreover have "c' = c1\<lparr>pending_close_cursors := [], pending_end_to_end := no_attributes, next_piggyback_sequence := sequence\<rparr>"
          "r = Inr ()" using sent Inr by simp_all
      moreover note w[unfolded parts(1)] parts(4)[unfolded none]
      ultimately show ?thesis
        by (simp only: sum.case) (intro conjI exI[of _ attributes] exI[of _ close] exI[of _ wires]; simp del: with_token.simps append_Cons)
    qed
  qed
qed (use assms(2) in \<open>auto simp: Send_def\<close>)

definition closing_channel :: ttc_channel where
  "closing_channel = sample_channel\<lparr>pending_close_cursors := [7]\<rparr>"

lemma send_outcome_witness:
  "\<exists>c' wires. Send [3, 147, 1] closing_channel = (c', Inr ()) \<and> pending_close_cursors c' = [] \<and>
    EncodeTnsDataPackets [17, 105, 1, 1, 1, 1, 1, 7, 3, 147, 1] True 100 0 = Inr wires \<and>
    outbound (stream (packets c')) = concat wires"
proof -
  have ok: "channel_ok closing_channel"
    by (simp add: channel_ok_def closing_channel_def sample_channel_def MAX_TNS_PACKET_LENGTH_def assembler_ok_def pieces_ok_def)
  have m: "outbound_message [3, 147, 1] closing_channel = Inr ([17, 105, 1, 1, 1, 1, 1, 7, 3, 147, 1], 2)"
    by (simp add: outbound_message_def closing_channel_def sample_channel_def attributes_empty_def no_attributes_def
        EncodeTtcCloseCursorsPiggyback_def WithHeaderToken_def TTC_FIELD_VERSION_HEADER_TOKEN_def Let_def appends
        WriteUB4_def WriteUniversal_eq universal_width.simps be_bytes_def word_le_nat_alt)
  have "\<exists>c'. Send [3, 147, 1] closing_channel = (c', Inr ())"
    unfolding Send_def m
    by (simp add: closing_channel_def sample_channel_def EncodeTnsDataPackets_def TNS_PACKET_HEADER_SIZE_def
        data_packets.simps Let_def EncodeTnsPacket_eq MAX_TNS_PACKET_LENGTH_def header_bytes_def be_bytes_4
        after_def lifting_def DecodeTnsPacket_def header_uint32_def on_packets_def SendPacket_def encode_within_def
        send_wire_def WriteAll.simps Write_def returning_def)
  then obtain c' where c': "Send [3, 147, 1] closing_channel = (c', Inr ())" ..
  have close: "WriteUB4 1 [] = [1, 1]" "WriteUB4 7 [] = [1, 7]"
    by (simp_all add: WriteUB4_def WriteUniversal_eq universal_width.simps be_bytes_def word_le_nat_alt)
  from send_outcome[OF ok c'] c' close show ?thesis
    by (simp add: closing_channel_def sample_channel_def)
qed

end
