(* ===== verification/Sql_Text.thy ===== *)
theory Sql_Text
  imports Prelude
begin

text \<open>
  The text of a statement and the binds that go with it: \<^verbatim>\<open>src/bind_validation.cpp\<close>,
  \<^verbatim>\<open>src/sql_binds.cpp\<close>, \<^verbatim>\<open>src/sql_statement.cpp\<close>, and the data they take from
  \<^verbatim>\<open>oracle_scanner/session.hpp\<close>. The scanners of the source keep an index into the SQL
  text; here a scanner holds the text from that index on, so that moving the index forward
  is dropping characters.
\<close>

section \<open>Binds\<close>

datatype bind_direction = BIND_IN | BIND_OUT | BIND_IN_OUT

datatype bind_use = USE_QUERY | USE_DML | USE_CALL

record oracle_bind =
  bind_name :: string
  bind_type :: u16
  bind_direction :: bind_direction
  bind_value :: "bytes option"
  bind_maximum_bytes :: u32
  bind_charset_form :: u8
  bind_lob_content :: u8

definition MAX_BIND_COUNT :: nat where
  "MAX_BIND_COUNT = 65535"

definition MAX_BIND_VALUE_BYTES :: nat where
  "MAX_BIND_VALUE_BYTES = 16777216"

definition TEMP_LOB_THRESHOLD_BYTES :: nat where
  "TEMP_LOB_THRESHOLD_BYTES = 8388608"

definition TEMP_LOB_MAXIMUM_BYTES :: nat where
  "TEMP_LOB_MAXIMUM_BYTES = 1073741824"

definition IsIdentifierStart :: "char \<Rightarrow> bool" where
  "IsIdentifierStart c \<longleftrightarrow> isalpha c \<or> c = CHR ''_''"

definition IsIdentifierPart :: "char \<Rightarrow> bool" where
  "IsIdentifierPart c \<longleftrightarrow> isalnum c \<or> c = CHR ''_'' \<or> c = CHR ''$'' \<or> c = CHR ''#''"

definition CanonicalOracleBindName :: "string \<Rightarrow> string result" where
  "CanonicalOracleBindName value =
     (let positional = value \<noteq> [] \<and> list_all isdigit value in
      if value = [] \<or> length value > 128 \<or>
         (if positional then length value > 1 \<and> hd value = CHR ''0''
          else \<not> IsIdentifierStart (hd value) \<or> \<not> list_all IsIdentifierPart (tl value))
      then throw MALFORMED
      else Inr (upper value))"

definition ValidateOracleBindValue :: "bind_use \<Rightarrow> oracle_bind \<Rightarrow> nat \<Rightarrow> nat result" where
  "ValidateOracleBindValue use b total_value_bytes =
     (if use \<noteq> USE_CALL \<and> bind_direction b \<noteq> BIND_IN then throw MALFORMED
      else if use = USE_CALL \<and> bind_direction b \<noteq> BIND_IN \<and> bind_type b = 0 then throw MALFORMED
      else if unat (bind_maximum_bytes b) > MAX_BIND_VALUE_BYTES then throw LIMIT_EXCEEDED
      else case bind_value b of
          None \<Rightarrow> Inr total_value_bytes
        | Some v \<Rightarrow>
            if bind_lob_content b \<noteq> 0 then
              if length v > TEMP_LOB_MAXIMUM_BYTES then throw LIMIT_EXCEEDED
              else if length v \<le> TEMP_LOB_THRESHOLD_BYTES then
                if total_value_bytes > size_sub MAX_BIND_VALUE_BYTES (length v) then throw LIMIT_EXCEEDED
                else Inr (total_value_bytes + length v)
              else Inr total_value_bytes
            else if length v > MAX_BIND_VALUE_BYTES \<or> total_value_bytes > size_sub MAX_BIND_VALUE_BYTES (length v)
            then throw LIMIT_EXCEEDED
            else Inr (total_value_bytes + length v))"

text \<open>The set of names seen so far is the list of them; only membership is asked of it.\<close>

fun validate_binds_loop :: "bind_use \<Rightarrow> oracle_bind list \<Rightarrow> string list \<Rightarrow> nat \<Rightarrow> unit result" where
  "validate_binds_loop use [] names total_bytes = Inr ()"
| "validate_binds_loop use (b # bs) names total_bytes =
     andthen (CanonicalOracleBindName (bind_name b)) (\<lambda>name.
       if name \<in> set names then throw MALFORMED
       else andthen (ValidateOracleBindValue use b total_bytes) (\<lambda>total_bytes.
         validate_binds_loop use bs (name # names) total_bytes))"

definition ValidateOracleBinds :: "oracle_bind list \<Rightarrow> bind_use \<Rightarrow> unit result" where
  "ValidateOracleBinds binds use =
     (if length binds > MAX_BIND_COUNT then throw LIMIT_EXCEEDED else validate_binds_loop use binds [] 0)"

fun batch_row_loop :: "(oracle_bind \<times> oracle_bind) list \<Rightarrow> nat \<Rightarrow> unit result" where
  "batch_row_loop [] total_bytes = Inr ()"
| "batch_row_loop ((expected, actual) # rest) total_bytes =
     andthen (if bind_name actual = bind_name expected then Inr True
              else andthen (CanonicalOracleBindName (bind_name actual)) (\<lambda>a.
                   andthen (CanonicalOracleBindName (bind_name expected)) (\<lambda>e. Inr (a = e)))) (\<lambda>same_name.
       if \<not> same_name \<or> bind_type actual \<noteq> bind_type expected \<or> bind_direction actual \<noteq> bind_direction expected
       then throw MALFORMED
       else andthen (ValidateOracleBindValue USE_DML actual total_bytes) (\<lambda>total_bytes. batch_row_loop rest total_bytes))"

definition ValidateOracleBatchRow :: "oracle_bind list \<Rightarrow> oracle_bind list \<Rightarrow> unit result" where
  "ValidateOracleBatchRow first row =
     (if length row \<noteq> length first then throw MALFORMED else batch_row_loop (zip first row) 0)"

fun batch_rows_loop :: "oracle_bind list \<Rightarrow> oracle_bind list list \<Rightarrow> unit result" where
  "batch_rows_loop first [] = Inr ()"
| "batch_rows_loop first (row # rows) = andthen (ValidateOracleBatchRow first row) (\<lambda>_. batch_rows_loop first rows)"

definition ValidateOracleBindBatch :: "oracle_bind list list \<Rightarrow> unit result" where
  "ValidateOracleBindBatch rows =
     (case rows of [] \<Rightarrow> throw MALFORMED
      | first # rest \<Rightarrow>
        if length rows > MAX_BIND_COUNT then throw LIMIT_EXCEEDED
        else andthen (ValidateOracleBinds first USE_DML) (\<lambda>_. batch_rows_loop first rest))"

section \<open>Skipping what is not SQL\<close>

definition MAX_SQL_BYTES :: nat where
  "MAX_SQL_BYTES = 1048576"

definition is_newline :: "char \<Rightarrow> bool" where
  "is_newline c \<longleftrightarrow> c = CHR 0x0A \<or> c = CHR 0x0D"

definition QQuoteTerminator :: "char \<Rightarrow> char" where
  "QQuoteTerminator opener =
     (if opener = CHR ''['' then CHR '']'' else if opener = CHR ''('' then CHR '')''
      else if opener = CHR ''{'' then CHR ''}'' else if opener = CHR ''<'' then CHR ''>'' else opener)"

text \<open>The text after the first occurrence of a pattern: \<^verbatim>\<open>sql.find(pattern, from)\<close>, moved past it.\<close>

fun find_after :: "string \<Rightarrow> string \<Rightarrow> string option" where
  "find_after pat [] = (if pat = [] then Some [] else None)"
| "find_after pat (c # cs) =
     (if take (length pat) (c # cs) = pat then Some (drop (length pat) (c # cs)) else find_after pat cs)"

text \<open>The text after the closing quote; a doubled quote does not close.\<close>

fun skip_quoted :: "char \<Rightarrow> string \<Rightarrow> string option" where
  "skip_quoted quote [] = None"
| "skip_quoted quote [c] = (if c = quote then Some [] else None)"
| "skip_quoted quote (c # d # rest) =
     (if c = quote then if d = quote then skip_quoted quote rest else Some (d # rest)
      else skip_quoted quote (d # rest))"

definition SkipQuoted :: "char \<Rightarrow> string \<Rightarrow> string result" where
  "SkipQuoted quote rest = (case skip_quoted quote rest of None \<Rightarrow> throw MALFORMED | Some r \<Rightarrow> Inr r)"

lemma find_after_suffix: "find_after pat s = Some r \<Longrightarrow> \<exists>pre. s = pre @ pat @ r"
proof (induction pat s rule: find_after.induct)
  case (2 pat c cs)
  show ?case
  proof (cases "take (length pat) (c # cs) = pat")
    case True
    with 2(2) have "c # cs = [] @ pat @ r" by (simp del: take_Suc_Cons drop_Suc_Cons) (metis append_take_drop_id)
    then show ?thesis by blast
  next
    case False
    with 2 obtain pre where "cs = pre @ pat @ r" by auto
    then have "c # cs = (c # pre) @ pat @ r" by simp
    then show ?thesis by blast
  qed
qed (auto split: if_splits)

lemma find_after_length: "find_after pat s = Some r \<Longrightarrow> length r \<le> length s"
  by (drule find_after_suffix) auto

lemma skip_quoted_length: "skip_quoted q s = Some r \<Longrightarrow> length r < length s"
  by (induction q s rule: skip_quoted.induct) (auto split: if_splits)

text \<open>
  One step of a scanner over whitespace-free SQL: a comment or a quoted value is skipped
  whole, anything else is left to the scanner.
\<close>

datatype lexeme =
    Skipped string
  | Unterminated
  | Character char string

definition next_lexeme :: "string \<Rightarrow> lexeme" where
  "next_lexeme sql =
     (case sql of
        [] \<Rightarrow> Unterminated
      | c # cs \<Rightarrow>
        if c = CHR ''-'' \<and> cs \<noteq> [] \<and> hd cs = CHR ''-''
        then Skipped (dropWhile (\<lambda>x. \<not> is_newline x) (tl cs))
        else if c = CHR ''/'' \<and> cs \<noteq> [] \<and> hd cs = CHR ''*''
        then (case find_after ''*/'' (tl cs) of None \<Rightarrow> Unterminated | Some r \<Rightarrow> Skipped r)
        else if c = CHR 0x27 \<or> c = CHR 0x22
        then (case skip_quoted c cs of None \<Rightarrow> Unterminated | Some r \<Rightarrow> Skipped r)
        else if (c = CHR ''q'' \<or> c = CHR ''Q'') \<and> length cs \<ge> 2 \<and> hd cs = CHR 0x27
        then (case find_after [QQuoteTerminator (cs ! 1), CHR 0x27] (drop 2 cs) of
                None \<Rightarrow> Unterminated | Some r \<Rightarrow> Skipped r)
        else Character c cs)"

lemma next_lexeme_length:
  "next_lexeme s = Skipped r \<Longrightarrow> length r < length s"
  "next_lexeme s = Character c r \<Longrightarrow> s = c # r"
proof -
  have d: "length (dropWhile P (tl cs)) < Suc (length cs)" for P and cs :: string
    using length_dropWhile_le[of P "tl cs"] by simp
  assume "next_lexeme s = Skipped r"
  then show "length r < length s"
    by (auto simp: next_lexeme_def d split: list.splits if_splits option.splits
        dest!: find_after_length skip_quoted_length)
next
  assume "next_lexeme s = Character c r"
  then show "s = c # r"
    by (auto simp: next_lexeme_def split: list.splits if_splits option.splits)
qed

section \<open>Placeholders\<close>

definition IsBindStart :: "char \<Rightarrow> bool" where
  "IsBindStart c \<longleftrightarrow> isalpha c \<or> c = CHR ''_'' \<or> isdigit c"

definition IsBindPart :: "char \<Rightarrow> bool" where
  "IsBindPart c \<longleftrightarrow> isalnum c \<or> c = CHR ''_'' \<or> c = CHR ''$'' \<or> c = CHR ''#''"

text \<open>
  The set of placeholders seen and the list of results hold the same names, so the list
  answers for both.
\<close>

function placeholders_loop :: "string \<Rightarrow> string list \<Rightarrow> string list result" where
  "placeholders_loop sql found =
     (if sql = [] then Inr found
      else case next_lexeme sql of
          Skipped rest \<Rightarrow> placeholders_loop rest found
        | Unterminated \<Rightarrow> throw MALFORMED
        | Character c rest \<Rightarrow>
            if c = CHR '':'' \<and> rest \<noteq> [] \<and> hd rest \<noteq> CHR '':'' \<and> IsBindStart (hd rest) then
              (case CanonicalOracleBindName (takeWhile IsBindPart rest) of
                 Inl e \<Rightarrow> Inl e
               | Inr canonical \<Rightarrow> placeholders_loop (dropWhile IsBindPart rest)
                   (if canonical \<in> set found then found else found @ [canonical]))
            else placeholders_loop rest found)"
  by pat_completeness auto
termination
  by (relation "measure (\<lambda>(s, f). length s)")
    (auto dest: next_lexeme_length simp: le_imp_less_Suc length_dropWhile_le)

declare placeholders_loop.simps [simp del]

definition bad_sql_text :: "string \<Rightarrow> bool" where
  "bad_sql_text sql \<longleftrightarrow> sql = [] \<or> length sql > MAX_SQL_BYTES \<or> CHR 0x00 \<in> set sql"

definition ExtractOracleBindPlaceholders :: "string \<Rightarrow> string list result" where
  "ExtractOracleBindPlaceholders sql = (if bad_sql_text sql then throw MALFORMED else placeholders_loop sql [])"

definition ValidateOracleStatementBinds :: "string \<Rightarrow> oracle_bind list \<Rightarrow> bind_use \<Rightarrow> unit result" where
  "ValidateOracleStatementBinds sql binds use =
     andthen (ValidateOracleBinds binds use) (\<lambda>_.
     andthen (ExtractOracleBindPlaceholders sql) (\<lambda>placeholders.
     andthen (collect (\<lambda>b. CanonicalOracleBindName (bind_name b)) binds) (\<lambda>actual.
       if set actual \<noteq> set placeholders then throw MALFORMED else Inr ())))"

fun index_of :: "string list \<Rightarrow> string \<Rightarrow> nat option" where
  "index_of [] name = None"
| "index_of (n # ns) name = (if n = name then Some 0 else map_option Suc (index_of ns name))"

text \<open>\<^verbatim>\<open>indexes.at\<close> throws \<^verbatim>\<open>std::out_of_range\<close> for a name that is not there; it has no protocol kind.\<close>

definition OracleStatementBindOrder :: "string \<Rightarrow> oracle_bind list \<Rightarrow> bind_use \<Rightarrow> nat option list result" where
  "OracleStatementBindOrder sql binds use =
     andthen (ValidateOracleStatementBinds sql binds use) (\<lambda>_.
     andthen (collect (\<lambda>b. CanonicalOracleBindName (bind_name b)) binds) (\<lambda>names.
     andthen (ExtractOracleBindPlaceholders sql) (\<lambda>placeholders.
       Inr (map (index_of names) placeholders))))"

definition OrderOracleStatementBinds :: "string \<Rightarrow> oracle_bind list \<Rightarrow> bind_use \<Rightarrow> oracle_bind option list result" where
  "OrderOracleStatementBinds sql binds use =
     andthen (OracleStatementBindOrder sql binds use) (\<lambda>order.
       Inr (map (map_option (\<lambda>i. binds ! i)) order))"

section \<open>Statements\<close>

datatype sql_kind = QUERY | DML | PLSQL | DDL_OR_OTHER | ADMIN

function SkipTrivia :: "string \<Rightarrow> string result" where
  "SkipTrivia sql =
     (case sql of
        [] \<Rightarrow> Inr []
      | c # cs \<Rightarrow>
        if isspace c then SkipTrivia cs
        else if c = CHR ''-'' \<and> cs \<noteq> [] \<and> hd cs = CHR ''-'' then SkipTrivia (dropWhile (\<lambda>x. \<not> is_newline x) (tl cs))
        else if c = CHR ''/'' \<and> cs \<noteq> [] \<and> hd cs = CHR ''*'' then
          (case find_after ''*/'' (tl cs) of None \<Rightarrow> throw MALFORMED | Some r \<Rightarrow> SkipTrivia r)
        else Inr sql)"
  by pat_completeness auto
termination
proof (relation "measure length", goal_cases)
  case (3 sql c cs)
  then show ?case using length_dropWhile_le[of _ "tl cs"] by (simp add: less_Suc_eq_le le_trans[OF length_dropWhile_le])
next
  case (4 sql c cs r)
  then show ?case by (auto dest: find_after_length)
qed auto

declare SkipTrivia.simps [simp del]

definition FirstKeyword :: "string \<Rightarrow> string result" where
  "FirstKeyword sql =
     (if bad_sql_text sql then throw MALFORMED
      else andthen (SkipTrivia sql) (\<lambda>rest.
        let word = takeWhile isalpha rest in
        if word = [] then throw MALFORMED else Inr (upper word)))"

function RejectStatementTerminators :: "string \<Rightarrow> unit result" where
  "RejectStatementTerminators sql =
     (if sql = [] then Inr ()
      else case next_lexeme sql of
          Skipped rest \<Rightarrow> RejectStatementTerminators rest
        | Unterminated \<Rightarrow> throw MALFORMED
        | Character c rest \<Rightarrow> if c = CHR '';'' then throw MALFORMED else RejectStatementTerminators rest)"
  by pat_completeness auto
termination
  by (relation "measure length") (auto dest: next_lexeme_length)

declare RejectStatementTerminators.simps [simp del]

definition ClassifyOracleSql :: "string \<Rightarrow> sql_kind result" where
  "ClassifyOracleSql sql = andthen (FirstKeyword sql) (\<lambda>keyword. Inr (
     if keyword \<in> {''SELECT'', ''WITH''} then QUERY
     else if keyword \<in> {''INSERT'', ''UPDATE'', ''DELETE''} then DML
     else if keyword \<in> {''BEGIN'', ''DECLARE'', ''CALL''} then PLSQL
     else DDL_OR_OTHER))"

definition ValidateOracleQuery :: "string \<Rightarrow> oracle_bind list \<Rightarrow> unit result" where
  "ValidateOracleQuery sql binds =
     andthen (RejectStatementTerminators sql) (\<lambda>_.
     andthen (ClassifyOracleSql sql) (\<lambda>kind.
       if kind \<noteq> QUERY then throw MALFORMED else ValidateOracleStatementBinds sql binds USE_QUERY))"

definition ValidateOracleDml :: "string \<Rightarrow> oracle_bind list \<Rightarrow> unit result" where
  "ValidateOracleDml sql binds =
     andthen (RejectStatementTerminators sql) (\<lambda>_.
     andthen (ClassifyOracleSql sql) (\<lambda>kind.
       if kind \<noteq> DML then throw MALFORMED else ValidateOracleStatementBinds sql binds USE_DML))"

definition trim_spaces :: "string \<Rightarrow> string" where
  "trim_spaces text = rev (dropWhile isspace (rev text))"

definition NormalizeOracleAnonymousBlock :: "string \<Rightarrow> string result" where
  "NormalizeOracleAnonymousBlock block =
     andthen (FirstKeyword block) (\<lambda>keyword.
       if keyword \<noteq> ''BEGIN'' \<and> keyword \<noteq> ''DECLARE'' then throw MALFORMED
       else
         let text = trim_spaces block;
             line = rev (takeWhile (\<lambda>c. \<not> is_newline c) (rev text));
             before = rev (drop 1 (dropWhile (\<lambda>c. \<not> is_newline c) (rev text)));
             text = (if text \<noteq> [] \<and> last text = CHR ''/'' \<and> list_ex is_newline text \<and> line = ''/''
                     then trim_spaces before else text)
         in if text = [] \<or> last text \<noteq> CHR '';'' then throw MALFORMED else Inr text)"

definition ValidateOracleAdmin :: "string \<Rightarrow> unit result" where
  "ValidateOracleAdmin sql =
     andthen (RejectStatementTerminators sql) (\<lambda>_.
     andthen (FirstKeyword sql) (\<lambda>keyword.
       if keyword \<notin> {''CREATE'', ''ALTER'', ''DROP'', ''GRANT'', ''REVOKE'', ''COMMENT'', ''TRUNCATE''} then throw MALFORMED
       else ValidateOracleStatementBinds sql [] USE_DML))"

section \<open>Lemmas\<close>

lemma index_of_Some: "index_of ns x = Some i \<Longrightarrow> i < length ns \<and> ns ! i = x"
  by (induction ns arbitrary: i) (auto split: if_splits)

lemma index_of_in: "x \<in> set ns \<Longrightarrow> \<exists>i. index_of ns x = Some i"
  by (induction ns) auto

text \<open>The placeholders found are distinct, whatever the text.\<close>

lemma placeholders_loop_distinct:
  "\<lbrakk>placeholders_loop sql found = Inr names; distinct found\<rbrakk> \<Longrightarrow> distinct names"
proof (induction sql found rule: placeholders_loop.induct)
  case (1 sql found)
  show ?case
  proof (cases "sql = []")
    case True
    with 1(4,5) show ?thesis by (simp add: placeholders_loop.simps[of "[]"])
  next
    case False
    show ?thesis
    proof (cases "next_lexeme sql")
      case (Skipped rest)
      with 1(1)[OF False] 1(4,5) False show ?thesis by (simp add: placeholders_loop.simps[of sql])
    next
      case Unterminated
      with 1(4) False show ?thesis by (simp add: placeholders_loop.simps[of sql])
    next
      case (Character c rest)
      with 1(2,3)[OF False Character] 1(4,5) False show ?thesis
        by (auto simp: placeholders_loop.simps[of sql] split: if_splits sum.splits)
    qed
  qed
qed

lemma validate_binds_names:
  "validate_binds_loop use bs names n = Inr () \<Longrightarrow>
   \<exists>ns. collect (\<lambda>b. CanonicalOracleBindName (bind_name b)) bs = Inr ns \<and> distinct ns \<and> set ns \<inter> set names = {}"
  by (induction use bs names n rule: validate_binds_loop.induct)
    (fastforce simp: andthen_eq_Inr split: if_splits)+

lemma collect_nth: "\<lbrakk>collect f xs = Inr ys; i < length xs\<rbrakk> \<Longrightarrow> f (xs ! i) = Inr (ys ! i)"
  by (induction xs arbitrary: ys i) (auto simp: andthen_eq_Inr nth_Cons split: nat.splits)

lemmas sql_eval = MAX_BIND_COUNT_def MAX_BIND_VALUE_BYTES_def MAX_SQL_BYTES_def CanonicalOracleBindName_def
  IsIdentifierStart_def IsIdentifierPart_def isalpha_def isdigit_def isalnum_def isupper_def islower_def upper_def
  toupper_def ValidateOracleBindValue_def Let_def ExtractOracleBindPlaceholders_def bad_sql_text_def
  placeholders_loop.simps next_lexeme_def IsBindStart_def IsBindPart_def char_of_def bit_0

section \<open>Properties\<close>

text \<open>
  C21. Ordering the binds of a statement loses none and repeats none: the order the scanner
  computes is a permutation of the supplied binds, and the bind at each place is the one whose
  name, folded, is the placeholder at that place.
\<close>

theorem bind_order_permutation:
  assumes "OracleStatementBindOrder sql binds use = Inr order"
  shows "\<exists>idx placeholders. order = map Some idx \<and> distinct idx \<and> set idx = {..<length binds} \<and>
    ExtractOracleBindPlaceholders sql = Inr placeholders \<and>
    map (\<lambda>i. CanonicalOracleBindName (bind_name (binds ! i))) idx = map Inr placeholders"
proof -
  obtain names ps where n: "ValidateOracleBinds binds use = Inr ()"
    "collect (\<lambda>b. CanonicalOracleBindName (bind_name b)) binds = Inr names"
    "ExtractOracleBindPlaceholders sql = Inr ps" "set names = set ps" "order = map (index_of names) ps"
    using assms by (auto simp: OracleStatementBindOrder_def ValidateOracleStatementBinds_def andthen_eq_Inr split: if_splits)
  have dn: "distinct names"
    using n(1,2) by (auto simp: ValidateOracleBinds_def split: if_splits dest: validate_binds_names)
  have dp: "distinct ps"
    using n(3) by (auto simp: ExtractOracleBindPlaceholders_def split: if_splits dest: placeholders_loop_distinct)
  have len: "length names = length binds" using n(2) by (rule collect_length)
  define idx where "idx = map (\<lambda>p. the (index_of names p)) ps"
  have i: "index_of names p = Some (the (index_of names p))" "the (index_of names p) < length names"
    "names ! the (index_of names p) = p" if "p \<in> set ps" for p
    using that n(4) index_of_in[of p names] by (auto dest: index_of_Some)
  have o: "order = map Some idx" using n(5) i(1) by (auto simp: idx_def)
  have nis: "map (\<lambda>i. names ! i) idx = ps" using i(3) by (auto simp: idx_def intro: map_idI)
  have d: "distinct idx" using dp nis by (metis distinct_map)
  have sub: "set idx \<subseteq> {..<length binds}" using i(2) len by (auto simp: idx_def)
  have "card (set idx) = card {..<length binds}"
    using distinct_card[OF d] distinct_card[OF dn] distinct_card[OF dp] n(4) len by (simp add: idx_def)
  with sub have s: "set idx = {..<length binds}" by (simp add: card_subset_eq)
  have "map (\<lambda>i. CanonicalOracleBindName (bind_name (binds ! i))) idx = map Inr ps"
    using collect_nth[OF n(2)] sub by (subst nis[symmetric]) auto
  with o d s n(3) show ?thesis by blast
qed

definition sample_bind :: "string \<Rightarrow> oracle_bind" where
  "sample_bind name = \<lparr>bind_name = name, bind_type = 1, bind_direction = BIND_IN, bind_value = None,
     bind_maximum_bytes = 0, bind_charset_form = 0, bind_lob_content = 0\<rparr>"

lemma bind_order_permutation_witness:
  "\<exists>idx placeholders. [Some 1, Some 0] = map Some idx \<and> distinct idx \<and> set idx = {..<length [sample_bind ''a'', sample_bind ''b'']} \<and>
    ExtractOracleBindPlaceholders ''x=:b and y=:A'' = Inr placeholders \<and>
    map (\<lambda>i. CanonicalOracleBindName (bind_name ([sample_bind ''a'', sample_bind ''b''] ! i))) idx = map Inr placeholders"
proof (rule bind_order_permutation)
  show "OracleStatementBindOrder ''x=:b and y=:A'' [sample_bind ''a'', sample_bind ''b''] USE_QUERY = Inr [Some 1, Some 0]"
    by (simp add: OracleStatementBindOrder_def ValidateOracleStatementBinds_def ValidateOracleBinds_def sample_bind_def
        sql_eval insert_commute)
qed

end
