(* ===== verification/Call_Builder.thy ===== *)
theory Call_Builder
  imports Sql_Text
begin

text \<open>
  \<^verbatim>\<open>src/call_builder.cpp\<close>: the anonymous blocks a call is sent as. The property at the end
  composes it with the scanner of \<^verbatim>\<open>Sql_Text\<close>: whatever the callable's name is, the block's
  placeholders are the arguments, so no part of a name reaches the server as a bind or as SQL.
\<close>

datatype callable_kind = PROCEDURE | FUNCTION | DML_COMPOSITE | ANONYMOUS_BLOCK

record dml_operation =
  op_sql :: string
  expected_rows :: u64

record call_request =
  call_kind :: callable_kind
  qualified_name :: string
  return_bind :: "oracle_bind option"
  arguments :: "oracle_bind list"
  dml_operations :: "dml_operation list"
  block :: string

definition MAX_CALLABLE_COMPONENTS :: nat where
  "MAX_CALLABLE_COMPONENTS = 3"

definition MAX_IDENTIFIER_BYTES :: nat where
  "MAX_IDENTIFIER_BYTES = 128"

definition MAX_ARGUMENTS :: nat where
  "MAX_ARGUMENTS = 256"

definition ValidateCallableArgumentName :: "string \<Rightarrow> unit result" where
  "ValidateCallableArgumentName value =
     (if value = [] \<or> length value > MAX_IDENTIFIER_BYTES \<or> \<not> IsIdentifierStart (hd value) \<or>
         \<not> list_all IsIdentifierPart (tl value) then throw MALFORMED else Inr ())"

section \<open>Callable names\<close>

text \<open>
  The inside of a quoted identifier: what was read since the opening quote, and the text
  from the current offset on. The result has the closing quote.
\<close>

fun quoted_component :: "string \<Rightarrow> string \<Rightarrow> (string \<times> string) result" where
  "quoted_component content [] = throw MALFORMED"
| "quoted_component content [c] =
     (if c = CHR 0x22 then if content = [] then throw MALFORMED else Inr (content @ [c], [])
      else if code_of c < 0x20 \<or> code_of c = 0x7f then throw MALFORMED
      else quoted_component (content @ [c]) [])"
| "quoted_component content (c # d # rest) =
     (if c = CHR 0x22 then
        if d = CHR 0x22 then quoted_component (content @ [c, d]) rest
        else if content = [] then throw MALFORMED else Inr (content @ [c], d # rest)
      else if code_of c < 0x20 \<or> code_of c = 0x7f then throw MALFORMED
      else quoted_component (content @ [c]) (d # rest))"

definition ParseComponent :: "string \<Rightarrow> (string \<times> string) result" where
  "ParseComponent value =
     (case value of
        [] \<Rightarrow> throw MALFORMED
      | c # cs \<Rightarrow>
        andthen
          (if c = CHR 0x22 then andthen (quoted_component [] cs) (\<lambda>(content, rest). Inr (c # content, rest))
           else if \<not> IsIdentifierStart c then throw MALFORMED
           else Inr (c # takeWhile IsIdentifierPart cs, dropWhile IsIdentifierPart cs))
          (\<lambda>(component, rest).
             if length component > MAX_IDENTIFIER_BYTES then throw LIMIT_EXCEEDED else Inr (component, rest)))"

lemma quoted_component_split:
  "quoted_component content s = Inr (part, rest) \<Longrightarrow> content @ s = part @ rest \<and> length rest < length s"
  by (induction content s rule: quoted_component.induct) (auto split: if_splits)

lemma ParseComponent_split:
  "ParseComponent s = Inr (part, rest) \<Longrightarrow> s = part @ rest \<and> length rest < length s"
  by (auto simp: ParseComponent_def andthen_eq_Inr split: list.splits if_splits dest!: quoted_component_split)
    (simp add: le_imp_less_Suc length_dropWhile_le)

function callable_loop :: "nat \<Rightarrow> string \<Rightarrow> unit result" where
  "callable_loop components rest =
     (if rest = [] then Inr ()
      else case ParseComponent rest of
          Inl e \<Rightarrow> Inl e
        | Inr (component, rest) \<Rightarrow>
            if components + 1 > MAX_CALLABLE_COMPONENTS then throw LIMIT_EXCEEDED
            else case rest of
                [] \<Rightarrow> Inr ()
              | c # rest \<Rightarrow> if c \<noteq> CHR ''.'' then throw MALFORMED else callable_loop (components + 1) rest)"
  by pat_completeness auto
termination
  by (relation "measure (\<lambda>(n, s). length s)") (auto dest!: ParseComponent_split)

declare callable_loop.simps [simp del]

definition ParseOracleCallableName :: "string \<Rightarrow> string result" where
  "ParseOracleCallableName value =
     (if value = [] then throw MALFORMED else andthen (callable_loop 0 value) (\<lambda>_. Inr value))"

text \<open>The text between the quotes of a quoted component, each doubled quote once.\<close>

fun collapse_quotes :: "string \<Rightarrow> string" where
  "collapse_quotes [] = []"
| "collapse_quotes [c] = []"
| "collapse_quotes (c # d # rest) = c # collapse_quotes (if c = CHR 0x22 then rest else d # rest)"

definition stored_name :: "string \<Rightarrow> string" where
  "stored_name component =
     (if hd component = CHR 0x22 then collapse_quotes (tl component) else upper component)"

function split_loop :: "string list \<Rightarrow> string \<Rightarrow> string list result" where
  "split_loop components rest =
     (if rest = [] then Inr components
      else case ParseComponent rest of
          Inl e \<Rightarrow> Inl e
        | Inr (component, rest) \<Rightarrow>
            if length components = MAX_CALLABLE_COMPONENTS then throw LIMIT_EXCEEDED
            else let components = components @ [stored_name component] in
              case rest of
                [] \<Rightarrow> Inr components
              | c # rest \<Rightarrow> if c \<noteq> CHR ''.'' then throw MALFORMED else split_loop components rest)"
  by pat_completeness auto
termination
  by (relation "measure (\<lambda>(n, s). length s)") (auto dest!: ParseComponent_split)

declare split_loop.simps [simp del]

definition SplitOracleCallableName :: "string \<Rightarrow> string list result" where
  "SplitOracleCallableName value = (if value = [] then throw MALFORMED else split_loop [] value)"

section \<open>Blocks\<close>

fun call_arguments :: "oracle_bind list \<Rightarrow> nat \<Rightarrow> string list \<Rightarrow> string \<Rightarrow> string result" where
  "call_arguments [] index bind_names text = Inr text"
| "call_arguments (b # bs) index bind_names text =
     andthen (ValidateCallableArgumentName (bind_name b)) (\<lambda>_.
     andthen (CanonicalOracleBindName (bind_name b)) (\<lambda>folded.
       if folded \<in> set bind_names then throw MALFORMED
       else call_arguments bs (index + 1) (folded # bind_names)
         (text @ (if index \<noteq> 0 then '', '' else []) @ bind_name b @ '' => :'' @ bind_name b)))"

definition call_tail :: "oracle_bind list \<Rightarrow> string list \<Rightarrow> string \<Rightarrow> string result" where
  "call_tail args bind_names text =
     andthen (if args \<noteq> [] then andthen (call_arguments args 0 bind_names (text @ ''('')) (\<lambda>t. Inr (t @ '')''))
              else Inr text)
       (\<lambda>t. Inr (t @ ''; END;''))"

definition BuildOracleProcedureCallBlock :: "string \<Rightarrow> oracle_bind list \<Rightarrow> string result" where
  "BuildOracleProcedureCallBlock name args =
     andthen (ParseOracleCallableName name) (\<lambda>callable.
       if length args > MAX_ARGUMENTS then throw LIMIT_EXCEEDED
       else call_tail args [] (''BEGIN '' @ callable))"

definition BuildOracleFunctionCallBlock :: "string \<Rightarrow> oracle_bind \<Rightarrow> oracle_bind list \<Rightarrow> string result" where
  "BuildOracleFunctionCallBlock name ret_bind args =
     andthen (ParseOracleCallableName name) (\<lambda>callable.
       if bind_direction ret_bind = BIND_IN then throw MALFORMED
       else if length args > MAX_ARGUMENTS then throw LIMIT_EXCEEDED
       else andthen (ValidateCallableArgumentName (bind_name ret_bind)) (\<lambda>_.
         andthen (CanonicalOracleBindName (bind_name ret_bind)) (\<lambda>folded.
         call_tail args [folded] (''BEGIN :'' @ bind_name ret_bind @ '' := '' @ callable))))"

text \<open>
  The map from a folded name to its bind keeps the first bind of a name; the names were
  checked to be unique, so it is the bind of that name.
\<close>

fun find_bind :: "oracle_bind list \<Rightarrow> string \<Rightarrow> oracle_bind option" where
  "find_bind [] name = None"
| "find_bind (b # bs) name =
     (if CanonicalOracleBindName (bind_name b) = Inr name then Some b else find_bind bs name)"

definition composite_check :: "nat \<Rightarrow> dml_operation \<Rightarrow> string" where
  "composite_check index operation =
     ''\<newline>;\<newline>IF SQL%ROWCOUNT <> '' @ decimal (unat (expected_rows operation)) @
     '' THEN RAISE_APPLICATION_ERROR(-20906, '' @ [CHR 0x27] @ ''DML composite operation '' @ decimal (index + 1) @
     '' affected row count mismatch'' @ [CHR 0x27] @ ''); END IF;\<newline>''"

fun composite_loop :: "oracle_bind list \<Rightarrow> dml_operation list \<Rightarrow> nat \<Rightarrow> nat \<Rightarrow> string \<Rightarrow> string result" where
  "composite_loop args [] index sql_bytes text = Inr text"
| "composite_loop args (operation # ops) index sql_bytes text =
     (let sql_bytes = sql_bytes + length (op_sql operation) in
      if sql_bytes > 65536 then throw LIMIT_EXCEEDED
      else if expected_rows operation > 1000000 then throw LIMIT_EXCEEDED
      else andthen (ExtractOracleBindPlaceholders (op_sql operation)) (\<lambda>placeholders.
        andthen (collect (\<lambda>p. case find_bind args p of None \<Rightarrow> throw MALFORMED | Some b \<Rightarrow> Inr b) placeholders)
          (\<lambda>statement_binds.
        andthen (ValidateOracleDml (op_sql operation) statement_binds) (\<lambda>_.
          composite_loop args ops (index + 1) sql_bytes
            (text @ op_sql operation @ composite_check index operation)))))"

definition BuildOracleDmlCompositeBlock :: "dml_operation list \<Rightarrow> oracle_bind list \<Rightarrow> string result" where
  "BuildOracleDmlCompositeBlock operations args =
     (if operations = [] then throw MALFORMED
      else if length operations > 16 then throw LIMIT_EXCEEDED
      else if length args > 256 then throw LIMIT_EXCEEDED
      else andthen (ValidateOracleBinds args USE_DML) (\<lambda>_.
        let payload_bytes = sum_list (map (\<lambda>b. case bind_value b of None \<Rightarrow> 0 | Some v \<Rightarrow> length v) args) in
        if payload_bytes > 8388608 then throw LIMIT_EXCEEDED
        else andthen (composite_loop args operations 0 0 ''BEGIN\<newline>'') (\<lambda>text.
          let text = text @ ''END;'' in
          andthen (ValidateOracleStatementBinds text args USE_CALL) (\<lambda>_. Inr text))))"

definition BuildOracleCallBlock :: "call_request \<Rightarrow> string result" where
  "BuildOracleCallBlock request =
     (if call_kind request \<noteq> DML_COMPOSITE \<and> dml_operations request \<noteq> [] then throw MALFORMED
      else if call_kind request \<noteq> ANONYMOUS_BLOCK \<and> block request \<noteq> [] then throw MALFORMED
      else case call_kind request of
          ANONYMOUS_BLOCK \<Rightarrow>
            if qualified_name request \<noteq> [] \<or> return_bind request \<noteq> None then throw MALFORMED
            else NormalizeOracleAnonymousBlock (block request)
        | DML_COMPOSITE \<Rightarrow>
            if qualified_name request \<noteq> [] \<or> return_bind request \<noteq> None then throw MALFORMED
            else BuildOracleDmlCompositeBlock (dml_operations request) (arguments request)
        | PROCEDURE \<Rightarrow>
            if return_bind request \<noteq> None then throw MALFORMED
            else BuildOracleProcedureCallBlock (qualified_name request) (arguments request)
        | FUNCTION \<Rightarrow>
            (case return_bind request of
               None \<Rightarrow> throw MALFORMED
             | Some ret_bind \<Rightarrow> BuildOracleFunctionCallBlock (qualified_name request) ret_bind (arguments request)))"

section \<open>What the scanner sees of a block\<close>

text \<open>
  \<open>passes s stops\<close>: the scanner goes over \<open>s\<close> without finding a placeholder, provided that
  what follows is nothing or does not begin with one of the characters \<open>stops\<close>.
\<close>

definition passes :: "string \<Rightarrow> char set \<Rightarrow> bool" where
  "passes s stops \<longleftrightarrow> (\<forall>rest found. (rest = [] \<or> hd rest \<notin> stops) \<longrightarrow>
     placeholders_loop (s @ rest) found = placeholders_loop rest found)"

lemma passesD: "\<lbrakk>passes s stops; rest = [] \<or> hd rest \<notin> stops\<rbrakk> \<Longrightarrow>
  placeholders_loop (s @ rest) found = placeholders_loop rest found"
  by (auto simp: passes_def)

lemma passes_Nil [simp]: "passes [] stops"
  by (simp add: passes_def)

lemma passes_append:
  assumes "passes s xs" "passes t ys" "t = [] \<longrightarrow> xs \<subseteq> ys" "t \<noteq> [] \<longrightarrow> hd t \<notin> xs"
  shows "passes (s @ t) ys"
  using assms by (cases t) (auto simp: passes_def)

abbreviation plain :: "char \<Rightarrow> bool" where
  "plain c \<equiv> c \<notin> {CHR ''-'', CHR ''/'', CHR 0x27, CHR 0x22, CHR ''q'', CHR ''Q'', CHR '':''}"

lemma placeholders_plain: "plain c \<Longrightarrow> placeholders_loop (c # rest) found = placeholders_loop rest found"
  by (subst placeholders_loop.simps) (simp add: next_lexeme_def)

lemma passes_plain: "list_all plain s \<Longrightarrow> passes s {}"
  by (induction s) (auto simp: passes_def placeholders_plain)

lemma part_simps:
  "IsIdentifierPart c \<Longrightarrow> c \<notin> {CHR ''-'', CHR ''/'', CHR 0x27, CHR 0x22, CHR '':'', CHR 0x00}"
  "IsIdentifierPart c = IsBindPart c"
  by (auto simp: IsIdentifierPart_def IsBindPart_def isalnum_def isalpha_def isupper_def islower_def isdigit_def)

lemma start_is_part: "IsIdentifierStart c \<Longrightarrow> IsIdentifierPart c \<and> IsBindStart c"
  by (auto simp: IsIdentifierStart_def IsIdentifierPart_def IsBindStart_def isalnum_def)

lemma placeholders_identifier_char:
  assumes "IsIdentifierPart c" "rest = [] \<or> hd rest \<noteq> CHR 0x27"
  shows "placeholders_loop (c # rest) found = placeholders_loop rest found"
proof -
  have c: "c \<noteq> CHR ''-''" "c \<noteq> CHR ''/''" "c \<noteq> CHR 0x27" "c \<noteq> CHR 0x22"
    using part_simps(1)[OF assms(1)] by simp_all
  have "\<not> (2 \<le> length rest \<and> hd rest = CHR 0x27)"
    using assms(2) by (cases rest) simp_all
  then have "next_lexeme (c # rest) = Character c rest"
    by (auto simp: next_lexeme_def c)
  then show ?thesis
    using part_simps(1)[OF assms(1)] by (subst placeholders_loop.simps) simp
qed

lemma passes_identifier: "list_all IsIdentifierPart w \<Longrightarrow> passes w {CHR 0x27}"
proof (induction w)
  case (Cons c w)
  have "passes [c] {CHR 0x27}"
    unfolding passes_def
  proof (intro allI impI)
    fix rest found assume r: "rest = [] \<or> hd rest \<notin> {CHR 0x27}"
    have "placeholders_loop (c # rest) found = placeholders_loop rest found"
      by (rule placeholders_identifier_char) (use Cons.prems r in simp_all)
    then show "placeholders_loop ([c] @ rest) found = placeholders_loop rest found" by simp
  qed
  moreover have "passes w {CHR 0x27}" using Cons by simp
  moreover have "w \<noteq> [] \<longrightarrow> hd w \<noteq> CHR 0x27"
    using Cons.prems part_simps(1)[of "hd w"] by (cases w) auto
  ultimately show ?case
    using passes_append[of "[c]" "{CHR 0x27}" w "{CHR 0x27}"] by simp
qed simp

lemma skip_quoted_close: "rest = [] \<or> hd rest \<noteq> q \<Longrightarrow> skip_quoted q (q # rest) = Some rest"
  by (cases rest) auto

lemma skip_quoted_other: "\<lbrakk>c \<noteq> q; s \<noteq> []\<rbrakk> \<Longrightarrow> skip_quoted q (c # s) = skip_quoted q s"
  by (cases s) auto

lemma quoted_component_skips:
  "quoted_component content s = Inr (part, r) \<Longrightarrow>
   \<exists>t. part = content @ t \<and> t \<noteq> [] \<and> CHR 0x00 \<notin> set t \<and>
     (\<forall>rest. (rest = [] \<or> hd rest \<noteq> CHR 0x22) \<longrightarrow> skip_quoted CHR 0x22 (t @ rest) = Some rest)"
proof (induction content s rule: quoted_component.induct)
  case (2 content c)
  then have "part = content @ [CHR 0x22]" by (auto split: if_splits)
  then show ?case by (intro exI[of _ "[CHR 0x22]"]) (simp add: skip_quoted_close)
next
  case (3 content c d xs)
  consider (double) "c = CHR 0x22" "d = CHR 0x22" | (close) "c = CHR 0x22" "d \<noteq> CHR 0x22" | (other) "c \<noteq> CHR 0x22"
    by blast
  then show ?case
  proof cases
    case double
    then obtain t where "part = (content @ [c, d]) @ t" "CHR 0x00 \<notin> set t"
      "\<forall>rest. (rest = [] \<or> hd rest \<noteq> CHR 0x22) \<longrightarrow> skip_quoted CHR 0x22 (t @ rest) = Some rest"
      using 3 by auto
    with double show ?thesis by (intro exI[of _ "[c, d] @ t"]) auto
  next
    case close
    then have "part = content @ [CHR 0x22]" using 3 by (auto split: if_splits)
    then show ?thesis by (intro exI[of _ "[CHR 0x22]"]) (simp add: skip_quoted_close)
  next
    case other
    then have q: "\<not> (code_of c < 0x20 \<or> code_of c = 0x7f)" "quoted_component (content @ [c]) (d # xs) = Inr (part, r)"
      using 3(3) by (auto split: if_splits)
    then obtain t where "part = (content @ [c]) @ t" "CHR 0x00 \<notin> set t" "t \<noteq> []"
      "\<forall>rest. (rest = [] \<or> hd rest \<noteq> CHR 0x22) \<longrightarrow> skip_quoted CHR 0x22 (t @ rest) = Some rest"
      using 3(2)[OF other q(1)] by auto
    with other q(1) show ?thesis by (intro exI[of _ "c # t"]) (auto simp: skip_quoted_other)
  qed
qed simp

lemma passes_quoted:
  assumes "quoted_component [] s = Inr (part, r)"
  shows "passes (CHR 0x22 # part) {CHR 0x22}"
proof -
  have "placeholders_loop (CHR 0x22 # part @ rest) found = placeholders_loop rest found"
    if "rest = [] \<or> hd rest \<noteq> CHR 0x22" for rest found
    using quoted_component_skips[OF assms] that
    by (subst placeholders_loop.simps) (auto simp: next_lexeme_def)
  then show ?thesis by (auto simp: passes_def)
qed

text \<open>A component, and then a whole callable name, passes and is short and free of NUL characters.\<close>

abbreviation quotes :: "char set" where
  "quotes \<equiv> {CHR 0x27, CHR 0x22}"

lemma ParseComponent_passes:
  assumes "ParseComponent s = Inr (part, rest)"
  shows "passes part quotes \<and> length part \<le> 128 \<and> CHR 0x00 \<notin> set part \<and> part \<noteq> []"
proof -
  obtain c cs where s: "s = c # cs" using assms by (cases s) (auto simp: ParseComponent_def)
  have len: "length part \<le> 128"
    using assms by (auto simp: ParseComponent_def s andthen_eq_Inr MAX_IDENTIFIER_BYTES_def split: if_splits)
  show ?thesis
  proof (cases "c = CHR 0x22")
    case True
    then obtain p where p: "quoted_component [] cs = Inr (p, rest)" "part = CHR 0x22 # p"
      using assms by (auto simp: ParseComponent_def s andthen_eq_Inr split: if_splits)
    then show ?thesis
      using passes_quoted[OF p(1)] quoted_component_skips[OF p(1)] len by (auto simp: passes_def)
  next
    case False
    then have p: "part = c # takeWhile IsIdentifierPart cs" "IsIdentifierStart c"
      using assms by (auto simp: ParseComponent_def s andthen_eq_Inr split: if_splits)
    then have l: "list_all IsIdentifierPart part"
      using start_is_part by (auto simp: list_all_iff dest: set_takeWhileD)
    then have "CHR 0x00 \<notin> set part" using part_simps(1) by (auto simp: list_all_iff)
    with passes_identifier[OF l] len p show ?thesis by (auto simp: passes_def)
  qed
qed

lemma callable_loop_passes:
  "\<lbrakk>callable_loop n s = Inr (); n \<le> 3\<rbrakk> \<Longrightarrow>
   passes s quotes \<and> length s \<le> (3 - n) * 129 \<and> CHR 0x00 \<notin> set s"
proof (induction n s rule: callable_loop.induct)
  case (1 n s)
  show ?case
  proof (cases "s = []")
    case False
    obtain part rest where p: "ParseComponent s = Inr (part, rest)" "n + 1 \<le> 3"
      "rest \<noteq> [] \<longrightarrow> hd rest = CHR ''.'' \<and> callable_loop (n + 1) (tl rest) = Inr ()"
      using 1(2) False
      by (auto simp: callable_loop.simps[of n s] MAX_CALLABLE_COMPONENTS_def split: sum.splits if_splits list.splits)
    note pp = ParseComponent_passes[OF p(1)] ParseComponent_split[OF p(1)]
    show ?thesis
    proof (cases rest)
      case Nil
      with pp p(2) show ?thesis by auto
    next
      case (Cons c cs)
      with p(3) have c: "c = CHR ''.''" "callable_loop (n + 1) cs = Inr ()" by auto
      have IH: "passes cs quotes" "length cs \<le> (3 - (n + 1)) * 129" "CHR 0x00 \<notin> set cs"
        using 1(1)[OF False p(1) refl _ Cons _ c(2) p(2)] p(2) c(1) by (simp_all add: MAX_CALLABLE_COMPONENTS_def)
      have dot: "passes ([CHR ''.''] @ cs) quotes"
        by (rule passes_append[OF passes_plain]) (simp_all add: IH)
      have "passes (part @ [CHR ''.''] @ cs) quotes"
        by (rule passes_append[OF conjunct1[OF pp(1)] dot]) simp_all
      moreover have "(3 - n) * 129 = (3 - (n + 1)) * 129 + 129"
        using p(2) by (simp add: diff_mult_distrib)
      ultimately show ?thesis using pp IH c Cons by auto
    qed
  qed simp
qed

lemma argument_name:
  assumes "ValidateCallableArgumentName n = Inr ()"
  shows "n \<noteq> []" "length n \<le> 128" "list_all IsIdentifierPart n" "IsBindStart (hd n)" "CHR 0x00 \<notin> set n"
    "\<And>f. CanonicalOracleBindName n = Inr f \<Longrightarrow> f = upper n"
proof -
  obtain c cs where n: "n = c # cs" using assms by (cases n) (auto simp: ValidateCallableArgumentName_def)
  have v: "IsIdentifierStart c" "list_all IsIdentifierPart cs" "length n \<le> 128"
    using assms by (auto simp: ValidateCallableArgumentName_def n MAX_IDENTIFIER_BYTES_def split: if_splits)
  then show "n \<noteq> []" "length n \<le> 128" "list_all IsIdentifierPart n" "IsBindStart (hd n)"
    using start_is_part[of c] n by auto
  then show "CHR 0x00 \<notin> set n" using part_simps(1) by (auto simp: list_all_iff)
  show "f = upper n" if "CanonicalOracleBindName n = Inr f" for f
    using that by (auto simp: CanonicalOracleBindName_def Let_def split: if_splits)
qed

lemma placeholders_bind:
  assumes n: "ValidateCallableArgumentName n = Inr ()" "CanonicalOracleBindName n = Inr f"
    and rest: "rest = [] \<or> \<not> IsBindPart (hd rest)" and new: "f \<notin> set found"
  shows "placeholders_loop (CHR '':'' # n @ rest) found = placeholders_loop rest (found @ [upper n])"
proof -
  note a = argument_name[OF n(1)]
  have p: "\<forall>c\<in>set n. IsBindPart c" using a(3) by (auto simp: list_all_iff part_simps(2))
  have "takeWhile IsBindPart (n @ rest) = n \<and> dropWhile IsBindPart (n @ rest) = rest"
    using p rest by (cases rest) (auto simp: takeWhile_append2 dropWhile_append2)
  moreover have "next_lexeme (CHR '':'' # n @ rest) = Character CHR '':'' (n @ rest)"
    by (simp add: next_lexeme_def)
  moreover have "hd n \<noteq> CHR '':''"
    using a(1,3) part_simps(1)[of "hd n"] by (cases n) auto
  ultimately show ?thesis
    using a(1,4) n(2) new a(6)[OF n(2)] by (subst placeholders_loop.simps) simp
qed

definition argument_text :: "nat \<Rightarrow> string \<Rightarrow> string" where
  "argument_text index n = (if index \<noteq> 0 then '', '' else []) @ n @ '' => :'' @ n"

lemma placeholders_argument:
  assumes n: "ValidateCallableArgumentName n = Inr ()" "CanonicalOracleBindName n = Inr f"
    and rest: "rest = [] \<or> \<not> IsBindPart (hd rest)" and new: "f \<notin> set found"
  shows "placeholders_loop (argument_text index n @ rest) found = placeholders_loop rest (found @ [upper n])"
proof -
  note a = argument_name[OF n(1)]
  have sep: "passes (if index \<noteq> 0 then '', '' else []) {}" by (simp add: passes_plain)
  have arrow: "passes '' => '' {}" by (rule passes_plain) simp
  let ?tail = "CHR '':'' # n @ rest"
  have "placeholders_loop ((if index \<noteq> 0 then '', '' else []) @ n @ '' => '' @ ?tail) found =
      placeholders_loop (n @ '' => '' @ ?tail) found"
    by (rule passesD[OF sep]) simp
  also have "\<dots> = placeholders_loop ('' => '' @ ?tail) found"
    by (rule passesD[OF passes_identifier[OF a(3)]]) simp
  also have "\<dots> = placeholders_loop ?tail found"
    by (rule passesD[OF arrow]) simp
  also have "\<dots> = placeholders_loop rest (found @ [upper n])"
    by (rule placeholders_bind[OF n rest new])
  finally show ?thesis by (simp add: argument_text_def)
qed

text \<open>\<open>binds_in s seen names\<close>: the scanner goes over \<open>s\<close> and finds \<open>names\<close>, none of which is in \<open>seen\<close>.\<close>

definition binds_in :: "string \<Rightarrow> string set \<Rightarrow> string list \<Rightarrow> bool" where
  "binds_in s seen names \<longleftrightarrow> (\<forall>rest found. (rest = [] \<or> \<not> IsBindPart (hd rest)) \<longrightarrow> set found \<subseteq> seen \<longrightarrow>
     placeholders_loop (s @ rest) found = placeholders_loop rest (found @ names))"

lemma binds_inD: "\<lbrakk>binds_in s seen names; rest = [] \<or> \<not> IsBindPart (hd rest); set found \<subseteq> seen\<rbrakk> \<Longrightarrow>
  placeholders_loop (s @ rest) found = placeholders_loop rest (found @ names)"
  unfolding binds_in_def by blast

lemma binds_in_Nil [simp]: "binds_in [] seen []"
  by (simp add: binds_in_def)

lemma call_arguments_text:
  "call_arguments bs index names acc = Inr out \<Longrightarrow>
   \<exists>mid. out = acc @ mid \<and> length mid \<le> 263 * length bs \<and> CHR 0x00 \<notin> set mid \<and>
     distinct (map (\<lambda>b. upper (bind_name b)) bs) \<and> set (map (\<lambda>b. upper (bind_name b)) bs) \<inter> set names = {} \<and>
     (mid \<noteq> [] \<and> 0 < index \<longrightarrow> hd mid = CHR '','') \<and>
     binds_in mid (set names) (map (\<lambda>b. upper (bind_name b)) bs)"
proof (induction bs index names acc arbitrary: out rule: call_arguments.induct)
  case (2 b bs index names acc)
  let ?n = "bind_name b"
  obtain f where b: "ValidateCallableArgumentName ?n = Inr ()" "CanonicalOracleBindName ?n = Inr f" "f \<notin> set names"
    "call_arguments bs (index + 1) (f # names) (acc @ argument_text index ?n) = Inr out"
    using 2(2) by (auto simp: andthen_eq_Inr argument_text_def split: if_splits)
  note a = argument_name[OF b(1)]
  have f: "f = upper ?n" by (rule a(6)[OF b(2)])
  obtain mid where mid: "out = (acc @ argument_text index ?n) @ mid" "length mid \<le> 263 * length bs" "CHR 0x00 \<notin> set mid"
    "distinct (map (\<lambda>b. upper (bind_name b)) bs)" "set (map (\<lambda>b. upper (bind_name b)) bs) \<inter> set (f # names) = {}"
    "mid \<noteq> [] \<longrightarrow> hd mid = CHR '',''"
    "binds_in mid (set (f # names)) (map (\<lambda>b. upper (bind_name b)) bs)"
    using 2(1)[OF b(3) b(4)[unfolded argument_text_def]] by (auto simp: argument_text_def)
  have comma: "\<not> IsBindPart CHR '',''" by (simp add: IsBindPart_def isalnum_def isalpha_def isupper_def islower_def isdigit_def)
  have "placeholders_loop ((argument_text index ?n @ mid) @ rest) found =
      placeholders_loop rest (found @ map (\<lambda>b. upper (bind_name b)) (b # bs))"
    if r: "rest = [] \<or> \<not> IsBindPart (hd rest)" and s: "set found \<subseteq> set names" for rest found
  proof -
    have r': "mid @ rest = [] \<or> \<not> IsBindPart (hd (mid @ rest))"
      using mid(6) r comma by (cases mid) auto
    have "placeholders_loop (argument_text index ?n @ mid @ rest) found = placeholders_loop (mid @ rest) (found @ [upper ?n])"
      by (rule placeholders_argument[OF b(1,2) r']) (use s b(3) in auto)
    also have "\<dots> = placeholders_loop rest ((found @ [upper ?n]) @ map (\<lambda>b. upper (bind_name b)) bs)"
      by (rule binds_inD[OF mid(7) r]) (use s f in auto)
    finally show ?thesis by simp
  qed
  then have "binds_in (argument_text index ?n @ mid) (set names) (map (\<lambda>b. upper (bind_name b)) (b # bs))"
    unfolding binds_in_def by blast
  then show ?case
    using mid(1-5) a(2,5) f b(3)
    by (intro exI[of _ "argument_text index ?n @ mid"]) (auto simp: argument_text_def)
qed simp

lemma call_tail_text:
  assumes "call_tail args names acc = Inr out"
  shows "\<exists>mid. out = acc @ mid \<and> length mid \<le> 263 * length args + 8 \<and> CHR 0x00 \<notin> set mid \<and>
     distinct (map (\<lambda>b. upper (bind_name b)) args) \<and> hd mid \<in> {CHR ''('', CHR '';''} \<and> mid \<noteq> [] \<and>
     (\<forall>found. set found \<subseteq> set names \<longrightarrow>
        placeholders_loop mid found = Inr (found @ map (\<lambda>b. upper (bind_name b)) args))"
proof -
  have fin: "placeholders_loop ''; END;'' found = Inr found" "placeholders_loop ''); END;'' found = Inr found" for found
    using passesD[OF passes_plain[of "''; END;''"], of "[]" found] passesD[OF passes_plain[of "''); END;''"], of "[]" found]
    by (simp_all add: placeholders_loop.simps[of "[]"])
  show ?thesis
  proof (cases "args = []")
    case True
    with assms have "out = acc @ ''; END;''" by (simp add: call_tail_def)
    then show ?thesis using True fin by (intro exI[of _ "''; END;''"]) simp
  next
    case False
    then obtain t where t: "call_arguments args 0 names (acc @ ''('') = Inr t" "out = t @ '')'' @ ''; END;''"
      using assms by (auto simp: call_tail_def andthen_eq_Inr)
    obtain mid where mid: "t = (acc @ ''('') @ mid" "length mid \<le> 263 * length args" "CHR 0x00 \<notin> set mid"
      "distinct (map (\<lambda>b. upper (bind_name b)) args)"
      "binds_in mid (set names) (map (\<lambda>b. upper (bind_name b)) args)"
      using call_arguments_text[OF t(1)] by auto
    have nb: "\<not> IsBindPart CHR '')''" by (simp add: IsBindPart_def isalnum_def isalpha_def isupper_def islower_def isdigit_def)
    have "placeholders_loop (''('' @ mid @ '')'' @ ''; END;'') found = Inr (found @ map (\<lambda>b. upper (bind_name b)) args)"
      if "set found \<subseteq> set names" for found
    proof -
      have "placeholders_loop (''('' @ mid @ '')'' @ ''; END;'') found = placeholders_loop (mid @ '')'' @ ''; END;'') found"
        by (rule passesD[OF passes_plain]) simp_all
      also have "\<dots> = Inr (found @ map (\<lambda>b. upper (bind_name b)) args)"
        using binds_inD[OF mid(5), of "'')'' @ ''; END;''" found] that nb fin by simp
      finally show ?thesis .
    qed
    then show ?thesis
      using mid t(2) by (intro exI[of _ "''('' @ mid @ '')'' @ ''; END;''"]) simp
  qed
qed

lemma callable_name_text:
  "ParseOracleCallableName name = Inr callable \<Longrightarrow>
   callable = name \<and> passes name quotes \<and> length name \<le> 387 \<and> CHR 0x00 \<notin> set name"
  using callable_loop_passes[of 0 name] by (auto simp: ParseOracleCallableName_def andthen_eq_Inr split: if_splits)

lemma procedure_placeholders:
  assumes "BuildOracleProcedureCallBlock name args = Inr out"
  shows "ExtractOracleBindPlaceholders out = Inr (map (\<lambda>b. upper (bind_name b)) args)"
proof -
  have c: "passes name quotes" "length name \<le> 387" "CHR 0x00 \<notin> set name" "length args \<le> 256"
    and t: "call_tail args [] (''BEGIN '' @ name) = Inr out"
    using assms callable_name_text[of name]
    by (auto simp: BuildOracleProcedureCallBlock_def andthen_eq_Inr MAX_ARGUMENTS_def split: if_splits)
  from call_tail_text[OF t] obtain mid where mid: "out = (''BEGIN '' @ name) @ mid" "length mid \<le> 263 * length args + 8"
    "CHR 0x00 \<notin> set mid" "hd mid \<in> {CHR ''('', CHR '';''}"
    "placeholders_loop mid [] = Inr (map (\<lambda>b. upper (bind_name b)) args)" by auto
  have "length out \<le> MAX_SQL_BYTES"
    using mid(1,2) c(2,4) by (simp add: MAX_SQL_BYTES_def)
  then have "\<not> bad_sql_text out" using mid(1,3) c(3) by (simp add: bad_sql_text_def)
  moreover have "placeholders_loop (''BEGIN '' @ name @ mid) [] = placeholders_loop (name @ mid) []"
    by (rule passesD[OF passes_plain]) simp_all
  moreover have "placeholders_loop (name @ mid) [] = placeholders_loop mid []"
    by (rule passesD[OF c(1)]) (use mid(4) in auto)
  ultimately show ?thesis using mid(1,5) by (simp add: ExtractOracleBindPlaceholders_def)
qed

lemma function_placeholders:
  assumes "BuildOracleFunctionCallBlock name ret_bind args = Inr out"
  shows "ExtractOracleBindPlaceholders out = Inr (map (\<lambda>b. upper (bind_name b)) (ret_bind # args))"
proof -
  let ?r = "bind_name ret_bind"
  obtain f where c: "passes name quotes" "length name \<le> 387" "CHR 0x00 \<notin> set name" "length args \<le> 256"
    "ValidateCallableArgumentName ?r = Inr ()" "CanonicalOracleBindName ?r = Inr f"
    and t: "call_tail args [f] (''BEGIN :'' @ ?r @ '' := '' @ name) = Inr out"
    using assms callable_name_text[of name]
    by (auto simp: BuildOracleFunctionCallBlock_def andthen_eq_Inr MAX_ARGUMENTS_def split: if_splits)
  note r = argument_name[OF c(5)]
  have f: "f = upper ?r" by (rule r(6)[OF c(6)])
  from call_tail_text[OF t] f obtain mid where mid: "out = (''BEGIN :'' @ ?r @ '' := '' @ name) @ mid"
    "length mid \<le> 263 * length args + 8" "CHR 0x00 \<notin> set mid" "hd mid \<in> {CHR ''('', CHR '';''}"
    "placeholders_loop mid [upper ?r] = Inr (upper ?r # map (\<lambda>b. upper (bind_name b)) args)" by auto
  have "length out \<le> MAX_SQL_BYTES"
    using mid(1,2) c(2,4) r(2) by (simp add: MAX_SQL_BYTES_def)
  then have ok: "\<not> bad_sql_text out" using mid(1,3) c(3) r(5) by (simp add: bad_sql_text_def)
  have nb: "\<not> IsBindPart CHR '' ''" by (simp add: IsBindPart_def isalnum_def isalpha_def isupper_def islower_def isdigit_def)
  have colon: "placeholders_loop (CHR '':'' # CHR ''='' # rest) found = placeholders_loop rest found" for rest found
  proof -
    have "placeholders_loop (CHR '':'' # CHR ''='' # rest) found = placeholders_loop (CHR ''='' # rest) found"
      by (subst placeholders_loop.simps)
        (simp add: next_lexeme_def IsBindStart_def isalpha_def isupper_def islower_def isdigit_def)
    also have "\<dots> = placeholders_loop rest found" by (rule placeholders_plain) simp
    finally show ?thesis .
  qed
  let ?rest = "'' := '' @ name @ mid"
  have "placeholders_loop (''BEGIN '' @ CHR '':'' # ?r @ ?rest) [] = placeholders_loop (CHR '':'' # ?r @ ?rest) []"
    by (rule passesD[OF passes_plain]) simp_all
  also have "\<dots> = placeholders_loop ?rest [upper ?r]"
    using placeholders_bind[OF c(5,6), of ?rest "[]"] nb by simp
  also have "\<dots> = placeholders_loop (name @ mid) [upper ?r]"
    by (simp add: placeholders_plain colon)
  also have "\<dots> = placeholders_loop mid [upper ?r]"
    by (rule passesD[OF c(1)]) (use mid(4) in auto)
  finally show ?thesis using mid(1,5) ok by (simp add: ExtractOracleBindPlaceholders_def)
qed

section \<open>A name that ends in a separator\<close>

text \<open>
  The loop over the components ends when the text does, also right after a separator, so that
  the empty component the error message speaks of is never looked at: a trailing dot is accepted.
\<close>

lemma trailing_separator_accepted: "ParseOracleCallableName ''PKG.'' = Inr ''PKG.''"
  by (simp add: ParseOracleCallableName_def callable_loop.simps ParseComponent_def MAX_IDENTIFIER_BYTES_def
      MAX_CALLABLE_COMPONENTS_def sql_eval)

section \<open>Properties\<close>

text \<open>
  C22. A procedure or function call block binds exactly its arguments. Whatever the callable name
  is, including quoted components with colons, quotes and comment markers in them, a block that
  the builder accepts is scanned to the folded names of the return bind and of the arguments, each
  once and in order: no text of the name is ever taken for a placeholder or hides one.
\<close>

theorem call_block_placeholders:
  assumes "BuildOracleCallBlock request = Inr out" and "call_kind request = PROCEDURE \<or> call_kind request = FUNCTION"
  shows "ExtractOracleBindPlaceholders out =
    Inr (map (\<lambda>b. upper (bind_name b))
      (case return_bind request of None \<Rightarrow> arguments request | Some r \<Rightarrow> r # arguments request))"
  using assms procedure_placeholders[of "qualified_name request" "arguments request" out]
    function_placeholders[of "qualified_name request" "the (return_bind request)" "arguments request" out]
  by (auto simp: BuildOracleCallBlock_def split: if_splits option.splits)

definition sample_call :: call_request where
  "sample_call = \<lparr>call_kind = PROCEDURE, qualified_name = [CHR 0x22, CHR '':'', CHR ''x'', CHR 0x22], return_bind = None,
     arguments = [sample_bind ''a''], dml_operations = [], block = []\<rparr>"

lemma call_block_placeholders_witness:
  "ExtractOracleBindPlaceholders (''BEGIN '' @ [CHR 0x22, CHR '':'', CHR ''x'', CHR 0x22] @ ''(a => :a); END;'') = Inr [''A'']"
proof -
  have "BuildOracleCallBlock sample_call = Inr (''BEGIN '' @ [CHR 0x22, CHR '':'', CHR ''x'', CHR 0x22] @ ''(a => :a); END;'')"
    by (simp add: BuildOracleCallBlock_def sample_call_def BuildOracleProcedureCallBlock_def ParseOracleCallableName_def
        callable_loop.simps ParseComponent_def MAX_IDENTIFIER_BYTES_def MAX_CALLABLE_COMPONENTS_def MAX_ARGUMENTS_def
        call_tail_def ValidateCallableArgumentName_def sample_bind_def sql_eval)
  from call_block_placeholders[OF this] show ?thesis
    by (simp add: sample_call_def sample_bind_def upper_def toupper_def islower_def char_of_def bit_0)
qed

end
