(* ===== verification/Call_Registry.thy ===== *)
theory Call_Registry
  imports Prelude "HOL-Library.AList" "HOL-Library.While_Combinator"
begin

text \<open>
  \<^verbatim>\<open>src/call_registry.cpp\<close>: the cursors a procedure call returned, owned until each is taken
  once, and the text form of their handles. A cursor is an object of an abstract class: it is
  a value of the type parameter, and closing cursors is the list of those closed.
\<close>

section \<open>Handles as text\<close>

record cursor_handle =
  call_id :: u64
  cursor_id :: u32

definition CURSOR_HANDLE_PREFIX :: string where
  "CURSOR_HANDLE_PREFIX = ''oracle:''"

text \<open>\<^verbatim>\<open>std::from_chars\<close>: the longest run of digits, its value within the type, and the rest.\<close>

definition from_chars :: "nat \<Rightarrow> string \<Rightarrow> (nat \<times> string) option" where
  "from_chars bound text =
     (let digits = takeWhile isdigit text;
          value = foldl (\<lambda>v c. v * 10 + digit_value c) 0 digits
      in if digits = [] \<or> bound \<le> value then None else Some (value, dropWhile isdigit text))"

definition ParsePositiveDecimal :: "nat \<Rightarrow> string \<Rightarrow> nat result" where
  "ParsePositiveDecimal bound text =
     (case from_chars bound text of
        None \<Rightarrow> throw MALFORMED
      | Some (value, rest) \<Rightarrow>
          if text = [] \<or> (length text > 1 \<and> hd text = CHR ''0'') \<or> rest \<noteq> [] \<or> value = 0 then throw MALFORMED
          else Inr value)"

definition FormatCursorHandle :: "cursor_handle \<Rightarrow> string result" where
  "FormatCursorHandle handle =
     (if call_id handle = 0 \<or> cursor_id handle = 0 then throw MALFORMED
      else Inr (CURSOR_HANDLE_PREFIX @ decimal (unat (call_id handle)) @ '':'' @ decimal (unat (cursor_id handle))))"

definition ParseCursorHandle :: "string \<Rightarrow> cursor_handle result" where
  "ParseCursorHandle value =
     (if take (length CURSOR_HANDLE_PREFIX) value \<noteq> CURSOR_HANDLE_PREFIX then throw MALFORMED
      else
        let rest = drop (length CURSOR_HANDLE_PREFIX) value;
            before = takeWhile (\<lambda>c. c \<noteq> CHR '':'') rest;
            past = drop 1 (dropWhile (\<lambda>c. c \<noteq> CHR '':'') rest)
        in if CHR '':'' \<notin> set rest \<or> CHR '':'' \<in> set past then throw MALFORMED
           else andthen (ParsePositiveDecimal (2 ^ 64) before) (\<lambda>call.
                andthen (ParsePositiveDecimal (2 ^ 32) past) (\<lambda>cursor.
                Inr \<lparr>call_id = of_nat call, cursor_id = of_nat cursor\<rparr>)))"

section \<open>The registry\<close>

type_synonym 'c cursor_map = "(u32 \<times> 'c) list"

record 'c call_registry =
  calls :: "(u64 \<times> 'c cursor_map) list"
  next_call_id :: u64
  open_cursor_count :: nat
  maximum_open_cursors :: nat

definition CallRegistry :: "nat \<Rightarrow> 'c call_registry result" where
  "CallRegistry limit =
     (if limit = 0 then throw MALFORMED
      else Inr \<lparr>calls = [], next_call_id = 1, open_cursor_count = 0, maximum_open_cursors = limit\<rparr>)"

text \<open>The search for an unused call id, which would not end if every id were in use.\<close>

definition fresh_call_id :: "(u64 \<times> 'c cursor_map) list \<Rightarrow> u64 \<Rightarrow> u64 option" where
  "fresh_call_id cs start = while_option (\<lambda>n. n = 0 \<or> n \<in> fst ` set cs) (\<lambda>n. n + 1) start"

definition number_cursors :: "'c list \<Rightarrow> 'c cursor_map" where
  "number_cursors cursors = zip (map of_nat [1..<length cursors + 1]) cursors"

text \<open>
  A null pointer among the cursors is \<^const>\<open>None\<close>. No answer at all is the search above not
  ending. Two cursors never get one id: there are fewer than \<open>2 ^ 32\<close> of them.
\<close>

definition Register :: "'c option list \<Rightarrow> 'c call_registry \<Rightarrow> ('c call_registry \<times> cursor_handle list result) option" where
  "Register cursors r =
     (if cursors = [] then Some (r, throw MALFORMED)
      else if length cursors > size_sub (maximum_open_cursors r) (open_cursor_count r) then Some (r, throw LIMIT_EXCEEDED)
      else if None \<in> set cursors then Some (r, throw MALFORMED)
      else map_option (\<lambda>call.
        let owned = number_cursors (map the cursors) in
        (r\<lparr>next_call_id := call + 1, open_cursor_count := open_cursor_count r + length owned,
           calls := (call, owned) # calls r\<rparr>,
         Inr (map (\<lambda>(cursor, _). \<lparr>call_id = call, cursor_id = cursor\<rparr>) owned)))
        (fresh_call_id (calls r) (next_call_id r)))"

definition RegisterResult :: "'c option list \<Rightarrow> 'c option list \<Rightarrow> 'c call_registry \<Rightarrow>
    ('c call_registry \<times> cursor_handle list result) option" where
  "RegisterResult explicit_cursors implicit_cursors = Register (explicit_cursors @ implicit_cursors)"

definition Take :: "cursor_handle \<Rightarrow> ('c call_registry, 'c) action" where
  "Take handle r =
     (case map_of (calls r) (call_id handle) of
        None \<Rightarrow> (r, throw INVALID_STATE)
      | Some cursors \<Rightarrow>
          (case map_of cursors (cursor_id handle) of
             None \<Rightarrow> (r, throw INVALID_STATE)
           | Some cursor \<Rightarrow>
               let left = AList.delete (cursor_id handle) cursors in
               (r\<lparr>open_cursor_count := size_sub (open_cursor_count r) 1,
                  calls := (if left = [] then AList.delete (call_id handle) (calls r)
                            else AList.update (call_id handle) left (calls r))\<rparr>,
                Inr cursor)))"

definition CloseCall :: "u64 \<Rightarrow> 'c call_registry \<Rightarrow> 'c call_registry \<times> bool \<times> 'c list" where
  "CloseCall call r =
     (case map_of (calls r) call of
        None \<Rightarrow> (r, False, [])
      | Some cursors \<Rightarrow>
          (r\<lparr>open_cursor_count := size_sub (open_cursor_count r) (length cursors),
             calls := AList.delete call (calls r)\<rparr>, True, map snd cursors))"

definition CloseAllCalls :: "'c call_registry \<Rightarrow> 'c call_registry \<times> 'c list" where
  "CloseAllCalls r = (r\<lparr>calls := [], open_cursor_count := 0\<rparr>, concat (map (\<lambda>(_, m). map snd m) (calls r)))"

definition OpenCursorCount :: "'c call_registry \<Rightarrow> nat" where
  "OpenCursorCount r = open_cursor_count r"

section \<open>Lemmas\<close>

lemma positive_decimal_reads_back:
  assumes "0 < n" "n < bound"
  shows "ParsePositiveDecimal bound (decimal n) = Inr n"
proof -
  have d: "takeWhile isdigit (decimal n) = decimal n" "dropWhile isdigit (decimal n) = []"
    using decimal_digits[of n] by (simp_all add: list_all_iff)
  have "from_chars bound (decimal n) = Some (n, [])"
    unfolding from_chars_def Let_def d decimal_value using assms(2) by simp
  moreover have "\<not> (length (decimal n) > 1 \<and> hd (decimal n) = CHR ''0'')"
    using decimal_leading[OF assms(1)] by simp
  ultimately show ?thesis using assms(1) by (simp add: ParsePositiveDecimal_def)
qed

lemma colon_not_digit: "CHR '':'' \<notin> set (decimal n)"
  using decimal_digits[of n] by (auto simp: list_all_iff isdigit_def)

lemma split_at_colon:
  "CHR '':'' \<notin> set xs \<Longrightarrow> takeWhile (\<lambda>c. c \<noteq> CHR '':'') (xs @ CHR '':'' # ys) = xs"
  "CHR '':'' \<notin> set xs \<Longrightarrow> dropWhile (\<lambda>c. c \<noteq> CHR '':'') (xs @ CHR '':'' # ys) = CHR '':'' # ys"
  by (induction xs) auto

text \<open>The count is the number of cursors owned, and no call is kept without one.\<close>

definition owned_count :: "(u64 \<times> 'c cursor_map) list \<Rightarrow> nat" where
  "owned_count cs = sum_list (map (\<lambda>(_, m). length m) cs)"

definition calls_ok :: "'c call_registry \<Rightarrow> bool" where
  "calls_ok r \<longleftrightarrow> distinct (map fst (calls r)) \<and> 0 \<notin> fst ` set (calls r) \<and>
     (\<forall>(_, m)\<in>set (calls r). m \<noteq> [] \<and> distinct (map fst m)) \<and>
     open_cursor_count r = owned_count (calls r) \<and> open_cursor_count r \<le> maximum_open_cursors r"

lemma owned_delete:
  "\<lbrakk>distinct (map fst cs); map_of cs k = Some m\<rbrakk> \<Longrightarrow> owned_count cs = length m + owned_count (AList.delete k cs)"
proof (induction cs)
  case (Cons c cs)
  show ?case
  proof (cases "fst c = k")
    case True
    then have "k \<notin> fst ` set cs" using Cons.prems by (cases c) auto
    with True Cons.prems show ?thesis by (cases c) (simp add: owned_count_def)
  next
    case False
    with Cons show ?thesis by (cases c) (auto simp: owned_count_def)
  qed
qed simp

lemma owned_update:
  "\<lbrakk>distinct (map fst cs); map_of cs k = Some m\<rbrakk> \<Longrightarrow>
   owned_count (AList.update k m' cs) + length m = owned_count cs + length m'"
proof (induction cs)
  case (Cons c cs)
  then show ?case by (cases c) (auto simp: owned_count_def)
qed simp

lemma owned_delete_one:
  "\<lbrakk>distinct (map fst m); map_of m k = Some c\<rbrakk> \<Longrightarrow> length m = length (AList.delete k m) + 1"
proof (induction m)
  case (Cons p m)
  then show ?case by (cases "fst p = k") (cases p, force)+
qed simp

lemma set_delete_subset: "set (AList.delete k al) \<subseteq> set al"
  by (induction al) (auto split: if_splits)

lemma set_update_subset: "set (AList.update k v al) \<subseteq> insert (k, v) (set al)"
  by (induction al) (auto split: if_splits)

definition lookup :: "cursor_handle \<Rightarrow> 'c call_registry \<Rightarrow> 'c option" where
  "lookup h r = (case map_of (calls r) (call_id h) of None \<Rightarrow> None | Some m \<Rightarrow> map_of m (cursor_id h))"

lemma Take_result: "snd (Take h r) = (case lookup h r of None \<Rightarrow> throw INVALID_STATE | Some c \<Rightarrow> Inr c)"
  by (simp add: Take_def lookup_def Let_def split: option.split)

lemma Take_unchanged: "lookup h r = None \<Longrightarrow> fst (Take h r) = r"
  by (auto simp: Take_def lookup_def split: option.splits)

lemma handle_eq: "h = h' \<longleftrightarrow> call_id h = call_id h' \<and> cursor_id h = cursor_id h'" for h h' :: cursor_handle
  by (cases h; cases h') simp

text \<open>What is left after a cursor is taken.\<close>

lemma Take_calls:
  assumes ok: "calls_ok r" and l: "lookup h r = Some c"
  shows "lookup h' (fst (Take h r)) = (if h' = h then None else lookup h' r)"
    and "open_cursor_count (fst (Take h r)) + 1 = open_cursor_count r" "calls_ok (fst (Take h r))"
    "maximum_open_cursors (fst (Take h r)) = maximum_open_cursors r"
proof -
  obtain m where m: "map_of (calls r) (call_id h) = Some m" "map_of m (cursor_id h) = Some c"
    using l by (auto simp: lookup_def split: option.splits)
  let ?left = "AList.delete (cursor_id h) m"
  let ?calls = "if ?left = [] then AList.delete (call_id h) (calls r) else AList.update (call_id h) ?left (calls r)"
  have r': "fst (Take h r) = r\<lparr>open_cursor_count := size_sub (open_cursor_count r) 1, calls := ?calls\<rparr>"
    by (simp add: Take_def m Let_def)
  have d: "distinct (map fst (calls r))" "distinct (map fst m)" "m \<noteq> []"
    using ok map_of_SomeD[OF m(1)] by (auto simp: calls_ok_def)
  have len: "length m = length ?left + 1"
    using owned_delete_one[OF d(2) m(2)] by simp
  have count: "owned_count ?calls + 1 = owned_count (calls r)"
    using owned_delete[OF d(1) m(1)] owned_update[OF d(1) m(1), of ?left] len by auto
  show "open_cursor_count (fst (Take h r)) + 1 = open_cursor_count r"
    using count ok unfolding r' calls_ok_def by simp
  show "maximum_open_cursors (fst (Take h r)) = maximum_open_cursors r" unfolding r' by simp
  show "lookup h' (fst (Take h r)) = (if h' = h then None else lookup h' r)"
  proof (cases "call_id h' = call_id h")
    case True
    have k: "map_of ?left (cursor_id h') = (if cursor_id h' = cursor_id h then None else map_of m (cursor_id h'))"
      by (simp add: delete_conv')
    show ?thesis
    proof (cases "?left = []")
      case True
      with k \<open>call_id h' = call_id h\<close> m(1) show ?thesis
        unfolding r' lookup_def by (cases "cursor_id h' = cursor_id h") (simp_all add: handle_eq delete_conv')
    next
      case False
      with k \<open>call_id h' = call_id h\<close> m(1) show ?thesis
        unfolding r' lookup_def by (simp add: handle_eq update_conv')
    qed
  next
    case False
    then show ?thesis unfolding r' lookup_def by (auto simp: delete_conv' update_conv')
  qed
  have k0: "call_id h \<noteq> 0"
    using ok m(1) unfolding calls_ok_def by (metis map_of_eq_None_iff option.distinct(1))
  show "calls_ok (fst (Take h r))"
    unfolding r' calls_ok_def
  proof (intro conjI)
    show "distinct (map fst (calls (r\<lparr>open_cursor_count := size_sub (open_cursor_count r) 1, calls := ?calls\<rparr>)))"
      using d(1) by (simp add: distinct_delete distinct_update)
    show "0 \<notin> fst ` set (calls (r\<lparr>open_cursor_count := size_sub (open_cursor_count r) 1, calls := ?calls\<rparr>))"
      using ok k0 dom_delete_subset[of "call_id h" "calls r"] by (auto simp: calls_ok_def dom_update)
    have "set ?calls \<subseteq> set (calls r) \<union> (if ?left = [] then {} else {(call_id h, ?left)})"
      using set_delete_subset[of "call_id h" "calls r"] set_update_subset[of "call_id h" ?left "calls r"] by auto
    moreover have "\<forall>(_, m)\<in>set (calls r). m \<noteq> [] \<and> distinct (map fst m)" using ok by (simp add: calls_ok_def)
    ultimately show "\<forall>(_, m)\<in>set (calls (r\<lparr>open_cursor_count := size_sub (open_cursor_count r) 1, calls := ?calls\<rparr>)).
        m \<noteq> [] \<and> distinct (map fst m)"
      using distinct_delete[OF d(2), of "cursor_id h"] by (auto split: if_splits)
  qed (use ok count in \<open>auto simp: calls_ok_def\<close>)
qed

subsection \<open>Registering\<close>

lemma number_cursors_simps:
  assumes "length cs < 2 ^ 32"
  shows "length (number_cursors cs) = length cs" "map snd (number_cursors cs) = cs"
    "distinct (map fst (number_cursors cs))" "map fst (number_cursors cs) = map of_nat [1..<length cs + 1]"
proof -
  show l: "length (number_cursors cs) = length cs" "map snd (number_cursors cs) = cs"
    "map fst (number_cursors cs) = map of_nat [1..<length cs + 1]"
    by (simp_all add: number_cursors_def del: upt_Suc)
  have "inj_on (of_nat :: nat \<Rightarrow> u32) {1..<length cs + 1}"
  proof (rule inj_on_inverseI)
    fix n assume "n \<in> {1..<length cs + 1}"
    then show "unat (of_nat n :: u32) = n"
      using assms by (simp add: unsigned_of_nat take_bit_nat_eq_self)
  qed
  then show "distinct (map fst (number_cursors cs))"
    unfolding l(3) by (simp add: distinct_map del: upt_Suc)
qed

lemma fresh_call_id_Some:
  assumes "length cs + 1 < 2 ^ 64"
  shows "\<exists>n. fresh_call_id cs start = Some n \<and> n \<noteq> 0 \<and> n \<notin> fst ` set cs"
proof -
  let ?bad = "insert 0 (fst ` set cs)"
  have step: "((\<lambda>n. n + 1) ^^ k) start = start + of_nat k" for k
    by (induction k) (simp_all add: ac_simps)
  have "card ?bad \<le> length cs + 1"
  proof -
    have "card (fst ` set cs) \<le> length cs"
      using card_image_le[of "set cs" fst] card_length[of cs] by simp
    then show ?thesis by (simp add: card_insert_if)
  qed
  then have "?bad \<noteq> (UNIV :: u64 set)"
    using assms card_word[where 'a = 64] by auto
  then obtain x where x: "x \<notin> ?bad" by blast
  have "start + of_nat (unat (x - start)) = x" by simp
  then have "\<exists>k. \<not> (((\<lambda>n. n + 1) ^^ k) start = 0 \<or> ((\<lambda>n. n + 1) ^^ k) start \<in> fst ` set cs)"
    unfolding step using x by (intro exI[of _ "unat (x - start)"]) simp
  then obtain n where n: "fresh_call_id cs start = Some n"
    unfolding fresh_call_id_def while_option_def by auto
  with while_option_stop[OF n[unfolded fresh_call_id_def]] show ?thesis by auto
qed

lemma Register_Inr:
  assumes "Register cursors r = Some (r', Inr hs)" "maximum_open_cursors r < 2 ^ 32" "calls_ok r"
  obtains call where "call \<noteq> 0" "call \<notin> fst ` set (calls r)" "cursors \<noteq> []" "None \<notin> set cursors"
    "length cursors + open_cursor_count r \<le> maximum_open_cursors r"
    "calls r' = (call, number_cursors (map the cursors)) # calls r"
    "open_cursor_count r' = open_cursor_count r + length cursors" "maximum_open_cursors r' = maximum_open_cursors r"
    "hs = map (\<lambda>i. \<lparr>call_id = call, cursor_id = of_nat i\<rparr>) [1..<length cursors + 1]"
proof -
  have small: "length cursors \<le> maximum_open_cursors r - open_cursor_count r"
    using assms(1,3) by (auto simp: Register_def calls_ok_def split: if_splits)
  then have len: "length (map the cursors) < 2 ^ 32" using assms(2) by simp
  obtain call where c: "fresh_call_id (calls r) (next_call_id r) = Some call" "cursors \<noteq> []" "None \<notin> set cursors"
    "calls r' = (call, number_cursors (map the cursors)) # calls r"
    "open_cursor_count r' = open_cursor_count r + length (number_cursors (map the cursors))"
    "maximum_open_cursors r' = maximum_open_cursors r"
    "hs = map (\<lambda>(cursor, _). \<lparr>call_id = call, cursor_id = cursor\<rparr>) (number_cursors (map the cursors))"
    using assms(1) by (auto simp: Register_def Let_def split: if_splits)
  have ids: "call \<noteq> 0" "call \<notin> fst ` set (calls r)"
    using while_option_stop[OF c(1)[unfolded fresh_call_id_def]] by auto
  have "hs = map (\<lambda>k. \<lparr>call_id = call, cursor_id = k\<rparr>) (map fst (number_cursors (map the cursors)))"
    unfolding c(7) by (simp add: case_prod_unfold)
  then have "hs = map (\<lambda>i. \<lparr>call_id = call, cursor_id = of_nat i\<rparr>) [1..<length cursors + 1]"
    using number_cursors_simps(4)[OF len] by (simp add: o_def del: upt_Suc)
  then show ?thesis
    using that[OF ids c(2,3) _ c(4) _ c(6)] number_cursors_simps(1)[OF len] c(2,5) small assms(3)
    by (cases cursors) (auto simp: calls_ok_def)
qed

lemma Register_ok:
  assumes "Register cursors r = Some (r', res)" "maximum_open_cursors r < 2 ^ 32" "calls_ok r"
  shows "calls_ok r' \<and> maximum_open_cursors r' = maximum_open_cursors r"
proof (cases res)
  case (Inl e)
  then show ?thesis using assms by (auto simp: Register_def Let_def split: if_splits)
next
  case (Inr hs)
  show ?thesis
  proof (rule Register_Inr[OF assms(1)[unfolded Inr] assms(2,3)])
    fix call
    assume c: "call \<noteq> 0" "call \<notin> fst ` set (calls r)" "cursors \<noteq> []"
      "length cursors + open_cursor_count r \<le> maximum_open_cursors r"
      "calls r' = (call, number_cursors (map the cursors)) # calls r"
      "open_cursor_count r' = open_cursor_count r + length cursors" "maximum_open_cursors r' = maximum_open_cursors r"
    have len: "length (map the cursors) < 2 ^ 32" using c(4) assms(2) by simp
    note n = number_cursors_simps[OF len]
    have "number_cursors (map the cursors) \<noteq> []" using n(1) c(3) by auto
    then show ?thesis
      using assms(3) c n(1,3) by (auto simp: calls_ok_def owned_count_def)
  qed
qed

lemma lookup_registered:
  assumes "calls r' = (call, number_cursors cs) # calls r" "call \<notin> fst ` set (calls r)" "length cs < 2 ^ 32"
  shows "i < length cs \<Longrightarrow> lookup \<lparr>call_id = call, cursor_id = of_nat (i + 1)\<rparr> r' = Some (cs ! i)"
    and "call_id h \<noteq> call \<Longrightarrow> lookup h r' = lookup h r"
    and "call_id h = call \<Longrightarrow> cursor_id h \<notin> fst ` set (number_cursors cs) \<Longrightarrow> lookup h r' = None"
proof -
  note n = number_cursors_simps[OF assms(3)]
  show "lookup \<lparr>call_id = call, cursor_id = of_nat (i + 1)\<rparr> r' = Some (cs ! i)" if "i < length cs"
  proof -
    have "(of_nat (i + 1), cs ! i) \<in> set (number_cursors cs)"
      using that unfolding number_cursors_def set_zip
      by (auto simp del: upt_Suc intro!: exI[of _ i])
    then show ?thesis using n(3) assms(1) by (simp add: lookup_def)
  qed
  show "lookup h r' = lookup h r" if "call_id h \<noteq> call"
    using that assms(1) by (simp add: lookup_def)
  show "lookup h r' = None" if "call_id h = call" "cursor_id h \<notin> fst ` set (number_cursors cs)"
    using that assms(1) by (simp add: lookup_def map_of_eq_None_iff)
qed

section \<open>Histories\<close>

inductive call_step :: "'c call_registry \<Rightarrow> 'c call_registry \<Rightarrow> bool" where
  step_register: "Register cursors r = Some (r', res) \<Longrightarrow> call_step r r'"
| step_take: "call_step r (fst (Take h r))"
| step_close: "call_step r (fst (CloseCall call r))"
| step_close_all: "call_step r (fst (CloseAllCalls r))"

lemma CloseCall_ok: "calls_ok r \<Longrightarrow> calls_ok (fst (CloseCall call r))"
proof (cases "map_of (calls r) call")
  case (Some m)
  assume ok: "calls_ok r"
  have d: "distinct (map fst (calls r))" using ok by (simp add: calls_ok_def)
  have "owned_count (calls r) = length m + owned_count (AList.delete call (calls r))"
    by (rule owned_delete[OF d Some])
  then show ?thesis
    using ok Some set_delete_subset[of call "calls r"] dom_delete_subset[of call "calls r"] distinct_delete[OF d, of call]
    unfolding CloseCall_def calls_ok_def by (auto simp: size_sub_def)
qed (simp add: CloseCall_def)

lemma call_step_ok:
  "\<lbrakk>call_step r r'; calls_ok r; maximum_open_cursors r < 2 ^ 32\<rbrakk> \<Longrightarrow>
   calls_ok r' \<and> maximum_open_cursors r' = maximum_open_cursors r"
proof (induction rule: call_step.induct)
  case (step_register cursors r r' res)
  then show ?case using Register_ok by blast
next
  case (step_take r h)
  then show ?case using Take_calls(3,4)[of r h] Take_unchanged[of h r] by (cases "lookup h r") auto
next
  case (step_close r call)
  have "maximum_open_cursors (fst (CloseCall call r)) = maximum_open_cursors r"
    by (simp add: CloseCall_def split: option.split)
  then show ?case using CloseCall_ok[of r call] step_close by simp
next
  case (step_close_all r)
  then show ?case by (simp add: CloseAllCalls_def calls_ok_def owned_count_def)
qed

definition reachable_calls :: "nat \<Rightarrow> 'c call_registry \<Rightarrow> bool" where
  "reachable_calls limit r \<longleftrightarrow> limit < 2 ^ 32 \<and> (\<exists>start. CallRegistry limit = Inr start \<and> call_step\<^sup>*\<^sup>* start r)"

lemma reachable_calls_ok: "reachable_calls limit r \<Longrightarrow> calls_ok r \<and> maximum_open_cursors r = limit \<and> limit < 2 ^ 32"
proof -
  assume "reachable_calls limit r"
  then obtain start where s: "limit < 2 ^ 32" "CallRegistry limit = Inr start" "call_step\<^sup>*\<^sup>* start r"
    by (auto simp: reachable_calls_def)
  have st: "calls_ok start \<and> maximum_open_cursors start = limit"
    using s(2) by (auto simp: CallRegistry_def calls_ok_def owned_count_def split: if_splits)
  from s(3) have "calls_ok r \<and> maximum_open_cursors r = limit"
    by (induction rule: rtranclp_induct) (use st s(1) call_step_ok in auto)
  with s(1) show ?thesis by simp
qed

lemma calls_length: "calls_ok r \<Longrightarrow> length (calls r) \<le> open_cursor_count r"
proof -
  have "length cs \<le> owned_count cs" if "\<forall>(_, m)\<in>set cs. m \<noteq> []" for cs :: "(u64 \<times> 'c cursor_map) list"
    using that by (induction cs) (auto simp: owned_count_def Suc_le_eq neq_Nil_conv)
  moreover assume "calls_ok r"
  then have "\<forall>(_, m)\<in>set (calls r). m \<noteq> []" "open_cursor_count r = owned_count (calls r)"
    by (auto simp: calls_ok_def)
  ultimately show "length (calls r) \<le> open_cursor_count r" by simp
qed

section \<open>Properties\<close>

text \<open>
  Registering never hangs, and its handles are new: in a reachable registry the search for a
  call id ends, and if the cursors are accepted, each of the returned handles takes exactly its
  cursor, none of them was valid before, every other handle means what it meant, and the count of
  open cursors grows by their number.
\<close>

theorem registered_cursors_can_be_taken:
  assumes "reachable_calls limit r"
  shows "\<exists>r' res. Register cursors r = Some (r', res) \<and>
    (case res of Inl e \<Rightarrow> r' = r
     | Inr hs \<Rightarrow> length hs = length cursors \<and> distinct hs \<and> OpenCursorCount r' = OpenCursorCount r + length cursors \<and>
         OpenCursorCount r' \<le> limit \<and>
         (\<forall>i<length cursors. \<exists>c. cursors ! i = Some c \<and> snd (Take (hs ! i) r') = Inr c \<and>
            snd (Take (hs ! i) r) = throw INVALID_STATE) \<and>
         (\<forall>h. h \<notin> set hs \<longrightarrow> snd (Take h r') = snd (Take h r)))"
proof -
  note ok = reachable_calls_ok[OF assms]
  have "length (calls r) + 1 < 2 ^ 64"
    using calls_length[of r] ok by (auto simp: calls_ok_def)
  from fresh_call_id_Some[OF this, of "next_call_id r"]
  have "Register cursors r \<noteq> None"
    by (auto simp: Register_def)
  then obtain r' res where R: "Register cursors r = Some (r', res)"
    by auto
  show ?thesis
  proof (cases res)
    case (Inl e)
    then show ?thesis using R by (auto simp: Register_def Let_def split: if_splits)
  next
    case (Inr hs)
    show ?thesis
    proof (rule Register_Inr[OF R[unfolded Inr]])
      fix call
      assume c: "call \<noteq> 0" "call \<notin> fst ` set (calls r)" "None \<notin> set cursors"
        "length cursors + open_cursor_count r \<le> maximum_open_cursors r"
        "calls r' = (call, number_cursors (map the cursors)) # calls r"
        "open_cursor_count r' = open_cursor_count r + length cursors"
        "hs = map (\<lambda>i. \<lparr>call_id = call, cursor_id = of_nat i\<rparr>) [1..<length cursors + 1]"
      have len: "length (map the cursors) < 2 ^ 32" using c(4) ok by simp
      note n = number_cursors_simps[OF len] and lk = lookup_registered[OF c(5,2) len]
      have hs: "hs ! i = \<lparr>call_id = call, cursor_id = of_nat (i + 1)\<rparr>" if "i < length cursors" for i
        using that unfolding c(7) by (simp del: upt_Suc)
      have len_hs: "length hs = length cursors" unfolding c(7) by (simp del: upt_Suc)
      have "distinct hs"
      proof -
        have "map cursor_id hs = map fst (number_cursors (map the cursors))"
          unfolding c(7) n(4) by (simp add: o_def del: upt_Suc)
        then show ?thesis using n(3) by (metis distinct_map)
      qed
      moreover have "\<forall>i<length cursors. \<exists>d. cursors ! i = Some d \<and> snd (Take (hs ! i) r') = Inr d \<and>
          snd (Take (hs ! i) r) = throw INVALID_STATE"
      proof (intro allI impI)
        fix i assume i: "i < length cursors"
        then obtain d where d: "cursors ! i = Some d" using c(3) by (metis nth_mem not_None_eq)
        moreover have "lookup (hs ! i) r' = Some d" using lk(1)[of i] i d hs[OF i] by simp
        moreover have "map_of (calls r) call = None" using c(2) by (simp add: map_of_eq_None_iff)
        then have "lookup (hs ! i) r = None" unfolding lookup_def hs[OF i] by simp
        ultimately show "\<exists>d. cursors ! i = Some d \<and> snd (Take (hs ! i) r') = Inr d \<and> snd (Take (hs ! i) r) = throw INVALID_STATE"
          by (simp add: Take_result)
      qed
      moreover have "\<forall>h. h \<notin> set hs \<longrightarrow> snd (Take h r') = snd (Take h r)"
      proof (intro allI impI)
        fix h assume h: "h \<notin> set hs"
        have "lookup h r' = lookup h r"
        proof (cases "call_id h = call")
          case True
          have "cursor_id h \<notin> fst ` set (number_cursors (map the cursors))"
          proof
            assume "cursor_id h \<in> fst ` set (number_cursors (map the cursors))"
            then have "cursor_id h \<in> set (map of_nat [1..<length cursors + 1])"
              using n(4) by (metis length_map list.set_map)
            then have "h \<in> set hs" unfolding c(7) using True by (auto simp: handle_eq simp del: upt_Suc)
            with h show False ..
          qed
          then have "lookup h r' = None" by (rule lk(3)[OF True])
          moreover have "map_of (calls r) call = None" using c(2) by (simp add: map_of_eq_None_iff)
          then have "lookup h r = None" unfolding lookup_def True by simp
          ultimately show ?thesis by simp
        qed (rule lk(2))
        then show "snd (Take h r') = snd (Take h r)" by (simp add: Take_result)
      qed
      ultimately show ?thesis using R Inr len_hs c(4,6) ok by (simp add: OpenCursorCount_def)
    qed (use ok in simp_all)
  qed
qed

definition empty_calls :: "string call_registry" where
  "empty_calls = \<lparr>calls = [], next_call_id = 1, open_cursor_count = 0, maximum_open_cursors = 4\<rparr>"

lemma empty_calls_reachable: "reachable_calls 4 empty_calls"
  by (auto simp: reachable_calls_def CallRegistry_def empty_calls_def)

definition one_call :: "string call_registry" where
  "one_call = \<lparr>calls = [(1, [(1, ''a''), (2, ''b'')])], next_call_id = 2, open_cursor_count = 2, maximum_open_cursors = 4\<rparr>"

lemma one_call_registered:
  "Register [Some ''a'', Some ''b''] empty_calls =
     Some (one_call, Inr [\<lparr>call_id = 1, cursor_id = 1\<rparr>, \<lparr>call_id = 1, cursor_id = 2\<rparr>])"
  by (simp add: Register_def empty_calls_def one_call_def fresh_call_id_def while_option_unfold number_cursors_def
      upt_rec numeral_eq_Suc)

lemma registered_cursors_can_be_taken_witness:
  "OpenCursorCount one_call = OpenCursorCount empty_calls + 2 \<and>
   snd (Take \<lparr>call_id = 1, cursor_id = 2\<rparr> one_call) = Inr ''b'' \<and>
   snd (Take \<lparr>call_id = 1, cursor_id = 2\<rparr> empty_calls) = throw INVALID_STATE"
  using registered_cursors_can_be_taken[OF empty_calls_reachable, of "[Some ''a'', Some ''b'']"]
  by (auto simp: one_call_registered dest!: spec[of _ 1])

text \<open>
  C20. A cursor is taken at most once, and taking it disturbs no other: after a successful take the
  same handle is refused, every other handle answers as before, and one open cursor less is counted.
\<close>

theorem cursor_taken_once:
  assumes "reachable_calls limit r" and "Take h r = (r', Inr c)"
  shows "snd (Take h r') = throw INVALID_STATE \<and> (\<forall>h'. h' \<noteq> h \<longrightarrow> snd (Take h' r') = snd (Take h' r)) \<and>
    OpenCursorCount r' + 1 = OpenCursorCount r \<and> reachable_calls limit r'"
proof -
  note ok = conjunct1[OF reachable_calls_ok[OF assms(1)]]
  have l: "lookup h r = Some c" using assms(2) Take_result[of h r] by (auto split: option.splits)
  have r': "r' = fst (Take h r)" using assms(2) by simp
  have "reachable_calls limit r'"
    using assms(1) step_take[of r h] unfolding r' reachable_calls_def by (meson rtranclp.rtrancl_into_rtrancl)
  then show ?thesis
    using Take_calls(1)[OF ok l] Take_calls(2)[OF ok l] r' by (simp add: Take_result OpenCursorCount_def)
qed

lemma cursor_taken_once_witness:
  "snd (Take \<lparr>call_id = 1, cursor_id = 1\<rparr> (fst (Take \<lparr>call_id = 1, cursor_id = 1\<rparr> one_call))) = throw INVALID_STATE"
proof -
  have "reachable_calls 4 one_call"
    using empty_calls_reachable step_register[OF one_call_registered]
    unfolding reachable_calls_def by (meson rtranclp.rtrancl_into_rtrancl)
  moreover have "Take \<lparr>call_id = 1, cursor_id = 1\<rparr> one_call =
      (fst (Take \<lparr>call_id = 1, cursor_id = 1\<rparr> one_call), Inr ''a'')"
    by (simp add: Take_def one_call_def Let_def)
  ultimately show ?thesis by (rule cursor_taken_once[THEN conjunct1])
qed

text \<open>
  A cursor handle survives its text form: the text of any handle that can be formatted is
  parsed back to the same handle.
\<close>

theorem cursor_handle_round_trip:
  assumes "FormatCursorHandle handle = Inr text"
  shows "ParseCursorHandle text = Inr handle"
proof -
  have nz: "call_id handle \<noteq> 0" "cursor_id handle \<noteq> 0"
    and t: "text = CURSOR_HANDLE_PREFIX @ decimal (unat (call_id handle)) @ '':'' @ decimal (unat (cursor_id handle))"
    using assms by (auto simp: FormatCursorHandle_def split: if_splits)
  let ?c = "decimal (unat (call_id handle))" and ?d = "decimal (unat (cursor_id handle))"
  note tw = split_at_colon[OF colon_not_digit[of "unat (call_id handle)"], of ?d]
  have bound: "unat (call_id handle) < 2 ^ 64" "unat (cursor_id handle) < 2 ^ 32"
    using unsigned_less[of "call_id handle", where 'a = nat] unsigned_less[of "cursor_id handle", where 'a = nat] by simp_all
  have pos: "0 < unat (call_id handle)" "0 < unat (cursor_id handle)"
    using nz by (simp_all add: unat_gt_0)
  have p: "ParsePositiveDecimal (2 ^ 64) ?c = Inr (unat (call_id handle))"
    by (rule positive_decimal_reads_back) (rule pos(1), rule bound(1))
  have q: "ParsePositiveDecimal (2 ^ 32) ?d = Inr (unat (cursor_id handle))"
    by (rule positive_decimal_reads_back) (rule pos(2), rule bound(2))
  show ?thesis
    unfolding ParseCursorHandle_def t using tw p q colon_not_digit by (simp add: Let_def)
qed

lemma cursor_handle_round_trip_witness:
  "ParseCursorHandle ''oracle:12:3'' = Inr \<lparr>call_id = 12, cursor_id = 3\<rparr>"
  by (rule cursor_handle_round_trip)
    (simp add: FormatCursorHandle_def CURSOR_HANDLE_PREFIX_def decimal.simps digit_char_def char_of_def bit_0)

end
