(* ===== verification/Statement_Registry.thy ===== *)
theory Statement_Registry
  imports Sql_Text "HOL-Library.AList"
begin

text \<open>
  \<^verbatim>\<open>src/statement_registry.cpp\<close>: the life cycle of the statements of a session. Every
  operation takes the registry's lock, so one is a step of a state machine. The map from ids to
  records is an association list with distinct keys; the invariant says so.
\<close>

section \<open>State\<close>

datatype statement_state = OPEN | EXECUTED | FETCHING | EXHAUSTED | CLOSED | POISONED

record statement_record =
  st_state :: statement_state
  remote_cursor_id :: u32

record statement_registry =
  statements :: "(u32 \<times> statement_record) list"
  next_statement_id :: u32
  maximum_open_statements :: nat

definition OracleStatementRegistry :: "nat \<Rightarrow> statement_registry result" where
  "OracleStatementRegistry limit =
     (if limit = 0 then throw MALFORMED
      else Inr \<lparr>statements = [], next_statement_id = 1, maximum_open_statements = limit\<rparr>)"

section \<open>Operations\<close>

definition Open :: "sql_kind \<Rightarrow> (statement_registry, u32) action" where
  "Open kind r =
     (if kind \<noteq> QUERY \<and> kind \<noteq> DML \<and> kind \<noteq> PLSQL \<and> kind \<noteq> ADMIN then (r, throw UNSUPPORTED)
      else if length (statements r) = maximum_open_statements r then (r, throw LIMIT_EXCEEDED)
      else if next_statement_id r = 0 \<or> next_statement_id r = - 1 then (r, throw LIMIT_EXCEEDED)
      else
        let handle = next_statement_id r;
            r = r\<lparr>next_statement_id := handle + 1\<rparr>
        in (r\<lparr>statements := (if map_of (statements r) handle = None
                then (handle, \<lparr>st_state = OPEN, remote_cursor_id = 0\<rparr>) # statements r else statements r)\<rparr>,
            Inr handle))"

definition RequireOpen :: "u32 \<Rightarrow> statement_registry \<Rightarrow> statement_record result" where
  "RequireOpen handle r =
     (if handle = 0 then throw MALFORMED
      else case map_of (statements r) handle of None \<Rightarrow> throw INVALID_STATE | Some s \<Rightarrow> Inr s)"

definition set_record :: "u32 \<Rightarrow> statement_record \<Rightarrow> statement_registry \<Rightarrow> statement_registry" where
  "set_record handle s r = r\<lparr>statements := AList.update handle s (statements r)\<rparr>"

definition BindRemoteCursor :: "u32 \<Rightarrow> u32 \<Rightarrow> (statement_registry, unit) action" where
  "BindRemoteCursor handle cursor r =
     (case RequireOpen handle r of
        Inl e \<Rightarrow> (r, Inl e)
      | Inr s \<Rightarrow>
          if cursor = 0 \<or> remote_cursor_id s \<noteq> 0 then (r, throw MALFORMED)
          else if list_ex (\<lambda>(k, s'). remote_cursor_id s' = cursor) (statements r) then (r, throw MALFORMED)
          else (set_record handle (s\<lparr>remote_cursor_id := cursor\<rparr>) r, Inr ()))"

definition RemoteCursorId :: "u32 \<Rightarrow> statement_registry \<Rightarrow> u32 result" where
  "RemoteCursorId handle r =
     (if handle = 0 then throw MALFORMED
      else case map_of (statements r) handle of
          None \<Rightarrow> throw INVALID_STATE
        | Some s \<Rightarrow> if remote_cursor_id s = 0 then throw INVALID_STATE else Inr (remote_cursor_id s))"

definition TryRemoteCursorId :: "u32 \<Rightarrow> statement_registry \<Rightarrow> u32 option" where
  "TryRemoteCursorId handle r =
     (if handle = 0 then None
      else case map_of (statements r) handle of
          None \<Rightarrow> None
        | Some s \<Rightarrow> if remote_cursor_id s = 0 then None else Some (remote_cursor_id s))"

text \<open>The operations that move a statement from some states to a new one.\<close>

definition move :: "u32 \<Rightarrow> statement_state set \<Rightarrow> statement_state \<Rightarrow> (statement_registry, unit) action" where
  "move handle from to r =
     (case RequireOpen handle r of
        Inl e \<Rightarrow> (r, Inl e)
      | Inr s \<Rightarrow> if st_state s \<notin> from then (r, throw INVALID_STATE)
                 else (set_record handle (s\<lparr>st_state := to\<rparr>) r, Inr ()))"

definition MarkExecuted :: "u32 \<Rightarrow> bool \<Rightarrow> (statement_registry, unit) action" where
  "MarkExecuted handle has_rows = move handle {OPEN} (if has_rows then EXECUTED else EXHAUSTED)"

definition BeginFetch :: "u32 \<Rightarrow> (statement_registry, unit) action" where
  "BeginFetch handle = move handle {EXECUTED, FETCHING} FETCHING"

definition MarkExhausted :: "u32 \<Rightarrow> (statement_registry, unit) action" where
  "MarkExhausted handle = move handle {EXECUTED, FETCHING} EXHAUSTED"

definition Poison :: "u32 \<Rightarrow> (statement_registry, unit) action" where
  "Poison handle = move handle {OPEN, EXECUTED, FETCHING, EXHAUSTED, CLOSED, POISONED} POISONED"

definition Close :: "u32 \<Rightarrow> statement_registry \<Rightarrow> statement_registry \<times> bool" where
  "Close handle r =
     (if handle = 0 then (r, False)
      else (r\<lparr>statements := AList.delete handle (statements r)\<rparr>, map_of (statements r) handle \<noteq> None))"

definition CloseAll :: "statement_registry \<Rightarrow> statement_registry" where
  "CloseAll r = r\<lparr>statements := []\<rparr>"

definition State :: "u32 \<Rightarrow> statement_registry \<Rightarrow> statement_state result" where
  "State handle r =
     (if handle = 0 then throw MALFORMED
      else case map_of (statements r) handle of None \<Rightarrow> Inr CLOSED | Some s \<Rightarrow> Inr (st_state s))"

definition OpenCount :: "statement_registry \<Rightarrow> nat" where
  "OpenCount r = length (statements r)"

section \<open>Histories\<close>

text \<open>A step is one operation on the registry, whatever it answers.\<close>

inductive registry_step :: "statement_registry \<Rightarrow> statement_registry \<Rightarrow> bool" where
  step_open: "registry_step r (fst (Open kind r))"
| step_bind: "registry_step r (fst (BindRemoteCursor handle cursor r))"
| step_execute: "registry_step r (fst (MarkExecuted handle has_rows r))"
| step_fetch: "registry_step r (fst (BeginFetch handle r))"
| step_exhaust: "registry_step r (fst (MarkExhausted handle r))"
| step_poison: "registry_step r (fst (Poison handle r))"
| step_close: "registry_step r (fst (Close handle r))"
| step_close_all: "registry_step r (CloseAll r)"

text \<open>No remote cursor id has two statements, and a statement that is held is not closed.\<close>

definition cursors_ok :: "(u32 \<rightharpoonup> statement_record) \<Rightarrow> bool" where
  "cursors_ok m \<longleftrightarrow>
     (\<forall>k l s t. m k = Some s \<longrightarrow> m l = Some t \<longrightarrow> remote_cursor_id s = remote_cursor_id t \<longrightarrow>
        remote_cursor_id s \<noteq> 0 \<longrightarrow> k = l) \<and>
     (\<forall>k s. m k = Some s \<longrightarrow> st_state s \<noteq> CLOSED)"

definition registry_ok :: "statement_registry \<Rightarrow> bool" where
  "registry_ok r \<longleftrightarrow> distinct (map fst (statements r)) \<and> next_statement_id r \<noteq> 0 \<and>
     (\<forall>k\<in>fst ` set (statements r). k \<noteq> 0 \<and> k < next_statement_id r) \<and>
     length (statements r) \<le> maximum_open_statements r \<and> cursors_ok (map_of (statements r))"

text \<open>How far a statement has come; a statement never moves back.\<close>

fun rank :: "statement_state \<Rightarrow> nat" where
  "rank OPEN = 0"
| "rank EXECUTED = 1"
| "rank FETCHING = 2"
| "rank EXHAUSTED = 3"
| "rank POISONED = 4"
| "rank CLOSED = 5"

definition issued :: "u32 \<Rightarrow> statement_registry \<Rightarrow> bool" where
  "issued handle r \<longleftrightarrow> handle \<noteq> 0 \<and> handle < next_statement_id r"

definition state_of :: "u32 \<Rightarrow> statement_registry \<Rightarrow> statement_state" where
  "state_of handle r = (case map_of (statements r) handle of None \<Rightarrow> CLOSED | Some s \<Rightarrow> st_state s)"

section \<open>Lemmas\<close>

lemma length_keys: "distinct (map fst al) \<Longrightarrow> length al = card (fst ` set al)"
  by (metis distinct_card length_map list.set_map)

lemma update_keys:
  assumes "map_of al k = Some v" "distinct (map fst al)"
  shows "fst ` set (AList.update k w al) = fst ` set al" "length (AList.update k w al) = length al"
    "distinct (map fst (AList.update k w al))"
proof -
  have "k \<in> fst ` set al" using assms(1) by (metis map_of_eq_None_iff option.distinct(1))
  then show k: "fst ` set (AList.update k w al) = fst ` set al"
    by (auto simp: dom_update)
  show d: "distinct (map fst (AList.update k w al))"
    using assms(2) by (rule distinct_update)
  show "length (AList.update k w al) = length al"
    using length_keys[OF d] length_keys[OF assms(2)] k by simp
qed

lemma cursors_ok_update:
  assumes "cursors_ok m" "m k = Some s" "st_state s' \<noteq> CLOSED"
    and "remote_cursor_id s' = remote_cursor_id s \<or> (\<forall>l t. m l = Some t \<longrightarrow> remote_cursor_id t \<noteq> remote_cursor_id s')"
  shows "cursors_ok (m(k \<mapsto> s'))"
proof -
  have c: "\<And>k l s t. \<lbrakk>m k = Some s; m l = Some t; remote_cursor_id s = remote_cursor_id t; remote_cursor_id s \<noteq> 0\<rbrakk> \<Longrightarrow> k = l"
    "\<And>k s. m k = Some s \<Longrightarrow> st_state s \<noteq> CLOSED"
    using assms(1) unfolding cursors_ok_def by blast+
  have e: "k = l" if "m l = Some t" "remote_cursor_id s' = remote_cursor_id t" "remote_cursor_id t \<noteq> 0" for l t
    using assms(4) c(1)[OF assms(2) that(1)] that by auto
  show ?thesis
    unfolding cursors_ok_def
  proof (intro conjI allI impI)
    fix i j u v
    assume h: "(m(k \<mapsto> s')) i = Some u" "(m(k \<mapsto> s')) j = Some v" "remote_cursor_id u = remote_cursor_id v"
      "remote_cursor_id u \<noteq> 0"
    consider "i = k" "j = k" | "i = k" "j \<noteq> k" | "i \<noteq> k" "j = k" | "i \<noteq> k" "j \<noteq> k" by blast
    then show "i = j"
    proof cases
      case 2
      then show ?thesis using h e[of j v] by simp
    next
      case 3
      then show ?thesis using h e[of i u] by simp
    next
      case 4
      then show ?thesis using h c(1)[of i u j v] by simp
    qed simp
  next
    fix i u assume "(m(k \<mapsto> s')) i = Some u"
    then show "st_state u \<noteq> CLOSED" using assms(3) c(2)[of i u] by (cases "i = k") auto
  qed
qed

lemma cursors_ok_restrict: "\<lbrakk>cursors_ok m; m' \<subseteq>\<^sub>m m\<rbrakk> \<Longrightarrow> cursors_ok m'"
  unfolding cursors_ok_def map_le_def by (metis domI)

lemma set_record_ok:
  assumes "registry_ok r" "map_of (statements r) k = Some s" "st_state s' \<noteq> CLOSED"
    and "remote_cursor_id s' = remote_cursor_id s \<or>
      (\<forall>l t. map_of (statements r) l = Some t \<longrightarrow> remote_cursor_id t \<noteq> remote_cursor_id s')"
  shows "registry_ok (set_record k s' r)"
proof -
  have d: "distinct (map fst (statements r))" and c: "cursors_ok (map_of (statements r))"
    using assms(1) by (simp_all add: registry_ok_def)
  show ?thesis
    using assms(1) update_keys[OF assms(2) d, of s'] cursors_ok_update[OF c assms(2-4)]
    unfolding registry_ok_def set_record_def by (simp add: update_conv')
qed

lemma move_ok: "\<lbrakk>registry_ok r; to \<noteq> CLOSED\<rbrakk> \<Longrightarrow> registry_ok (fst (move h from to r))"
  by (auto simp: move_def RequireOpen_def split: sum.splits if_splits option.splits intro: set_record_ok)

lemma bind_ok:
  assumes "registry_ok r"
  shows "registry_ok (fst (BindRemoteCursor h c r))"
proof (cases "RequireOpen h r")
  case (Inr s)
  then have s: "map_of (statements r) h = Some s"
    by (auto simp: RequireOpen_def split: if_splits option.splits)
  then have live: "st_state s \<noteq> CLOSED"
    using assms by (auto simp: registry_ok_def cursors_ok_def)
  have new: "\<forall>l t. map_of (statements r) l = Some t \<longrightarrow> remote_cursor_id t \<noteq> c"
    if "\<not> list_ex (\<lambda>(k, s'). remote_cursor_id s' = c) (statements r)"
    using that by (auto simp: list_ex_iff dest!: map_of_SomeD)
  show ?thesis
    using assms set_record_ok[OF assms s, of "s\<lparr>remote_cursor_id := c\<rparr>"] live new
    by (simp add: BindRemoteCursor_def Inr)
qed (simp add: BindRemoteCursor_def assms)

lemma next_id:
  fixes n :: "'a::len word"
  assumes "n \<noteq> - 1"
  shows "n < n + 1" "n + 1 \<noteq> 0" "k < n \<Longrightarrow> k < n + 1"
proof -
  show z: "n + 1 \<noteq> 0" using assms by (simp add: eq_neg_iff_add_eq_0)
  have "unat (n + 1) = Suc (unat n)" using unatSuc[of n] z by (simp add: add.commute)
  then show l: "n < n + 1" by (simp add: word_less_nat_alt)
  show "k < n + 1" if "k < n" using that l by (rule less_trans)
qed

lemma open_cases:
  obtains "fst (Open kind r) = r"
  | "length (statements r) \<noteq> maximum_open_statements r" "next_statement_id r \<noteq> - 1"
    "fst (Open kind r) = r\<lparr>next_statement_id := next_statement_id r + 1,
       statements := (if map_of (statements r) (next_statement_id r) = None
         then (next_statement_id r, \<lparr>st_state = OPEN, remote_cursor_id = 0\<rparr>) # statements r else statements r)\<rparr>"
proof (cases "(kind \<noteq> QUERY \<and> kind \<noteq> DML \<and> kind \<noteq> PLSQL \<and> kind \<noteq> ADMIN) \<or>
    length (statements r) = maximum_open_statements r \<or> next_statement_id r = 0 \<or> next_statement_id r = - 1")
  case True
  then have "fst (Open kind r) = r" unfolding Open_def by (elim disjE) simp_all
  then show ?thesis by (rule that(1))
next
  case False
  then show ?thesis by (intro that(2)) (simp_all add: Open_def Let_def)
qed

lemma next_unused: "registry_ok r \<Longrightarrow> map_of (statements r) (next_statement_id r) = None"
  by (auto simp: registry_ok_def map_of_eq_None_iff)

lemma open_ok:
  assumes "registry_ok r"
  shows "registry_ok (fst (Open kind r))"
proof (rule open_cases[of kind r])
  let ?n = "next_statement_id r"
  let ?r = "r\<lparr>next_statement_id := ?n + 1, statements := (?n, \<lparr>st_state = OPEN, remote_cursor_id = 0\<rparr>) # statements r\<rparr>"
  note r = assms[unfolded registry_ok_def]
  assume l: "length (statements r) \<noteq> maximum_open_statements r" and n: "?n \<noteq> - 1"
    and o: "fst (Open kind r) = r\<lparr>next_statement_id := ?n + 1, statements := (if map_of (statements r) ?n = None
         then (?n, \<lparr>st_state = OPEN, remote_cursor_id = 0\<rparr>) # statements r else statements r)\<rparr>"
  have fresh: "?n \<notin> fst ` set (statements r)" using r by auto
  have "\<forall>k\<in>fst ` set (statements r). k \<noteq> 0 \<and> k < ?n + 1"
    using r next_id(3)[OF n] by blast
  moreover have "cursors_ok ((map_of (statements r))(?n \<mapsto> \<lparr>st_state = OPEN, remote_cursor_id = 0\<rparr>))"
    using r unfolding cursors_ok_def by (auto split: if_splits)
  ultimately have "registry_ok ?r"
    using r l next_id(1,2)[OF n] fresh by (simp add: registry_ok_def)
  then show ?thesis using o next_unused[OF assms] by simp
qed (use assms in simp)

lemma registry_ok_sub:
  assumes "registry_ok r" "map_of d \<subseteq>\<^sub>m map_of (statements r)" "length d \<le> length (statements r)"
    "distinct (map fst d)" "fst ` set d \<subseteq> fst ` set (statements r)"
  shows "registry_ok (r\<lparr>statements := d\<rparr>)"
proof -
  note r = assms(1)[unfolded registry_ok_def]
  have "\<forall>k\<in>fst ` set d. k \<noteq> 0 \<and> k < next_statement_id r" using r assms(5) by blast
  moreover have "cursors_ok (map_of d)" using r assms(2) cursors_ok_restrict by blast
  ultimately show ?thesis using r assms(3,4) unfolding registry_ok_def by simp
qed

lemma close_ok:
  assumes "registry_ok r"
  shows "registry_ok (fst (Close h r))"
proof (cases "h = 0")
  case False
  have "registry_ok (r\<lparr>statements := AList.delete h (statements r)\<rparr>)"
  proof (rule registry_ok_sub[OF assms])
    show "map_of (AList.delete h (statements r)) \<subseteq>\<^sub>m map_of (statements r)"
      by (auto simp: map_le_def delete_conv' split: if_splits)
    show "distinct (map fst (AList.delete h (statements r)))"
      using assms by (simp add: registry_ok_def distinct_delete)
  qed (rule length_delete_le, rule dom_delete_subset)
  with False show ?thesis by (simp add: Close_def)
qed (simp add: Close_def assms)

lemma registry_step_ok: "\<lbrakk>registry_step r r'; registry_ok r\<rbrakk> \<Longrightarrow> registry_ok r'"
  by (induction rule: registry_step.induct)
    (auto simp: MarkExecuted_def BeginFetch_def MarkExhausted_def Poison_def CloseAll_def
      intro: open_ok bind_ok move_ok close_ok, auto simp: registry_ok_def cursors_ok_def)

lemma set_record_state: "state_of k (set_record h s r) = (if k = h then st_state s else state_of k r)"
  by (simp add: state_of_def set_record_def update_conv')

lemma set_record_next [simp]: "next_statement_id (set_record h s r) = next_statement_id r"
  by (simp add: set_record_def)

lemma move_cases:
  obtains "fst (move h from to r) = r"
  | s where "map_of (statements r) h = Some s" "st_state s \<in> from" "fst (move h from to r) = set_record h (s\<lparr>st_state := to\<rparr>) r"
proof (cases "RequireOpen h r")
  case (Inl e)
  then show ?thesis using that(1) by (simp add: move_def)
next
  case (Inr s)
  then have "map_of (statements r) h = Some s"
    by (auto simp: RequireOpen_def split: if_splits option.splits)
  then show ?thesis using that Inr by (cases "st_state s \<in> from") (simp_all add: move_def)
qed

lemma rank_bounds: "rank s \<le> 5" "rank CLOSED = 5"
  by (cases s) auto

lemma move_rank:
  assumes "\<forall>s\<in>from. s \<noteq> CLOSED \<longrightarrow> rank s \<le> rank to" "registry_ok r"
  shows "rank (state_of k r) \<le> rank (state_of k (fst (move h from to r))) \<and>
    next_statement_id (fst (move h from to r)) = next_statement_id r"
proof (rule move_cases[of h "from" to r])
  fix s assume s: "map_of (statements r) h = Some s" "st_state s \<in> from"
    and m: "fst (move h from to r) = set_record h (s\<lparr>st_state := to\<rparr>) r"
  have "st_state s \<noteq> CLOSED" using assms(2) s(1) unfolding registry_ok_def cursors_ok_def by blast
  then have "rank (state_of h r) \<le> rank to" using assms(1) s by (simp add: state_of_def)
  then show ?thesis unfolding m set_record_state by simp
qed simp

lemma registry_step_monotone:
  assumes "registry_step r r'" "registry_ok r" "issued k r"
  shows "rank (state_of k r) \<le> rank (state_of k r') \<and> issued k r'"
  using assms
proof (induction rule: registry_step.induct)
  case (step_open r kind)
  have k: "k \<noteq> next_statement_id r" using step_open(2) by (auto simp: issued_def)
  show ?case
    by (rule open_cases[of kind r])
      (use step_open k next_id(3)[of "next_statement_id r" k] in \<open>auto simp: issued_def state_of_def\<close>)
next
  case (step_bind r h c)
  have "state_of k (fst (BindRemoteCursor h c r)) = state_of k r"
  proof (cases "RequireOpen h r")
    case (Inr s)
    then have "map_of (statements r) h = Some s" by (auto simp: RequireOpen_def split: if_splits option.splits)
    then show ?thesis
      unfolding BindRemoteCursor_def Inr by (simp add: set_record_state) (simp add: state_of_def)
  qed (simp add: BindRemoteCursor_def)
  moreover have "next_statement_id (fst (BindRemoteCursor h c r)) = next_statement_id r"
    by (simp add: BindRemoteCursor_def split: sum.split)
  ultimately show ?case using step_bind by (simp add: issued_def)
next
  case (step_close r h)
  have "state_of k (fst (Close h r)) = (if h \<noteq> 0 \<and> k = h then CLOSED else state_of k r)"
    by (simp add: Close_def state_of_def delete_conv')
  moreover have "next_statement_id (fst (Close h r)) = next_statement_id r" by (simp add: Close_def)
  ultimately show ?case using step_close rank_bounds(1)[of "state_of k r"] by (simp add: issued_def rank_bounds)
next
  case (step_close_all r)
  then show ?case using rank_bounds(1)[of "state_of k r"] by (simp add: CloseAll_def issued_def state_of_def)
qed (use move_rank in \<open>simp_all add: MarkExecuted_def BeginFetch_def MarkExhausted_def Poison_def issued_def\<close>)

lemma registry_start_ok: "OracleStatementRegistry limit = Inr r \<Longrightarrow> registry_ok r"
  by (auto simp: OracleStatementRegistry_def registry_ok_def cursors_ok_def split: if_splits)

lemma registry_reachable_ok: "\<lbrakk>registry_step\<^sup>*\<^sup>* r r'; registry_ok r\<rbrakk> \<Longrightarrow> registry_ok r'"
  by (induction rule: rtranclp_induct) (auto intro: registry_step_ok)

lemma registry_reachable_monotone:
  "\<lbrakk>registry_step\<^sup>*\<^sup>* r r'; registry_ok r; issued k r\<rbrakk> \<Longrightarrow> rank (state_of k r) \<le> rank (state_of k r') \<and> issued k r'"
proof (induction rule: rtranclp_induct)
  case (step y z)
  then have "registry_ok y" using registry_reachable_ok by blast
  with step registry_step_monotone[of y z k] show ?case by fastforce
qed simp

lemma State_issued: "issued k r \<Longrightarrow> State k r = Inr (state_of k r)"
  by (simp add: State_def issued_def state_of_def split: option.split)

lemma registry_step_limit:
  "registry_step r r' \<Longrightarrow> maximum_open_statements r' = maximum_open_statements r"
  by (induction rule: registry_step.induct)
    (auto simp: Open_def Let_def BindRemoteCursor_def MarkExecuted_def BeginFetch_def MarkExhausted_def Poison_def
      move_def set_record_def Close_def CloseAll_def split: sum.splits)

lemma registry_limit: "registry_step\<^sup>*\<^sup>* r r' \<Longrightarrow> maximum_open_statements r' = maximum_open_statements r"
  by (induction rule: rtranclp_induct) (auto dest: registry_step_limit)

section \<open>Properties\<close>

text \<open>
  C18. A statement handle only moves forward. From the moment a handle has been issued, whatever
  operations follow on whatever handles, its state never goes back in the order open, executed,
  fetching, exhausted, poisoned, closed; in particular a closed handle is never reissued and a
  poisoned statement can only be closed.
\<close>

theorem statement_never_goes_back:
  assumes "OracleStatementRegistry limit = Inr r\<^sub>0" and "registry_step\<^sup>*\<^sup>* r\<^sub>0 r" and "registry_step\<^sup>*\<^sup>* r r'"
    and "handle \<noteq> 0" and "handle < next_statement_id r"
  shows "\<exists>s s'. State handle r = Inr s \<and> State handle r' = Inr s' \<and> rank s \<le> rank s'"
proof -
  have "registry_ok r" by (rule registry_reachable_ok[OF assms(2) registry_start_ok[OF assms(1)]])
  moreover have i: "issued handle r" using assms(4,5) by (simp add: issued_def)
  ultimately have "rank (state_of handle r) \<le> rank (state_of handle r') \<and> issued handle r'"
    by (rule registry_reachable_monotone[OF assms(3)])
  with State_issued[OF i] State_issued[of handle r'] show ?thesis by blast
qed

definition sample_registry :: statement_registry where
  "sample_registry = \<lparr>statements = [(1, \<lparr>st_state = OPEN, remote_cursor_id = 0\<rparr>)], next_statement_id = 2, maximum_open_statements = 4\<rparr>"

lemma sample_registry_reachable:
  "OracleStatementRegistry 4 = Inr \<lparr>statements = [], next_statement_id = 1, maximum_open_statements = 4\<rparr>"
  "registry_step \<lparr>statements = [], next_statement_id = 1, maximum_open_statements = 4\<rparr> sample_registry"
  using step_open[of "\<lparr>statements = [], next_statement_id = 1, maximum_open_statements = 4\<rparr>" QUERY]
  by (simp_all add: OracleStatementRegistry_def Open_def Let_def sample_registry_def)

lemma statement_never_goes_back_witness:
  "\<exists>s s'. State 1 sample_registry = Inr s \<and> State 1 (fst (Close 1 sample_registry)) = Inr s' \<and> rank s \<le> rank s'"
  by (rule statement_never_goes_back[OF sample_registry_reachable(1) r_into_rtranclp[of registry_step] r_into_rtranclp[of registry_step]])
    (rule sample_registry_reachable(2), rule step_close, simp_all add: sample_registry_def)

text \<open>
  C19. In every reachable registry no two statements share a server cursor id, and the number of open
  statements stays within the limit the registry was made with.
\<close>

theorem remote_cursors_unshared:
  assumes "OracleStatementRegistry limit = Inr r\<^sub>0" and "registry_step\<^sup>*\<^sup>* r\<^sub>0 r"
  shows "OpenCount r \<le> limit \<and>
    (\<forall>h h' c. RemoteCursorId h r = Inr c \<longrightarrow> RemoteCursorId h' r = Inr c \<longrightarrow> h = h')"
proof -
  have ok: "registry_ok r" by (rule registry_reachable_ok[OF assms(2) registry_start_ok[OF assms(1)]])
  have "maximum_open_statements r = limit"
    using registry_limit[OF assms(2)] assms(1) by (auto simp: OracleStatementRegistry_def split: if_splits)
  moreover have "h = h'" if "RemoteCursorId h r = Inr c" "RemoteCursorId h' r = Inr c" for h h' c
  proof -
    have "\<exists>s. map_of (statements r) k = Some s \<and> remote_cursor_id s = c \<and> c \<noteq> 0" if "RemoteCursorId k r = Inr c" for k
      using that by (auto simp: RemoteCursorId_def split: if_splits option.splits)
    with that ok show ?thesis unfolding registry_ok_def cursors_ok_def by metis
  qed
  ultimately show ?thesis using ok by (auto simp: registry_ok_def OpenCount_def)
qed

lemma remote_cursors_unshared_witness:
  "OpenCount (fst (BindRemoteCursor 1 77 sample_registry)) \<le> 4 \<and>
    {h. RemoteCursorId h (fst (BindRemoteCursor 1 77 sample_registry)) = Inr 77} = {1}"
proof -
  let ?r = "fst (BindRemoteCursor 1 77 sample_registry)"
  have steps: "registry_step\<^sup>*\<^sup>* \<lparr>statements = [], next_statement_id = 1, maximum_open_statements = 4\<rparr> ?r"
    using sample_registry_reachable(2) step_bind[of sample_registry 1 77]
    by (meson r_into_rtranclp rtranclp.rtrancl_into_rtrancl)
  have "RemoteCursorId 1 ?r = Inr 77"
    by (simp add: BindRemoteCursor_def RequireOpen_def sample_registry_def set_record_def RemoteCursorId_def)
  then show ?thesis using remote_cursors_unshared[OF sample_registry_reachable(1) steps] by auto
qed

end
