(* ===== verification/Session_Interface.thy ===== *)
theory Session_Interface
  imports Call_Builder
begin

text \<open>
  The abstract class \<^verbatim>\<open>OracleSession\<close> of \<^verbatim>\<open>include/oracle_scanner/session.hpp\<close>. The pools,
  the transaction and the validating decorator know a session only through it, so they take the
  methods of all sessions as an argument: a record of functions on the identity of a session
  (the object a \<^verbatim>\<open>shared_ptr\<close> points to) and the state of the outside world.
\<close>

datatype session_call =
    QueryCall string "oracle_bind list"
  | ExecuteCall string "oracle_bind list"
  | AdminCall string
  | RowCountCall string "oracle_bind list"
  | BatchCall string "oracle_bind list list"
  | ReturningCall string "oracle_bind list"
  | ProcedureCall call_request
  | CommitCall
  | RollbackCall
  | CancelCall
  | CloseSessionCall

text \<open>
  A method that throws answers with \<^term>\<open>Inl\<close>; what it did to the world before throwing
  stays done. A deadline is known by the identity of the object that carries it.
\<close>

record ('w, 'r) sessions =
  invoke :: "nat \<Rightarrow> session_call \<Rightarrow> 'w \<Rightarrow> 'w \<times> 'r result"
  ReadyForReuse :: "nat \<Rightarrow> 'w \<Rightarrow> 'w \<times> bool result"
  BindIoDeadline :: "nat \<Rightarrow> nat option \<Rightarrow> 'w \<Rightarrow> 'w \<times> bool result"

text \<open>\<^verbatim>\<open>try { session->Close(); } catch (...) {}\<close>, for no session too.\<close>

definition CloseQuietly :: "('w, 'r, 'x) sessions_scheme \<Rightarrow> nat option \<Rightarrow> 'w \<Rightarrow> 'w" where
  "CloseQuietly api session w = (case session of None \<Rightarrow> w | Some s \<Rightarrow> fst (invoke api s CloseSessionCall w))"

definition CloseEach :: "('w, 'r, 'x) sessions_scheme \<Rightarrow> nat list \<Rightarrow> 'w \<Rightarrow> 'w" where
  "CloseEach api = fold (\<lambda>s. CloseQuietly api (Some s))"

text \<open>
  A world that only remembers which calls were made on which session, used to evaluate the model
  on concrete histories.
\<close>

type_synonym journal = "(nat \<times> session_call) list"

definition recording :: "(nat \<Rightarrow> session_call \<Rightarrow> bool) \<Rightarrow> (journal, unit) sessions" where
  "recording fails = \<lparr>
     invoke = (\<lambda>s c w. (w @ [(s, c)], if fails s c then throw INVALID_STATE else Inr ())),
     ReadyForReuse = (\<lambda>s w. (w, Inr True)),
     BindIoDeadline = (\<lambda>s d w. (w, Inr True))\<rparr>"

end
