(* ===== verification/Validating_Session.thy ===== *)
theory Validating_Session
  imports Session_Interface "HOL-Library.Sublist"
begin

text \<open>
  \<^verbatim>\<open>src/validating_session.cpp\<close>: the decorator that checks every statement, block and bind
  before the wrapped session sees it. Its state is the wrapped session, empty once closed.
\<close>

type_synonym 'w validated = "nat option \<times> 'w"

definition ValidatedOracleSession :: "nat option \<Rightarrow> nat option result" where
  "ValidatedOracleSession inner = (if inner = None then throw MALFORMED else Inr inner)"

definition Inner :: "nat option \<Rightarrow> nat result" where
  "Inner inner = (case inner of None \<Rightarrow> throw INVALID_STATE | Some s \<Rightarrow> Inr s)"

definition forward :: "('w, 'r) sessions \<Rightarrow> session_call \<Rightarrow> ('w validated, 'r) action" where
  "forward api c s =
     (case Inner (fst s) of
        Inl e \<Rightarrow> (s, Inl e)
      | Inr i \<Rightarrow> (case invoke api i c (snd s) of (w, r) \<Rightarrow> ((fst s, w), r)))"

text \<open>The checks each method makes, in its order.\<close>

definition return_bind_check :: "call_request \<Rightarrow> unit result" where
  "return_bind_check request =
     (case return_bind request of None \<Rightarrow> Inr () | Some b \<Rightarrow> ValidateOracleBinds [b] USE_CALL)"

fun checks :: "session_call \<Rightarrow> unit result" where
  "checks (QueryCall sql binds) = ValidateOracleQuery sql binds"
| "checks (ExecuteCall sql binds) = ValidateOracleDml sql binds"
| "checks (AdminCall sql) = ValidateOracleAdmin sql"
| "checks (RowCountCall sql binds) = ValidateOracleDml sql binds"
| "checks (BatchCall sql rows) =
     andthen (ValidateOracleBindBatch rows) (\<lambda>_. ValidateOracleDml sql (hd rows))"
| "checks (ReturningCall sql binds) = ValidateOracleBinds binds USE_CALL"
| "checks (ProcedureCall request) =
     andthen (BuildOracleCallBlock request) (\<lambda>_.
     andthen (ValidateOracleBinds (arguments request) USE_CALL) (\<lambda>_. return_bind_check request))"
| "checks _ = Inr ()"

text \<open>
  \<^verbatim>\<open>Close\<close> empties the decorator after the wrapped session closed, and not when that throws. It
  has no value of its own; \<open>done\<close> stands for the value of a \<^verbatim>\<open>void\<close> method.
\<close>

definition validated_call :: "('w, 'r) sessions \<Rightarrow> 'r \<Rightarrow> session_call \<Rightarrow> ('w validated, 'r) action" where
  "validated_call api ready c s =
     (if c = CloseSessionCall then
        (case fst s of
           None \<Rightarrow> (s, Inr ready)
         | Some i \<Rightarrow> (case invoke api i c (snd s) of
               (w, Inl e) \<Rightarrow> ((fst s, w), Inl e)
             | (w, Inr r) \<Rightarrow> ((None, w), Inr r)))
      else after (lifting (checks c)) (\<lambda>_. forward api c) s)"

definition ValidatedReadyForReuse :: "('w, 'r) sessions \<Rightarrow> ('w validated, bool) action" where
  "ValidatedReadyForReuse api s =
     (case fst s of None \<Rightarrow> (s, Inr False)
      | Some i \<Rightarrow> (case ReadyForReuse api i (snd s) of (w, r) \<Rightarrow> ((fst s, w), r)))"

definition ValidatedBindIoDeadline :: "('w, 'r) sessions \<Rightarrow> nat option \<Rightarrow> ('w validated, bool) action" where
  "ValidatedBindIoDeadline api source s =
     (case fst s of None \<Rightarrow> (s, Inr False)
      | Some i \<Rightarrow> (case BindIoDeadline api i source (snd s) of (w, r) \<Rightarrow> ((fst s, w), r)))"

section \<open>Sequences of calls\<close>

text \<open>A client that makes calls and ignores their answers.\<close>

fun validated_calls :: "('w, 'r) sessions \<Rightarrow> 'r \<Rightarrow> session_call list \<Rightarrow> 'w validated \<Rightarrow> 'w validated" where
  "validated_calls api ready [] s = s"
| "validated_calls api ready (c # cs) s = validated_calls api ready cs (fst (validated_call api ready c s))"

text \<open>
  What the wrapped session may be asked to run. A statement is one query, one DML statement or one
  administrative statement, and has exactly the binds its text names; of a statement with
  \<^verbatim>\<open>RETURNING\<close> only the binds are checked.
\<close>

definition well_formed_dml :: "string \<Rightarrow> oracle_bind list \<Rightarrow> bool" where
  "well_formed_dml sql binds \<longleftrightarrow>
     ClassifyOracleSql sql = Inr DML \<and> RejectStatementTerminators sql = Inr () \<and>
     ValidateOracleStatementBinds sql binds USE_DML = Inr ()"

fun well_formed_call :: "session_call \<Rightarrow> bool" where
  "well_formed_call (QueryCall sql binds) \<longleftrightarrow>
     ClassifyOracleSql sql = Inr QUERY \<and> RejectStatementTerminators sql = Inr () \<and>
     ValidateOracleStatementBinds sql binds USE_QUERY = Inr ()"
| "well_formed_call (ExecuteCall sql binds) \<longleftrightarrow> well_formed_dml sql binds"
| "well_formed_call (RowCountCall sql binds) \<longleftrightarrow> well_formed_dml sql binds"
| "well_formed_call (AdminCall sql) \<longleftrightarrow>
     ClassifyOracleSql sql = Inr DDL_OR_OTHER \<and> RejectStatementTerminators sql = Inr () \<and>
     ExtractOracleBindPlaceholders sql = Inr []"
| "well_formed_call (BatchCall sql rows) \<longleftrightarrow>
     rows \<noteq> [] \<and> well_formed_dml sql (hd rows) \<and> (\<forall>row\<in>set rows. length row = length (hd rows)) \<and>
     (\<forall>row\<in>set (tl rows). ValidateOracleBatchRow (hd rows) row = Inr ())"
| "well_formed_call (ReturningCall sql binds) \<longleftrightarrow> ValidateOracleBinds binds USE_CALL = Inr ()"
| "well_formed_call (ProcedureCall request) \<longleftrightarrow>
     (\<exists>block. BuildOracleCallBlock request = Inr block) \<and> ValidateOracleBinds (arguments request) USE_CALL = Inr () \<and>
     (\<forall>b. return_bind request = Some b \<longrightarrow> ValidateOracleBinds [b] USE_CALL = Inr ())"
| "well_formed_call _ \<longleftrightarrow> True"

lemma batch_rows_valid: "batch_rows_loop first rows = Inr () \<Longrightarrow> row \<in> set rows \<Longrightarrow> ValidateOracleBatchRow first row = Inr ()"
  by (induction rows) (auto simp: andthen_eq_Inr)

lemma batch_rows_length: "batch_rows_loop first rows = Inr () \<Longrightarrow> row \<in> set rows \<Longrightarrow> length row = length first"
  by (drule batch_rows_valid) (auto simp: ValidateOracleBatchRow_def split: if_splits)

definition admin_keywords :: "string set" where
  "admin_keywords = {''CREATE'', ''ALTER'', ''DROP'', ''GRANT'', ''REVOKE'', ''COMMENT'', ''TRUNCATE''}"

lemma admin_keyword_class: "k \<in> admin_keywords \<Longrightarrow> FirstKeyword sql = Inr k \<Longrightarrow> ClassifyOracleSql sql = Inr DDL_OR_OTHER"
  unfolding admin_keywords_def by (elim insertE emptyE) (simp_all add: ClassifyOracleSql_def)

lemma ValidateOracleAdmin_Inr:
  "ValidateOracleAdmin sql = Inr () \<longleftrightarrow> RejectStatementTerminators sql = Inr () \<and>
     (\<exists>k\<in>admin_keywords. FirstKeyword sql = Inr k) \<and> ValidateOracleStatementBinds sql [] USE_DML = Inr ()"
  unfolding ValidateOracleAdmin_def admin_keywords_def[symmetric] andthen_eq_Inr by (auto split: if_split_asm)

lemma no_binds_no_placeholders:
  "ValidateOracleStatementBinds sql [] use = Inr () \<Longrightarrow> ExtractOracleBindPlaceholders sql = Inr []"
  by (auto simp: ValidateOracleStatementBinds_def andthen_eq_Inr split: if_split_asm)

lemma checks_well_formed: "checks c = Inr () \<Longrightarrow> well_formed_call c"
proof (cases c)
  case (AdminCall sql)
  moreover assume "checks c = Inr ()"
  ultimately have "ValidateOracleAdmin sql = Inr ()" by simp
  then show ?thesis
    using AdminCall admin_keyword_class no_binds_no_placeholders unfolding ValidateOracleAdmin_Inr by auto
next
  case (BatchCall sql rows)
  assume "checks c = Inr ()"
  then show ?thesis
    using BatchCall batch_rows_length[of "hd rows" "tl rows"] batch_rows_valid[of "hd rows" "tl rows"]
    by (cases rows) (auto simp: ValidateOracleBindBatch_def ValidateOracleDml_def well_formed_dml_def andthen_eq_Inr split: if_splits)
qed (auto simp: ValidateOracleQuery_def ValidateOracleDml_def well_formed_dml_def return_bind_check_def andthen_eq_Inr
    split: if_splits option.splits)

lemma validated_call_forwards:
  assumes "validated_call api ready c (inner, w) = ((inner', w'), r)"
  shows "(inner' = inner \<and> w' = w) \<or>
    (\<exists>i r'. inner = Some i \<and> checks c = Inr () \<and> invoke api i c w = (w', r') \<and> inner' \<in> {inner, None})"
  using assms
  by (auto simp: validated_call_def after_def lifting_def forward_def Inner_def split: if_splits option.splits sum.splits prod.splits)

section \<open>Property\<close>

text \<open>The same sessions, with a record of the calls they received.\<close>

definition journaled :: "('w, 'r) sessions \<Rightarrow> (journal \<times> 'w, 'r) sessions" where
  "journaled api = \<lparr>
     invoke = (\<lambda>s c (log, w). case invoke api s c w of (w', r) \<Rightarrow> ((log @ [(s, c)], w'), r)),
     ReadyForReuse = (\<lambda>s (log, w). case ReadyForReuse api s w of (w', r) \<Rightarrow> ((log, w'), r)),
     BindIoDeadline = (\<lambda>s d (log, w). case BindIoDeadline api s d w of (w', r) \<Rightarrow> ((log, w'), r))\<rparr>"

lemma journaled_invoke:
  "invoke (journaled api) i c (log, w) = ((log', w'), r) \<Longrightarrow> log' = log @ [(i, c)]"
  by (auto simp: journaled_def split: prod.splits)

lemma validated_calls_log:
  assumes "validated_calls (journaled api) ready cs (inner, (log, w)) = (inner', (log', w'))"
  shows "\<exists>sent. log' = log @ map (\<lambda>c. (the inner, c)) sent \<and> subseq sent cs \<and> list_all well_formed_call sent \<and>
    (inner = None \<longrightarrow> sent = [])"
  using assms
proof (induction cs arbitrary: inner log w)
  case (Cons c cs)
  obtain inner1 log1 w1 r where c: "validated_call (journaled api) ready c (inner, (log, w)) = ((inner1, (log1, w1)), r)"
    by (metis prod.exhaust_sel)
  with Cons.prems have "validated_calls (journaled api) ready cs (inner1, (log1, w1)) = (inner', (log', w'))"
    by simp
  from Cons.IH[OF this] obtain sent where s: "log' = log1 @ map (\<lambda>c. (the inner1, c)) sent" "subseq sent cs"
    "list_all well_formed_call sent" "inner1 = None \<longrightarrow> sent = []" by blast
  from validated_call_forwards[OF c] show ?case
  proof
    assume "inner1 = inner \<and> (log1, w1) = (log, w)"
    with s show ?thesis by (intro exI[of _ sent]) (auto intro: list_emb_Cons)
  next
    assume "\<exists>i r'. inner = Some i \<and> checks c = Inr () \<and> invoke (journaled api) i c (log, w) = ((log1, w1), r') \<and>
      inner1 \<in> {inner, None}"
    then obtain i r' where inv: "inner = Some i" "checks c = Inr ()"
      "invoke (journaled api) i c (log, w) = ((log1, w1), r')" "inner1 \<in> {inner, None}"
      by blast
    note i = inv(1,2) journaled_invoke[OF inv(3)] inv(4)
    have "log' = log @ map (\<lambda>c. (the inner, c)) (c # sent)"
    proof (cases "inner1 = inner")
      case False
      with i(4) s(4) show ?thesis unfolding s(1) i(3) i(1) by simp
    qed (simp add: s(1) i(1,3))
    moreover have "subseq (c # sent) (c # cs)" "list_all well_formed_call (c # sent)"
      using s(2,3) checks_well_formed[OF i(2)] by simp_all
    ultimately show ?thesis using i(1) by blast
  qed
qed simp

text \<open>
  C11. The wrapped session sees only checked calls. Whatever calls a client makes and however the wrapped session answers, the calls
  it receives are a subsequence of the client's, in order. A query, a DML statement (alone, for its row count, or as a batch) and an
  administrative statement among them is one statement of the class the method is for, without terminators, whose placeholders are
  exactly its binds, in a batch those of the first row, which every other row matches; of a procedure call the block can be built and the arguments and the
  return bind are valid; of an \<^verbatim>\<open>ExecuteReturning\<close> the binds are valid. Its statement text is not looked at, which
  \<open>returning_text_unchecked\<close> below shows, so nothing is claimed of it.
\<close>

theorem inner_session_sees_valid_calls:
  assumes "validated_calls (journaled api) ready cs (Some i, ([], w)) = (inner', (log, w'))"
  shows "\<exists>sent. log = map (\<lambda>c. (i, c)) sent \<and> subseq sent cs \<and> list_all well_formed_call sent"
  using validated_calls_log[OF assms] by auto

lemma inner_session_sees_valid_calls_witness:
  "\<exists>sent. [(7, QueryCall ''select :a from t'' [sample_bind ''A'']), (7, CloseSessionCall)] = map (\<lambda>c. (7::nat, c)) sent \<and>
    subseq sent [QueryCall ''select :a from t'' [sample_bind ''A''], QueryCall ''select 1; commit'' [], CloseSessionCall, CommitCall] \<and>
    list_all well_formed_call sent"
proof (rule inner_session_sees_valid_calls)
  show "validated_calls (journaled (recording (\<lambda>s c. False))) ()
      [QueryCall ''select :a from t'' [sample_bind ''A''], QueryCall ''select 1; commit'' [], CloseSessionCall, CommitCall]
      (Some 7, ([], [])) =
    (None, ([(7, QueryCall ''select :a from t'' [sample_bind ''A'']), (7, CloseSessionCall)],
      [(7, QueryCall ''select :a from t'' [sample_bind ''A'']), (7, CloseSessionCall)]))"
    by (simp add: validated_call_def after_def lifting_def forward_def Inner_def journaled_def recording_def
        ValidateOracleQuery_def RejectStatementTerminators.simps ClassifyOracleSql_def FirstKeyword_def SkipTrivia.simps
        ValidateOracleStatementBinds_def ValidateOracleBinds_def sample_bind_def isspace_def sql_eval)
qed

text \<open>Two statements, neither of them DML, reach the wrapped session through \<^verbatim>\<open>ExecuteReturning\<close>.\<close>

lemma returning_text_unchecked:
  "validated_call (recording (\<lambda>s c. False)) () (ReturningCall ''select 1; commit'' []) (Some 7, []) =
     ((Some 7, [(7, ReturningCall ''select 1; commit'' [])]), Inr ())"
  by (simp add: validated_call_def after_def lifting_def forward_def Inner_def recording_def ValidateOracleBinds_def)

end
