(* ===== verification/State_Machine.thy ===== *)
theory State_Machine
  imports Prelude
begin

text \<open>
  Histories of an object used by several threads. An operation, or each of its critical sections
  when it releases the lock in between, is a step; a state is reachable when some sequence of
  steps leads to it from an initial state. The locale is the contract between a step relation and
  its invariant; every concurrent component interprets it.
\<close>

definition reachable :: "('s \<Rightarrow> bool) \<Rightarrow> ('s \<Rightarrow> 's \<Rightarrow> bool) \<Rightarrow> 's \<Rightarrow> bool" where
  "reachable start step s \<longleftrightarrow> (\<exists>s0. start s0 \<and> step\<^sup>*\<^sup>* s0 s)"

lemma reachable_start: "start s \<Longrightarrow> reachable start step s"
  by (auto simp: reachable_def)

lemma reachable_step: "\<lbrakk>reachable start step s; step s s'\<rbrakk> \<Longrightarrow> reachable start step s'"
  unfolding reachable_def by (meson rtranclp.rtrancl_into_rtrancl)

locale guarded_machine =
  fixes start :: "'s \<Rightarrow> bool" and step :: "'s \<Rightarrow> 's \<Rightarrow> bool" and inv :: "'s \<Rightarrow> bool"
  assumes start_inv: "start s \<Longrightarrow> inv s"
    and step_inv: "\<lbrakk>step s s'; inv s\<rbrakk> \<Longrightarrow> inv s'"
begin

lemma steps_inv: "\<lbrakk>step\<^sup>*\<^sup>* s s'; inv s\<rbrakk> \<Longrightarrow> inv s'"
  by (induction rule: rtranclp_induct) (auto intro: step_inv)

lemma always: "reachable start step s \<Longrightarrow> inv s"
  unfolding reachable_def using start_inv steps_inv by blast

text \<open>What is monotone along every step from a state that satisfies the invariant stays so.\<close>

lemma steps_mono:
  assumes "step\<^sup>*\<^sup>* s s'" "inv s" "\<And>a b. \<lbrakk>inv a; step a b; P s a\<rbrakk> \<Longrightarrow> P s b" "P s s"
  shows "P s s'"
proof -
  from assms(1) have "inv s' \<and> P s s'"
    by (induction rule: rtranclp_induct) (use assms(2,4) step_inv assms(3) in auto)
  then show ?thesis ..
qed

end

end
