(* ===== verification/Transaction.thy ===== *)
theory Transaction
  imports State_Machine Session_Interface
begin

text \<open>
  \<^verbatim>\<open>src/transaction.cpp\<close>: one transaction pins one session and ends once. \<^verbatim>\<open>Commit\<close> and
  \<^verbatim>\<open>Rollback\<close> give up the lock while the session talks to the server, so they are split at
  the lock: the sections are definitions of their own, the methods compose them, and the
  histories interleave the sections of any number of threads.
\<close>

section \<open>State and operations\<close>

datatype transaction_state = ACTIVE | COMMITTING | ROLLING_BACK | COMMITTED | ROLLED_BACK | TX_POISONED

record transaction =
  tx_state :: transaction_state
  write_catalog :: string
  write_session :: "nat option"

definition OracleTransaction :: transaction where
  "OracleTransaction = \<lparr>tx_state = ACTIVE, write_catalog = [], write_session = None\<rparr>"

definition RequireActive :: "transaction \<Rightarrow> unit result" where
  "RequireActive t = (if tx_state t \<noteq> ACTIVE then throw INVALID_STATE else Inr ())"

definition RegisterWrite :: "string \<Rightarrow> nat option \<Rightarrow> (transaction, nat) action" where
  "RegisterWrite catalog session t =
     (case RequireActive t of
        Inl e \<Rightarrow> (t, Inl e)
      | Inr _ \<Rightarrow>
          (case session of
             None \<Rightarrow> (t, throw MALFORMED)
           | Some s \<Rightarrow>
               if catalog = [] then (t, throw MALFORMED)
               else if write_catalog t \<noteq> [] \<and> write_catalog t \<noteq> catalog then (t, throw UNSUPPORTED)
               else case write_session t of
                   None \<Rightarrow> (t\<lparr>write_catalog := catalog, write_session := Some s\<rparr>, Inr s)
                 | Some pinned \<Rightarrow> if pinned \<noteq> s then (t, throw INVALID_STATE) else (t, Inr pinned)))"

datatype ending = COMMIT | ROLLBACK

fun ending_call :: "ending \<Rightarrow> session_call" where
  "ending_call COMMIT = CommitCall"
| "ending_call ROLLBACK = RollbackCall"

fun in_progress :: "ending \<Rightarrow> transaction_state" where
  "in_progress COMMIT = COMMITTING"
| "in_progress ROLLBACK = ROLLING_BACK"

fun final_state :: "ending \<Rightarrow> transaction_state" where
  "final_state COMMIT = COMMITTED"
| "final_state ROLLBACK = ROLLED_BACK"

text \<open>The first locked section of \<^verbatim>\<open>Commit\<close> or \<^verbatim>\<open>Rollback\<close>, and the last.\<close>

definition begin_end :: "ending \<Rightarrow> (transaction, nat option) action" where
  "begin_end k t =
     (case RequireActive t of
        Inl e \<Rightarrow> (t, Inl e)
      | Inr _ \<Rightarrow> (t\<lparr>tx_state := in_progress k\<rparr>, Inr (write_session t)))"

definition finish_end :: "ending \<Rightarrow> transaction \<Rightarrow> transaction" where
  "finish_end k t = t\<lparr>tx_state := final_state k, write_session := None\<rparr>"

definition PoisonTransaction :: "transaction \<Rightarrow> transaction" where
  "PoisonTransaction t = t\<lparr>tx_state := TX_POISONED\<rparr>"

definition EndTransaction :: "('w, 'r) sessions \<Rightarrow> ending \<Rightarrow> (transaction \<times> 'w, unit) action" where
  "EndTransaction api k = (\<lambda>(t, w).
     case begin_end k t of
       (t, Inl e) \<Rightarrow> ((t, w), Inl e)
     | (t, Inr None) \<Rightarrow> ((finish_end k t, w), Inr ())
     | (t, Inr (Some s)) \<Rightarrow>
         (case invoke api s (ending_call k) w of
            (w, Inr _) \<Rightarrow> ((finish_end k t, w), Inr ())
          | (w, Inl e) \<Rightarrow> ((PoisonTransaction t, CloseQuietly api (Some s) w), Inl e)))"

definition Commit :: "('w, 'r) sessions \<Rightarrow> (transaction \<times> 'w, unit) action" where
  "Commit api = EndTransaction api COMMIT"

definition Rollback :: "('w, 'r) sessions \<Rightarrow> (transaction \<times> 'w, unit) action" where
  "Rollback api = EndTransaction api ROLLBACK"

text \<open>
  The destructor: an active transaction that wrote is rolled back, and its session closed when
  that fails. Its locked section yields the session to roll back.
\<close>

definition abandon :: "transaction \<Rightarrow> transaction \<times> nat option" where
  "abandon t =
     (if tx_state t \<noteq> ACTIVE \<or> write_session t = None then (t, None)
      else (t\<lparr>tx_state := ROLLED_BACK, write_session := None\<rparr>, write_session t))"

definition DestroyTransaction :: "('w, 'r) sessions \<Rightarrow> transaction \<times> 'w \<Rightarrow> transaction \<times> 'w" where
  "DestroyTransaction api = (\<lambda>(t, w).
     case abandon t of
       (t, None) \<Rightarrow> (t, w)
     | (t, Some s) \<Rightarrow>
         (case invoke api s RollbackCall w of
            (w, Inr _) \<Rightarrow> (t, w)
          | (w, Inl _) \<Rightarrow> (t, CloseQuietly api (Some s) w)))"

definition WriteCatalog :: "transaction \<Rightarrow> string" where
  "WriteCatalog t = write_catalog t"

section \<open>Histories\<close>

text \<open>
  A thread inside \<^verbatim>\<open>Commit\<close> or \<^verbatim>\<open>Rollback\<close> has begun, or has the session's answer. The log
  holds every call that ended a transaction on a session, with its outcome; \<open>sessions_used\<close>
  every session a caller registered successfully.
\<close>

datatype ending_thread = Begun ending "nat option" | Answered ending "nat option" bool

record transaction_system =
  txn :: transaction
  threads :: "ending_thread list"
  ending_log :: "(nat \<times> session_call \<times> bool) list"
  sessions_used :: "nat set"
  destroyed :: bool

inductive transaction_step :: "transaction_system \<Rightarrow> transaction_system \<Rightarrow> bool" where
  tx_register:
    "\<lbrakk>\<not> destroyed s; RegisterWrite catalog session (txn s) = (t, res)\<rbrakk> \<Longrightarrow>
     transaction_step s (s\<lparr>txn := t, sessions_used := sessions_used s \<union> (case res of Inl _ \<Rightarrow> {} | Inr i \<Rightarrow> {i})\<rparr>)"
| tx_begin:
    "\<lbrakk>\<not> destroyed s; begin_end k (txn s) = (t, Inr session)\<rbrakk> \<Longrightarrow>
     transaction_step s (s\<lparr>txn := t, threads := Begun k session # threads s\<rparr>)"
| tx_answer:
    "\<lbrakk>\<not> destroyed s; threads s = xs @ Begun k (Some i) # ys\<rbrakk> \<Longrightarrow>
     transaction_step s (s\<lparr>threads := xs @ Answered k (Some i) ok # ys, ending_log := ending_log s @ [(i, ending_call k, ok)]\<rparr>)"
| tx_no_session:
    "\<lbrakk>\<not> destroyed s; threads s = xs @ Begun k None # ys\<rbrakk> \<Longrightarrow>
     transaction_step s (s\<lparr>threads := xs @ Answered k None True # ys\<rparr>)"
| tx_finish:
    "\<lbrakk>\<not> destroyed s; threads s = xs @ Answered k session True # ys\<rbrakk> \<Longrightarrow>
     transaction_step s (s\<lparr>txn := finish_end k (txn s), threads := xs @ ys\<rparr>)"
| tx_failed:
    "\<lbrakk>\<not> destroyed s; threads s = xs @ Answered k session False # ys\<rbrakk> \<Longrightarrow>
     transaction_step s (s\<lparr>txn := PoisonTransaction (txn s), threads := xs @ ys\<rparr>)"
| tx_poison:
    "\<not> destroyed s \<Longrightarrow> transaction_step s (s\<lparr>txn := PoisonTransaction (txn s)\<rparr>)"
| tx_destroy:
    "\<lbrakk>\<not> destroyed s; threads s = []; abandon (txn s) = (t, session)\<rbrakk> \<Longrightarrow>
     transaction_step s (s\<lparr>txn := t, destroyed := True,
       ending_log := ending_log s @ (case session of None \<Rightarrow> [] | Some i \<Rightarrow> [(i, RollbackCall, ok)])\<rparr>)"

definition fresh_transaction :: "transaction_system \<Rightarrow> bool" where
  "fresh_transaction s \<longleftrightarrow>
     s = \<lparr>txn = OracleTransaction, threads = [], ending_log = [], sessions_used = {}, destroyed = False\<rparr>"

section \<open>Invariant\<close>

text \<open>
  While the transaction is active no thread is ending it and nothing was sent. Once it is not,
  at most one thread is ending it, and the log holds that thread's call, or the call of the thread
  that finished, and nothing else; a finished thread left the state its call earned, unless
  somebody poisoned it afterwards.
\<close>

fun thread_log :: "ending_thread \<Rightarrow> (nat \<times> session_call \<times> bool) list" where
  "thread_log (Begun k session) = []"
| "thread_log (Answered k None ok) = []"
| "thread_log (Answered k (Some i) ok) = [(i, ending_call k, ok)]"

fun thread_session :: "ending_thread \<Rightarrow> nat option" where
  "thread_session (Begun k session) = session"
| "thread_session (Answered k session ok) = session"

definition pinned :: "transaction_system \<Rightarrow> bool" where
  "pinned s \<longleftrightarrow> (\<forall>i. write_session (txn s) = Some i \<longrightarrow> sessions_used s = {i}) \<and>
     (tx_state (txn s) = ACTIVE \<longrightarrow> write_session (txn s) = None \<longrightarrow> sessions_used s = {}) \<and>
     (\<exists>i. sessions_used s \<subseteq> {i})"

definition log_ok :: "transaction_system \<Rightarrow> bool" where
  "log_ok s \<longleftrightarrow> length (ending_log s) \<le> 1 \<and> (\<forall>(i, c, ok)\<in>set (ending_log s). i \<in> sessions_used s) \<and>
     (tx_state (txn s) = ACTIVE \<longrightarrow> ending_log s = []) \<and>
     (tx_state (txn s) = COMMITTED \<longrightarrow> (\<forall>i\<in>sessions_used s. ending_log s = [(i, CommitCall, True)])) \<and>
     (tx_state (txn s) = ROLLED_BACK \<longrightarrow> (\<forall>i\<in>sessions_used s. (i, RollbackCall) \<in> (\<lambda>(i, c, ok). (i, c)) ` set (ending_log s)))"

definition threads_ok :: "transaction_system \<Rightarrow> bool" where
  "threads_ok s \<longleftrightarrow>
     (case threads s of
        [] \<Rightarrow> tx_state (txn s) \<notin> {COMMITTING, ROLLING_BACK}
      | [t] \<Rightarrow> tx_state (txn s) \<notin> {ACTIVE, COMMITTED, ROLLED_BACK} \<and> ending_log s = thread_log t \<and>
               (thread_session t = None \<longrightarrow> sessions_used s = {}) \<and> (\<forall>i. thread_session t = Some i \<longrightarrow> i \<in> sessions_used s) \<and>
               (\<forall>k. t \<noteq> Answered k None False)
      | _ \<Rightarrow> False)"

definition transaction_ok :: "transaction_system \<Rightarrow> bool" where
  "transaction_ok s \<longleftrightarrow> pinned s \<and> log_ok s \<and> threads_ok s"

lemma threads_single:
  "\<lbrakk>threads_ok s; threads s = xs @ t # ys\<rbrakk> \<Longrightarrow> xs = [] \<and> ys = []"
  by (cases xs; cases "tl xs"; cases ys) (auto simp: threads_ok_def)

lemma RegisterWrite_cases:
  assumes "RegisterWrite catalog session t = (t', res)"
  obtains (refused) e where "t' = t" "res = Inl e"
    | (again) i where "t' = t" "res = Inr i" "tx_state t = ACTIVE" "write_session t = Some i" "session = Some i"
    | (pins) i where "t' = t\<lparr>write_catalog := catalog, write_session := Some i\<rparr>" "res = Inr i" "tx_state t = ACTIVE"
        "write_session t = None" "session = Some i"
  using assms by (auto simp: RegisterWrite_def RequireActive_def split: if_split_asm option.split_asm)

lemma begin_end_Inr:
  "begin_end k t = (t', Inr session) \<longleftrightarrow>
     tx_state t = ACTIVE \<and> t' = t\<lparr>tx_state := in_progress k\<rparr> \<and> session = write_session t"
  by (auto simp: begin_end_def RequireActive_def)

lemma ending_simps [simp]:
  "in_progress k \<noteq> ACTIVE" "in_progress k \<noteq> COMMITTED" "in_progress k \<noteq> ROLLED_BACK"
  "final_state k \<noteq> ACTIVE" "final_state k \<noteq> COMMITTING" "final_state k \<noteq> ROLLING_BACK"
  "final_state k = COMMITTED \<longleftrightarrow> k = COMMIT" "final_state k = ROLLED_BACK \<longleftrightarrow> k = ROLLBACK"
  by (cases k; simp)+

lemma transaction_step_ok: "\<lbrakk>transaction_step s s'; transaction_ok s\<rbrakk> \<Longrightarrow> transaction_ok s'"
proof (induction rule: transaction_step.induct)
  case (tx_register s catalog session t res)
  from tx_register(2) show ?case
  proof (cases rule: RegisterWrite_cases)
    case (refused e)
    with tx_register(3) show ?thesis by simp
  next
    case (again i)
    with tx_register(3) have "sessions_used s = {i}" by (simp add: transaction_ok_def pinned_def)
    then have "s\<lparr>txn := t, sessions_used := sessions_used s \<union> (case res of Inl _ \<Rightarrow> {} | Inr i \<Rightarrow> {i})\<rparr> = s"
      using again by (intro transaction_system.equality) simp_all
    with tx_register(3) show ?thesis by simp
  next
    case (pins i)
    with tx_register(3) have "sessions_used s = {}" "threads s = []" "ending_log s = []"
      by (auto simp: transaction_ok_def pinned_def log_ok_def threads_ok_def split: list.splits)
    with pins show ?thesis by (simp add: transaction_ok_def pinned_def log_ok_def threads_ok_def)
  qed
next
  case (tx_begin s k t session)
  then have "tx_state (txn s) = ACTIVE" "t = txn s\<lparr>tx_state := in_progress k\<rparr>" "session = write_session (txn s)"
    by (simp_all add: begin_end_Inr)
  moreover from this tx_begin(3) have "threads s = []" "ending_log s = []"
    by (auto simp: transaction_ok_def log_ok_def threads_ok_def split: list.splits)
  moreover have "pinned s" using tx_begin(3) by (simp add: transaction_ok_def)
  ultimately show ?case
    by (cases "write_session (txn s)") (simp_all add: transaction_ok_def pinned_def log_ok_def threads_ok_def)
next
  case (tx_answer s xs k i ys ok)
  then have "xs = []" "ys = []" using threads_single by (auto simp: transaction_ok_def)
  with tx_answer show ?case by (auto simp: transaction_ok_def pinned_def log_ok_def threads_ok_def)
next
  case (tx_no_session s xs k ys)
  then have "xs = []" "ys = []" using threads_single by (auto simp: transaction_ok_def)
  with tx_no_session show ?case by (auto simp: transaction_ok_def pinned_def log_ok_def threads_ok_def)
next
  case (tx_finish s xs k session ys)
  then have "xs = []" "ys = []" using threads_single by (auto simp: transaction_ok_def)
  have p: "pinned s" "threads_ok s" "log_ok s" using tx_finish(3) by (simp_all add: transaction_ok_def)
  have t: "threads s = [Answered k session True]" using tx_finish(2) \<open>xs = []\<close> \<open>ys = []\<close> by simp
  show ?case
  proof (cases session)
    case None
    with t p(2) have "sessions_used s = {}" "ending_log s = []" by (simp_all add: threads_ok_def)
    then show ?thesis
      using \<open>xs = []\<close> \<open>ys = []\<close> by (simp add: transaction_ok_def pinned_def log_ok_def threads_ok_def finish_end_def)
  next
    case (Some i)
    with t p have "sessions_used s = {i}" "ending_log s = [(i, ending_call k, True)]"
      by (auto simp: threads_ok_def pinned_def)
    then show ?thesis
      using \<open>xs = []\<close> \<open>ys = []\<close>
      by (cases k) (simp_all add: transaction_ok_def pinned_def log_ok_def threads_ok_def finish_end_def)
  qed
next
  case (tx_failed s xs k session ys)
  then have "xs = []" "ys = []" using threads_single by (auto simp: transaction_ok_def)
  with tx_failed show ?case
    by (cases session) (auto simp: transaction_ok_def pinned_def log_ok_def threads_ok_def PoisonTransaction_def)
next
  case (tx_poison s)
  then show ?case
    by (auto simp: transaction_ok_def pinned_def log_ok_def threads_ok_def PoisonTransaction_def split: list.splits)
next
  case (tx_destroy s t session ok)
  then show ?case
    by (auto simp: transaction_ok_def pinned_def log_ok_def threads_ok_def abandon_def split: if_splits)
qed

interpretation tx: guarded_machine fresh_transaction transaction_step transaction_ok
proof
  show "transaction_ok s" if "fresh_transaction s" for s
    using that by (simp add: fresh_transaction_def OracleTransaction_def transaction_ok_def pinned_def log_ok_def threads_ok_def)
qed (rule transaction_step_ok)

section \<open>Properties\<close>

text \<open>
  C10. A transaction ends at most once, on one session: however the threads interleave, all writes
  were registered on one session, at most one commit or rollback was ever sent, it went to that
  session, nothing was sent while the transaction is active, and a transaction that says it is
  committed had its session's commit succeed.
\<close>

theorem transaction_ends_once:
  assumes "reachable fresh_transaction transaction_step s"
  shows "length (ending_log s) \<le> 1 \<and> (\<exists>i. sessions_used s \<subseteq> {i}) \<and>
    (\<forall>(i, c, ok)\<in>set (ending_log s). i \<in> sessions_used s) \<and>
    (tx_state (txn s) = ACTIVE \<longrightarrow> ending_log s = []) \<and>
    (tx_state (txn s) = COMMITTED \<longrightarrow> (\<forall>i\<in>sessions_used s. ending_log s = [(i, CommitCall, True)]))"
  using tx.always[OF assms] by (simp add: transaction_ok_def pinned_def log_ok_def)

definition committed_system :: transaction_system where
  "committed_system = \<lparr>txn = \<lparr>tx_state = COMMITTED, write_catalog = ''c'', write_session = None\<rparr>, threads = [],
     ending_log = [(5, CommitCall, True)], sessions_used = {5}, destroyed = False\<rparr>"

lemma committed_system_reachable: "reachable fresh_transaction transaction_step committed_system"
proof -
  define s0 where "s0 = \<lparr>txn = OracleTransaction, threads = [], ending_log = [], sessions_used = {}, destroyed = False\<rparr>"
  define s1 where "s1 = s0\<lparr>txn := \<lparr>tx_state = ACTIVE, write_catalog = ''c'', write_session = Some 5\<rparr>, sessions_used := {5}\<rparr>"
  define s2 where "s2 = s1\<lparr>txn := (txn s1)\<lparr>tx_state := COMMITTING\<rparr>, threads := [Begun COMMIT (Some 5)]\<rparr>"
  define s3 where "s3 = s2\<lparr>threads := [Answered COMMIT (Some 5) True], ending_log := [(5, CommitCall, True)]\<rparr>"
  note defs = s0_def s1_def s2_def s3_def committed_system_def OracleTransaction_def
  have "reachable fresh_transaction transaction_step s0"
    by (rule reachable_start) (simp add: fresh_transaction_def s0_def)
  moreover have "transaction_step s0 s1"
    using tx_register[of s0 "''c''" "Some 5"] by (simp add: defs RegisterWrite_def RequireActive_def)
  moreover have "transaction_step s1 s2"
    using tx_begin[of s1 COMMIT] by (simp add: defs begin_end_def RequireActive_def)
  moreover have "transaction_step s2 s3"
    using tx_answer[of s2 "[]" COMMIT 5 "[]" True] by (simp add: defs)
  moreover have "transaction_step s3 committed_system"
    using tx_finish[of s3 "[]" COMMIT "Some 5" "[]"] by (simp add: defs finish_end_def)
  ultimately show ?thesis by (meson reachable_step)
qed

lemma transaction_ends_once_witness:
  "tx_state (txn committed_system) = COMMITTED \<and> ending_log committed_system = [(5, CommitCall, True)]"
  using transaction_ends_once[OF committed_system_reachable] by (simp add: committed_system_def)

text \<open>
  C23. What a caller learns from a commit or rollback of an active transaction that has a session: success means the session's call succeeded and
  nothing else was sent; an error means that the transaction is poisoned and its session was told to
  close. Either way the transaction then refuses every write, commit and rollback and sends nothing.
\<close>

theorem ending_outcome:
  assumes "EndTransaction (recording fails) k (t, log) = ((t', log'), res)" "tx_state t = ACTIVE" "write_session t = Some i"
  shows "(case res of
      Inr _ \<Rightarrow> \<not> fails i (ending_call k) \<and> tx_state t' = final_state k \<and> log' = log @ [(i, ending_call k)]
    | Inl e \<Rightarrow> fails i (ending_call k) \<and> tx_state t' = TX_POISONED \<and> log' = log @ [(i, ending_call k), (i, CloseSessionCall)]) \<and>
    (\<forall>catalog session. RegisterWrite catalog session t' = (t', throw INVALID_STATE)) \<and>
    (\<forall>k' fails'. EndTransaction (recording fails') k' (t', log') = ((t', log'), throw INVALID_STATE)) \<and>
    DestroyTransaction (recording fails) (t', log') = (t', log')"
  using assms
  by (cases "fails i (ending_call k)")
    (auto simp: EndTransaction_def begin_end_def RequireActive_def recording_def finish_end_def PoisonTransaction_def
      CloseQuietly_def RegisterWrite_def DestroyTransaction_def abandon_def)

lemma ending_outcome_witness:
  "EndTransaction (recording (\<lambda>s c. c = CommitCall)) COMMIT
     (\<lparr>tx_state = ACTIVE, write_catalog = ''c'', write_session = Some 5\<rparr>, []) =
   ((\<lparr>tx_state = TX_POISONED, write_catalog = ''c'', write_session = Some 5\<rparr>, [(5, CommitCall), (5, CloseSessionCall)]),
    throw INVALID_STATE) \<and>
   RegisterWrite ''c'' (Some 5) \<lparr>tx_state = TX_POISONED, write_catalog = ''c'', write_session = Some 5\<rparr> =
     (\<lparr>tx_state = TX_POISONED, write_catalog = ''c'', write_session = Some 5\<rparr>, throw INVALID_STATE)"
proof -
  have run: "EndTransaction (recording (\<lambda>s c. c = CommitCall)) COMMIT
     (\<lparr>tx_state = ACTIVE, write_catalog = ''c'', write_session = Some 5\<rparr>, []) =
   ((\<lparr>tx_state = TX_POISONED, write_catalog = ''c'', write_session = Some 5\<rparr>, [(5, CommitCall), (5, CloseSessionCall)]),
    throw INVALID_STATE)"
    by (simp add: EndTransaction_def begin_end_def RequireActive_def recording_def PoisonTransaction_def CloseQuietly_def)
  with ending_outcome[OF run] show ?thesis by simp
qed

end
