(* ===== verification/Session_Pool.thy ===== *)
theory Session_Pool
  imports State_Machine Session_Interface
begin

text \<open>
  \<^verbatim>\<open>src/session_pool.cpp\<close>: a bounded pool that lends sessions. \<^verbatim>\<open>Acquire\<close> gives up the lock
  while the factory connects, and \<^verbatim>\<open>Release\<close> of a poisoned session closes it before taking
  the lock, so both are split at the lock. A session is known by the identity of its object.
\<close>

section \<open>State and operations\<close>

record session_pool =
  maximum_sessions :: nat
  live_sessions :: nat
  idle :: "nat list"

definition OracleSessionPool :: "nat \<Rightarrow> bool \<Rightarrow> session_pool result" where
  "OracleSessionPool limit has_factory =
     (if limit = 0 \<or> \<not> has_factory then throw MALFORMED
      else Inr \<lparr>maximum_sessions = limit, live_sessions = 0, idle = []\<rparr>)"

text \<open>What \<^verbatim>\<open>Acquire\<close> does first: the last idle session, or the right to create one.\<close>

definition reserve :: "(session_pool, nat option) action" where
  "reserve p =
     (if idle p \<noteq> [] then (p\<lparr>idle := butlast (idle p)\<rparr>, Inr (Some (last (idle p))))
      else if live_sessions p = maximum_sessions p then (p, throw LIMIT_EXCEEDED)
      else (p\<lparr>live_sessions := live_sessions p + 1\<rparr>, Inr None))"

definition forget :: "session_pool \<Rightarrow> session_pool" where
  "forget p = p\<lparr>live_sessions := size_sub (live_sessions p) 1\<rparr>"

text \<open>What it does with the factory's answer: an exception, null, or a session.\<close>

definition settle :: "nat option result \<Rightarrow> (session_pool, nat) action" where
  "settle made p =
     (case made of
        Inl e \<Rightarrow> (forget p, Inl e)
      | Inr None \<Rightarrow> (forget p, throw INVALID_STATE)
      | Inr (Some s) \<Rightarrow> (p, Inr s))"

definition Acquire :: "('w \<Rightarrow> 'w \<times> nat option result) \<Rightarrow> (session_pool \<times> 'w, nat) action" where
  "Acquire factory = (\<lambda>(p, w).
     case reserve p of
       (p, Inl e) \<Rightarrow> ((p, w), Inl e)
     | (p, Inr (Some s)) \<Rightarrow> ((p, w), Inr s)
     | (p, Inr None) \<Rightarrow>
         (case factory w of (w, made) \<Rightarrow> (case settle made p of (p, res) \<Rightarrow> ((p, w), res))))"

definition put_back :: "nat \<Rightarrow> session_pool \<Rightarrow> session_pool" where
  "put_back s p = p\<lparr>idle := idle p @ [s]\<rparr>"

definition ReleaseSession :: "('w, 'r) sessions \<Rightarrow> nat option \<Rightarrow> bool \<Rightarrow> session_pool \<times> 'w \<Rightarrow> session_pool \<times> 'w" where
  "ReleaseSession api session poisoned = (\<lambda>(p, w).
     case session of
       None \<Rightarrow> (p, w)
     | Some s \<Rightarrow> if poisoned then (forget p, CloseQuietly api (Some s) w) else (put_back s p, w))"

definition IdleCount :: "session_pool \<Rightarrow> nat" where
  "IdleCount p = length (idle p)"

definition LiveCount :: "session_pool \<Rightarrow> nat" where
  "LiveCount p = live_sessions p"

text \<open>The destructor closes the idle sessions and drops their count.\<close>

definition DestroyPool :: "('w, 'r) sessions \<Rightarrow> session_pool \<times> 'w \<Rightarrow> session_pool \<times> 'w" where
  "DestroyPool api = (\<lambda>(p, w).
     (p\<lparr>idle := [], live_sessions := size_sub (live_sessions p) (length (idle p))\<rparr>, CloseEach api (idle p) w))"

subsection \<open>Leases\<close>

record session_lease =
  lease_pool :: bool
  lease_session :: "nat option"
  lease_poisoned :: bool

definition empty_lease :: session_lease where
  "empty_lease = \<lparr>lease_pool = False, lease_session = None, lease_poisoned = False\<rparr>"

definition new_lease :: "nat \<Rightarrow> session_lease" where
  "new_lease s = \<lparr>lease_pool = True, lease_session = Some s, lease_poisoned = False\<rparr>"

definition Get :: "session_lease \<Rightarrow> nat result" where
  "Get l = (case lease_session l of None \<Rightarrow> throw INVALID_STATE | Some s \<Rightarrow> Inr s)"

definition PoisonLease :: "session_lease \<Rightarrow> session_lease" where
  "PoisonLease l = l\<lparr>lease_poisoned := True\<rparr>"

text \<open>Moving from a lease empties its session; a released lease keeps a session it has no pool for.\<close>

definition move_lease :: "session_lease \<Rightarrow> session_lease \<times> session_lease" where
  "move_lease other = (other, other\<lparr>lease_pool := False, lease_session := None, lease_poisoned := False\<rparr>)"

text \<open>
  \<^verbatim>\<open>OracleSessionLease::Release\<close>: what the lease becomes, and the session it gives back, with
  its poison.
\<close>

definition drop_lease :: "session_lease \<Rightarrow> session_lease \<times> (nat \<times> bool) option" where
  "drop_lease l =
     (if lease_pool l \<and> lease_session l \<noteq> None
      then (empty_lease, Some (the (lease_session l), lease_poisoned l))
      else (l\<lparr>lease_pool := False, lease_poisoned := False\<rparr>, None))"

definition LeaseRelease :: "('w, 'r) sessions \<Rightarrow> session_lease \<Rightarrow> session_pool \<times> 'w \<Rightarrow> session_lease \<times> session_pool \<times> 'w" where
  "LeaseRelease api l pw =
     (case drop_lease l of
        (l, None) \<Rightarrow> (l, pw)
      | (l, Some (s, poisoned)) \<Rightarrow> (l, ReleaseSession api (Some s) poisoned pw))"

text \<open>Move assignment of another lease: the own one is released first. It answers both leases.\<close>

definition LeaseAssign ::
    "('w, 'r) sessions \<Rightarrow> session_lease \<Rightarrow> session_lease \<Rightarrow> session_pool \<times> 'w \<Rightarrow> (session_lease \<times> session_lease) \<times> session_pool \<times> 'w" where
  "LeaseAssign api own other pw = (move_lease other, snd (LeaseRelease api own pw))"

section \<open>Histories\<close>

text \<open>
  A state of the pool in use: the leases that exist, the factory calls under way, the poisoned
  sessions that are being closed and still count, and every session the factory ever made. The
  factory makes a new object every time.
\<close>

record pool_system =
  pool :: session_pool
  leases :: "session_lease list"
  creating :: nat
  closing :: nat
  made :: "nat set"

inductive pool_step :: "pool_system \<Rightarrow> pool_system \<Rightarrow> bool" where
  pool_reuse:
    "reserve (pool s) = (p, Inr (Some i)) \<Longrightarrow> pool_step s (s\<lparr>pool := p, leases := new_lease i # leases s\<rparr>)"
| pool_reserve:
    "reserve (pool s) = (p, Inr None) \<Longrightarrow> pool_step s (s\<lparr>pool := p, creating := creating s + 1\<rparr>)"
| pool_created:
    "\<lbrakk>creating s = Suc n; i \<notin> made s; settle (Inr (Some i)) (pool s) = (p, Inr i)\<rbrakk> \<Longrightarrow>
     pool_step s (s\<lparr>pool := p, creating := n, leases := new_lease i # leases s, made := insert i (made s)\<rparr>)"
| pool_not_created:
    "\<lbrakk>creating s = Suc n; settle res (pool s) = (p, Inl e)\<rbrakk> \<Longrightarrow> pool_step s (s\<lparr>pool := p, creating := n\<rparr>)"
| pool_poison:
    "leases s = xs @ l # ys \<Longrightarrow> pool_step s (s\<lparr>leases := xs @ PoisonLease l # ys\<rparr>)"
| pool_release:
    "\<lbrakk>leases s = xs @ l # ys; drop_lease l = (l', Some (i, False))\<rbrakk> \<Longrightarrow>
     pool_step s (s\<lparr>pool := put_back i (pool s), leases := xs @ l' # ys\<rparr>)"
| pool_release_poisoned:
    "\<lbrakk>leases s = xs @ l # ys; drop_lease l = (l', Some (i, True))\<rbrakk> \<Longrightarrow>
     pool_step s (s\<lparr>leases := xs @ l' # ys, closing := closing s + 1\<rparr>)"
| pool_release_empty:
    "\<lbrakk>leases s = xs @ l # ys; drop_lease l = (l', None)\<rbrakk> \<Longrightarrow> pool_step s (s\<lparr>leases := xs @ l' # ys\<rparr>)"
| pool_closed:
    "closing s = Suc n \<Longrightarrow> pool_step s (s\<lparr>pool := forget (pool s), closing := n\<rparr>)"
| pool_move:
    "\<lbrakk>leases s = xs @ l # ys; move_lease l = (new, old)\<rbrakk> \<Longrightarrow> pool_step s (s\<lparr>leases := new # xs @ old # ys\<rparr>)"

definition fresh_pool :: "nat \<Rightarrow> pool_system \<Rightarrow> bool" where
  "fresh_pool limit s \<longleftrightarrow> OracleSessionPool limit True = Inr (pool s) \<and>
     leases s = [] \<and> creating s = 0 \<and> closing s = 0 \<and> made s = {}"

section \<open>Invariant\<close>

text \<open>
  The sessions on lease and the idle ones are different objects, the factory made them all, and the
  live count is exactly what exists, is being made or is being closed.
\<close>

definition leased :: "session_lease list \<Rightarrow> nat list" where
  "leased ls = List.map_filter lease_session ls"

definition pool_ok :: "nat \<Rightarrow> pool_system \<Rightarrow> bool" where
  "pool_ok limit s \<longleftrightarrow> maximum_sessions (pool s) = limit \<and> live_sessions (pool s) \<le> limit \<and>
     live_sessions (pool s) = length (idle (pool s)) + length (leased (leases s)) + creating s + closing s \<and>
     distinct (idle (pool s) @ leased (leases s)) \<and>
     set (idle (pool s) @ leased (leases s)) \<subseteq> made s \<and>
     (\<forall>l\<in>set (leases s). lease_pool l \<longleftrightarrow> lease_session l \<noteq> None)"

lemma leased_simps [simp]:
  "leased [] = []"
  "leased (xs @ ys) = leased xs @ leased ys"
  "leased (l # ls) = (case lease_session l of None \<Rightarrow> leased ls | Some i \<Rightarrow> i # leased ls)"
  by (simp_all add: leased_def List.map_filter_def split: option.split)

lemma leased_new [simp]: "lease_session (new_lease i) = Some i" "lease_pool (new_lease i)"
  by (simp_all add: new_lease_def)

lemma reserve_cases:
  assumes "reserve p = (p', Inr res)"
  obtains (reused) i where "res = Some i" "idle p = idle p' @ [i]" "live_sessions p' = live_sessions p"
      "maximum_sessions p' = maximum_sessions p"
    | (reserved) "res = None" "idle p = []" "idle p' = []" "live_sessions p' = live_sessions p + 1" "live_sessions p \<noteq> maximum_sessions p"
      "maximum_sessions p' = maximum_sessions p"
  using assms by (cases "idle p" rule: rev_cases) (auto simp: reserve_def split: if_split_asm)

lemma pool_step_ok: "\<lbrakk>pool_step s s'; pool_ok limit s\<rbrakk> \<Longrightarrow> pool_ok limit s'"
proof (induction rule: pool_step.induct)
  case (pool_reuse s p i)
  from pool_reuse(1) show ?case
    by (cases rule: reserve_cases) (use pool_reuse(2) in \<open>auto simp: pool_ok_def\<close>)
next
  case (pool_reserve s p)
  from pool_reserve(1) show ?case
    by (cases rule: reserve_cases) (use pool_reserve(2) in \<open>auto simp: pool_ok_def\<close>)
next
  case (pool_created s n i p)
  then show ?case by (auto simp: pool_ok_def settle_def)
next
  case (pool_not_created s n res p e)
  then show ?case by (auto simp: pool_ok_def settle_def forget_def split: sum.splits option.splits)
next
  case (pool_poison s xs l ys)
  then show ?case by (auto simp: pool_ok_def PoisonLease_def)
next
  case (pool_release s xs l ys l' i)
  then show ?case by (auto simp: pool_ok_def drop_lease_def empty_lease_def put_back_def split: if_split_asm)
next
  case (pool_release_poisoned s xs l ys l' i)
  then show ?case by (auto simp: pool_ok_def drop_lease_def empty_lease_def split: if_split_asm)
next
  case (pool_release_empty s xs l ys l')
  then show ?case by (auto simp: pool_ok_def drop_lease_def split: if_split_asm)
next
  case (pool_closed s n)
  then show ?case by (auto simp: pool_ok_def forget_def)
next
  case (pool_move s xs l ys new old)
  then show ?case by (auto simp: pool_ok_def move_lease_def split: option.splits)
qed

interpretation lending: guarded_machine "fresh_pool limit" pool_step "pool_ok limit" for limit
proof
  show "pool_ok limit s" if "fresh_pool limit s" for s
    using that by (auto simp: fresh_pool_def pool_ok_def OracleSessionPool_def split: if_split_asm dest!: sym[of _ "pool s"])
qed (rule pool_step_ok)

section \<open>Properties\<close>

text \<open>
  C12. A session is never lent twice and the pool never grows past its limit: in every reachable
  state the idle sessions and those of the leases are pairwise different objects, and the live count
  is at most the limit.
\<close>

theorem sessions_lent_once:
  assumes "reachable (fresh_pool limit) pool_step s"
  shows "LiveCount (pool s) \<le> limit \<and> distinct (idle (pool s) @ leased (leases s)) \<and>
    IdleCount (pool s) + length (leased (leases s)) \<le> LiveCount (pool s)"
  using lending.always[OF assms] by (simp add: pool_ok_def LiveCount_def IdleCount_def)

definition busy_pool :: pool_system where
  "busy_pool = \<lparr>pool = \<lparr>maximum_sessions = 1, live_sessions = 1, idle = []\<rparr>, leases = [new_lease 7],
     creating = 0, closing = 0, made = {7}\<rparr>"

lemma busy_pool_reachable: "reachable (fresh_pool 1) pool_step busy_pool"
proof -
  define s0 where "s0 = \<lparr>pool = \<lparr>maximum_sessions = 1, live_sessions = 0, idle = []\<rparr>, leases = [],
     creating = 0, closing = 0, made = {}\<rparr>"
  define s1 where "s1 = s0\<lparr>pool := \<lparr>maximum_sessions = 1, live_sessions = 1, idle = []\<rparr>, creating := 1\<rparr>"
  note defs = s0_def s1_def busy_pool_def
  have "reachable (fresh_pool 1) pool_step s0"
    by (rule reachable_start) (simp add: fresh_pool_def s0_def OracleSessionPool_def)
  moreover have "pool_step s0 s1"
    using pool_reserve[of s0] by (simp add: defs reserve_def)
  moreover have "pool_step s1 busy_pool"
    using pool_created[of s1 0 7] by (simp add: defs settle_def)
  ultimately show ?thesis by (meson reachable_step)
qed

lemma sessions_lent_once_witness: "LiveCount (pool busy_pool) \<le> 1 \<and> leased (leases busy_pool) = [7]"
  using sessions_lent_once[OF busy_pool_reachable] by (simp add: busy_pool_def)

text \<open>
  C24. The pool refuses only when it is full: in a reachable state with a leased, created or closing
  session fewer than the limit, asking for a session gives an idle one or the right to create one;
  and it refuses exactly when every session it may have is leased, being created or being closed.
\<close>

theorem refused_only_when_full:
  assumes "reachable (fresh_pool limit) pool_step s"
  shows "snd (reserve (pool s)) = throw LIMIT_EXCEEDED \<longleftrightarrow>
    length (leased (leases s)) + creating s + closing s = limit"
proof -
  have "maximum_sessions (pool s) = limit" "live_sessions (pool s) \<le> limit"
    "live_sessions (pool s) = length (idle (pool s)) + length (leased (leases s)) + creating s + closing s"
    using lending.always[OF assms] by (simp_all add: pool_ok_def)
  then show ?thesis by (cases "idle (pool s)") (auto simp: reserve_def)
qed

lemma refused_only_when_full_witness: "snd (reserve (pool busy_pool)) = throw LIMIT_EXCEEDED"
  using refused_only_when_full[OF busy_pool_reachable] by (simp add: busy_pool_def)

end
