(* ===== verification/Transaction_Session_Pool.thy ===== *)
theory Transaction_Session_Pool
  imports State_Machine Session_Interface "HOL-Library.Sublist"
begin

text \<open>
  \<^verbatim>\<open>src/transaction_session_pool.cpp\<close>: the idle sessions kept between the transactions of one
  attached catalog. \<^verbatim>\<open>Acquire\<close> probes an idle session without the lock; the operations are
  given as their locked sections, composed by the methods and interleaved in the histories.
\<close>

section \<open>State\<close>

record pool_counters =
  opened :: u64
  reused :: u64
  returned :: u64
  closed_count :: u64
  probe_failures :: u64
  idle_count :: nat
  leased_count :: nat

text \<open>Times are points of a steady clock; the list of idle sessions is oldest first.\<close>

record txn_pool =
  maximum_idle :: nat
  maximum_idle_time :: int
  pool_closed :: bool
  idle_sessions :: "(nat \<times> int) list"
  counters :: pool_counters

definition no_counts :: pool_counters where
  "no_counts = \<lparr>opened = 0, reused = 0, returned = 0, closed_count = 0, probe_failures = 0, idle_count = 0, leased_count = 0\<rparr>"

definition OracleTransactionSessionPool :: "nat \<Rightarrow> int \<Rightarrow> bool \<Rightarrow> txn_pool result" where
  "OracleTransactionSessionPool limit idle_time callable =
     (if \<not> callable then throw INVALID_STATE
      else Inr \<lparr>maximum_idle = limit, maximum_idle_time = idle_time, pool_closed = False, idle_sessions = [], counters = no_counts\<rparr>)"

text \<open>
  What the pool is given: the methods of sessions and, as further fields, the opener (told which
  deadline to read), the probe and the clock.
\<close>

record ('w, 'r) pool_environment = "('w, 'r) sessions" +
  opener :: "nat option \<Rightarrow> 'w \<Rightarrow> 'w \<times> nat option result"
  probe :: "nat \<Rightarrow> 'w \<Rightarrow> 'w \<times> unit result"
  clock :: "'w \<Rightarrow> 'w \<times> int"

text \<open>
  The default probe, on a session whose cursors answer \<^verbatim>\<open>Fetch(1)\<close> with a number of rows.
\<close>

definition SelectFromDual ::
    "('w, 'r) sessions \<Rightarrow> ('r \<Rightarrow> nat \<Rightarrow> 'w \<Rightarrow> 'w \<times> nat result) \<Rightarrow> ('r \<Rightarrow> 'w \<Rightarrow> 'w \<times> unit result) \<Rightarrow>
     nat \<Rightarrow> ('w, unit) action" where
  "SelectFromDual api fetch close_cursor session =
     after (invoke api session (QueryCall ''SELECT 1 FROM DUAL'' [])) (\<lambda>cursor.
     after (fetch cursor 1) (\<lambda>rows.
       if rows \<noteq> 1 then failing MALFORMED else close_cursor cursor))"

section \<open>Locked sections\<close>

abbreviation count :: "(pool_counters \<Rightarrow> pool_counters) \<Rightarrow> txn_pool \<Rightarrow> txn_pool" where
  "count f p \<equiv> p\<lparr>counters := f (counters p)\<rparr>"

definition TakeExpiredLocked :: "int \<Rightarrow> txn_pool \<Rightarrow> txn_pool \<times> nat list" where
  "TakeExpiredLocked now p =
     (let expired = map fst (filter (\<lambda>(_, since). now - since > maximum_idle_time p) (idle_sessions p));
          p = p\<lparr>idle_sessions := filter (\<lambda>(_, since). \<not> now - since > maximum_idle_time p) (idle_sessions p)\<rparr>
      in (count (\<lambda>c. c\<lparr>closed_count := closed_count c + of_nat (length expired), idle_count := length (idle_sessions p)\<rparr>) p,
          expired))"

definition take_candidate :: "int \<Rightarrow> txn_pool \<Rightarrow> txn_pool \<times> nat option \<times> nat list" where
  "take_candidate now p =
     (case TakeExpiredLocked now p of (p, expired) \<Rightarrow>
        if idle_sessions p = [] then (p, None, expired)
        else
          let candidate = fst (last (idle_sessions p));
              p = p\<lparr>idle_sessions := butlast (idle_sessions p)\<rparr>
          in (count (\<lambda>c. c\<lparr>idle_count := length (idle_sessions p)\<rparr>) p, Some candidate, expired))"

definition count_reused :: "txn_pool \<Rightarrow> txn_pool" where
  "count_reused = count (\<lambda>c. c\<lparr>reused := reused c + 1, leased_count := leased_count c + 1\<rparr>)"

definition count_dropped :: "txn_pool \<Rightarrow> txn_pool" where
  "count_dropped = count (\<lambda>c. c\<lparr>probe_failures := probe_failures c + 1, closed_count := closed_count c + 1\<rparr>)"

definition count_opened :: "txn_pool \<Rightarrow> txn_pool" where
  "count_opened = count (\<lambda>c. c\<lparr>opened := opened c + 1, leased_count := leased_count c + 1\<rparr>)"

definition unlease :: "pool_counters \<Rightarrow> pool_counters" where
  "unlease c = (if leased_count c > 0 then c\<lparr>leased_count := leased_count c - 1\<rparr> else c)"

text \<open>The section of \<^verbatim>\<open>Release\<close>: both readings of the clock are given.\<close>

definition take_back :: "int \<Rightarrow> int \<Rightarrow> nat \<Rightarrow> bool \<Rightarrow> txn_pool \<Rightarrow> txn_pool \<times> bool \<times> nat list" where
  "take_back now later session clean p =
     (case TakeExpiredLocked now (count unlease p) of (p, expired) \<Rightarrow>
        if clean \<and> \<not> pool_closed p \<and> length (idle_sessions p) < maximum_idle p
        then
          let p = p\<lparr>idle_sessions := idle_sessions p @ [(session, later)]\<rparr>
          in (count (\<lambda>c. c\<lparr>returned := returned c + 1, idle_count := length (idle_sessions p)\<rparr>) p, True, expired)
        else (count (\<lambda>c. c\<lparr>closed_count := closed_count c + 1\<rparr>) p, False, expired))"

definition count_discarded :: "txn_pool \<Rightarrow> txn_pool" where
  "count_discarded = count (\<lambda>c. (unlease c)\<lparr>closed_count := closed_count c + 1\<rparr>)"

definition close_pool :: "txn_pool \<Rightarrow> txn_pool \<times> nat list" where
  "close_pool p =
     (let taken = map fst (idle_sessions p);
          p = p\<lparr>pool_closed := True, idle_sessions := []\<rparr>
      in (count (\<lambda>c. c\<lparr>closed_count := closed_count c + of_nat (length taken), idle_count := 0\<rparr>) p, taken))"

section \<open>Methods\<close>

lemma TakeExpired_length: "TakeExpiredLocked now p = (p', expired) \<Longrightarrow> length (idle_sessions p') \<le> length (idle_sessions p)"
  by (auto simp: TakeExpiredLocked_def Let_def)

lemma take_candidate_length:
  assumes "take_candidate now p = (p', Some c, expired)"
  shows "length (idle_sessions p') < length (idle_sessions p)"
proof -
  obtain q e where q: "TakeExpiredLocked now p = (q, e)" by (metis surj_pair)
  with assms have "idle_sessions q \<noteq> []" "idle_sessions p' = butlast (idle_sessions q)"
    by (auto simp: take_candidate_def Let_def split: if_split_asm)
  then have "length (idle_sessions p') < length (idle_sessions q)" by simp
  with TakeExpired_length[OF q] show ?thesis by simp
qed

text \<open>
  Whether an idle session is fit for the caller: its deadline bound, the probe answered, and the
  session ready. An exception of the probe makes it unfit; one of the other two leaves
  \<^verbatim>\<open>Acquire\<close>.
\<close>

definition check_candidate :: "('w, 'r) pool_environment \<Rightarrow> nat option \<Rightarrow> nat \<Rightarrow> ('w, bool) action" where
  "check_candidate env caller c =
     after (BindIoDeadline env c caller) (\<lambda>bound w.
       if \<not> bound then (w, Inr False)
       else case probe env c w of
           (w, Inl _) \<Rightarrow> (w, Inr False)
         | (w, Inr _) \<Rightarrow> ReadyForReuse env c w)"

definition open_session :: "('w, 'r) pool_environment \<Rightarrow> nat option \<Rightarrow> (txn_pool \<times> 'w, nat) action" where
  "open_session env caller = (\<lambda>(p, w).
     case opener env caller w of
       (w, Inl e) \<Rightarrow> ((p, w), Inl e)
     | (w, Inr None) \<Rightarrow> ((p, w), throw INVALID_STATE)
     | (w, Inr (Some s)) \<Rightarrow> ((count_opened p, w), Inr s))"

function Acquire :: "('w, 'r) pool_environment \<Rightarrow> nat option \<Rightarrow> (txn_pool \<times> 'w, nat) action" where
  "Acquire env caller (p, w) =
     (case clock env w of (w, now) \<Rightarrow>
      case take_candidate now p of (p, candidate, expired) \<Rightarrow>
      let w = CloseEach env expired w in
      case candidate of
        None \<Rightarrow> open_session env caller (p, w)
      | Some c \<Rightarrow>
          (case check_candidate env caller c w of
             (w, Inl e) \<Rightarrow> ((p, w), Inl e)
           | (w, Inr True) \<Rightarrow> ((count_reused p, w), Inr c)
           | (w, Inr False) \<Rightarrow> Acquire env caller (count_dropped p, CloseQuietly env (Some c) w)))"
  by pat_completeness auto
termination
  by (relation "measure (\<lambda>(env, caller, p, w). length (idle_sessions p))")
    (auto simp: count_dropped_def dest!: sym[of _ "take_candidate _ _"] take_candidate_length)

declare Acquire.simps [simp del]

text \<open>Whether a returned session may be kept, as far as the session and its holders tell.\<close>

definition is_clean :: "('w, 'r) pool_environment \<Rightarrow> nat \<Rightarrow> nat \<Rightarrow> 'w \<Rightarrow> 'w \<times> bool" where
  "is_clean env s use_count w =
     (if use_count \<noteq> 1 then (w, False)
      else case ReadyForReuse env s w of
          (w, Inr True) \<Rightarrow> (case BindIoDeadline env s None w of (w, Inr b) \<Rightarrow> (w, b) | (w, Inl _) \<Rightarrow> (w, False))
        | (w, _) \<Rightarrow> (w, False))"

definition Release :: "('w, 'r) pool_environment \<Rightarrow> nat option \<Rightarrow> nat \<Rightarrow> txn_pool \<times> 'w \<Rightarrow> (txn_pool \<times> 'w) \<times> bool" where
  "Release env session use_count = (\<lambda>(p, w).
     case session of
       None \<Rightarrow> ((p, w), False)
     | Some s \<Rightarrow>
         (case is_clean env s use_count w of (w, clean) \<Rightarrow>
          case clock env w of (w, now) \<Rightarrow>
          case TakeExpiredLocked now (count unlease p) of (p', _) \<Rightarrow>
          case (if clean \<and> \<not> pool_closed p' \<and> length (idle_sessions p') < maximum_idle p' then clock env w else (w, now)) of (w, later) \<Rightarrow>
          case take_back now later s clean p of (p, kept, expired) \<Rightarrow>
            ((p, CloseQuietly env (if kept then None else Some s) (CloseEach env expired w)), kept)))"

definition Discard :: "('w, 'r) pool_environment \<Rightarrow> nat option \<Rightarrow> txn_pool \<times> 'w \<Rightarrow> txn_pool \<times> 'w" where
  "Discard env session = (\<lambda>(p, w).
     case session of None \<Rightarrow> (p, w) | Some s \<Rightarrow> (count_discarded p, CloseQuietly env (Some s) w))"

definition CloseTransactionPool :: "('w, 'r) pool_environment \<Rightarrow> txn_pool \<times> 'w \<Rightarrow> txn_pool \<times> 'w" where
  "CloseTransactionPool env = (\<lambda>(p, w).
     case close_pool p of (p, taken) \<Rightarrow> (p, CloseEach env taken w))"

definition Counters :: "txn_pool \<Rightarrow> pool_counters" where
  "Counters p = counters p"

section \<open>Histories\<close>

text \<open>
  The sessions being probed, those lent, the sessions ever opened, those a second holder keeps (an
  open scan), and the candidates an exception of binding or of the readiness test lost. A caller
  releases or discards what it holds, once, and a session with a second holder is not clean.
\<close>

record txn_pool_system =
  tpool :: txn_pool
  probing :: "nat list"
  lent :: "nat list"
  known :: "nat set"
  borrowed :: "nat set"
  lost :: nat

inductive txn_pool_step :: "txn_pool_system \<Rightarrow> txn_pool_system \<Rightarrow> bool" where
  tp_candidate:
    "take_candidate now (tpool s) = (p, Some c, expired) \<Longrightarrow>
     txn_pool_step s (s\<lparr>tpool := p, probing := c # probing s\<rparr>)"
| tp_no_candidate:
    "take_candidate now (tpool s) = (p, None, expired) \<Longrightarrow> txn_pool_step s (s\<lparr>tpool := p\<rparr>)"
| tp_reuse:
    "probing s = xs @ c # ys \<Longrightarrow>
     txn_pool_step s (s\<lparr>tpool := count_reused (tpool s), probing := xs @ ys, lent := c # lent s\<rparr>)"
| tp_unfit:
    "probing s = xs @ c # ys \<Longrightarrow> txn_pool_step s (s\<lparr>tpool := count_dropped (tpool s), probing := xs @ ys\<rparr>)"
| tp_lost:
    "probing s = xs @ c # ys \<Longrightarrow> txn_pool_step s (s\<lparr>probing := xs @ ys, lost := lost s + 1\<rparr>)"
| tp_open:
    "c \<notin> known s \<Longrightarrow>
     txn_pool_step s (s\<lparr>tpool := count_opened (tpool s), lent := c # lent s, known := insert c (known s)\<rparr>)"
| tp_release:
    "\<lbrakk>lent s = xs @ c # ys; clean \<longrightarrow> c \<notin> borrowed s; take_back now later c clean (tpool s) = (p, kept, expired)\<rbrakk> \<Longrightarrow>
     txn_pool_step s (s\<lparr>tpool := p, lent := xs @ ys\<rparr>)"
| tp_discard:
    "lent s = xs @ c # ys \<Longrightarrow> txn_pool_step s (s\<lparr>tpool := count_discarded (tpool s), lent := xs @ ys\<rparr>)"
| tp_close:
    "close_pool (tpool s) = (p, taken) \<Longrightarrow> txn_pool_step s (s\<lparr>tpool := p\<rparr>)"
| tp_borrow:
    "c \<in> set (lent s) \<Longrightarrow> txn_pool_step s (s\<lparr>borrowed := insert c (borrowed s)\<rparr>)"
| tp_give_up:
    "txn_pool_step s (s\<lparr>borrowed := borrowed s - {c}\<rparr>)"

definition fresh_txn_pool :: "nat \<Rightarrow> txn_pool_system \<Rightarrow> bool" where
  "fresh_txn_pool limit s \<longleftrightarrow> (\<exists>time. OracleTransactionSessionPool limit time True = Inr (tpool s)) \<and>
     probing s = [] \<and> lent s = [] \<and> known s = {} \<and> borrowed s = {} \<and> lost s = 0"

section \<open>Invariant\<close>

text \<open>The pool alone: its counts are those of its list, against the sessions outside it.\<close>

definition counts_ok :: "nat \<Rightarrow> nat \<Rightarrow> nat \<Rightarrow> txn_pool \<Rightarrow> bool" where
  "counts_ok limit outside on_loan p \<longleftrightarrow> maximum_idle p = limit \<and> length (idle_sessions p) \<le> limit \<and>
     (pool_closed p \<longrightarrow> idle_sessions p = []) \<and>
     idle_count (counters p) = length (idle_sessions p) \<and> leased_count (counters p) = on_loan \<and>
     opened (counters p) = closed_count (counters p) + of_nat (length (idle_sessions p) + on_loan + outside)"

definition holders_ok :: "(nat \<times> int) list \<Rightarrow> nat list \<Rightarrow> nat list \<Rightarrow> nat set \<Rightarrow> nat set \<Rightarrow> bool" where
  "holders_ok waiting checked on_loan everyone second \<longleftrightarrow>
     distinct (map fst waiting @ checked @ on_loan) \<and> set (map fst waiting @ checked @ on_loan) \<subseteq> everyone \<and>
     second \<inter> set (map fst waiting @ checked) = {}"

definition txn_pool_ok :: "nat \<Rightarrow> txn_pool_system \<Rightarrow> bool" where
  "txn_pool_ok limit s \<longleftrightarrow>
     counts_ok limit (length (probing s) + lost s) (length (lent s)) (tpool s) \<and>
     holders_ok (idle_sessions (tpool s)) (probing s) (lent s) (known s) (borrowed s)"

lemma TakeExpired_counts:
  assumes "TakeExpiredLocked now p = (p', expired)" "counts_ok limit outside on_loan p"
  shows "counts_ok limit outside on_loan p'" "idle_sessions p' = filter (\<lambda>(_, since). \<not> now - since > maximum_idle_time p) (idle_sessions p)"
proof -
  let ?old = "\<lambda>(_, since). now - since > maximum_idle_time p"
  have n: "length (filter ?old (idle_sessions p)) +
      length (filter (\<lambda>(_, since). \<not> now - since > maximum_idle_time p) (idle_sessions p)) = length (idle_sessions p)"
    using sum_length_filter_compl[of ?old "idle_sessions p"] by (simp add: case_prod_unfold)
  show "idle_sessions p' = filter (\<lambda>(_, since). \<not> now - since > maximum_idle_time p) (idle_sessions p)"
    using assms(1) by (auto simp: TakeExpiredLocked_def Let_def)
  then show "counts_ok limit outside on_loan p'"
    using assms n by (auto simp: TakeExpiredLocked_def Let_def counts_ok_def algebra_simps simp flip: of_nat_add)
qed

lemma take_candidate_counts:
  assumes "take_candidate now p = (p', candidate, expired)" "counts_ok limit outside on_loan p"
  shows "counts_ok limit (outside + (if candidate = None then 0 else 1)) on_loan p'"
    "\<exists>rest. subseq rest (idle_sessions p) \<and>
      (case candidate of None \<Rightarrow> rest = idle_sessions p' | Some c \<Rightarrow> \<exists>since. rest = idle_sessions p' @ [(c, since)])"
proof -
  obtain q e where q: "TakeExpiredLocked now p = (q, e)" by (metis surj_pair)
  note t = TakeExpired_counts[OF q assms(2)]
  have sub: "subseq (idle_sessions q) (idle_sessions p)" unfolding t(2) by (rule subseq_filter_left)
  show "counts_ok limit (outside + (if candidate = None then 0 else 1)) on_loan p'"
    using assms(1) q t(1) by (cases "idle_sessions q" rule: rev_cases)
      (auto simp: take_candidate_def Let_def counts_ok_def algebra_simps split: if_split_asm)
  show "\<exists>rest. subseq rest (idle_sessions p) \<and>
      (case candidate of None \<Rightarrow> rest = idle_sessions p' | Some c \<Rightarrow> \<exists>since. rest = idle_sessions p' @ [(c, since)])"
    using assms(1) q sub by (cases "idle_sessions q" rule: rev_cases)
      (auto simp: take_candidate_def Let_def split: if_split_asm intro!: exI[of _ "idle_sessions q"])
qed

lemma subseq_keeps_distinct: "subseq xs ys \<Longrightarrow> distinct ys \<Longrightarrow> distinct xs \<and> set xs \<subseteq> set ys"
  by (induction rule: list_emb.induct) auto

lemma disjoint_shrink:
  "\<lbrakk>distinct (xs @ ys); set (xs @ ys) \<subseteq> everyone; second \<inter> set (xs @ zs) = {}; distinct xs' \<and> set xs' \<subseteq> set xs\<rbrakk> \<Longrightarrow>
   distinct (xs' @ ys) \<and> set (xs' @ ys) \<subseteq> everyone \<and> second \<inter> set (xs' @ zs) = {}"
  by auto

lemma holders_subseq:
  assumes "holders_ok waiting checked on_loan everyone second" "subseq rest waiting"
  shows "holders_ok rest checked on_loan everyone second"
proof -
  have "distinct (map fst waiting)" using assms(1) by (simp add: holders_ok_def)
  from subseq_keeps_distinct[OF subseq_map[OF assms(2)] this] show ?thesis
    using assms(1) disjoint_shrink unfolding holders_ok_def by blast
qed

lemma take_back_counts:
  assumes "take_back now later c clean p = (p', kept, expired)" "counts_ok limit outside (Suc on_loan) p"
  shows "counts_ok limit outside on_loan p'" "kept \<longrightarrow> clean"
    "\<exists>rest. subseq rest (idle_sessions p) \<and> idle_sessions p' = (if kept then rest @ [(c, later)] else rest)"
proof -
  let ?p = "count unlease p"
  obtain q e where q: "TakeExpiredLocked now ?p = (q, e)" by (metis surj_pair)
  have "counts_ok limit (Suc outside) on_loan ?p" using assms(2) by (simp add: counts_ok_def unlease_def)
  note t = TakeExpired_counts[OF q this]
  have sub: "subseq (idle_sessions q) (idle_sessions p)" using t(2) by simp
  show "counts_ok limit outside on_loan p'"
    using assms(1) q t(1) by (auto simp: take_back_def Let_def counts_ok_def algebra_simps split: if_split_asm)
  show "kept \<longrightarrow> clean" using assms(1) q by (auto simp: take_back_def Let_def split: if_split_asm)
  show "\<exists>rest. subseq rest (idle_sessions p) \<and> idle_sessions p' = (if kept then rest @ [(c, later)] else rest)"
    using assms(1) q sub by (auto simp: take_back_def Let_def split: if_split_asm intro!: exI[of _ "idle_sessions q"])
qed

lemmas counting = count_reused_def count_dropped_def count_opened_def count_discarded_def unlease_def counts_ok_def holders_ok_def

lemma txn_pool_step_ok: "\<lbrakk>txn_pool_step s s'; txn_pool_ok limit s\<rbrakk> \<Longrightarrow> txn_pool_ok limit s'"
proof (induction rule: txn_pool_step.induct)
  case (tp_candidate now s p c expired)
  then have c: "counts_ok limit (length (probing s) + lost s) (length (lent s)) (tpool s)"
    "holders_ok (idle_sessions (tpool s)) (probing s) (lent s) (known s) (borrowed s)" by (simp_all add: txn_pool_ok_def)
  note t = take_candidate_counts[OF tp_candidate(1) c(1)]
  from t(2) obtain since where "subseq (idle_sessions p @ [(c, since)]) (idle_sessions (tpool s))" by auto
  from holders_subseq[OF c(2) this] t(1) show ?case
    by (auto simp: txn_pool_ok_def holders_ok_def)
next
  case (tp_no_candidate now s p expired)
  then have c: "counts_ok limit (length (probing s) + lost s) (length (lent s)) (tpool s)"
    "holders_ok (idle_sessions (tpool s)) (probing s) (lent s) (known s) (borrowed s)" by (simp_all add: txn_pool_ok_def)
  note t = take_candidate_counts[OF tp_no_candidate(1) c(1)]
  from t(2) have "subseq (idle_sessions p) (idle_sessions (tpool s))" by auto
  from holders_subseq[OF c(2) this] t(1) show ?case by (simp add: txn_pool_ok_def)
next
  case (tp_release s xs c ys clean now later p kept expired)
  then have c: "counts_ok limit (length (probing s) + lost s) (Suc (length (xs @ ys))) (tpool s)"
    "holders_ok (idle_sessions (tpool s)) (probing s) (xs @ c # ys) (known s) (borrowed s)" by (simp_all add: txn_pool_ok_def)
  note t = take_back_counts[OF tp_release(3) c(1)]
  from t(3) obtain rest where r: "subseq rest (idle_sessions (tpool s))" "idle_sessions p = (if kept then rest @ [(c, later)] else rest)"
    by blast
  from holders_subseq[OF c(2) r(1)] have "holders_ok (idle_sessions p) (probing s) (xs @ ys) (known s) (borrowed s)"
    using t(2) tp_release(2) r(2) by (auto simp: holders_ok_def)
  with t(1) show ?case by (simp add: txn_pool_ok_def)
qed (auto simp: txn_pool_ok_def counting close_pool_def Let_def algebra_simps)

interpretation keeping: guarded_machine "fresh_txn_pool limit" txn_pool_step "txn_pool_ok limit" for limit
proof
  show "txn_pool_ok limit s" if "fresh_txn_pool limit s" for s
    using that by (auto simp: fresh_txn_pool_def txn_pool_ok_def counting OracleTransactionSessionPool_def no_counts_def
        dest!: sym[of _ "tpool s"])
qed (rule txn_pool_step_ok)

section \<open>Properties\<close>

text \<open>
  C9. The pool's counters are a conservation law and its sessions are exclusive: in every reachable
  state each session opened was closed, is idle, is being probed, is lent, or was lost to an exception
  of its own methods; no session is in two of these places, no idle session has a second holder, and
  at most the configured number is idle.
\<close>

theorem sessions_accounted_for:
  assumes "reachable (fresh_txn_pool limit) txn_pool_step s"
  shows "opened (Counters (tpool s)) = closed_count (Counters (tpool s)) +
      of_nat (idle_count (Counters (tpool s)) + leased_count (Counters (tpool s)) + length (probing s) + lost s) \<and>
    leased_count (Counters (tpool s)) = length (lent s) \<and>
    distinct (map fst (idle_sessions (tpool s)) @ probing s @ lent s) \<and>
    borrowed s \<inter> fst ` set (idle_sessions (tpool s)) = {} \<and>
    length (idle_sessions (tpool s)) \<le> limit"
  using keeping.always[OF assms]
  by (auto simp: txn_pool_ok_def counts_ok_def holders_ok_def Counters_def algebra_simps)

definition lending_system :: txn_pool_system where
  "lending_system = \<lparr>tpool = \<lparr>maximum_idle = 2, maximum_idle_time = 300, pool_closed = False, idle_sessions = [],
     counters = no_counts\<lparr>opened := 1, leased_count := 1\<rparr>\<rparr>, probing = [], lent = [4], known = {4}, borrowed = {}, lost = 0\<rparr>"

lemma lending_system_reachable: "reachable (fresh_txn_pool 2) txn_pool_step lending_system"
proof -
  define s0 where "s0 = \<lparr>tpool = \<lparr>maximum_idle = 2, maximum_idle_time = 300, pool_closed = False, idle_sessions = [],
     counters = no_counts\<rparr>, probing = [], lent = [], known = {}, borrowed = {}, lost = 0\<rparr>"
  have "reachable (fresh_txn_pool 2) txn_pool_step s0"
    by (rule reachable_start) (simp add: fresh_txn_pool_def s0_def OracleTransactionSessionPool_def)
  moreover have "txn_pool_step s0 lending_system"
    using tp_open[of 4 s0] by (simp add: s0_def lending_system_def count_opened_def no_counts_def)
  ultimately show ?thesis by (rule reachable_step)
qed

lemma sessions_accounted_for_witness:
  "opened (Counters (tpool lending_system)) = 1 \<and> lent lending_system = [4] \<and> distinct (lent lending_system)"
  using sessions_accounted_for[OF lending_system_reachable]
  by (simp add: lending_system_def Counters_def no_counts_def)

lemma take_candidate_idle:
  assumes "take_candidate now p = (p', candidate, expired)"
  shows "fst ` set (idle_sessions p') \<subseteq> fst ` set (idle_sessions p)"
    "candidate = Some c \<Longrightarrow> c \<in> fst ` set (idle_sessions p)"
proof -
  obtain q e where q: "TakeExpiredLocked now p = (q, e)" by (metis surj_pair)
  have i: "set (idle_sessions q) \<subseteq> set (idle_sessions p)"
    using q by (auto simp: TakeExpiredLocked_def Let_def)
  have "idle_sessions p' = idle_sessions q \<and> candidate = None \<or>
      idle_sessions q \<noteq> [] \<and> idle_sessions p' = butlast (idle_sessions q) \<and> candidate = Some (fst (last (idle_sessions q)))"
    using assms q by (auto simp: take_candidate_def Let_def split: if_split_asm)
  then have "set (idle_sessions p') \<subseteq> set (idle_sessions q)"
    "candidate = Some c \<Longrightarrow> c \<in> fst ` set (idle_sessions q)"
    by (auto dest: in_set_butlastD)
  with i show "fst ` set (idle_sessions p') \<subseteq> fst ` set (idle_sessions p)" "candidate = Some c \<Longrightarrow> c \<in> fst ` set (idle_sessions p)"
    by blast+
qed

text \<open>
  C25. Every session handed to a transaction is either new or proven: asking always ends, and the
  session it answers with was just opened for the caller, or was idle in the pool and, as the last
  things that happened to it, had its deadline bound to the caller, answered the probe and said it is
  ready.
\<close>

theorem acquired_session_proven:
  assumes "Acquire env caller (p, w) = ((p', w'), Inr s)"
  shows "(\<exists>w0. opener env caller w0 = (w', Inr (Some s))) \<or>
    (s \<in> fst ` set (idle_sessions p) \<and>
     (\<exists>w0 w1 w2. BindIoDeadline env s caller w0 = (w1, Inr True) \<and> probe env s w1 = (w2, Inr ()) \<and>
        ReadyForReuse env s w2 = (w', Inr True)))"
  using assms
proof (induction env caller "(p, w)" arbitrary: p w rule: Acquire.induct)
  case (1 env caller p w)
  obtain w1 now where n: "clock env w = (w1, now)" by (metis surj_pair)
  obtain q candidate expired where t: "take_candidate now p = (q, candidate, expired)" by (metis surj_pair)
  define w2 where "w2 = CloseEach env expired w1"
  note idle = take_candidate_idle[OF t]
  show ?case
  proof (cases candidate)
    case None
    with "1.prems" n t show ?thesis
      by (auto simp: Acquire.simps[of env caller p w] Let_def open_session_def split: sum.splits option.splits prod.splits)
  next
    case (Some c)
    obtain w3 r where c: "check_candidate env caller c w2 = (w3, r)" by (metis surj_pair)
    note step = "1.prems"[unfolded Acquire.simps[of env caller p w] n t Some prod.case Let_def option.case, folded w2_def, unfolded c prod.case]
    show ?thesis
    proof (cases r)
      case (Inl e)
      with step show ?thesis by simp
    next
      case (Inr fit)
      show ?thesis
      proof (cases fit)
        case True
        with Inr step have "s = c" "w' = w3" by (auto simp: count_reused_def)
        with c Inr True have "\<exists>w0 w1 w2. BindIoDeadline env s caller w0 = (w1, Inr True) \<and> probe env s w1 = (w2, Inr ()) \<and>
            ReadyForReuse env s w2 = (w', Inr True)"
          by (auto simp: check_candidate_def after_def split: prod.splits sum.splits if_split_asm)
        with idle(2)[OF Some] \<open>s = c\<close> show ?thesis by blast
      next
        case False
        have "fst ` set (idle_sessions (count_dropped q)) \<subseteq> fst ` set (idle_sessions p)"
          using idle(1) by (simp add: count_dropped_def)
        moreover have "(\<exists>w0. opener env caller w0 = (w', Inr (Some s))) \<or>
            (s \<in> fst ` set (idle_sessions (count_dropped q)) \<and>
             (\<exists>w0 w1 w2. BindIoDeadline env s caller w0 = (w1, Inr True) \<and> probe env s w1 = (w2, Inr ()) \<and>
                ReadyForReuse env s w2 = (w', Inr True)))"
          using "1.hyps"(1)[OF n[symmetric] t[symmetric] refl w2_def Some c[unfolded Inr, symmetric] refl] False step Inr
          by (simp add: w2_def)
        ultimately show ?thesis by blast
      qed
    qed
  qed
qed

definition quiet_environment :: "(journal, unit) pool_environment" where
  "quiet_environment = \<lparr>invoke = invoke (recording (\<lambda>_ _. False)), ReadyForReuse = (\<lambda>s w. (w, Inr True)),
     BindIoDeadline = (\<lambda>s d w. (w, Inr True)), opener = (\<lambda>d w. (w, Inr (Some 9))),
     probe = (\<lambda>s w. (w @ [(s, QueryCall ''SELECT 1 FROM DUAL'' [])], if s = 5 then throw INVALID_STATE else Inr ())),
     clock = (\<lambda>w. (w, 1000))\<rparr>"

lemma acquired_session_proven_witness:
  "snd (fst (Acquire quiet_environment None (\<lparr>maximum_idle = 4, maximum_idle_time = 300, pool_closed = False,
     idle_sessions = [(3, 100), (4, 800), (5, 900)], counters = no_counts\<rparr>, []))) =
   [(3, CloseSessionCall), (5, QueryCall ''SELECT 1 FROM DUAL'' []), (5, CloseSessionCall), (4, QueryCall ''SELECT 1 FROM DUAL'' [])] \<and>
   (4::nat) \<in> {3, 4, 5}"
proof -
  have run: "Acquire quiet_environment None (\<lparr>maximum_idle = 4, maximum_idle_time = 300, pool_closed = False,
     idle_sessions = [(3, 100), (4, 800), (5, 900)], counters = no_counts\<rparr>, []) =
    ((\<lparr>maximum_idle = 4, maximum_idle_time = 300, pool_closed = False, idle_sessions = [],
       counters = no_counts\<lparr>closed_count := 2, probe_failures := 1, reused := 1, leased_count := 1\<rparr>\<rparr>,
      [(3, CloseSessionCall), (5, QueryCall ''SELECT 1 FROM DUAL'' []), (5, CloseSessionCall), (4, QueryCall ''SELECT 1 FROM DUAL'' [])]), Inr 4)"
    by (simp add: Acquire.simps quiet_environment_def take_candidate_def TakeExpiredLocked_def Let_def check_candidate_def
        after_def CloseEach_def CloseQuietly_def recording_def count_dropped_def count_reused_def no_counts_def)
  from acquired_session_proven[OF run] have "(4::nat) \<in> {3, 4, 5}"
    by (auto simp: quiet_environment_def)
  with run show ?thesis by simp
qed

end
