(* ===== verification/Ttc_Rows.thy ===== *)
theory Ttc_Rows
  imports Ttc_Messages
begin

text \<open>
  Rows on the wire: \<^verbatim>\<open>OracleColumn\<close> of \<^verbatim>\<open>session.hpp\<close>, \<^verbatim>\<open>src/ttc_describe.cpp\<close> (what the server
  says of the columns of a query), \<^verbatim>\<open>src/ttc_row_data.cpp\<close> with its header (the cells of one
  row) and \<^verbatim>\<open>src/ttc_fetch.cpp\<close> (the request for more rows).
\<close>

section \<open>Columns\<close>

text \<open>
  \<^verbatim>\<open>int16_t\<close> precision and scale hold a sign-extended byte, so they are integers here. The enumeration
  \<^verbatim>\<open>unconstrained_number\<close> is the number it is stored as.
\<close>

record oracle_column =
  column_name :: string
  oracle_type :: u16
  byte_width :: u32
  precision :: int
  scale :: int
  nullable :: bool
  character_set_form :: u8
  omitted_from_row_data :: bool
  vector_dimensions :: u32
  vector_format :: u8
  vector_flags :: u8
  inline_lob_cells :: bool
  xml :: bool
  unconstrained_number :: u8
  unconstrained_precision :: u8
  unconstrained_scale :: u8

definition OracleColumn :: oracle_column where
  "OracleColumn = \<lparr>column_name = [], oracle_type = 0, byte_width = 0, precision = 0, scale = 0, nullable = True,
     character_set_form = 0, omitted_from_row_data = False, vector_dimensions = 0, vector_format = 0,
     vector_flags = 0, inline_lob_cells = False, xml = False, unconstrained_number = 0,
     unconstrained_precision = 0, unconstrained_scale = 0\<rparr>"

definition IsOracleLobType :: "u16 \<Rightarrow> bool" where
  "IsOracleLobType t \<longleftrightarrow> t = 112 \<or> t = 113"

definition IsOracleLocatorType :: "u16 \<Rightarrow> bool" where
  "IsOracleLocatorType t \<longleftrightarrow> IsOracleLobType t \<or> t = 119 \<or> t = 127"

definition IsOracleLongType :: "u16 \<Rightarrow> bool" where
  "IsOracleLongType t \<longleftrightarrow> t = 8 \<or> t = 24"

datatype column_framing = SCALAR | LOB | ROWID | UROWID | LONG | LOB_WITH_PREFIX | LOB_WITHOUT_PREFIX

definition TtcFramingForType :: "u16 \<Rightarrow> column_framing" where
  "TtcFramingForType t =
     (if IsOracleLocatorType t then LOB
      else if t = 11 then ROWID
      else if t = 208 then UROWID
      else if IsOracleLongType t then LONG
      else SCALAR)"

section \<open>Describe\<close>

definition MAX_COLUMNS :: nat where
  "MAX_COLUMNS = 4096"

definition MAX_METADATA_BYTES :: nat where
  "MAX_METADATA_BYTES = 2 ^ 20"

definition ReadDeclared :: "bytes reader" where
  "ReadDeclared = bindr ReadUB4 (\<lambda>declared.
     if declared = 0 then ret []
     else if unat declared > MAX_METADATA_BYTES then raise LIMIT_EXCEEDED
     else bindr (ReadLengthPrefixed (unat declared)) (\<lambda>value.
       case value of None \<Rightarrow> raise MALFORMED | Some v \<Rightarrow> ret v))"

definition ReadDeclaredBytes :: "unit reader" where
  "ReadDeclaredBytes = discard ReadDeclared"

definition ReadDeclaredText :: "string reader" where
  "ReadDeclaredText = bindr ReadDeclared (\<lambda>v. ret (to_string v))"

text \<open>The fields of a VECTOR column, which only newer servers send.\<close>

definition read_vector_fields :: "u8 \<Rightarrow> (u32 \<times> u8 \<times> u8) reader" where
  "read_vector_fields field_version =
     (if field_version \<ge> 24
      then bindr ReadUB4 (\<lambda>d. bindr ReadByte (\<lambda>f. bindr ReadByte (\<lambda>g. ret (d, f, g))))
      else ret (0, 0, 0))"

definition DecodeColumn :: "u8 \<Rightarrow> oracle_column reader" where
  "DecodeColumn field_version =
     bindr ReadByte (\<lambda>type. thenr ReadByte (bindr ReadByte (\<lambda>prec. bindr ReadByte (\<lambda>scl.
     bindr ReadUB4 (\<lambda>maximum_size. thenr ReadUB4 (thenr ReadUB8 (thenr ReadDeclaredBytes
     (thenr ReadUB2 (thenr ReadUB2 (bindr ReadByte (\<lambda>csfrm. bindr ReadUB4 (\<lambda>sz.
      thenr ReadUB4 (bindr ReadByte (\<lambda>nulls. thenr ReadByte (bindr ReadDeclaredText (\<lambda>name.
      thenr ReadDeclaredText (thenr ReadDeclaredText (thenr ReadUB2 (thenr ReadUB4
     (thenr (whenr (field_version \<ge> 17) (thenr ReadDeclaredText (discard ReadDeclaredText)))
     (thenr (whenr (field_version \<ge> 20) (bindr ReadUB4 (\<lambda>annotations. refuse (annotations \<noteq> 0) UNSUPPORTED)))
     (bindr (read_vector_fields field_version) (\<lambda>(dimensions, format, flags).
      let type = ucast type in
      ret (OracleColumn\<lparr>column_name := name, oracle_type := type,
        byte_width := (if type = 102 then 4 else if type = 23 then maximum_size else sz),
        precision := sint prec, scale := sint scl, nullable := nulls \<noteq> 0, character_set_form := csfrm,
        omitted_from_row_data := (maximum_size = 0 \<and> type \<noteq> 102 \<and> \<not> IsOracleLongType type),
        vector_dimensions := dimensions, vector_format := format, vector_flags := flags\<rparr>))))))))))))))))))))))))"

definition describe_reader :: "u8 \<Rightarrow> oracle_column list reader" where
  "describe_reader field_version = bindr ReadByte (\<lambda>t.
     thenr (refuse (t \<noteq> 16) MALFORMED)
     (thenr (ReadLengthPrefixed MAX_METADATA_BYTES) (thenr ReadUB4 (bindr ReadUB4 (\<lambda>column_count.
      thenr (refuse (column_count = 0 \<or> unat column_count > MAX_COLUMNS) MALFORMED)
     (thenr ReadByte (bindr (repeatr (unat column_count) (DecodeColumn field_version)) (\<lambda>columns.
      thenr ReadDeclaredBytes (thenr ReadUB4 (thenr ReadUB4 (thenr ReadUB4 (thenr ReadUB4
     (thenr ReadDeclaredBytes (ret columns))))))))))))))"

definition DecodeTtcDescribeInfoPrefix :: "u8 \<Rightarrow> oracle_column list decoder" where
  "DecodeTtcDescribeInfoPrefix field_version = run_prefix (describe_reader field_version)"

section \<open>Row data\<close>

abbreviation TTC_MESSAGE_ROW_DATA :: u8 where "TTC_MESSAGE_ROW_DATA \<equiv> 7"

type_synonym ttc_row_data = "bytes option list"

definition MAX_LOB_LOCATOR_BYTES :: nat where
  "MAX_LOB_LOCATOR_BYTES = 4096"

definition MAX_UROWID_BYTES :: nat where
  "MAX_UROWID_BYTES = 4096"

definition ReadRowid :: "bytes option reader" where
  "ReadRowid = bindr ReadByte (\<lambda>length.
     if length = 0 \<or> length = TNS_NULL_LENGTH_INDICATOR then ret None
     else bindr ReadUB4 (\<lambda>object. bindr ReadUB2 (\<lambda>file. thenr ReadByte
       (bindr ReadUB4 (\<lambda>block. bindr ReadUB2 (\<lambda>row.
         ret (Some (be_bytes 4 object @ be_bytes 2 file @ be_bytes 4 block @ be_bytes 2 row))))))))"

text \<open>A value whose length was already stated, which has to agree.\<close>

definition read_stated :: "nat \<Rightarrow> u32 \<Rightarrow> bytes reader" where
  "read_stated maximum stated = bindr (ReadLengthPrefixed maximum) (\<lambda>value.
     case value of
       None \<Rightarrow> raise MALFORMED
     | Some v \<Rightarrow> if length v \<noteq> unat stated then raise MALFORMED else ret v)"

definition ReadUrowid :: "bytes option reader" where
  "ReadUrowid = bindr ReadUB4 (\<lambda>sz.
     if sz = 0 then ret None
     else if unat sz > MAX_UROWID_BYTES then raise LIMIT_EXCEEDED
     else bindr (read_stated MAX_UROWID_BYTES sz) (\<lambda>v. ret (Some v)))"

definition SkipLongTrailer :: "unit reader" where
  "SkipLongTrailer = bindr ReadByte (\<lambda>b.
     let indicator_length = unat (b AND 0x7F) in
     if indicator_length > 4 then raise MALFORMED
     else thenr (ReadRaw indicator_length) (discard ReadUB2))"

record inline_lob =
  lob_total :: u64
  lob_prefix :: bytes
  lob_locator :: bytes

definition EncodeTtcInlineLob :: "inline_lob \<Rightarrow> bytes" where
  "EncodeTtcInlineLob lob =
     be_bytes 8 (lob_total lob) @ be_bytes 4 (of_nat (length (lob_prefix lob)) :: u32) @ lob_prefix lob @ lob_locator lob"

definition DecodeTtcInlineLob :: "bytes \<Rightarrow> inline_lob result" where
  "DecodeTtcInlineLob cell =
     (if length cell < 12 then throw MALFORMED
      else let prefix_size = unat (be_word (take 4 (drop 8 cell)) :: u32) in
        if prefix_size > length cell - 12 then throw MALFORMED
        else Inr \<lparr>lob_total = be_word (take 8 cell), lob_prefix = take prefix_size (drop 12 cell),
                  lob_locator = drop (12 + prefix_size) cell\<rparr>)"

definition read_inline_lob :: "bool \<Rightarrow> nat \<Rightarrow> u32 \<Rightarrow> bytes reader" where
  "read_inline_lob with_prefix maximum locator_size =
     bindr ReadUB8 (\<lambda>total. thenr ReadUB4
     (bindr (if with_prefix then ReadLengthPrefixed maximum else ret None) (\<lambda>p.
        let prefix = (case p of None \<Rightarrow> [] | Some v \<Rightarrow> v) in
        thenr (refuse (with_prefix \<and> length prefix > unat total) MALFORMED)
       (bindr (read_stated MAX_LOB_LOCATOR_BYTES locator_size) (\<lambda>locator.
          ret (EncodeTtcInlineLob \<lparr>lob_total = total, lob_prefix = prefix, lob_locator = locator\<rparr>))))))"

definition read_lob :: "column_framing \<Rightarrow> nat \<Rightarrow> bytes option reader" where
  "read_lob framing maximum = bindr ReadUB4 (\<lambda>locator_size.
     if locator_size = 0 then ret None
     else if unat locator_size > MAX_LOB_LOCATOR_BYTES then raise LIMIT_EXCEEDED
     else if framing = LOB_WITH_PREFIX \<or> framing = LOB_WITHOUT_PREFIX
     then bindr (read_inline_lob (framing = LOB_WITH_PREFIX) maximum locator_size) (\<lambda>cell. ret (Some cell))
     else bindr (read_stated MAX_LOB_LOCATOR_BYTES locator_size) (\<lambda>v. ret (Some v)))"

fun read_cell :: "nat \<Rightarrow> column_framing \<Rightarrow> bytes option reader" where
  "read_cell maximum SCALAR = ReadLengthPrefixed maximum"
| "read_cell maximum ROWID = ReadRowid"
| "read_cell maximum UROWID = ReadUrowid"
| "read_cell maximum LONG =
     bindr (ReadLengthPrefixed maximum) (\<lambda>v. thenr SkipLongTrailer (ret v))"
| "read_cell maximum framing = read_lob framing maximum"

fun read_cells :: "nat \<Rightarrow> column_framing list \<Rightarrow> ttc_row_data reader" where
  "read_cells maximum [] = ret []"
| "read_cells maximum (f # fs) =
     bindr (read_cell maximum f) (\<lambda>v. bindr (read_cells maximum fs) (\<lambda>vs. ret (v # vs)))"

definition bad_row_bounds :: "nat \<Rightarrow> nat \<Rightarrow> bool" where
  "bad_row_bounds columns maximum \<longleftrightarrow> columns = 0 \<or> columns > 4096 \<or> maximum = 0 \<or> maximum > 16 * 2 ^ 20"

definition row_data_reader :: "column_framing list \<Rightarrow> nat \<Rightarrow> ttc_row_data reader" where
  "row_data_reader framing maximum =
     thenr (refuse (bad_row_bounds (length framing) maximum) MALFORMED)
     (bindr ReadByte (\<lambda>t.
      thenr (refuse (t \<noteq> TTC_MESSAGE_ROW_DATA) MALFORMED)
      (read_cells maximum framing)))"

definition DecodeTtcRowDataPrefix :: "column_framing list \<Rightarrow> nat \<Rightarrow> ttc_row_data decoder" where
  "DecodeTtcRowDataPrefix framing maximum = run_prefix (row_data_reader framing maximum)"

text \<open>The overload for a number of scalar columns.\<close>

definition scalar_row_reader :: "nat \<Rightarrow> nat \<Rightarrow> ttc_row_data reader" where
  "scalar_row_reader column_count maximum =
     thenr (refuse (bad_row_bounds column_count maximum) MALFORMED)
     (bindr ReadByte (\<lambda>t.
      thenr (refuse (t \<noteq> TTC_MESSAGE_ROW_DATA) MALFORMED)
      (repeatr column_count (ReadLengthPrefixed maximum))))"

definition DecodeScalarRowPrefix :: "nat \<Rightarrow> nat \<Rightarrow> ttc_row_data decoder" where
  "DecodeScalarRowPrefix column_count maximum = run_prefix (scalar_row_reader column_count maximum)"

definition DecodeTtcRowData :: "bytes \<Rightarrow> nat \<Rightarrow> nat \<Rightarrow> ttc_row_data result" where
  "DecodeTtcRowData message column_count maximum =
     andthen (DecodeScalarRowPrefix column_count maximum message) (\<lambda>(values, consumed).
       if consumed \<noteq> length message then throw MALFORMED else Inr values)"

section \<open>Fetch requests\<close>

record fetch_request =
  fetch_sequence :: u8
  fetch_cursor_id :: u32
  requested_rows :: u32

definition MAX_FETCH_ROWS :: nat where
  "MAX_FETCH_ROWS = 2 ^ 20"

definition ValidateFetch :: "fetch_request \<Rightarrow> unit result" where
  "ValidateFetch q =
     (if fetch_cursor_id q = 0 \<or> requested_rows q = 0 \<or> unat (requested_rows q) > MAX_FETCH_ROWS
      then throw MALFORMED else Inr ())"

definition EncodeTtcFetchRequest :: "fetch_request \<Rightarrow> bytes result" where
  "EncodeTtcFetchRequest q = andthen (ValidateFetch q) (\<lambda>_. Inr (writes
     [WriteByte TTC_MESSAGE_FUNCTION, WriteByte 5, WriteByte (fetch_sequence q),
      WriteUB4 (fetch_cursor_id q), WriteUB4 (requested_rows q)] []))"

definition fetch_request_reader :: "fetch_request reader" where
  "fetch_request_reader = bindr ReadByte (\<lambda>t.
     thenr (refuse (t \<noteq> TTC_MESSAGE_FUNCTION) MALFORMED) (bindr ReadByte (\<lambda>f.
     thenr (refuse (f \<noteq> 5) MALFORMED)
    (bindr ReadByte (\<lambda>sequence. bindr ReadUB4 (\<lambda>cursor. bindr ReadUB4 (\<lambda>rows.
     thenr (at_end MALFORMED)
    (ret \<lparr>fetch_sequence = sequence, fetch_cursor_id = cursor, requested_rows = rows\<rparr>))))))))"

definition DecodeTtcFetchRequest :: "bytes \<Rightarrow> fetch_request result" where
  "DecodeTtcFetchRequest message =
     andthen (decode_message fetch_request_reader message) (\<lambda>q. andthen (ValidateFetch q) (\<lambda>_. Inr q))"

section \<open>Every decoder of a prefix is one\<close>

lemma wire_read_declared [wire_intros]: "wire_reader ReadDeclared" "wire_reader ReadDeclaredBytes" "wire_reader ReadDeclaredText"
  unfolding ReadDeclared_def ReadDeclaredBytes_def ReadDeclaredText_def by (intro wire_intros)+

lemma wire_decode_column [wire_intros]: "wire_reader (DecodeColumn v)"
  unfolding DecodeColumn_def read_vector_fields_def by (intro wire_intros)

interpretation describe: prefix_decoder "DecodeTtcDescribeInfoPrefix v" for v
  unfolding DecodeTtcDescribeInfoPrefix_def describe_reader_def by (intro prefix_decoder_run wire_intros)

lemma wire_read_stated [wire_intros]: "wire_reader (read_stated m s)"
  unfolding read_stated_def by (intro wire_intros)

lemma wire_read_cell [wire_intros]: "wire_reader (read_cell m f)"
  by (cases f) (auto simp: ReadRowid_def ReadUrowid_def SkipLongTrailer_def read_lob_def read_inline_lob_def Let_def
      intro!: wire_intros)

lemma wire_read_cells [wire_intros]: "wire_reader (read_cells m fs)"
  by (induction fs) (auto intro!: wire_intros)

interpretation row_data: prefix_decoder "DecodeTtcRowDataPrefix framing m" for framing m
  unfolding DecodeTtcRowDataPrefix_def row_data_reader_def by (intro prefix_decoder_run wire_intros)

interpretation scalar_row: prefix_decoder "DecodeScalarRowPrefix n m" for n m
  unfolding DecodeScalarRowPrefix_def scalar_row_reader_def by (intro prefix_decoder_run wire_intros)

text \<open>A row of scalar columns is the same through both decoders.\<close>

lemma read_cells_scalar: "read_cells m (replicate n SCALAR) = repeatr n (ReadLengthPrefixed m)"
  by (induction n) auto

lemma scalar_rows_agree: "DecodeTtcRowDataPrefix (replicate n SCALAR) m = DecodeScalarRowPrefix n m"
  by (simp add: DecodeTtcRowDataPrefix_def DecodeScalarRowPrefix_def row_data_reader_def scalar_row_reader_def read_cells_scalar)

lemma read_cells_length: "read_cells m fs r = Inr (vs, r') \<Longrightarrow> length vs = length fs"
  by (induction fs arbitrary: vs r r') (auto simp: ret_def bindr_simps)

lemma row_data_length: "DecodeTtcRowDataPrefix framing m bs = Inr (vs, n) \<Longrightarrow> length vs = length framing"
  by (auto simp: DecodeTtcRowDataPrefix_def run_prefix_def row_data_reader_def thenr_def bindr_simps map_sum_def
      dest: read_cells_length split: sum.splits)

section \<open>Properties\<close>

text \<open>
  A cell of a LOB column that arrives with its size and first bytes keeps all of it: what the row
  decoder stores is unpacked to the same size, prefix and locator.
\<close>

theorem inline_lob_round_trip:
  assumes "length (lob_prefix lob) < 2 ^ 32"
  shows "DecodeTtcInlineLob (EncodeTtcInlineLob lob) = Inr lob"
proof -
  have "unat (of_nat (length (lob_prefix lob)) :: u32) = length (lob_prefix lob)"
    using assms by (simp add: unat_of_nat_u32)
  then show ?thesis
    by (simp add: DecodeTtcInlineLob_def EncodeTtcInlineLob_def be_word_be_bytes_full Let_def)
qed

lemma inline_lob_round_trip_witness:
  "DecodeTtcInlineLob (EncodeTtcInlineLob \<lparr>lob_total = 300, lob_prefix = [1, 2], lob_locator = [9]\<rparr>) =
   Inr \<lparr>lob_total = 300, lob_prefix = [1, 2], lob_locator = [9]\<rparr>"
  by (rule inline_lob_round_trip) simp

definition scalar_frame :: "ttc_row_data \<Rightarrow> bytes" where
  "scalar_frame cells = TTC_MESSAGE_ROW_DATA # fold WriteLengthPrefixed cells []"

lemma scalar_row_parses:
  assumes "\<not> bad_row_bounds (length cells) maximum" "\<And>v. Some v \<in> set cells \<Longrightarrow> length v \<le> maximum"
  shows "parses (scalar_row_reader (length cells) maximum) (scalar_frame cells) (map null_view cells)"
proof -
  have "parses (repeatr (length cells) (ReadLengthPrefixed maximum)) (fold WriteLengthPrefixed cells []) (map null_view cells)"
    by (rule length_prefixed.reads_back_list) (use assms(2) in \<open>auto split: option.splits\<close>)
  then show ?thesis
    using assms(1) by (simp add: scalar_row_reader_def scalar_frame_def parses_byte_bind)
qed



lemma fetch_request_parses:
  "parses (bindr ReadByte (\<lambda>t. thenr (refuse (t \<noteq> TTC_MESSAGE_FUNCTION) MALFORMED) (bindr ReadByte (\<lambda>f.
     thenr (refuse (f \<noteq> 5) MALFORMED) (bindr ReadByte (\<lambda>sequence. bindr ReadUB4 (\<lambda>cursor. bindr ReadUB4 (\<lambda>rows.
     ret \<lparr>fetch_sequence = sequence, fetch_cursor_id = cursor, requested_rows = rows\<rparr>))))))))
     ([3, 5, fetch_sequence q] @ WriteUB4 (fetch_cursor_id q) [] @ WriteUB4 (requested_rows q) []) q"
proof -
  have "parses (bindr ReadUB4 (\<lambda>cursor. bindr ReadUB4 (\<lambda>rows.
     ret \<lparr>fetch_sequence = fetch_sequence q, fetch_cursor_id = cursor, requested_rows = rows\<rparr>)))
     (WriteUB4 (fetch_cursor_id q) [] @ WriteUB4 (requested_rows q) [] @ []) q"
    by (rule parses_bind[OF ub4.reads_back[OF TrueI]], rule parses_bind[OF ub4.reads_back[OF TrueI]]) (cases q, simp)
  then show ?thesis by (simp add: parses_byte_bind)
qed

text \<open>
  A fetch request that the encoder accepts is decoded to itself.
\<close>

theorem fetch_request_round_trip:
  assumes "EncodeTtcFetchRequest q = Inr message"
  shows "DecodeTtcFetchRequest message = Inr q"
proof -
  have ok: "ValidateFetch q = Inr ()" using assms by (simp add: EncodeTtcFetchRequest_def andthen_eq_Inr)
  have m: "message = [3, 5, fetch_sequence q] @ WriteUB4 (fetch_cursor_id q) [] @ WriteUB4 (requested_rows q) []"
    using assms ok ub4.put_appends[of "fetch_cursor_id q" "[3, 5, fetch_sequence q]"]
      ub4.put_appends[of "requested_rows q" "[3, 5, fetch_sequence q] @ WriteUB4 (fetch_cursor_id q) []"]
    by (simp add: EncodeTtcFetchRequest_def appends)
  have "decode_message fetch_request_reader message = Inr q"
    using parses_all[OF fetch_request_parses[of q, folded m]]
    by (auto simp: decode_message_def fetch_request_reader_def at_end_def thenr_def bindr_def ret_def Remaining_def
        reader_at_def refuse_def raise_def split: sum.splits if_split_asm)
  then show ?thesis by (simp add: DecodeTtcFetchRequest_def ok)
qed

lemma fetch_request_round_trip_witness:
  "DecodeTtcFetchRequest [3, 5, 9, 1, 7, 1, 100] = Inr \<lparr>fetch_sequence = 9, fetch_cursor_id = 7, requested_rows = 100\<rparr>"
  by (rule fetch_request_round_trip)
    (simp add: EncodeTtcFetchRequest_def ValidateFetch_def MAX_FETCH_ROWS_def appends WriteUB4_def WriteUniversal_eq
      universal_width.simps be_bytes_def word_le_nat_alt)

end
