(* ===== verification/Fetch_Response.thy ===== *)
theory Fetch_Response
  imports Ttc_Rows "HOL-Library.Sublist"
begin

text \<open>
  \<^verbatim>\<open>src/ttc_fetch_response.cpp\<close>: the response to a fetch, a sequence of TTC messages that
  arrives in pieces. The decoder keeps the rows it completed and, given more bytes, goes on after
  the last of them.
\<close>

section \<open>Row headers and continuations\<close>

text \<open>The columns a bit vector selects: bit \<open>c mod 8\<close> of byte \<open>c div 8\<close>.\<close>

definition selected :: "bytes \<Rightarrow> nat \<Rightarrow> nat list" where
  "selected bitmap column_count = filter (\<lambda>c. bit (bitmap ! (c div 8)) (c mod 8)) [0..<column_count]"

definition read_bit_vector :: "nat \<Rightarrow> nat list option reader" where
  "read_bit_vector column_count = bindr ReadUB4 (\<lambda>bit_vector_size.
     if bit_vector_size = 0 then ret None
     else if unat bit_vector_size \<noteq> (column_count + 7) div 8 then raise MALFORMED
     else bindr (read_stated (unat bit_vector_size) bit_vector_size) (\<lambda>v. ret (Some (selected v column_count))))"

definition row_header_reader :: "nat \<Rightarrow> nat list option reader" where
  "row_header_reader column_count = bindr ReadByte (\<lambda>t.
     thenr (refuse (t \<noteq> 6) MALFORMED)
     (thenr (Skip 1) (thenr ReadUB2 (thenr ReadUB4 (thenr ReadUB4 (thenr ReadUB2
     (bindr (read_bit_vector column_count) (\<lambda>present.
      bindr ReadUB4 (\<lambda>rowid_size.
      thenr (whenr (rowid_size \<noteq> 0) (discard (read_stated (unat rowid_size) rowid_size)))
      (ret present))))))))))"

definition DecodeRowHeaderPrefix :: "nat \<Rightarrow> nat list option decoder" where
  "DecodeRowHeaderPrefix column_count = run_prefix (row_header_reader column_count)"

text \<open>Try one form; when it does not fit, read the same bytes in another.\<close>

definition attempt :: "'a option reader \<Rightarrow> 'a reader \<Rightarrow> 'a reader" where
  "attempt m n = (\<lambda>r. case m r of
     Inl e \<Rightarrow> Inl e
   | Inr (None, _) \<Rightarrow> n r
   | Inr (Some a, r') \<Rightarrow> Inr (a, r'))"

definition read_selection :: "nat \<Rightarrow> nat \<Rightarrow> nat list option reader" where
  "read_selection column_count present_count =
     (if present_count > column_count then ret None
      else bindr (ReadRaw ((column_count + 7) div 8)) (\<lambda>bitmap.
        let present = selected bitmap column_count in
        ret (if length present \<noteq> present_count then None else Some present)))"

definition row_continuation_reader :: "nat \<Rightarrow> nat list reader" where
  "row_continuation_reader column_count =
     attempt (bindr ReadByte (\<lambda>t. thenr (refuse (t \<noteq> 21) MALFORMED)
               (bindr ReadUInt16LE (\<lambda>count. read_selection column_count (unat count)))))
     (attempt (thenr ReadByte (bindr ReadUB2 (\<lambda>count. read_selection column_count (unat count))))
       (raise MALFORMED))"

definition DecodeRowContinuationPrefix :: "nat \<Rightarrow> nat list decoder" where
  "DecodeRowContinuationPrefix column_count = run_prefix (row_continuation_reader column_count)"

definition empty_row_reader :: "ttc_row_data reader" where
  "empty_row_reader = bindr ReadByte (\<lambda>t. thenr (refuse (t \<noteq> TTC_MESSAGE_ROW_DATA) MALFORMED) (ret []))"

definition DecodePartialRowDataPrefix :: "nat list \<Rightarrow> column_framing list \<Rightarrow> ttc_row_data decoder" where
  "DecodePartialRowDataPrefix present framing bs =
     (if length framing \<noteq> length present then throw MALFORMED
      else if present = [] then run_prefix empty_row_reader bs
      else DecodeTtcRowDataPrefix framing (16 * 2 ^ 20) bs)"

section \<open>Rows from cells\<close>

definition place :: "nat list \<Rightarrow> ttc_row_data \<Rightarrow> ttc_row_data \<Rightarrow> ttc_row_data" where
  "place columns values row = fold (\<lambda>(c, v) row. row[c := v]) (zip columns values) row"

definition MergeChangedColumns :: "ttc_row_data \<Rightarrow> nat list \<Rightarrow> ttc_row_data \<Rightarrow> nat \<Rightarrow> ttc_row_data result" where
  "MergeChangedColumns previous present values column_count =
     (if length previous \<noteq> column_count \<or> length present \<noteq> length values then throw MALFORMED
      else Inr (place present values previous))"

definition WireCarryingColumns :: "oracle_column list \<Rightarrow> nat list option \<Rightarrow> nat list" where
  "WireCarryingColumns columns selection =
     (case selection of
        Some cs \<Rightarrow> filter (\<lambda>c. c < length columns \<and> \<not> omitted_from_row_data (columns ! c)) cs
      | None \<Rightarrow> filter (\<lambda>c. \<not> omitted_from_row_data (columns ! c)) [0..<length columns])"

definition ColumnFraming :: "oracle_column list \<Rightarrow> nat list \<Rightarrow> column_framing list" where
  "ColumnFraming columns wire_columns = map (\<lambda>i.
     let column = columns ! i in
     if inline_lob_cells column \<and> IsOracleLocatorType (oracle_type column)
     then (if oracle_type column = 119 \<or> oracle_type column = 127 then LOB_WITH_PREFIX else LOB_WITHOUT_PREFIX)
     else TtcFramingForType (oracle_type column)) wire_columns"

definition ExpandWireRow :: "nat \<Rightarrow> nat list \<Rightarrow> ttc_row_data \<Rightarrow> ttc_row_data result" where
  "ExpandWireRow column_count wire_columns values =
     (if length wire_columns \<noteq> length values then throw MALFORMED
      else if length values = column_count then Inr values
      else Inr (place wire_columns values (replicate column_count None)))"

section \<open>The decoder\<close>

text \<open>The fields of \<^verbatim>\<open>result\<close> are fields of the decoder; \<^verbatim>\<open>last_row\<close> is worked out by \<^verbatim>\<open>Take\<close>.\<close>

record fetch_decoder =
  fd_columns :: "oracle_column list"
  ttc_field_version :: u8
  preceding_row :: "ttc_row_data option"
  row_columns :: "nat list"
  row_framing :: "column_framing list"
  rows :: "ttc_row_data list"
  completion :: "ttc_error_info option"
  exhausted :: bool
  completed :: bool
  used_row_header_selection :: bool
  used_row_continuation :: bool
  bytes_consumed :: nat
  resume_offset :: nat
  kept_rows :: nat
  kept_row_header_selection :: bool
  kept_row_continuation :: bool

definition TtcFetchResponseDecoder :: "oracle_column list \<Rightarrow> u8 \<Rightarrow> ttc_row_data option \<Rightarrow> fetch_decoder result" where
  "TtcFetchResponseDecoder columns version preceding =
     (if columns = [] \<or> length columns > 4096 then throw MALFORMED
      else let wire = WireCarryingColumns columns None in
        Inr \<lparr>fd_columns = columns, ttc_field_version = version, preceding_row = preceding,
             row_columns = wire, row_framing = ColumnFraming columns wire,
             rows = [], completion = None, exhausted = False, completed = False,
             used_row_header_selection = False, used_row_continuation = False, bytes_consumed = 0,
             resume_offset = 0, kept_rows = 0, kept_row_header_selection = False, kept_row_continuation = False\<rparr>)"

definition PreviousRow :: "fetch_decoder \<Rightarrow> ttc_row_data option" where
  "PreviousRow d = (if rows d \<noteq> [] then Some (last (rows d)) else preceding_row d)"

text \<open>A row is final once no row header is waiting.\<close>

definition keep_row :: "nat list option \<Rightarrow> nat \<Rightarrow> ttc_row_data \<Rightarrow> fetch_decoder \<Rightarrow> fetch_decoder" where
  "keep_row header offset row d =
     (let d = d\<lparr>rows := rows d @ [row]\<rparr> in
      if header = None
      then d\<lparr>resume_offset := offset, kept_rows := length (rows d),
             kept_row_header_selection := used_row_header_selection d,
             kept_row_continuation := used_row_continuation d\<rparr>
      else d)"

text \<open>
  One message: the decoder, the row header that is waiting, the offset of the message and the bytes from
  there on. It answers the header that is waiting then, and the offset after the message.
\<close>

type_synonym message_handler =
  "fetch_decoder \<Rightarrow> nat list option \<Rightarrow> nat \<Rightarrow> bytes \<Rightarrow> fetch_decoder \<times> (nat list option \<times> nat) result"

definition row_header_message :: message_handler where
  "row_header_message d header offset at =
     (case DecodeRowHeaderPrefix (length (fd_columns d)) at of
        Inl e \<Rightarrow> (d, Inl e)
      | Inr (present, used) \<Rightarrow> (d, Inr (present, offset + used)))"

definition row_wire_columns :: "fetch_decoder \<Rightarrow> nat list option \<Rightarrow> nat list" where
  "row_wire_columns d header = (if header = None then row_columns d else WireCarryingColumns (fd_columns d) header)"

definition row_wire_framing :: "fetch_decoder \<Rightarrow> nat list option \<Rightarrow> column_framing list" where
  "row_wire_framing d header =
     (if header = None then row_framing d else ColumnFraming (fd_columns d) (row_wire_columns d header))"

definition read_wire_row :: "fetch_decoder \<Rightarrow> nat list option \<Rightarrow> ttc_row_data decoder" where
  "read_wire_row d header at =
     (if row_wire_columns d header = [] then Inr ([], 1)
      else DecodeTtcRowDataPrefix (row_wire_framing d header) (2 ^ 20) at)"

definition row_data_message :: message_handler where
  "row_data_message d header offset at =
     (case read_wire_row d header at of
        Inl e \<Rightarrow> (d, Inl e)
      | Inr (values, used) \<Rightarrow>
          if header = None then
            (case ExpandWireRow (length (fd_columns d)) (row_wire_columns d header) values of
               Inl e \<Rightarrow> (d, Inl e)
             | Inr row \<Rightarrow> (keep_row None (offset + used) row d, Inr (None, offset + used)))
          else
            (case PreviousRow d of
               None \<Rightarrow> (d, throw MALFORMED)
             | Some previous \<Rightarrow>
                 (case MergeChangedColumns previous (row_wire_columns d header) values (length (fd_columns d)) of
                    Inl e \<Rightarrow> (d, Inl e)
                  | Inr row \<Rightarrow> (keep_row None (offset + used) row (d\<lparr>used_row_header_selection := True\<rparr>),
                                Inr (None, offset + used)))))"

definition row_continuation_message :: message_handler where
  "row_continuation_message d header offset at =
     (case PreviousRow d of
        None \<Rightarrow> (d, throw MALFORMED)
      | Some previous \<Rightarrow>
          (case DecodeRowContinuationPrefix (length (fd_columns d)) at of
             Inl e \<Rightarrow> (d, Inl e)
           | Inr (present, used) \<Rightarrow>
               let wire = WireCarryingColumns (fd_columns d) (Some present) in
               (case DecodePartialRowDataPrefix wire (ColumnFraming (fd_columns d) wire) (drop used at) of
                  Inl e \<Rightarrow> (d, Inl e)
                | Inr (values, used') \<Rightarrow>
                    (case MergeChangedColumns previous wire values (length (fd_columns d)) of
                       Inl e \<Rightarrow> (d, Inl e)
                     | Inr row \<Rightarrow> (keep_row header (offset + used + used') row (d\<lparr>used_row_continuation := True\<rparr>),
                                   Inr (header, offset + used + used'))))))"

definition end_of_call_message :: message_handler where
  "end_of_call_message d header offset at =
     (case DecodeTtcErrorPrefix (ttc_field_version d) at of
        Inl e \<Rightarrow> (d, Inl e)
      | Inr (info, used) \<Rightarrow>
          let d = d\<lparr>exhausted := error_number info = 1403, completion := Some info\<rparr> in
          if error_number info \<noteq> 0 \<and> \<not> exhausted d
          then (d, Inl (ProtocolError INVALID_STATE (Some (error_number info))))
          else (d\<lparr>completed := exhausted d \<or> used = length at\<rparr>, Inr (header, offset + used)))"

definition status_reader :: "unit reader" where
  "status_reader = thenr ReadByte (thenr ReadUB4 (discard ReadUB2))"

definition fetch_message :: message_handler where
  "fetch_message d header offset at =
     (let message_type = hd at in
      if message_type = 6 then row_header_message d header offset at
      else if message_type = TTC_MESSAGE_ROW_DATA then row_data_message d header offset at
      else if message_type = 21 then row_continuation_message d header offset at
      else if message_type = TTC_MESSAGE_PARAMETER then
        (case DecodeTtcReturnParameterPrefix at of
           Inl e \<Rightarrow> (d, Inl e) | Inr (_, used) \<Rightarrow> (d, Inr (header, offset + used)))
      else if message_type = TTC_MESSAGE_ERROR then end_of_call_message d header offset at
      else if message_type = TTC_MESSAGE_STATUS then
        (case run_prefix status_reader at of
           Inl e \<Rightarrow> (d, Inl e) | Inr (_, used) \<Rightarrow> (d\<lparr>completed := True\<rparr>, Inr (header, offset + used)))
      else if message_type = 29 then (d\<lparr>completed := True\<rparr>, Inr (header, offset + 1))
      else if message_type = TTC_MESSAGE_SERVER_PIGGYBACK then
        (case SkippedTtcServerPiggybackBytes at of
           Inl e \<Rightarrow> (d, Inl e) | Inr used \<Rightarrow> (d, Inr (header, offset + used)))
      else (d, throw MALFORMED))"

section \<open>Every message consumes a byte\<close>

definition consumes :: "'a reader \<Rightarrow> bool" where
  "consumes get \<longleftrightarrow> (\<forall>r a r'. reader_ok r \<longrightarrow> get r = Inr (a, r') \<longrightarrow> rd_position r < rd_position r')"

lemma consumes_byte [simp]: "consumes ReadByte"
  by (auto simp: consumes_def ReadByte_def split: if_split_asm)

lemma consumes_bind:
  assumes "wire_reader m" "\<And>a. wire_reader (f a)" "consumes m \<or> (\<forall>a. consumes (f a))"
  shows "consumes (bindr m f)"
  unfolding consumes_def
proof (intro allI impI)
  fix r b r' assume ok: "reader_ok r" and g: "bindr m f r = Inr (b, r')"
  then obtain a r1 where s: "m r = Inr (a, r1)" "f a r1 = Inr (b, r')" by (auto simp: bindr_simps)
  note m = wire_reader.advances[OF assms(1) ok s(1)]
  then have f: "rd_position r1 \<le> rd_position r'" using wire_reader.advances[OF assms(2) _ s(2)] by blast
  have "rd_position r < rd_position r1 \<or> rd_position r1 < rd_position r'"
    using assms(3) ok s m unfolding consumes_def by blast
  with m f show "rd_position r < rd_position r'" by linarith
qed

lemmas consumes_bind_first = consumes_bind[OF _ _ disjI1]

lemma consumes_thenr: "\<lbrakk>wire_reader m; wire_reader n; consumes m \<or> consumes n\<rbrakk> \<Longrightarrow> consumes (thenr m n)"
  unfolding thenr_def by (rule consumes_bind) auto

lemma consumes_attempt: "\<lbrakk>consumes m; consumes n\<rbrakk> \<Longrightarrow> consumes (attempt m n)"
  unfolding consumes_def attempt_def by (auto split: sum.splits option.splits)

lemma consumes_run: "\<lbrakk>consumes get; run_prefix get bs = Inr (a, n)\<rbrakk> \<Longrightarrow> 0 < n"
  by (force simp: consumes_def run_prefix_def map_sum_def new_reader_def reader_ok_def split: sum.splits)

lemma wire_attempt [wire_intros]:
  assumes m: "wire_reader m" and n: "wire_reader n"
  shows "wire_reader (attempt m n)"
proof
  fix r assume ok: "reader_ok r"
  note mx = wire_reader.extends[OF m ok] wire_reader.fails[OF m ok] wire_reader.advances[OF m ok]
    and nx = wire_reader.extends[OF n ok] wire_reader.fails[OF n ok] wire_reader.advances[OF n ok]
  { fix a r' assume g: "attempt m n r = Inr (a, r')"
    then show "rd_data r' = rd_data r \<and> rd_position r \<le> rd_position r' \<and> reader_ok r'"
      using mx(3) nx(3) by (auto simp: attempt_def split: sum.splits option.splits)
    show "attempt m n (feed r ys) = Inr (a, feed r' ys)" for ys
      using g mx(1) nx(1) by (fastforce simp: attempt_def split: sum.splits option.splits) }
  { fix e ys assume "attempt m n r = Inl e"
    then show "Kind e = TRUNCATED \<or> attempt m n (feed r ys) = Inl e"
      using mx(1,2) nx(2) by (fastforce simp: attempt_def split: sum.splits option.splits) }
qed

lemma wire_read_selection [wire_intros]: "wire_reader (read_selection n k)"
  unfolding read_selection_def Let_def by (intro wire_intros)

lemma wire_row_continuation: "wire_reader (row_continuation_reader n)"
  unfolding row_continuation_reader_def by (intro wire_intros)

lemma wire_row_header: "wire_reader (row_header_reader n)"
  unfolding row_header_reader_def read_bit_vector_def by (intro wire_intros)

lemma wire_empty_row: "wire_reader empty_row_reader"
  unfolding empty_row_reader_def by (intro wire_intros)

lemma wire_status: "wire_reader status_reader"
  unfolding status_reader_def by (intro wire_intros)

interpretation row_header: prefix_decoder "DecodeRowHeaderPrefix n" for n
  unfolding DecodeRowHeaderPrefix_def by (intro prefix_decoder_run wire_row_header)

interpretation row_continuation: prefix_decoder "DecodeRowContinuationPrefix n" for n
  unfolding DecodeRowContinuationPrefix_def by (intro prefix_decoder_run wire_row_continuation)

interpretation status: prefix_decoder "run_prefix status_reader"
  by (intro prefix_decoder_run wire_status)

interpretation empty_row: prefix_decoder "run_prefix empty_row_reader"
  by (intro prefix_decoder_run wire_empty_row)

interpretation partial_row: prefix_decoder "DecodePartialRowDataPrefix present framing" for present framing
proof (unfold_locales, goal_cases)
  case (1 bs a n)
  then show ?case
    using empty_row.consumed_le row_data.consumed_le by (auto simp: DecodePartialRowDataPrefix_def split: if_split_asm)
next
  case (2 bs a n ys)
  then show ?case
    using empty_row.more_bytes row_data.more_bytes by (auto simp: DecodePartialRowDataPrefix_def split: if_split_asm)
next
  case (3 bs e ys)
  then show ?case
    using empty_row.more_error row_data.more_error by (auto simp: DecodePartialRowDataPrefix_def split: if_split_asm)
qed

section \<open>What a message does\<close>

text \<open>
  The effect of one message, as a value: it depends on the columns, the previous row and the waiting
  header, and not on how the decoder got there. The handlers apply it to the decoder.
\<close>

datatype effect =
    Refused protocol_error
  | Passed "nat list option" nat
  | NewRow "nat list option" nat ttc_row_data bool bool
  | EndOfCall "nat list option" ttc_error_info nat
  | Finished "nat list option" nat

fun apply_effect :: "effect \<Rightarrow> fetch_decoder \<Rightarrow> nat \<Rightarrow> nat \<Rightarrow> fetch_decoder \<times> (nat list option \<times> nat) result" where
  "apply_effect (Refused e) d offset remaining = (d, Inl e)"
| "apply_effect (Passed h used) d offset remaining = (d, Inr (h, offset + used))"
| "apply_effect (NewRow h used row from_header continued) d offset remaining =
     (keep_row h (offset + used) row
        (d\<lparr>used_row_header_selection := used_row_header_selection d \<or> from_header,
           used_row_continuation := used_row_continuation d \<or> continued\<rparr>),
      Inr (h, offset + used))"
| "apply_effect (EndOfCall h info used) d offset remaining =
     (let d = d\<lparr>exhausted := error_number info = 1403, completion := Some info\<rparr> in
      if error_number info \<noteq> 0 \<and> \<not> exhausted d then (d, Inl (ProtocolError INVALID_STATE (Some (error_number info))))
      else (d\<lparr>completed := exhausted d \<or> used = remaining\<rparr>, Inr (h, offset + used)))"
| "apply_effect (Finished h used) d offset remaining = (d\<lparr>completed := True\<rparr>, Inr (h, offset + used))"

definition row_effect :: "fetch_decoder \<Rightarrow> nat list option \<Rightarrow> ttc_row_data \<Rightarrow> nat \<Rightarrow> effect" where
  "row_effect d h values used =
     (if h = None then
        (case ExpandWireRow (length (fd_columns d)) (row_wire_columns d h) values of
           Inl e \<Rightarrow> Refused e | Inr row \<Rightarrow> NewRow None used row False False)
      else
        (case PreviousRow d of
           None \<Rightarrow> Refused (ProtocolError MALFORMED None)
         | Some previous \<Rightarrow>
             (case MergeChangedColumns previous (row_wire_columns d h) values (length (fd_columns d)) of
                Inl e \<Rightarrow> Refused e | Inr row \<Rightarrow> NewRow None used row True False)))"

definition continuation_effect :: "fetch_decoder \<Rightarrow> nat list option \<Rightarrow> bytes \<Rightarrow> effect" where
  "continuation_effect d h at =
     (case PreviousRow d of
        None \<Rightarrow> Refused (ProtocolError MALFORMED None)
      | Some previous \<Rightarrow>
          (case DecodeRowContinuationPrefix (length (fd_columns d)) at of
             Inl e \<Rightarrow> Refused e
           | Inr (present, used) \<Rightarrow>
               let wire = WireCarryingColumns (fd_columns d) (Some present) in
               (case DecodePartialRowDataPrefix wire (ColumnFraming (fd_columns d) wire) (drop used at) of
                  Inl e \<Rightarrow> Refused e
                | Inr (values, used') \<Rightarrow>
                    (case MergeChangedColumns previous wire values (length (fd_columns d)) of
                       Inl e \<Rightarrow> Refused e | Inr row \<Rightarrow> NewRow h (used + used') row False True))))"

definition effect_of :: "fetch_decoder \<Rightarrow> nat list option \<Rightarrow> bytes \<Rightarrow> effect" where
  "effect_of d h at =
     (let t = hd at in
      if t = 6 then (case DecodeRowHeaderPrefix (length (fd_columns d)) at of Inl e \<Rightarrow> Refused e | Inr (p, used) \<Rightarrow> Passed p used)
      else if t = TTC_MESSAGE_ROW_DATA then
        (case read_wire_row d h at of Inl e \<Rightarrow> Refused e | Inr (values, used) \<Rightarrow> row_effect d h values used)
      else if t = 21 then continuation_effect d h at
      else if t = TTC_MESSAGE_PARAMETER then
        (case DecodeTtcReturnParameterPrefix at of Inl e \<Rightarrow> Refused e | Inr (_, used) \<Rightarrow> Passed h used)
      else if t = TTC_MESSAGE_ERROR then
        (case DecodeTtcErrorPrefix (ttc_field_version d) at of Inl e \<Rightarrow> Refused e | Inr (info, used) \<Rightarrow> EndOfCall h info used)
      else if t = TTC_MESSAGE_STATUS then
        (case run_prefix status_reader at of Inl e \<Rightarrow> Refused e | Inr (_, used) \<Rightarrow> Finished h used)
      else if t = 29 then Finished h 1
      else if t = TTC_MESSAGE_SERVER_PIGGYBACK then
        (case SkippedTtcServerPiggybackBytes at of Inl e \<Rightarrow> Refused e | Inr used \<Rightarrow> Passed h used)
      else Refused (ProtocolError MALFORMED None))"

lemma fetch_message_effect: "fetch_message d h offset at = apply_effect (effect_of d h at) d offset (length at)"
proof -
  have "row_data_message d h offset at = apply_effect
      (case read_wire_row d h at of Inl e \<Rightarrow> Refused e | Inr (values, used) \<Rightarrow> row_effect d h values used) d offset (length at)"
    by (auto simp: row_data_message_def row_effect_def split: sum.split option.split prod.split)
  moreover have "row_continuation_message d h offset at = apply_effect (continuation_effect d h at) d offset (length at)"
    by (auto simp: row_continuation_message_def continuation_effect_def Let_def add.assoc split: sum.split option.split prod.split)
  ultimately show ?thesis
    by (simp add: fetch_message_def effect_of_def Let_def row_header_message_def end_of_call_message_def
        split: sum.split prod.split)
qed

text \<open>An effect counts what it consumed.\<close>

fun effect_used :: "effect \<Rightarrow> nat option" where
  "effect_used (Refused e) = None"
| "effect_used (Passed h used) = Some used"
| "effect_used (NewRow h used row a b) = Some used"
| "effect_used (EndOfCall h info used) = Some used"
| "effect_used (Finished h used) = Some used"

lemma decoders_consume:
  "DecodeRowHeaderPrefix n at = Inr (p, used) \<Longrightarrow> 0 < used"
  "DecodeRowContinuationPrefix n at = Inr (cs, used) \<Longrightarrow> 0 < used"
  "DecodeTtcRowDataPrefix framing m at = Inr (vs, used) \<Longrightarrow> 0 < used"
  "run_prefix status_reader at = Inr (u, used) \<Longrightarrow> 0 < used"
  "DecodeTtcReturnParameterPrefix at = Inr (u, used) \<Longrightarrow> 0 < used"
  "DecodeTtcErrorPrefix v at = Inr (info, used) \<Longrightarrow> 0 < used"
  "run_prefix server_piggyback_reader at = Inr (u, used) \<Longrightarrow> 0 < used"
proof -
  have "consumes (row_header_reader n)"
    unfolding row_header_reader_def by (intro consumes_bind_first wire_intros wire_row_header consumes_byte) (simp add: read_bit_vector_def, intro wire_intros)
  then show "DecodeRowHeaderPrefix n at = Inr (p, used) \<Longrightarrow> 0 < used"
    unfolding DecodeRowHeaderPrefix_def by (rule consumes_run)
  have "consumes (row_continuation_reader n)"
    unfolding row_continuation_reader_def
    by (intro consumes_attempt consumes_bind_first wire_intros consumes_byte consumes_thenr disjI1)
      (simp add: consumes_def raise_def)
  then show "DecodeRowContinuationPrefix n at = Inr (cs, used) \<Longrightarrow> 0 < used"
    unfolding DecodeRowContinuationPrefix_def by (rule consumes_run)
  have "consumes (row_data_reader framing m)"
    unfolding row_data_reader_def
    by (intro consumes_thenr wire_intros disjI2 consumes_bind_first consumes_byte)
  then show "DecodeTtcRowDataPrefix framing m at = Inr (vs, used) \<Longrightarrow> 0 < used"
    unfolding DecodeTtcRowDataPrefix_def by (rule consumes_run)
  have "consumes status_reader"
    unfolding status_reader_def by (intro consumes_thenr wire_intros disjI1 consumes_byte)
  then show "run_prefix status_reader at = Inr (u, used) \<Longrightarrow> 0 < used" by (rule consumes_run)
  have "consumes return_parameter_reader"
    unfolding return_parameter_reader_def by (intro consumes_bind_first wire_intros consumes_byte)
  then show "DecodeTtcReturnParameterPrefix at = Inr (u, used) \<Longrightarrow> 0 < used"
    unfolding DecodeTtcReturnParameterPrefix_def by (rule consumes_run)
  have "consumes (ttc_error_reader v)"
    unfolding ttc_error_reader_def by (intro consumes_bind_first wire_intros consumes_byte)
  then show "DecodeTtcErrorPrefix v at = Inr (info, used) \<Longrightarrow> 0 < used"
    unfolding DecodeTtcErrorPrefix_def by (rule consumes_run)
  have "consumes server_piggyback_reader"
    unfolding server_piggyback_reader_def by (intro consumes_thenr wire_intros disjI1 consumes_byte)
  then show "run_prefix server_piggyback_reader at = Inr (u, used) \<Longrightarrow> 0 < used" by (rule consumes_run)
qed

lemma piggyback_bytes:
  "SkippedTtcServerPiggybackBytes data = Inr used \<Longrightarrow> \<exists>u. run_prefix server_piggyback_reader data = Inr (u, used)"
  by (auto simp: SkippedTtcServerPiggybackBytes_def map_sum_def split: if_split_asm sum.splits)

interpretation piggyback_prefix: prefix_decoder "run_prefix server_piggyback_reader"
  by (rule prefix_decoder_run[OF server_piggyback.wire_reader_axioms])

lemma piggyback_more:
  "data \<noteq> [] \<Longrightarrow> (\<exists>e. SkippedTtcServerPiggybackBytes data = Inl e \<and> Kind e = TRUNCATED) \<or>
     SkippedTtcServerPiggybackBytes (data @ rest) = SkippedTtcServerPiggybackBytes data"
  using piggyback_prefix.prefix_cases[of data rest] by (auto simp: SkippedTtcServerPiggybackBytes_def)

lemma decoders_within:
  "DecodeRowHeaderPrefix n at = Inr (p, used) \<Longrightarrow> 0 < used \<and> used \<le> length at"
  "DecodeTtcRowDataPrefix framing m at = Inr (vs, used) \<Longrightarrow> 0 < used \<and> used \<le> length at"
  "run_prefix status_reader at = Inr (u, used) \<Longrightarrow> 0 < used \<and> used \<le> length at"
  "DecodeTtcReturnParameterPrefix at = Inr (u, used) \<Longrightarrow> 0 < used \<and> used \<le> length at"
  "DecodeTtcErrorPrefix v at = Inr (info, used) \<Longrightarrow> 0 < used \<and> used \<le> length at"
  "SkippedTtcServerPiggybackBytes at = Inr used \<Longrightarrow> 0 < used \<and> used \<le> length at"
  using decoders_consume row_header.consumed_le row_data.consumed_le status.consumed_le
    return_parameter_prefix.consumed_le ttc_error_prefix.consumed_le piggyback_prefix.consumed_le
    piggyback_bytes by metis+

lemma read_wire_row_used: "read_wire_row d h at = Inr (vs, used) \<Longrightarrow> at \<noteq> [] \<Longrightarrow> 0 < used \<and> used \<le> length at"
  by (auto simp: read_wire_row_def Suc_le_eq split: if_split_asm dest: decoders_within)

lemma effect_progress:
  assumes "at \<noteq> []" "effect_used (effect_of d h at) = Some used"
  shows "0 < used \<and> used \<le> length at"
proof -
  have cont: "0 < u \<and> u \<le> length at" if "effect_used (continuation_effect d h at) = Some u" for u
  proof -
    from that obtain present n1 where c: "DecodeRowContinuationPrefix (length (fd_columns d)) at = Inr (present, n1)"
      by (auto simp: continuation_effect_def split: option.splits sum.splits)
    with that obtain vs n2 where p: "DecodePartialRowDataPrefix (WireCarryingColumns (fd_columns d) (Some present))
        (ColumnFraming (fd_columns d) (WireCarryingColumns (fd_columns d) (Some present))) (drop n1 at) = Inr (vs, n2)"
      and u: "u = n1 + n2"
      by (auto simp: continuation_effect_def Let_def split: option.splits sum.splits)
    from decoders_consume(2)[OF c] row_continuation.consumed_le[OF c] partial_row.consumed_le[OF p] u show ?thesis
      by auto
  qed
  have row: "0 < u \<and> u \<le> length at" if "read_wire_row d h at = Inr (vs, n)" "effect_used (row_effect d h vs n) = Some u" for vs n u
    using that read_wire_row_used[OF that(1) assms(1)] by (auto simp: row_effect_def split: if_split_asm sum.splits option.splits)
  show ?thesis
    using assms cont row
    by (auto simp: effect_of_def Let_def Suc_le_eq split: if_split_asm sum.splits prod.splits dest: decoders_within)
qed

lemma fetch_message_progress:
  assumes "fetch_message d h offset at = (d', Inr (h', offset'))" "at \<noteq> []"
  shows "offset < offset' \<and> offset' \<le> offset + length at"
proof -
  have "\<exists>used. effect_used (effect_of d h at) = Some used \<and> offset' = offset + used"
    using assms(1) unfolding fetch_message_effect by (cases "effect_of d h at") (auto simp: Let_def split: if_split_asm)
  with effect_progress[OF assms(2)] show ?thesis by fastforce
qed

section \<open>The loop over the messages\<close>

function decode_loop :: "fetch_decoder \<Rightarrow> nat list option \<Rightarrow> nat \<Rightarrow> bytes \<Rightarrow> fetch_decoder \<times> nat result" where
  "decode_loop d header offset message =
     (if offset < length message \<and> \<not> completed d
      then case fetch_message d header offset (drop offset message) of
          (d, Inl e) \<Rightarrow> (d, Inl e)
        | (d, Inr (header, offset)) \<Rightarrow> decode_loop d header offset message
      else (d, Inr offset))"
  by pat_completeness auto
termination
proof (relation "measure (\<lambda>(d, header, offset, message). length message - offset)", goal_cases)
  case (2 d header offset message d' res x header' offset')
  then have "fetch_message d header offset (drop offset message) = (d', Inr (header', offset'))" by simp
  from fetch_message_progress[OF this] 2(1) show ?case by auto
qed simp

declare decode_loop.simps [simp del]

text \<open>What is kept between two calls, and what is decided again.\<close>

definition restart :: "fetch_decoder \<Rightarrow> fetch_decoder" where
  "restart d = d\<lparr>rows := take (kept_rows d) (rows d),
     used_row_header_selection := kept_row_header_selection d, used_row_continuation := kept_row_continuation d,
     completion := None, exhausted := False, completed := False\<rparr>"

definition Decode :: "bytes \<Rightarrow> (fetch_decoder, bool) action" where
  "Decode message d =
     (if length message < resume_offset d then (d, throw INVALID_STATE)
      else case decode_loop (restart d) None (resume_offset d) message of
          (d, Inl e) \<Rightarrow> (d, Inl e)
        | (d, Inr offset) \<Rightarrow> (d\<lparr>bytes_consumed := offset\<rparr>, Inr (completed d)))"

record fetch_response =
  response_rows :: "ttc_row_data list"
  response_last_row :: "ttc_row_data option"
  response_completion :: "ttc_error_info option"
  response_exhausted :: bool
  response_completed :: bool
  response_used_row_header_selection :: bool
  response_used_row_continuation :: bool
  response_bytes_consumed :: nat

definition TakeResponse :: "fetch_decoder \<Rightarrow> fetch_response" where
  "TakeResponse d = \<lparr>response_rows = rows d, response_last_row = PreviousRow d, response_completion = completion d,
     response_exhausted = exhausted d, response_completed = completed d,
     response_used_row_header_selection = used_row_header_selection d,
     response_used_row_continuation = used_row_continuation d, response_bytes_consumed = bytes_consumed d\<rparr>"

definition DecodeTtcFetchResponse ::
    "bytes \<Rightarrow> oracle_column list \<Rightarrow> u8 \<Rightarrow> ttc_row_data option \<Rightarrow> fetch_response result" where
  "DecodeTtcFetchResponse message columns version preceding =
     andthen (TtcFetchResponseDecoder columns version preceding) (\<lambda>d.
       case Decode message d of (d, Inl e) \<Rightarrow> Inl e | (d, Inr _) \<Rightarrow> Inr (TakeResponse d))"

section \<open>Lemmas\<close>

subsection \<open>More bytes\<close>

lemma read_wire_row_more:
  "at \<noteq> [] \<Longrightarrow> (\<exists>e. read_wire_row d h at = Inl e \<and> Kind e = TRUNCATED) \<or> read_wire_row d h (at @ rest) = read_wire_row d h at"
  using row_data.prefix_cases[of "row_wire_framing d h" "2 ^ 20" at rest] by (auto simp: read_wire_row_def)

lemma continuation_more:
  "(\<exists>e. continuation_effect d h at = Refused e \<and> Kind e = TRUNCATED) \<or>
   continuation_effect d h (at @ rest) = continuation_effect d h at"
proof (cases "PreviousRow d")
  case (Some previous)
  let ?n = "length (fd_columns d)"
  show ?thesis
  proof (cases "DecodeRowContinuationPrefix ?n at")
    case (Inl e)
    then show ?thesis using Some row_continuation.more_error[OF Inl, of rest] by (auto simp: continuation_effect_def)
  next
    case (Inr x)
    obtain present used where x: "x = (present, used)" by (cases x)
    let ?wire = "WireCarryingColumns (fd_columns d) (Some present)"
    have c: "DecodeRowContinuationPrefix ?n (at @ rest) = Inr (present, used)"
      using row_continuation.more_bytes Inr x by blast
    have "drop used (at @ rest) = drop used at @ rest"
      using row_continuation.consumed_le Inr x by fastforce
    with partial_row.prefix_cases[of ?wire "ColumnFraming (fd_columns d) ?wire" "drop used at" rest] Some Inr x c
    show ?thesis by (auto simp: continuation_effect_def Let_def)
  qed
qed (simp add: continuation_effect_def)

lemma effect_more:
  assumes "at \<noteq> []"
  shows "(\<exists>e. effect_of d h at = Refused e \<and> Kind e = TRUNCATED) \<or> effect_of d h (at @ rest) = effect_of d h at"
proof -
  have hd: "hd (at @ rest) = hd at" using assms by simp
  consider "hd at = 6" | "hd at = 7" | "hd at = 21" | "hd at = 8" | "hd at = 4" | "hd at = 9" | "hd at = 29" | "hd at = 23"
    | "hd at \<notin> {6, 7, 21, 8, 4, 9, 29, 23}" by auto
  then show ?thesis
  proof cases
    case 1
    then show ?thesis using row_header.prefix_cases[of "length (fd_columns d)" at rest] by (auto simp: effect_of_def hd)
  next
    case 2
    then show ?thesis using read_wire_row_more[OF assms, of d h rest] by (auto simp: effect_of_def hd)
  next
    case 3
    then show ?thesis using continuation_more[of d h at rest] by (auto simp: effect_of_def hd)
  next
    case 4
    then show ?thesis using return_parameter_prefix.prefix_cases[of at rest] by (auto simp: effect_of_def hd)
  next
    case 5
    then show ?thesis using ttc_error_prefix.prefix_cases[of "ttc_field_version d" at rest] by (auto simp: effect_of_def hd)
  next
    case 6
    then show ?thesis using status.prefix_cases[of at rest] by (auto simp: effect_of_def hd)
  next
    case 7
    then show ?thesis by (simp add: effect_of_def hd)
  next
    case 8
    then show ?thesis using piggyback_more[OF assms, of rest] by (auto simp: effect_of_def hd)
  next
    case 9
    then show ?thesis by (simp add: effect_of_def hd)
  qed
qed

subsection \<open>What one message leaves alone\<close>

text \<open>
  The completion and the count of consumed bytes are never read: a decoder that differs in them
  differs in them afterwards, unless the message set the completion.
\<close>

lemma effect_of_frame: "effect_of (d\<lparr>completion := c, bytes_consumed := n\<rparr>) h at = effect_of d h at"
proof -
  let ?d = "d\<lparr>completion := c, bytes_consumed := n\<rparr>"
  have c: "fd_columns ?d = fd_columns d" "ttc_field_version ?d = ttc_field_version d" "row_framing ?d = row_framing d" by simp_all
  have w: "row_wire_columns ?d = row_wire_columns d" by (simp add: row_wire_columns_def fun_eq_iff)
  have f: "row_wire_framing ?d = row_wire_framing d" by (simp add: row_wire_framing_def w fun_eq_iff)
  have p: "PreviousRow ?d = PreviousRow d" by (simp add: PreviousRow_def)
  have "read_wire_row ?d = read_wire_row d" by (simp add: read_wire_row_def w f fun_eq_iff)
  moreover have "row_effect ?d = row_effect d" unfolding row_effect_def[abs_def] w p c ..
  moreover have "continuation_effect ?d = continuation_effect d" unfolding continuation_effect_def[abs_def] p c ..
  ultimately show ?thesis unfolding effect_of_def c by (simp only:)
qed

lemma apply_effect_frame:
  assumes "apply_effect eff d offset remaining = (d', r)"
  shows "\<exists>c'. apply_effect eff (d\<lparr>completion := c, bytes_consumed := n\<rparr>) offset remaining =
      (d'\<lparr>completion := c', bytes_consumed := n\<rparr>, r) \<and> (c' = completion d' \<or> c' = c \<and> completion d' = completion d)"
proof -
  have "apply_effect eff (d\<lparr>completion := c, bytes_consumed := n\<rparr>) offset remaining =
      (d'\<lparr>completion := (case eff of EndOfCall _ info _ \<Rightarrow> Some info | _ \<Rightarrow> c), bytes_consumed := n\<rparr>, r)"
    using assms by (cases eff) (auto simp: Let_def keep_row_def intro!: fetch_decoder.equality split: if_split_asm)
  moreover have "case eff of EndOfCall _ info _ \<Rightarrow> completion d' = Some info | _ \<Rightarrow> completion d' = completion d"
    using assms by (cases eff) (auto simp: Let_def keep_row_def split: if_split_asm)
  ultimately show ?thesis by (cases eff) auto
qed

lemma fetch_message_frame:
  assumes "fetch_message d h offset at = (d', r)"
  shows "\<exists>c'. fetch_message (d\<lparr>completion := c, bytes_consumed := n\<rparr>) h offset at =
      (d'\<lparr>completion := c', bytes_consumed := n\<rparr>, r) \<and> (c' = completion d' \<or> c' = c \<and> completion d' = completion d)"
  using assms apply_effect_frame unfolding fetch_message_effect effect_of_frame by blast

definition zero_completion :: "ttc_error_info option \<Rightarrow> bool" where
  "zero_completion c \<longleftrightarrow> (\<forall>info. c = Some info \<longrightarrow> error_number info = 0)"

text \<open>A message that does not end the response.\<close>

lemma fetch_message_open:
  assumes "fetch_message d h offset at = (d', Inr (h', offset'))" "\<not> completed d'" "\<not> exhausted d" "zero_completion (completion d)"
  shows "\<not> exhausted d' \<and> zero_completion (completion d')"
  using assms unfolding fetch_message_effect
  by (cases "effect_of d h at") (auto simp: Let_def keep_row_def zero_completion_def split: if_split_asm)

text \<open>A row is kept for good, or the message changes nothing that a restart keeps.\<close>

lemma fetch_message_kept:
  assumes "fetch_message d h offset at = (d', r)" "kept_rows d \<le> length (rows d)"
  shows "kept_rows d' \<le> length (rows d') \<and>
    ((restart d' = restart d \<and> resume_offset d' = resume_offset d) \<or>
     (\<exists>offset'. r = Inr (None, offset') \<and> resume_offset d' = offset' \<and> completed d' = completed d \<and>
        restart d' = d'\<lparr>completion := None, exhausted := False, completed := False\<rparr>))"
  using assms unfolding fetch_message_effect
  by (cases "effect_of d h at") (auto simp: Let_def keep_row_def restart_def split: if_split_asm)

text \<open>A message of which all the bytes are there does the same with more of them, if it does not end the response.\<close>

lemma fetch_message_more:
  assumes "fetch_message d h offset at = (d', Inr (h', offset'))" "\<not> completed d'" "\<not> completed d" "at \<noteq> []"
  shows "fetch_message d h offset (at @ rest) = (d', Inr (h', offset'))"
proof -
  have e: "effect_of d h (at @ rest) = effect_of d h at"
    using effect_more[OF assms(4), of d h rest] assms(1) unfolding fetch_message_effect by auto
  have "used \<noteq> length (at @ rest)" if "effect_of d h at = EndOfCall hh info used" "used \<noteq> length at" for hh info used
    using that effect_progress[OF assms(4), of d h used] by auto
  with assms(1,2) show ?thesis
    unfolding fetch_message_effect e
    by (cases "effect_of d h at") (auto simp: Let_def split: if_split_asm)
qed

subsection \<open>The decoder over the whole response\<close>

text \<open>
  \<open>on_the_way M d\<^sub>0\<close> holds of the states the loop passes, between two messages, when it decodes the
  whole response \<open>M\<close> from the fresh decoder \<open>d\<^sub>0\<close>.
\<close>

inductive on_the_way :: "bytes \<Rightarrow> fetch_decoder \<Rightarrow> fetch_decoder \<Rightarrow> nat list option \<Rightarrow> nat \<Rightarrow> bool"
  for M d\<^sub>0 where
  way_start: "on_the_way M d\<^sub>0 d\<^sub>0 None 0"
| way_message: "\<lbrakk>on_the_way M d\<^sub>0 d h offset; offset < length M; \<not> completed d;
     fetch_message d h offset (drop offset M) = (d', Inr (h', offset')); \<not> completed d'\<rbrakk> \<Longrightarrow>
     on_the_way M d\<^sub>0 d' h' offset'"

definition fresh_decoder :: "fetch_decoder \<Rightarrow> bool" where
  "fresh_decoder d \<longleftrightarrow> (\<exists>columns version preceding. TtcFetchResponseDecoder columns version preceding = Inr d)"

lemma fresh_decoderD:
  assumes "fresh_decoder d"
  shows "restart d = d" "resume_offset d = 0" "kept_rows d = 0" "rows d = []" "completion d = None"
    "\<not> completed d" "\<not> exhausted d" "bytes_consumed d = 0"
proof -
  obtain columns version preceding where "TtcFetchResponseDecoder columns version preceding = Inr d"
    using assms by (auto simp: fresh_decoder_def)
  then have d: "d = \<lparr>fd_columns = columns, ttc_field_version = version, preceding_row = preceding,
      row_columns = WireCarryingColumns columns None, row_framing = ColumnFraming columns (WireCarryingColumns columns None),
      rows = [], completion = None, exhausted = False, completed = False,
      used_row_header_selection = False, used_row_continuation = False, bytes_consumed = 0,
      resume_offset = 0, kept_rows = 0, kept_row_header_selection = False, kept_row_continuation = False\<rparr>"
    by (simp add: TtcFetchResponseDecoder_def Let_def split: if_split_asm)
  show "restart d = d" "resume_offset d = 0" "kept_rows d = 0" "rows d = []" "completion d = None"
    "\<not> completed d" "\<not> exhausted d" "bytes_consumed d = 0"
    by (simp_all add: d restart_def)
qed

lemma on_the_way_facts:
  assumes "on_the_way M d\<^sub>0 d h offset" "fresh_decoder d\<^sub>0"
  shows "offset \<le> length M \<and> \<not> completed d \<and> \<not> exhausted d \<and> zero_completion (completion d) \<and>
    decode_loop d\<^sub>0 None 0 M = decode_loop d h offset M"
  using assms(1)
proof induction
  case way_start
  then show ?case using fresh_decoderD[OF assms(2)] by (simp add: zero_completion_def)
next
  case (way_message d h offset d' h' offset')
  have "drop offset M \<noteq> []" using way_message.hyps(2) by simp
  from fetch_message_progress[OF way_message.hyps(4) this] way_message.hyps(2)
  have "offset' \<le> length M" by simp
  with fetch_message_open[OF way_message.hyps(4)] way_message show ?case
    by (simp add: decode_loop.simps[of d h offset M])
qed

text \<open>
  The bookkeeping of a decoder that has seen prefixes of \<open>M\<close>: where it resumes, the loop over the whole
  response passes, with the same rows.
\<close>

definition resumable :: "bytes \<Rightarrow> fetch_decoder \<Rightarrow> fetch_decoder \<Rightarrow> bool" where
  "resumable M d\<^sub>0 d \<longleftrightarrow> kept_rows d \<le> length (rows d) \<and>
     (\<exists>c n. on_the_way M d\<^sub>0 ((restart d)\<lparr>completion := c, bytes_consumed := n\<rparr>) None (resume_offset d))"

lemma restart_restart [simp]: "restart (restart d) = restart d"
  by (simp add: restart_def)

lemma restart_bytes: "restart (d\<lparr>bytes_consumed := n\<rparr>) = (restart d)\<lparr>bytes_consumed := n\<rparr>"
  by (simp add: restart_def)

lemma loop_resumable:
  assumes "decode_loop d h offset m = (d', r)" "M = m @ rest" "fresh_decoder d\<^sub>0" "\<not> completed d" "\<not> exhausted d"
    "on_the_way M d\<^sub>0 (d\<lparr>completion := c, bytes_consumed := n\<rparr>) h offset" "resumable M d\<^sub>0 d"
  shows "resumable M d\<^sub>0 d'"
  using assms
proof (induction d h offset m arbitrary: c rule: decode_loop.induct)
  case (1 d h offset m)
  show ?case
  proof (cases "offset < length m")
    case False
    with "1.prems"(1,7) show ?thesis by (simp add: decode_loop.simps[of d h offset m])
  next
    case True
    obtain d1 r1 where m: "fetch_message d h offset (drop offset m) = (d1, r1)" by (metis surj_pair)
    have ne: "drop offset m \<noteq> []" using True by simp
    have kr: "kept_rows d \<le> length (rows d)" using "1.prems"(7) by (simp add: resumable_def)
    note kept = fetch_message_kept[OF m kr]
    have same: "resumable M d\<^sub>0 d1" if "restart d1 = restart d" "resume_offset d1 = resume_offset d"
      using that kept "1.prems"(7) by (simp add: resumable_def)
    show ?thesis
    proof (cases r1)
      case (Inl e)
      with m True "1.prems"(1,4) have "d' = d1" by (simp add: decode_loop.simps[of d h offset m])
      with same kept Inl show ?thesis by auto
    next
      case (Inr x)
      obtain h1 offset1 where x: "x = (h1, offset1)" by (cases x)
      note m1 = m[unfolded Inr x]
      have loop: "decode_loop d1 h1 offset1 m = (d', r)"
        using "1.prems"(1,4) True m1 by (simp add: decode_loop.simps[of d h offset m])
      show ?thesis
      proof (cases "completed d1")
        case True
        with loop have "d' = d1" by (simp add: decode_loop.simps[of d1 h1 offset1 m])
        then show ?thesis using same kept True "1.prems"(4) by auto
      next
        case False
        have "fetch_message d h offset (drop offset m @ rest) = (d1, Inr (h1, offset1))"
          by (rule fetch_message_more[OF m1 False "1.prems"(4) ne])
        moreover have "drop offset M = drop offset m @ rest" using "1.prems"(2) True by simp
        ultimately have M: "fetch_message d h offset (drop offset M) = (d1, Inr (h1, offset1))" by simp
        from fetch_message_frame[OF M, where c = c and n = n] obtain c1 where
          "fetch_message (d\<lparr>completion := c, bytes_consumed := n\<rparr>) h offset (drop offset M) =
            (d1\<lparr>completion := c1, bytes_consumed := n\<rparr>, Inr (h1, offset1))" by blast
        from way_message[OF "1.prems"(6) _ _ this] True "1.prems"(2,4) False
        have way: "on_the_way M d\<^sub>0 (d1\<lparr>completion := c1, bytes_consumed := n\<rparr>) h1 offset1" by simp
        then have ex: "\<not> exhausted d1" using on_the_way_facts[OF _ "1.prems"(3)] by fastforce
        have "resumable M d\<^sub>0 d1"
          using kept
        proof (elim conjE disjE exE)
          assume "resume_offset d1 = resume_offset d" "restart d1 = restart d"
          then show ?thesis by (rule same[rotated])
        next
          fix o' assume k: "kept_rows d1 \<le> length (rows d1)" "r1 = Inr (None, o')" "resume_offset d1 = o'"
            "completed d1 = completed d" "restart d1 = d1\<lparr>completion := None, exhausted := False, completed := False\<rparr>"
          then have "h1 = None" "offset1 = resume_offset d1" using Inr x by simp_all
          moreover have "(restart d1)\<lparr>completion := c1, bytes_consumed := n\<rparr> = d1\<lparr>completion := c1, bytes_consumed := n\<rparr>"
            unfolding k(5) using False ex by (intro fetch_decoder.equality) simp_all
          ultimately show ?thesis unfolding resumable_def using k(1) way by metis
        qed
        from "1.IH"[OF _ m1[symmetric] refl refl loop "1.prems"(2,3) False ex way this] True "1.prems"(4)
        show ?thesis by simp
      qed
    qed
  qed
qed

lemma resumable_restart: "resumable M d\<^sub>0 d \<Longrightarrow> resumable M d\<^sub>0 (restart d)"
  unfolding resumable_def restart_restart by (simp add: restart_def)

lemma resumable_bytes: "resumable M d\<^sub>0 d \<Longrightarrow> resumable M d\<^sub>0 (d\<lparr>bytes_consumed := n\<rparr>)"
  unfolding resumable_def restart_bytes by auto

lemma Decode_resumable:
  assumes "resumable M d\<^sub>0 d" "prefix m M" "fresh_decoder d\<^sub>0"
  shows "resumable M d\<^sub>0 (fst (Decode m d))"
proof (cases "length m < resume_offset d")
  case False
  obtain d' r where l: "decode_loop (restart d) None (resume_offset d) m = (d', r)" by (metis surj_pair)
  obtain rest where M: "M = m @ rest" using assms(2) by (auto elim: prefixE)
  obtain c n where "on_the_way M d\<^sub>0 ((restart d)\<lparr>completion := c, bytes_consumed := n\<rparr>) None (resume_offset d)"
    using assms(1) by (auto simp: resumable_def)
  from loop_resumable[OF l M assms(3) _ _ this resumable_restart[OF assms(1)]]
  have "resumable M d\<^sub>0 d'" by (simp add: restart_def)
  then show ?thesis using False l resumable_bytes by (cases r) (auto simp: Decode_def)
qed (use assms(1) in \<open>simp add: Decode_def\<close>)

text \<open>A decoder that is given the response piece by piece, whatever each call answers.\<close>

definition decode_pieces :: "bytes list \<Rightarrow> fetch_decoder \<Rightarrow> fetch_decoder" where
  "decode_pieces = fold (\<lambda>m d. fst (Decode m d))"

lemma decode_pieces_resumable:
  "\<lbrakk>\<forall>m\<in>set pieces. prefix m M; fresh_decoder d\<^sub>0; resumable M d\<^sub>0 d\<rbrakk> \<Longrightarrow> resumable M d\<^sub>0 (decode_pieces pieces d)"
  unfolding decode_pieces_def by (induction pieces arbitrary: d) (auto intro: Decode_resumable)

lemma loop_frame:
  assumes "decode_loop d h offset m = (d', r)"
  shows "\<exists>c'. decode_loop (d\<lparr>completion := c, bytes_consumed := n\<rparr>) h offset m = (d'\<lparr>completion := c', bytes_consumed := n\<rparr>, r) \<and>
    (c' = completion d' \<or> c' = c \<and> completion d' = completion d)"
  using assms
proof (induction d h offset m arbitrary: c rule: decode_loop.induct)
  case (1 d h offset m)
  let ?d = "d\<lparr>completion := c, bytes_consumed := n\<rparr>"
  show ?case
  proof (cases "offset < length m \<and> \<not> completed d")
    case False
    with "1.prems" show ?thesis
      by (intro exI[of _ c]) (auto simp: decode_loop.simps[of _ h offset m])
  next
    case True
    obtain d1 r1 where m: "fetch_message d h offset (drop offset m) = (d1, r1)" by (metis surj_pair)
    from fetch_message_frame[OF m, where c = c and n = n] obtain c1 where
      f: "fetch_message ?d h offset (drop offset m) = (d1\<lparr>completion := c1, bytes_consumed := n\<rparr>, r1)"
      "c1 = completion d1 \<or> c1 = c \<and> completion d1 = completion d" by blast
    show ?thesis
    proof (cases r1)
      case (Inl e)
      then show ?thesis using True "1.prems" m f
        by (auto simp: decode_loop.simps[of d h offset m] decode_loop.simps[of ?d h offset m])
    next
      case (Inr x)
      obtain h1 offset1 where x: "x = (h1, offset1)" by (cases x)
      have loop: "decode_loop d1 h1 offset1 m = (d', r)"
        using "1.prems" True m Inr x by (simp add: decode_loop.simps[of d h offset m])
      have eq: "decode_loop ?d h offset m = decode_loop (d1\<lparr>completion := c1, bytes_consumed := n\<rparr>) h1 offset1 m"
        using True f(1) Inr x by (simp add: decode_loop.simps[of ?d h offset m])
      from "1.IH"[OF True m[symmetric] Inr x[symmetric] loop, of c1] f(2) show ?thesis unfolding eq by metis
    qed
  qed
qed

lemma pieces_agree:
  assumes "TtcFetchResponseDecoder columns version preceding = Inr d\<^sub>0" "\<forall>m\<in>set pieces. prefix m M"
  shows "case Decode M (decode_pieces pieces d\<^sub>0) of
      (d, Inl e) \<Rightarrow> DecodeTtcFetchResponse M columns version preceding = Inl e
    | (d, Inr finished) \<Rightarrow>
        \<exists>whole. DecodeTtcFetchResponse M columns version preceding = Inr whole \<and> finished = response_completed whole \<and>
          (TakeResponse d)\<lparr>response_completion := None\<rparr> = whole\<lparr>response_completion := None\<rparr> \<and>
          (completion d = response_completion whole \<or>
           completion d = None \<and> (\<exists>info. response_completion whole = Some info \<and> error_number info = 0))"
proof -
  have fresh: "fresh_decoder d\<^sub>0" using assms(1) by (auto simp: fresh_decoder_def)
  note f = fresh_decoderD[OF fresh]
  let ?d = "decode_pieces pieces d\<^sub>0"
  have "d\<^sub>0\<lparr>completion := None, bytes_consumed := 0\<rparr> = d\<^sub>0" using f by (intro fetch_decoder.equality) simp_all
  then have "resumable M d\<^sub>0 d\<^sub>0" unfolding resumable_def f by (metis le0 list.size(3) way_start)
  then have res: "resumable M d\<^sub>0 ?d" by (rule decode_pieces_resumable[OF assms(2) fresh])
  then obtain c n where way: "on_the_way M d\<^sub>0 ((restart ?d)\<lparr>completion := c, bytes_consumed := n\<rparr>) None (resume_offset ?d)"
    by (auto simp: resumable_def)
  note facts = on_the_way_facts[OF way fresh]
  obtain d1 r where l: "decode_loop (restart ?d) None (resume_offset ?d) M = (d1, r)" by (metis surj_pair)
  from loop_frame[OF l, where c = c and n = n] obtain c1 where
    e: "decode_loop ((restart ?d)\<lparr>completion := c, bytes_consumed := n\<rparr>) None (resume_offset ?d) M =
        (d1\<lparr>completion := c1, bytes_consumed := n\<rparr>, r)"
      "c1 = completion d1 \<or> c1 = c \<and> completion d1 = completion (restart ?d)" by blast
  have whole: "DecodeTtcFetchResponse M columns version preceding =
      (case r of Inl e \<Rightarrow> Inl e | Inr offset \<Rightarrow> Inr (TakeResponse (d1\<lparr>completion := c1, bytes_consumed := offset\<rparr>)))"
    using facts e(1) f assms(1) by (simp add: DecodeTtcFetchResponse_def Decode_def split: sum.split)
  have piece: "Decode M ?d = (case r of Inl e \<Rightarrow> (d1, Inl e) | Inr offset \<Rightarrow> (d1\<lparr>bytes_consumed := offset\<rparr>, Inr (completed d1)))"
    using facts l by (simp add: Decode_def split: sum.split)
  have "c1 = completion d1 \<or> completion d1 = None \<and> (\<exists>info. c1 = Some info \<and> error_number info = 0)"
    using e(2) facts by (cases c) (auto simp: zero_completion_def restart_def)
  then show ?thesis unfolding whole piece by (cases r) (auto simp: TakeResponse_def PreviousRow_def)
qed

section \<open>Properties\<close>

text \<open>
  C2. Decoding a response as it arrives gives what decoding it whole gives: a decoder that was handed
  any prefixes of the response, in any order, with whatever outcome, and then the whole response,
  fails with the same error as a single pass, or finishes with the same rows, the same last row,
  flags and consumed bytes. The one thing it may lose is an end-of-call without an error that the
  server sent before later rows.
\<close>

theorem incremental_decoding:
  assumes "TtcFetchResponseDecoder columns version preceding = Inr d\<^sub>0" "\<forall>m\<in>set pieces. prefix m M"
  shows "case Decode M (decode_pieces pieces d\<^sub>0) of
      (d, Inl e) \<Rightarrow> DecodeTtcFetchResponse M columns version preceding = Inl e
    | (d, Inr finished) \<Rightarrow>
        \<exists>whole. DecodeTtcFetchResponse M columns version preceding = Inr whole \<and> finished = response_completed whole \<and>
          (TakeResponse d)\<lparr>response_completion := None\<rparr> = whole\<lparr>response_completion := None\<rparr> \<and>
          (completion d = response_completion whole \<or>
           completion d = None \<and> (\<exists>info. response_completion whole = Some info \<and> error_number info = 0))"
  by (rule pieces_agree[OF assms])

lemmas reader_eval = run_prefix_def new_reader_def bindr_def thenr_def ret_def raise_def refuse_def whenr_def discard_def
  ReadByte_def ReadRaw_def Skip_def Remaining_def ReadUB2_def ReadUB4_def ReadUB8_def ReadUniversal_def
  ReadLengthPrefixed_def TNS_NULL_LENGTH_INDICATOR_def TNS_LONG_LENGTH_INDICATOR_def

lemmas fetch_eval = TtcFetchResponseDecoder_def WireCarryingColumns_def ColumnFraming_def OracleColumn_def
  TtcFramingForType_def IsOracleLocatorType_def IsOracleLobType_def IsOracleLongType_def Let_def
  Decode_def restart_def decode_loop.simps fetch_message_def row_data_message_def read_wire_row_def row_wire_columns_def
  row_wire_framing_def DecodeTtcRowDataPrefix_def row_data_reader_def bad_row_bounds_def ExpandWireRow_def keep_row_def
  status_reader_def

definition letter_decoder :: fetch_decoder where
  "letter_decoder = \<lparr>fd_columns = [OracleColumn], ttc_field_version = 12, preceding_row = None,
     row_columns = [0], row_framing = [SCALAR], rows = [], completion = None, exhausted = False, completed = False,
     used_row_header_selection = False, used_row_continuation = False, bytes_consumed = 0,
     resume_offset = 0, kept_rows = 0, kept_row_header_selection = False, kept_row_continuation = False\<rparr>"

lemma letter_decoder: "TtcFetchResponseDecoder [OracleColumn] 12 None = Inr letter_decoder"
  by (simp add: letter_decoder_def fetch_eval)

lemma incremental_decoding_witness:
  "\<exists>whole. DecodeTtcFetchResponse [7, 1, 65, 7, 1, 66, 29] [OracleColumn] 12 None = Inr whole \<and>
     response_completed whole \<and> response_rows whole = [[Some [65]], [Some [66]]] \<and> response_bytes_consumed whole = 7"
proof -
  let ?kept = "letter_decoder\<lparr>rows := [[Some [65]]], resume_offset := 3, kept_rows := 1\<rparr>"
  let ?done = "letter_decoder\<lparr>rows := [[Some [65]], [Some [66]]], completed := True, bytes_consumed := 7,
         resume_offset := 6, kept_rows := 2\<rparr>"
  have "Decode [7, 1, 65, 7] letter_decoder = (?kept, throw TRUNCATED)"
    by (simp add: letter_decoder_def fetch_eval reader_eval)
  then have "decode_pieces [[7, 1, 65, 7]] letter_decoder = ?kept" by (simp add: decode_pieces_def)
  moreover have "Decode [7, 1, 65, 7, 1, 66, 29] ?kept = (?done, Inr True)"
    by (simp add: letter_decoder_def fetch_eval reader_eval)
  moreover have "\<forall>m\<in>set [[7, 1, 65, 7]]. prefix m [7, 1, 65, 7, 1, 66, 29 :: u8]" by simp
  ultimately obtain whole where w: "DecodeTtcFetchResponse [7, 1, 65, 7, 1, 66, 29] [OracleColumn] 12 None = Inr whole"
    "response_completed whole" "(TakeResponse ?done)\<lparr>response_completion := None\<rparr> = whole\<lparr>response_completion := None\<rparr>"
    using incremental_decoding[OF letter_decoder, of "[[7, 1, 65, 7]]" "[7, 1, 65, 7, 1, 66, 29]"] by auto
  show ?thesis
    using w(1,2) arg_cong[OF w(3), of response_rows] arg_cong[OF w(3), of response_bytes_consumed]
    by (simp add: TakeResponse_def)
qed

text \<open>
  The loss is real: after a row, an end-of-call that reports no error, another row and the end of the request,
  the single pass reports the end-of-call and the decoder that was interrupted after the second row does not.
\<close>

definition quiet_end_of_call :: bytes where
  "quiet_end_of_call = 4 # replicate 30 0"

definition quiet_at :: "bytes \<Rightarrow> nat \<Rightarrow> byte_reader" where
  "quiet_at rest k = \<lparr>rd_data = quiet_end_of_call @ rest, rd_position = k\<rparr>"

lemma quiet_reads:
  assumes "1 \<le> k" "k \<le> 30"
  shows "ReadByte (quiet_at rest k) = Inr (0, quiet_at rest (k + 1))"
    "ReadUB2 (quiet_at rest k) = Inr (0, quiet_at rest (k + 1))"
    "ReadUB4 (quiet_at rest k) = Inr (0, quiet_at rest (k + 1))"
    "ReadUB8 (quiet_at rest k) = Inr (0, quiet_at rest (k + 1))"
    "k + n \<le> 31 \<Longrightarrow> Skip n (quiet_at rest k) = Inr ((), quiet_at rest (k + n))"
proof -
  have "(quiet_end_of_call @ rest) ! k = 0"
    using assms by (cases k) (simp_all add: quiet_end_of_call_def nth_append)
  then show b: "ReadByte (quiet_at rest k) = Inr (0, quiet_at rest (k + 1))"
    using assms by (simp add: ReadByte_def quiet_at_def Remaining_def quiet_end_of_call_def)
  show "ReadUB2 (quiet_at rest k) = Inr (0, quiet_at rest (k + 1))"
    "ReadUB4 (quiet_at rest k) = Inr (0, quiet_at rest (k + 1))"
    "ReadUB8 (quiet_at rest k) = Inr (0, quiet_at rest (k + 1))"
    by (simp_all add: ReadUB2_def ReadUB4_def ReadUB8_def ReadUniversal_def bindr_def b ret_def)
  show "k + n \<le> 31 \<Longrightarrow> Skip n (quiet_at rest k) = Inr ((), quiet_at rest (k + n))"
    by (simp add: Skip_def thenr_def bindr_def ReadRaw_def ret_def quiet_at_def Remaining_def quiet_end_of_call_def
       )
qed

lemma quiet_end_decodes:
  "DecodeTtcErrorPrefix 12 (quiet_end_of_call @ rest) =
     Inr (\<lparr>error_number = 0, error_cursor_id = 0, current_row = 0, error_row_count = 0, error_message = []\<rparr>, 31)"
proof -
  have "new_reader (quiet_end_of_call @ rest) = quiet_at rest 0" by (simp add: new_reader_def quiet_at_def)
  moreover have "ReadByte (quiet_at rest 0) = Inr (4, quiet_at rest 1)"
    by (simp add: ReadByte_def quiet_at_def Remaining_def quiet_end_of_call_def)
  moreover have "ttc_error_reader 12 (quiet_at rest 0) =
      Inr (\<lparr>error_number = 0, error_cursor_id = 0, current_row = 0, error_row_count = 0, error_message = []\<rparr>, quiet_at rest 31)"
    using calculation(2)
    by (simp add: ttc_error_reader_def thenr_def bindr_Inr ret_def refuse_def whenr_def quiet_reads SkipPackedUb2Array_def
        SkipPackedUb4Array_def SkipBatchMessages_def read_error_text_def TTC_FIELD_VERSION_ERROR_TRAILER_def bindr_def)
  ultimately show ?thesis by (simp add: DecodeTtcErrorPrefix_def run_prefix_def quiet_at_def)
qed

lemma quiet_message:
  assumes "ttc_field_version d = 12"
  shows "fetch_message d h offset (quiet_end_of_call @ rest) =
     (d\<lparr>exhausted := False, completion := Some \<lparr>error_number = 0, error_cursor_id = 0, current_row = 0, error_row_count = 0, error_message = []\<rparr>,
        completed := rest = []\<rparr>, Inr (h, offset + 31))"
proof -
  have "hd (quiet_end_of_call @ rest) = 4" "length (quiet_end_of_call @ rest) = 31 + length rest"
    by (simp_all add: quiet_end_of_call_def)
  then show ?thesis
    using assms quiet_end_decodes[of rest] by (auto simp: fetch_message_def end_of_call_message_def Let_def)
qed

lemma completion_lost_between_pieces:
  "map_sum id response_completion (DecodeTtcFetchResponse ([7, 1, 65] @ quiet_end_of_call @ [7, 1, 66, 29]) [OracleColumn] 12 None) =
     Inr (Some \<lparr>error_number = 0, error_cursor_id = 0, current_row = 0, error_row_count = 0, error_message = []\<rparr>)"
  "Decode ([7, 1, 65] @ quiet_end_of_call @ [7, 1, 66, 29])
     (decode_pieces [[7, 1, 65] @ quiet_end_of_call @ [7, 1, 66]] letter_decoder) =
   (letter_decoder\<lparr>rows := [[Some [65]], [Some [66]]], completed := True, bytes_consumed := 38, resume_offset := 37, kept_rows := 2\<rparr>, Inr True)"
proof -
  define quiet where "quiet = quiet_end_of_call"
  have len: "length quiet = 31" by (simp add: quiet_def quiet_end_of_call_def)
  let ?info = "\<lparr>error_number = 0, error_cursor_id = 0, current_row = 0, error_row_count = 0, error_message = []\<rparr>"
  let ?one = "letter_decoder\<lparr>rows := [[Some [65]]], resume_offset := 3, kept_rows := Suc 0\<rparr>"
  let ?two = "letter_decoder\<lparr>rows := [[Some [65]], [Some [66]]], completion := Some ?info, resume_offset := 37, kept_rows := 2\<rparr>"
  let ?done = "\<lambda>d. d\<lparr>completed := True\<rparr>"
  have first: "fetch_message letter_decoder None 0 (7 # 1 # 65 # rest) = (?one, Inr (None, 3))" for rest
    by (simp add: letter_decoder_def fetch_eval reader_eval)
  have second: "fetch_message ?one None 3 (quiet @ rest) = (?one\<lparr>completion := Some ?info\<rparr>, Inr (None, 34))" if "rest \<noteq> []" for rest
    using that by (simp add: quiet_def quiet_message letter_decoder_def)
  have third: "fetch_message (?one\<lparr>completion := Some ?info\<rparr>) None 34 (7 # 1 # 66 # rest) = (?two, Inr (None, 37))" for rest
    by (simp add: letter_decoder_def fetch_eval reader_eval)
  have last: "fetch_message d None 37 [29] = (?done d, Inr (None, 38))" for d
    by (simp add: fetch_message_def)
  have r: "restart letter_decoder = letter_decoder" "\<not> completed letter_decoder" "\<not> completed ?one" "\<not> completed ?two"
    "resume_offset letter_decoder = 0"
    by (simp_all add: letter_decoder_def restart_def)
  have loop: "decode_loop letter_decoder None 0 (7 # 1 # 65 # quiet @ [7, 1, 66, 29]) = (?done ?two, Inr 38)"
    by (simp add: decode_loop.simps first second third last r len)
  then show "map_sum id response_completion (DecodeTtcFetchResponse ([7, 1, 65] @ quiet_end_of_call @ [7, 1, 66, 29]) [OracleColumn] 12 None) =
      Inr (Some ?info)"
    by (simp add: DecodeTtcFetchResponse_def letter_decoder Decode_def r quiet_def TakeResponse_def)
  have "decode_loop letter_decoder None 0 (7 # 1 # 65 # quiet @ [7, 1, 66]) = (?two, Inr 37)"
    by (simp add: decode_loop.simps first second third r len)
  then have "decode_pieces [[7, 1, 65] @ quiet @ [7, 1, 66]] letter_decoder = ?two\<lparr>bytes_consumed := 37\<rparr>"
    by (simp add: decode_pieces_def Decode_def r)
  moreover have "Decode ([7, 1, 65] @ quiet @ [7, 1, 66, 29]) (?two\<lparr>bytes_consumed := 37\<rparr>) =
      (letter_decoder\<lparr>rows := [[Some [65]], [Some [66]]], completed := True, bytes_consumed := 38, resume_offset := 37, kept_rows := 2\<rparr>, Inr True)"
    by (simp add: Decode_def restart_def letter_decoder_def len decode_loop.simps last)
  ultimately show "Decode ([7, 1, 65] @ quiet_end_of_call @ [7, 1, 66, 29])
     (decode_pieces [[7, 1, 65] @ quiet_end_of_call @ [7, 1, 66]] letter_decoder) =
   (letter_decoder\<lparr>rows := [[Some [65]], [Some [66]]], completed := True, bytes_consumed := 38, resume_offset := 37, kept_rows := 2\<rparr>, Inr True)"
    unfolding quiet_def by simp
qed

subsection \<open>Every row has every column\<close>

lemma place_length [simp]: "length (place cs vs row) = length row"
proof -
  have "length (fold (\<lambda>(c, v) row. row[c := v]) xs row) = length row" for xs and row :: ttc_row_data
    by (induction xs arbitrary: row) auto
  then show ?thesis by (simp add: place_def)
qed

lemma effect_row_width: "effect_of d h at = NewRow h' used row a b \<Longrightarrow> length row = length (fd_columns d)"
  by (auto simp: effect_of_def Let_def row_effect_def continuation_effect_def ExpandWireRow_def MergeChangedColumns_def
      split: if_split_asm sum.splits option.splits)

definition full_rows :: "fetch_decoder \<Rightarrow> bool" where
  "full_rows d \<longleftrightarrow> (\<forall>row\<in>set (rows d). length row = length (fd_columns d))"

lemma fetch_message_full:
  assumes "fetch_message d h offset at = (d', r)" "full_rows d"
  shows "full_rows d' \<and> fd_columns d' = fd_columns d"
  using assms effect_row_width[of d h at] unfolding fetch_message_effect
  by (cases "effect_of d h at") (auto simp: Let_def keep_row_def full_rows_def split: if_split_asm)

lemma decode_loop_full:
  "decode_loop d h offset m = (d', r) \<Longrightarrow> full_rows d \<Longrightarrow> full_rows d' \<and> fd_columns d' = fd_columns d"
proof (induction d h offset m rule: decode_loop.induct)
  case (1 d h offset m)
  show ?case
  proof (cases "offset < length m \<and> \<not> completed d")
    case False
    with "1.prems" show ?thesis by (auto simp: decode_loop.simps[of d h offset m])
  next
    case True
    obtain d1 r1 where m: "fetch_message d h offset (drop offset m) = (d1, r1)" by (metis surj_pair)
    note f = fetch_message_full[OF m "1.prems"(2)]
    show ?thesis
    proof (cases r1)
      case (Inl e)
      with True "1.prems" m f show ?thesis by (simp add: decode_loop.simps[of d h offset m])
    next
      case (Inr x)
      obtain h1 offset1 where x: "x = (h1, offset1)" by (cases x)
      have "decode_loop d1 h1 offset1 m = (d', r)"
        using "1.prems" True m Inr x by (simp add: decode_loop.simps[of d h offset m])
      from "1.IH"[OF True m[symmetric] Inr x[symmetric] this] f show ?thesis by simp
    qed
  qed
qed

lemma Decode_full: "full_rows d \<Longrightarrow> full_rows (fst (Decode m d)) \<and> fd_columns (fst (Decode m d)) = fd_columns d"
proof -
  assume full: "full_rows d"
  then have r: "full_rows (restart d)" "fd_columns (restart d) = fd_columns d"
    by (auto simp: full_rows_def restart_def dest: in_set_takeD)
  obtain d' res where l: "decode_loop (restart d) None (resume_offset d) m = (d', res)" by (metis surj_pair)
  from decode_loop_full[OF l r(1)] r(2) have d': "full_rows d'" "fd_columns d' = fd_columns d" by simp_all
  have "full_rows (d'\<lparr>bytes_consumed := n\<rparr>)" for n using d'(1) by (simp add: full_rows_def)
  with d' full l show ?thesis by (cases res) (simp_all add: Decode_def)
qed

text \<open>
  C27. A response is rectangular: after any sequence of pieces, successful or not, every row the decoder
  holds has one cell for each described column, whatever the server's row headers, continuations and
  omitted columns said.
\<close>

theorem rows_rectangular:
  assumes "TtcFetchResponseDecoder columns version preceding = Inr d\<^sub>0"
  shows "\<forall>row\<in>set (response_rows (TakeResponse (decode_pieces pieces d\<^sub>0))). length row = length columns"
proof -
  have "full_rows (decode_pieces pieces d) \<and> fd_columns (decode_pieces pieces d) = fd_columns d" if "full_rows d" for d
    unfolding decode_pieces_def using that by (induction pieces arbitrary: d) (simp_all add: Decode_full)
  from this[of d\<^sub>0] assms show ?thesis
    by (auto simp: TtcFetchResponseDecoder_def full_rows_def TakeResponse_def Let_def split: if_split_asm)
qed

lemma rows_rectangular_witness:
  "list_all (\<lambda>row. length row = 1)
     (response_rows (TakeResponse (decode_pieces [[7, 1, 65, 7], [7, 1, 65, 21, 0]] letter_decoder)))"
  using rows_rectangular[OF letter_decoder, of "[[7, 1, 65, 7], [7, 1, 65, 21, 0]]"] by (simp add: list_all_iff)

end
