(* ===== verification/Ttc_Call.thy ===== *)
theory Ttc_Call
  imports Fetch_Response Sql_Text
begin

text \<open>
  The responses to an execute call: \<^verbatim>\<open>src/ttc_cursor.cpp\<close> (descriptors of cursors the server
  opened), \<^verbatim>\<open>src/ttc_io_vector.cpp\<close> (the directions of the binds), \<^verbatim>\<open>src/ttc_out_binds.cpp\<close> (the values
  of the OUT binds), \<^verbatim>\<open>src/ttc_call_response.cpp\<close> (the sequence of messages a PL/SQL call answers with) and
  \<^verbatim>\<open>src/ttc_execute_response.cpp\<close> (a query's describe and first rows, or a statement's completion).
\<close>

section \<open>Cursor descriptors\<close>

record ref_cursor =
  server_cursor_id :: u32
  cursor_columns :: "oracle_column list"

definition MAX_CURSOR_COLUMNS :: nat where
  "MAX_CURSOR_COLUMNS = 1024"

definition MAX_NAME_BYTES :: nat where
  "MAX_NAME_BYTES = 1024"

definition MAX_IMPLICIT_CURSORS :: nat where
  "MAX_IMPLICIT_CURSORS = 64"

definition ReadString :: "u32 \<Rightarrow> string reader" where
  "ReadString declared =
     (if unat declared > MAX_NAME_BYTES then raise LIMIT_EXCEEDED
      else if declared = 0 then ret []
      else bindr (ReadLengthPrefixed (unat declared)) (\<lambda>value.
        case value of None \<Rightarrow> raise MALFORMED | Some v \<Rightarrow> ret (to_string v)))"

definition SkipString :: "unit reader" where
  "SkipString = bindr ReadUB4 (\<lambda>n. discard (ReadString n))"

text \<open>The three fields that are only read when their declared size is not zero.\<close>

definition skip_sized :: "unit reader" where
  "skip_sized = bindr ReadUB4 (\<lambda>n. whenr (n \<noteq> 0) (discard (ReadString n)))"

definition ReadColumn :: "u8 \<Rightarrow> oracle_column reader" where
  "ReadColumn field_version =
     bindr ReadByte (\<lambda>type. thenr (Skip 1) (bindr ReadByte (\<lambda>prec. bindr ReadByte (\<lambda>scl.
     bindr ReadUB4 (\<lambda>maximum_size. thenr ReadUB4 (thenr ReadUB8 (thenr skip_sized
     (thenr ReadUB2 (thenr ReadUB2 (bindr ReadByte (\<lambda>csfrm. bindr ReadUB4 (\<lambda>sz.
      thenr ReadUB4 (bindr ReadByte (\<lambda>nulls. thenr (Skip 1)
     (bindr (bindr ReadUB4 ReadString) (\<lambda>name.
      thenr SkipString (thenr SkipString (thenr ReadUB2 (thenr ReadUB4
     (thenr (whenr (field_version \<ge> 17) (thenr SkipString SkipString))
     (thenr (whenr (field_version \<ge> 20) (bindr ReadUB4 (\<lambda>annotations. refuse (annotations \<noteq> 0) UNSUPPORTED)))
     (bindr (read_vector_fields field_version) (\<lambda>(dimensions, format, flags).
      let type = ucast type in
      ret (OracleColumn\<lparr>column_name := name, oracle_type := type,
        byte_width := (if type = 102 then 4 else if type = 23 then maximum_size else sz),
        precision := sint prec, scale := sint scl, nullable := nulls \<noteq> 0, character_set_form := csfrm,
        omitted_from_row_data := (maximum_size = 0 \<and> type \<noteq> 102 \<and> \<not> IsOracleLongType type),
        vector_dimensions := dimensions, vector_format := format, vector_flags := flags\<rparr>))))))))))))))))))))))))"

definition ref_cursor_reader :: "u8 \<Rightarrow> ref_cursor reader" where
  "ref_cursor_reader field_version = thenr ReadUB4 (bindr ReadUB4 (\<lambda>column_count.
     thenr (refuse (column_count = 0 \<or> unat column_count > MAX_CURSOR_COLUMNS) MALFORMED)
    (thenr (Skip 1) (bindr (repeatr (unat column_count) (ReadColumn field_version)) (\<lambda>columns.
     thenr skip_sized (thenr ReadUB4 (thenr ReadUB4 (thenr ReadUB4 (thenr ReadUB4
    (thenr skip_sized (bindr ReadUB2 (\<lambda>cursor_id.
     thenr (refuse (cursor_id = 0) MALFORMED)
    (ret \<lparr>server_cursor_id = ucast cursor_id, cursor_columns = columns\<rparr>)))))))))))))"

definition DecodeTtcRefCursorDescriptor :: "u8 \<Rightarrow> ref_cursor decoder" where
  "DecodeTtcRefCursorDescriptor field_version = run_prefix (ref_cursor_reader field_version)"

text \<open>A decoder that is run on a copy of the unread bytes, whose length is then skipped.\<close>

definition in_place :: "'a decoder \<Rightarrow> 'a reader" where
  "in_place decode r =
     (case decode (drop (rd_position r) (rd_data r)) of
        Inl e \<Rightarrow> Inl e
      | Inr (a, used) \<Rightarrow> (case Skip used r of Inl e \<Rightarrow> Inl e | Inr (_, r') \<Rightarrow> Inr (a, r')))"

definition implicit_cursor :: "u8 \<Rightarrow> ref_cursor reader" where
  "implicit_cursor field_version = bindr ReadByte (\<lambda>opaque_size.
     thenr (Skip (unat opaque_size)) (in_place (DecodeTtcRefCursorDescriptor field_version)))"

definition implicit_results_reader :: "u8 \<Rightarrow> ref_cursor list reader" where
  "implicit_results_reader field_version = bindr ReadByte (\<lambda>t.
     thenr (refuse (t \<noteq> 27) MALFORMED) (bindr ReadUB4 (\<lambda>cursor_count.
     thenr (refuse (unat cursor_count > MAX_IMPLICIT_CURSORS) LIMIT_EXCEEDED)
    (repeatr (unat cursor_count) (implicit_cursor field_version)))))"

definition DecodeTtcImplicitResultSetPrefix :: "u8 \<Rightarrow> ref_cursor list decoder" where
  "DecodeTtcImplicitResultSetPrefix field_version = run_prefix (implicit_results_reader field_version)"

text \<open>The decoders that allow nothing after the message.\<close>

definition whole_message :: "'a decoder \<Rightarrow> bytes \<Rightarrow> 'a result" where
  "whole_message decode message = andthen (decode message) (\<lambda>(a, used).
     if used \<noteq> length message then throw MALFORMED else Inr a)"

definition DecodeTtcImplicitResultSet :: "u8 \<Rightarrow> bytes \<Rightarrow> ref_cursor list result" where
  "DecodeTtcImplicitResultSet field_version = whole_message (DecodeTtcImplicitResultSetPrefix field_version)"

section \<open>The directions of the binds\<close>

record io_vector =
  iteration_count :: u32
  directions :: "u8 list"

definition MAX_BINDS :: nat where
  "MAX_BINDS = 65535"

definition IsDirection :: "u8 \<Rightarrow> bool" where
  "IsDirection value \<longleftrightarrow> value = 16 \<or> value = 32 \<or> value = 48"

definition read_direction :: "u8 reader" where
  "read_direction = bindr ReadByte (\<lambda>direction.
     thenr (refuse (\<not> IsDirection direction) MALFORMED) (ret direction))"

definition io_vector_reader :: "io_vector reader" where
  "io_vector_reader = bindr ReadByte (\<lambda>t.
     thenr (refuse (t \<noteq> 11) MALFORMED) (thenr (Skip 1)
    (bindr ReadUB2 (\<lambda>low_bind_count. bindr ReadUB4 (\<lambda>high_bind_count.
     thenr (refuse (unat high_bind_count > (MAX_BINDS - unat low_bind_count) div 256) LIMIT_EXCEEDED)
    (bindr ReadUB4 (\<lambda>iterations. thenr ReadUB2
    (bindr ReadUB2 (\<lambda>fast_fetch_length. thenr (Skip (unat fast_fetch_length))
    (bindr ReadUB2 (\<lambda>rowid_length. thenr (Skip (unat rowid_length))
    (bindr (repeatr (unat high_bind_count * 256 + unat low_bind_count) read_direction) (\<lambda>directions.
     ret \<lparr>iteration_count = iterations, directions = directions\<rparr>)))))))))))))"

definition DecodeTtcIoVectorPrefix :: "io_vector decoder" where
  "DecodeTtcIoVectorPrefix = run_prefix io_vector_reader"

definition DecodeTtcIoVector :: "bytes \<Rightarrow> io_vector result" where
  "DecodeTtcIoVector = whole_message DecodeTtcIoVectorPrefix"

definition GetTtcOutputBindIndexes :: "io_vector \<Rightarrow> oracle_bind list \<Rightarrow> nat list result" where
  "GetTtcOutputBindIndexes io binds =
     (if length (directions io) \<noteq> length binds then throw MALFORMED
      else Inr (filter (\<lambda>i. bind_direction (binds ! i) \<noteq> BIND_IN) [0..<length binds]))"

section \<open>The values of the OUT binds\<close>

definition MAX_VALUE_BYTES :: nat where
  "MAX_VALUE_BYTES = 16 * 2 ^ 20"

definition SkipSB4 :: "unit reader" where
  "SkipSB4 = bindr ReadByte (\<lambda>sz.
     let width = unat (sz AND 0x7F) in
     if width > 4 then raise MALFORMED else Skip width)"

text \<open>
  One place of the two lists of the result: the scalar value, and the cursor of a cursor bind. The reader
  is rebuilt on the bytes after the descriptor, which is reading the descriptor in place.
\<close>

type_synonym out_value = "bytes option \<times> ref_cursor option"

definition read_out_value :: "u8 \<Rightarrow> oracle_bind list \<Rightarrow> nat \<Rightarrow> out_value reader" where
  "read_out_value field_version binds bind_index =
     (if bind_index \<ge> length binds then raise MALFORMED
      else if bind_type (binds ! bind_index) = 102 then
        bindr ReadByte (\<lambda>marker.
          if marker = 0 \<or> marker = TNS_NULL_LENGTH_INDICATOR then thenr SkipSB4 (ret (None, None))
          else bindr (in_place (DecodeTtcRefCursorDescriptor field_version)) (\<lambda>descriptor.
            thenr SkipSB4 (ret (None, Some descriptor))))
      else bindr (ReadLengthPrefixed MAX_VALUE_BYTES) (\<lambda>value. thenr SkipSB4 (ret (value, None))))"

fun read_out_values :: "u8 \<Rightarrow> oracle_bind list \<Rightarrow> nat list \<Rightarrow> out_value list reader" where
  "read_out_values field_version binds [] = ret []"
| "read_out_values field_version binds (i # is) =
     bindr (read_out_value field_version binds i) (\<lambda>v.
     bindr (read_out_values field_version binds is) (\<lambda>vs. ret (v # vs)))"

definition out_binds_reader :: "u8 \<Rightarrow> oracle_bind list \<Rightarrow> nat list \<Rightarrow> out_value list reader" where
  "out_binds_reader field_version binds output_indexes = bindr ReadByte (\<lambda>t.
     thenr (refuse (t \<noteq> TTC_MESSAGE_ROW_DATA) MALFORMED) (read_out_values field_version binds output_indexes))"

record out_binds =
  scalar_values :: "bytes option list"
  cursor_values :: "ref_cursor option list"

definition DecodeTtcOutBindsRow :: "oracle_bind list \<Rightarrow> nat list \<Rightarrow> u8 \<Rightarrow> out_binds decoder" where
  "DecodeTtcOutBindsRow binds output_indexes field_version message =
     map_sum id (\<lambda>(vs, used). (\<lparr>scalar_values = map fst vs, cursor_values = map snd vs\<rparr>, used))
       (run_prefix (out_binds_reader field_version binds output_indexes) message)"

definition DecodeTtcPlsqlOutBindsResponse :: "bytes \<Rightarrow> oracle_bind list \<Rightarrow> u8 \<Rightarrow> (io_vector \<times> nat list \<times> out_binds \<times> nat) result" where
  "DecodeTtcPlsqlOutBindsResponse message binds field_version =
     andthen (DecodeTtcIoVectorPrefix message) (\<lambda>(io, used).
       if used \<ge> length message then throw TRUNCATED
       else andthen (GetTtcOutputBindIndexes io binds) (\<lambda>output_indexes.
         andthen (DecodeTtcOutBindsRow binds output_indexes field_version (drop used message)) (\<lambda>(values, row_bytes).
           Inr (io, output_indexes, values, used + row_bytes))))"

section \<open>The decoders read a prefix\<close>

lemma wire_in_place [wire_intros]:
  assumes decode: "prefix_decoder decode"
  shows "wire_reader (in_place decode)"
proof
  fix r :: byte_reader assume ok: "reader_ok r"
  define d where "d = drop (rd_position r) (rd_data r)"
  have d: "drop (rd_position r) (rd_data r @ ys) = d @ ys" "Remaining r = length d" for ys
    using ok by (simp_all add: reader_ok_def d_def Remaining_def)
  note facts = prefix_decoder.consumed_le[OF decode, of d] prefix_decoder.more_bytes[OF decode, of d]
    prefix_decoder.more_error[OF decode, of d]
  have take: "Skip n r = Inr ((), r\<lparr>rd_position := rd_position r + n\<rparr>)" if "n \<le> length d" for n
    using that d(2) by (simp add: Skip_def thenr_def bindr_def ReadRaw_def ret_def)
  have take': "Skip n (feed r ys) = Inr ((), feed (r\<lparr>rd_position := rd_position r + n\<rparr>) ys)" if "n \<le> length d" for n ys
    using skip.extends[OF ok take[OF that], of ys] .
  { fix a r' assume g: "in_place decode r = Inr (a, r')"
    then obtain n where n: "decode d = Inr (a, n)" "Skip n r = Inr ((), r')"
      by (auto simp: in_place_def d_def split: sum.splits)
    from skip.advances[OF ok n(2)]
    show "rd_data r' = rd_data r \<and> rd_position r \<le> rd_position r' \<and> reader_ok r'" .
    show "in_place decode (feed r ys) = Inr (a, feed r' ys)" for ys
      using facts(2)[OF n(1), of ys] skip.extends[OF ok n(2), of ys] d(1)[of ys] by (simp add: in_place_def) }
  { fix e ys assume g: "in_place decode r = Inl e"
    then have "decode d = Inl e"
      using take facts(1) by (auto simp: in_place_def d_def[symmetric] split: sum.splits)
    then show "Kind e = TRUNCATED \<or> in_place decode (feed r ys) = Inl e"
      using facts(3)[of e ys] d(1)[of ys] by (auto simp: in_place_def) }
qed

lemma prefix_decoder_map:
  assumes decode: "prefix_decoder decode"
  shows "prefix_decoder (\<lambda>bs. map_sum id (\<lambda>(a, used). (f a, used)) (decode bs))"
proof (unfold_locales, goal_cases)
  case (1 bs a n)
  then show ?case using prefix_decoder.consumed_le[OF decode] by (auto simp: map_sum_def split: sum.splits)
next
  case (2 bs a n ys)
  then show ?case using prefix_decoder.more_bytes[OF decode] by (fastforce simp: map_sum_def split: sum.splits)
next
  case (3 bs e ys)
  then show ?case using prefix_decoder.more_error[OF decode] by (fastforce simp: map_sum_def split: sum.splits)
qed

lemma wire_read_string [wire_intros]: "wire_reader (ReadString n)" "wire_reader SkipString" "wire_reader skip_sized"
  unfolding ReadString_def SkipString_def skip_sized_def by (intro wire_intros)+

lemma wire_read_vector_fields [wire_intros]: "wire_reader (read_vector_fields v)"
  unfolding read_vector_fields_def by (intro wire_intros)

lemma wire_read_column [wire_intros]: "wire_reader (ReadColumn v)"
  unfolding ReadColumn_def by (intro wire_intros)

interpretation ref_cursor: prefix_decoder "DecodeTtcRefCursorDescriptor v" for v
  unfolding DecodeTtcRefCursorDescriptor_def ref_cursor_reader_def by (intro prefix_decoder_run wire_intros)

lemmas wire_ref_cursor [wire_intros] = wire_in_place[OF ref_cursor.prefix_decoder_axioms]

interpretation implicit_results: prefix_decoder "DecodeTtcImplicitResultSetPrefix v" for v
  unfolding DecodeTtcImplicitResultSetPrefix_def implicit_results_reader_def implicit_cursor_def
  by (intro prefix_decoder_run wire_intros)

interpretation io_vector: prefix_decoder DecodeTtcIoVectorPrefix
  unfolding DecodeTtcIoVectorPrefix_def io_vector_reader_def read_direction_def by (intro prefix_decoder_run wire_intros)

lemma wire_read_out_values [wire_intros]: "wire_reader (read_out_values v binds is)"
  by (induction "is") (auto simp: read_out_value_def SkipSB4_def Let_def intro!: wire_intros)

interpretation out_binds: prefix_decoder "DecodeTtcOutBindsRow binds is v" for binds "is" v
proof -
  have run: "prefix_decoder (run_prefix (out_binds_reader v binds is))"
    unfolding out_binds_reader_def by (intro prefix_decoder_run wire_intros)
  show "prefix_decoder (DecodeTtcOutBindsRow binds is v)"
    unfolding DecodeTtcOutBindsRow_def by (rule prefix_decoder_map[OF run])
qed

section \<open>The response to a PL/SQL call\<close>

record call_response =
  call_out_binds :: "out_binds option"
  implicit_cursors :: "ref_cursor list"
  call_completion :: "ttc_error_info option"
  call_completed :: bool

text \<open>The locals of the loop: the result so far, the bind directions once they came, the OUT binds they select.\<close>

record call_state =
  call_result :: call_response
  call_io_vector :: "io_vector option"
  output_indexes :: "nat list"

definition call_start :: call_state where
  "call_start = \<lparr>call_result = \<lparr>call_out_binds = None, implicit_cursors = [], call_completion = None, call_completed = False\<rparr>,
     call_io_vector = None, output_indexes = []\<rparr>"

definition io_vector_message :: "oracle_bind list \<Rightarrow> call_state \<Rightarrow> bytes \<Rightarrow> (call_state \<times> nat) result" where
  "io_vector_message binds s tail =
     (if call_io_vector s \<noteq> None then throw MALFORMED
      else andthen (DecodeTtcIoVectorPrefix tail) (\<lambda>(io, used).
        andthen (GetTtcOutputBindIndexes io binds) (\<lambda>indexes.
          Inr (s\<lparr>call_io_vector := Some io, output_indexes := indexes\<rparr>, used))))"

definition out_binds_message :: "oracle_bind list \<Rightarrow> u8 \<Rightarrow> call_state \<Rightarrow> bytes \<Rightarrow> (call_state \<times> nat) result" where
  "out_binds_message binds field_version s tail =
     (if call_io_vector s = None \<or> call_out_binds (call_result s) \<noteq> None then throw MALFORMED
      else andthen (DecodeTtcOutBindsRow binds (output_indexes s) field_version tail) (\<lambda>(values, used).
        Inr (s\<lparr>call_result := (call_result s)\<lparr>call_out_binds := Some values\<rparr>\<rparr>, used)))"

definition implicit_results_message :: "u8 \<Rightarrow> call_state \<Rightarrow> bytes \<Rightarrow> (call_state \<times> nat) result" where
  "implicit_results_message field_version s tail =
     andthen (DecodeTtcImplicitResultSetPrefix field_version tail) (\<lambda>(cursors, used).
       Inr (s\<lparr>call_result := (call_result s)\<lparr>implicit_cursors := implicit_cursors (call_result s) @ cursors\<rparr>\<rparr>, used))"

definition call_completion_message :: "u8 \<Rightarrow> call_state \<Rightarrow> bytes \<Rightarrow> (call_state \<times> nat) result" where
  "call_completion_message server_field_version s tail =
     andthen (DecodeTtcErrorPrefix server_field_version tail) (\<lambda>(info, used).
       if error_number info \<noteq> 0 then Inl (ProtocolError INVALID_STATE (Some (error_number info)))
       else Inr (s\<lparr>call_result := (call_result s)\<lparr>call_completion := Some info, call_completed := used = length tail\<rparr>\<rparr>, used))"

definition call_finished :: "call_state \<Rightarrow> call_state" where
  "call_finished s = s\<lparr>call_result := (call_result s)\<lparr>call_completed := True\<rparr>\<rparr>"

definition call_message :: "oracle_bind list \<Rightarrow> u8 \<Rightarrow> u8 \<Rightarrow> call_state \<Rightarrow> bytes \<Rightarrow> (call_state \<times> nat) result" where
  "call_message binds field_version server_field_version s tail =
     (let message_type = hd tail in
      if message_type = 11 then io_vector_message binds s tail
      else if message_type = TTC_MESSAGE_ROW_DATA then out_binds_message binds field_version s tail
      else if message_type = 27 then implicit_results_message field_version s tail
      else if message_type = TTC_MESSAGE_PARAMETER then
        andthen (DecodeTtcReturnParameterPrefix tail) (\<lambda>(_, used). Inr (s, used))
      else if message_type = TTC_MESSAGE_ERROR then call_completion_message server_field_version s tail
      else if message_type = TTC_MESSAGE_STATUS then
        andthen (run_prefix status_reader tail) (\<lambda>(_, used). Inr (call_finished s, used))
      else if message_type = 29 then Inr (call_finished s, 1)
      else if message_type = TTC_MESSAGE_SERVER_PIGGYBACK then
        andthen (SkippedTtcServerPiggybackBytes tail) (\<lambda>used. Inr (s, used))
      else throw MALFORMED)"

text \<open>Every message of the response consumes at least its type byte.\<close>

lemma call_decoders_consume:
  "DecodeTtcIoVectorPrefix at = Inr (io, used) \<Longrightarrow> 0 < used"
  "DecodeTtcOutBindsRow binds is v at = Inr (ob, used) \<Longrightarrow> 0 < used"
  "DecodeTtcImplicitResultSetPrefix v at = Inr (cs, used) \<Longrightarrow> 0 < used"
proof -
  have "consumes io_vector_reader"
    unfolding io_vector_reader_def read_direction_def by (intro consumes_bind_first wire_intros consumes_byte)
  then show "DecodeTtcIoVectorPrefix at = Inr (io, used) \<Longrightarrow> 0 < used"
    unfolding DecodeTtcIoVectorPrefix_def by (rule consumes_run)
  have "consumes (out_binds_reader v binds is)"
    unfolding out_binds_reader_def by (intro consumes_bind_first wire_intros consumes_byte)
  then show "DecodeTtcOutBindsRow binds is v at = Inr (ob, used) \<Longrightarrow> 0 < used"
    unfolding DecodeTtcOutBindsRow_def by (auto simp: map_sum_def split: sum.splits dest: consumes_run)
  have "consumes (implicit_results_reader v)"
    unfolding implicit_results_reader_def implicit_cursor_def by (intro consumes_bind_first wire_intros consumes_byte)
  then show "DecodeTtcImplicitResultSetPrefix v at = Inr (cs, used) \<Longrightarrow> 0 < used"
    unfolding DecodeTtcImplicitResultSetPrefix_def by (rule consumes_run)
qed

lemma call_message_progress:
  assumes "call_message binds fv sv s tail = Inr (s', used)" "tail \<noteq> []"
  shows "0 < used \<and> used \<le> length tail"
  using assms(1) assms(2)[unfolded length_greater_0_conv[symmetric] Suc_le_eq[symmetric]]
    call_decoders_consume(1)[of tail] call_decoders_consume(2)[of binds "output_indexes s" fv tail]
    call_decoders_consume(3)[of fv tail] decoders_within(3,4,6)[of tail] decoders_within(5)[of sv tail]
    io_vector.consumed_le[of tail] out_binds.consumed_le[of binds "output_indexes s" fv tail]
    implicit_results.consumed_le[of fv tail]
  by (auto simp: call_message_def Let_def io_vector_message_def out_binds_message_def implicit_results_message_def
      call_completion_message_def andthen_eq_Inr split: if_split_asm)

function call_loop :: "oracle_bind list \<Rightarrow> u8 \<Rightarrow> u8 \<Rightarrow> call_state \<Rightarrow> nat \<Rightarrow> bytes \<Rightarrow> (call_response \<times> nat) result" where
  "call_loop binds field_version server_field_version s offset message =
     (if offset < length message \<and> \<not> call_completed (call_result s)
      then case call_message binds field_version server_field_version s (drop offset message) of
          Inl e \<Rightarrow> Inl e
        | Inr (s, used) \<Rightarrow> call_loop binds field_version server_field_version s (offset + used) message
      else Inr (call_result s, offset))"
  by pat_completeness auto
termination
proof (relation "measure (\<lambda>(binds, fv, sv, s, offset, message). length message - offset)", goal_cases)
  case (2 binds fv sv s offset message x s' used)
  then have "call_message binds fv sv s (drop offset message) = Inr (s', used)" by simp
  from call_message_progress[OF this] 2(1) show ?case by auto
qed simp

declare call_loop.simps [simp del]

definition DecodeTtcCallResponse :: "bytes \<Rightarrow> oracle_bind list \<Rightarrow> u8 \<Rightarrow> u8 \<Rightarrow> (call_response \<times> nat) result" where
  "DecodeTtcCallResponse message binds field_version server_field_version =
     call_loop binds field_version server_field_version call_start 0 message"

section \<open>The response to a query and to a statement\<close>

record execute_response =
  execute_columns :: "oracle_column list"
  execute_rows :: "ttc_row_data list"
  execute_completion :: "ttc_error_info option"
  execute_exhausted :: bool
  execute_completed :: bool
  execute_bytes_consumed :: nat

text \<open>An exception that is caught and thrown again with more text, and without the ORA code.\<close>

definition reworded :: "'a result \<Rightarrow> 'a result" where
  "reworded r = map_sum (\<lambda>e. ProtocolError (Kind e) None) id r"

definition DecodeTtcExecuteResponse :: "bytes \<Rightarrow> u8 \<Rightarrow> u8 \<Rightarrow> execute_response result" where
  "DecodeTtcExecuteResponse message field_version server_field_version =
     andthen (reworded (DecodeTtcDescribeInfoPrefix field_version message)) (\<lambda>(columns, used).
       if used \<ge> length message then throw TRUNCATED
       else andthen (reworded (DecodeTtcFetchResponse (drop used message) columns server_field_version None)) (\<lambda>fetch.
         Inr \<lparr>execute_columns = columns, execute_rows = response_rows fetch,
              execute_completion = response_completion fetch, execute_exhausted = response_exhausted fetch,
              execute_completed = response_completed fetch,
              execute_bytes_consumed = used + response_bytes_consumed fetch\<rparr>))"

function skip_parameters :: "bytes \<Rightarrow> nat \<Rightarrow> nat result" where
  "skip_parameters message offset =
     (if offset < length message \<and> message ! offset = TTC_MESSAGE_PARAMETER
      then case DecodeTtcReturnParameterPrefix (drop offset message) of
          Inl e \<Rightarrow> Inl e
        | Inr (_, used) \<Rightarrow> skip_parameters message (offset + used)
      else Inr offset)"
  by pat_completeness auto
termination
  by (relation "measure (\<lambda>(message, offset). length message - offset)") (auto dest: decoders_consume(5))

declare skip_parameters.simps [simp del]

definition DecodeTtcExecuteCompletion :: "bytes \<Rightarrow> u8 \<Rightarrow> ttc_error_info result" where
  "DecodeTtcExecuteCompletion message field_version =
     reworded (andthen (skip_parameters message 0) (\<lambda>offset.
       if offset = length message then throw TRUNCATED
       else andthen (DecodeTtcErrorPrefix field_version (drop offset message)) (\<lambda>(info, _). Inr info)))"

section \<open>Lemmas\<close>

text \<open>What a successful read says about its value, whatever the bytes were.\<close>

definition yields :: "'a reader \<Rightarrow> ('a \<Rightarrow> bool) \<Rightarrow> bool" where
  "yields get P \<longleftrightarrow> (\<forall>r a r'. get r = Inr (a, r') \<longrightarrow> P a)"

lemma yieldsD: "\<lbrakk>yields get P; get r = Inr (a, r')\<rbrakk> \<Longrightarrow> P a"
  by (auto simp: yields_def)

lemma yields_bindr: "(\<And>a. yields (f a) P) \<Longrightarrow> yields (bindr m f) P"
  by (auto simp: yields_def bindr_simps)

lemma yields_bindr_value: "\<lbrakk>yields m Q; \<And>a. Q a \<Longrightarrow> yields (f a) P\<rbrakk> \<Longrightarrow> yields (bindr m f) P"
  by (fastforce simp: yields_def bindr_simps)

lemma yields_thenr: "yields n P \<Longrightarrow> yields (thenr m n) P"
  unfolding thenr_def by (rule yields_bindr)

lemma yields_refused: "(\<not> c \<Longrightarrow> yields n P) \<Longrightarrow> yields (thenr (refuse c k) n) P"
  by (cases c) (auto simp: yields_def thenr_def bindr_def refuse_def raise_def ret_def)

lemma yields_ret [simp]: "yields (ret a) P \<longleftrightarrow> P a"
  by (simp add: yields_def ret_def)

lemma yields_raise [simp]: "yields (raise k) P"
  by (simp add: yields_def raise_def)

lemma yields_repeatr: "yields m P \<Longrightarrow> yields (repeatr n m) (\<lambda>as. length as = n \<and> list_all P as)"
proof (induction n)
  case (Suc n)
  then show ?case by (simp del: yields_ret) (rule yields_bindr_value, assumption, rule yields_bindr_value, assumption, simp)
qed simp

lemma yields_in_place: "(\<And>bs a n. decode bs = Inr (a, n) \<Longrightarrow> P a) \<Longrightarrow> yields (in_place decode) P"
  by (auto simp: yields_def in_place_def split: sum.splits)

lemma yields_run: "\<lbrakk>yields get P; run_prefix get bs = Inr (a, n)\<rbrakk> \<Longrightarrow> P a"
  by (auto simp: yields_def run_prefix_def map_sum_def split: sum.splits)

definition usable_cursor :: "ref_cursor \<Rightarrow> bool" where
  "usable_cursor c \<longleftrightarrow> server_cursor_id c \<noteq> 0 \<and> cursor_columns c \<noteq> [] \<and> length (cursor_columns c) \<le> MAX_CURSOR_COLUMNS"

lemma yields_any: "yields m (\<lambda>_. True)"
  by (simp add: yields_def)

lemma ref_cursor_usable: "DecodeTtcRefCursorDescriptor v bs = Inr (c, n) \<Longrightarrow> usable_cursor c"
proof -
  have "(ucast id :: u32) \<noteq> 0" if "id \<noteq> 0" for id :: u16
    using that unat_ucast_up[of id, where 'b = 32] by (simp flip: unat_eq_0)
  then have "yields (ref_cursor_reader v) usable_cursor"
    unfolding ref_cursor_reader_def
    by (auto intro!: yields_thenr yields_bindr yields_refused yields_bindr_value[OF yields_repeatr[OF yields_any]]
        simp: usable_cursor_def unat_eq_0)
  then show "DecodeTtcRefCursorDescriptor v bs = Inr (c, n) \<Longrightarrow> usable_cursor c"
    unfolding DecodeTtcRefCursorDescriptor_def by (rule yields_run)
qed

lemma implicit_results_usable:
  assumes "DecodeTtcImplicitResultSetPrefix v bs = Inr (cs, n)"
  shows "list_all usable_cursor cs"
proof -
  have "yields (implicit_cursor v) usable_cursor"
    unfolding implicit_cursor_def by (intro yields_bindr yields_thenr yields_in_place) (rule ref_cursor_usable)
  from yields_repeatr[OF this] have "yields (implicit_results_reader v) (\<lambda>cs. list_all usable_cursor cs)"
    unfolding implicit_results_reader_def
    by (intro yields_bindr yields_thenr) (auto simp: yields_def)
  from yields_run[OF this] assms show ?thesis unfolding DecodeTtcImplicitResultSetPrefix_def by blast
qed

text \<open>An OUT value has the form its bind asks for.\<close>

definition out_value_fits :: "oracle_bind \<Rightarrow> out_value \<Rightarrow> bool" where
  "out_value_fits b v \<longleftrightarrow>
     (if bind_type b = 102 then fst v = None \<and> pred_option usable_cursor (snd v) else snd v = None)"

lemma out_value_fits: "yields (read_out_value v binds i) (\<lambda>a. i < length binds \<and> out_value_fits (binds ! i) a)"
proof -
  have cursor: "yields (in_place (DecodeTtcRefCursorDescriptor v)) usable_cursor"
    by (rule yields_in_place) (rule ref_cursor_usable)
  show ?thesis
    unfolding read_out_value_def
    by (auto simp: out_value_fits_def intro!: yields_bindr yields_thenr yields_bindr_value[OF cursor])
qed

lemma out_values_fit:
  "yields (read_out_values v binds is) (\<lambda>as. list_all2 (\<lambda>i. out_value_fits (binds ! i)) is as)"
proof (induction "is")
  case (Cons i "is")
  show ?case
    unfolding read_out_values.simps
    by (rule yields_bindr_value[OF out_value_fits], rule yields_bindr_value[OF Cons.IH]) simp
qed simp

definition out_only :: "oracle_bind list \<Rightarrow> oracle_bind list" where
  "out_only binds = filter (\<lambda>b. bind_direction b \<noteq> BIND_IN) binds"

lemma output_indexes_out_only:
  "GetTtcOutputBindIndexes io binds = Inr is \<Longrightarrow> map (\<lambda>i. binds ! i) is = out_only binds"
proof -
  have "map (\<lambda>i. xs ! i) (filter (\<lambda>i. P (xs ! i)) [0..<length xs]) = filter P xs" for P and xs :: "'x list"
    by (metis (mono_tags, lifting) comp_apply filter_cong filter_map map_nth)
  then show "GetTtcOutputBindIndexes io binds = Inr is \<Longrightarrow> map (\<lambda>i. binds ! i) is = out_only binds"
    by (auto simp: GetTtcOutputBindIndexes_def out_only_def split: if_split_asm)
qed

definition out_binds_fit :: "oracle_bind list \<Rightarrow> out_binds \<Rightarrow> bool" where
  "out_binds_fit binds ob \<longleftrightarrow> length (scalar_values ob) = length (cursor_values ob) \<and>
     list_all2 out_value_fits (out_only binds) (zip (scalar_values ob) (cursor_values ob))"

lemma out_binds_row_fit:
  assumes row: "DecodeTtcOutBindsRow binds is v bs = Inr (ob, n)" and "is": "map (\<lambda>i. binds ! i) is = out_only binds"
  shows "out_binds_fit binds ob"
proof -
  obtain vs where vs: "run_prefix (out_binds_reader v binds is) bs = Inr (vs, n)"
    and ob: "ob = \<lparr>scalar_values = map fst vs, cursor_values = map snd vs\<rparr>"
    using row by (auto simp: DecodeTtcOutBindsRow_def map_sum_def split: sum.splits)
  have "yields (out_binds_reader v binds is) (\<lambda>as. list_all2 (\<lambda>i. out_value_fits (binds ! i)) is as)"
    unfolding out_binds_reader_def by (intro yields_bindr yields_thenr out_values_fit)
  from yields_run[OF this vs] have "list_all2 out_value_fits (map (\<lambda>i. binds ! i) is) vs"
    by (simp add: list_all2_map1)
  with "is" show ?thesis by (simp add: out_binds_fit_def ob zip_map_fst_snd)
qed

definition call_ok :: "oracle_bind list \<Rightarrow> call_state \<Rightarrow> bool" where
  "call_ok binds s \<longleftrightarrow>
     (call_io_vector s \<noteq> None \<longrightarrow> map (\<lambda>i. binds ! i) (output_indexes s) = out_only binds) \<and>
     pred_option (out_binds_fit binds) (call_out_binds (call_result s)) \<and>
     list_all usable_cursor (implicit_cursors (call_result s))"

lemma call_message_ok:
  assumes "call_message binds fv sv s tail = Inr (s', used)" "call_ok binds s"
  shows "call_ok binds s'"
  using assms out_binds_row_fit[of binds "output_indexes s" fv tail] implicit_results_usable[of fv tail]
  by (auto simp: call_message_def Let_def io_vector_message_def out_binds_message_def implicit_results_message_def
      call_completion_message_def call_finished_def andthen_eq_Inr call_ok_def output_indexes_out_only
      split: if_split_asm)

lemma call_loop_ok:
  "call_loop binds fv sv s offset m = Inr (r, n) \<Longrightarrow> call_ok binds s \<Longrightarrow> offset \<le> length m \<Longrightarrow>
   pred_option (out_binds_fit binds) (call_out_binds r) \<and> list_all usable_cursor (implicit_cursors r) \<and> n \<le> length m"
proof (induction binds fv sv s offset m rule: call_loop.induct)
  case (1 binds fv sv s offset m)
  show ?case
  proof (cases "offset < length m \<and> \<not> call_completed (call_result s)")
    case False
    with "1.prems" show ?thesis unfolding call_loop.simps[of _ _ _ s] call_ok_def by auto
  next
    case True
    with "1.prems"(1) obtain s' used where m: "call_message binds fv sv s (drop offset m) = Inr (s', used)"
      and l: "call_loop binds fv sv s' (offset + used) m = Inr (r, n)"
      unfolding call_loop.simps[of _ _ _ s] by (auto split: sum.splits)
    have "offset + used \<le> length m" using call_message_progress[OF m] True by auto
    from "1.IH"[OF True m refl l call_message_ok[OF m "1.prems"(2)] this] show ?thesis .
  qed
qed

text \<open>An end of fetch is the completion ORA-01403, and no other error is one.\<close>

definition ended_by_1403 :: "bool \<Rightarrow> ttc_error_info option \<Rightarrow> bool" where
  "ended_by_1403 ended info \<longleftrightarrow>
     (case info of None \<Rightarrow> \<not> ended | Some i \<Rightarrow> error_number i = (if ended then 1403 else 0))"

abbreviation fetch_ended :: "fetch_decoder \<Rightarrow> bool" where
  "fetch_ended d \<equiv> ended_by_1403 (exhausted d) (completion d)"

lemma fetch_message_ended:
  assumes "fetch_message d h offset at = (d', Inr r)" "fetch_ended d"
  shows "fetch_ended d'"
  using assms unfolding fetch_message_effect
  by (cases "effect_of d h at") (auto simp: Let_def keep_row_def ended_by_1403_def split: if_split_asm option.splits)

lemma decode_loop_ended:
  "decode_loop d h offset m = (d', Inr n) \<Longrightarrow> fetch_ended d \<Longrightarrow> offset \<le> length m \<Longrightarrow> fetch_ended d' \<and> n \<le> length m"
proof (induction d h offset m rule: decode_loop.induct)
  case (1 d h offset m)
  show ?case
  proof (cases "offset < length m \<and> \<not> completed d")
    case False
    with "1.prems" show ?thesis by (auto simp: decode_loop.simps[of d h offset m])
  next
    case True
    with "1.prems"(1) obtain d1 h1 n1 where m: "fetch_message d h offset (drop offset m) = (d1, Inr (h1, n1))"
      and l: "decode_loop d1 h1 n1 m = (d', Inr n)"
      by (auto simp: decode_loop.simps[of d h offset m] split: prod.splits sum.splits)
    have "n1 \<le> length m" using fetch_message_progress[OF m] True by auto
    from "1.IH"[OF True m[symmetric] refl refl l fetch_message_ended[OF m "1.prems"(2)] this] show ?thesis .
  qed
qed

lemma fetch_response_facts:
  assumes "DecodeTtcFetchResponse m columns v preceding = Inr f"
  shows "list_all (\<lambda>row. length row = length columns) (response_rows f) \<and>
    ended_by_1403 (response_exhausted f) (response_completion f) \<and> response_bytes_consumed f \<le> length m"
proof -
  from assms obtain d d' n where d: "TtcFetchResponseDecoder columns v preceding = Inr d"
    and l: "decode_loop (restart d) None (resume_offset d) m = (d', Inr n)"
    and f: "f = TakeResponse (d'\<lparr>bytes_consumed := n\<rparr>)"
    by (auto simp: DecodeTtcFetchResponse_def andthen_eq_Inr Decode_def split: if_split_asm prod.splits sum.splits)
  from d have s: "fetch_ended (restart d)" "resume_offset d \<le> length m" "full_rows (restart d)"
    "fd_columns (restart d) = columns"
    by (auto simp: TtcFetchResponseDecoder_def Let_def restart_def ended_by_1403_def full_rows_def split: if_split_asm)
  from decode_loop_ended[OF l s(1,2)] decode_loop_full[OF l s(3)] s(4) f show ?thesis
    by (auto simp: TakeResponse_def full_rows_def list_all_iff)
qed

lemma describe_columns:
  assumes "DecodeTtcDescribeInfoPrefix v m = Inr (columns, n)"
  shows "columns \<noteq> [] \<and> length columns \<le> MAX_COLUMNS"
proof -
  have "yields (describe_reader v) (\<lambda>columns. columns \<noteq> [] \<and> length columns \<le> MAX_COLUMNS)"
    unfolding describe_reader_def
    by (auto intro!: yields_thenr yields_bindr yields_refused yields_bindr_value[OF yields_repeatr[OF yields_any]]
        simp: unat_eq_0)
  from yields_run[OF this] assms show ?thesis unfolding DecodeTtcDescribeInfoPrefix_def by blast
qed

text \<open>
  Both halves of a query's response are decoded inside a handler that throws a new exception, so the ORA
  code of an error that follows the describe does not reach the caller.
\<close>

lemma execute_error_without_code:
  "DecodeTtcExecuteResponse m fv sv = Inl e \<Longrightarrow> OracleCode e = None"
  "DecodeTtcExecuteCompletion m sv = Inl e \<Longrightarrow> OracleCode e = None"
  by (auto simp: DecodeTtcExecuteResponse_def DecodeTtcExecuteCompletion_def reworded_def andthen_def map_sum_def
      split: sum.splits if_splits)

section \<open>Properties\<close>

text \<open>
  What a PL/SQL call returns has the shape its binds ask for. Whatever bytes the server sends, a
  response that is accepted has one place for each OUT and IN OUT bind, in the order of the binds; only the
  place of a cursor bind holds a cursor, and only the others a value; and every cursor the caller is handed,
  explicit or implicit, has a server cursor id and between 1 and 1024 columns. The bytes it counts are
  inside the message.
\<close>

theorem call_response_shape:
  assumes "DecodeTtcCallResponse message binds field_version server_field_version = Inr (r, used)"
  shows "used \<le> length message \<and> list_all usable_cursor (implicit_cursors r) \<and>
    pred_option (\<lambda>ob. length (scalar_values ob) = length (cursor_values ob) \<and>
        list_all2 out_value_fits (out_only binds) (zip (scalar_values ob) (cursor_values ob)))
      (call_out_binds r)"
  using call_loop_ok[OF assms[unfolded DecodeTtcCallResponse_def]]
  by (simp add: call_start_def call_ok_def out_binds_fit_def cong: option.pred_cong)

definition number_out_bind :: oracle_bind where
  "number_out_bind = \<lparr>bind_name = ''n'', bind_type = 2, bind_direction = BIND_OUT, bind_value = None,
     bind_maximum_bytes = 22, bind_charset_form = 0, bind_lob_content = 0\<rparr>"

definition one_out_value :: bytes where
  "one_out_value = [11, 0, 1, 1, 0, 0, 0, 0, 0, 32, 7, 1, 65, 0, 29]"

lemma one_out_value_decodes:
  "DecodeTtcCallResponse one_out_value [number_out_bind] 12 12 =
   Inr (\<lparr>call_out_binds = Some \<lparr>scalar_values = [Some [65]], cursor_values = [None]\<rparr>, implicit_cursors = [],
          call_completion = None, call_completed = True\<rparr>, 15)"
  by (simp add: DecodeTtcCallResponse_def one_out_value_def number_out_bind_def call_loop.simps call_start_def call_message_def
      io_vector_message_def out_binds_message_def DecodeTtcIoVectorPrefix_def io_vector_reader_def read_direction_def IsDirection_def
      DecodeTtcOutBindsRow_def out_binds_reader_def read_out_value_def SkipSB4_def GetTtcOutputBindIndexes_def call_finished_def
      MAX_BINDS_def MAX_VALUE_BYTES_def reader_eval)

lemma call_response_shape_witness:
  "list_all2 out_value_fits (out_only [number_out_bind]) (zip [Some [65]] [None])"
  using call_response_shape[OF one_out_value_decodes] by simp

text \<open>
  The first response of a query is a table. If it is accepted, there is at least one column and at most
  4096, every row has one cell for each of them, an end of fetch was reported exactly if the completion is
  ORA-01403 and any other completion is a success, and the bytes it counts are inside the message.
\<close>

theorem execute_response_table:
  assumes "DecodeTtcExecuteResponse message field_version server_field_version = Inr r"
  shows "execute_columns r \<noteq> [] \<and> length (execute_columns r) \<le> 4096 \<and>
    list_all (\<lambda>row. length row = length (execute_columns r)) (execute_rows r) \<and>
    (case execute_completion r of
       None \<Rightarrow> \<not> execute_exhausted r
     | Some info \<Rightarrow> error_number info = (if execute_exhausted r then 1403 else 0)) \<and>
    execute_bytes_consumed r \<le> length message"
proof -
  from assms obtain columns used f where d: "DecodeTtcDescribeInfoPrefix field_version message = Inr (columns, used)"
    and f: "DecodeTtcFetchResponse (drop used message) columns server_field_version None = Inr f"
    and r: "execute_columns r = columns" "execute_rows r = response_rows f" "execute_completion r = response_completion f"
      "execute_exhausted r = response_exhausted f" "execute_bytes_consumed r = used + response_bytes_consumed f"
    by (auto simp: DecodeTtcExecuteResponse_def andthen_eq_Inr reworded_def map_sum_def split: if_split_asm sum.splits)
  from describe_columns[OF d] describe.consumed_le[OF d] fetch_response_facts[OF f] show ?thesis
    unfolding r by (auto simp: ended_by_1403_def MAX_COLUMNS_def)
qed

definition one_number_query :: bytes where
  "one_number_query = [16, 0, 0, 1, 1, 0, 2, 0, 0, 0, 1, 22, 0, 0, 0, 0, 0, 0, 1, 22, 0, 1, 0, 1, 1, 1, 78, 0, 0, 0, 0,
     0, 0, 0, 0, 0, 0, 7, 1, 65, 29]"

definition number_column :: oracle_column where
  "number_column = OracleColumn\<lparr>column_name := [char_of (78::nat)], oracle_type := 2, byte_width := 22\<rparr>"

lemma one_number_describe: "DecodeTtcDescribeInfoPrefix 12 one_number_query = Inr ([number_column], 37)"
  by (simp add: one_number_query_def DecodeTtcDescribeInfoPrefix_def describe_reader_def DecodeColumn_def read_vector_fields_def
      ReadDeclaredBytes_def ReadDeclaredText_def ReadDeclared_def reader_eval MAX_COLUMNS_def MAX_METADATA_BYTES_def
      number_column_def OracleColumn_def IsOracleLongType_def to_string_def)

lemma execute_response_table_witness:
  "\<exists>r. DecodeTtcExecuteResponse one_number_query 12 12 = Inr r \<and> execute_rows r = [[Some [65]]] \<and>
     length (execute_columns r) \<le> 4096 \<and> execute_bytes_consumed r \<le> 41"
proof -
  have "\<exists>f. DecodeTtcFetchResponse [7, 1, 65, 29] [number_column] 12 None = Inr f \<and> response_rows f = [[Some [65]]]"
    by (simp add: DecodeTtcFetchResponse_def number_column_def fetch_eval reader_eval TakeResponse_def)
  then obtain f where f: "DecodeTtcFetchResponse [7, 1, 65, 29] [number_column] 12 None = Inr f" "response_rows f = [[Some [65]]]"
    by blast
  have "drop 37 one_number_query = [7, 1, 65, 29]" "length one_number_query = 41"
    by (simp_all add: one_number_query_def)
  with f obtain r where r: "DecodeTtcExecuteResponse one_number_query 12 12 = Inr r" "execute_rows r = [[Some [65]]]"
    by (simp add: DecodeTtcExecuteResponse_def one_number_describe reworded_def)
  from execute_response_table[OF r(1)] r show ?thesis by (auto simp: one_number_query_def)
qed

end
