(* ===== verification/Value_Codec.thy ===== *)
theory Value_Codec
  imports Prelude
begin

text \<open>
  \<^verbatim>\<open>src/value_codec.cpp\<close> without its NUMBER functions: DATE and TIMESTAMP values, the wall clock of a zoned
  timestamp, intervals, binary floating point and the text of a ROWID.

  A field of \<^verbatim>\<open>int32_t\<close> or \<^verbatim>\<open>int16_t\<close> type is an \<^typ>\<open>int\<close>: the ranges that are checked keep every
  intermediate value far inside its type. A byte is a \<^typ>\<open>u8\<close>, and a cast to it wraps. C++ division
  rounds toward zero, which \<open>quotient\<close> writes out.
\<close>

definition quotient :: "int \<Rightarrow> int \<Rightarrow> int" where
  "quotient a b = (if a \<ge> 0 then a div b else - ((- a) div b))"

definition byte_of :: "int \<Rightarrow> u8" where
  "byte_of i = word_of_int i"

section \<open>Dates and timestamps\<close>

record date_time =
  dt_year :: int
  dt_month :: u8
  dt_day :: u8
  dt_hour :: u8
  dt_minute :: u8
  dt_second :: u8
  dt_nanosecond :: u32
  dt_offset_minutes :: int
  dt_has_offset :: bool

definition OracleDateTime :: date_time where
  "OracleDateTime = \<lparr>dt_year = 1970, dt_month = 1, dt_day = 1, dt_hour = 0, dt_minute = 0, dt_second = 0,
     dt_nanosecond = 0, dt_offset_minutes = 0, dt_has_offset = False\<rparr>"

definition IsLeapYear :: "int \<Rightarrow> bool" where
  "IsLeapYear year \<longleftrightarrow> year mod 4 = 0 \<and> (year mod 100 \<noteq> 0 \<or> year mod 400 = 0)"

definition DaysInMonth :: "int \<Rightarrow> u8 \<Rightarrow> u8" where
  "DaysInMonth year month =
     (if month = 2 \<and> IsLeapYear year then 29
      else [31, 28, 31, 30, 31, 30, 31, 31, 30, 31, 30, 31] ! (unat month - 1))"

definition ValidateDateTime :: "date_time \<Rightarrow> unit result" where
  "ValidateDateTime v =
     (if dt_year v < -4712 \<or> dt_year v > 9999 \<or> dt_month v < 1 \<or> dt_month v > 12 \<or> dt_day v < 1 \<or>
         dt_day v > DaysInMonth (dt_year v) (dt_month v) \<or> dt_hour v > 23 \<or> dt_minute v > 59 \<or>
         dt_second v > 59 \<or> dt_nanosecond v \<ge> 1000000000 then throw MALFORMED
      else if dt_has_offset v \<and> (dt_offset_minutes v < -15 * 60 \<or> dt_offset_minutes v > 15 * 60) then throw MALFORMED
      else Inr ())"

definition EncodeOracleDate :: "date_time \<Rightarrow> bytes result" where
  "EncodeOracleDate v = andthen (ValidateDateTime v) (\<lambda>_.
     let century = quotient (dt_year v) 100; year_in_century = dt_year v - century * 100 in
     Inr [byte_of (century + 100), byte_of (year_in_century + 100), dt_month v, dt_day v,
          byte_of (uint (dt_hour v) + 1), byte_of (uint (dt_minute v) + 1), byte_of (uint (dt_second v) + 1)])"

definition DecodeOracleDate :: "bytes \<Rightarrow> date_time result" where
  "DecodeOracleDate wire =
     (if length wire \<noteq> 7 then throw MALFORMED
      else if wire ! 4 = 0 \<or> wire ! 5 = 0 \<or> wire ! 6 = 0 then throw MALFORMED
      else let v = OracleDateTime\<lparr>dt_year := (uint (wire ! 0) - 100) * 100 + uint (wire ! 1) - 100,
                     dt_month := wire ! 2, dt_day := wire ! 3,
                     dt_hour := wire ! 4 - 1, dt_minute := wire ! 5 - 1, dt_second := wire ! 6 - 1\<rparr>
        in andthen (ValidateDateTime v) (\<lambda>_. Inr v))"

definition EncodeOracleTimestamp :: "date_time \<Rightarrow> bool \<Rightarrow> bytes result" where
  "EncodeOracleTimestamp v with_time_zone = andthen (ValidateDateTime v) (\<lambda>_.
     if with_time_zone \<and> \<not> dt_has_offset v then throw MALFORMED
     else andthen (EncodeOracleDate v) (\<lambda>date.
       let hours = quotient (dt_offset_minutes v) 60; minutes = dt_offset_minutes v - hours * 60 in
       Inr (date @ be_bytes 4 (dt_nanosecond v) @
            (if with_time_zone then [byte_of (hours + 20), byte_of (minutes + 60)] else []))))"

definition DecodeOracleTimestamp :: "bytes \<Rightarrow> date_time result" where
  "DecodeOracleTimestamp wire =
     (if length wire \<noteq> 7 \<and> length wire \<noteq> 11 \<and> length wire \<noteq> 13 then throw MALFORMED
      else andthen (DecodeOracleDate (take 7 wire)) (\<lambda>v.
        let v = (if length wire \<ge> 11 then v\<lparr>dt_nanosecond := be_word (take 4 (drop 7 wire))\<rparr> else v) in
        if length wire = 13 \<and> wire ! 11 AND 0x80 \<noteq> 0 then throw UNSUPPORTED
        else let v = (if length wire = 13
                then v\<lparr>dt_offset_minutes := (uint (wire ! 11 AND NOT 0x40) - 20) * 60 + (uint (wire ! 12) - 60),
                       dt_has_offset := True\<rparr> else v)
          in andthen (ValidateDateTime v) (\<lambda>_. Inr v)))"

definition DaysFromCivil :: "int \<Rightarrow> int \<Rightarrow> int \<Rightarrow> int" where
  "DaysFromCivil year month day =
     (let year = year - (if month \<le> 2 then 1 else 0);
          era = quotient (if year \<ge> 0 then year else year - 399) 400;
          year_of_era = year - era * 400;
          day_of_year = quotient (153 * (month + (if month > 2 then -3 else 9)) + 2) 5 + day - 1;
          day_of_era = year_of_era * 365 + quotient year_of_era 4 - quotient year_of_era 100 + day_of_year
      in era * 146097 + day_of_era - 719468)"

definition CivilFromDays :: "int \<Rightarrow> date_time \<Rightarrow> date_time" where
  "CivilFromDays days v =
     (let days = days + 719468;
          era = quotient (if days \<ge> 0 then days else days - 146096) 146097;
          day_of_era = days - era * 146097;
          year_of_era = quotient (day_of_era - quotient day_of_era 1460 + quotient day_of_era 36524 -
                          quotient day_of_era 146096) 365;
          day_of_year = day_of_era - (365 * year_of_era + quotient year_of_era 4 - quotient year_of_era 100);
          month_index = quotient (5 * day_of_year + 2) 153;
          month = (if month_index < 10 then month_index + 3 else month_index - 9)
      in v\<lparr>dt_day := byte_of (day_of_year - quotient (153 * month_index + 2) 5 + 1),
           dt_month := byte_of month,
           dt_year := year_of_era + era * 400 + (if month \<le> 2 then 1 else 0)\<rparr>)"

text \<open>The two loops bring the minutes of the day into range; each turn moves them by a day.\<close>

function raise_minutes :: "int \<Rightarrow> int \<Rightarrow> int \<times> int" where
  "raise_minutes minutes days = (if minutes < 0 then raise_minutes (minutes + 1440) (days - 1) else (minutes, days))"
  by pat_completeness auto
termination by (relation "measure (\<lambda>(minutes, days). nat (- minutes))") auto

function lower_minutes :: "int \<Rightarrow> int \<Rightarrow> int \<times> int" where
  "lower_minutes minutes days = (if minutes \<ge> 1440 then lower_minutes (minutes - 1440) (days + 1) else (minutes, days))"
  by pat_completeness auto
termination by (relation "measure (\<lambda>(minutes, days). nat minutes)") auto

declare raise_minutes.simps [simp del] lower_minutes.simps [simp del]

definition OracleZonedWallClock :: "date_time \<Rightarrow> date_time" where
  "OracleZonedWallClock utc =
     (if \<not> dt_has_offset utc then utc
      else case raise_minutes (uint (dt_hour utc) * 60 + uint (dt_minute utc) + dt_offset_minutes utc)
                  (DaysFromCivil (dt_year utc) (uint (dt_month utc)) (uint (dt_day utc))) of (minutes, days) \<Rightarrow>
           (case lower_minutes minutes days of (minutes, days) \<Rightarrow>
              CivilFromDays days (utc\<lparr>dt_hour := byte_of (quotient minutes 60), dt_minute := byte_of (minutes mod 60)\<rparr>)))"

section \<open>Binary floating point\<close>

text \<open>
  A \<^verbatim>\<open>float\<close> or \<^verbatim>\<open>double\<close> stands for its bit pattern, which is all these functions look at: they copy
  it to and from an integer of its size.
\<close>

definition EncodeBinary :: "'a::len word \<Rightarrow> bytes" where
  "EncodeBinary bits =
     (let result = be_bytes (size bits div 8) bits in
      if hd result AND 0x80 = 0 then (hd result OR 0x80) # tl result else map (\<lambda>b. NOT b) result)"

definition DecodeBinary :: "nat \<Rightarrow> bytes \<Rightarrow> 'a::len word result" where
  "DecodeBinary width wire =
     (if length wire \<noteq> width then throw MALFORMED
      else let bytes = (if hd wire AND 0x80 \<noteq> 0 then (hd wire AND 0x7F) # tl wire else map (\<lambda>b. NOT b) wire)
        in Inr (be_word bytes))"

definition EncodeOracleBinaryFloat :: "u32 \<Rightarrow> bytes" where
  "EncodeOracleBinaryFloat = EncodeBinary"

definition EncodeOracleBinaryDouble :: "u64 \<Rightarrow> bytes" where
  "EncodeOracleBinaryDouble = EncodeBinary"

definition DecodeOracleBinaryFloat :: "bytes \<Rightarrow> u32 result" where
  "DecodeOracleBinaryFloat = DecodeBinary 4"

definition DecodeOracleBinaryDouble :: "bytes \<Rightarrow> u64 result" where
  "DecodeOracleBinaryDouble = DecodeBinary 8"

section \<open>Intervals\<close>

definition INTERVAL_SIGN_OFFSET :: int where
  "INTERVAL_SIGN_OFFSET = 0x80000000"

definition INTERVAL_FIELD_OFFSET :: int where
  "INTERVAL_FIELD_OFFSET = 60"

definition PutBigEndian :: "int \<Rightarrow> bytes" where
  "PutBigEndian value = be_bytes 4 (word_of_int value :: u32)"

definition ReadOffsetInteger :: "bytes \<Rightarrow> int" where
  "ReadOffsetInteger data = uint (be_word (take 4 data) :: u32) - INTERVAL_SIGN_OFFSET"

definition ReadIntervalField :: "u8 \<Rightarrow> int \<Rightarrow> int result" where
  "ReadIntervalField byte limit =
     (let value = uint byte - INTERVAL_FIELD_OFFSET in
      if value < - limit \<or> value > limit then throw MALFORMED else Inr value)"

definition RequireOneSign :: "int list \<Rightarrow> unit result" where
  "RequireOneSign components =
     (if list_ex (\<lambda>c. c > 0) components \<and> list_ex (\<lambda>c. c < 0) components then throw MALFORMED else Inr ())"

definition RequireIntervalField :: "int \<Rightarrow> int \<Rightarrow> unit result" where
  "RequireIntervalField value limit = (if value < - limit \<or> value > limit then throw MALFORMED else Inr ())"

definition EncodeOracleIntervalYearMonth :: "int \<Rightarrow> int \<Rightarrow> bytes result" where
  "EncodeOracleIntervalYearMonth years months =
     andthen (RequireIntervalField months 11) (\<lambda>_. andthen (RequireOneSign [years, months]) (\<lambda>_.
       Inr (PutBigEndian (years + INTERVAL_SIGN_OFFSET) @ [byte_of (months + INTERVAL_FIELD_OFFSET)])))"

definition DecodeOracleIntervalYearMonth :: "bytes \<Rightarrow> int result" where
  "DecodeOracleIntervalYearMonth wire =
     (if length wire \<noteq> 5 then throw MALFORMED
      else let years = ReadOffsetInteger wire in
        andthen (ReadIntervalField (wire ! 4) 11) (\<lambda>months.
        andthen (RequireOneSign [years, months]) (\<lambda>_. Inr (years * 12 + months))))"

definition EncodeOracleIntervalDaySecond :: "int \<Rightarrow> int \<Rightarrow> int \<Rightarrow> int \<Rightarrow> int \<Rightarrow> bytes result" where
  "EncodeOracleIntervalDaySecond days hours minutes seconds nanoseconds =
     andthen (RequireIntervalField hours 23) (\<lambda>_. andthen (RequireIntervalField minutes 59) (\<lambda>_.
     andthen (RequireIntervalField seconds 59) (\<lambda>_. andthen (RequireIntervalField nanoseconds 999999999) (\<lambda>_.
     andthen (RequireOneSign [days, hours, minutes, seconds, nanoseconds]) (\<lambda>_.
       Inr (PutBigEndian (days + INTERVAL_SIGN_OFFSET) @
            [byte_of (hours + INTERVAL_FIELD_OFFSET), byte_of (minutes + INTERVAL_FIELD_OFFSET),
             byte_of (seconds + INTERVAL_FIELD_OFFSET)] @
            PutBigEndian (nanoseconds + INTERVAL_SIGN_OFFSET)))))))"

text \<open>The days, and the rest as one count of nanoseconds.\<close>

definition DecodeOracleIntervalDaySecond :: "bytes \<Rightarrow> (int \<times> int) result" where
  "DecodeOracleIntervalDaySecond wire =
     (if length wire \<noteq> 11 then throw MALFORMED
      else let days = ReadOffsetInteger wire in
        andthen (ReadIntervalField (wire ! 4) 23) (\<lambda>hours.
        andthen (ReadIntervalField (wire ! 5) 59) (\<lambda>minutes.
        andthen (ReadIntervalField (wire ! 6) 59) (\<lambda>seconds.
          let nanoseconds = ReadOffsetInteger (drop 7 wire) in
          if nanoseconds \<le> -1000000000 \<or> nanoseconds \<ge> 1000000000 then throw MALFORMED
          else andthen (RequireOneSign [days, hours, minutes, seconds, nanoseconds]) (\<lambda>_.
            Inr (days, ((hours * 60 + minutes) * 60 + seconds) * 1000000000 + nanoseconds))))))"

section \<open>Row identifiers\<close>

definition alphabet :: string where
  "alphabet = ''ABCDEFGHIJKLMNOPQRSTUVWXYZabcdefghijklmnopqrstuvwxyz0123456789+/''"

definition put_digits :: "u64 \<Rightarrow> nat \<Rightarrow> string" where
  "put_digits value digits = map (\<lambda>d. alphabet ! unat (drop_bit (d * 6) value AND 63)) (rev [0..<digits])"

definition TryDecodeOracleRowid :: "bytes \<Rightarrow> string option" where
  "TryDecodeOracleRowid wire =
     (if length wire = 13 \<and> wire ! 0 = 1 \<or> length wire = 12
      then let data = (if length wire = 13 then drop 1 wire else wire) in
        Some (put_digits (be_word (take 4 data)) 6 @ put_digits (be_word (take 2 (drop 4 data))) 3 @
              put_digits (be_word (take 4 (drop 6 data))) 6 @ put_digits (be_word (take 2 (drop 10 data))) 3)
      else None)"

section \<open>Lemmas\<close>

lemma uint_byte_of [simp]: "0 \<le> i \<Longrightarrow> i < 256 \<Longrightarrow> uint (byte_of i) = i"
  by (simp add: byte_of_def uint_word_of_int)

lemma byte_of_uint_plus_one [simp]: "byte_of (uint b + 1) = b + 1"
  by (simp add: byte_of_def)

lemma plus_one_not_zero: "(b :: u8) \<le> n \<Longrightarrow> n < 255 \<Longrightarrow> b + 1 \<noteq> 0"
proof -
  assume n: "b \<le> n" "n < 255"
  have "(255 :: u8) = - 1" by code_simp
  then have "b + 1 = 0 \<longleftrightarrow> b = 255" by (metis add_eq_0_iff2)
  with n show ?thesis by auto
qed

lemma quotient_rem: "0 < b \<Longrightarrow> - b < a - quotient a b * b \<and> a - quotient a b * b < b"
proof -
  assume b: "0 < b"
  have "a - quotient a b * b = (if a \<ge> 0 then a mod b else - (- a mod b))"
    using minus_div_mult_eq_mod[of a b] minus_div_mult_eq_mod[of "- a" b] by (simp add: quotient_def)
  moreover have "0 \<le> a mod b" "a mod b < b" "0 \<le> - a mod b" "- a mod b < b" using b by simp_all
  ultimately show ?thesis using b by (intro conjI; cases "a \<ge> 0"; simp only: if_True if_False; linarith)
qed

lemma quotient_nonneg [simp]: "0 \<le> a \<Longrightarrow> quotient a b = a div b"
  by (simp add: quotient_def)

definition date_time_ok :: "date_time \<Rightarrow> bool" where
  "date_time_ok v \<longleftrightarrow> -4712 \<le> dt_year v \<and> dt_year v \<le> 9999 \<and> dt_month v \<noteq> 0 \<and> dt_month v \<le> 12 \<and> dt_day v \<noteq> 0 \<and>
     dt_day v \<le> DaysInMonth (dt_year v) (dt_month v) \<and> dt_hour v \<le> 23 \<and> dt_minute v \<le> 59 \<and>
     dt_second v \<le> 59 \<and> dt_nanosecond v < 1000000000 \<and>
     (dt_has_offset v \<longrightarrow> - 900 \<le> dt_offset_minutes v \<and> dt_offset_minutes v \<le> 900)"

lemma ValidateDateTime_iff: "ValidateDateTime v = Inr () \<longleftrightarrow> date_time_ok v"
  by (auto simp: ValidateDateTime_def date_time_ok_def not_less not_le)

lemma date_time_ok_without:
  "date_time_ok v \<Longrightarrow> date_time_ok (v\<lparr>dt_nanosecond := 0, dt_offset_minutes := 0, dt_has_offset := False\<rparr>)"
  "date_time_ok v \<Longrightarrow> date_time_ok (v\<lparr>dt_offset_minutes := 0, dt_has_offset := False\<rparr>)"
  by (simp_all add: date_time_ok_def)

lemma date_reads_back:
  assumes "EncodeOracleDate v = Inr wire"
  shows "length wire = 7" "DecodeOracleDate wire = Inr (v\<lparr>dt_nanosecond := 0, dt_offset_minutes := 0, dt_has_offset := False\<rparr>)"
proof -
  define c where "c = quotient (dt_year v) 100"
  from assms have ok: "date_time_ok v"
    and w: "wire = [byte_of (c + 100), byte_of (dt_year v - c * 100 + 100), dt_month v, dt_day v,
      dt_hour v + 1, dt_minute v + 1, dt_second v + 1]"
    by (auto simp: EncodeOracleDate_def andthen_eq_Inr ValidateDateTime_iff c_def Let_def)
  from w show "length wire = 7" by simp
  have y: "-100 < dt_year v - c * 100" "dt_year v - c * 100 < 100"
    using quotient_rem[of 100 "dt_year v"] by (simp_all add: c_def)
  have c: "-100 \<le> c" "c < 156"
    using y ok by (auto simp: date_time_ok_def)
  have year: "(uint (wire ! 0) - 100) * 100 + uint (wire ! 1) - 100 = dt_year v"
    using y c by (simp add: w)
  have time: "wire ! 4 \<noteq> 0" "wire ! 5 \<noteq> 0" "wire ! 6 \<noteq> 0"
    using ok plus_one_not_zero[of "dt_hour v" 23] plus_one_not_zero[of "dt_minute v" 59] plus_one_not_zero[of "dt_second v" 59]
    by (auto simp: w date_time_ok_def)
  have eq: "OracleDateTime\<lparr>dt_year := dt_year v, dt_month := wire ! 2, dt_day := wire ! 3,
      dt_hour := wire ! 4 - 1, dt_minute := wire ! 5 - 1, dt_second := wire ! 6 - 1\<rparr> =
      v\<lparr>dt_nanosecond := 0, dt_offset_minutes := 0, dt_has_offset := False\<rparr>"
    by (simp add: w OracleDateTime_def)
  show "DecodeOracleDate wire = Inr (v\<lparr>dt_nanosecond := 0, dt_offset_minutes := 0, dt_has_offset := False\<rparr>)"
    using date_time_ok_without(1)[OF ok] time
    unfolding DecodeOracleDate_def Let_def year eq by (simp add: \<open>length wire = 7\<close> ValidateDateTime_iff[symmetric])
qed

lemma offset_reads_back:
  assumes "-900 \<le> m" "m \<le> 900"
  defines "h \<equiv> quotient m 60"
  shows "(uint (byte_of (h + 20) AND NOT 0x40) - 20) * 60 + (uint (byte_of (m - h * 60 + 60)) - 60) = m"
    "byte_of (h + 20) AND 0x80 = 0"
proof -
  have h: "-15 \<le> h" "h \<le> 15" "-60 < m - h * 60" "m - h * 60 < 60"
    using assms(1,2) quotient_rem[of 60 m] by (auto simp: h_def)
  define b where "b = byte_of (h + 20)"
  have b: "uint b = h + 20" "unat b < 2 ^ 6" using h by (auto simp: b_def unat_eq_nat_uint)
  then have "take_bit 6 b = b" by (metis take_bit_nat_eq_self unsigned_take_bit_eq word_unat_eq_iff)
  then have bits: "bit b i \<longleftrightarrow> i < 6 \<and> bit b i" for i by (metis bit_take_bit_iff)
  have "b AND NOT 0x40 = b"
  proof (rule bit_word_eqI)
    fix i assume "i < LENGTH(8)"
    have "bit (2 ^ 6 :: u8) i \<longleftrightarrow> i = 6" by (auto simp only: bit_exp_iff possible_bit_word) simp
    then show "bit (b AND NOT 0x40) i = bit b i"
      using bits[of i] \<open>i < LENGTH(8)\<close> by (auto simp: bit_simps)
  qed
  with b h show "(uint (byte_of (h + 20) AND NOT 0x40) - 20) * 60 + (uint (byte_of (m - h * 60 + 60)) - 60) = m"
    by (simp add: b_def[symmetric])
  show "byte_of (h + 20) AND 0x80 = 0"
  proof (rule bit_word_eqI)
    fix i assume "i < LENGTH(8)"
    have "bit (2 ^ 7 :: u8) i \<longleftrightarrow> i = 7" by (auto simp only: bit_exp_iff possible_bit_word) simp
    then show "bit (byte_of (h + 20) AND 0x80) i = bit (0 :: u8) i"
      using bits[of i] by (auto simp: bit_simps b_def[symmetric])
  qed
qed

subsection \<open>The calendar\<close>

text \<open>
  What a day number should be, said without the era arithmetic of the code: the days of the whole years
  before, the days of the whole months before, and the day of the month, counted from 1 January 1970.
\<close>

definition leap_years :: "int \<Rightarrow> int" where
  "leap_years year = year div 4 - year div 100 + year div 400"

definition calendar_day :: "int \<Rightarrow> nat \<Rightarrow> int \<Rightarrow> int" where
  "calendar_day year month day =
     365 * (year - 1) + leap_years (year - 1) +
     sum_list (map (\<lambda>m. uint (DaysInMonth year (of_nat m))) [1..<month]) + day - 719163"

definition date_ok :: "int \<Rightarrow> int \<Rightarrow> int \<Rightarrow> bool" where
  "date_ok year month day \<longleftrightarrow> 1 \<le> month \<and> month \<le> 12 \<and> 1 \<le> day \<and> day \<le> uint (DaysInMonth year (word_of_int month))"

lemma floor_quotient: "0 < b \<Longrightarrow> quotient (if a \<ge> 0 then a else a - (b - 1)) b = a div b"
proof (cases "a \<ge> 0")
  case False
  assume "0 < b"
  have "(- a + (b - 1)) div b = - (a div b)"
  proof (rule int_div_pos_eq)
    show "- a + (b - 1) = b * (- (a div b)) + (b - 1 - a mod b)"
      using mult_div_mod_eq[of b a] by (simp add: algebra_simps)
  qed (use \<open>0 < b\<close> pos_mod_sign[of b a] pos_mod_bound[of b a] in linarith)+
  with False \<open>0 < b\<close> show ?thesis by (simp add: quotient_def algebra_simps)
qed (simp add: quotient_def)

text \<open>The year of an era and the day of that year, from the day of the era.\<close>

definition era_year :: "int \<Rightarrow> int" where
  "era_year doe = (doe - doe div 1460 + doe div 36524 - doe div 146096) div 365"

lemma era_year_parts:
  assumes c: "0 \<le> c" "c < 4" and b: "0 \<le> b" "b < 25" and y: "0 \<le> y" "y < 4"
    and d: "0 \<le> d" "d < 365 \<or> d = 365 \<and> y = 3 \<and> (b < 24 \<or> c = 3)"
  shows "era_year (36524 * c + 1461 * b + 365 * y + d) = 100 * c + 4 * b + y"
proof (cases "c = 3 \<and> b = 24 \<and> d = 365")
  case True
  with d y show ?thesis by (simp add: era_year_def)
next
  case False
  let ?doe = "36524 * c + 1461 * b + 365 * y + d"
  define e where "e = (if 24 * c + b + 365 * y + d \<ge> 1460 then 1 else 0 :: int)"
  have rest: "1461 * b + 365 * y + d < 36524" using b y d False by auto
  have "?doe div 1460 = 25 * c + b + e"
    by (rule int_div_pos_eq[where r = "24 * c + b + 365 * y + d - 1460 * e"]) (use b c y d in \<open>auto simp: e_def\<close>)
  moreover have "?doe div 36524 = c"
    by (rule int_div_pos_eq[where r = "1461 * b + 365 * y + d"]) (use b y d rest in auto)
  moreover have "?doe div 146096 = 0" using c b y d rest by auto
  moreover have "(36500 * c + 1460 * b + 365 * y + d - e) div 365 = 100 * c + 4 * b + y"
    by (rule int_div_pos_eq[where r = "d - e"]) (use b c y d in \<open>auto simp: e_def\<close>)
  ultimately show ?thesis by (simp add: era_year_def algebra_simps)
qed

lemma era_day_parts:
  fixes doe :: int
  assumes "0 \<le> doe" "doe < 146097"
  obtains c b y d where "0 \<le> c" "c < 4" "0 \<le> b" "b < 25" "0 \<le> y" "y < 4" "0 \<le> d"
    "d < 365 \<or> d = 365 \<and> y = 3 \<and> (b < 24 \<or> c = 3)" "doe = 36524 * c + 1461 * b + 365 * y + d"
proof -
  define c where "c = min 3 (doe div 36524)"
  define r where "r = doe - 36524 * c"
  have c: "0 \<le> c" "c < 4" "0 \<le> r" "r \<le> 36524" "r = 36524 \<Longrightarrow> c = 3"
  proof -
    have q: "36524 * (doe div 36524) \<le> doe" "doe < 36524 * (doe div 36524) + 36524" "0 \<le> doe div 36524"
      using mult_div_mod_eq[of 36524 doe] pos_mod_sign[of 36524 doe] pos_mod_bound[of 36524 doe] assms by linarith+
    consider "c = 3" "3 \<le> doe div 36524" | "c = doe div 36524" "doe div 36524 < 3" by (cases "3 \<le> doe div 36524") (auto simp: c_def)
    then show "0 \<le> c" "c < 4" "0 \<le> r" "r \<le> 36524" "r = 36524 \<Longrightarrow> c = 3"
      using q assms unfolding r_def by (cases; linarith)+
  qed
  define b where "b = r div 1461"
  have b: "0 \<le> b" "b < 25" using c by (auto simp: b_def)
  define s where "s = r mod 1461"
  have s: "0 \<le> s" "s \<le> 1460" "r = 1461 * b + s" by (auto simp: s_def b_def)
  define y where "y = min 3 (s div 365)"
  define d where "d = s - 365 * y"
  have y: "0 \<le> y" "y < 4" using s by (auto simp: y_def)
  have d: "0 \<le> d" "d \<le> 365" "d = 365 \<Longrightarrow> y = 3"
  proof -
    have q: "365 * (s div 365) \<le> s" "s < 365 * (s div 365) + 365"
      using mult_div_mod_eq[of 365 s] pos_mod_sign[of 365 s] pos_mod_bound[of 365 s] by linarith+
    consider "y = 3" "3 \<le> s div 365" | "y = s div 365" "s div 365 < 3" by (cases "3 \<le> s div 365") (auto simp: y_def)
    then show "0 \<le> d" "d \<le> 365" "d = 365 \<Longrightarrow> y = 3"
      using q s(1,2) unfolding d_def by (cases; linarith)+
  qed
  have "b < 24 \<or> c = 3" if "d = 365"
  proof -
    from that d have "s = 1460" by (simp add: d_def)
    with s c b show ?thesis by linarith
  qed
  with c b y d s show ?thesis by (intro that[of c b y d]) (auto simp: r_def d_def)
qed

lemma calendar_month_lengths:
  "map (\<lambda>m. DaysInMonth year (of_nat m)) [1..<13] =
   [31, if IsLeapYear year then 29 else 28, 31, 30, 31, 30, 31, 31, 30, 31, 30, 31]"
  by (simp add: DaysInMonth_def upt_rec)

lemma twelve_cases:
  "0 \<le> m \<Longrightarrow> m \<le> 11 \<Longrightarrow> m \<in> {0, 1, 2, 3, 4, 5, 6, 7, 8, 9, 10, 11 :: int}"
  unfolding insert_iff empty_iff by presburger

lemma calendar_month_sums:
  assumes "1 \<le> m" "m \<le> 12"
  shows "sum_list (map (\<lambda>m. uint (DaysInMonth year (of_nat m))) [1..<m]) =
    [0, 31, 59, 90, 120, 151, 181, 212, 243, 273, 304, 334] ! (m - 1) + (if m > 2 \<and> IsLeapYear year then 1 else 0)"
proof -
  have "m \<in> set [1..<13]" using assms by simp
  moreover have "list_all (\<lambda>m. sum_list (map (\<lambda>m. uint (DaysInMonth year (of_nat m))) [1..<m]) =
    [0, 31, 59, 90, 120, 151, 181, 212, 243, 273, 304, 334] ! (m - 1) + (if m > 2 \<and> IsLeapYear year then 1 else 0)) [1..<13]"
    by (simp add: DaysInMonth_def upt_rec)
  ultimately show ?thesis by (auto simp: list_all_iff)
qed

lemma leap_days: "leap_years year = leap_years (year - 1) + (if IsLeapYear year then 1 else 0)"
proof -
  have step: "year div n - (year - 1) div n = (if year mod n = 0 then 1 else 0)" if "0 < n" for n :: int
  proof -
    have y: "year = n * (year div n) + year mod n" by simp
    have "(year - 1) div n = (if year mod n = 0 then year div n - 1 else year div n)"
      by (rule int_div_pos_eq[where r = "if year mod n = 0 then n - 1 else year mod n - 1"])
        (use that y pos_mod_sign[of n year] pos_mod_bound[of n year] in \<open>simp_all add: algebra_simps split: if_split, linarith+\<close>)
    then show ?thesis by simp
  qed
  have "year mod 400 = 0 \<Longrightarrow> year mod 100 = 0" "year mod 100 = 0 \<Longrightarrow> year mod 4 = 0"
    by (auto simp: mod_eq_0_iff_dvd elim: dvd_trans[rotated])
  then have leap: "(if IsLeapYear year then 1 else 0) = (if year mod 4 = 0 then 1 else 0) -
      (if year mod 100 = 0 then 1 else 0) + (if year mod 400 = 0 then 1 else 0 :: int)"
    unfolding IsLeapYear_def by presburger
  have "leap_years year - leap_years (year - 1) = (year div 4 - (year - 1) div 4) -
      (year div 100 - (year - 1) div 100) + (year div 400 - (year - 1) div 400)"
    unfolding leap_years_def by linarith
  then show ?thesis unfolding leap step[OF zero_less_numeral] by linarith
qed

lemma DaysFromCivil_calendar:
  assumes "1 \<le> month" "month \<le> 12" "1 \<le> day"
  shows "DaysFromCivil year month day = calendar_day year (nat month) day"
proof -
  define y where "y = year - (if month \<le> 2 then 1 else 0)"
  have eras: "y div 400 * 146097 + ((y - y div 400 * 400) * 365 + (y - y div 400 * 400) div 4 - (y - y div 400 * 400) div 100) =
      365 * y + leap_years y"
  proof -
    define e r where "e = y div 400" and "r = y mod 400"
    then have y: "y = 400 * e + r" by simp
    have "(400 * e + r) div 4 = 100 * e + r div 4" "(400 * e + r) div 100 = 4 * e + r div 100"
      using div_mult_self2[of 4 r "100 * e"] div_mult_self2[of 100 r "4 * e"] by simp_all
    moreover have "y - e * 400 = r" "365 * y = 146000 * e + 365 * r" using y by simp_all
    ultimately show ?thesis unfolding leap_years_def e_def[symmetric] unfolding y by simp
  qed
  have f: "quotient (if y \<ge> 0 then y else y - 399) 400 = y div 400"     using floor_quotient[of 400 y] by (cases "y \<ge> 0") auto
  define r where "r = y - y div 400 * 400"
  have r: "0 \<le> r" using minus_div_mult_eq_mod[of y 400] by (simp add: r_def)
  define k where "k = 153 * (month + (if month > 2 then -3 else 9)) + 2"
  have k: "0 \<le> k" using assms by (auto simp: k_def)
  have "DaysFromCivil year month day = y div 400 * 146097 + (r * 365 + r div 4 - r div 100 + (k div 5 + day - 1)) - 719468"
    unfolding DaysFromCivil_def Let_def y_def[symmetric] f r_def[symmetric] k_def[symmetric]
    using r k by simp
  then have d: "DaysFromCivil year month day = 365 * y + leap_years y + k div 5 + day - 719469"
    using eras unfolding r_def[symmetric] by linarith
  show ?thesis
    unfolding d calendar_day_def using twelve_cases[of "month - 1"] leap_days[of year] assms
    by (auto simp: y_def k_def calendar_month_sums[unfolded One_nat_def])
qed

text \<open>The month and the day of a day of the year that starts in March.\<close>

lemma march_day:
  assumes "0 \<le> d" "d \<le> 365"
  defines "m \<equiv> (5 * d + 2) div 153"
  shows "0 \<le> m" "m \<le> 11" "1 \<le> d - (153 * m + 2) div 5 + 1"
    "d - (153 * m + 2) div 5 + 1 \<le> [31, 30, 31, 30, 31, 31, 30, 31, 30, 31, 31, if d = 365 then 29 else 28] ! nat m"
proof -
  show m: "0 \<le> m" "m \<le> 11" unfolding m_def using assms(1,2) by auto
  note twelve_cases[OF m]
  moreover have "153 * m \<le> 5 * d + 2" "5 * d + 2 < 153 * m + 153" unfolding m_def by linarith+
  ultimately show "1 \<le> d - (153 * m + 2) div 5 + 1"
    and "d - (153 * m + 2) div 5 + 1 \<le> [31, 30, 31, 30, 31, 31, 30, 31, 30, 31, 31, if d = 365 then 29 else 28] ! nat m"
    using assms(1,2) by auto
qed

lemma CivilFromDays_frame [simp]:
  "dt_hour (CivilFromDays days v) = dt_hour v" "dt_minute (CivilFromDays days v) = dt_minute v"
  "dt_second (CivilFromDays days v) = dt_second v" "dt_nanosecond (CivilFromDays days v) = dt_nanosecond v"
  "dt_offset_minutes (CivilFromDays days v) = dt_offset_minutes v"
proof -
  have "\<exists>d m y. CivilFromDays days v = v\<lparr>dt_day := d, dt_month := m, dt_year := y\<rparr>"
    unfolding CivilFromDays_def Let_def by blast
  then show "dt_hour (CivilFromDays days v) = dt_hour v" "dt_minute (CivilFromDays days v) = dt_minute v"
    "dt_second (CivilFromDays days v) = dt_second v" "dt_nanosecond (CivilFromDays days v) = dt_nanosecond v"
    "dt_offset_minutes (CivilFromDays days v) = dt_offset_minutes v"
    by auto
qed

lemma CivilFromDays_calendar:
  fixes days :: int and v
  defines "w \<equiv> CivilFromDays days v"
  shows "date_ok (dt_year w) (uint (dt_month w)) (uint (dt_day w))"
    "calendar_day (dt_year w) (unat (dt_month w)) (uint (dt_day w)) = days"
proof -
  define n where "n = days + 719468"
  define era where "era = n div 146097"
  define doe where "doe = n - era * 146097"
  have era: "quotient (if n \<ge> 0 then n else n - 146096) 146097 = era"
    using floor_quotient[of 146097 n] by (cases "n \<ge> 0") (auto simp: era_def)
  have doe: "0 \<le> doe" "doe < 146097"
    using minus_div_mult_eq_mod[of n 146097] by (simp_all add: doe_def era_def)
  obtain c b y d where parts: "0 \<le> c" "c < 4" "0 \<le> b" "b < 25" "0 \<le> y" "y < 4" "0 \<le> d"
    "d < 365 \<or> d = 365 \<and> y = 3 \<and> (b < 24 \<or> c = 3)" "doe = 36524 * c + 1461 * b + 365 * y + d"
    using era_day_parts[OF doe] by metis
  define yoe where "yoe = 100 * c + 4 * b + y"
  have yoe: "era_year doe = yoe" unfolding parts(9) yoe_def by (rule era_year_parts[OF parts(1-8)])
  have yoe_bounds: "0 \<le> yoe" "yoe < 400" "yoe div 4 = 25 * c + b" "yoe div 100 = c" using parts by (auto simp: yoe_def)
  have rest: "0 \<le> doe - doe div 1460 + doe div 36524 - doe div 146096" using doe by simp
  have yoe': "quotient (doe - quotient doe 1460 + quotient doe 36524 - quotient doe 146096) 365 = yoe"
    using doe rest yoe by (simp add: era_year_def)
  have doy: "doe - (365 * yoe + quotient yoe 4 - quotient yoe 100) = d"
    using yoe_bounds parts(9) by (simp add: yoe_def)
  define m where "m = (5 * d + 2) div 153"
  have d: "0 \<le> d" "d \<le> 365" using parts by auto
  note march = march_day[OF d, folded m_def]
  define day where "day = d - (153 * m + 2) div 5 + 1"
  define month where "month = (if m < 10 then m + 3 else m - 9)"
  define year where "year = yoe + era * 400 + (if month \<le> 2 then 1 else 0)"
  have w: "w = v\<lparr>dt_day := byte_of day, dt_month := byte_of month, dt_year := year\<rparr>"
    unfolding w_def CivilFromDays_def Let_def n_def[symmetric] era doe_def[symmetric] yoe' doy
    using d march(1) by (simp add: m_def[symmetric] day_def month_def year_def)
  have day: "1 \<le> day" "day \<le> [31, 30, 31, 30, 31, 31, 30, 31, 30, 31, 31, if d = 365 then 29 else 28] ! nat m"
    using march(3,4) by (simp_all add: day_def)
  with twelve_cases[OF march(1,2)] have day31: "day \<le> 31" by (auto split: if_split_asm)
  have month: "1 \<le> month" "month \<le> 12" using march(1,2) by (auto simp: month_def)
  have fields: "dt_year w = year" "uint (dt_month w) = month" "uint (dt_day w) = day" "unat (dt_month w) = nat month"
    using month day(1) day31 by (simp_all add: w unat_eq_nat_uint)
  have march_year: "year - (if month \<le> 2 then 1 else 0) = yoe + era * 400" by (simp add: year_def)
  have again: "153 * (month + (if month > 2 then -3 else 9)) + 2 = 153 * m + 2"
    using march(1,2) by (auto simp: month_def)
  have "quotient (if yoe + era * 400 \<ge> 0 then yoe + era * 400 else yoe + era * 400 - 399) 400 = era"
    using floor_quotient[of 400 "yoe + era * 400"] yoe_bounds(1,2) by (cases "yoe + era * 400 \<ge> 0") auto
  then have "DaysFromCivil year month day = era * 146097 + (yoe * 365 + 25 * c + b - c + d) - 719468"
    unfolding DaysFromCivil_def Let_def march_year again using yoe_bounds march(1) by (simp add: day_def)
  then have "DaysFromCivil year month day = days"
    using parts(9) by (simp add: yoe_def n_def doe_def)
  then show "calendar_day (dt_year w) (unat (dt_month w)) (uint (dt_day w)) = days"
    unfolding fields using DaysFromCivil_calendar[OF month day(1)] by simp
  have leap: "IsLeapYear year" if "d = 365" "month = 2"
  proof -
    have "y = 3" "b < 24 \<or> c = 3" using that parts(8) by auto
    then have yoe1: "yoe + 1 = (4 * b + 4) + 100 * c" by (simp add: yoe_def)
    have "yoe + 1 = 4 * (25 * c + b + 1)" using yoe1 by simp
    then have "(yoe + 1) mod 4 = 0" by (simp only: mod_mult_self1_is_0)
    moreover have "(yoe + 1) mod 100 \<noteq> 0 \<or> (yoe + 1) mod 400 = 0"
    proof (cases "b < 24")
      case True
      with yoe1 parts(3) show ?thesis by (simp only: mod_mult_self2) simp
    next
      case False
      with \<open>b < 24 \<or> c = 3\<close> parts(4) have "c = 3" "b = 24" by auto
      with yoe1 show ?thesis by simp
    qed
    moreover have "(yoe + era * 400 + 1) mod n = (yoe + 1) mod n" if "n dvd 400" for n
      using that by (metis add.assoc add.commute dvd_mult mod_add_self2 dvd_def mod_mult_self2)
    ultimately show ?thesis using that(2) by (simp add: IsLeapYear_def year_def)
  qed
  show "date_ok (dt_year w) (uint (dt_month w)) (uint (dt_day w))"
    unfolding fields date_ok_def using month day twelve_cases[OF march(1,2)] leap
    by (auto simp: DaysInMonth_def month_def split: if_split_asm)
qed

lemma raise_minutes_sum:
  "raise_minutes minutes days = (m, d) \<Longrightarrow> 0 \<le> m \<and> 1440 * d + m = 1440 * days + minutes"
  by (induction minutes days rule: raise_minutes.induct) (subst (asm) raise_minutes.simps, auto split: if_split_asm)

lemma lower_minutes_sum:
  "\<lbrakk>lower_minutes minutes days = (m, d); 0 \<le> minutes\<rbrakk> \<Longrightarrow> 0 \<le> m \<and> m < 1440 \<and> 1440 * d + m = 1440 * days + minutes"
  by (induction minutes days rule: lower_minutes.induct) (subst (asm) (2) lower_minutes.simps, auto split: if_split_asm)

subsection \<open>Intervals\<close>

lemma offset_integer_reads_back:
  assumes "- (2 ^ 31) \<le> i" "i < 2 ^ 31"
  shows "ReadOffsetInteger (PutBigEndian (i + INTERVAL_SIGN_OFFSET) @ rest) = i"
proof -
  have "uint (word_of_int (i + 0x80000000) :: u32) = i + 0x80000000"
    by (subst uint_word_of_int) (use assms in simp)
  then show ?thesis
    by (simp only: ReadOffsetInteger_def PutBigEndian_def INTERVAL_SIGN_OFFSET_def be_word_be_bytes_full
        length_be_bytes take_append) (simp add: be_word_be_bytes_full)
qed

lemma offset_integer_canonical:
  assumes "4 \<le> length data"
  shows "PutBigEndian (ReadOffsetInteger data + INTERVAL_SIGN_OFFSET) = take 4 data"
    "- (2 ^ 31) \<le> ReadOffsetInteger data" "ReadOffsetInteger data < 2 ^ 31"
proof -
  have l: "length (take 4 data) = 4" using assms by simp
  show "PutBigEndian (ReadOffsetInteger data + INTERVAL_SIGN_OFFSET) = take 4 data"
    using be_bytes_be_word[of "take 4 data", where 'a = 32] unfolding l
    by (simp add: PutBigEndian_def ReadOffsetInteger_def)
  show "- (2 ^ 31) \<le> ReadOffsetInteger data" "ReadOffsetInteger data < 2 ^ 31"
    using unsigned_less[of "be_word (take 4 data) :: u32", where 'a = int] unsigned_greater_eq[of "be_word (take 4 data) :: u32", where 'a = int]
    unfolding ReadOffsetInteger_def INTERVAL_SIGN_OFFSET_def by simp_all
qed

lemma PutBigEndian_length [simp]: "length (PutBigEndian i) = 4"
  by (simp add: PutBigEndian_def)

lemma interval_field_reads_back:
  "\<lbrakk>- limit \<le> value; value \<le> limit; limit < 60\<rbrakk> \<Longrightarrow>
   ReadIntervalField (byte_of (value + INTERVAL_FIELD_OFFSET)) limit = Inr value"
  by (simp add: ReadIntervalField_def INTERVAL_FIELD_OFFSET_def)

lemma interval_field_canonical:
  "ReadIntervalField b limit = Inr value \<Longrightarrow>
   byte_of (value + INTERVAL_FIELD_OFFSET) = b \<and> - limit \<le> value \<and> value \<le> limit"
  by (auto simp: ReadIntervalField_def INTERVAL_FIELD_OFFSET_def byte_of_def Let_def split: if_split_asm)

lemma year_month_reads_back:
  assumes "EncodeOracleIntervalYearMonth years months = Inr wire" "- (2 ^ 31) \<le> years" "years < 2 ^ 31"
  shows "DecodeOracleIntervalYearMonth wire = Inr (years * 12 + months)"
proof -
  from assms(1) have bounds: "-11 \<le> months" "months \<le> 11" and sign: "RequireOneSign [years, months] = Inr ()"
    and w: "wire = PutBigEndian (years + INTERVAL_SIGN_OFFSET) @ [byte_of (months + INTERVAL_FIELD_OFFSET)]"
    by (auto simp: EncodeOracleIntervalYearMonth_def RequireIntervalField_def andthen_eq_Inr split: if_split_asm)
  have "ReadOffsetInteger wire = years" using offset_integer_reads_back[OF assms(2,3)] by (simp add: w)
  with bounds sign show ?thesis
    by (simp add: DecodeOracleIntervalYearMonth_def Let_def w nth_append interval_field_reads_back)
qed

subsection \<open>Row identifiers\<close>

lemma alphabet_distinct: "distinct alphabet" "length alphabet = 64"
  by (simp_all add: alphabet_def)

lemma six_bits: "unat (w AND 63 :: u64) < 64"
proof -
  have "w AND 63 = take_bit 6 w" by (simp add: take_bit_eq_mask mask_eq_exp_minus_1)
  then show ?thesis using take_bit_nat_less_exp[of 6 "unat w"] by (simp add: unsigned_take_bit_eq)
qed

lemma put_digits_inject:
  fixes v w :: u64
  assumes "put_digits v n = put_digits w n"
  shows "take_bit (6 * n) v = take_bit (6 * n) w"
proof (rule bit_word_eqI)
  fix i assume "i < LENGTH(64)"
  have "drop_bit (d * 6) v AND 63 = drop_bit (d * 6) w AND 63" if "d < n" for d
  proof -
    from assms that have "alphabet ! unat (drop_bit (d * 6) v AND 63) = alphabet ! unat (drop_bit (d * 6) w AND 63)"
      by (simp add: put_digits_def rev_map[symmetric])
    then show ?thesis
      using nth_eq_iff_index_eq[OF alphabet_distinct(1)] six_bits alphabet_distinct(2) by (metis word_unat_eq_iff)
  qed
  moreover have "(63 :: u64) = mask 6" by (simp add: mask_eq_exp_minus_1)
  ultimately have d: "bit (drop_bit (d * 6) v AND mask 6) j = bit (drop_bit (d * 6) w AND mask 6) j" if "d < n" for d j
    using that by metis
  show "bit (take_bit (6 * n) v) i = bit (take_bit (6 * n) w) i"
  proof (cases "i < 6 * n")
    case True
    then have "i div 6 < n" by (simp add: div_less_iff_less_mult mult.commute)
    from d[OF this, of "i mod 6"] show ?thesis
      using \<open>i < LENGTH(64)\<close> True mod_less_divisor[of 6 i]
      by (auto simp: bit_simps mult.commute less_le_trans)
  qed (simp add: bit_simps)
qed

lemma put_digits_word_inject:
  assumes "put_digits (be_word bs) n = put_digits (be_word cs) n" "length bs = length cs"
    "8 * length bs \<le> 6 * n" "length bs \<le> 8"
  shows "bs = cs"
proof (rule be_word_inject[where 'a = 64])
  have "take_bit (6 * n) (be_word xs :: u64) = be_word xs" if "length xs = length bs" for xs
  proof (rule bit_word_eqI)
    fix i
    show "bit (take_bit (6 * n) (be_word xs :: u64)) i = bit (be_word xs :: u64) i"
      using bit_be_word[of xs i, where 'a = 64] that assms(3) by (auto simp: bit_take_bit_iff)
  qed
  with put_digits_inject[OF assms(1)] assms(2) show "(be_word bs :: u64) = be_word cs" by metis
qed (use assms in auto)

lemma put_digits_text: "length (put_digits v n) = n" "set (put_digits v n) \<subseteq> set alphabet"
  using six_bits alphabet_distinct(2) by (auto simp: put_digits_def)

subsection \<open>Binary floating point\<close>

text \<open>Bit patterns of floating-point numbers and their wire forms determine each other.\<close>

lemma sign_bit: "b AND 0x80 = 0 \<longleftrightarrow> \<not> bit b 7" for b :: u8
  using and_exp_eq_0_iff_not_bit[of b 7] by simp

lemma sign_bit_set: "\<not> bit b 7 \<Longrightarrow> (b OR 0x80) AND 0x7F = b" "bit b 7 \<Longrightarrow> (b AND 0x7F) OR 0x80 = b" for b :: u8
proof -
  have "bit (2 ^ 7 :: u8) i \<longleftrightarrow> i = 7" for i by (auto simp only: bit_exp_iff possible_bit_word) simp
  then have s: "bit (0x80 :: u8) i \<longleftrightarrow> i = 7" for i by simp
  have "(0x7F :: u8) = mask 7" by (simp add: mask_eq_exp_minus_1)
  then have m: "bit (0x7F :: u8) i \<longleftrightarrow> i < 7" for i by (simp only: bit_mask_iff possible_bit_word) auto
  have less: "i < 7 \<or> i = 7" if "bit b i" for i using bit_imp_le_length[OF that] by auto
  have "bit ((b OR 0x80) AND 0x7F) n = bit b n" if "\<not> bit b 7" "n < 8" for n
    using that less[of n] s[of n] m[of n] by (auto simp: bit_and_iff bit_or_iff)
  then show "\<not> bit b 7 \<Longrightarrow> (b OR 0x80) AND 0x7F = b" by (auto intro: bit_word_eqI)
  have "bit ((b AND 0x7F) OR 0x80) n = bit b n" if "bit b 7" "n < 8" for n
    using that less[of n] s[of n] m[of n] by (auto simp: bit_and_iff bit_or_iff)
  then show "bit b 7 \<Longrightarrow> (b AND 0x7F) OR 0x80 = b" by (auto intro: bit_word_eqI)
qed

lemma binary_wire_form:
  assumes "LENGTH('a::len) = 8 * width" "0 < width"
  shows "DecodeBinary width wire = Inr (bits :: 'a word) \<longleftrightarrow> wire = EncodeBinary bits"
proof -
  define forth :: "bytes \<Rightarrow> bytes" where
    "forth bs = (if hd bs AND 0x80 = 0 then (hd bs OR 0x80) # tl bs else map (\<lambda>b. NOT b) bs)" for bs
  define undo :: "bytes \<Rightarrow> bytes" where
    "undo bs = (if hd bs AND 0x80 \<noteq> 0 then (hd bs AND 0x7F) # tl bs else map (\<lambda>b. NOT b) bs)" for bs
  have inverse: "undo (forth bs) = bs" "forth (undo bs) = bs" "length (forth bs) = length bs" "length (undo bs) = length bs"
    if "length bs = width" for bs
  proof -
    from that assms(2) obtain b cs where bs: "bs = b # cs" by (cases bs) auto
    have n: "\<not> bit (b AND 0x7F) 7" "bit (b OR 0x80) 7" "bit (NOT b) 7 \<longleftrightarrow> \<not> bit b 7"
      by (simp_all add: bit_simps)
    show "undo (forth bs) = bs" "forth (undo bs) = bs" "length (forth bs) = length bs" "length (undo bs) = length bs"
      using n sign_bit_set[of b] by (simp_all add: bs forth_def undo_def sign_bit o_def)
  qed
  have enc: "EncodeBinary bits = forth (be_bytes width bits)"
    using assms by (simp add: EncodeBinary_def forth_def word_size Let_def)
  have dec: "DecodeBinary width wire = Inr bits \<longleftrightarrow> length wire = width \<and> be_word (undo wire) = bits"
    by (auto simp: DecodeBinary_def undo_def Let_def)
  show ?thesis
  proof
    assume "DecodeBinary width wire = Inr bits"
    with dec have w: "length wire = width" "be_word (undo wire) = bits" by auto
    with inverse[OF w(1)] be_bytes_be_word[of "undo wire", where 'a = 'a] assms show "wire = EncodeBinary bits"
      by (auto simp: enc)
  next
    assume "wire = EncodeBinary bits"
    with inverse[of "be_bytes width bits"] assms show "DecodeBinary width wire = Inr bits"
      unfolding dec by (simp add: enc be_word_be_bytes_full)
  qed
qed

section \<open>Properties\<close>

text \<open>
  C28. A timestamp survives its wire form: whatever fields the encoder accepts are decoded to themselves from
  11 bytes, or with a time zone from 13, years before the epoch of the calendar and negative offsets
  included. Without a time zone the offset is what is not sent.
\<close>

theorem timestamp_round_trip:
  assumes "EncodeOracleTimestamp v with_time_zone = Inr wire"
  shows "length wire = (if with_time_zone then 13 else 11) \<and>
    DecodeOracleTimestamp wire = Inr (if with_time_zone then v else v\<lparr>dt_offset_minutes := 0, dt_has_offset := False\<rparr>)"
proof -
  define h where "h = quotient (dt_offset_minutes v) 60"
  from assms obtain date where ok: "date_time_ok v" and z: "with_time_zone \<Longrightarrow> dt_has_offset v" and d: "EncodeOracleDate v = Inr date"
    and w: "wire = date @ be_bytes 4 (dt_nanosecond v) @
      (if with_time_zone then [byte_of (h + 20), byte_of (dt_offset_minutes v - h * 60 + 60)] else [])"
    by (auto simp: EncodeOracleTimestamp_def andthen_eq_Inr ValidateDateTime_iff h_def Let_def split: if_split_asm)
  note date = date_reads_back[OF d]
  have ns: "be_word (take 4 (drop 7 wire)) = dt_nanosecond v" "take 7 wire = date"
    by (simp_all add: w date(1) be_word_be_bytes_full)
  show ?thesis
  proof (cases with_time_zone)
    case False
    then have "length wire = 11" by (simp add: w date(1))
    moreover have "ValidateDateTime (v\<lparr>dt_offset_minutes := 0, dt_has_offset := False\<rparr>) = Inr ()"
      using date_time_ok_without(2)[OF ok] by (simp add: ValidateDateTime_iff)
    moreover have "v\<lparr>dt_nanosecond := 0, dt_offset_minutes := 0, dt_has_offset := False, dt_nanosecond := dt_nanosecond v\<rparr> =
        v\<lparr>dt_offset_minutes := 0, dt_has_offset := False\<rparr>"
      by simp
    ultimately show ?thesis using False
      unfolding DecodeOracleTimestamp_def Let_def ns date(2) by simp
  next
    case True
    then have l: "length wire = 13" "wire ! 11 = byte_of (h + 20)" "wire ! 12 = byte_of (dt_offset_minutes v - h * 60 + 60)"
      by (simp_all add: w date(1) nth_append)
    have "-900 \<le> dt_offset_minutes v" "dt_offset_minutes v \<le> 900" using ok z[OF True] by (auto simp: date_time_ok_def)
    note o = offset_reads_back[OF this, folded h_def]
    have v: "v\<lparr>dt_nanosecond := 0, dt_offset_minutes := 0, dt_has_offset := False, dt_nanosecond := dt_nanosecond v,
        dt_offset_minutes := dt_offset_minutes v, dt_has_offset := True\<rparr> = v"
      using z[OF True] by simp
    have "ValidateDateTime v = Inr ()" using ok by (simp add: ValidateDateTime_iff)
    with True v show ?thesis
      unfolding DecodeOracleTimestamp_def Let_def ns date(2) l o by simp
  qed
qed

definition negative_offset_time :: date_time where
  "negative_offset_time = \<lparr>dt_year = -44, dt_month = 3, dt_day = 15, dt_hour = 23, dt_minute = 59, dt_second = 1,
     dt_nanosecond = 999999999, dt_offset_minutes = -90, dt_has_offset = True\<rparr>"

lemma timestamp_round_trip_witness:
  "\<exists>wire. EncodeOracleTimestamp negative_offset_time True = Inr wire \<and> DecodeOracleTimestamp wire = Inr negative_offset_time"
proof -
  have "date_time_ok negative_offset_time"
    by (simp add: negative_offset_time_def date_time_ok_def DaysInMonth_def)
  moreover have "dt_has_offset negative_offset_time" by (simp add: negative_offset_time_def)
  ultimately obtain wire where "EncodeOracleTimestamp negative_offset_time True = Inr wire"
    unfolding EncodeOracleTimestamp_def EncodeOracleDate_def ValidateDateTime_iff[symmetric] Let_def by simp
  with timestamp_round_trip[OF this] show ?thesis by simp
qed

lemma uint_pos: "b \<noteq> 0 \<Longrightarrow> 1 \<le> uint b"
  using uint_0_iff[of b] uint_nonnegative[of b] by linarith

definition civil_minutes :: "date_time \<Rightarrow> int" where
  "civil_minutes v = 1440 * calendar_day (dt_year v) (unat (dt_month v)) (uint (dt_day v)) +
     60 * uint (dt_hour v) + uint (dt_minute v)"

text \<open>
  The wall clock shows the same instant. For any zoned timestamp the decoder returns, the clock of its
  offset is the offset's minutes ahead of the decoded UTC fields, counted in calendar days with the real
  month lengths and leap years, and it shows a real date and time; nothing below the minute changes.
\<close>

theorem wall_clock_same_instant:
  assumes "DecodeOracleTimestamp wire = Inr utc" "dt_has_offset utc"
  defines "w \<equiv> OracleZonedWallClock utc"
  shows "civil_minutes w = civil_minutes utc + dt_offset_minutes utc \<and>
    date_ok (dt_year w) (uint (dt_month w)) (uint (dt_day w)) \<and> dt_hour w < 24 \<and> dt_minute w < 60 \<and>
    dt_second w = dt_second utc \<and> dt_nanosecond w = dt_nanosecond utc \<and> dt_offset_minutes w = dt_offset_minutes utc"
proof -
  have "date_time_ok utc"
    using assms(1) by (auto simp: DecodeOracleTimestamp_def Let_def andthen_eq_Inr ValidateDateTime_iff split: if_split_asm)
  then have month: "1 \<le> uint (dt_month utc)" "uint (dt_month utc) \<le> 12" "1 \<le> uint (dt_day utc)"
    by (auto simp: date_time_ok_def word_le_def intro: uint_pos)
  define start where "start = calendar_day (dt_year utc) (unat (dt_month utc)) (uint (dt_day utc))"
  have start: "DaysFromCivil (dt_year utc) (uint (dt_month utc)) (uint (dt_day utc)) = start"
    using DaysFromCivil_calendar[OF month] by (simp add: start_def)
  obtain m1 d1 where 1: "raise_minutes (uint (dt_hour utc) * 60 + uint (dt_minute utc) + dt_offset_minutes utc) start = (m1, d1)"
    by (metis surj_pair)
  obtain m2 d2 where 2: "lower_minutes m1 d1 = (m2, d2)" by (metis surj_pair)
  note sums = raise_minutes_sum[OF 1] lower_minutes_sum[OF 2]
  define v where "v = utc\<lparr>dt_hour := byte_of (quotient m2 60), dt_minute := byte_of (m2 mod 60)\<rparr>"
  have w: "w = CivilFromDays d2 v"
    by (simp add: w_def OracleZonedWallClock_def assms(2) start 1 2 v_def)
  note civil = CivilFromDays_calendar[where days = d2 and v = v, folded w]
  have "0 \<le> m2" "m2 div 60 < 24" using sums by auto
  then have time: "uint (dt_hour w) = m2 div 60" "uint (dt_minute w) = m2 mod 60"
    by (simp_all add: w v_def)
  have "civil_minutes w = civil_minutes utc + dt_offset_minutes utc"
    unfolding civil_minutes_def civil(2) time start_def[symmetric]
    using sums mult_div_mod_eq[of 60 m2] by linarith
  with \<open>m2 div 60 < 24\<close> show ?thesis using civil(1) time by (simp add: word_less_def) (simp add: w v_def)
qed

lemma wall_clock_same_instant_witness:
  "\<exists>utc. DecodeOracleTimestamp [120, 124, 2, 29, 23, 31, 1, 0, 0, 0, 0, 24, 60] = Inr utc \<and>
     civil_minutes (OracleZonedWallClock utc) = civil_minutes utc + 240"
proof -
  obtain utc where utc: "DecodeOracleTimestamp [120, 124, 2, 29, 23, 31, 1, 0, 0, 0, 0, 24, 60] = Inr utc"
    "dt_has_offset utc" "dt_offset_minutes utc = 240"
    by (simp add: DecodeOracleTimestamp_def DecodeOracleDate_def ValidateDateTime_def OracleDateTime_def DaysInMonth_def
        IsLeapYear_def Let_def be_word_def)
  from wall_clock_same_instant[OF utc(1,2)] utc show ?thesis by auto
qed

text \<open>
  An interval and its wire form determine each other. The decoder of INTERVAL DAY TO SECOND accepts
  exactly the encodings of components in range and of one sign, and answers the days and the rest of that
  encoding in nanoseconds.
\<close>

theorem interval_wire_form:
  "DecodeOracleIntervalDaySecond wire = Inr (days, nanoseconds) \<longleftrightarrow>
   (\<exists>h m s n. EncodeOracleIntervalDaySecond days h m s n = Inr wire \<and> - (2 ^ 31) \<le> days \<and> days < 2 ^ 31 \<and>
      nanoseconds = ((h * 60 + m) * 60 + s) * 1000000000 + n)"
proof
  assume dec: "DecodeOracleIntervalDaySecond wire = Inr (days, nanoseconds)"
  then obtain h m s where l: "length wire = 11" and h: "ReadIntervalField (wire ! 4) 23 = Inr h"
    and m: "ReadIntervalField (wire ! 5) 59 = Inr m" and s: "ReadIntervalField (wire ! 6) 59 = Inr s"
    and n: "-1000000000 < ReadOffsetInteger (drop 7 wire)" "ReadOffsetInteger (drop 7 wire) < 1000000000"
    and sign: "RequireOneSign [days, h, m, s, ReadOffsetInteger (drop 7 wire)] = Inr ()"
    and d: "days = ReadOffsetInteger wire"
    and t: "nanoseconds = ((h * 60 + m) * 60 + s) * 1000000000 + ReadOffsetInteger (drop 7 wire)"
    unfolding DecodeOracleIntervalDaySecond_def Let_def by (auto simp: andthen_eq_Inr split: if_split_asm)
  note field = interval_field_canonical[OF h] interval_field_canonical[OF m] interval_field_canonical[OF s]
  have four: "4 \<le> length wire" "4 \<le> length (drop 7 wire)" using l by simp_all
  have "wire = take 4 wire @ [wire ! 4, wire ! 5, wire ! 6] @ take 4 (drop 7 wire)"
    using l by (simp add: list_eq_iff_nth_eq nth_append nth_Cons' less_Suc_eq numeral_eq_Suc)
  then have "EncodeOracleIntervalDaySecond days h m s (ReadOffsetInteger (drop 7 wire)) = Inr wire"
    using field n sign offset_integer_canonical(1)[OF four(1)] offset_integer_canonical(1)[OF four(2)]
    by (simp add: EncodeOracleIntervalDaySecond_def RequireIntervalField_def d)
  with t d offset_integer_canonical(2,3)[OF four(1)] show "\<exists>h m s n. EncodeOracleIntervalDaySecond days h m s n = Inr wire \<and>
      - (2 ^ 31) \<le> days \<and> days < 2 ^ 31 \<and> nanoseconds = ((h * 60 + m) * 60 + s) * 1000000000 + n"
    by blast
next
  assume "\<exists>h m s n. EncodeOracleIntervalDaySecond days h m s n = Inr wire \<and> - (2 ^ 31) \<le> days \<and> days < 2 ^ 31 \<and>
    nanoseconds = ((h * 60 + m) * 60 + s) * 1000000000 + n"
  then obtain h m s n where enc: "EncodeOracleIntervalDaySecond days h m s n = Inr wire"
    and d: "- (2 ^ 31) \<le> days" "days < 2 ^ 31" and t: "nanoseconds = ((h * 60 + m) * 60 + s) * 1000000000 + n"
    by blast
  define fields where "fields = [byte_of (h + INTERVAL_FIELD_OFFSET), byte_of (m + INTERVAL_FIELD_OFFSET),
    byte_of (s + INTERVAL_FIELD_OFFSET)]"
  from enc have bounds: "-23 \<le> h" "h \<le> 23" "-59 \<le> m" "m \<le> 59" "-59 \<le> s" "s \<le> 59" "-999999999 \<le> n" "n \<le> 999999999"
    and sign: "RequireOneSign [days, h, m, s, n] = Inr ()"
    and w: "wire = PutBigEndian (days + INTERVAL_SIGN_OFFSET) @ fields @ PutBigEndian (n + INTERVAL_SIGN_OFFSET)"
    unfolding fields_def
    by (auto simp: EncodeOracleIntervalDaySecond_def RequireIntervalField_def andthen_eq_Inr split: if_split_asm)
  have read: "ReadOffsetInteger wire = days" "ReadOffsetInteger (drop 7 wire) = n"
    using offset_integer_reads_back[OF d] offset_integer_reads_back[of n "[]"] bounds
    by (simp_all add: w fields_def)
  have "wire ! 4 = byte_of (h + INTERVAL_FIELD_OFFSET)" "wire ! 5 = byte_of (m + INTERVAL_FIELD_OFFSET)"
    "wire ! 6 = byte_of (s + INTERVAL_FIELD_OFFSET)" "length wire = 11"
    by (simp_all add: w fields_def nth_append)
  with bounds sign t show "DecodeOracleIntervalDaySecond wire = Inr (days, nanoseconds)"
    by (simp add: DecodeOracleIntervalDaySecond_def Let_def read interval_field_reads_back)
qed

text \<open>
  The text of a ROWID names one row: it has 18 characters of the base-64 alphabet, and two ROWIDs with
  the same text have the same twelve bytes, whether they came in the physical or the universal form.
\<close>

theorem rowid_text_unique:
  assumes "TryDecodeOracleRowid a = Some t" "TryDecodeOracleRowid b = Some t"
  shows "length t = 18 \<and> set t \<subseteq> set alphabet \<and> drop (length a - 12) a = drop (length b - 12) b"
proof -
  define parts :: "bytes \<Rightarrow> string" where "parts data = put_digits (be_word (take 4 data)) 6 @ put_digits (be_word (take 2 (drop 4 data))) 3 @
    put_digits (be_word (take 4 (drop 6 data))) 6 @ put_digits (be_word (take 2 (drop 10 data))) 3" for data
  have parts: "t = parts (drop (length r - 12) r) \<and> length (drop (length r - 12) r) = 12" if "TryDecodeOracleRowid r = Some t" for r
    using that by (auto simp: TryDecodeOracleRowid_def parts_def Let_def split: if_split_asm)
  define x y where "x = drop (length a - 12) a" and "y = drop (length b - 12) b"
  with parts assms have xy: "t = parts x" "length x = 12" "t = parts y" "length y = 12" by blast+
  from xy(1,3) have eq: "put_digits (be_word (take 4 x)) 6 = put_digits (be_word (take 4 y)) 6"
    "put_digits (be_word (take 2 (drop 4 x))) 3 = put_digits (be_word (take 2 (drop 4 y))) 3"
    "put_digits (be_word (take 4 (drop 6 x))) 6 = put_digits (be_word (take 4 (drop 6 y))) 6"
    "put_digits (be_word (take 2 (drop 10 x))) 3 = put_digits (be_word (take 2 (drop 10 y))) 3"
    by (simp_all add: parts_def put_digits_text)
  have "take 4 x = take 4 y" "take 2 (drop 4 x) = take 2 (drop 4 y)" "take 4 (drop 6 x) = take 4 (drop 6 y)"
    "take 2 (drop 10 x) = take 2 (drop 10 y)"
    using eq xy(2,4) by (auto intro!: put_digits_word_inject)
  moreover have "z = take 4 z @ take 2 (drop 4 z) @ take 4 (drop 6 z) @ take 2 (drop 10 z)" if "length z = 12" for z :: bytes
    using that append_take_drop_id[of 2 "drop 10 z"] append_take_drop_id[of 4 "drop 6 z"]
      append_take_drop_id[of 2 "drop 4 z"] append_take_drop_id[of 4 z] by simp
  ultimately have "x = y" using xy(2,4) by metis
  moreover have "length t = 18" "set t \<subseteq> set alphabet"
    using put_digits_text(2) by (auto simp: xy(1) parts_def put_digits_text(1))
  ultimately show ?thesis by (simp add: x_def y_def)
qed

lemma rowid_text_unique_witness:
  "length ''AAAAABAACAAAAADAAE'' = 18 \<and> drop 0 [0, 0, 0, 1, 0, 2, 0, 0, 0, 3, 0, 4] = drop 1 [1, 0, 0, 0, 1, 0, 2, 0, 0, 0, 3, 0, 4 :: u8]"
proof -
  have t: "TryDecodeOracleRowid [0, 0, 0, 1, 0, 2, 0, 0, 0, 3, 0, 4] = Some ''AAAAABAACAAAAADAAE''"
    "TryDecodeOracleRowid [1, 0, 0, 0, 1, 0, 2, 0, 0, 0, 3, 0, 4] = Some ''AAAAABAACAAAAADAAE''"
    by (simp_all add: TryDecodeOracleRowid_def put_digits_def be_word_def alphabet_def upt_rec)
  from rowid_text_unique[OF t] show ?thesis by simp
qed

end
