(* ===== verification/Number_Codec.thy ===== *)
theory Number_Codec
  imports Value_Codec Complex_Main
begin

text \<open>
  The NUMBER functions of \<^verbatim>\<open>src/value_codec.cpp\<close>: decimal text to the base-100 wire form, the wire form
  to decimal text, and the wire form to an integer without the text.

  A base-100 digit is a \<^typ>\<open>nat\<close> below 100, and the magnitude of an integer a \<^typ>\<open>nat\<close> that the code
  keeps at or below \<open>2 ^ 63\<close>.
\<close>

section \<open>Text to wire\<close>

fun exponent_digits :: "string \<Rightarrow> int \<Rightarrow> (int \<times> string) result" where
  "exponent_digits [] value = Inr (value, [])"
| "exponent_digits (c # cs) value =
     (if isdigit c then
        if value > 100000 then throw LIMIT_EXCEEDED else exponent_digits cs (value * 10 + int (digit_value c))
      else Inr (value, c # cs))"

text \<open>The text from the position of the exponent on.\<close>

definition ParseExponent :: "string \<Rightarrow> int result" where
  "ParseExponent t =
     (if t = [] then Inr 0
      else if hd t \<noteq> CHR ''e'' \<and> hd t \<noteq> CHR ''E'' then throw MALFORMED
      else let t = tl t; signed = t \<noteq> [] \<and> (hd t = CHR ''+'' \<or> hd t = CHR ''-'');
               negative = signed \<and> hd t = CHR ''-''; t = (if signed then tl t else t) in
        if t = [] \<or> \<not> isdigit (hd t) then throw MALFORMED
        else andthen (exponent_digits t 0) (\<lambda>(value, rest).
          if rest \<noteq> [] then throw MALFORMED else Inr (if negative then - value else value)))"

definition FloorDivideByTwo :: "int \<Rightarrow> int" where
  "FloorDivideByTwo value = (if value \<ge> 0 then quotient value 2 else - quotient (- value + 1) 2)"

text \<open>The digits before the exponent, and where the decimal point stood among them, if it was seen.\<close>

fun mantissa :: "string \<Rightarrow> string \<Rightarrow> nat option \<Rightarrow> (string \<times> nat option \<times> string) result" where
  "mantissa [] digits point = Inr (digits, point, [])"
| "mantissa (c # cs) digits point =
     (if c = CHR ''e'' \<or> c = CHR ''E'' then Inr (digits, point, c # cs)
      else if c = CHR ''.'' then
        (if point \<noteq> None then throw MALFORMED else mantissa cs digits (Some (length digits)))
      else if isdigit c then mantissa cs (digits @ [c]) point
      else throw MALFORMED)"

definition pop_zeros :: "'a \<Rightarrow> 'a list \<Rightarrow> 'a list" where
  "pop_zeros z xs = rev (dropWhile (\<lambda>x. x = z) (rev xs))"

text \<open>The base-100 digits: the first of one or two decimal digits, every other of two.\<close>

fun base_100 :: "nat \<Rightarrow> string \<Rightarrow> nat list" where
  "base_100 width [] = []"
| "base_100 width (d # ds) =
     (if width = 2 then
        (case ds of
           [] \<Rightarrow> [digit_value d * 10]
         | d' # ds' \<Rightarrow> (digit_value d * 10 + digit_value d') # base_100 2 ds')
      else digit_value d # base_100 2 ds)"

definition number_wire :: "bool \<Rightarrow> int \<Rightarrow> nat list \<Rightarrow> bytes" where
  "number_wire negative exponent_100 groups =
     (let result = byte_of (if negative then 62 - exponent_100 else exponent_100 + 193) #
            map (\<lambda>g. byte_of (if negative then 101 - int g else int g + 1)) groups
      in if negative \<and> length result < 21 then result @ [102] else result)"

definition encode_digits :: "bool \<Rightarrow> string \<Rightarrow> int \<Rightarrow> bytes result" where
  "encode_digits negative digits decimal_position =
     (let stripped = dropWhile (\<lambda>c. c = CHR ''0'') digits in
      if stripped = [] then Inr [0x80]
      else let decimal_position = decimal_position - int (length digits - length stripped);
               digits = pop_zeros (CHR ''0'') stripped;
               highest_power_ten = decimal_position - 1;
               exponent_100 = FloorDivideByTwo highest_power_ten in
        if exponent_100 < -65 \<or> exponent_100 > 62 then throw LIMIT_EXCEEDED
        else let first_width = nat (highest_power_ten - exponent_100 * 2 + 1);
                 groups = pop_zeros 0 (base_100 first_width digits) in
          if groups = [] \<or> length groups > 20 then throw LIMIT_EXCEEDED
          else Inr (number_wire negative exponent_100 groups))"

definition EncodeOracleNumber :: "string \<Rightarrow> bytes result" where
  "EncodeOracleNumber t =
     (if t = [] then throw MALFORMED
      else if length t > 256 then throw LIMIT_EXCEEDED
      else let signed = hd t = CHR ''+'' \<or> hd t = CHR ''-''; negative = hd t = CHR ''-'';
               rest = (if signed then tl t else t) in
        andthen (mantissa rest [] None) (\<lambda>(digits, point, rest).
          if digits = [] then throw MALFORMED
          else andthen (ParseExponent rest) (\<lambda>exponent.
            encode_digits negative digits ((case point of None \<Rightarrow> int (length digits) | Some p \<Rightarrow> int p) + exponent))))"

section \<open>Wire to text\<close>

definition number_negative :: "bytes \<Rightarrow> bool" where
  "number_negative wire \<longleftrightarrow> wire ! 0 < 0x80"

definition number_exponent :: "bytes \<Rightarrow> int" where
  "number_exponent wire = (if number_negative wire then 62 - uint (wire ! 0) else uint (wire ! 0) - 193)"

definition number_end :: "bytes \<Rightarrow> nat" where
  "number_end wire = (if number_negative wire \<and> last wire = 102 then length wire - 1 else length wire)"

definition group_value :: "bool \<Rightarrow> u8 \<Rightarrow> int" where
  "group_value negative b = (if negative then 101 - uint b else uint b - 1)"

fun read_groups :: "bool \<Rightarrow> bytes \<Rightarrow> nat list result" where
  "read_groups negative [] = Inr []"
| "read_groups negative (b # bs) =
     (let value = group_value negative b in
      if value < 0 \<or> value > 99 \<or> (bs = [] \<and> value = 0) then throw MALFORMED
      else andthen (read_groups negative bs) (\<lambda>groups. Inr (nat value # groups)))"

definition group_digits :: "nat list \<Rightarrow> string" where
  "group_digits groups =
     decimal (hd groups) @ concat (map (\<lambda>g. [digit_char (g div 10), digit_char (g mod 10)]) (tl groups))"

definition place_point :: "string \<Rightarrow> int \<Rightarrow> string" where
  "place_point digits decimal_position =
     (if decimal_position \<le> 0 then ''0.'' @ replicate (nat (- decimal_position)) (CHR ''0'') @ digits
      else if decimal_position \<ge> int (length digits) then
        digits @ replicate (nat (decimal_position - int (length digits))) (CHR ''0'')
      else take (nat decimal_position) digits @ ''.'' @ drop (nat decimal_position) digits)"

definition trim_fraction :: "string \<Rightarrow> string" where
  "trim_fraction t =
     (if CHR ''.'' \<in> set t then
        let t = pop_zeros (CHR ''0'') t in if last t = CHR ''.'' then butlast t else t
      else t)"

definition number_text :: "bool \<Rightarrow> int \<Rightarrow> nat list \<Rightarrow> string" where
  "number_text negative exponent_100 groups =
     (let decimal_position = int (length (decimal (hd groups))) + exponent_100 * 2;
          result = trim_fraction (place_point (group_digits groups) decimal_position)
      in if negative then CHR ''-'' # result else result)"

definition DecodeOracleNumber :: "bytes \<Rightarrow> string result" where
  "DecodeOracleNumber wire =
     (if wire = [] \<or> length wire > 21 then throw MALFORMED
      else if length wire = 1 \<and> wire ! 0 = 0x80 then Inr ''0''
      else if number_exponent wire < -65 \<or> number_exponent wire > 62 \<or> length wire = 1 then throw MALFORMED
      else if number_end wire = 1 then throw MALFORMED
      else andthen (read_groups (number_negative wire) (drop 1 (take (number_end wire) wire))) (\<lambda>groups.
        Inr (number_text (number_negative wire) (number_exponent wire) groups)))"

section \<open>Wire to integer\<close>

definition integer_limit :: nat where
  "integer_limit = 2 ^ 63"

fun magnitude_of :: "bool \<Rightarrow> bytes \<Rightarrow> nat \<Rightarrow> nat option" where
  "magnitude_of negative [] magnitude = Some magnitude"
| "magnitude_of negative (b # bs) magnitude =
     (let value = group_value negative b in
      if value < 0 \<or> value > 99 \<or> (bs = [] \<and> value = 0) then None
      else if magnitude > (integer_limit - nat value) div 100 then None
      else magnitude_of negative bs (magnitude * 100 + nat value))"

fun scale_up :: "nat \<Rightarrow> nat \<Rightarrow> nat option" where
  "scale_up 0 magnitude = Some magnitude"
| "scale_up (Suc n) magnitude = (if magnitude > integer_limit div 100 then None else scale_up n (magnitude * 100))"

definition TryDecodeOracleInteger :: "bytes \<Rightarrow> int option" where
  "TryDecodeOracleInteger wire =
     (if wire = [] \<or> length wire > 21 then None
      else if length wire = 1 \<and> wire ! 0 = 0x80 then Some 0
      else if number_exponent wire < -65 \<or> number_exponent wire > 62 \<or> length wire = 1 then None
      else if number_end wire = 1 then None
      else let digit_count = int (number_end wire) - 1 in
        if number_exponent wire < digit_count - 1 then None
        else case magnitude_of (number_negative wire) (drop 1 (take (number_end wire) wire)) 0 of
          None \<Rightarrow> None
        | Some magnitude \<Rightarrow>
            (case scale_up (nat (number_exponent wire - (digit_count - 1))) magnitude of
               None \<Rightarrow> None
             | Some magnitude \<Rightarrow>
                 if number_negative wire then Some (- int magnitude)
                 else if magnitude = integer_limit then None
                 else Some (int magnitude)))"

section \<open>What a number text and its wire form mean\<close>

section \<open>What a text and a wire form mean\<close>

definition digits_value :: "string \<Rightarrow> nat" where
  "digits_value ds = foldl (\<lambda>v c. v * 10 + digit_value c) 0 ds"

definition fraction_of :: "string \<Rightarrow> string" where
  "fraction_of t = drop 1 (dropWhile (\<lambda>c. c \<noteq> CHR ''.'') t)"

definition plain_value :: "string \<Rightarrow> rat" where
  "plain_value t = of_nat (digits_value (takeWhile (\<lambda>c. c \<noteq> CHR ''.'') t @ fraction_of t)) / 10 ^ length (fraction_of t)"

definition signed_part :: "string \<Rightarrow> int \<times> string" where
  "signed_part t = (if t \<noteq> [] \<and> hd t = CHR ''-'' then (-1, tl t)
     else if t \<noteq> [] \<and> hd t = CHR ''+'' then (1, tl t) else (1, t))"

definition text_value :: "string \<Rightarrow> rat" where
  "text_value t =
     (let (sign, t) = signed_part t;
          exponent = drop 1 (dropWhile (\<lambda>c. c \<noteq> CHR ''e'' \<and> c \<noteq> CHR ''E'') t);
          (exponent_sign, exponent) = signed_part exponent
      in of_int sign * plain_value (takeWhile (\<lambda>c. c \<noteq> CHR ''e'' \<and> c \<noteq> CHR ''E'') t) *
           10 powi (exponent_sign * int (digits_value exponent)))"

definition groups_value :: "nat list \<Rightarrow> nat" where
  "groups_value gs = foldl (\<lambda>v g. v * 100 + g) 0 gs"

lemma digits_foldl: "foldl (\<lambda>v c. v * 10 + digit_value c) n ds = n * 10 ^ length ds + digits_value ds"
proof (induction ds arbitrary: n)
  case (Cons d ds)
  from Cons[of "n * 10 + digit_value d"] Cons[of "digit_value d"] show ?case
    by (simp add: digits_value_def algebra_simps)
qed (simp add: digits_value_def)

lemma digits_value_simps [simp]:
  "digits_value [] = 0"
  "digits_value (d # ds) = digit_value d * 10 ^ length ds + digits_value ds"
  "digits_value (as @ bs) = digits_value as * 10 ^ length bs + digits_value bs"
  "digits_value (replicate n (CHR ''0'')) = 0"
proof -
  show c: "digits_value (d # ds) = digit_value d * 10 ^ length ds + digits_value ds" for d ds
    using digits_foldl[of "digit_value d" ds] by (simp add: digits_value_def)
  show "digits_value (as @ bs) = digits_value as * 10 ^ length bs + digits_value bs"
    using digits_foldl[of "digits_value as" bs] by (simp add: digits_value_def)
  show "digits_value (replicate n (CHR ''0'')) = 0"
    by (induction n) (simp_all add: c digit_value_def, simp add: digits_value_def)
qed (simp add: digits_value_def)

lemma groups_foldl: "foldl (\<lambda>v g. v * 100 + g) n gs = n * 100 ^ length gs + groups_value gs"
proof (induction gs arbitrary: n)
  case (Cons g gs)
  from Cons[of "n * 100 + g"] Cons[of g] show ?case by (simp add: groups_value_def algebra_simps)
qed (simp add: groups_value_def)

lemma groups_value_simps [simp]:
  "groups_value [] = 0"
  "groups_value (g # gs) = g * 100 ^ length gs + groups_value gs"
  "groups_value (as @ bs) = groups_value as * 100 ^ length bs + groups_value bs"
proof -
  show "groups_value (g # gs) = g * 100 ^ length gs + groups_value gs" for g gs
    using groups_foldl[of g gs] by (simp add: groups_value_def)
  show "groups_value (as @ bs) = groups_value as * 100 ^ length bs + groups_value bs"
    using groups_foldl[of "groups_value as" bs] by (simp add: groups_value_def)
qed (simp add: groups_value_def)

lemma digits_value_decimal [simp]: "digits_value (decimal n) = n"
  by (simp add: digits_value_def decimal_value)

lemma digits_value_dropWhile: "digits_value (dropWhile (\<lambda>c. c = CHR ''0'') ds) = digits_value ds"
  by (induction ds) (auto simp: digit_value_def)

lemma pop_zeros_append: "\<exists>k. xs = pop_zeros z xs @ replicate k z"
proof -
  have "rev xs = takeWhile (\<lambda>x. x = z) (rev xs) @ dropWhile (\<lambda>x. x = z) (rev xs)" by simp
  moreover have "takeWhile (\<lambda>x. x = z) (rev xs) = replicate (length (takeWhile (\<lambda>x. x = z) (rev xs))) z"
    by (intro replicate_length_same[symmetric]) (auto dest: set_takeWhileD)
  ultimately have "rev xs = replicate (length (takeWhile (\<lambda>x. x = z) (rev xs))) z @ dropWhile (\<lambda>x. x = z) (rev xs)" by simp
  then have "xs = rev (replicate (length (takeWhile (\<lambda>x. x = z) (rev xs))) z @ dropWhile (\<lambda>x. x = z) (rev xs))" by (metis rev_rev_ident)
  then show ?thesis unfolding pop_zeros_def by (metis rev_append rev_replicate)
qed

lemma pop_zeros_last: "pop_zeros z xs \<noteq> [] \<Longrightarrow> last (pop_zeros z xs) \<noteq> z"
  unfolding pop_zeros_def using hd_dropWhile[of "\<lambda>x. x = z" "rev xs"] by (simp add: last_rev)

text \<open>A coefficient and a power of ten. Moving zeros between the two does not change the number.\<close>

lemma shift_power:
  "(of_nat (c * 10 ^ k) :: rat) * 10 powi e = of_nat c * 10 powi (e + int k)"
  by (simp add: power_int_add)

lemma groups_of_digits:
  assumes "width = 1 \<or> width = 2" "digits \<noteq> []"
  shows "\<exists>pad. groups_value (base_100 width digits) = digits_value digits * 10 ^ pad \<and>
    length digits + pad = width + 2 * (length (base_100 width digits) - 1) \<and> base_100 width digits \<noteq> []"
  using assms
proof (induction "length digits" arbitrary: digits width rule: less_induct)
  case less
  obtain d ds where ds: "digits = d # ds" using less.prems(2) by (cases digits) auto
  have rest: "\<exists>pad. groups_value (base_100 2 es) = digits_value es * 10 ^ pad \<and> length es + pad = 2 * length (base_100 2 es)"
    if "length es < length digits" for es
  proof (cases "es = []")
    case False
    with less.hyps[OF that _ False, of 2] obtain pad where
      "groups_value (base_100 2 es) = digits_value es * 10 ^ pad"
      "length es + pad = 2 + 2 * (length (base_100 2 es) - 1)" "base_100 2 es \<noteq> []" by auto
    then show ?thesis by (intro exI[of _ pad]) (cases "base_100 2 es", auto)
  qed auto
  have pow: "(100 :: nat) ^ n = 10 ^ (2 * n)" for n by (simp add: power_mult)
  show ?case
  proof (cases "width = 2")
    case False
    then have w: "width = 1" using less.prems(1) by simp
    from rest[of ds] obtain pad where "groups_value (base_100 2 ds) = digits_value ds * 10 ^ pad"
      "length ds + pad = 2 * length (base_100 2 ds)" by (auto simp: ds)
    with w show ?thesis
      by (intro exI[of _ pad]) (simp add: ds pow algebra_simps flip: power_add)
  next
    case w: True
    show ?thesis
    proof (cases ds)
      case Nil
      with w show ?thesis by (intro exI[of _ 1]) (simp add: ds)
    next
      case (Cons d' es)
      from rest[of es] obtain pad where "groups_value (base_100 2 es) = digits_value es * 10 ^ pad"
        "length es + pad = 2 * length (base_100 2 es)" by (auto simp: ds Cons)
      with w show ?thesis
        by (intro exI[of _ pad]) (simp add: ds Cons pow algebra_simps flip: power_add)
    qed
  qed
qed

definition number_value :: "bool \<Rightarrow> int \<Rightarrow> nat list \<Rightarrow> rat" where
  "number_value negative e gs = (if negative then -1 else 1) * of_nat (groups_value gs) * 10 powi (2 * (e - (int (length gs) - 1)))"

definition number_parts :: "int \<Rightarrow> nat list \<Rightarrow> bool" where
  "number_parts e gs \<longleftrightarrow> -65 \<le> e \<and> e \<le> 62 \<and> gs \<noteq> [] \<and> length gs \<le> 20 \<and> last gs \<noteq> 0 \<and> list_all (\<lambda>g. g < 100) gs"

lemma FloorDivideByTwo_div: "FloorDivideByTwo v = v div 2"
  unfolding FloorDivideByTwo_def quotient_def by auto

lemma base_100_bounded: "list_all isdigit ds \<Longrightarrow> list_all (\<lambda>g. g < 100) (base_100 w ds)"
proof (induction w ds rule: base_100.induct)
  case (2 w d ds)
  have d: "digit_value c < 10" if "isdigit c" for c using that by (auto simp: isdigit_def digit_value_def)
  show ?case using 2 d[of d] d[of "hd ds"] by (cases ds) (auto split: if_splits)
qed simp

lemma list_all_pop_zeros: "list_all P xs \<Longrightarrow> list_all P (pop_zeros z xs)"
  using pop_zeros_append[of xs z] by (metis list_all_append)

lemma groups_value_zeros: "groups_value (replicate k 0) = 0"
  by (induction k) simp_all

lemma encode_digits_parts:
  assumes enc: "encode_digits negative digits P = Inr wire" and digits: "list_all isdigit digits"
  shows "wire = [0x80] \<and> digits_value digits = 0 \<or>
    (\<exists>e gs. wire = number_wire negative e gs \<and> number_parts e gs \<and>
       number_value negative e gs = (if negative then -1 else 1) * of_nat (digits_value digits) * 10 powi (P - int (length digits)))"
proof -
  define stripped where "stripped = dropWhile (\<lambda>c. c = CHR ''0'') digits"
  define P' where "P' = P - int (length digits - length stripped)"
  define ds where "ds = pop_zeros (CHR ''0'') stripped"
  define e where "e = (P' - 1) div 2"
  define w where "w = nat (P' - 1 - e * 2 + 1)"
  define all where "all = base_100 w ds"
  define gs where "gs = pop_zeros 0 all"
  have same: "digits_value digits = digits_value stripped" by (simp add: stripped_def digits_value_dropWhile)
  show ?thesis
  proof (cases "stripped = []")
    case True
    with enc same show ?thesis by (simp add: encode_digits_def stripped_def[symmetric])
  next
    case False
    from enc False have e: "-65 \<le> e" "e \<le> 62" and gs: "gs \<noteq> []" "length gs \<le> 20" and wire: "wire = number_wire negative e gs"
      unfolding encode_digits_def Let_def stripped_def[symmetric] P'_def[symmetric] ds_def[symmetric] FloorDivideByTwo_div
        e_def[symmetric] w_def[symmetric] all_def[symmetric] gs_def[symmetric]
      by (auto split: if_split_asm)
    have w: "w = 1 \<or> w = 2" "P' = int w + 2 * e" unfolding w_def e_def by linarith+
    obtain k where k: "stripped = ds @ replicate k (CHR ''0'')" using pop_zeros_append unfolding ds_def by metis
    obtain j where j: "all = gs @ replicate j 0" using pop_zeros_append unfolding gs_def by metis
    have ds: "ds \<noteq> []" using gs(1) by (auto simp: gs_def all_def pop_zeros_def)
    from groups_of_digits[OF w(1) ds] obtain pad where pad: "groups_value all = digits_value ds * 10 ^ pad"
      "length ds + pad = w + 2 * (length all - 1)" "all \<noteq> []" unfolding all_def by blast
    have bounded: "list_all (\<lambda>g. g < 100) gs"
      using digits unfolding gs_def all_def ds_def stripped_def
      by (intro list_all_pop_zeros base_100_bounded) (auto simp: list_all_iff dest: set_dropWhileD)
    have last: "last gs \<noteq> 0" using pop_zeros_last gs(1) unfolding gs_def by metis
    have "length stripped \<le> length digits" by (simp add: stripped_def length_dropWhile_le)
    then have shift: "P - int (length digits) = P' - int (length ds) - int k" by (simp add: P'_def k)
    have exps: "2 * (e - (int (length gs) - 1)) - 2 * int j = P' - int (length ds) - int pad"
    proof -
      have "int (length ds) + int pad = int w + 2 * (int (length gs) + int j - 1)"
        using pad(2) j gs(1) by (cases gs) auto
      then show ?thesis using w(2) by simp
    qed
    have "groups_value gs * 100 ^ j = digits_value ds * 10 ^ pad" using pad(1) by (simp add: j groups_value_zeros)
    then have "(of_nat (groups_value gs * 10 ^ (2 * j)) :: rat) = of_nat (digits_value ds * 10 ^ pad)"
      by (simp add: power_mult)
    then have "(of_nat (groups_value gs * 10 ^ (2 * j)) :: rat) * 10 powi (P' - int (length ds) - int pad) =
        of_nat (digits_value ds * 10 ^ pad) * 10 powi (P' - int (length ds) - int pad)" by simp
    then have "(of_nat (groups_value gs) :: rat) * 10 powi (2 * (e - (int (length gs) - 1))) =
        of_nat (digits_value ds) * 10 powi (P' - int (length ds))"
      unfolding shift_power exps[symmetric] using exps by simp
    also have "\<dots> = of_nat (digits_value stripped) * 10 powi (P - int (length digits))"
      using shift_power[of "digits_value ds" k "P - int (length digits)"] unfolding shift by (auto simp: k)
    finally have "(of_nat (groups_value gs) :: rat) * 10 powi (2 * (e - (int (length gs) - 1))) =
        of_nat (digits_value digits) * 10 powi (P - int (length digits))" by (simp add: same)
    with wire e gs last bounded show ?thesis
      by (intro disjI2 exI[of _ e] exI[of _ gs]) (simp add: number_parts_def number_value_def)
  qed
qed

subsection \<open>Wire form and parts\<close>

definition group_byte :: "bool \<Rightarrow> nat \<Rightarrow> u8" where
  "group_byte negative g = byte_of (if negative then 101 - int g else int g + 1)"

lemma group_byte_value: "g < 100 \<Longrightarrow> group_value negative (group_byte negative g) = int g"
  by (simp add: group_value_def group_byte_def)

lemma read_group_bytes:
  "\<lbrakk>list_all (\<lambda>g. g < 100) gs; gs = [] \<or> last gs \<noteq> 0\<rbrakk> \<Longrightarrow> read_groups negative (map (group_byte negative) gs) = Inr gs"
proof (induction gs)
  case (Cons g gs)
  then show ?case by (cases "gs = []") (auto simp: Let_def group_byte_value)
qed simp

lemma group_byte_not_end: "\<lbrakk>0 < g; g < 100\<rbrakk> \<Longrightarrow> group_byte True g \<noteq> 102"
proof
  assume "0 < g" "g < 100" "group_byte True g = 102"
  moreover from \<open>0 < g\<close> \<open>g < 100\<close> have "uint (group_byte True g) = 101 - int g"
    unfolding group_byte_def by (subst uint_byte_of) auto
  ultimately show False by simp
qed

text \<open>What the two decoders find at the front of a wire form: the sign, the exponent and the bytes of the digits.\<close>

definition wire_parts :: "bytes \<Rightarrow> bool \<Rightarrow> int \<Rightarrow> bytes \<Rightarrow> bool" where
  "wire_parts wire negative e bs \<longleftrightarrow> length wire \<le> 21 \<and> bs \<noteq> [] \<and> -65 \<le> e \<and> e \<le> 62 \<and>
     negative = number_negative wire \<and> e = number_exponent wire \<and> bs = drop 1 (take (number_end wire) wire)"

lemma number_wire_parts:
  assumes "number_parts e gs"
  shows "wire_parts (number_wire negative e gs) negative e (map (group_byte negative) gs)"
proof -
  let ?first = "byte_of (if negative then 62 - e else e + 193)"
  let ?wire = "number_wire negative e gs"
  from assms have parts: "-65 \<le> e" "e \<le> 62" "gs \<noteq> []" "length gs \<le> 20" "last gs \<noteq> 0" "list_all (\<lambda>g. g < 100) gs"
    by (auto simp: number_parts_def)
  have map: "map (\<lambda>g. byte_of (if negative then 101 - int g else int g + 1)) gs = map (group_byte negative) gs"
    by (simp add: group_byte_def)
  have wire: "?wire = ?first # map (group_byte negative) gs @ (if negative \<and> length gs < 20 then [102] else [])"
    unfolding number_wire_def Let_def map by simp
  have first: "uint ?first = (if negative then 62 - e else e + 193)" using parts by auto
  then have neg: "number_negative ?wire = negative" using parts by (auto simp: number_negative_def wire word_less_def)
  have "?wire ! 0 = ?first" by (simp add: wire)
  then have exponent: "number_exponent ?wire = e" unfolding number_exponent_def neg using first by (cases negative) simp_all
  have "last gs < 100" using parts(3,6) by (auto simp: list_all_iff)
  then have "last (map (group_byte True) gs) \<noteq> 102" using parts(3,5) group_byte_not_end by (simp add: last_map)
  moreover have "length ?wire = length gs + (if negative \<and> length gs < 20 then 2 else 1)" by (simp add: wire)
  moreover have "last ?wire = (if negative \<and> length gs < 20 then 102 else last (map (group_byte negative) gs))"
    using parts(3) by (simp add: wire)
  ultimately have "number_end ?wire = length gs + 1"
    unfolding number_end_def neg by (cases negative) auto
  then have "drop 1 (take (number_end ?wire) ?wire) = map (group_byte negative) gs" by (simp add: wire)
  with parts neg exponent show ?thesis by (simp add: wire_parts_def wire)
qed

lemma wire_bytes_length: "number_end wire \<noteq> 0 \<Longrightarrow> length (drop 1 (take (number_end wire) wire)) = number_end wire - 1"
  by (auto simp: number_end_def)

lemma DecodeOracleNumber_iff:
  "DecodeOracleNumber wire = Inr t \<longleftrightarrow> wire = [0x80] \<and> t = ''0'' \<or>
     (\<exists>negative e bs gs. wire_parts wire negative e bs \<and> read_groups negative bs = Inr gs \<and> t = number_text negative e gs)"
proof -
  have e: "-65 \<le> number_exponent wire \<and> number_exponent wire \<le> 62" if "wire \<noteq> []"
    using unsigned_less[of "wire ! 0", where 'a = int] unsigned_greater_eq[of "wire ! 0", where 'a = int]
    by (auto simp: number_exponent_def number_negative_def word_less_def not_less)
  have one: "length wire = 1 \<Longrightarrow> wire = [wire ! 0]" by (cases wire) auto
  have "drop 1 (take (number_end wire) wire) \<noteq> [] \<longleftrightarrow> length wire \<noteq> 1 \<and> number_end wire \<noteq> 1" if "wire \<noteq> []"
    using that by (cases wire; cases "tl wire") (auto simp: number_end_def)
  then show ?thesis
    using e one unfolding DecodeOracleNumber_def wire_parts_def
    by (auto simp: andthen_eq_Inr)
qed

subsection \<open>Text and parts\<close>

lemma digit_not_point: "isdigit c \<Longrightarrow> c \<noteq> CHR ''.'' \<and> c \<noteq> CHR ''-'' \<and> c \<noteq> CHR ''+'' \<and> c \<noteq> CHR ''e'' \<and> c \<noteq> CHR ''E''"
  by (auto simp: isdigit_def)

lemma zero_isdigit [simp]: "isdigit (CHR ''0'')"
  by (simp add: isdigit_def)

text \<open>The value of digits around a point, and of digits without one.\<close>

lemma digits_no_point: "list_all isdigit ds \<Longrightarrow> CHR ''.'' \<notin> set ds"
  by (auto simp: list_all_iff isdigit_def)

lemma plain_value_point:
  assumes "list_all isdigit a"
  shows "plain_value (a @ CHR ''.'' # b) = of_nat (digits_value (a @ b)) / 10 ^ length b"
proof -
  have "\<forall>c\<in>set a. c \<noteq> CHR ''.''" using digits_no_point[OF assms] by auto
  then have "takeWhile (\<lambda>c. c \<noteq> CHR ''.'') (a @ CHR ''.'' # b) = a" "dropWhile (\<lambda>c. c \<noteq> CHR ''.'') (a @ CHR ''.'' # b) = CHR ''.'' # b"
    by (simp_all add: takeWhile_append2 dropWhile_append2)
  then show ?thesis by (simp only: plain_value_def fraction_of_def) simp
qed

lemma plain_value_digits:
  assumes "list_all isdigit ds"
  shows "plain_value ds = of_nat (digits_value ds)"
proof -
  have "takeWhile (\<lambda>c. c \<noteq> CHR ''.'') ds = ds" "dropWhile (\<lambda>c. c \<noteq> CHR ''.'') ds = []"
    using digits_no_point[OF assms] by (auto simp: takeWhile_eq_all_conv)
  then show ?thesis by (simp only: plain_value_def fraction_of_def) simp
qed

lemma place_point_value:
  assumes ds: "list_all isdigit ds"
  shows "plain_value (place_point ds p) = of_nat (digits_value ds) * 10 powi (p - int (length ds))"
proof -
  consider "p \<le> 0" | "0 < p" "int (length ds) \<le> p" | "0 < p" "p < int (length ds)" by linarith
  then show ?thesis
  proof cases
    case 1
    then have "place_point ds p = ''0'' @ CHR ''.'' # (replicate (nat (- p)) (CHR ''0'') @ ds)"
      by (simp add: place_point_def)
    moreover have "plain_value (''0'' @ CHR ''.'' # (replicate (nat (- p)) (CHR ''0'') @ ds)) =
        of_nat (digits_value ds) / 10 ^ (nat (- p) + length ds)"
      by (subst plain_value_point) (simp_all add: isdigit_def digit_value_def)
    moreover have "p - int (length ds) = - int (nat (- p) + length ds)" using 1 by simp
    ultimately show ?thesis by (simp only: power_int_minus power_int_of_nat) (simp add: field_simps)
  next
    case 2
    then have "place_point ds p = ds @ replicate (nat (p - int (length ds))) (CHR ''0'')" by (simp add: place_point_def)
    moreover have "plain_value (ds @ replicate (nat (p - int (length ds))) (CHR ''0'')) =
        of_nat (digits_value ds) * 10 ^ nat (p - int (length ds))"
      using ds by (subst plain_value_digits) (auto simp: list_all_iff)
    ultimately show ?thesis using 2 by (simp add: power_int_def)
  next
    case 3
    define a where "a = take (nat p) ds"
    define b where "b = drop (nat p) ds"
    have "place_point ds p = a @ CHR ''.'' # b" using 3 by (simp add: place_point_def a_def b_def)
    moreover have "list_all isdigit a" using ds by (auto simp: a_def list_all_iff dest: in_set_takeD)
    moreover have "a @ b = ds" "p - int (length ds) = - int (length b)" using 3 by (simp_all add: a_def b_def)
    ultimately show ?thesis using plain_value_point[of a b]
      by (simp only: power_int_minus power_int_of_nat) (simp add: field_simps)
  qed
qed

text \<open>Zeros at the end of a fraction, and a point with nothing behind it, do not count.\<close>

lemma dropWhile_stop: "\<not> P y \<Longrightarrow> dropWhile P (xs @ y # ys) = dropWhile P xs @ y # ys"
  by (induction xs) auto

lemma trim_fraction_form:
  assumes "list_all isdigit a" "CHR ''.'' \<notin> set b"
  shows trim_fraction_value: "plain_value (trim_fraction (a @ CHR ''.'' # b)) = plain_value (a @ CHR ''.'' # b)"
    and "\<exists>c k. (trim_fraction (a @ CHR ''.'' # b) = a \<or> trim_fraction (a @ CHR ''.'' # b) = a @ CHR ''.'' # c) \<and> b = c @ k"
proof -
  define c where "c = pop_zeros (CHR ''0'') b"
  obtain k where b: "b = c @ replicate k (CHR ''0'')" using pop_zeros_append unfolding c_def by metis
  have "dropWhile (\<lambda>x. x = CHR ''0'') (rev b @ [CHR ''.''] @ rev a) = dropWhile (\<lambda>x. x = CHR ''0'') (rev b) @ [CHR ''.''] @ rev a"
    using dropWhile_stop[of "\<lambda>x. x = CHR ''0''" "CHR ''.''" "rev b" "rev a"] by simp
  then have pop: "pop_zeros (CHR ''0'') (a @ CHR ''.'' # b) = a @ CHR ''.'' # c"
    by (simp add: pop_zeros_def c_def)
  have "CHR ''.'' \<in> set (a @ CHR ''.'' # b)" by simp
  moreover have last_c: "c \<noteq> [] \<Longrightarrow> last c \<noteq> CHR ''.''" using assms(2) by (metis Un_iff b last_in_set set_append)
  ultimately have trim: "trim_fraction (a @ CHR ''.'' # b) = (if c = [] then a else a @ CHR ''.'' # c)"
    unfolding trim_fraction_def pop Let_def using last_c by (cases c) (auto simp: butlast_append)
  show "\<exists>c k. (trim_fraction (a @ CHR ''.'' # b) = a \<or> trim_fraction (a @ CHR ''.'' # b) = a @ CHR ''.'' # c) \<and> b = c @ k"
    using trim b by auto
  have "plain_value (a @ CHR ''.'' # b) = plain_value (a @ CHR ''.'' # c)"
    unfolding plain_value_point[OF assms(1)] by (simp add: b power_add field_simps)
  moreover have "plain_value (a @ CHR ''.'' # []) = plain_value a"
    using plain_value_point[OF assms(1), of "[]"] plain_value_digits[OF assms(1)] by simp
  ultimately show "plain_value (trim_fraction (a @ CHR ''.'' # b)) = plain_value (a @ CHR ''.'' # b)"
    by (simp add: trim)
qed

text \<open>The parts of a number and its text have the same value.\<close>

definition pair_digits :: "nat \<Rightarrow> string" where
  "pair_digits g = [digit_char (g div 10), digit_char (g mod 10)]"

lemma pair_digits:
  assumes "g < 100"
  shows "digits_value (pair_digits g) = g" "length (pair_digits g) = 2" "list_all isdigit (pair_digits g)"
proof -
  have "g div 10 < 10" "g mod 10 < 10" "10 * (g div 10) + g mod 10 = g" using assms by auto
  then show "digits_value (pair_digits g) = g" "length (pair_digits g) = 2" "list_all isdigit (pair_digits g)"
    by (simp_all add: pair_digits_def mult.commute)
qed

lemma pairs_digits:
  "list_all (\<lambda>g. g < 100) xs \<Longrightarrow> digits_value (concat (map pair_digits xs)) = groups_value xs \<and>
     length (concat (map pair_digits xs)) = 2 * length xs \<and> list_all isdigit (concat (map pair_digits xs))"
proof (induction xs)
  case (Cons x xs)
  have "(10 :: nat) ^ (2 * length xs) = 100 ^ length xs" by (simp add: power_mult)
  with Cons pair_digits[of x] show ?case by simp
qed simp

lemma group_digits_value:
  assumes "list_all (\<lambda>g. g < 100) gs" "gs \<noteq> []"
  shows "digits_value (group_digits gs) = groups_value gs" "list_all isdigit (group_digits gs)"
    "length (group_digits gs) = length (decimal (hd gs)) + 2 * (length gs - 1)"
proof -
  have eq: "group_digits gs = decimal (hd gs) @ concat (map pair_digits (tl gs))"
    by (simp add: group_digits_def pair_digits_def[abs_def])
  obtain g xs where gs: "gs = g # xs" using assms(2) by (cases gs) auto
  have "(10 :: nat) ^ (2 * length xs) = 100 ^ length xs" by (simp add: power_mult)
  with pairs_digits[of xs] assms show "digits_value (group_digits gs) = groups_value gs" "list_all isdigit (group_digits gs)"
    "length (group_digits gs) = length (decimal (hd gs)) + 2 * (length gs - 1)"
    using decimal_digits[of g] unfolding eq by (simp_all add: gs)
qed

lemma place_point_form:
  assumes "list_all isdigit ds" "ds \<noteq> []"
  shows "list_all isdigit (place_point ds p) \<or>
    (\<exists>a b. place_point ds p = a @ CHR ''.'' # b \<and> a \<noteq> [] \<and> list_all isdigit a \<and> list_all isdigit b)"
proof -
  consider "p \<le> 0" | "0 < p" "int (length ds) \<le> p" | "0 < p" "p < int (length ds)" by linarith
  then show ?thesis
  proof cases
    case 1
    then have "place_point ds p = ''0'' @ CHR ''.'' # (replicate (nat (- p)) (CHR ''0'') @ ds)"
      by (simp add: place_point_def)
    then show ?thesis using assms(1)
      by (intro disjI2 exI[of _ "''0''"] exI[of _ "replicate (nat (- p)) (CHR ''0'') @ ds"]) (auto simp: list_all_iff)
  next
    case 2
    then show ?thesis using assms(1) by (auto simp: place_point_def list_all_iff)
  next
    case 3
    then show ?thesis using assms
      by (intro disjI2 exI[of _ "take (nat p) ds"] exI[of _ "drop (nat p) ds"])
        (auto simp: place_point_def list_all_iff dest: in_set_takeD in_set_dropD)
  qed
qed

definition plain_text :: "string \<Rightarrow> bool" where
  "plain_text t \<longleftrightarrow> t \<noteq> [] \<and> list_all (\<lambda>c. isdigit c \<or> c = CHR ''.'') t \<and> isdigit (hd t)"

lemma trimmed_plain:
  assumes "list_all isdigit ds" "ds \<noteq> []"
  shows "plain_text (trim_fraction (place_point ds p))"
    "plain_value (trim_fraction (place_point ds p)) = of_nat (digits_value ds) * 10 powi (p - int (length ds))"
proof -
  have "plain_text (trim_fraction (place_point ds p)) \<and> plain_value (trim_fraction (place_point ds p)) = plain_value (place_point ds p)"
    using place_point_form[OF assms, of p]
  proof (elim disjE exE conjE)
    assume d: "list_all isdigit (place_point ds p)"
    then have "trim_fraction (place_point ds p) = place_point ds p" by (simp add: trim_fraction_def digits_no_point)
    moreover have "place_point ds p \<noteq> []" using assms(2) by (simp add: place_point_def)
    ultimately show ?thesis using d by (cases "place_point ds p") (auto simp: plain_text_def list_all_iff)
  next
    fix a b assume p: "place_point ds p = a @ CHR ''.'' # b" "a \<noteq> []" "list_all isdigit a" "list_all isdigit b"
    have "plain_text (trim_fraction (a @ CHR ''.'' # b))"
    proof -
      obtain c k where "trim_fraction (a @ CHR ''.'' # b) = a \<or> trim_fraction (a @ CHR ''.'' # b) = a @ CHR ''.'' # c" "b = c @ k"
        using trim_fraction_form(2)[OF p(3) digits_no_point[OF p(4)]] by metis
      with p(2-4) show ?thesis by (cases a) (auto simp: plain_text_def list_all_iff)
    qed
    with trim_fraction_value[OF p(3) digits_no_point[OF p(4)]] p(1) show ?thesis by simp
  qed
  with place_point_value[OF assms(1)] show "plain_text (trim_fraction (place_point ds p))"
    "plain_value (trim_fraction (place_point ds p)) = of_nat (digits_value ds) * 10 powi (p - int (length ds))"
    by simp_all
qed

lemma text_value_plain:
  assumes "plain_text t"
  shows "text_value t = plain_value t" "text_value (CHR ''-'' # t) = - plain_value t"
proof -
  have "\<forall>c\<in>set t. c \<noteq> CHR ''e'' \<and> c \<noteq> CHR ''E''" using assms by (auto simp: plain_text_def list_all_iff isdigit_def)
  then have e: "takeWhile (\<lambda>c. c \<noteq> CHR ''e'' \<and> c \<noteq> CHR ''E'') t = t" "dropWhile (\<lambda>c. c \<noteq> CHR ''e'' \<and> c \<noteq> CHR ''E'') t = []"
    by (auto simp: takeWhile_eq_all_conv)
  have "hd t \<noteq> CHR ''-'' \<and> hd t \<noteq> CHR ''+''" using assms by (auto simp: plain_text_def isdigit_def)
  then have "signed_part t = (1, t)" by (simp add: signed_part_def)
  moreover have "signed_part (CHR ''-'' # t) = (-1, t)" "signed_part [] = (1, [])" by (simp_all add: signed_part_def)
  ultimately show "text_value t = plain_value t" "text_value (CHR ''-'' # t) = - plain_value t"
    unfolding text_value_def Let_def by (simp_all only: prod.case e drop_Nil) simp_all
qed

lemma number_text_value:
  assumes "list_all (\<lambda>g. g < 100) gs" "gs \<noteq> []"
  shows "text_value (number_text negative e gs) = number_value negative e gs"
proof -
  note gd = group_digits_value[OF assms]
  have ne: "group_digits gs \<noteq> []" by (simp add: group_digits_def)
  define p where "p = int (length (decimal (hd gs))) + e * 2"
  have "p - int (length (group_digits gs)) = 2 * (e - (int (length gs) - 1))"
    using gd(3) assms(2) by (cases gs) (simp_all add: p_def)
  with trimmed_plain[OF gd(2) ne, of p] text_value_plain[OF trimmed_plain(1)[OF gd(2) ne, of p]] gd(1)
  show ?thesis by (simp add: number_text_def Let_def p_def[symmetric] number_value_def)
qed

subsection \<open>What the encoder reads\<close>

lemma mantissa_reads:
  assumes "mantissa t [] None = Inr (digits, point, rest)"
  defines "m \<equiv> takeWhile (\<lambda>c. c \<noteq> CHR ''e'' \<and> c \<noteq> CHR ''E'') t"
    and "P \<equiv> (case point of None \<Rightarrow> int (length digits) | Some p \<Rightarrow> int p)"
  shows "rest = dropWhile (\<lambda>c. c \<noteq> CHR ''e'' \<and> c \<noteq> CHR ''E'') t" "list_all isdigit digits"
    "plain_value m = of_nat (digits_value digits) * 10 powi (P - int (length digits))"
proof -
  have 1: "rest = dropWhile (\<lambda>c. c \<noteq> CHR ''e'' \<and> c \<noteq> CHR ''E'') t \<and> list_all isdigit digits \<and>
      (if point0 = None then
         (point = None \<longrightarrow> digits = digits0 @ takeWhile (\<lambda>c. c \<noteq> CHR ''e'' \<and> c \<noteq> CHR ''E'') t) \<and>
         (\<forall>p. point = Some p \<longrightarrow> (\<exists>a b. takeWhile (\<lambda>c. c \<noteq> CHR ''e'' \<and> c \<noteq> CHR ''E'') t = a @ CHR ''.'' # b \<and>
            list_all isdigit a \<and> digits = digits0 @ a @ b \<and> p = length (digits0 @ a)))
       else point = point0 \<and> digits = digits0 @ takeWhile (\<lambda>c. c \<noteq> CHR ''e'' \<and> c \<noteq> CHR ''E'') t)"
    if "mantissa t digits0 point0 = Inr (digits, point, rest)" "list_all isdigit digits0" for t digits0 point0
    using that
  proof (induction t digits0 point0 rule: mantissa.induct)
    case (2 c cs digits0 point0)
    consider "c = CHR ''e'' \<or> c = CHR ''E''" | "c = CHR ''.''" | "c \<noteq> CHR ''e''" "c \<noteq> CHR ''E''" "c \<noteq> CHR ''.''" "isdigit c"
      using "2.prems"(1) by (auto split: if_split_asm)
    then show ?case
    proof cases
      case 2
      with "2.prems" have p0: "point0 = None" and m: "mantissa cs digits0 (Some (length digits0)) = Inr (digits, point, rest)"
        by (auto split: if_split_asm)
      from 2 "2.IH"(1)[OF _ _ _ m "2.prems"(2)] p0 show ?thesis
        by (auto intro!: exI[of _ "[]"])
    next
      case 3
      with "2.prems" have m: "mantissa cs (digits0 @ [c]) point0 = Inr (digits, point, rest)" by auto
      have all: "list_all isdigit (digits0 @ [c])" using "2.prems"(2) 3 by simp
      note IH = "2.IH"(2)[OF _ _ _ m all]
      show ?thesis
      proof (cases point0)
        case None
        have "\<exists>a' b. c # takeWhile (\<lambda>c. c \<noteq> CHR ''e'' \<and> c \<noteq> CHR ''E'') cs = a' @ CHR ''.'' # b \<and>
          list_all isdigit a' \<and> digits = digits0 @ a' @ b \<and> p = length (digits0 @ a')" if "point = Some p" for p
        proof -
          from IH None 3 that obtain a b where "takeWhile (\<lambda>c. c \<noteq> CHR ''e'' \<and> c \<noteq> CHR ''E'') cs = a @ CHR ''.'' # b"
            "list_all isdigit a" "digits = (digits0 @ [c]) @ a @ b" "p = length ((digits0 @ [c]) @ a)"
            by (simp only: simp_thms if_True) blast
          with 3 show ?thesis by (intro exI[of _ "c # a"] exI[of _ b]) simp
        qed
        with IH None 3 show ?thesis by simp
      qed (use IH 3 in auto)
    qed (use "2.prems" in auto)
  qed auto
  note facts = 1[OF assms(1), simplified, folded m_def]
  then show "rest = dropWhile (\<lambda>c. c \<noteq> CHR ''e'' \<and> c \<noteq> CHR ''E'') t" and d: "list_all isdigit digits" by simp_all
  show "plain_value m = of_nat (digits_value digits) * 10 powi (P - int (length digits))"
  proof (cases point)
    case None
    with facts d show ?thesis by (simp add: P_def plain_value_digits)
  next
    case (Some p)
    with facts obtain a b where m: "m = a @ CHR ''.'' # b" "list_all isdigit a" "digits = a @ b" "p = length a" by blast
    then have "P - int (length digits) = - int (length b)" by (simp add: P_def Some)
    with plain_value_point[OF m(2), of b] m show ?thesis
      by (simp only: power_int_minus power_int_of_nat) (simp add: field_simps)
  qed
qed

lemma exponent_digits_reads:
  "exponent_digits ds v = Inr (x, []) \<Longrightarrow> x = v * 10 ^ length ds + int (digits_value ds)"
  by (induction ds v rule: exponent_digits.induct) (auto simp: algebra_simps split: if_split_asm)

lemma ParseExponent_reads:
  assumes "ParseExponent t = Inr x"
  shows "x = fst (signed_part (drop 1 t)) * int (digits_value (snd (signed_part (drop 1 t))))"
  using assms by (cases t)
    (auto simp: ParseExponent_def Let_def signed_part_def andthen_eq_Inr dest: exponent_digits_reads split: if_split_asm)

lemma EncodeOracleNumber_parts:
  assumes "EncodeOracleNumber t = Inr wire"
  obtains digits point rest x where "t \<noteq> []"
    "mantissa (if hd t = CHR ''+'' \<or> hd t = CHR ''-'' then tl t else t) [] None = Inr (digits, point, rest)"
    "ParseExponent rest = Inr x"
    "encode_digits (hd t = CHR ''-'') digits ((case point of None \<Rightarrow> int (length digits) | Some p \<Rightarrow> int p) + x) = Inr wire"
proof -
  define body where "body = (if hd t = CHR ''+'' \<or> hd t = CHR ''-'' then tl t else t)"
  have "EncodeOracleNumber t = (if t = [] then throw MALFORMED
      else if length t > 256 then throw LIMIT_EXCEEDED
      else andthen (mantissa body [] None) (\<lambda>(digits, point, rest).
          if digits = [] then throw MALFORMED
          else andthen (ParseExponent rest) (\<lambda>exponent.
            encode_digits (hd t = CHR ''-'') digits ((case point of None \<Rightarrow> int (length digits) | Some p \<Rightarrow> int p) + exponent))))"
    by (simp only: EncodeOracleNumber_def Let_def body_def)
  with assms have "t \<noteq> []" and "andthen (mantissa body [] None) (\<lambda>(digits, point, rest).
          if digits = [] then throw MALFORMED
          else andthen (ParseExponent rest) (\<lambda>exponent.
            encode_digits (hd t = CHR ''-'') digits ((case point of None \<Rightarrow> int (length digits) | Some p \<Rightarrow> int p) + exponent))) = Inr wire"
    by (auto simp del: if_cancel split: if_split_asm)
  then show ?thesis
    using that[folded body_def] by (auto simp only: andthen_eq_Inr prod.case split: if_split_asm) (metis sum.distinct(1))+
qed

text \<open>
  C29. A number survives its wire form. Whatever decimal text the encoder accepts, signed or not, with a
  point and an exponent anywhere, its wire form is decoded to a text of the same value.
\<close>

theorem number_round_trip:
  assumes "EncodeOracleNumber t = Inr wire"
  shows "\<exists>t'. DecodeOracleNumber wire = Inr t' \<and> text_value t' = text_value t"
proof -
  define negative where "negative = (hd t = CHR ''-'')"
  define body where "body = (if hd t = CHR ''+'' \<or> hd t = CHR ''-'' then tl t else t)"
  obtain digits point rest x where t: "t \<noteq> []" and m: "mantissa body [] None = Inr (digits, point, rest)"
    and x: "ParseExponent rest = Inr x"
    and enc: "encode_digits negative digits ((case point of None \<Rightarrow> int (length digits) | Some p \<Rightarrow> int p) + x) = Inr wire"
    using EncodeOracleNumber_parts[OF assms] unfolding body_def negative_def by metis
  define P where "P = (case point of None \<Rightarrow> int (length digits) | Some p \<Rightarrow> int p)"
  have signed: "signed_part t = (if negative then -1 else 1, body)"
    using t by (auto simp: signed_part_def negative_def body_def)
  note reads = mantissa_reads[OF m, folded P_def]
  have "text_value t = (if negative then -1 else 1) * (of_nat (digits_value digits) * 10 powi (P - int (length digits))) * 10 powi x"
    unfolding text_value_def signed Let_def prod.case reads(3)[symmetric]
    using ParseExponent_reads[OF x] reads(1) by (auto simp: case_prod_unfold)
  also have "\<dots> = (if negative then -1 else 1) * of_nat (digits_value digits) * 10 powi (P + x - int (length digits))"
    using power_int_add[of "10 :: rat" "P - int (length digits)" x] by (simp add: algebra_simps)
  finally have value_t: "text_value t = (if negative then -1 else 1) * of_nat (digits_value digits) * 10 powi (P + x - int (length digits))" .
  from encode_digits_parts[OF enc[folded P_def] reads(2)] show ?thesis
  proof (elim disjE conjE exE)
    assume "wire = [0x80]" "digits_value digits = 0"
    moreover have "plain_text ''0''" by (simp add: plain_text_def isdigit_def)
    then have "text_value ''0'' = 0" using text_value_plain(1)[of "''0''"] plain_value_digits[of "''0''"] by (simp add: digit_value_def)
    ultimately show ?thesis using value_t by (auto simp: DecodeOracleNumber_iff)
  next
    fix e gs assume w: "wire = number_wire negative e gs" and parts: "number_parts e gs"
      and v: "number_value negative e gs = (if negative then -1 else 1) * of_nat (digits_value digits) * 10 powi (P + x - int (length digits))"
    then have gs: "list_all (\<lambda>g. g < 100) gs" "gs \<noteq> []" "last gs \<noteq> 0" by (auto simp: number_parts_def)
    have "DecodeOracleNumber wire = Inr (number_text negative e gs)"
      unfolding DecodeOracleNumber_iff w using number_wire_parts[OF parts, of negative] read_group_bytes[OF gs(1)] gs(3) by blast
    with number_text_value[OF gs(1,2), of negative e] v value_t show ?thesis by simp
  qed
qed

lemma number_round_trip_witness:
  "\<exists>t'. DecodeOracleNumber [62, 100, 76, 102] = Inr t' \<and> text_value t' = text_value ''-12.5e-1''"
proof -
  have "EncodeOracleNumber ''-12.5e-1'' = Inr [62, 100, 76, 102]"
    by (simp add: EncodeOracleNumber_def ParseExponent_def encode_digits_def FloorDivideByTwo_def quotient_def pop_zeros_def
      number_wire_def Let_def andthen_def isdigit_def digit_value_def byte_of_def)
  from number_round_trip[OF this] show ?thesis .
qed

text \<open>The integer reader keeps the magnitude of the groups, and gives up exactly above the limit.\<close>

lemma read_groups_bounded: "read_groups negative bs = Inr gs \<Longrightarrow> list_all (\<lambda>g. g < 100) gs \<and> length gs = length bs \<and> (bs = [] \<or> last gs \<noteq> 0)"
proof (induction bs arbitrary: gs)
  case (Cons b bs)
  then obtain g where g: "group_value negative b = int g" "g < 100" "bs = [] \<Longrightarrow> g \<noteq> 0"
    by (cases "0 \<le> group_value negative b") (auto simp: Let_def nonneg_int_cases split: if_split_asm elim!: nonneg_int_cases)
  with Cons.prems obtain gs' where gs': "read_groups negative bs = Inr gs'" "gs = g # gs'"
    by (auto simp: Let_def andthen_eq_Inr split: if_split_asm)
  with Cons.IH[OF gs'(1)] g show ?case by auto
qed simp

lemma limit_step: "v < 100 \<Longrightarrow> (m > (integer_limit - v) div 100) = (integer_limit < m * 100 + v)"
  by (simp add: integer_limit_def div_less_iff_less_mult) linarith

lemma magnitude_groups:
  "magnitude_of negative bs m = Some M \<longleftrightarrow>
     (\<exists>gs. read_groups negative bs = Inr gs \<and> M = m * 100 ^ length gs + groups_value gs \<and> (bs = [] \<or> M \<le> integer_limit))"
proof (induction bs arbitrary: m)
  case (Cons b bs)
  define v where "v = group_value negative b"
  show ?case
  proof (cases "v < 0 \<or> v > 99 \<or> (bs = [] \<and> v = 0)")
    case True
    then show ?thesis by (simp add: Let_def v_def[symmetric])
  next
    case False
    then obtain g where g: "v = int g" "g < 100" by (auto elim!: nonneg_int_cases simp: not_less)
    have unfold: "magnitude_of negative (b # bs) m = (if integer_limit < m * 100 + g then None else magnitude_of negative bs (m * 100 + g))"
      using False by (auto simp: Let_def v_def[symmetric] g(1) limit_step[OF g(2)])
    have "(\<exists>gs. read_groups negative (b # bs) = Inr gs \<and> Q gs) \<longleftrightarrow> (\<exists>gs'. read_groups negative bs = Inr gs' \<and> Q (g # gs'))" for Q
      using False by (auto simp: Let_def v_def[symmetric] g(1) andthen_eq_Inr)
    moreover have "m * 100 ^ length (g # gs') + groups_value (g # gs') = (m * 100 + g) * 100 ^ length gs' + groups_value gs'" for gs'
      by (simp add: algebra_simps)
    moreover have "m * 100 + g \<le> (m * 100 + g) * 100 ^ n + k" for n k by (simp add: trans_le_add1)
    then have "integer_limit < (m * 100 + g) * 100 ^ n + k" if "integer_limit < m * 100 + g" for n k
      using that le_trans not_le by blast
    moreover have "groups_value [g] = g" by simp
    ultimately show ?thesis
      unfolding unfold by (cases "integer_limit < m * 100 + g"; cases "bs = []")
        (auto simp del: read_groups.simps(2) magnitude_of.simps(2) groups_value_simps(2) power_Suc simp: Cons.IH not_le not_less)
  qed
qed auto

lemma scale_up_iff: "scale_up n m = Some M \<longleftrightarrow> M = m * 100 ^ n \<and> (n = 0 \<or> M \<le> integer_limit)"
proof (induction n arbitrary: m)
  case (Suc n)
  have "m > integer_limit div 100 \<longleftrightarrow> integer_limit < m * 100" using limit_step[of 0 m] by simp
  moreover have "m * 100 \<le> m * 100 * 100 ^ n" by simp
  then have "integer_limit < m * 100 * 100 ^ n" if "integer_limit < m * 100" using that less_le_trans by blast
  moreover have "m * 100 ^ Suc n = m * 100 * 100 ^ n" by simp
  ultimately show ?case
    by (cases "integer_limit < m * 100"; cases "n = 0") (auto simp del: power_Suc simp: Suc.IH not_le not_less)
qed auto

lemma TryDecodeOracleInteger_iff:
  "TryDecodeOracleInteger wire = Some v \<longleftrightarrow> wire = [0x80] \<and> v = 0 \<or>
     (\<exists>negative e bs gs. wire_parts wire negative e bs \<and> read_groups negative bs = Inr gs \<and> int (length gs) - 1 \<le> e \<and>
        (let M = groups_value gs * 100 ^ nat (e - (int (length gs) - 1))
         in v = (if negative then - int M else int M) \<and> - int integer_limit \<le> v \<and> v < int integer_limit))"
proof -
  define e where "e = number_exponent wire"
  define bs where "bs = drop 1 (take (number_end wire) wire)"
  define neg where "neg = number_negative wire"
  have range: "-65 \<le> e \<and> e \<le> 62" if "wire \<noteq> []"
    using unsigned_less[of "wire ! 0", where 'a = int] unsigned_greater_eq[of "wire ! 0", where 'a = int]
    by (auto simp: e_def number_exponent_def number_negative_def word_less_def not_less)
  have one: "length wire = 1 \<Longrightarrow> wire = [wire ! 0]" by (cases wire) auto
  have bs: "bs \<noteq> [] \<longleftrightarrow> length wire \<noteq> 1 \<and> number_end wire \<noteq> 1" if "wire \<noteq> []"
    using that unfolding bs_def by (cases wire; cases "tl wire") (auto simp: number_end_def)
  have len: "int (number_end wire) - 1 = int (length bs)" if "bs \<noteq> []"
    using that by (auto simp: bs_def number_end_def of_nat_diff)
  have wp: "wire_parts wire negative e' bs' \<longleftrightarrow> length wire \<le> 21 \<and> bs \<noteq> [] \<and> -65 \<le> e \<and> e \<le> 62 \<and> negative = neg \<and> e' = e \<and> bs' = bs"
    for negative e' bs' by (auto simp: wire_parts_def e_def bs_def neg_def)
  show ?thesis
  proof (cases "wire = [0x80] \<or> wire = [] \<or> length wire > 21 \<or> bs = [] \<or> e < int (length bs) - 1")
    case True
    have "length bs = length gs" if "read_groups neg bs = Inr gs" for gs using read_groups_bounded[OF that] by simp
    moreover have "bs = []" if "wire = []" using that by (simp add: bs_def)
    ultimately show ?thesis using True one bs range len
      by (auto simp: TryDecodeOracleInteger_def wp Let_def e_def[symmetric] bs_def[symmetric] neg_def[symmetric])
  next
    case False
    define k where "k = nat (e - (int (length bs) - 1))"
    have k: "nat (e - (int (number_end wire) - 1 - 1)) = k" using False len by (simp add: k_def)
    have "TryDecodeOracleInteger wire = (case magnitude_of neg bs 0 of None \<Rightarrow> None | Some m \<Rightarrow>
        (case scale_up k m of None \<Rightarrow> None | Some m \<Rightarrow> if neg then Some (- int m) else if m = integer_limit then None else Some (int m)))"
      unfolding TryDecodeOracleInteger_def e_def[symmetric] bs_def[symmetric] neg_def[symmetric] Let_def k
      using False one bs range len by auto
    also have "\<dots> = Some v \<longleftrightarrow> (\<exists>gs. read_groups neg bs = Inr gs \<and>
        (let M = groups_value gs * 100 ^ k in v = (if neg then - int M else int M) \<and> - int integer_limit \<le> v \<and> v < int integer_limit))"
    proof (cases "read_groups neg bs")
      case (Inl err)
      then have "magnitude_of neg bs 0 = None" using magnitude_groups[of neg bs 0] by (cases "magnitude_of neg bs 0") auto
      then show ?thesis using Inl by simp
    next
      case (Inr gs)
      have pos: "0 < groups_value gs" if "gs \<noteq> []" "last gs \<noteq> 0"
        using that groups_value_simps(3)[of "butlast gs" "[last gs]"] by (simp add: append_butlast_last_id)
      have gs: "0 < groups_value gs"
        using read_groups_bounded[OF Inr] False pos by (metis length_0_conv)
      have le: "groups_value gs \<le> groups_value gs * 100 ^ k" by simp
      have lim: "integer_limit > 0" by (simp add: integer_limit_def)
      define M where "M = groups_value gs * 100 ^ k"
      have M: "groups_value gs \<le> M" "0 < M" using le gs by (simp_all add: M_def)
      have rhs: "(\<exists>gs. read_groups neg bs = Inr gs \<and> (let M = groups_value gs * 100 ^ k in v = (if neg then - int M else int M) \<and>
            - int integer_limit \<le> v \<and> v < int integer_limit)) \<longleftrightarrow>
          v = (if neg then - int M else int M) \<and> - int integer_limit \<le> v \<and> v < int integer_limit"
        unfolding M_def Let_def Inr by blast
      show ?thesis
      proof (cases "M \<le> integer_limit")
        case True
        with M(1) have "groups_value gs \<le> integer_limit" by (rule le_trans)
        then have "magnitude_of neg bs 0 = Some (groups_value gs)" unfolding magnitude_groups by (simp add: Inr)
        moreover have "scale_up k (groups_value gs) = Some M" using True by (simp add: scale_up_iff M_def)
        ultimately show ?thesis unfolding rhs using True lim M(2) by auto
      next
        case beyond: False
        have "magnitude_of neg bs 0 = None \<or> (\<exists>m. magnitude_of neg bs 0 = Some m \<and> scale_up k m = None)"
        proof (cases "magnitude_of neg bs 0")
          case (Some m)
          then have m: "m = groups_value gs" "m \<le> integer_limit" using False unfolding magnitude_groups by (auto simp: Inr)
          then have "k \<noteq> 0" using beyond by (intro notI) (simp add: M_def)
          with m beyond show ?thesis by (cases "scale_up k m") (auto simp: Some scale_up_iff M_def)
        qed simp
        then have lhs: "(case magnitude_of neg bs 0 of None \<Rightarrow> None | Some m \<Rightarrow> (case scale_up k m of None \<Rightarrow> None
            | Some m \<Rightarrow> if neg then Some (- int m) else if m = integer_limit then None else Some (int m))) = None" by auto
        moreover have "\<not> (- int integer_limit \<le> (if neg then - int M else int M) \<and> (if neg then - int M else int M) < int integer_limit)"
          using beyond by auto
        ultimately show ?thesis unfolding lhs rhs by blast
      qed
    qed
    finally have whole: "TryDecodeOracleInteger wire = Some v \<longleftrightarrow> (\<exists>gs. read_groups neg bs = Inr gs \<and>
        (let M = groups_value gs * 100 ^ k in v = (if neg then - int M else int M) \<and> - int integer_limit \<le> v \<and> v < int integer_limit))" .
    have wpb: "wire_parts wire negative e' bs' \<longleftrightarrow> negative = neg \<and> e' = e \<and> bs' = bs" for negative e' bs'
      using False range by (auto simp: wp)
    have le: "int (length bs) - 1 \<le> e" using False by simp
    have "int (length gs) - 1 \<le> e \<and> (let M = groups_value gs * 100 ^ nat (e - (int (length gs) - 1)) in Q M) \<longleftrightarrow> (let M = groups_value gs * 100 ^ k in Q M)"
      if "read_groups neg bs = Inr gs" for gs Q
    proof -
      have "length gs = length bs" using read_groups_bounded[OF that] by simp
      with le show ?thesis by (simp only: k_def[symmetric] simp_thms)
    qed
    then have "(\<exists>gs. read_groups neg bs = Inr gs \<and> int (length gs) - 1 \<le> e \<and>
        (let M = groups_value gs * 100 ^ nat (e - (int (length gs) - 1))
         in v = (if neg then - int M else int M) \<and> - int integer_limit \<le> v \<and> v < int integer_limit)) \<longleftrightarrow>
      (\<exists>gs. read_groups neg bs = Inr gs \<and>
        (let M = groups_value gs * 100 ^ k in v = (if neg then - int M else int M) \<and> - int integer_limit \<le> v \<and> v < int integer_limit))"
      by (intro ex_cong1 conj_cong[OF refl])
    with whole wpb False show ?thesis by (simp only: simp_thms ex_simps) blast
  qed
qed

text \<open>A power of a hundred below one never makes an integer of groups whose last is not zero.\<close>

lemma number_value_integer:
  assumes "list_all (\<lambda>g. g < 100) gs" "gs \<noteq> []" "last gs \<noteq> 0"
  shows "number_value negative e gs = of_int v \<longleftrightarrow> int (length gs) - 1 \<le> e \<and>
    v = (let M = groups_value gs * 100 ^ nat (e - (int (length gs) - 1)) in if negative then - int M else int M)"
proof (cases "int (length gs) - 1 \<le> e")
  case True
  define k where "k = nat (e - (int (length gs) - 1))"
  have "(10 :: rat) powi (2 * (e - (int (length gs) - 1))) = 100 ^ k"
  proof -
    have "e - (int (length gs) - 1) = int k" using True by (simp add: k_def)
    then show ?thesis by (simp only: power_int_mult power_int_of_nat) simp
  qed
  then have "number_value negative e gs = of_int ((if negative then -1 else 1) * int (groups_value gs * 100 ^ k))"
    by (simp add: number_value_def)
  with True show ?thesis unfolding k_def[symmetric] by (simp only: of_int_eq_iff) (auto simp: Let_def)
next
  case False
  define k where "k = nat (int (length gs) - 2 - e)"
  have eq: "(10 :: rat) powi (2 * (e - (int (length gs) - 1))) = 1 / 100 ^ Suc k"
  proof -
    have "e - (int (length gs) - 1) = - int (Suc k)" using False by (simp add: k_def)
    then show ?thesis by (simp only: power_int_mult power_int_minus power_int_of_nat) (simp add: field_simps)
  qed
  have "number_value negative e gs \<noteq> of_int v"
  proof
    assume "number_value negative e gs = of_int v"
    then have "of_int (int (groups_value gs)) = (of_int ((if negative then - v else v) * 100 ^ Suc k) :: rat)"
      unfolding number_value_def eq by (simp add: field_simps split: if_split_asm)
    then have "int (groups_value gs) = (if negative then - v else v) * 100 ^ Suc k" by (simp only: of_int_eq_iff)
    then have "int (groups_value gs) = (if negative then - v else v) * 100 ^ k * 100" by (simp only: power_Suc2 mult.assoc)
    then have "100 dvd int (groups_value gs)" by simp
    then have "100 dvd groups_value gs" by presburger
    moreover have "groups_value gs = groups_value (butlast gs) * 100 + last gs"
      using groups_value_simps(3)[of "butlast gs" "[last gs]"] assms(2) by (simp add: append_butlast_last_id)
    ultimately have "100 dvd last gs" by (simp add: dvd_add_right_iff)
    moreover have "last gs < 100" using assms(1,2) by (simp add: list_all_iff)
    ultimately show False using assms(3) by (auto dest: dvd_imp_le)
  qed
  with False show ?thesis by simp
qed

text \<open>
  The integer reader is the number reader on integers. It returns an integer exactly when the
  decimal text of the same bytes is that integer and the integer fits a signed 64-bit word; malformed
  bytes, fractions and everything out of range are left to the text.
\<close>

theorem integer_reader_equivalence:
  "TryDecodeOracleInteger wire = Some v \<longleftrightarrow>
     (\<exists>t. DecodeOracleNumber wire = Inr t \<and> text_value t = of_int v) \<and> - (2 ^ 63) \<le> v \<and> v < 2 ^ 63"
proof -
  have zero: "text_value ''0'' = 0"
    using text_value_plain(1)[of "''0''"] plain_value_digits[of "''0''"] by (simp add: plain_text_def digit_value_def)
  have not_zero: "\<not> wire_parts [0x80] negative e bs" for negative e bs
    by (auto simp: wire_parts_def number_end_def)
  have reads: "gs \<noteq> [] \<and> last gs \<noteq> 0 \<and> list_all (\<lambda>g. g < 100) gs"
    if "wire_parts wire negative e bs" "read_groups negative bs = Inr gs" for negative e bs gs
    using that read_groups_bounded[OF that(2)] by (auto simp: wire_parts_def)
  have texts: "(\<exists>t. DecodeOracleNumber wire = Inr t \<and> text_value t = of_int v) \<longleftrightarrow> wire = [0x80] \<and> v = 0 \<or>
     (\<exists>negative e bs gs. wire_parts wire negative e bs \<and> read_groups negative bs = Inr gs \<and> number_value negative e gs = of_int v)"
    unfolding DecodeOracleNumber_iff using zero reads number_text_value by (smt (verit) of_int_0_eq_iff of_int_eq_0_iff)
  have "number_value negative e gs = of_int v \<longleftrightarrow> int (length gs) - 1 \<le> e \<and>
      v = (let M = groups_value gs * 100 ^ nat (e - (int (length gs) - 1)) in if negative then - int M else int M)"
    if "wire_parts wire negative e bs" "read_groups negative bs = Inr gs" for negative e bs gs
    using number_value_integer[of gs negative e v] reads[OF that] by blast
  moreover have "- int integer_limit = - (2 ^ 63)" "int integer_limit = 2 ^ 63" "- (2 ^ 63) \<le> (0 :: int)" "(0 :: int) < 2 ^ 63"
    by (simp_all add: integer_limit_def)
  ultimately show ?thesis unfolding texts TryDecodeOracleInteger_iff Let_def by metis
qed

end
