(* ===== verification/Ttc_Execute.thy ===== *)
theory Ttc_Execute
  imports Ttc_Rows Sql_Text
begin

text \<open>
  \<^verbatim>\<open>src/ttc_execute.cpp\<close>: the OALL8 requests. One starts a statement without binds, one a statement
  with binds and any number of further rows of values (array DML), and one fetches from a cursor that
  the server opened.
\<close>

section \<open>Constants\<close>

definition MAX_EXECUTE_SQL_BYTES :: nat where
  "MAX_EXECUTE_SQL_BYTES = 2 ^ 20"

definition MAX_PREFETCH_ROWS :: nat where
  "MAX_PREFETCH_ROWS = 2 ^ 20"

definition MAX_BUFFER_BYTES :: nat where
  "MAX_BUFFER_BYTES = 16 * 2 ^ 20"

definition MAX_EXECUTE_BINDS :: nat where
  "MAX_EXECUTE_BINDS = 65535"

definition MAX_ITERATIONS :: nat where
  "MAX_ITERATIONS = 4096"

definition VECTOR_BIND_BYTES :: u32 where
  "VECTOR_BIND_BYTES = 2 ^ 20"

definition LOCATOR_BIND_BYTES :: u32 where
  "LOCATOR_BIND_BYTES = 112"

definition LONG_BIND_BUFFER_BYTES :: u32 where
  "LONG_BIND_BUFFER_BYTES = 32767"

definition LOB_PREFETCH_FLAG :: u64 where
  "LOB_PREFETCH_FLAG = 0x02000000"

abbreviation OALL8_PARSE :: u32 where "OALL8_PARSE \<equiv> 0x01"
abbreviation OALL8_EXECUTE :: u32 where "OALL8_EXECUTE \<equiv> 0x20"
abbreviation OALL8_FETCH :: u32 where "OALL8_FETCH \<equiv> 0x40"
abbreviation OALL8_BIND :: u32 where "OALL8_BIND \<equiv> 0x08"
abbreviation OALL8_NOT_PLSQL :: u32 where "OALL8_NOT_PLSQL \<equiv> 0x8000"
abbreviation OALL8_PLSQL_BIND :: u32 where "OALL8_PLSQL_BIND \<equiv> 0x400"
abbreviation OALL8_IMPLICIT_RESULTSETS :: u32 where "OALL8_IMPLICIT_RESULTSETS \<equiv> 0x8000"
abbreviation TTC_FUNCTION_EXECUTE :: u8 where "TTC_FUNCTION_EXECUTE \<equiv> 94"
abbreviation ORACLE_WIRE_TYPE_CURSOR :: u16 where "ORACLE_WIRE_TYPE_CURSOR \<equiv> 102"
abbreviation ORACLE_WIRE_TYPE_VECTOR :: u16 where "ORACLE_WIRE_TYPE_VECTOR \<equiv> 127"

section \<open>Requests\<close>

text \<open>The fields both requests have, then those of each.\<close>

record execute_call =
  ex_sequence :: u8
  ex_sql :: string
  prefetch_buffer_bytes :: u32
  prefetch_rows :: u32
  maximum_long_bytes :: u32
  ttc_field_version :: u8
  is_query :: bool
  is_plsql :: bool

record no_binds_request = execute_call +
  ex_options :: u32

record binds_request = execute_call +
  ex_binds :: "oracle_bind list"
  additional_iterations :: "oracle_bind list list"

definition bad_call :: "'a execute_call_scheme \<Rightarrow> bool" where
  "bad_call q \<longleftrightarrow> ex_sql q = [] \<or> length (ex_sql q) > MAX_EXECUTE_SQL_BYTES \<or> CHR 0x00 \<in> set (ex_sql q) \<or>
     unat (prefetch_buffer_bytes q) > MAX_BUFFER_BYTES \<or> prefetch_rows q = 0 \<or>
     unat (prefetch_rows q) > MAX_PREFETCH_ROWS \<or> maximum_long_bytes q = 0 \<or> ttc_field_version q < 8 \<or>
     (is_query q \<and> is_plsql q)"

definition ValidateNoBinds :: "no_binds_request \<Rightarrow> unit result" where
  "ValidateNoBinds q = (if bad_call q then throw MALFORMED else Inr ())"

section \<open>Binds\<close>

definition IsVectorBind :: "oracle_bind \<Rightarrow> bool" where
  "IsVectorBind b \<longleftrightarrow> bind_type b = ORACLE_WIRE_TYPE_VECTOR"

definition IsLocatorBind :: "oracle_bind \<Rightarrow> bool" where
  "IsLocatorBind b \<longleftrightarrow> bind_type b = 112 \<or> bind_type b = 113"

definition BindBufferSize :: "oracle_bind \<Rightarrow> u32 result" where
  "BindBufferSize b =
     (if bind_type b = ORACLE_WIRE_TYPE_CURSOR then Inr 4
      else if IsVectorBind b then Inr VECTOR_BIND_BYTES
      else if IsLocatorBind b then Inr LOCATOR_BIND_BYTES
      else if bind_maximum_bytes b \<noteq> 0 then Inr (bind_maximum_bytes b)
      else case bind_value b of
          Some v \<Rightarrow> Inr (max 1 (of_nat (length v)))
        | None \<Rightarrow> if bind_direction b \<noteq> BIND_IN then throw MALFORMED else Inr 1)"

definition IsCharacterType :: "u16 \<Rightarrow> bool" where
  "IsCharacterType t \<longleftrightarrow> t = 1 \<or> t = 9 \<or> t = 96"

definition ValidateBind :: "oracle_bind \<Rightarrow> unit result" where
  "ValidateBind b =
     (if bind_type b = 0 \<or> bind_type b > 255 \<or>
         (case bind_value b of None \<Rightarrow> False | Some v \<Rightarrow>
            length v > MAX_BUFFER_BYTES \<or> (IsVectorBind b \<and> length v > unat VECTOR_BIND_BYTES) \<or>
            (IsLocatorBind b \<and> length v \<noteq> 40))
      then throw MALFORMED
      else if bind_type b = ORACLE_WIRE_TYPE_CURSOR \<and> bind_direction b = BIND_IN then throw MALFORMED
      else andthen (BindBufferSize b) (\<lambda>_. Inr ()))"

text \<open>A further row against the row the metadata is written from.\<close>

fun ValidateIteration :: "oracle_bind list \<Rightarrow> oracle_bind list \<Rightarrow> unit result" where
  "ValidateIteration (b # bs) (declared # ds) =
     (if bind_type b \<noteq> bind_type declared \<or> bind_charset_form b \<noteq> bind_charset_form declared \<or>
         bind_direction b \<noteq> bind_direction declared then throw MALFORMED
      else if bind_direction b \<noteq> BIND_IN then throw UNSUPPORTED
      else andthen (ValidateBind b) (\<lambda>_. ValidateIteration bs ds))"
| "ValidateIteration bs ds = Inr ()"

definition ValidateBindsRequest :: "binds_request \<Rightarrow> unit result" where
  "ValidateBindsRequest q =
     (if bad_call q \<or> ex_binds q = [] \<or> length (ex_binds q) > MAX_EXECUTE_BINDS then throw MALFORMED
      else andthen (each (\<lambda>b _. ValidateBind b) (ex_binds q) ()) (\<lambda>_.
        if additional_iterations q = [] then Inr ()
        else if length (additional_iterations q) + 1 > MAX_ITERATIONS then throw LIMIT_EXCEEDED
        else if is_query q \<or> is_plsql q then throw UNSUPPORTED
        else each (\<lambda>iteration _. if length iteration \<noteq> length (ex_binds q) then throw MALFORMED
                      else ValidateIteration iteration (ex_binds q)) (additional_iterations q) ()))"

fun widen :: "u32 list \<Rightarrow> oracle_bind list \<Rightarrow> u32 list result" where
  "widen (w # ws) (b # bs) = andthen (BindBufferSize b) (\<lambda>n. andthen (widen ws bs) (\<lambda>ns. Inr (max w n # ns)))"
| "widen ws bs = Inr ws"

definition IterationBufferSizes :: "binds_request \<Rightarrow> u32 list result" where
  "IterationBufferSizes q =
     andthen (collect BindBufferSize (ex_binds q)) (each (\<lambda>iteration sizes. widen sizes iteration) (additional_iterations q))"

section \<open>Writing\<close>

definition WriteThinOall8Extension :: "u8 \<Rightarrow> byte_writer \<Rightarrow> byte_writer" where
  "WriteThinOall8Extension field_version = writes
     ([WriteByte 0, WriteUB4 0, WriteByte 0, WriteUB4 0, WriteByte 0] @
      (if field_version \<ge> 9 then [WriteByte 0, WriteUB4 0] else []))"

definition WriteBindMetadata :: "u8 \<Rightarrow> oracle_bind \<Rightarrow> u32 \<Rightarrow> byte_writer \<Rightarrow> byte_writer" where
  "WriteBindMetadata field_version b buffer_size =
     (let character_type = IsCharacterType (bind_type b) \<or> bind_type b = 112;
          character_form = (if bind_charset_form b \<noteq> 0 then bind_charset_form b else if character_type then 1 else 0)
      in writes
       ([WriteByte (ucast (bind_type b)), WriteByte 1, WriteByte 0, WriteByte 0,
         WriteUB4 buffer_size, WriteUB4 0, WriteUB8 (if IsVectorBind b \<or> IsLocatorBind b then LOB_PREFETCH_FLAG else 0),
         WriteUB4 0, WriteUB2 0, WriteUB2 (if character_type then 873 else 0), WriteByte character_form,
         WriteUB4 (if IsVectorBind b then VECTOR_BIND_BYTES else 0)] @
        (if field_version \<ge> 8 then [WriteUB4 0] else [])))"

definition ImageLocator :: "u64 \<Rightarrow> bytes" where
  "ImageLocator n = [0x00, 0x26, 0x00, 0x04, 0x61, 0x08, 0x00, 0x00, 0x00, 0x01] @ be_bytes 8 n @ replicate 22 0"

definition WriteBindValue :: "oracle_bind \<Rightarrow> byte_writer \<Rightarrow> byte_writer" where
  "WriteBindValue b =
     (if bind_type b = ORACLE_WIRE_TYPE_CURSOR then WriteByte 0
      else case bind_value b of
          None \<Rightarrow> WriteByte 0
        | Some v \<Rightarrow>
            if IsLocatorBind b then writes [WriteUB4 (of_nat (length v)), WriteLengthPrefixed (Some v)]
            else if IsVectorBind b then
              (let locator = ImageLocator (of_nat (length v)) in
               writes [WriteUB4 (of_nat (length locator)), WriteLengthPrefixed (Some locator), WriteLengthPrefixed (Some v)])
            else WriteLengthPrefixed (Some v))"

definition IsDeferredBind :: "oracle_bind \<Rightarrow> u32 \<Rightarrow> bool" where
  "IsDeferredBind b buffer_size \<longleftrightarrow> buffer_size > LONG_BIND_BUFFER_BYTES \<and> \<not> IsVectorBind b \<and> \<not> IsLocatorBind b"

definition WriteBindValues :: "oracle_bind list \<Rightarrow> u32 list \<Rightarrow> byte_writer \<Rightarrow> byte_writer" where
  "WriteBindValues binds buffer_sizes = writes
     (WriteByte TTC_MESSAGE_ROW_DATA #
      map (\<lambda>(b, s). WriteBindValue b) (filter (\<lambda>(b, s). \<not> IsDeferredBind b s) (zip binds buffer_sizes)) @
      map (\<lambda>(b, s). WriteBindValue b) (filter (\<lambda>(b, s). IsDeferredBind b s) (zip binds buffer_sizes)))"

definition EncodeTtcExecuteNoBindsRequest :: "no_binds_request \<Rightarrow> bytes result" where
  "EncodeTtcExecuteNoBindsRequest q = andthen (ValidateNoBinds q) (\<lambda>_.
     let core_options = OALL8_PARSE OR OALL8_EXECUTE OR
           (if is_query q then OALL8_FETCH OR OALL8_IMPLICIT_RESULTSETS else 0) OR
           (if is_plsql q then 0 else OALL8_NOT_PLSQL)
     in Inr (writes
      ([WriteByte TTC_MESSAGE_FUNCTION, WriteByte TTC_FUNCTION_EXECUTE, WriteByte (ex_sequence q),
        WriteUB4 (ex_options q OR core_options), WriteUB4 0,
        WriteByte 1, WriteUB4 (of_nat (length (ex_sql q))),
        WriteByte 1, WriteUB4 13, WriteByte 0, WriteByte 0,
        WriteUB4 (prefetch_buffer_bytes q), WriteUB4 (prefetch_rows q), WriteUB4 (maximum_long_bytes q), WriteByte 0,
        WriteUB4 0,
        WriteByte 0, WriteByte 0, WriteByte 0, WriteByte 0, WriteByte 0,
        WriteByte 0, WriteUB4 0, WriteUB4 0,
        WriteByte 0, WriteByte 0, WriteByte 0, WriteUB4 0, WriteByte 0, WriteUB4 0, WriteUB4 0,
        WriteByte 0, WriteUB4 0, WriteByte 0,
        WriteThinOall8Extension (ttc_field_version q),
        WriteLengthPrefixed (Some (to_bytes (ex_sql q))),
        WriteUB4 1, WriteUB4 (if is_query q then 0 else 1)] @
       map (\<lambda>index. WriteUB4 (if index = 7 \<and> is_query q then 1 else if index = 9 then OALL8_IMPLICIT_RESULTSETS else 0))
         [2..<13]) []))"

definition EncodeTtcExecuteBindsRequest :: "binds_request \<Rightarrow> bytes result" where
  "EncodeTtcExecuteBindsRequest q = andthen (ValidateBindsRequest q) (\<lambda>_.
     let options = OALL8_PARSE OR OALL8_EXECUTE OR OALL8_BIND OR
           (if is_query q then OALL8_FETCH OR OALL8_IMPLICIT_RESULTSETS else 0) OR
           (if is_plsql q then OALL8_PLSQL_BIND else OALL8_NOT_PLSQL)
     in andthen (IterationBufferSizes q) (\<lambda>buffer_sizes. Inr (writes
      ([WriteByte TTC_MESSAGE_FUNCTION, WriteByte TTC_FUNCTION_EXECUTE, WriteByte (ex_sequence q),
        WriteUB4 options, WriteUB4 0, WriteByte 1, WriteUB4 (of_nat (length (ex_sql q))),
        WriteByte 1, WriteUB4 13, WriteByte 0, WriteByte 0,
        WriteUB4 (prefetch_buffer_bytes q), WriteUB4 (prefetch_rows q), WriteUB4 (maximum_long_bytes q),
        WriteByte 1, WriteUB4 (of_nat (length (ex_binds q))),
        WriteByte 0, WriteByte 0, WriteByte 0, WriteByte 0, WriteByte 0,
        WriteByte 0, WriteUB4 0, WriteUB4 0,
        WriteByte 0, WriteByte 1, WriteByte 0, WriteUB4 0, WriteByte 0, WriteUB4 0, WriteUB4 0,
        WriteByte 0, WriteUB4 0, WriteByte 0,
        WriteThinOall8Extension (ttc_field_version q),
        WriteLengthPrefixed (Some (to_bytes (ex_sql q))),
        WriteUB4 1, WriteUB4 (if is_query q then 0 else of_nat (1 + length (additional_iterations q)))] @
       map (\<lambda>index. WriteUB4 (if index = 7 \<and> is_query q then 1 else if index = 9 then OALL8_IMPLICIT_RESULTSETS else 0))
         [2..<13] @
       map (\<lambda>(b, s). WriteBindMetadata (ttc_field_version q) b s) (zip (ex_binds q) buffer_sizes) @
       map (\<lambda>iteration. WriteBindValues iteration buffer_sizes) (ex_binds q # additional_iterations q)) [])))"

definition EncodeTtcCursorFetchRequest :: "u8 \<Rightarrow> u32 \<Rightarrow> u32 \<Rightarrow> u8 \<Rightarrow> bytes result" where
  "EncodeTtcCursorFetchRequest sequence cursor_id rows field_version =
     (if sequence = 0 \<or> cursor_id = 0 \<or> rows = 0 \<or> unat rows > MAX_PREFETCH_ROWS \<or> field_version < 8 then throw MALFORMED
      else Inr (writes
      ([WriteByte TTC_MESSAGE_FUNCTION, WriteByte TTC_FUNCTION_EXECUTE, WriteByte sequence,
        WriteUB4 (OALL8_FETCH OR OALL8_NOT_PLSQL), WriteUB4 cursor_id,
        WriteByte 0, WriteUB4 0,
        WriteByte 1, WriteUB4 13, WriteByte 0, WriteByte 0,
        WriteUB4 0, WriteUB4 rows, WriteUB4 0x7fffffff,
        WriteByte 0, WriteUB4 0,
        WriteByte 0, WriteByte 0, WriteByte 0, WriteByte 0, WriteByte 0,
        WriteByte 0, WriteUB4 0, WriteUB4 0,
        WriteByte 0, WriteByte 1, WriteByte 0, WriteUB4 0, WriteByte 0, WriteUB4 0, WriteUB4 0,
        WriteByte 0, WriteUB4 0, WriteByte 0,
        WriteThinOall8Extension field_version] @
       map (\<lambda>index. WriteUB4 (if index = 1 then rows else if index = 7 then 1 else 0)) [0..<13]) []))"

section \<open>A reader of the requests\<close>

text \<open>
  The OALL8 message read from the other side, from its bytes alone: the fixed fields by their kinds, the
  text if the message says it has one, the thirteen words of the vector, and as many metadata
  entries and rows as the message states. The reader decides from the metadata which values of a row come last.
\<close>

datatype field = Byte_field u8 | UB2_field u16 | UB4_field u32 | UB8_field u64

datatype field_kind = BYTE_KIND | UB2_KIND | UB4_KIND | UB8_KIND

fun kind_of :: "field \<Rightarrow> field_kind" where
  "kind_of (Byte_field _) = BYTE_KIND"
| "kind_of (UB2_field _) = UB2_KIND"
| "kind_of (UB4_field _) = UB4_KIND"
| "kind_of (UB8_field _) = UB8_KIND"

fun field_bytes :: "field \<Rightarrow> bytes" where
  "field_bytes (Byte_field b) = [b]"
| "field_bytes (UB2_field v) = WriteUB2 v []"
| "field_bytes (UB4_field v) = WriteUB4 v []"
| "field_bytes (UB8_field v) = WriteUB8 v []"

fun read_field :: "field_kind \<Rightarrow> field reader" where
  "read_field BYTE_KIND = bindr ReadByte (\<lambda>v. ret (Byte_field v))"
| "read_field UB2_KIND = bindr ReadUB2 (\<lambda>v. ret (UB2_field v))"
| "read_field UB4_KIND = bindr ReadUB4 (\<lambda>v. ret (UB4_field v))"
| "read_field UB8_KIND = bindr ReadUB8 (\<lambda>v. ret (UB8_field v))"

fun read_fields :: "field_kind list \<Rightarrow> field list reader" where
  "read_fields [] = ret []"
| "read_fields (k # ks) = bindr (read_field k) (\<lambda>f. bindr (read_fields ks) (\<lambda>fs. ret (f # fs)))"

fun byte_at :: "field list \<Rightarrow> nat \<Rightarrow> u8" where
  "byte_at fs i = (case fs ! i of Byte_field b \<Rightarrow> b | _ \<Rightarrow> 0)"

fun ub4_at :: "field list \<Rightarrow> nat \<Rightarrow> u32" where
  "ub4_at fs i = (case fs ! i of UB4_field v \<Rightarrow> v | _ \<Rightarrow> 0)"

definition header_kinds :: "u8 \<Rightarrow> field_kind list" where
  "header_kinds field_version =
     [BYTE_KIND, BYTE_KIND, BYTE_KIND, UB4_KIND, UB4_KIND, BYTE_KIND, UB4_KIND, BYTE_KIND, UB4_KIND, BYTE_KIND, BYTE_KIND,
      UB4_KIND, UB4_KIND, UB4_KIND, BYTE_KIND, UB4_KIND, BYTE_KIND, BYTE_KIND, BYTE_KIND, BYTE_KIND, BYTE_KIND,
      BYTE_KIND, UB4_KIND, UB4_KIND, BYTE_KIND, BYTE_KIND, BYTE_KIND, UB4_KIND, BYTE_KIND, UB4_KIND, UB4_KIND,
      BYTE_KIND, UB4_KIND, BYTE_KIND, BYTE_KIND, UB4_KIND, BYTE_KIND, UB4_KIND, BYTE_KIND] @
      (if field_version \<ge> 9 then [BYTE_KIND, UB4_KIND] else [])"

definition metadata_kinds :: "u8 \<Rightarrow> field_kind list" where
  "metadata_kinds field_version =
     [BYTE_KIND, BYTE_KIND, BYTE_KIND, BYTE_KIND, UB4_KIND, UB4_KIND, UB8_KIND, UB4_KIND, UB2_KIND, UB2_KIND, BYTE_KIND, UB4_KIND] @
      (if field_version \<ge> 8 then [UB4_KIND] else [])"

record value_metadata =
  meta_type :: u8
  meta_size :: u32
  meta_form :: u8

definition read_metadata :: "u8 \<Rightarrow> value_metadata reader" where
  "read_metadata field_version = bindr (read_fields (metadata_kinds field_version)) (\<lambda>fs.
     ret \<lparr>meta_type = byte_at fs 0, meta_size = ub4_at fs 4, meta_form = byte_at fs 10\<rparr>)"

definition sent_last :: "value_metadata \<Rightarrow> bool" where
  "sent_last m \<longleftrightarrow> meta_size m > 32767 \<and> meta_type m \<noteq> 127 \<and> meta_type m \<noteq> 112 \<and> meta_type m \<noteq> 113"

definition read_sized_value :: "bytes option reader" where
  "read_sized_value = bindr ReadUB4 (\<lambda>n. if n = 0 then ret None else ReadLengthPrefixed (unat n))"

definition read_bound_value :: "value_metadata \<Rightarrow> bytes option reader" where
  "read_bound_value m =
     (if meta_type m = 102 then thenr ReadByte (ret None)
      else if meta_type m = 112 \<or> meta_type m = 113 then read_sized_value
      else if meta_type m = 127 then
        bindr read_sized_value (\<lambda>locator. if locator = None then ret None else ReadLengthPrefixed MAX_BUFFER_BYTES)
      else ReadLengthPrefixed MAX_BUFFER_BYTES)"

fun read_each_value :: "value_metadata list \<Rightarrow> bytes option list reader" where
  "read_each_value [] = ret []"
| "read_each_value (m # ms) = bindr (read_bound_value m) (\<lambda>v. bindr (read_each_value ms) (\<lambda>vs. ret (v # vs)))"

fun merge_values :: "value_metadata list \<Rightarrow> 'v list \<Rightarrow> 'v list \<Rightarrow> 'v list" where
  "merge_values [] short_values long_values = []"
| "merge_values (m # ms) short_values long_values =
     (if sent_last m then hd long_values # merge_values ms short_values (tl long_values)
      else hd short_values # merge_values ms (tl short_values) long_values)"

definition read_value_row :: "value_metadata list \<Rightarrow> bytes option list reader" where
  "read_value_row ms = bindr ReadByte (\<lambda>t.
     thenr (refuse (t \<noteq> TTC_MESSAGE_ROW_DATA) MALFORMED)
     (bindr (read_each_value (filter (\<lambda>m. \<not> sent_last m) ms)) (\<lambda>short_values.
      bindr (read_each_value (filter sent_last ms)) (\<lambda>long_values. ret (merge_values ms short_values long_values)))))"

record server_call =
  sc_function :: "u8 \<times> u8"
  sc_sequence :: u8
  sc_options :: u32
  sc_cursor :: u32
  sc_sql :: "bytes option"
  sc_rows :: u32
  sc_words :: "u32 list"
  sc_binds :: "value_metadata list"
  sc_defines :: "value_metadata list"
  sc_values :: "bytes option list list"

text \<open>An entry's count stands after its pointer; the second word of the vector is the number of executions.\<close>

definition read_oall8 :: "u8 \<Rightarrow> server_call reader" where
  "read_oall8 field_version = bindr (read_fields (header_kinds field_version)) (\<lambda>h.
     bindr (if byte_at h 5 = 0 then ret None else ReadLengthPrefixed (unat (ub4_at h 6))) (\<lambda>sql.
     bindr (repeatr (unat (ub4_at h 8)) ReadUB4) (\<lambda>words.
     bindr (repeatr (if byte_at h 14 = 0 then 0 else unat (ub4_at h 15)) (read_metadata field_version)) (\<lambda>binds.
     bindr (repeatr (if byte_at h 21 = 0 then 0 else unat (ub4_at h 22)) (read_metadata field_version)) (\<lambda>defines.
     bindr (repeatr (if binds = [] then 0 else max 1 (unat (words ! 1))) (read_value_row binds)) (\<lambda>rows.
       ret \<lparr>sc_function = (byte_at h 0, byte_at h 1), sc_sequence = byte_at h 2, sc_options = ub4_at h 3, sc_cursor = ub4_at h 4,
         sc_sql = sql, sc_rows = ub4_at h 12, sc_words = words, sc_binds = binds, sc_defines = defines, sc_values = rows\<rparr>))))))"

section \<open>Fields\<close>

lemma read_field_back [parse_rules]: "parses (read_field (kind_of f)) (field_bytes f) f"
  by (cases f) (auto intro: parses_map_eq[OF parses_byte] parses_map_eq[OF ub2.reads_back] parses_map_eq[OF ub4.reads_back]
      parses_map_eq[OF ub8.reads_back])

lemma read_fields_back: "parses (read_fields (map kind_of fs)) (concat (map field_bytes fs)) fs"
proof (induction fs)
  case (Cons f fs)
  show ?case by simp (rule parses_bind[OF read_field_back], rule parses_map[OF Cons])
qed simp

text \<open>A chain of writer calls as the fields it appends.\<close>

lemma fields_append [appends]:
  "WriteByte v1 w = w @ field_bytes (Byte_field v1)"
  "WriteUB2 v2 w = w @ field_bytes (UB2_field v2)"
  "WriteUB4 v4 w = w @ field_bytes (UB4_field v4)"
  "WriteUB8 v8 w = w @ field_bytes (UB8_field v8)"
  using ub2.put_appends[of v2 w] ub4.put_appends[of v4 w] ub8.put_appends[of v8 w] by (simp_all add: WriteByte_def)

lemma writes_append_list: "writes (fs @ gs) w = writes gs (writes fs w)"
  by (simp add: writes_def)

lemma writes_map_append: "(\<And>x w. x \<in> set xs \<Longrightarrow> f x w = w @ g x) \<Longrightarrow> writes (map f xs) w = w @ concat (map g xs)"
  by (induction xs arbitrary: w) simp_all

definition prefixed_bytes :: "bytes \<Rightarrow> bytes" where
  "prefixed_bytes v = WriteLengthPrefixed (Some v) []"

lemma prefixed_append: "WriteLengthPrefixed (Some v) w = w @ prefixed_bytes v"
  unfolding prefixed_bytes_def by (rule length_prefixed.put_appends)

lemmas chain = fields_append writes_append_list prefixed_append

lemma chain_read:
  assumes "\<And>w. out w = w @ concat (map field_bytes fs)" "ks = map kind_of fs"
  shows "parses (read_fields ks) (out []) fs"
  using read_fields_back[of fs] assms by simp

section \<open>Binds\<close>

definition metadata_of :: "oracle_bind \<Rightarrow> u32 \<Rightarrow> value_metadata" where
  "metadata_of b buffer_size =
     \<lparr>meta_type = ucast (bind_type b), meta_size = buffer_size,
      meta_form = (if bind_charset_form b \<noteq> 0 then bind_charset_form b
                   else if IsCharacterType (bind_type b) \<or> bind_type b = 112 then 1 else 0)\<rparr>"

definition bound_view :: "oracle_bind \<Rightarrow> bytes option" where
  "bound_view b = (if bind_type b = ORACLE_WIRE_TYPE_CURSOR then None else null_view (bind_value b))"

lemma bind_metadata_append: "WriteBindMetadata v b s w = w @ WriteBindMetadata v b s []"
  by (simp add: WriteBindMetadata_def Let_def chain del: field_bytes.simps)

lemma metadata_read_back: "parses (read_metadata v) (WriteBindMetadata v b s []) (metadata_of b s)"
proof -
  define fs where "fs = [Byte_field (ucast (bind_type b)), Byte_field 1, Byte_field 0, Byte_field 0, UB4_field s, UB4_field 0,
    UB8_field (if IsVectorBind b \<or> IsLocatorBind b then LOB_PREFETCH_FLAG else 0), UB4_field 0, UB2_field 0,
    UB2_field (if IsCharacterType (bind_type b) \<or> bind_type b = 112 then 873 else 0), Byte_field (meta_form (metadata_of b s)),
    UB4_field (if IsVectorBind b then VECTOR_BIND_BYTES else 0)] @ (if v \<ge> 8 then [UB4_field 0] else [])"
  have "parses (read_fields (metadata_kinds v)) (WriteBindMetadata v b s []) fs"
    by (rule chain_read) (simp_all add: WriteBindMetadata_def Let_def chain fs_def metadata_kinds_def metadata_of_def del: field_bytes.simps)
  then show ?thesis
    unfolding read_metadata_def by (rule parses_map_eq) (simp add: fs_def metadata_of_def)
qed

lemma bind_value_append: "WriteBindValue b w = w @ WriteBindValue b []"
  by (auto simp: WriteBindValue_def Let_def chain simp del: field_bytes.simps split: option.split)

lemma u16_byte: "unat (t :: u16) < 256 \<Longrightarrow> unat (ucast t :: u8) = unat t"
  by (subst unsigned_ucast_eq) (simp add: take_bit_eq_mod)

lemma type_byte:
  assumes "ValidateBind b = Inr ()" "n < 256"
  shows "(ucast (bind_type b) :: u8) = of_nat n \<longleftrightarrow> bind_type b = of_nat n"
proof -
  have "bind_type b \<le> 255" using assms(1) by (auto simp: ValidateBind_def split: if_split_asm)
  then have "unat (bind_type b) < 256" by (simp add: word_le_nat_alt)
  note t = u16_byte[OF this]
  have "unat (of_nat n :: u8) = n" "unat (of_nat n :: u16) = n"
    using assms(2) by (simp_all add: unat_of_nat take_bit_nat_eq_self)
  then show ?thesis unfolding word_unat_eq_iff t by simp
qed

lemmas type_bytes = type_byte[where n = 102, simplified] type_byte[where n = 112, simplified]
  type_byte[where n = 113, simplified] type_byte[where n = 127, simplified]

lemma sized_value_back:
  assumes "length v < 2 ^ 32" "v \<noteq> []"
  shows "parses read_sized_value (writes [WriteUB4 (of_nat (length v)), WriteLengthPrefixed (Some v)] []) (Some v)"
proof -
  have n: "unat (of_nat (length v) :: u32) = length v" using assms(1) by (simp add: unat_of_nat take_bit_nat_eq_self)
  then have "(of_nat (length v) :: u32) \<noteq> 0" using assms(2) by (metis length_0_conv unat_0)
  with n assms(2) length_prefixed.reads_back[of "length v" "Some v"] show ?thesis
    by (auto simp: read_sized_value_def null_view_def length_prefixed.put_appends[of _ "WriteUB4 _ []"]
        intro!: parses_bind[OF ub4.reads_back])
qed

lemma no_sized_value_back: "parses read_sized_value [0] None"
proof -
  have "parses read_sized_value (WriteUB4 0 [] @ []) None"
    unfolding read_sized_value_def by (rule parses_bind[OF ub4.reads_back]) simp_all
  then show ?thesis by (simp add: WriteUB4_def WriteUniversal_eq)
qed

lemma bound_value_back:
  assumes b: "ValidateBind b = Inr ()"
  shows "parses (read_bound_value (metadata_of b s)) (WriteBindValue b []) (bound_view b)"
proof -
  have t: "meta_type (metadata_of b s) = 102 \<longleftrightarrow> bind_type b = 102"
    "meta_type (metadata_of b s) = 112 \<or> meta_type (metadata_of b s) = 113 \<longleftrightarrow> IsLocatorBind b"
    "meta_type (metadata_of b s) = 127 \<longleftrightarrow> IsVectorBind b"
    using type_bytes[OF b] by (simp_all add: metadata_of_def IsLocatorBind_def IsVectorBind_def)
  have len: "length v \<le> MAX_BUFFER_BYTES" "IsLocatorBind b \<Longrightarrow> length v = 40" if "bind_value b = Some v" for v
    using b that by (auto simp: ValidateBind_def split: if_split_asm)
  have max: "MAX_BUFFER_BYTES < 2 ^ 32" by (simp add: MAX_BUFFER_BYTES_def)
  have none: "parses (ReadLengthPrefixed MAX_BUFFER_BYTES) [0] None"
    by (simp add: ReadLengthPrefixed_def parses_byte_bind)
  show ?thesis
  proof (cases "bind_type b = 102 \<or> bind_value b = None")
    case True
    have cursor: "parses (thenr ReadByte (ret (None :: bytes option))) [0] None"
      using parses_then[OF parses_byte parses_ret] by (metis append.right_neutral)
    have image: "parses (bindr read_sized_value (\<lambda>l. if l = None then ret None else ReadLengthPrefixed MAX_BUFFER_BYTES)) [0] None"
      using parses_bind[OF no_sized_value_back, of "\<lambda>l. if l = None then ret None else ReadLengthPrefixed MAX_BUFFER_BYTES" "[]" None] by simp
    have "WriteBindValue b [] = [0]" "bound_view b = None"
      using True by (auto simp: WriteBindValue_def bound_view_def null_view_def WriteByte_def)
    then show ?thesis unfolding read_bound_value_def t using cursor image none no_sized_value_back by presburger
  next
    case False
    then obtain v where v: "bind_value b = Some v" "bind_type b \<noteq> 102" by auto
    consider "IsLocatorBind b" | "\<not> IsLocatorBind b" "IsVectorBind b" | "\<not> IsLocatorBind b" "\<not> IsVectorBind b" by blast
    then show ?thesis
    proof cases
      case 1
      with len(2)[OF v(1)] have "v \<noteq> []" "length v < 2 ^ 32" by auto
      with 1 v sized_value_back show ?thesis by (simp add: read_bound_value_def t WriteBindValue_def bound_view_def null_view_def)
    next
      case 2
      define l where "l = ImageLocator (of_nat (length v))"
      have l: "length l = 40" "l \<noteq> []" by (simp_all add: l_def ImageLocator_def be_bytes_def)
      have "WriteBindValue b [] = writes [WriteUB4 (of_nat (length l)), WriteLengthPrefixed (Some l)] [] @ WriteLengthPrefixed (Some v) []"
        using 2 v length_prefixed.put_appends[of "Some v" "writes [WriteUB4 (of_nat (length l)), WriteLengthPrefixed (Some l)] []"]
        by (simp add: WriteBindValue_def l_def Let_def)
      moreover have "parses (bindr read_sized_value (\<lambda>locator. if locator = None then ret None else ReadLengthPrefixed MAX_BUFFER_BYTES))
          (writes [WriteUB4 (of_nat (length l)), WriteLengthPrefixed (Some l)] [] @ WriteLengthPrefixed (Some v) []) (null_view (Some v))"
        by (rule parses_bind[OF sized_value_back]) (use l len(1)[OF v(1)] in \<open>auto intro!: length_prefixed.reads_back\<close>)
      ultimately show ?thesis using 2 v unfolding read_bound_value_def t by (simp add: bound_view_def)
    next
      case 3
      with v len(1)[OF v(1)] show ?thesis
        by (auto simp: read_bound_value_def t WriteBindValue_def bound_view_def intro!: length_prefixed.reads_back)
    qed
  qed
qed

section \<open>Rows of values\<close>

lemma sent_last_metadata:
  assumes "ValidateBind b = Inr ()"
  shows "sent_last (metadata_of b s) \<longleftrightarrow> IsDeferredBind b s"
  using type_bytes[OF assms]
  by (auto simp: sent_last_def metadata_of_def IsDeferredBind_def IsVectorBind_def IsLocatorBind_def LONG_BIND_BUFFER_BYTES_def)

lemma each_value_back:
  "(\<And>b s. (b, s) \<in> set xs \<Longrightarrow> ValidateBind b = Inr ()) \<Longrightarrow>
   parses (read_each_value (map (\<lambda>(b, s). metadata_of b s) xs)) (concat (map (\<lambda>(b, s). WriteBindValue b []) xs))
     (map (\<lambda>(b, s). bound_view b) xs)"
proof (induction xs)
  case (Cons x xs)
  obtain b s where x: "x = (b, s)" by (cases x)
  have "parses (bindr (read_bound_value (metadata_of b s)) (\<lambda>v. bindr (read_each_value (map (\<lambda>(b, s). metadata_of b s) xs)) (\<lambda>vs. ret (v # vs))))
      (WriteBindValue b [] @ concat (map (\<lambda>(b, s). WriteBindValue b []) xs)) (bound_view b # map (\<lambda>(b, s). bound_view b) xs)"
    using Cons x by (intro parses_bind[OF bound_value_back] parses_map) auto
  then show ?case by (simp add: x)
qed simp

lemma values_append:
  "writes (map (\<lambda>(b, s). WriteBindValue b) ys) w = w @ concat (map (\<lambda>(b, s). WriteBindValue b []) ys)"
  by (rule writes_map_append) (auto simp: bind_value_append[symmetric])

lemma row_back:
  assumes valid: "\<And>b. b \<in> set bs \<Longrightarrow> ValidateBind b = Inr ()" and len: "length sizes = length bs"
  shows "parses (read_value_row (map2 metadata_of bs sizes)) (WriteBindValues bs sizes []) (map bound_view bs)"
proof -
  define xs where "xs = zip bs sizes"
  let ?short = "filter (\<lambda>(b, s). \<not> IsDeferredBind b s) xs" and ?long = "filter (\<lambda>(b, s). IsDeferredBind b s) xs"
  have v: "ValidateBind b = Inr ()" if "(b, s) \<in> set xs" for b s using that valid by (auto simp: xs_def dest: set_zip_leftD)
  then have metas: "filter (\<lambda>m. \<not> sent_last m) (map (\<lambda>(b, s). metadata_of b s) xs) = map (\<lambda>(b, s). metadata_of b s) ?short"
    "filter sent_last (map (\<lambda>(b, s). metadata_of b s) xs) = map (\<lambda>(b, s). metadata_of b s) ?long"
    by (auto simp: filter_map o_def sent_last_metadata intro!: arg_cong[of _ _ "map _"] filter_cong)
  have bytes: "WriteBindValues bs sizes [] = TTC_MESSAGE_ROW_DATA # concat (map (\<lambda>(b, s). WriteBindValue b []) ?short) @
      concat (map (\<lambda>(b, s). WriteBindValue b []) ?long)"
    by (simp add: WriteBindValues_def writes_append_list values_append WriteByte_def xs_def)
  have views: "map (\<lambda>(b, s). bound_view b) xs = map bound_view bs"
    unfolding xs_def using len by (intro nth_equalityI) simp_all
  have "merge_values (map (\<lambda>(b, s). metadata_of b s) ys) (map (\<lambda>(b, s). bound_view b) (filter (\<lambda>(b, s). \<not> IsDeferredBind b s) ys))
      (map (\<lambda>(b, s). bound_view b) (filter (\<lambda>(b, s). IsDeferredBind b s) ys)) = map (\<lambda>(b, s). bound_view b) ys"
    if "set ys \<subseteq> set xs" for ys
    using that by (induction ys) (auto simp: sent_last_metadata v)
  then have merge: "merge_values (map (\<lambda>(b, s). metadata_of b s) xs) (map (\<lambda>(b, s). bound_view b) ?short)
      (map (\<lambda>(b, s). bound_view b) ?long) = map bound_view bs"
    using views by simp
  show ?thesis
    unfolding bytes read_value_row_def xs_def[symmetric] metas
    apply (rule parses_byte_bind)
    apply (unfold refuse_simps simp_thms thenr_ret)
    apply (rule parses_bind[OF each_value_back])
    apply (use v in auto)[1]
    apply (rule parses_map_eq[OF each_value_back])
    apply (use v in auto)[1]
    apply (rule merge)
    done
qed

section \<open>Whole requests\<close>

definition extension_fields :: "u8 \<Rightarrow> field list" where
  "extension_fields v = [Byte_field 0, UB4_field 0, Byte_field 0, UB4_field 0, Byte_field 0] @ (if v \<ge> 9 then [Byte_field 0, UB4_field 0] else [])"

definition header_fields :: "u8 \<Rightarrow> u32 \<Rightarrow> u32 \<Rightarrow> u8 \<Rightarrow> u32 \<Rightarrow> u32 \<Rightarrow> u32 \<Rightarrow> u32 \<Rightarrow> u8 \<Rightarrow> u32 \<Rightarrow> u8 \<Rightarrow> u32 \<Rightarrow> u8 \<Rightarrow> u8 \<Rightarrow> field list" where
  "header_fields sequence options cursor has_sql sql_size buffer rows long has_binds binds has_defines defines vector v =
    [Byte_field 3, Byte_field 94, Byte_field sequence, UB4_field options, UB4_field cursor, Byte_field has_sql, UB4_field sql_size,
     Byte_field 1, UB4_field 13, Byte_field 0, Byte_field 0, UB4_field buffer, UB4_field rows, UB4_field long,
     Byte_field has_binds, UB4_field binds, Byte_field 0, Byte_field 0, Byte_field 0, Byte_field 0, Byte_field 0,
     Byte_field has_defines, UB4_field defines, UB4_field 0,
     Byte_field 0, Byte_field vector, Byte_field 0, UB4_field 0, Byte_field 0, UB4_field 0, UB4_field 0,
     Byte_field 0, UB4_field 0, Byte_field 0] @ extension_fields v"

lemma extension_append: "WriteThinOall8Extension v w = w @ concat (map field_bytes (extension_fields v))"
  by (simp add: WriteThinOall8Extension_def extension_fields_def chain del: field_bytes.simps)

lemma words_append: "writes (map (\<lambda>x. WriteUB4 (f x)) xs) w = w @ concat (map (\<lambda>x. field_bytes (UB4_field (f x))) xs)"
  by (rule writes_map_append) (rule fields_append)

lemma words_back: "parses (repeatr (length ws) ReadUB4) (concat (map (\<lambda>v. field_bytes (UB4_field v)) ws)) ws"
  using parses_repeatr[of ws ReadUB4 "\<lambda>v. field_bytes (UB4_field v)" id] ub4.reads_back by simp

lemma oall8_back:
  assumes sql: "if has_sql = 0 then sql_bytes = [] \<and> sql = None
      else parses (ReadLengthPrefixed (unat sql_size)) sql_bytes sql"
    and words: "length words = 13"
    and bind_part: "parses (repeatr (if has_binds = 0 then 0 else unat binds_count) (read_metadata v)) binds_bytes binds"
    and define_part: "parses (repeatr (if has_defines = 0 then 0 else unat defines_count) (read_metadata v)) defines_bytes defines"
    and row_part: "parses (repeatr (if binds = [] then 0 else max 1 (unat (words ! 1))) (read_value_row binds)) rows_bytes value_rows"
  shows "parses (read_oall8 v)
     (concat (map field_bytes (header_fields sequence options cursor has_sql sql_size buffer fetch_rows long has_binds binds_count
        has_defines defines_count vector v)) @ sql_bytes @ concat (map (\<lambda>x. field_bytes (UB4_field x)) words) @ binds_bytes @ defines_bytes @ rows_bytes)
     \<lparr>sc_function = (3, 94), sc_sequence = sequence, sc_options = options, sc_cursor = cursor, sc_sql = sql, sc_rows = fetch_rows,
      sc_words = words, sc_binds = binds, sc_defines = defines, sc_values = value_rows\<rparr>"
proof -
  define h where "h = header_fields sequence options cursor has_sql sql_size buffer fetch_rows long has_binds binds_count
        has_defines defines_count vector v"
  have at: "byte_at h 0 = 3" "byte_at h 1 = 94" "byte_at h 2 = sequence" "ub4_at h 3 = options" "ub4_at h 4 = cursor" "byte_at h 5 = has_sql"
    "ub4_at h 6 = sql_size" "ub4_at h 8 = 13" "ub4_at h 12 = fetch_rows" "byte_at h 14 = has_binds" "ub4_at h 15 = binds_count"
    "byte_at h 21 = has_defines" "ub4_at h 22 = defines_count"
    by (simp_all add: h_def header_fields_def)
  have kinds: "header_kinds v = map kind_of h"
    by (simp add: header_kinds_def h_def header_fields_def extension_fields_def)
  have stated: "parses (if has_sql = 0 then ret None else ReadLengthPrefixed (unat sql_size)) sql_bytes sql"
    using sql by (auto split: if_split_asm)
  show ?thesis
    unfolding read_oall8_def h_def[symmetric] kinds
    by (rule parses_bind[OF read_fields_back], unfold at, rule parses_bind[OF stated], rule parses_bind)
      (use words words_back[of words] in simp, rule parses_bind[OF bind_part], rule parses_bind[OF define_part], rule parses_map_eq[OF row_part], simp)
qed

locale oall8_request =
  fixes encode :: "'q \<Rightarrow> bytes result" and version :: "'q \<Rightarrow> u8" and view :: "'q \<Rightarrow> server_call"
  assumes understood: "encode q = Inr m \<Longrightarrow> parses (read_oall8 (version q)) m (view q)"
begin

lemma read_whole: "encode q = Inr m \<Longrightarrow> read_oall8 (version q) (new_reader (m @ rest)) = Inr (view q, reader_at m rest)"
  using parsesD[OF understood, of q m "[]" rest] by (simp add: new_reader_at)

lemma same_bytes: "\<lbrakk>encode q = Inr m; encode q' = Inr m; version q = version q'\<rbrakk> \<Longrightarrow> view q = view q'"
  using read_whole[of q m "[]"] read_whole[of q' m "[]"] by simp

end

definition query_words :: "bool \<Rightarrow> u32 \<Rightarrow> u32 list" where
  "query_words query executions = [1, executions] @
     map (\<lambda>index. if index = 7 \<and> query then 1 else if index = 9 then OALL8_IMPLICIT_RESULTSETS else 0) [2..<13]"

definition no_binds_call :: "no_binds_request \<Rightarrow> server_call" where
  "no_binds_call q = \<lparr>sc_function = (3, 94), sc_sequence = ex_sequence q,
     sc_options = ex_options q OR (OALL8_PARSE OR OALL8_EXECUTE OR (if is_query q then OALL8_FETCH OR OALL8_IMPLICIT_RESULTSETS else 0) OR
        (if is_plsql q then 0 else OALL8_NOT_PLSQL)),
     sc_cursor = 0, sc_sql = Some (to_bytes (ex_sql q)), sc_rows = prefetch_rows q,
     sc_words = query_words (is_query q) (if is_query q then 0 else 1), sc_binds = [], sc_defines = [], sc_values = []\<rparr>"

definition cursor_fetch_call :: "u8 \<Rightarrow> u32 \<Rightarrow> u32 \<Rightarrow> server_call" where
  "cursor_fetch_call sequence cursor_id rows = \<lparr>sc_function = (3, 94), sc_sequence = sequence,
     sc_options = OALL8_FETCH OR OALL8_NOT_PLSQL, sc_cursor = cursor_id, sc_sql = None, sc_rows = rows,
     sc_words = map (\<lambda>index. if index = 1 then rows else if index = 7 then 1 else 0) [0..<13], sc_binds = [], sc_defines = [],
     sc_values = []\<rparr>"

definition declared_sizes :: "binds_request \<Rightarrow> u32 list" where
  "declared_sizes q = (case IterationBufferSizes q of Inl _ \<Rightarrow> [] | Inr sizes \<Rightarrow> sizes)"

definition binds_call :: "binds_request \<Rightarrow> server_call" where
  "binds_call q = \<lparr>sc_function = (3, 94), sc_sequence = ex_sequence q,
     sc_options = OALL8_PARSE OR OALL8_EXECUTE OR OALL8_BIND OR (if is_query q then OALL8_FETCH OR OALL8_IMPLICIT_RESULTSETS else 0) OR
        (if is_plsql q then OALL8_PLSQL_BIND else OALL8_NOT_PLSQL),
     sc_cursor = 0, sc_sql = Some (to_bytes (ex_sql q)), sc_rows = prefetch_rows q,
     sc_words = query_words (is_query q) (if is_query q then 0 else of_nat (1 + length (additional_iterations q))),
     sc_binds = map2 metadata_of (ex_binds q) (declared_sizes q), sc_defines = [],
     sc_values = map (map bound_view) (ex_binds q # additional_iterations q)\<rparr>"

lemma query_words_append: "concat (map (\<lambda>x. field_bytes (UB4_field x)) (query_words query n)) =
   field_bytes (UB4_field 1) @ field_bytes (UB4_field n) @
   concat (map (\<lambda>index. field_bytes (UB4_field (if index = 7 \<and> query then 1 else if index = 9 then OALL8_IMPLICIT_RESULTSETS else 0))) [2..<13])"
  unfolding query_words_def by (simp add: o_def del: field_bytes.simps)

lemma sql_back:
  assumes "\<not> bad_call q"
  shows "parses (ReadLengthPrefixed (unat (of_nat (length (ex_sql q)) :: u32))) (prefixed_bytes (to_bytes (ex_sql q))) (Some (to_bytes (ex_sql q)))"
proof -
  have len: "length (ex_sql q) \<le> 2 ^ 20" "ex_sql q \<noteq> []" using assms by (auto simp: bad_call_def MAX_EXECUTE_SQL_BYTES_def)
  then have "unat (of_nat (length (ex_sql q)) :: u32) = length (ex_sql q)" by (simp add: unat_of_nat take_bit_nat_eq_self)
  with len(2) length_prefixed.reads_back[of "length (ex_sql q)" "Some (to_bytes (ex_sql q))"] show ?thesis
    by (simp add: prefixed_bytes_def null_view_def)
qed

lemma none_back: "parses (repeatr 0 get) [] []"
  by simp

interpretation no_binds: oall8_request EncodeTtcExecuteNoBindsRequest ttc_field_version no_binds_call
proof
  fix q m assume enc: "EncodeTtcExecuteNoBindsRequest q = Inr m"
  define options where "options = ex_options q OR (OALL8_PARSE OR OALL8_EXECUTE OR (if is_query q then OALL8_FETCH OR OALL8_IMPLICIT_RESULTSETS else 0) OR
        (if is_plsql q then 0 else OALL8_NOT_PLSQL))"
  from enc have ok: "\<not> bad_call q" by (auto simp: EncodeTtcExecuteNoBindsRequest_def ValidateNoBinds_def split: if_split_asm)
  let ?words = "query_words (is_query q) (if is_query q then 0 else 1)"
  have m: "m = concat (map field_bytes (header_fields (ex_sequence q) options 0 1 (of_nat (length (ex_sql q))) (prefetch_buffer_bytes q)
      (prefetch_rows q) (maximum_long_bytes q) 0 0 0 0 0 (ttc_field_version q))) @ prefixed_bytes (to_bytes (ex_sql q)) @
      concat (map (\<lambda>x. field_bytes (UB4_field x)) ?words) @ [] @ [] @ []"
    using enc ok unfolding EncodeTtcExecuteNoBindsRequest_def ValidateNoBinds_def options_def[symmetric] Let_def query_words_append
    by (simp add: chain words_append extension_append header_fields_def del: field_bytes.simps)
  show "parses (read_oall8 (ttc_field_version q)) m (no_binds_call q)"
    unfolding m no_binds_call_def options_def[symmetric]
    by (intro oall8_back) (simp_all add: sql_back[OF ok] query_words_def)
qed

lemma each_valid: "each (\<lambda>x _. f x) xs () = Inr () \<Longrightarrow> x \<in> set xs \<Longrightarrow> f x = Inr ()"
  by (induction xs) (auto simp: andthen_eq_Inr)

lemma valid_iteration:
  "\<lbrakk>ValidateIteration bs ds = Inr (); length bs = length ds\<rbrakk> \<Longrightarrow>
   (\<forall>b\<in>set bs. ValidateBind b = Inr ()) \<and> (\<forall>sizes. map2 metadata_of bs sizes = map2 metadata_of ds sizes)"
proof (induction bs ds rule: ValidateIteration.induct)
  case (1 b bs d ds)
  then have "ValidateBind b = Inr ()" "bind_type b = bind_type d" "bind_charset_form b = bind_charset_form d"
    "(\<forall>b\<in>set bs. ValidateBind b = Inr ()) \<and> (\<forall>sizes. map2 metadata_of bs sizes = map2 metadata_of ds sizes)"
    by (auto simp: andthen_eq_Inr split: if_split_asm)
  moreover have "metadata_of b s = metadata_of d s" for s using calculation by (simp add: metadata_of_def)
  moreover have "map2 metadata_of (b # bs) sizes = map2 metadata_of (d # ds) sizes" for sizes
    using calculation by (cases sizes) simp_all
  ultimately show ?case by simp
qed auto

lemma widen_length: "\<lbrakk>widen ws bs = Inr ws'; length ws = length bs\<rbrakk> \<Longrightarrow> length ws' = length ws"
  by (induction ws bs arbitrary: ws' rule: widen.induct) (auto simp: andthen_eq_Inr)

lemma widen_each_length:
  "\<lbrakk>each (\<lambda>iteration sizes. widen sizes iteration) its ws = Inr ws'; \<And>it. it \<in> set its \<Longrightarrow> length it = length ws\<rbrakk> \<Longrightarrow> length ws' = length ws"
proof (induction its arbitrary: ws)
  case (Cons it its)
  then obtain w where "widen ws it = Inr w" "each (\<lambda>iteration sizes. widen sizes iteration) its w = Inr ws'" by (auto simp: andthen_eq_Inr)
  with Cons.IH[of w] Cons.prems(2) widen_length[of ws it w] show ?case by simp
qed simp

definition usable_rows :: "binds_request \<Rightarrow> bool" where
  "usable_rows q \<longleftrightarrow> (\<forall>row\<in>set (ex_binds q # additional_iterations q). length row = length (ex_binds q) \<and> (\<forall>b\<in>set row. ValidateBind b = Inr ()) \<and>
      (\<forall>sizes. map2 metadata_of row sizes = map2 metadata_of (ex_binds q) sizes))"

lemma valid_binds_request:
  assumes "ValidateBindsRequest q = Inr ()"
  shows "\<not> bad_call q" "ex_binds q \<noteq> []" "length (ex_binds q) \<le> 65535" "length (additional_iterations q) < 4096"
    "is_query q \<Longrightarrow> additional_iterations q = []" "usable_rows q"
proof -
  from assms have a: "\<not> bad_call q \<and> ex_binds q \<noteq> [] \<and> length (ex_binds q) \<le> 65535 \<and> each (\<lambda>b _. ValidateBind b) (ex_binds q) () = Inr ()"
    by (auto simp: ValidateBindsRequest_def MAX_EXECUTE_BINDS_def andthen_eq_Inr split: if_split_asm)
  then show "\<not> bad_call q" "ex_binds q \<noteq> []" "length (ex_binds q) \<le> 65535" by simp_all
  have b: "additional_iterations q = [] \<or> length (additional_iterations q) < 4096 \<and> \<not> is_query q \<and>
      each (\<lambda>iteration _. if length iteration \<noteq> length (ex_binds q) then throw MALFORMED
                      else ValidateIteration iteration (ex_binds q)) (additional_iterations q) () = Inr ()"
    using assms by (auto simp: ValidateBindsRequest_def MAX_ITERATIONS_def andthen_eq_Inr split: if_split_asm)
  then show "length (additional_iterations q) < 4096" "is_query q \<Longrightarrow> additional_iterations q = []" by auto
  have "length row = length (ex_binds q) \<and> ValidateIteration row (ex_binds q) = Inr ()" if "row \<in> set (additional_iterations q)" for row
    using b that each_valid[of "\<lambda>iteration. if length iteration \<noteq> length (ex_binds q) then throw MALFORMED
                      else ValidateIteration iteration (ex_binds q)" "additional_iterations q" row] by (auto split: if_split_asm)
  then show "usable_rows q"
    using a each_valid[of ValidateBind "ex_binds q"] valid_iteration[of _ "ex_binds q"] unfolding usable_rows_def by (metis set_ConsD)
qed

lemma declared_sizes_length:
  assumes "IterationBufferSizes q = Inr sizes" "usable_rows q"
  shows "length sizes = length (ex_binds q)"
proof -
  obtain s0 where "collect BindBufferSize (ex_binds q) = Inr s0"
    "each (\<lambda>iteration sizes. widen sizes iteration) (additional_iterations q) s0 = Inr sizes"
    using assms(1) by (auto simp: IterationBufferSizes_def andthen_eq_Inr)
  with widen_each_length[of "additional_iterations q" s0 sizes] collect_length[of BindBufferSize "ex_binds q" s0] assms(2)
  show ?thesis by (simp add: usable_rows_def)
qed

lemma metadata_append:
  "writes (map (\<lambda>(b, s). WriteBindMetadata v b s) xs) w = w @ concat (map (\<lambda>(b, s). WriteBindMetadata v b s []) xs)"
  by (rule writes_map_append) (auto simp: bind_metadata_append[symmetric])

lemma row_append: "WriteBindValues bs sizes w = w @ WriteBindValues bs sizes []"
  by (simp add: WriteBindValues_def writes_append_list values_append WriteByte_def)

lemma rows_append:
  "writes (map (\<lambda>row. WriteBindValues row sizes) rows) w = w @ concat (map (\<lambda>row. WriteBindValues row sizes []) rows)"
  by (rule writes_map_append) (rule row_append)

lemma metadata_list_back:
  assumes "length xs = n"
  shows "parses (repeatr n (read_metadata v)) (concat (map (\<lambda>(b, s). WriteBindMetadata v b s []) xs)) (map (\<lambda>(b, s). metadata_of b s) xs)"
  using parses_repeatr[of xs "read_metadata v" "\<lambda>(b, s). WriteBindMetadata v b s []" "\<lambda>(b, s). metadata_of b s"] assms metadata_read_back
  by (auto simp: case_prod_unfold)

interpretation with_binds: oall8_request EncodeTtcExecuteBindsRequest ttc_field_version binds_call
proof
  fix q m assume enc: "EncodeTtcExecuteBindsRequest q = Inr m"
  define options where "options = OALL8_PARSE OR OALL8_EXECUTE OR OALL8_BIND OR (if is_query q then OALL8_FETCH OR OALL8_IMPLICIT_RESULTSETS else 0) OR
        (if is_plsql q then OALL8_PLSQL_BIND else OALL8_NOT_PLSQL)"
  from enc obtain sizes where ok: "ValidateBindsRequest q = Inr ()" "IterationBufferSizes q = Inr sizes"
    by (auto simp: EncodeTtcExecuteBindsRequest_def andthen_eq_Inr Let_def)
  note valid = valid_binds_request[OF ok(1)]
  define executions where "executions = (if is_query q then 0 else of_nat (1 + length (additional_iterations q)) :: u32)"
  let ?words = "query_words (is_query q) executions"
  have m: "m = concat (map field_bytes (header_fields (ex_sequence q) options 0 1 (of_nat (length (ex_sql q))) (prefetch_buffer_bytes q)
      (prefetch_rows q) (maximum_long_bytes q) 1 (of_nat (length (ex_binds q))) 0 0 1 (ttc_field_version q))) @ prefixed_bytes (to_bytes (ex_sql q)) @
      concat (map (\<lambda>x. field_bytes (UB4_field x)) ?words) @
      concat (map (\<lambda>(b, s). WriteBindMetadata (ttc_field_version q) b s []) (zip (ex_binds q) sizes)) @ [] @
      concat (map (\<lambda>row. WriteBindValues row sizes []) (ex_binds q # additional_iterations q))"
    using enc ok unfolding EncodeTtcExecuteBindsRequest_def options_def[symmetric] executions_def[symmetric] Let_def query_words_append
    by (simp add: chain words_append metadata_append rows_append row_append[of _ _ "_ @ _"] extension_append header_fields_def
        del: field_bytes.simps)
  have sizes: "declared_sizes q = sizes" "length sizes = length (ex_binds q)"
    using ok(2) declared_sizes_length[OF ok(2) valid(6)] by (simp_all add: declared_sizes_def)
  have metas: "map2 metadata_of (ex_binds q) sizes \<noteq> []" using valid(2) sizes(2) by (cases "ex_binds q"; cases sizes) simp_all
  have count: "unat (of_nat (length (ex_binds q)) :: u32) = length (ex_binds q)"
    using valid(3) by (simp add: unat_of_nat take_bit_nat_eq_self)
  have "max 1 (unat executions) = length (ex_binds q # additional_iterations q)"
    using valid(4,5) by (auto simp: executions_def unat_of_nat take_bit_nat_eq_self simp del: of_nat_Suc of_nat_add)
  moreover have "parses (read_value_row (map2 metadata_of (ex_binds q) sizes)) (WriteBindValues row sizes []) (map bound_view row)"
    if "row \<in> set (ex_binds q # additional_iterations q)" for row
    using that valid(6) sizes(2) row_back[of row sizes] unfolding usable_rows_def by metis
  ultimately have rows: "parses (repeatr (max 1 (unat executions)) (read_value_row (map2 metadata_of (ex_binds q) sizes)))
      (concat (map (\<lambda>row. WriteBindValues row sizes []) (ex_binds q # additional_iterations q))) (map (map bound_view) (ex_binds q # additional_iterations q))"
    using parses_repeatr[of "ex_binds q # additional_iterations q" "read_value_row (map2 metadata_of (ex_binds q) sizes)"] by metis
  show "parses (read_oall8 (ttc_field_version q)) m (binds_call q)"
    unfolding m binds_call_def options_def[symmetric] executions_def[symmetric] sizes(1)
    by (intro oall8_back metadata_list_back)
      (use sql_back[OF valid(1)] metas sizes(2) count rows in \<open>simp_all add: query_words_def\<close>)
qed

definition cursor_fetch :: "u8 \<times> u32 \<times> u32 \<times> u8 \<Rightarrow> bytes result" where
  "cursor_fetch = (\<lambda>(sequence, cursor_id, rows, v). EncodeTtcCursorFetchRequest sequence cursor_id rows v)"

interpretation cursor_fetches: oall8_request cursor_fetch "\<lambda>(_, _, _, v). v" "\<lambda>(sequence, cursor_id, rows, _). cursor_fetch_call sequence cursor_id rows"
proof (unfold_locales, clarify)
  fix sequence cursor_id rows v m assume enc: "cursor_fetch (sequence, cursor_id, rows, v) = Inr m"
  let ?words = "map (\<lambda>index. if index = 1 then rows else if index = 7 then 1 else 0 :: u32) [0..<13]"
  have m: "m = concat (map field_bytes (header_fields sequence (OALL8_FETCH OR OALL8_NOT_PLSQL) cursor_id 0 0 0 rows 0x7fffffff 0 0 0 0 1 v)) @ [] @
      concat (map (\<lambda>x. field_bytes (UB4_field x)) ?words) @ [] @ [] @ []"
    using enc unfolding cursor_fetch_def EncodeTtcCursorFetchRequest_def
    by (simp add: chain words_append extension_append header_fields_def o_def del: field_bytes.simps upt.simps upt_Suc split: if_split_asm)
  show "parses (read_oall8 v) m (cursor_fetch_call sequence cursor_id rows)"
    unfolding m cursor_fetch_call_def by (intro oall8_back) simp_all
qed

section \<open>Declared buffers\<close>

lemma widen_grows:
  "widen ws bs = Inr ws' \<Longrightarrow> length ws = length bs \<Longrightarrow> i < length bs \<Longrightarrow>
   ws ! i \<le> ws' ! i \<and> (\<exists>n. BindBufferSize (bs ! i) = Inr n \<and> n \<le> ws' ! i)"
proof (induction ws bs arbitrary: ws' i rule: widen.induct)
  case (1 w ws b bs)
  then obtain n ns where s: "BindBufferSize b = Inr n" "widen ws bs = Inr ns" "ws' = max w n # ns" by (auto simp: andthen_eq_Inr)
  show ?case
  proof (cases i)
    case (Suc j)
    with "1.IH"[OF s(2), of j] "1.prems" s show ?thesis by simp
  qed (use s in simp)
qed auto

lemma widen_each_grows:
  "\<lbrakk>each (\<lambda>iteration sizes. widen sizes iteration) its ws = Inr ws'; \<And>it. it \<in> set its \<Longrightarrow> length it = length ws; i < length ws\<rbrakk> \<Longrightarrow>
   ws ! i \<le> ws' ! i \<and> (\<forall>it\<in>set its. \<exists>n. BindBufferSize (it ! i) = Inr n \<and> n \<le> ws' ! i)"
proof (induction its arbitrary: ws)
  case (Cons it its)
  then obtain w where w: "widen ws it = Inr w" "each (\<lambda>iteration sizes. widen sizes iteration) its w = Inr ws'" by (auto simp: andthen_eq_Inr)
  have len: "length w = length ws" "length it = length ws" using widen_length[OF w(1)] Cons.prems(2) by auto
  have "w ! i \<le> ws' ! i \<and> (\<forall>it\<in>set its. \<exists>n. BindBufferSize (it ! i) = Inr n \<and> n \<le> ws' ! i)"
    using Cons.IH[OF w(2)] Cons.prems len by simp
  moreover have "ws ! i \<le> w ! i \<and> (\<exists>n. BindBufferSize (it ! i) = Inr n \<and> n \<le> w ! i)"
    using widen_grows[OF w(1)] Cons.prems(3) len by simp
  ultimately show ?case by (auto intro: order_trans)
qed simp

lemma buffer_covers_rows:
  assumes "IterationBufferSizes q = Inr sizes" "usable_rows q" "row \<in> set (ex_binds q # additional_iterations q)" "i < length (ex_binds q)"
  shows "\<exists>n. BindBufferSize (row ! i) = Inr n \<and> n \<le> sizes ! i"
proof -
  obtain s0 where s0: "collect BindBufferSize (ex_binds q) = Inr s0"
    "each (\<lambda>iteration sizes. widen sizes iteration) (additional_iterations q) s0 = Inr sizes"
    using assms(1) by (auto simp: IterationBufferSizes_def andthen_eq_Inr)
  have "length s0 = length (ex_binds q)" using collect_length[OF s0(1)] .
  with widen_each_grows[OF s0(2), of i] assms(2,4)
  have "s0 ! i \<le> sizes ! i \<and> (\<forall>it\<in>set (additional_iterations q). \<exists>n. BindBufferSize (it ! i) = Inr n \<and> n \<le> sizes ! i)"
    by (simp add: usable_rows_def)
  with collect_nth[OF s0(1) assms(4)] assms(3) show ?thesis by auto
qed

section \<open>Properties\<close>

text \<open>
  C14. A statement with binds is read back whole by a reader that has only its bytes: the text, the cursor,
  the number of executions, the type and buffer of every bind, and every value of every row in declared order,
  although the values with a long buffer are sent after the others of their row.
\<close>

theorem execute_request_read_back:
  assumes "EncodeTtcExecuteBindsRequest q = Inr m"
  shows "read_oall8 (ttc_field_version q) (new_reader m) = Inr (binds_call q, reader_at m []) \<and>
    sc_values (binds_call q) = map (map bound_view) (ex_binds q # additional_iterations q)"
  using with_binds.read_whole[OF assms, of "[]"] by (simp add: binds_call_def)

definition two_row_insert :: binds_request where
  "two_row_insert = \<lparr>ex_sequence = 1, ex_sql = ''x'', prefetch_buffer_bytes = 0, prefetch_rows = 1, maximum_long_bytes = 1,
     ttc_field_version = 8, is_query = False, is_plsql = False,
     ex_binds = [\<lparr>bind_name = ''a'', bind_type = 1, bind_direction = BIND_IN, bind_value = Some [65], bind_maximum_bytes = 40000,
                   bind_charset_form = 0, bind_lob_content = 0\<rparr>,
                 \<lparr>bind_name = ''b'', bind_type = 2, bind_direction = BIND_IN, bind_value = Some [193, 2], bind_maximum_bytes = 0,
                   bind_charset_form = 0, bind_lob_content = 0\<rparr>],
     additional_iterations =
       [[\<lparr>bind_name = ''a'', bind_type = 1, bind_direction = BIND_IN, bind_value = None, bind_maximum_bytes = 40000,
          bind_charset_form = 0, bind_lob_content = 0\<rparr>,
         \<lparr>bind_name = ''b'', bind_type = 2, bind_direction = BIND_IN, bind_value = Some [193, 2, 3], bind_maximum_bytes = 0,
          bind_charset_form = 0, bind_lob_content = 0\<rparr>]]\<rparr>"

lemma two_row_insert_encoded: "\<exists>m. EncodeTtcExecuteBindsRequest two_row_insert = Inr m"
  by (simp add: EncodeTtcExecuteBindsRequest_def ValidateBindsRequest_def bad_call_def two_row_insert_def MAX_EXECUTE_SQL_BYTES_def
    MAX_BUFFER_BYTES_def MAX_PREFETCH_ROWS_def MAX_EXECUTE_BINDS_def MAX_ITERATIONS_def ValidateBind_def IsVectorBind_def
    IsLocatorBind_def BindBufferSize_def IterationBufferSizes_def)

lemma execute_request_read_back_witness:
  "\<exists>m. EncodeTtcExecuteBindsRequest two_row_insert = Inr m \<and> read_oall8 8 (new_reader m) = Inr (binds_call two_row_insert, reader_at m [])"
proof -
  from two_row_insert_encoded obtain m where "EncodeTtcExecuteBindsRequest two_row_insert = Inr m" ..
  with execute_request_read_back[OF this] show ?thesis by (auto simp: two_row_insert_def)
qed

text \<open>
  C30. The buffer that the request declares for a bind holds that bind's value in every row of the
  batch, whenever the value is within the bind's own maximum.
\<close>

theorem declared_buffer_holds:
  assumes "EncodeTtcExecuteBindsRequest q = Inr m" "row \<in> set (ex_binds q # additional_iterations q)" "i < length (ex_binds q)"
    and "bind_value (row ! i) = Some v" "bind_type (row ! i) \<noteq> ORACLE_WIRE_TYPE_CURSOR"
    and "bind_maximum_bytes (row ! i) = 0 \<or> length v \<le> unat (bind_maximum_bytes (row ! i))"
  shows "length v \<le> unat (meta_size (sc_binds (binds_call q) ! i))"
proof -
  from assms(1) obtain sizes where ok: "ValidateBindsRequest q = Inr ()" "IterationBufferSizes q = Inr sizes"
    by (auto simp: EncodeTtcExecuteBindsRequest_def andthen_eq_Inr Let_def)
  note rows = valid_binds_request(6)[OF ok(1)]
  obtain n where n: "BindBufferSize (row ! i) = Inr n" "n \<le> sizes ! i" using buffer_covers_rows[OF ok(2) rows assms(2,3)] by blast
  have "row ! i \<in> set row" using rows assms(2,3) by (auto simp: usable_rows_def)
  then have valid: "ValidateBind (row ! i) = Inr ()" using rows assms(2) unfolding usable_rows_def by blast
  have "length v \<le> MAX_BUFFER_BYTES" using valid assms(4) by (auto simp: ValidateBind_def split: if_split_asm)
  then have "unat (of_nat (length v) :: u32) = length v" by (simp add: MAX_BUFFER_BYTES_def unat_of_nat take_bit_nat_eq_self)
  then have "length v \<le> unat n"
    using n(1) assms(4-6) valid
    by (auto simp: BindBufferSize_def ValidateBind_def VECTOR_BIND_BYTES_def LOCATOR_BIND_BYTES_def max_def word_le_nat_alt split: if_split_asm)
  also have "\<dots> \<le> unat (sizes ! i)" using n(2) by (simp add: word_le_nat_alt)
  also have "sizes ! i = meta_size (sc_binds (binds_call q) ! i)"
    using assms(3) ok(2) declared_sizes_length[OF ok(2) rows] by (simp add: binds_call_def declared_sizes_def metadata_of_def)
  finally show ?thesis .
qed

lemma declared_buffer_holds_witness: "3 \<le> unat (meta_size (sc_binds (binds_call two_row_insert) ! 1))"
proof -
  from two_row_insert_encoded obtain m where m: "EncodeTtcExecuteBindsRequest two_row_insert = Inr m" ..
  from declared_buffer_holds[OF m, of "hd (additional_iterations two_row_insert)" 1 "[193, 2, 3]"] show ?thesis
    by (simp add: two_row_insert_def)
qed

end
