(* ===== verification/Ttc_Define.thy ===== *)
theory Ttc_Define
  imports Ttc_Execute
begin

text \<open>
  \<^verbatim>\<open>src/ttc_define.cpp\<close>: executing a described cursor again with a define for every column, so that JSON
  and VECTOR values arrive with their rows.
\<close>

section \<open>Definitions\<close>

definition DEFINE_OPTIONS :: u32 where
  "DEFINE_OPTIONS = 0x8010"

definition INLINE_LOB_PREFIX_BYTES :: u32 where
  "INLINE_LOB_PREFIX_BYTES = 64 * 1024"

definition MAX_SHORT_LENGTH :: u32 where
  "MAX_SHORT_LENGTH = 32767"

definition MAX_LONG_LENGTH :: u32 where
  "MAX_LONG_LENGTH = 0x7fffffff"

definition RESPONSE_BUDGET_BYTES :: nat where
  "RESPONSE_BUDGET_BYTES = 12 * 2 ^ 20"

definition MAXIMUM_ROWS :: nat where
  "MAXIMUM_ROWS = 128"

definition TTC_FIELD_VERSION_INLINE_LOBS :: u8 where
  "TTC_FIELD_VERSION_INLINE_LOBS = 17"

definition IsInlinePrefixType :: "u16 \<Rightarrow> bool" where
  "IsInlinePrefixType t \<longleftrightarrow> t = 119 \<or> t = 127"

definition DefineSize :: "oracle_column \<Rightarrow> u32 result" where
  "DefineSize c =
     (let t = oracle_type c in
      if t = 1 \<or> t = 96 then
        (let sz = unat (byte_width c) * 4 in Inr (if sz > unat MAX_SHORT_LENGTH then MAX_LONG_LENGTH else of_nat sz))
      else if t = 2 then Inr 22
      else if t = 12 then Inr 7
      else if t = 23 then Inr (if byte_width c > MAX_SHORT_LENGTH then MAX_LONG_LENGTH else byte_width c)
      else if t = 100 \<or> t = 252 then Inr 4
      else if t = 101 then Inr 8
      else if t = 180 \<or> t = 231 then Inr 11
      else if t = 181 then Inr 13
      else if t = 182 then Inr 5
      else if t = 183 then Inr 11
      else if t = 112 \<or> t = 113 then Inr 112
      else if t = 119 \<or> t = 127 then Inr INLINE_LOB_PREFIX_BYTES
      else throw MALFORMED)"

definition HasKnownDefine :: "oracle_column \<Rightarrow> bool" where
  "HasKnownDefine c \<longleftrightarrow>
     (if oracle_type c \<in> {1, 96, 112} then character_set_form c = 1 \<or> character_set_form c = 2
      else oracle_type c \<in> {2, 12, 23, 100, 101, 180, 181, 182, 183, 231, 252, 113, 119, 127})"

definition SupportsInlineLobDefine :: "oracle_column list \<Rightarrow> u8 \<Rightarrow> bool" where
  "SupportsInlineLobDefine columns field_version \<longleftrightarrow>
     \<not> (field_version < TTC_FIELD_VERSION_INLINE_LOBS \<or> columns = [] \<or> length columns > 4096) \<and>
     list_all (\<lambda>c. \<not> omitted_from_row_data c \<and> HasKnownDefine c) columns \<and>
     list_ex (\<lambda>c. IsInlinePrefixType (oracle_type c)) columns"

definition inline_columns :: "oracle_column list \<Rightarrow> nat" where
  "inline_columns columns = length (filter (\<lambda>c. IsInlinePrefixType (oracle_type c)) columns)"

definition InlineLobRows :: "oracle_column list \<Rightarrow> nat \<Rightarrow> u32" where
  "InlineLobRows columns desired =
     (let by_budget = max 1 (RESPONSE_BUDGET_BYTES div (max (inline_columns columns) 1 * unat INLINE_LOB_PREFIX_BYTES))
      in of_nat (min desired (min by_budget MAXIMUM_ROWS)))"

definition WriteDefine :: "oracle_column \<Rightarrow> u32 \<Rightarrow> byte_writer \<Rightarrow> byte_writer" where
  "WriteDefine c define_size =
     (let lob_like = IsOracleLocatorType (oracle_type c);
          character = oracle_type c = 1 \<or> oracle_type c = 96 \<or> oracle_type c = 112
      in writes
       [WriteByte (ucast (oracle_type c)), WriteByte 1, WriteByte 0, WriteByte 0,
        WriteUB4 define_size, WriteUB4 0, WriteUB8 (if lob_like then LOB_PREFETCH_FLAG else 0),
        WriteUB4 0, WriteUB2 0, WriteUB2 (if character then 873 else 0), WriteByte (if character then character_set_form c else 0),
        WriteUB4 (if IsInlinePrefixType (oracle_type c) then INLINE_LOB_PREFIX_BYTES else 0), WriteUB4 0])"

definition EncodeInlineLobDefine :: "u8 \<Rightarrow> u32 \<Rightarrow> oracle_column list \<Rightarrow> u32 \<Rightarrow> bytes result" where
  "EncodeInlineLobDefine sequence cursor columns rows =
     (if sequence = 0 \<or> cursor = 0 \<or> rows = 0 \<or> \<not> SupportsInlineLobDefine columns TTC_FIELD_VERSION_INLINE_LOBS then throw MALFORMED
      else andthen (collect DefineSize columns) (\<lambda>sizes. Inr (writes
      ([WriteByte TTC_MESSAGE_FUNCTION, WriteByte TTC_FUNCTION_EXECUTE, WriteByte sequence,
        WriteUB4 DEFINE_OPTIONS, WriteUB4 cursor,
        WriteByte 0, WriteUB4 0, WriteByte 1, WriteUB4 13, WriteByte 0, WriteByte 0,
        WriteUB4 0, WriteUB4 rows, WriteUB4 MAX_LONG_LENGTH, WriteByte 0, WriteUB4 0] @
       map (\<lambda>i. WriteByte 0) [0..<5] @
       [WriteByte 1, WriteUB4 (of_nat (length columns)), WriteUB4 0,
        WriteByte 0, WriteByte 1, WriteByte 0, WriteUB4 0, WriteByte 0, WriteUB4 0, WriteUB4 0,
        WriteByte 0, WriteUB4 0, WriteByte 0,
        WriteByte 0, WriteUB4 0, WriteByte 0, WriteUB4 0, WriteByte 0,
        WriteByte 0, WriteUB4 0] @
       map (\<lambda>i. WriteUB4 (if i = 1 then rows else if i = 7 then 1 else 0)) [0..<13] @
       map (\<lambda>(c, n). WriteDefine c n) (zip columns sizes)) [])))"

section \<open>The request read back\<close>

text \<open>A define for every column the capability check lets through has a size.\<close>

lemma known_define_size: "HasKnownDefine c \<Longrightarrow> \<exists>n. DefineSize c = Inr n"
  by (auto simp: HasKnownDefine_def DefineSize_def Let_def split: if_split_asm)

lemma all_define_sizes: "list_all HasKnownDefine cs \<Longrightarrow> \<exists>ns. collect DefineSize cs = Inr ns \<and> length ns = length cs"
  by (induction cs) (auto dest!: known_define_size)

definition define_metadata :: "oracle_column \<Rightarrow> u32 \<Rightarrow> value_metadata" where
  "define_metadata c define_size = \<lparr>meta_type = ucast (oracle_type c), meta_size = define_size,
     meta_form = (if oracle_type c = 1 \<or> oracle_type c = 96 \<or> oracle_type c = 112 then character_set_form c else 0)\<rparr>"

lemma define_append: "WriteDefine c n w = w @ WriteDefine c n []"
  by (simp add: WriteDefine_def Let_def chain del: field_bytes.simps)

lemma define_read_back:
  assumes "v \<ge> 8"
  shows "parses (read_metadata v) (WriteDefine c n []) (define_metadata c n)"
proof -
  define fs where "fs = [Byte_field (ucast (oracle_type c)), Byte_field 1, Byte_field 0, Byte_field 0, UB4_field n, UB4_field 0,
    UB8_field (if IsOracleLocatorType (oracle_type c) then LOB_PREFETCH_FLAG else 0), UB4_field 0, UB2_field 0,
    UB2_field (if oracle_type c = 1 \<or> oracle_type c = 96 \<or> oracle_type c = 112 then 873 else 0), Byte_field (meta_form (define_metadata c n)),
    UB4_field (if IsInlinePrefixType (oracle_type c) then INLINE_LOB_PREFIX_BYTES else 0), UB4_field 0]"
  have "parses (read_fields (metadata_kinds v)) (WriteDefine c n []) fs"
    by (rule chain_read) (use assms in \<open>simp_all add: WriteDefine_def Let_def chain fs_def metadata_kinds_def define_metadata_def del: field_bytes.simps\<close>)
  then show ?thesis
    unfolding read_metadata_def by (rule parses_map_eq) (simp add: fs_def define_metadata_def)
qed

definition define_call :: "u8 \<Rightarrow> u32 \<Rightarrow> oracle_column list \<Rightarrow> u32 \<Rightarrow> server_call" where
  "define_call sequence cursor columns rows = \<lparr>sc_function = (3, 94), sc_sequence = sequence, sc_options = DEFINE_OPTIONS,
     sc_cursor = cursor, sc_sql = None, sc_rows = rows,
     sc_words = map (\<lambda>index. if index = 1 then rows else if index = 7 then 1 else 0) [0..<13], sc_binds = [],
     sc_defines = map2 define_metadata columns (case collect DefineSize columns of Inl _ \<Rightarrow> [] | Inr ns \<Rightarrow> ns), sc_values = []\<rparr>"

definition inline_define :: "u8 \<times> u32 \<times> oracle_column list \<times> u32 \<Rightarrow> bytes result" where
  "inline_define = (\<lambda>(sequence, cursor, columns, rows). EncodeInlineLobDefine sequence cursor columns rows)"

interpretation defines_request: oall8_request inline_define "\<lambda>_. TTC_FIELD_VERSION_INLINE_LOBS"
  "\<lambda>(sequence, cursor, columns, rows). define_call sequence cursor columns rows"
proof (unfold_locales, clarify)
  fix sequence cursor columns rows m assume enc: "inline_define (sequence, cursor, columns, rows) = Inr m"
  let ?words = "map (\<lambda>index. if index = 1 then rows else if index = 7 then 1 else 0 :: u32) [0..<13]"
  let ?v = TTC_FIELD_VERSION_INLINE_LOBS
  from enc have ok: "SupportsInlineLobDefine columns ?v" by (auto simp: inline_define_def EncodeInlineLobDefine_def split: if_split_asm)
  then have len: "length columns \<le> 4096" "columns \<noteq> []" and known: "list_all HasKnownDefine columns"
    by (auto simp: SupportsInlineLobDefine_def list_all_iff)
  from all_define_sizes[OF known] obtain ns where ns: "collect DefineSize columns = Inr ns" "length ns = length columns" by blast
  have puts: "writes (map (\<lambda>(c, n). WriteDefine c n) xs) w = w @ concat (map (\<lambda>(c, n). WriteDefine c n []) xs)" for xs w
    by (rule writes_map_append) (auto simp: define_append[symmetric])
  have m: "m = concat (map field_bytes (header_fields sequence DEFINE_OPTIONS cursor 0 0 0 rows MAX_LONG_LENGTH 0 0 1 (of_nat (length columns)) 1 ?v)) @ [] @
      concat (map (\<lambda>x. field_bytes (UB4_field x)) ?words) @ [] @ concat (map (\<lambda>(c, n). WriteDefine c n []) (zip columns ns)) @ []"
    using enc ns(1) unfolding inline_define_def EncodeInlineLobDefine_def
    by (simp add: chain words_append puts header_fields_def extension_fields_def TTC_FIELD_VERSION_INLINE_LOBS_def o_def
        upt_rec[of _ 5] del: field_bytes.simps split: if_split_asm)
  have define_list: "parses (repeatr (length columns) (read_metadata ?v)) (concat (map (\<lambda>(c, n). WriteDefine c n []) (zip columns ns)))
      (map2 define_metadata columns ns)"
    using parses_repeatr[of "zip columns ns" "read_metadata ?v" "\<lambda>(c, n). WriteDefine c n []" "\<lambda>(c, n). define_metadata c n"] ns(2)
      define_read_back[of ?v] by (auto simp: case_prod_unfold TTC_FIELD_VERSION_INLINE_LOBS_def)
  have "unat (of_nat (length columns) :: u32) = length columns" using len by (simp add: unat_of_nat take_bit_nat_eq_self)
  then show "parses (read_oall8 ?v) m (define_call sequence cursor columns rows)"
    unfolding m define_call_def using define_list ns(1) by (intro oall8_back) simp_all
qed

section \<open>Properties\<close>

text \<open>The bytes of prefixes a response of that many rows can hold.\<close>

definition prefix_bytes :: "oracle_column list \<Rightarrow> nat \<Rightarrow> nat" where
  "prefix_bytes columns rows = rows * inline_columns columns * unat INLINE_LOB_PREFIX_BYTES"

lemma InlineLobRows_unat: "unat (InlineLobRows columns desired) =
   min desired (min (max 1 (RESPONSE_BUDGET_BYTES div (max (inline_columns columns) 1 * unat INLINE_LOB_PREFIX_BYTES))) MAXIMUM_ROWS)"
proof -
  have "min a (min b MAXIMUM_ROWS) < 2 ^ 32" for a b by (simp add: MAXIMUM_ROWS_def min_def)
  then show ?thesis unfolding InlineLobRows_def Let_def
    by (subst unat_of_nat) (rule mod_less, simp)
qed

text \<open>
  The number of rows asked for is at least one when a row is wanted, no more than wanted and no more
  than 128, and for up to 192 JSON and VECTOR columns the prefixes of all these rows together stay inside the budget
  of 12 MiB.
\<close>

theorem inline_rows_bound:
  assumes "1 \<le> desired" "inline_columns columns \<le> 192"
  shows "1 \<le> unat (InlineLobRows columns desired) \<and> unat (InlineLobRows columns desired) \<le> desired \<and>
    unat (InlineLobRows columns desired) \<le> 128 \<and>
    prefix_bytes columns (unat (InlineLobRows columns desired)) \<le> RESPONSE_BUDGET_BYTES"
proof -
  define n where "n = max (inline_columns columns) 1 * unat INLINE_LOB_PREFIX_BYTES"
  have n: "0 < n" "n \<le> RESPONSE_BUDGET_BYTES"
    using assms(2) by (simp_all add: n_def INLINE_LOB_PREFIX_BYTES_def RESPONSE_BUDGET_BYTES_def)
  define r where "r = unat (InlineLobRows columns desired)"
  have r: "r = min desired (min (max 1 (RESPONSE_BUDGET_BYTES div n)) 128)"
    by (simp add: r_def n_def InlineLobRows_unat MAXIMUM_ROWS_def)
  have "1 \<le> RESPONSE_BUDGET_BYTES div n" using n div_le_mono[of n RESPONSE_BUDGET_BYTES n] by simp
  then have "r \<le> RESPONSE_BUDGET_BYTES div n" using r by simp
  then have "r * n \<le> RESPONSE_BUDGET_BYTES" by (metis div_times_less_eq_dividend le_trans mult_le_mono1)
  moreover have "prefix_bytes columns r \<le> r * n" by (simp add: prefix_bytes_def n_def)
  ultimately have "prefix_bytes columns r \<le> RESPONSE_BUDGET_BYTES" by (rule le_trans[rotated])
  then show ?thesis using r assms(1) unfolding r_def[symmetric] by simp
qed

definition json_column :: oracle_column where
  "json_column = OracleColumn\<lparr>oracle_type := 119\<rparr>"

lemma inline_rows_bound_witness: "prefix_bytes (replicate 3 json_column) (unat (InlineLobRows (replicate 3 json_column) 100)) \<le> RESPONSE_BUDGET_BYTES"
  using inline_rows_bound[of 100 "replicate 3 json_column"]
  by (simp add: inline_columns_def json_column_def OracleColumn_def IsInlinePrefixType_def)

text \<open>
  Beyond that the floor of one row wins over the budget: for 257 JSON columns, which the define supports, the prefixes of
  the one row exceed the 16 MiB a channel accepts as one message.
\<close>

lemma inline_row_over_message_bound:
  "SupportsInlineLobDefine (replicate 257 json_column) 17 \<and> InlineLobRows (replicate 257 json_column) 1 = 1 \<and>
   prefix_bytes (replicate 257 json_column) 1 > 16 * 2 ^ 20"
proof -
  have n: "inline_columns (replicate 257 json_column) = 257" "replicate 257 json_column \<noteq> []"
    by (simp_all add: inline_columns_def json_column_def OracleColumn_def IsInlinePrefixType_def)
  then have "InlineLobRows (replicate 257 json_column) 1 = 1"
    by (simp add: InlineLobRows_def MAXIMUM_ROWS_def)
  moreover have "SupportsInlineLobDefine (replicate 257 json_column) 17"
    using n(2) by (simp add: SupportsInlineLobDefine_def TTC_FIELD_VERSION_INLINE_LOBS_def list_all_iff list_ex_iff json_column_def OracleColumn_def
        HasKnownDefine_def IsInlinePrefixType_def)
  ultimately show ?thesis by (simp add: prefix_bytes_def n(1) INLINE_LOB_PREFIX_BYTES_def)
qed

end
