(* ===== verification/Utf_Text.thy ===== *)
theory Utf_Text
  imports Prelude
begin

text \<open>
  The text conversions of \<^verbatim>\<open>src/ttc_lob.cpp\<close>: the content of a CLOB arrives as UTF-16 and leaves as UTF-8,
  and text written to a national character column goes the other way.
\<close>

section \<open>UTF-16 to UTF-8\<close>

definition append_utf8 :: "u32 \<Rightarrow> bytes" where
  "append_utf8 code_point =
     (if code_point < 0x80 then [ucast code_point]
      else if code_point < 0x800 then
        [ucast (0xC0 OR drop_bit 6 code_point), ucast (0x80 OR (code_point AND 0x3F))]
      else if code_point < 0x10000 then
        [ucast (0xE0 OR drop_bit 12 code_point), ucast (0x80 OR (drop_bit 6 code_point AND 0x3F)),
         ucast (0x80 OR (code_point AND 0x3F))]
      else
        [ucast (0xF0 OR drop_bit 18 code_point), ucast (0x80 OR (drop_bit 12 code_point AND 0x3F)),
         ucast (0x80 OR (drop_bit 6 code_point AND 0x3F)), ucast (0x80 OR (code_point AND 0x3F))])"

definition unit_of :: "u8 \<Rightarrow> u8 \<Rightarrow> u32" where
  "unit_of high low = push_bit 8 (ucast high) OR ucast low"

fun utf16_loop :: "bytes \<Rightarrow> bytes result" where
  "utf16_loop (b0 # b1 # rest) =
     (let unit = unit_of b0 b1 in
      if 0xD800 \<le> unit \<and> unit \<le> 0xDBFF then
        (case rest of
           b2 # b3 # rest' \<Rightarrow>
             (let low = unit_of b2 b3 in
              if low < 0xDC00 \<or> low > 0xDFFF then throw MALFORMED
              else andthen (utf16_loop rest') (\<lambda>t.
                Inr (append_utf8 (0x10000 + push_bit 10 (unit - 0xD800) + (low - 0xDC00)) @ t)))
         | _ \<Rightarrow> throw MALFORMED)
      else if 0xDC00 \<le> unit \<and> unit \<le> 0xDFFF then throw MALFORMED
      else andthen (utf16_loop rest) (\<lambda>t. Inr (append_utf8 unit @ t)))"
| "utf16_loop _ = Inr []"

definition DecodeUtf16BeToUtf8 :: "bytes \<Rightarrow> bytes result" where
  "DecodeUtf16BeToUtf8 utf16 = (if length utf16 mod 2 \<noteq> 0 then throw MALFORMED else utf16_loop utf16)"

section \<open>UTF-8 to UTF-16\<close>

definition put_unit :: "u32 \<Rightarrow> bytes" where
  "put_unit unit = [ucast (drop_bit 8 unit), ucast (unit AND 0xFF)]"

definition put_code_point :: "u32 \<Rightarrow> bytes" where
  "put_code_point code_point =
     (if code_point \<ge> 0x10000 then
        (let offset = code_point - 0x10000
         in put_unit (0xD800 + drop_bit 10 offset) @ put_unit (0xDC00 + (offset AND 0x3FF)))
      else put_unit code_point)"

text \<open>What the first byte says: its bits, how many bytes follow, and the least code point of that length.\<close>

definition lead_of :: "u8 \<Rightarrow> (u32 \<times> nat \<times> u32) option" where
  "lead_of lead =
     (if lead < 0x80 then Some (ucast lead, 0, 0)
      else if 0xC2 \<le> lead \<and> lead \<le> 0xDF then Some (ucast (lead AND 0x1F), 1, 0x80)
      else if 0xE0 \<le> lead \<and> lead \<le> 0xEF then Some (ucast (lead AND 0x0F), 2, 0x800)
      else if 0xF0 \<le> lead \<and> lead \<le> 0xF4 then Some (ucast (lead AND 0x07), 3, 0x10000)
      else None)"

fun continue_point :: "u32 \<Rightarrow> bytes \<Rightarrow> u32 option" where
  "continue_point code_point [] = Some code_point"
| "continue_point code_point (b # bs) =
     (if b AND 0xC0 \<noteq> 0x80 then None else continue_point (push_bit 6 code_point OR ucast (b AND 0x3F)) bs)"

definition first_point :: "bytes \<Rightarrow> (u32 \<times> bytes) option" where
  "first_point bs =
     (case lead_of (hd bs) of
        None \<Rightarrow> None
      | Some (bits, extra, minimum) \<Rightarrow>
          if extra \<ge> length bs then None
          else case continue_point bits (take extra (tl bs)) of
              None \<Rightarrow> None
            | Some code_point \<Rightarrow>
                if code_point < minimum \<or> code_point > 0x10FFFF \<or> (code_point \<ge> 0xD800 \<and> code_point \<le> 0xDFFF) then None
                else Some (code_point, drop (extra + 1) bs))"

lemma first_point_shorter: "first_point bs = Some (c, rest) \<Longrightarrow> bs \<noteq> [] \<Longrightarrow> length rest < length bs"
  by (auto simp: first_point_def split: option.splits if_split_asm)

function utf8_loop :: "bytes \<Rightarrow> bytes result" where
  "utf8_loop bs =
     (if bs = [] then Inr []
      else case first_point bs of
          None \<Rightarrow> throw MALFORMED
        | Some (code_point, rest) \<Rightarrow> andthen (utf8_loop rest) (\<lambda>w. Inr (put_code_point code_point @ w)))"
  by pat_completeness auto
termination
  by (relation "measure length") (auto dest: first_point_shorter)

declare utf8_loop.simps [simp del]

definition EncodeUtf8ToUtf16Be :: "string \<Rightarrow> bytes result" where
  "EncodeUtf8ToUtf16Be utf8 = utf8_loop (to_bytes utf8)"

section \<open>Bytes and code points as numbers\<close>

definition scalar :: "u32 \<Rightarrow> bool" where
  "scalar c \<longleftrightarrow> c \<le> 0x10FFFF \<and> \<not> (0xD800 \<le> c \<and> c \<le> 0xDFFF)"

lemma scalar_unat: "scalar c \<longleftrightarrow> unat c \<le> 0x10FFFF \<and> \<not> (0xD800 \<le> unat c \<and> unat c \<le> 0xDFFF)"
  by (simp add: scalar_def word_le_nat_alt)

lemma low_bits: "unat ((x :: 'a::len word) AND mask n) = unat x mod 2 ^ n"
  by (simp only: take_bit_eq_mask[symmetric] unsigned_take_bit_eq) (simp only: take_bit_eq_mod)

lemma masks: "(0x3F :: 'a::len word) = mask 6" "(0x1F :: 'a word) = mask 5" "(0x0F :: 'a word) = mask 4" "(0x07 :: 'a word) = mask 3"
  "(0x3FF :: 'a word) = mask 10" "(0xFF :: 'a word) = mask 8"
  by (simp_all add: mask_eq_exp_minus_1)

lemma or_add: 
  assumes "y < 2 ^ n" "2 ^ n dvd x"
  shows "(x :: nat) OR y = x + y"
proof -
  obtain k where k: "x = push_bit n k" using assms(2) by (auto simp: push_bit_eq_mult mult.commute elim: dvdE)
  have y: "y = take_bit n y" using assms(1) by (simp add: take_bit_nat_eq_self)
  have "x AND y = 0" unfolding k by (subst y) (rule bit_eqI, simp add: bit_simps)
  then show ?thesis by (simp add: disjunctive_add_eq_or)
qed

lemma marker_or:
  assumes "unat (y :: u32) < 2 ^ n" "2 ^ n dvd h" "h + unat y < 256"
  shows "unat (ucast (of_nat h OR y) :: u8) = h + unat y"
proof -
  have "h < 2 ^ 32" using assms(3) by simp
  then have "unat (of_nat h OR y) = h OR unat y" by (simp only: unsigned_or_eq unat_of_nat) simp
  also have "\<dots> = h + unat y" by (rule or_add[OF assms(1,2)])
  finally show ?thesis using assms(3) by (simp only: unsigned_ucast_eq take_bit_eq_mod) simp
qed

lemma unat_ucast_small: "unat (x :: u32) < 256 \<Longrightarrow> unat (ucast x :: u8) = unat x"
  by (simp only: unsigned_ucast_eq take_bit_eq_mod) simp

lemma ucast_up: "unat (ucast (b :: u8) :: u32) = unat b"
  using unsigned_less[of b, where 'a = nat] by (simp only: unsigned_ucast_eq take_bit_eq_mod) simp

lemma unat_drop: "unat (drop_bit n (x :: 'a::len word)) = unat x div 2 ^ n"
  by (simp only: unat_drop_bit_eq) (simp only: drop_bit_eq_div)

lemma high_bits: "b AND 0xC0 = 0x80 \<longleftrightarrow> unat (b :: u8) div 64 = 2"
proof -
  obtain k :: u8 where k: "0xC0 = k" "\<And>n. bit k n \<longleftrightarrow> n < 8 \<and> 6 \<le> n"
  proof
    show "0xC0 = (NOT (mask 6) :: u8)" by (simp add: mask_eq_exp_minus_1)
  qed (auto simp: bit_simps)
  have "b AND 0xC0 = push_bit 6 (drop_bit 6 b)"
    unfolding k(1) by (rule bit_word_eqI) (auto simp: bit_simps k(2))
  moreover have "unat (push_bit 6 (drop_bit 6 b)) = unat b div 64 * 64"
    using unsigned_less[of b, where 'a = nat] by (subst unsigned_push_bit_eq) (simp only: unat_drop push_bit_eq_mult take_bit_eq_mod, auto)
  ultimately show ?thesis by (simp add: word_unat_eq_iff)
qed

lemma continued:
  assumes "unat (c :: u32) < 2 ^ 26"
  shows "unat (push_bit 6 c OR ucast (b AND 0x3F :: u8)) = unat c * 64 + unat b mod 64"
proof -
  have p: "unat (push_bit 6 c) = unat c * 64" using assms by (subst unsigned_push_bit_eq) (simp only: push_bit_eq_mult take_bit_eq_mod, simp)
  have "unat (ucast (b AND 0x3F) :: u32) = unat b mod 64" by (simp only: ucast_up masks low_bits) simp
  then show ?thesis unfolding unsigned_or_eq p using or_add[of "unat b mod 64" 6 "unat c * 64"] by simp
qed

lemma unit_of_unat: "unat (unit_of h l) = unat h * 256 + unat l"
proof -
  have "unat (push_bit 8 (ucast h :: u32)) = unat h * 256"
    using unsigned_less[of h, where 'a = nat] by (subst unsigned_push_bit_eq) (simp only: push_bit_eq_mult take_bit_eq_mod ucast_up, simp)
  then show ?thesis unfolding unit_of_def unsigned_or_eq
    using or_add[of "unat l" 8 "unat h * 256"] unsigned_less[of l, where 'a = nat] by (simp add: ucast_up)
qed

definition utf8_numbers :: "nat \<Rightarrow> nat list" where
  "utf8_numbers c =
     (if c < 0x80 then [c]
      else if c < 0x800 then [0xC0 + c div 64, 0x80 + c mod 64]
      else if c < 0x10000 then [0xE0 + c div 4096, 0x80 + c div 64 mod 64, 0x80 + c mod 64]
      else [0xF0 + c div 262144, 0x80 + c div 4096 mod 64, 0x80 + c div 64 mod 64, 0x80 + c mod 64])"

lemma low_six_bits: "unat (ucast (0x80 OR (x AND 0x3F) :: u32) :: u8) = 0x80 + unat x mod 64"
proof -
  have "unat (x AND 0x3F) = unat x mod 64" by (simp only: masks low_bits) simp
  with marker_or[of "x AND 0x3F" 6 "0x80"] show ?thesis by simp
qed

lemma append_utf8_numbers:
  assumes "scalar c"
  shows "map unat (append_utf8 c) = utf8_numbers (unat c)"
proof -
  have less: "c < 0x80 \<longleftrightarrow> unat c < 0x80" "c < 0x800 \<longleftrightarrow> unat c < 0x800" "c < 0x10000 \<longleftrightarrow> unat c < 0x10000"
    by (simp_all add: word_less_nat_alt)
  have c: "unat c \<le> 0x10FFFF" using assms by (simp add: scalar_unat)
  show ?thesis
    using c marker_or[of "drop_bit 6 c" 5 "0xC0"] marker_or[of "drop_bit 12 c" 4 "0xE0"] marker_or[of "drop_bit 18 c" 3 "0xF0"]
    unfolding append_utf8_def utf8_numbers_def less
    by (auto simp: low_six_bits unat_drop unat_ucast_small)
qed

lemma map_unat_inject: "map unat xs = map unat ys \<longleftrightarrow> xs = (ys :: 'a::len word list)"
  by (simp add: inj_map_eq_map[OF injI] word_unat_eq_iff)

lemma lead_numbers:
  "lead_of b = (if unat b < 128 then Some (ucast b, 0, 0)
     else if 194 \<le> unat b \<and> unat b \<le> 223 then Some (ucast (b AND 0x1F), 1, 0x80)
     else if 224 \<le> unat b \<and> unat b \<le> 239 then Some (ucast (b AND 0x0F), 2, 0x800)
     else if 240 \<le> unat b \<and> unat b \<le> 244 then Some (ucast (b AND 0x07), 3, 0x10000) else None)"
  by (simp add: lead_of_def word_le_nat_alt word_less_nat_alt)

lemma lead_bits: "unat (ucast (b AND 0x1F :: u8) :: u32) = unat b mod 32" "unat (ucast (b AND 0x0F :: u8) :: u32) = unat b mod 16"
  "unat (ucast (b AND 0x07 :: u8) :: u32) = unat b mod 8"
  by (simp_all only: ucast_up masks low_bits) simp_all

text \<open>The code point of a lead and its continuation bytes, as a number.\<close>

lemma continue_numbers:
  "(unat c + 1) * 64 ^ length bs \<le> 2 ^ 32 \<Longrightarrow> continue_point c bs = Some d \<longleftrightarrow>
     list_all (\<lambda>b. unat b div 64 = 2) bs \<and> unat d = foldl (\<lambda>n b. n * 64 + unat b mod 64) (unat c) bs"
proof (induction bs arbitrary: c)
  case Nil
  show ?case by (auto simp: word_unat_eq_iff)
next
  case (Cons b bs)
  let ?e = "push_bit 6 c OR ucast (b AND 0x3F) :: u32"
  have "(unat c + 1) * 64 \<le> (unat c + 1) * 64 ^ length (b # bs)" by (intro mult_le_mono2) simp
  then have "(unat c + 1) * 64 \<le> 2 ^ 32" using Cons.prems by (rule le_trans)
  then have "unat c < 2 ^ 26" by simp
  note e = continued[OF this, of b]
  have "unat ?e + 1 \<le> (unat c + 1) * 64" unfolding e by simp
  then have "(unat ?e + 1) * 64 ^ length bs \<le> (unat c + 1) * 64 * 64 ^ length bs" by (rule mult_le_mono1)
  also have "\<dots> = (unat c + 1) * 64 ^ length (b # bs)" by (simp only: list.size power_Suc add_0 Nat.add_0_right plus_1_eq_Suc add_Suc_right mult.assoc)
  also note Cons.prems
  finally have "(unat ?e + 1) * 64 ^ length bs \<le> 2 ^ 32" .
  from Cons.IH[OF this] show ?case by (simp add: high_bits e)
qed

lemma first_point_one: "unat b < 128 \<Longrightarrow> first_point (b # rest) = Some (ucast b, rest)"
  using ucast_up[of b] by (simp add: first_point_def lead_numbers word_less_nat_alt word_le_nat_alt)

lemma first_point_more:
  assumes lead: "lead_of b = Some (bits, extra, minimum)"
  shows "first_point (b # bs) = Some (c, rest) \<longleftrightarrow>
    (\<exists>tail. bs = tail @ rest \<and> length tail = extra \<and> continue_point bits tail = Some c \<and> scalar c \<and> minimum \<le> c)"
proof (cases "extra \<le> length bs")
  case True
  have "first_point (b # bs) = Some (c, rest) \<longleftrightarrow>
      continue_point bits (take extra bs) = Some c \<and> scalar c \<and> minimum \<le> c \<and> rest = drop extra bs"
  proof (cases "continue_point bits (take extra bs)")
    case None
    then show ?thesis using True by (simp add: first_point_def lead)
  next
    case (Some p)
    have "first_point (b # bs) = (if p < minimum \<or> p > 0x10FFFF \<or> (p \<ge> 0xD800 \<and> p \<le> 0xDFFF) then None else Some (p, drop extra bs))"
      using True Some by (simp add: first_point_def lead)
    also have "\<dots> = Some (c, rest) \<longleftrightarrow> p = c \<and> scalar c \<and> minimum \<le> c \<and> rest = drop extra bs"
      unfolding scalar_def not_less[symmetric] by auto
    finally show ?thesis using Some by simp
  qed
  also have "\<dots> \<longleftrightarrow> (\<exists>tail. bs = tail @ rest \<and> length tail = extra \<and> continue_point bits tail = Some c \<and> scalar c \<and> minimum \<le> c)"
  proof
    assume "continue_point bits (take extra bs) = Some c \<and> scalar c \<and> minimum \<le> c \<and> rest = drop extra bs"
    with True show "\<exists>tail. bs = tail @ rest \<and> length tail = extra \<and> continue_point bits tail = Some c \<and> scalar c \<and> minimum \<le> c"
      by (intro exI[of _ "take extra bs"]) simp
  next
    assume "\<exists>tail. bs = tail @ rest \<and> length tail = extra \<and> continue_point bits tail = Some c \<and> scalar c \<and> minimum \<le> c"
    then obtain tail where "bs = tail @ rest" "length tail = extra" "continue_point bits tail = Some c" "scalar c" "minimum \<le> c" by (elim exE conjE)
    then show "continue_point bits (take extra bs) = Some c \<and> scalar c \<and> minimum \<le> c \<and> rest = drop extra bs" by simp
  qed
  finally show ?thesis .
next
  case False
  then show ?thesis by (auto simp: first_point_def lead)
qed

lemma tails: "length tail = 1 \<longleftrightarrow> (\<exists>a. tail = [a])" "length tail = 2 \<longleftrightarrow> (\<exists>a b. tail = [a, b])" "length tail = 3 \<longleftrightarrow> (\<exists>a b d. tail = [a, b, d])"
  by (auto simp: length_Suc_conv numeral_eq_Suc)

lemma u8_bound: "unat (b :: u8) < 256"
  using unsigned_less[of b, where 'a = nat] by simp

lemma first_point_two:
  assumes "194 \<le> unat b" "unat b \<le> 223"
  shows "first_point (b # bs) = Some (c, rest) \<longleftrightarrow>
    (\<exists>b1. bs = b1 # rest \<and> unat b1 div 64 = 2 \<and> unat c = unat b mod 32 * 64 + unat b1 mod 64 \<and> scalar c)"
proof -
  have lead: "lead_of b = Some (ucast (b AND 0x1F), 1, 0x80)" using assms by (simp add: lead_numbers)
  have "2 \<le> unat b mod 32" using assms by presburger
  then have "0x80 \<le> c" if "unat c = unat b mod 32 * 64 + y" for y
    using that by (simp add: word_le_nat_alt)
  then show ?thesis
    unfolding first_point_more[OF lead] tails
    by (auto simp add: continue_numbers lead_bits simp del: continue_point.simps(2))
qed

lemma first_point_three:
  assumes "224 \<le> unat b" "unat b \<le> 239"
  shows "first_point (b # bs) = Some (c, rest) \<longleftrightarrow>
    (\<exists>b1 b2. bs = b1 # b2 # rest \<and> unat b1 div 64 = 2 \<and> unat b2 div 64 = 2 \<and>
       unat c = (unat b mod 16 * 64 + unat b1 mod 64) * 64 + unat b2 mod 64 \<and> scalar c \<and> 0x800 \<le> unat c)"
proof -
  have lead: "lead_of b = Some (ucast (b AND 0x0F), 2, 0x800)" using assms by (simp add: lead_numbers)
  have small: "unat (ucast (b AND 0x0F) :: u32) < 16" by (simp add: lead_bits)
  have "continue_point (ucast (b AND 0x0F)) [b1, b2] = Some d \<longleftrightarrow>
    unat b1 div 64 = 2 \<and> unat b2 div 64 = 2 \<and> unat d = (unat b mod 16 * 64 + unat b1 mod 64) * 64 + unat b2 mod 64" for b1 b2 d
    using small by (subst continue_numbers) (auto simp: lead_bits)
  then show ?thesis
    unfolding first_point_more[OF lead] tails
    by (auto simp add: word_le_nat_alt simp del: continue_point.simps(2))
qed

lemma first_point_four:
  assumes "240 \<le> unat b" "unat b \<le> 244"
  shows "first_point (b # bs) = Some (c, rest) \<longleftrightarrow>
    (\<exists>b1 b2 b3. bs = b1 # b2 # b3 # rest \<and> unat b1 div 64 = 2 \<and> unat b2 div 64 = 2 \<and> unat b3 div 64 = 2 \<and>
       unat c = ((unat b mod 8 * 64 + unat b1 mod 64) * 64 + unat b2 mod 64) * 64 + unat b3 mod 64 \<and> scalar c \<and> 0x10000 \<le> unat c)"
proof -
  have lead: "lead_of b = Some (ucast (b AND 0x07), 3, 0x10000)" using assms by (simp add: lead_numbers)
  have small: "unat (ucast (b AND 0x07) :: u32) < 8" by (simp add: lead_bits)
  have "continue_point (ucast (b AND 0x07)) [b1, b2, b3] = Some d \<longleftrightarrow>
    unat b1 div 64 = 2 \<and> unat b2 div 64 = 2 \<and> unat b3 div 64 = 2 \<and>
    unat d = ((unat b mod 8 * 64 + unat b1 mod 64) * 64 + unat b2 mod 64) * 64 + unat b3 mod 64" for b1 b2 b3 d
    using small by (subst continue_numbers) (auto simp: lead_bits)
  then show ?thesis
    unfolding first_point_more[OF lead] tails
    by (auto simp add: word_le_nat_alt simp del: continue_point.simps(2))
qed

text \<open>The reader of one code point is the inverse of its writer.\<close>

lemma byte_parts:
  "x < 32 \<Longrightarrow> (192 + x) mod 32 = (x :: nat)" "x < 16 \<Longrightarrow> (224 + x) mod 16 = (x :: nat)" "x < 8 \<Longrightarrow> (240 + x) mod 8 = (x :: nat)"
  "y < 64 \<Longrightarrow> (128 + y) mod 64 = (y :: nat)" "y < 64 \<Longrightarrow> (128 + y) div 64 = 2"
proof -
  have m: "k dvd h \<Longrightarrow> x < k \<Longrightarrow> (h + x) mod k = x" for h k x :: nat
    by (rule mod_nat_eqI) simp_all
  show "x < 32 \<Longrightarrow> (192 + x) mod 32 = x" by (rule m[rotated]) simp_all
  show "x < 16 \<Longrightarrow> (224 + x) mod 16 = x" by (rule m[rotated]) simp_all
  show "x < 8 \<Longrightarrow> (240 + x) mod 8 = x" by (rule m[rotated]) simp_all
  show "y < 64 \<Longrightarrow> (128 + y) mod 64 = y" by (rule m[rotated]) simp_all
  show "y < 64 \<Longrightarrow> (128 + y) div 64 = 2" by (rule div_nat_eqI) simp_all
qed

lemma digits_64:
  fixes n :: nat
  shows "n div 64 * 64 + n mod 64 = n" "(n div 4096 * 64 + n div 64 mod 64) * 64 + n mod 64 = n"
    "((n div 262144 * 64 + n div 4096 mod 64) * 64 + n div 64 mod 64) * 64 + n mod 64 = n"
proof -
  have d: "n div 4096 = n div 64 div 64" "n div 262144 = n div 64 div 64 div 64" using div_mult2_eq[of n 64 64] div_mult2_eq[of n 4096 64] by simp_all
  show "n div 64 * 64 + n mod 64 = n" "(n div 4096 * 64 + n div 64 mod 64) * 64 + n mod 64 = n"
    "((n div 262144 * 64 + n div 4096 mod 64) * 64 + n div 64 mod 64) * 64 + n mod 64 = n"
    unfolding d by (simp_all only: div_mult_mod_eq)
qed

lemma map_lists:
  "map f xs = [x1, x2] \<longleftrightarrow> (\<exists>a b. xs = [a, b] \<and> f a = x1 \<and> f b = x2)"
  "map f xs = [x1, x2, x3] \<longleftrightarrow> (\<exists>a b c. xs = [a, b, c] \<and> f a = x1 \<and> f b = x2 \<and> f c = x3)"
  "map f xs = [x1, x2, x3, x4] \<longleftrightarrow> (\<exists>a b c d. xs = [a, b, c, d] \<and> f a = x1 \<and> f b = x2 \<and> f c = x3 \<and> f d = x4)"
  by (auto simp: map_eq_Cons_conv)

lemma first_point_append:
  assumes "scalar c"
  shows "first_point (append_utf8 c @ rest) = Some (c, rest)"
proof -
  define n where "n = unat c"
  have n: "n \<le> 0x10FFFF" using assms by (simp add: scalar_unat n_def)
  note numbers = append_utf8_numbers[OF assms, folded n_def]
  consider "n < 0x80" | "0x80 \<le> n" "n < 0x800" | "0x800 \<le> n" "n < 0x10000" | "0x10000 \<le> n" by linarith
  then show ?thesis
  proof cases
    case 1
    with numbers obtain b where b: "append_utf8 c = [b]" "unat b = n" by (auto simp: utf8_numbers_def)
    then have "ucast b = c" using ucast_up[of b] by (simp add: word_unat_eq_iff n_def)
    with b 1 first_point_one[of b rest] show ?thesis by simp
  next
    case 2
    have "utf8_numbers n = [192 + n div 64, 128 + n mod 64]" using 2 by (simp add: utf8_numbers_def)
    from numbers[unfolded this] obtain b b1 where b: "append_utf8 c = [b, b1]" and u: "unat b = 192 + n div 64" "unat b1 = 128 + n mod 64"
      by (auto simp only: map_lists(1))
    have x: "2 \<le> n div 64" using 2 div_le_mono[of 128 n 64] by simp
    have "n div 64 < 32" by (rule less_mult_imp_div_less) (use 2 in simp)
    note x = x this
    from this(2) have p: "unat b mod 32 = n div 64" "unat b1 mod 64 = n mod 64" "unat b1 div 64 = 2" unfolding u by (simp_all only: byte_parts mod_less_divisor zero_less_numeral)
    moreover have "194 \<le> unat b" "unat b \<le> 223" using x u(1) by linarith+
    moreover have "unat c = unat b mod 32 * 64 + unat b1 mod 64"
      unfolding p n_def[symmetric] by (rule digits_64(1)[symmetric])
    ultimately show ?thesis unfolding b append_Cons append_Nil using assms p
      by (intro iffD2[OF first_point_two] exI conjI) (assumption | rule refl)+
  next
    case 3
    have "utf8_numbers n = [224 + n div 4096, 128 + n div 64 mod 64, 128 + n mod 64]" using 3 by (simp add: utf8_numbers_def)
    from numbers[unfolded this] obtain b b1 b2 where b: "append_utf8 c = [b, b1, b2]" and
      u: "unat b = 224 + n div 4096" "unat b1 = 128 + n div 64 mod 64" "unat b2 = 128 + n mod 64"
      by (auto simp only: map_lists(2))
    have x: "n div 4096 < 16" by (rule less_mult_imp_div_less) (use 3 in simp)
    then have p: "unat b mod 16 = n div 4096" "unat b1 mod 64 = n div 64 mod 64" "unat b1 div 64 = 2" "unat b2 mod 64 = n mod 64" "unat b2 div 64 = 2"
      unfolding u by (simp_all only: byte_parts mod_less_divisor zero_less_numeral)
    moreover have "224 \<le> unat b" "unat b \<le> 239" using x u(1) by linarith+
    moreover have "unat c = (unat b mod 16 * 64 + unat b1 mod 64) * 64 + unat b2 mod 64"
      unfolding p n_def[symmetric] by (rule digits_64(2)[symmetric])
    ultimately show ?thesis unfolding b append_Cons append_Nil using assms p 3(1)[unfolded n_def]
      by (intro iffD2[OF first_point_three] exI conjI) (assumption | rule refl)+
  next
    case 4
    have "utf8_numbers n = [240 + n div 262144, 128 + n div 4096 mod 64, 128 + n div 64 mod 64, 128 + n mod 64]" using 4 by (simp add: utf8_numbers_def)
    from numbers[unfolded this] obtain b b1 b2 b3 where b: "append_utf8 c = [b, b1, b2, b3]" and
      u: "unat b = 240 + n div 262144" "unat b1 = 128 + n div 4096 mod 64" "unat b2 = 128 + n div 64 mod 64" "unat b3 = 128 + n mod 64"
      by (auto simp only: map_lists(3))
    have "n div 262144 < 5" by (rule less_mult_imp_div_less) (use n in simp)
    then have x: "n div 262144 \<le> 4" and "n div 262144 < 8" by linarith+
    then have p: "unat b mod 8 = n div 262144" "unat b1 mod 64 = n div 4096 mod 64" "unat b1 div 64 = 2" "unat b2 mod 64 = n div 64 mod 64" "unat b2 div 64 = 2"
      "unat b3 mod 64 = n mod 64" "unat b3 div 64 = 2"
      unfolding u by (simp_all only: byte_parts mod_less_divisor zero_less_numeral)
    moreover have "240 \<le> unat b" "unat b \<le> 244" using x u(1) by linarith+
    moreover have "unat c = ((unat b mod 8 * 64 + unat b1 mod 64) * 64 + unat b2 mod 64) * 64 + unat b3 mod 64"
      unfolding p n_def[symmetric] by (rule digits_64(3)[symmetric])
    ultimately show ?thesis unfolding b append_Cons append_Nil using assms p 4[unfolded n_def]
      by (intro iffD2[OF first_point_four] exI conjI) (assumption | rule refl)+
  qed
qed

lemma made_of_digits:
  fixes m y :: nat
  assumes "y < 64"
  shows "(m * 64 + y) div 64 = m" "(m * 64 + y) mod 64 = y" "(m * 64 + y) div 4096 = m div 64" "(m * 64 + y) div 262144 = m div 4096"
proof -
  show d: "(m * 64 + y) div 64 = m" by (rule div_nat_eqI) (use assms in simp_all)
  show "(m * 64 + y) mod 64 = y" by (rule mod_nat_eqI) (use assms in simp_all)
  show "(m * 64 + y) div 4096 = m div 64" "(m * 64 + y) div 262144 = m div 4096"
    using div_mult2_eq[of "m * 64 + y" 64 64] div_mult2_eq[of "m * 64 + y" 64 4096] d by simp_all
qed

lemma digits_back:
  fixes x y z w :: nat
  assumes "y < 64" "z < 64"
  shows "((x * 64 + y) * 64 + z) div 4096 = x" "((x * 64 + y) * 64 + z) div 64 mod 64 = y" "((x * 64 + y) * 64 + z) mod 64 = z"
    "w < 64 \<Longrightarrow> (((x * 64 + y) * 64 + z) * 64 + w) div 262144 = x" "w < 64 \<Longrightarrow> (((x * 64 + y) * 64 + z) * 64 + w) div 4096 mod 64 = y"
    "w < 64 \<Longrightarrow> (((x * 64 + y) * 64 + z) * 64 + w) div 64 mod 64 = z" "w < 64 \<Longrightarrow> (((x * 64 + y) * 64 + z) * 64 + w) mod 64 = w"
  by (simp_all only: made_of_digits assms)

lemma continuation_byte: "unat b div 64 = 2 \<Longrightarrow> unat (b :: u8) = 128 + unat b mod 64 \<and> unat b mod 64 < 64"
  using div_mult_mod_eq[of "unat b" 64] by simp

lemma lead_byte:
  assumes "h \<le> unat (b :: u8)" "unat b < h + k" "k dvd h"
  shows "unat b = h + unat b mod k"
proof -
  have "unat b mod k = unat b - h" by (rule mod_nat_eqI) (use assms in auto)
  with assms(1) show ?thesis by simp
qed

lemma first_point_inverse:
  assumes "first_point (b # bs) = Some (c, rest)"
  shows "scalar c \<and> b # bs = append_utf8 c @ rest"
proof -
  have step: "b # bs = append_utf8 c @ rest" if "scalar c" "bs = tail @ rest" "map unat (b # tail) = utf8_numbers (unat c)" for tail
    using that append_utf8_numbers[OF that(1)] map_unat_inject[of "b # tail" "append_utf8 c"] by simp
  have "lead_of b \<noteq> None" using assms by (cases "lead_of b") (simp_all add: first_point_def)
  then consider "unat b < 128" | "194 \<le> unat b" "unat b \<le> 223" | "224 \<le> unat b" "unat b \<le> 239" | "240 \<le> unat b" "unat b \<le> 244"
    by (auto simp: lead_numbers split: if_split_asm)
  then show ?thesis
  proof cases
    case 1
    with assms first_point_one[of b bs] have c: "c = ucast b" "rest = bs" by auto
    then have u: "unat c = unat b" by (simp add: ucast_up)
    then have "scalar c" using 1 by (simp add: scalar_unat)
    with step[of "[]"] c(2) 1 u show ?thesis by (simp add: utf8_numbers_def)
  next
    case 2
    then obtain b1 where b: "bs = b1 # rest" "unat b1 div 64 = 2" "unat c = unat b mod 32 * 64 + unat b1 mod 64" "scalar c"
      using assms by (auto simp: first_point_two)
    note y = continuation_byte[OF b(2)]
    have x: "unat b = 192 + unat b mod 32" by (rule lead_byte) (use 2 in simp_all)
    have "unat b mod 32 < 32" "2 \<le> unat b mod 32" using 2 x by simp_all
    then have "utf8_numbers (unat c) = [192 + unat b mod 32, 128 + unat b1 mod 64]"
      using y made_of_digits(1,2)[of "unat b1 mod 64" "unat b mod 32"] unfolding b(3) utf8_numbers_def by simp
    with x y step[of "[b1]"] b(1,4) show ?thesis by simp
  next
    case 3
    then obtain b1 b2 where b: "bs = b1 # b2 # rest" "unat b1 div 64 = 2" "unat b2 div 64 = 2"
      "unat c = (unat b mod 16 * 64 + unat b1 mod 64) * 64 + unat b2 mod 64" "scalar c" "0x800 \<le> unat c"
      using assms by (auto simp: first_point_three)
    note y = continuation_byte[OF b(2)] continuation_byte[OF b(3)]
    have x: "unat b = 224 + unat b mod 16" by (rule lead_byte) (use 3 in simp_all)
    have "(x * 64 + y) * 64 + z < 0x10000" if "x < 16" "y < 64" "z < 64" for x y z :: nat using that by simp
    from this[OF mod_less_divisor[OF zero_less_numeral] conjunct2[OF y(1)] conjunct2[OF y(2)]] have "unat c < 0x10000" unfolding b(4) .
    then have "utf8_numbers (unat c) = [224 + unat b mod 16, 128 + unat b1 mod 64, 128 + unat b2 mod 64]"
      using b(6) unfolding utf8_numbers_def b(4) digits_back(1-3)[OF conjunct2[OF y(1)] conjunct2[OF y(2)]] by simp
    with x y step[of "[b1, b2]"] b(1,5) show ?thesis by simp
  next
    case 4
    then obtain b1 b2 b3 where b: "bs = b1 # b2 # b3 # rest" "unat b1 div 64 = 2" "unat b2 div 64 = 2" "unat b3 div 64 = 2"
      "unat c = ((unat b mod 8 * 64 + unat b1 mod 64) * 64 + unat b2 mod 64) * 64 + unat b3 mod 64" "scalar c" "0x10000 \<le> unat c"
      using assms by (auto simp: first_point_four)
    note y = continuation_byte[OF b(2)] continuation_byte[OF b(3)] continuation_byte[OF b(4)]
    have x: "unat b = 240 + unat b mod 8" by (rule lead_byte) (use 4 in simp_all)
    have "utf8_numbers (unat c) = [240 + unat b mod 8, 128 + unat b1 mod 64, 128 + unat b2 mod 64, 128 + unat b3 mod 64]"
      using b(7) unfolding utf8_numbers_def b(5) digits_back(4-7)[OF conjunct2[OF y(1)] conjunct2[OF y(2)] conjunct2[OF y(3)]] by simp
    with x y step[of "[b1, b2, b3]"] b(1,6) show ?thesis by simp
  qed
qed

section \<open>Units\<close>

lemma unit_range: "unat (unit_of h l) < 65536"
  unfolding unit_of_unat using u8_bound[of h] u8_bound[of l] by linarith

lemma put_unit_of: "put_unit (unit_of h l) = [h, l]"
proof -
  have "unat (drop_bit 8 (unit_of h l)) = unat h" unfolding unat_drop unit_of_unat
    by (rule div_nat_eqI) (use u8_bound[of l] in simp_all)
  moreover have "unat (unit_of h l AND 0xFF) = unat l" unfolding masks low_bits unit_of_unat
    by (rule mod_nat_eqI) (use u8_bound[of l] in simp_all)
  ultimately show ?thesis using u8_bound[of h] u8_bound[of l]
    by (simp add: put_unit_def word_unat_eq_iff unat_ucast_small)
qed

lemma unit_put:
  assumes "unat u < 65536"
  obtains h l where "put_unit u = [h, l]" "unit_of h l = u"
proof -
  have d: "unat (drop_bit 8 u) = unat u div 256" "unat (u AND 0xFF) = unat u mod 256"
    by (simp_all only: unat_drop masks low_bits) simp_all
  have "unat u div 256 < 256" by (rule less_mult_imp_div_less) (use assms in simp)
  then have "unat (unit_of (ucast (drop_bit 8 u)) (ucast (u AND 0xFF))) = unat u"
    unfolding unit_of_unat using d by (simp add: unat_ucast_small)
  then show ?thesis using that unfolding put_unit_def by (simp add: word_unat_eq_iff)
qed

text \<open>The two halves of a code point beyond the first plane.\<close>

definition high_half :: "u32 \<Rightarrow> u32" where
  "high_half c = 0xD800 + drop_bit 10 (c - 0x10000)"

definition low_half :: "u32 \<Rightarrow> u32" where
  "low_half c = 0xDC00 + ((c - 0x10000) AND 0x3FF)"

definition joined :: "u32 \<Rightarrow> u32 \<Rightarrow> u32" where
  "joined high low = 0x10000 + push_bit 10 (high - 0xD800) + (low - 0xDC00)"

lemma unat_plus: "unat (a :: u32) + unat b < 2 ^ 32 \<Longrightarrow> unat (a + b) = unat a + unat b"
  by (simp add: unat_add_lem[symmetric])

lemma unat_minus: "unat (b :: u32) \<le> unat a \<Longrightarrow> unat (a - b) = unat a - unat b"
  by (simp add: unat_sub word_le_nat_alt)

lemma half_numbers:
  assumes "0x10000 \<le> unat c" "unat c \<le> 0x10FFFF"
  shows "unat (high_half c) = 0xD800 + (unat c - 0x10000) div 1024" "unat (low_half c) = 0xDC00 + (unat c - 0x10000) mod 1024"
    "(unat c - 0x10000) div 1024 < 1024"
proof -
  have o: "unat (c - 0x10000) = unat c - 0x10000" using assms by (subst unat_minus) simp_all
  show d: "(unat c - 0x10000) div 1024 < 1024" by (rule less_mult_imp_div_less) (use assms in simp)
  have "unat (drop_bit 10 (c - 0x10000)) = (unat c - 0x10000) div 1024" unfolding unat_drop o by simp
  then show "unat (high_half c) = 0xD800 + (unat c - 0x10000) div 1024"
    unfolding high_half_def using d by (subst unat_plus) simp_all
  have "unat ((c - 0x10000) AND 0x3FF) = (unat c - 0x10000) mod 1024" unfolding masks low_bits o by simp
  then show "unat (low_half c) = 0xDC00 + (unat c - 0x10000) mod 1024"
    unfolding low_half_def by (subst unat_plus) simp_all
qed

lemma joined_number:
  assumes "0xD800 \<le> unat h" "unat h \<le> 0xDBFF" "0xDC00 \<le> unat l" "unat l \<le> 0xDFFF"
  shows "unat (joined h l) = 0x10000 + (unat h - 0xD800) * 1024 + (unat l - 0xDC00)"
proof -
  have s: "unat (h - 0xD800) = unat h - 0xD800" "unat (l - 0xDC00) = unat l - 0xDC00"
    using assms by (simp_all add: unat_minus)
  have "unat (push_bit 10 (h - 0xD800)) = (unat h - 0xD800) * 1024"
    using assms(2) s(1) by (subst unsigned_push_bit_eq) (simp only: push_bit_eq_mult take_bit_eq_mod, simp)
  then show ?thesis unfolding joined_def using s assms by (simp add: unat_plus)
qed

lemma join_halves:
  assumes "0x10000 \<le> unat c" "unat c \<le> 0x10FFFF"
  shows "joined (high_half c) (low_half c) = c"
    "0xD800 \<le> unat (high_half c)" "unat (high_half c) \<le> 0xDBFF" "0xDC00 \<le> unat (low_half c)" "unat (low_half c) \<le> 0xDFFF"
proof -
  note h = half_numbers[OF assms]
  have m: "(unat c - 0x10000) mod 1024 < 1024" by simp
  show r: "0xD800 \<le> unat (high_half c)" "unat (high_half c) \<le> 0xDBFF" "0xDC00 \<le> unat (low_half c)" "unat (low_half c) \<le> 0xDFFF"
    using h(3) m unfolding h(1,2) by linarith+
  have "unat (joined (high_half c) (low_half c)) = 0x10000 + ((unat c - 0x10000) div 1024 * 1024 + (unat c - 0x10000) mod 1024)"
    unfolding joined_number[OF r] h(1,2) by simp
  also have "\<dots> = unat c" unfolding div_mult_mod_eq using assms(1) by simp
  finally show "joined (high_half c) (low_half c) = c" by (simp add: word_unat_eq_iff)
qed

lemma split_joined:
  assumes "0xD800 \<le> unat h" "unat h \<le> 0xDBFF" "0xDC00 \<le> unat l" "unat l \<le> 0xDFFF"
  shows "scalar (joined h l)" "0x10000 \<le> unat (joined h l)" "high_half (joined h l) = h" "low_half (joined h l) = l"
proof -
  obtain x y where x: "unat h = 0xD800 + x" "x < 1024" and y: "unat l = 0xDC00 + y" "y < 1024"
  proof (rule that)
    show "unat h = 0xD800 + (unat h - 0xD800)" "unat h - 0xD800 < 1024" "unat l = 0xDC00 + (unat l - 0xDC00)" "unat l - 0xDC00 < 1024"
      using assms by linarith+
  qed
  have j: "unat (joined h l) = 0x10000 + (x * 1024 + y)" unfolding joined_number[OF assms] x y by simp
  have b: "0x10000 \<le> unat (joined h l)" "unat (joined h l) \<le> 0x10FFFF" using x(2) y(2) unfolding j by linarith+
  then show "scalar (joined h l)" "0x10000 \<le> unat (joined h l)" by (simp_all add: scalar_unat)
  have "(x * 1024 + y) div 1024 = x" "(x * 1024 + y) mod 1024 = y"
    using y(2) by (auto intro!: div_nat_eqI mod_nat_eqI)
  then show "high_half (joined h l) = h" "low_half (joined h l) = l"
    using half_numbers(1,2)[OF b] unfolding j by (simp_all add: word_unat_eq_iff x(1) y(1))
qed

lemma put_code_point_alt:
  "put_code_point c = (if 0x10000 \<le> unat c then put_unit (high_half c) @ put_unit (low_half c) else put_unit c)"
  by (simp add: put_code_point_def high_half_def low_half_def word_le_nat_alt Let_def)

lemma utf16_unfold:
  "utf16_loop (b0 # b1 # rest) =
     (let unit = unit_of b0 b1 in
      if 0xD800 \<le> unat unit \<and> unat unit \<le> 0xDBFF then
        (case rest of
           b2 # b3 # rest' \<Rightarrow>
             if unat (unit_of b2 b3) < 0xDC00 \<or> unat (unit_of b2 b3) > 0xDFFF then throw MALFORMED
             else andthen (utf16_loop rest') (\<lambda>t. Inr (append_utf8 (joined unit (unit_of b2 b3)) @ t))
         | _ \<Rightarrow> throw MALFORMED)
      else if 0xDC00 \<le> unat unit \<and> unat unit \<le> 0xDFFF then throw MALFORMED
      else andthen (utf16_loop rest) (\<lambda>t. Inr (append_utf8 unit @ t)))"
  by (simp add: joined_def word_le_nat_alt word_less_nat_alt Let_def split: list.split)

lemma utf16_loop_put:
  assumes "scalar c"
  shows "utf16_loop (put_code_point c @ rest) = andthen (utf16_loop rest) (\<lambda>t. Inr (append_utf8 c @ t))"
proof (cases "0x10000 \<le> unat c")
  case True
  have c: "unat c \<le> 0x10FFFF" using assms by (simp add: scalar_unat)
  note j = join_halves[OF True c]
  obtain h l where h: "put_unit (high_half c) = [h, l]" "unit_of h l = high_half c" using j(3) by (auto intro: unit_put[of "high_half c"])
  obtain h' l' where l: "put_unit (low_half c) = [h', l']" "unit_of h' l' = low_half c" using j(5) by (auto intro: unit_put[of "low_half c"])
  have bytes: "put_code_point c @ rest = h # l # h' # l' # rest" using True h(1) l(1) by (simp add: put_code_point_alt)
  show ?thesis unfolding bytes utf16_unfold Let_def h(2) l(2) list.case j(1)
    using j(2-5) by (simp add: not_less)
next
  case False
  obtain h l where h: "put_unit c = [h, l]" "unit_of h l = c" using False by (auto intro: unit_put[of c])
  have bytes: "put_code_point c @ rest = h # l # rest" using False h(1) by (simp add: put_code_point_alt)
  show ?thesis unfolding bytes utf16_unfold Let_def h(2)
    using assms by (auto simp: scalar_unat)
qed

lemma utf16_loop_first:
  assumes "utf16_loop (b0 # b1 # rest) = Inr t"
  obtains c rest' t' where "scalar c" "b0 # b1 # rest = put_code_point c @ rest'" "utf16_loop rest' = Inr t'" "t = append_utf8 c @ t'"
    "length rest' mod 2 = length rest mod 2"
proof (cases "0xD800 \<le> unat (unit_of b0 b1) \<and> unat (unit_of b0 b1) \<le> 0xDBFF")
  case True
  then obtain b2 b3 rest' t' where r: "rest = b2 # b3 # rest'" "0xDC00 \<le> unat (unit_of b2 b3)" "unat (unit_of b2 b3) \<le> 0xDFFF"
    "utf16_loop rest' = Inr t'" "t = append_utf8 (joined (unit_of b0 b1) (unit_of b2 b3)) @ t'"
    using assms unfolding utf16_unfold by (auto simp: Let_def andthen_eq_Inr split: list.splits if_split_asm)
  note s = split_joined[OF conjunct1[OF True] conjunct2[OF True] r(2,3)]
  show ?thesis
    by (rule that[OF s(1) _ r(4,5)]) (use s in \<open>simp_all add: put_code_point_alt put_unit_of r(1)\<close>)
next
  case False
  then obtain t' where r: "\<not> (0xDC00 \<le> unat (unit_of b0 b1) \<and> unat (unit_of b0 b1) \<le> 0xDFFF)" "utf16_loop rest = Inr t'"
    "t = append_utf8 (unit_of b0 b1) @ t'"
    using assms unfolding utf16_unfold by (auto simp: Let_def andthen_eq_Inr split: if_split_asm)
  have "scalar (unit_of b0 b1)" using unit_range[of b0 b1] False r(1) by (auto simp: scalar_unat)
  then show ?thesis
    by (rule that[OF _ _ r(2,3)]) (use unit_range[of b0 b1] in \<open>simp_all add: put_code_point_alt put_unit_of\<close>)
qed

text \<open>Both conversions are the same relation between texts: one sequence of code points, written in two ways.\<close>

definition utf8 :: "u32 list \<Rightarrow> bytes" where
  "utf8 cs = concat (map append_utf8 cs)"

definition utf16 :: "u32 list \<Rightarrow> bytes" where
  "utf16 cs = concat (map put_code_point cs)"

lemma append_utf8_not_Nil: "append_utf8 c \<noteq> []"
  by (simp add: append_utf8_def)

lemma utf8_loop_iff: "utf8_loop bs = Inr w \<longleftrightarrow> (\<exists>cs. list_all scalar cs \<and> bs = utf8 cs \<and> w = utf16 cs)"
proof
  show "utf8_loop bs = Inr w \<Longrightarrow> \<exists>cs. list_all scalar cs \<and> bs = utf8 cs \<and> w = utf16 cs"
  proof (induction bs arbitrary: w rule: utf8_loop.induct)
    case (1 bs)
    show ?case
    proof (cases bs)
      case Nil
      with "1.prems" show ?thesis by (intro exI[of _ "[]"]) (simp add: utf8_loop.simps[of "[]"] utf8_def utf16_def)
    next
      case (Cons b tail)
      with "1.prems" obtain c rest w' where f: "first_point bs = Some (c, rest)" "utf8_loop rest = Inr w'" "w = put_code_point c @ w'"
        by (auto simp: utf8_loop.simps[of "b # tail"] andthen_eq_Inr split: option.splits)
      from "1.IH"[OF _ f(1) refl f(2)] Cons obtain cs where "list_all scalar cs" "rest = utf8 cs" "w' = utf16 cs" by auto
      with first_point_inverse[of b tail c rest] f Cons show ?thesis
        by (intro exI[of _ "c # cs"]) (simp add: utf8_def utf16_def)
    qed
  qed
  have "utf8_loop (utf8 cs) = Inr (utf16 cs)" if "list_all scalar cs" for cs
    using that
  proof (induction cs)
    case (Cons c cs)
    have "utf8 (c # cs) \<noteq> []" using append_utf8_not_Nil by (simp add: utf8_def)
    moreover have "first_point (utf8 (c # cs)) = Some (c, utf8 cs)"
      using Cons.prems first_point_append[of c "utf8 cs"] by (simp add: utf8_def)
    ultimately show ?case using Cons by (simp add: utf8_loop.simps[of "utf8 (c # cs)"] utf16_def)
  qed (simp add: utf8_def utf16_def utf8_loop.simps)
  then show "\<exists>cs. list_all scalar cs \<and> bs = utf8 cs \<and> w = utf16 cs \<Longrightarrow> utf8_loop bs = Inr w" by blast
qed

lemma put_code_point_length: "length (put_code_point c) mod 2 = 0"
  by (simp add: put_code_point_def put_unit_def Let_def)

lemma utf16_even: "length (utf16 cs) mod 2 = 0"
proof (induction cs)
  case (Cons c cs)
  have "length (utf16 (c # cs)) = length (put_code_point c) + length (utf16 cs)" by (simp add: utf16_def)
  with Cons put_code_point_length[of c] show ?case by presburger
qed (simp add: utf16_def)

lemma decode_utf16_iff: "DecodeUtf16BeToUtf8 w = Inr t \<longleftrightarrow> (\<exists>cs. list_all scalar cs \<and> w = utf16 cs \<and> t = utf8 cs)"
proof
  have "utf16_loop w = Inr t \<Longrightarrow> length w mod 2 = 0 \<Longrightarrow> \<exists>cs. list_all scalar cs \<and> w = utf16 cs \<and> t = utf8 cs" for w t
  proof (induction "length w" arbitrary: w t rule: less_induct)
    case less
    consider "w = []" | b0 b1 rest where "w = b0 # b1 # rest" using less.prems(2) by (cases w; cases "tl w") auto
    then show ?case
    proof cases
      case 1
      with less.prems show ?thesis by (intro exI[of _ "[]"]) (simp add: utf8_def utf16_def)
    next
      case (2 b0 b1 rest)
      from utf16_loop_first[OF less.prems(1)[unfolded 2]] obtain c rest' t' where
        c: "scalar c" "b0 # b1 # rest = put_code_point c @ rest'" "utf16_loop rest' = Inr t'" "t = append_utf8 c @ t'"
          "length rest' mod 2 = length rest mod 2" by metis
      have "put_code_point c \<noteq> []" by (simp add: put_code_point_def put_unit_def Let_def)
      moreover have "length w = length (put_code_point c) + length rest'" unfolding 2 c(2) by simp
      ultimately have "length rest' < length w" by simp
      moreover have "length rest' mod 2 = 0" using c(5) less.prems(2) 2 by simp
      ultimately have "\<exists>cs. list_all scalar cs \<and> rest' = utf16 cs \<and> t' = utf8 cs" using less.hyps[OF _ c(3)] by simp
      then obtain cs where "list_all scalar cs" "rest' = utf16 cs" "t' = utf8 cs" by (elim exE conjE)
      with c 2 show ?thesis by (intro exI[of _ "c # cs"]) (simp add: utf8_def utf16_def)
    qed
  qed
  then show "DecodeUtf16BeToUtf8 w = Inr t \<Longrightarrow> \<exists>cs. list_all scalar cs \<and> w = utf16 cs \<and> t = utf8 cs"
    by (auto simp: DecodeUtf16BeToUtf8_def split: if_split_asm)
  have "utf16_loop (utf16 cs) = Inr (utf8 cs)" if "list_all scalar cs" for cs
    using that by (induction cs) (simp_all add: utf16_def utf8_def utf16_loop_put)
  then show "\<exists>cs. list_all scalar cs \<and> w = utf16 cs \<and> t = utf8 cs \<Longrightarrow> DecodeUtf16BeToUtf8 w = Inr t"
    using utf16_even by (auto simp: DecodeUtf16BeToUtf8_def)
qed

section \<open>Properties\<close>


end
