(* ===== verification/Ttc_Lob.thy ===== *)
theory Ttc_Lob
  imports Ttc_Call Utf_Text
begin

text \<open>
  The LOB_OP call of \<^verbatim>\<open>src/ttc_lob.cpp\<close> (reading a LOB, and creating, writing and releasing temporary
  ones) and the loop of \<^verbatim>\<open>lob_reader.hpp\<close> that reads the whole content of a LOB.
\<close>

section \<open>Requests\<close>

abbreviation TTC_FUNCTION_LOB_OP :: u8 where "TTC_FUNCTION_LOB_OP \<equiv> 96"
abbreviation TTC_MESSAGE_LOB_DATA :: u8 where "TTC_MESSAGE_LOB_DATA \<equiv> 14"
abbreviation LOB_OP_WRITE :: u32 where "LOB_OP_WRITE \<equiv> 0x0040"
abbreviation LOB_OP_CREATE_TEMP :: u32 where "LOB_OP_CREATE_TEMP \<equiv> 0x0110"
abbreviation LOB_OP_FREE_TEMP :: u32 where "LOB_OP_FREE_TEMP \<equiv> 0x0111"
abbreviation LOB_OP_ARRAY :: u32 where "LOB_OP_ARRAY \<equiv> 0x80000"

definition LOB_LOCATOR_BYTES :: nat where
  "LOB_LOCATOR_BYTES = 40"

definition MAX_LOCATOR_BYTES :: nat where
  "MAX_LOCATOR_BYTES = 4096"

definition MAX_LOB_CHUNK_BYTES :: nat where
  "MAX_LOB_CHUNK_BYTES = 16 * 2 ^ 20"

definition MAX_FREE_LOCATORS :: nat where
  "MAX_FREE_LOCATORS = 4096"

record lob_request =
  lob_sequence :: u8
  request_locator :: bytes
  lob_operation :: u32
  lob_offset :: u64
  lob_amount :: u64

record lob_header =
  header_sequence :: u8
  source_locator_bytes :: nat
  destination_length :: u32
  create_temp :: bool
  header_operation :: u32
  source_offset :: u64
  destination_offset :: u64

definition LobHeader :: lob_header where
  "LobHeader = \<lparr>header_sequence = 1, source_locator_bytes = 0, destination_length = 0, create_temp = False,
     header_operation = 0, source_offset = 0, destination_offset = 0\<rparr>"

definition WriteLobHeader :: "lob_header \<Rightarrow> byte_writer" where
  "WriteLobHeader h = writes
     [WriteByte TTC_MESSAGE_FUNCTION, WriteByte TTC_FUNCTION_LOB_OP, WriteByte (header_sequence h),
      WriteByte 1, WriteUB4 (of_nat (source_locator_bytes h)),
      WriteByte 0, WriteUB4 (destination_length h),
      WriteUB4 0, WriteUB4 0,
      WriteByte (if create_temp h then 1 else 0), WriteByte 0, WriteByte (if create_temp h then 1 else 0),
      WriteUB4 (header_operation h),
      WriteByte 0, WriteByte 0,
      WriteUB8 (source_offset h), WriteUB8 (destination_offset h),
      WriteByte 0,
      WriteUInt16BE 0, WriteUInt16BE 0, WriteUInt16BE 0] []"

definition EncodeTtcLobRequest :: "lob_request \<Rightarrow> bytes result" where
  "EncodeTtcLobRequest q =
     (if request_locator q = [] \<or> length (request_locator q) > MAX_LOCATOR_BYTES then throw MALFORMED
      else if lob_offset q = 0 then throw MALFORMED
      else if unat (lob_amount q) > MAX_LOB_CHUNK_BYTES then throw LIMIT_EXCEEDED
      else Inr (writes
       [WriteByte TTC_MESSAGE_FUNCTION, WriteByte TTC_FUNCTION_LOB_OP, WriteByte (lob_sequence q),
        WriteByte 1, WriteUB4 (of_nat (length (request_locator q))),
        WriteByte 0, WriteUB4 0,
        WriteUB4 0, WriteUB4 0,
        WriteByte 0, WriteByte 0, WriteByte 0,
        WriteUB4 (lob_operation q),
        WriteByte 0, WriteByte 0,
        WriteUB8 (lob_offset q), WriteUB8 0,
        WriteByte 1,
        WriteUInt16BE 0, WriteUInt16BE 0, WriteUInt16BE 0,
        WriteRaw (request_locator q), WriteUB8 (lob_amount q)] []))"

datatype temp_lob_kind = BLOB | CLOB | NCLOB

definition EncodeTtcCreateTempLob :: "u8 \<Rightarrow> temp_lob_kind \<Rightarrow> bytes" where
  "EncodeTtcCreateTempLob sequence kind = writes
     [WriteRaw (replicate LOB_LOCATOR_BYTES 0), WriteUB4 (if kind = NCLOB then 2000 else 873)]
     (WriteLobHeader (LobHeader\<lparr>header_sequence := sequence, source_locator_bytes := LOB_LOCATOR_BYTES,
        destination_length := 10, create_temp := True, header_operation := LOB_OP_CREATE_TEMP,
        source_offset := (if kind = BLOB then 0 else if kind = NCLOB then 2 else 1),
        destination_offset := (if kind = BLOB then 113 else 112)\<rparr>))"

definition EncodeTtcWriteLob :: "u8 \<Rightarrow> bytes \<Rightarrow> u64 \<Rightarrow> bytes \<Rightarrow> bytes result" where
  "EncodeTtcWriteLob sequence locator offset data =
     (if length locator \<noteq> LOB_LOCATOR_BYTES \<or> offset = 0 \<or> data = [] \<or> length data > MAX_LOB_CHUNK_BYTES then throw MALFORMED
      else Inr (writes [WriteRaw locator, WriteByte TTC_MESSAGE_LOB_DATA, WriteLengthPrefixed (Some data)]
       (WriteLobHeader (LobHeader\<lparr>header_sequence := sequence, source_locator_bytes := length locator,
          header_operation := LOB_OP_WRITE, source_offset := offset\<rparr>))))"

definition EncodeTtcFreeTempLobs :: "u8 \<Rightarrow> bytes list \<Rightarrow> bytes result" where
  "EncodeTtcFreeTempLobs sequence locators =
     (if locators = [] \<or> length locators > MAX_FREE_LOCATORS then throw MALFORMED
      else each (\<lambda>locator w. if length locator \<noteq> LOB_LOCATOR_BYTES then throw MALFORMED else Inr (WriteRaw locator w)) locators
       (WriteLobHeader (LobHeader\<lparr>header_sequence := sequence, source_locator_bytes := length locators * LOB_LOCATOR_BYTES,
          header_operation := LOB_OP_FREE_TEMP OR LOB_OP_ARRAY\<rparr>)))"

section \<open>Responses\<close>

record lob_response =
  lob_data :: bytes
  served_amount :: u64

definition refusal :: "ttc_error_info \<Rightarrow> 'a result" where
  "refusal info = Inl (ProtocolError INVALID_STATE (Some (error_number info)))"

text \<open>The bytes of one message behind the return parameter, and whether it ends the call.\<close>

definition lob_message :: "u8 \<Rightarrow> bytes \<Rightarrow> (nat \<times> bool) result" where
  "lob_message server_field_version tail =
     (if hd tail = TTC_MESSAGE_ERROR then
        andthen (DecodeTtcErrorPrefix server_field_version tail) (\<lambda>(info, used).
          if error_number info \<noteq> 0 then refusal info else Inr (used, True))
      else if hd tail = TTC_MESSAGE_STATUS then
        andthen (run_prefix status_reader tail) (\<lambda>(_, used). Inr (used, True))
      else if hd tail = 29 then Inr (1, True)
      else if hd tail = TTC_MESSAGE_SERVER_PIGGYBACK then
        andthen (SkippedTtcServerPiggybackBytes tail) (\<lambda>used. Inr (used, False))
      else throw MALFORMED)"

lemma lob_message_progress: "lob_message v tail = Inr (used, fin) \<Longrightarrow> tail \<noteq> [] \<Longrightarrow> 0 < used \<and> used \<le> length tail"
  using decoders_within(3,6)[of tail] decoders_within(5)[of v tail]
  by (cases tail) (auto simp: lob_message_def refusal_def andthen_eq_Inr split: if_split_asm)

function complete_loop :: "u8 \<Rightarrow> bytes \<Rightarrow> nat \<Rightarrow> bool \<Rightarrow> nat result" where
  "complete_loop server_field_version response offset ended =
     (if offset < length response
      then case lob_message server_field_version (drop offset response) of
          Inl e \<Rightarrow> Inl e
        | Inr (used, ends) \<Rightarrow> complete_loop server_field_version response (offset + used) (ended \<or> ends)
      else if ended then Inr offset else throw TRUNCATED)"
  by pat_completeness auto
termination
proof (relation "measure (\<lambda>(v, response, offset, ended). length response - offset)", goal_cases)
  case (2 v response offset ended x used ends)
  then have "lob_message v (drop offset response) = Inr (used, ends)" by simp
  from lob_message_progress[OF this] 2(1) show ?case by auto
qed simp

declare complete_loop.simps [simp del]

definition CompleteLobCall :: "bytes \<Rightarrow> nat \<Rightarrow> u8 \<Rightarrow> nat result" where
  "CompleteLobCall response offset server_field_version = complete_loop server_field_version response offset False"

definition lob_response_reader :: "nat \<Rightarrow> lob_response reader" where
  "lob_response_reader locator_size = bindr PeekByte (\<lambda>t.
     bindr (if t = TTC_MESSAGE_LOB_DATA then thenr ReadByte (ReadLengthPrefixed MAX_LOB_CHUNK_BYTES) else ret None) (\<lambda>data.
     bindr ReadByte (\<lambda>t.
     thenr (refuse (t \<noteq> TTC_MESSAGE_PARAMETER) MALFORMED) (thenr (Skip locator_size) (bindr ReadUB8 (\<lambda>amount.
       ret \<lparr>lob_data = (case data of None \<Rightarrow> [] | Some d \<Rightarrow> d), served_amount = amount\<rparr>))))))"

definition DecodeTtcLobResponse :: "nat \<Rightarrow> lob_response decoder" where
  "DecodeTtcLobResponse locator_size message =
     (if locator_size = 0 \<or> locator_size > MAX_LOCATOR_BYTES then throw MALFORMED
      else run_prefix (lob_response_reader locator_size) message)"

definition DecodeCompleteTtcLobCall :: "bytes \<Rightarrow> nat \<Rightarrow> u8 \<Rightarrow> (lob_response \<times> nat) result" where
  "DecodeCompleteTtcLobCall response locator_size server_field_version =
     (if response = [] then throw TRUNCATED
      else if IsTtcErrorMessage response then
        andthen (DecodeTtcErrorPrefix server_field_version response) (\<lambda>(info, _). refusal info)
      else andthen (DecodeTtcLobResponse locator_size response) (\<lambda>(decoded, used).
           andthen (CompleteLobCall response used server_field_version) (\<lambda>consumed. Inr (decoded, consumed))))"

definition locator_reader :: "nat \<Rightarrow> bool \<Rightarrow> bytes reader" where
  "locator_reader locator_count created = thenr ReadByte (bindr (ReadRaw (locator_count * LOB_LOCATOR_BYTES)) (\<lambda>locator.
     thenr (whenr created (thenr ReadUB2 (discard ReadByte))) (ret locator)))"

definition DecodeCompleteTtcLocatorCall :: "bytes \<Rightarrow> nat \<Rightarrow> bool \<Rightarrow> u8 \<Rightarrow> bytes result" where
  "DecodeCompleteTtcLocatorCall response locator_count created server_field_version =
     (if response = [] then throw TRUNCATED
      else if IsTtcErrorMessage response then
        andthen (DecodeTtcErrorPrefix server_field_version response) (\<lambda>(info, _). refusal info)
      else andthen
        (if hd response = TTC_MESSAGE_PARAMETER then run_prefix (locator_reader locator_count created) response
         else if locator_count \<noteq> 0 \<and> created then throw MALFORMED
         else Inr ([], 0)) (\<lambda>(locator, offset).
        andthen (CompleteLobCall response offset server_field_version) (\<lambda>_. Inr locator)))"

section \<open>Reading the content of a LOB\<close>

text \<open>The two operations a reader is given, and what they do to the world behind them.\<close>

record 's lob_source =
  lob_read :: "u64 \<Rightarrow> u64 \<Rightarrow> ('s, lob_response) action"
  lob_length :: "('s, u64) action"

definition chunk_units :: "bool \<Rightarrow> u64" where
  "chunk_units character = (if character then 32767 else 65536)"

definition unit_width :: "bool \<Rightarrow> nat" where
  "unit_width character = (if character then 2 else 1)"

definition MAX_VECTOR_BYTES :: nat where
  "MAX_VECTOR_BYTES = 2 ^ 63 - 1"

definition append_response :: "bool \<Rightarrow> bytes \<Rightarrow> lob_response \<Rightarrow> u64 \<Rightarrow> bytes result" where
  "append_response character content r requested =
     (if served_amount r > requested \<or> (served_amount r = 0 \<and> lob_data r \<noteq> []) \<or> (served_amount r \<noteq> 0 \<and> lob_data r = []) \<or>
         length (lob_data r) > unat requested * unit_width character
      then throw MALFORMED
      else if length (lob_data r) > MAX_VECTOR_BYTES - length content then throw LIMIT_EXCEEDED
      else Inr (content @ lob_data r))"

lemma served_progress:
  assumes "append_response character content r (min (lob_units - served) chunk) = Inr content'" "served_amount r \<noteq> 0" "served < lob_units"
  shows "unat lob_units - unat (served + served_amount r) < unat lob_units - unat served" "unat (served + served_amount r) = unat served + unat (served_amount r)"
    "unat (served_amount r) \<le> unat lob_units - unat served"
proof -
  have "served_amount r \<le> min (lob_units - served) chunk" using assms(1) by (auto simp: append_response_def not_less split: if_split_asm)
  then have "served_amount r \<le> lob_units - served" by simp
  then have le: "unat (served_amount r) \<le> unat lob_units - unat served"
    using unat_sub[OF less_imp_le[OF assms(3)]] by (simp add: word_le_nat_alt)
  have lt: "unat served < unat lob_units" using assms(3) by (simp add: word_less_nat_alt)
  have "unat lob_units < 2 ^ 64" using unsigned_less[of lob_units, where 'a = nat] by simp
  then show sum: "unat (served + served_amount r) = unat served + unat (served_amount r)"
    using le lt by (simp add: unat_add_lem[symmetric])
  have "0 < unat (served_amount r)" using assms(2) by (simp add: unat_gt_0)
  then show "unat lob_units - unat (served + served_amount r) < unat lob_units - unat served" unfolding sum using lt le by linarith
  show "unat (served_amount r) \<le> unat lob_units - unat served" by (rule le)
qed

text \<open>The loop ends because every turn is served at least one unit and no more than is missing.\<close>

function read_rest :: "'s lob_source \<Rightarrow> bool \<Rightarrow> u64 \<Rightarrow> u64 \<Rightarrow> bytes \<Rightarrow> ('s, bytes) action" where
  "read_rest source character lob_units served content s =
     (if served < lob_units
      then case lob_read source (served + 1) (min (lob_units - served) (chunk_units character)) s of
          (s', Inl e) \<Rightarrow> (s', Inl e)
        | (s', Inr r) \<Rightarrow>
            (case append_response character content r (min (lob_units - served) (chunk_units character)) of
               Inl e \<Rightarrow> (s', Inl e)
             | Inr content' \<Rightarrow>
                 if served_amount r = 0 then (s', throw TRUNCATED)
                 else read_rest source character lob_units (served + served_amount r) content' s')
      else (s, Inr content))"
  by pat_completeness auto
termination
  by (relation "measure (\<lambda>(source, character, lob_units, served, content, s). unat lob_units - unat served)")
    (auto intro: served_progress(1))

declare read_rest.simps [simp del]

definition ReadOracleLobContent :: "'s lob_source \<Rightarrow> bool \<Rightarrow> ('s, bytes) action" where
  "ReadOracleLobContent source character =
     after (lob_read source 1 (chunk_units character)) (\<lambda>r.
     after (lifting (append_response character [] r (chunk_units character))) (\<lambda>content.
       if served_amount r < chunk_units character then returning content
       else after (lob_length source) (\<lambda>lob_units.
         if lob_units < served_amount r \<or> lob_units = - 1 then failing MALFORMED
         else read_rest source character lob_units (served_amount r) content)))"

section \<open>A server that holds a LOB\<close>

text \<open>
  What the loop relies on: as long as the world holds the LOB, its length is the number of units of the
  content, and a read serves some of the units that are asked for and still there.
\<close>

definition units_left :: "bool \<Rightarrow> bytes \<Rightarrow> u64 \<Rightarrow> nat" where
  "units_left character content offset = length content div unit_width character - (unat offset - 1)"

definition serves_part :: "bool \<Rightarrow> bytes \<Rightarrow> u64 \<Rightarrow> u64 \<Rightarrow> lob_response \<Rightarrow> bool" where
  "serves_part character content offset amount r \<longleftrightarrow>
     lob_data r = take (unit_width character * unat (served_amount r)) (drop (unit_width character * (unat offset - 1)) content) \<and>
     unat (served_amount r) \<le> min (unat amount) (units_left character content offset) \<and>
     (0 < min (unat amount) (units_left character content offset) \<longrightarrow> 0 < unat (served_amount r))"

definition serves_lob :: "'s lob_source \<Rightarrow> ('s \<Rightarrow> bool) \<Rightarrow> bool \<Rightarrow> bytes \<Rightarrow> bool" where
  "serves_lob source holds character content \<longleftrightarrow>
     (\<forall>s. holds s \<longrightarrow>
        (\<exists>s'. lob_length source s = (s', Inr (of_nat (length content div unit_width character))) \<and> holds s') \<and>
        (\<forall>offset amount. 1 \<le> unat offset \<longrightarrow>
           (\<exists>s' r. lob_read source offset amount s = (s', Inr r) \<and> holds s' \<and> serves_part character content offset amount r)))"

definition lob_fits :: "bool \<Rightarrow> bytes \<Rightarrow> bool" where
  "lob_fits character content \<longleftrightarrow> length content \<le> MAX_VECTOR_BYTES \<and> length content mod unit_width character = 0"

lemma unit_width_pos: "0 < unit_width character"
  by (simp add: unit_width_def)

lemma append_part:
  assumes "lob_fits character content" "serves_part character content offset amount r" "1 \<le> unat offset"
    and "unat offset - 1 \<le> length content div unit_width character"
  shows "append_response character (take (unit_width character * (unat offset - 1)) content) r amount =
     Inr (take (unit_width character * (unat offset - 1 + unat (served_amount r))) content)"
proof -
  define w n k where "w = unit_width character" and "n = length content div unit_width character" and "k = unat (served_amount r)"
  have w: "0 < w" and len: "length content = w * n" using unit_width_pos assms(1) by (auto simp: w_def n_def lob_fits_def)
  have data: "lob_data r = take (w * k) (drop (w * (unat offset - 1)) content)" and k: "k \<le> unat amount" "k \<le> n - (unat offset - 1)"
    using assms(2) by (simp_all add: serves_part_def units_left_def w_def n_def k_def)
  have "unat offset - 1 \<le> n" using assms(4) by (simp only: n_def)
  then have le: "w * (unat offset - 1) \<le> length content" unfolding len by (rule mult_le_mono2)
  have wk: "w * k \<le> w * (n - (unat offset - 1))" using k(2) by simp
  have rest: "w * (n - (unat offset - 1)) = length content - w * (unat offset - 1)" unfolding len by (simp add: diff_mult_distrib2)
  have size: "length (lob_data r) = w * k" unfolding data length_take length_drop using wk[unfolded rest] by (rule min.absorb2)
  have "\<not> served_amount r > amount" using k(1) by (simp add: k_def not_less word_le_nat_alt)
  moreover have "served_amount r = 0 \<longleftrightarrow> lob_data r = []" using size w by (auto simp: k_def unat_eq_0 length_0_conv[symmetric])
  moreover have "length (lob_data r) \<le> unat amount * w" unfolding size using k(1) by (simp add: mult.commute)
  moreover have "length (lob_data r) \<le> MAX_VECTOR_BYTES - length (take (w * (unat offset - 1)) content)"
  proof -
    have "length (take (w * (unat offset - 1)) content) = w * (unat offset - 1)" using le by simp
    moreover have "w * k + w * (unat offset - 1) \<le> length content"
      using le rest wk by linarith
    moreover have "length content \<le> MAX_VECTOR_BYTES" using assms(1) by (simp add: lob_fits_def)
    ultimately show ?thesis unfolding size by linarith
  qed
  moreover have "take (w * (unat offset - 1)) content @ lob_data r = take (w * (unat offset - 1 + k)) content"
    unfolding data by (simp add: take_add distrib_left)
  ultimately show ?thesis by (auto simp: append_response_def w_def k_def)
qed

lemma serves_lobD:
  assumes "serves_lob source holds character content" "holds s"
  obtains s' where "lob_length source s = (s', Inr (of_nat (length content div unit_width character)))" "holds s'"
    and "1 \<le> unat offset \<Longrightarrow> \<exists>s' r. lob_read source offset amount s = (s', Inr r) \<and> holds s' \<and> serves_part character content offset amount r"
  using assms unfolding serves_lob_def by blast

lemma read_rest_serves:
  assumes serves: "serves_lob source holds character content" and fits: "lob_fits character content"
    and units: "length content div unit_width character = unat lob_units"
  shows "\<lbrakk>holds s; unat served \<le> unat lob_units\<rbrakk> \<Longrightarrow>
    \<exists>s'. read_rest source character lob_units served (take (unit_width character * unat served) content) s = (s', Inr content) \<and> holds s'"
proof (induction "unat lob_units - unat served" arbitrary: served s rule: less_induct)
  case less
  show ?case
  proof (cases "served < lob_units")
    case False
    then have "unat served = unat lob_units" using less.prems(2) by (simp add: not_less word_le_nat_alt)
    then have "take (unit_width character * unat served) content = content"
      using fits units by (simp add: lob_fits_def) (metis dvd_mult_div_cancel mod_0_imp_dvd order_refl)
    with False less.prems(1) show ?thesis by (simp add: read_rest.simps)
  next
    case True
    let ?amount = "min (lob_units - served) (chunk_units character)"
    have lt: "unat served < unat lob_units" using True by (simp add: word_less_nat_alt)
    have "unat served + 1 < 2 ^ 64" using lt unsigned_less[of lob_units, where 'a = nat] by simp
    then have off: "unat (served + 1) = unat served + 1" using unat_add_lem[of served 1] by simp
    have "1 \<le> unat (served + 1)" unfolding off by simp
    then obtain s' r where r: "lob_read source (served + 1) ?amount s = (s', Inr r)" "holds s'"
      "serves_part character content (served + 1) ?amount r" using serves_lobD[OF serves less.prems(1)] by metis
    have app: "append_response character (take (unit_width character * unat served) content) r ?amount =
        Inr (take (unit_width character * (unat served + unat (served_amount r))) content)"
      using append_part[OF fits r(3)] off lt units by simp
    have "0 < unat ?amount" using True lt by (auto simp: min_def chunk_units_def word_le_nat_alt unat_sub)
    then have pos: "0 < unat (served_amount r)" using r(3) off lt units by (simp add: serves_part_def units_left_def)
    then have "served_amount r \<noteq> 0" by auto
    note progress = served_progress[OF app this True]
    have "unat (served + served_amount r) \<le> unat lob_units" using progress(2,3) lt by linarith
    from less.hyps[OF progress(1) r(2) this] progress(2)
    obtain s'' where "read_rest source character lob_units (served + served_amount r)
        (take (unit_width character * (unat served + unat (served_amount r))) content) s' = (s'', Inr content)" "holds s''" by auto
    then show ?thesis using True \<open>served_amount r \<noteq> 0\<close> by (simp add: read_rest.simps[of _ _ _ served] r(1) app)
  qed
qed

section \<open>Properties\<close>

text \<open>
  C32. Reading a LOB ends and returns all of it, unless the very first read comes back short. Whatever chunks a server that holds
  the LOB serves it in, many reads, one unit at a time, the call returns, without an error, and its result is the content from its
  first to its last byte whenever the first read serves all that was asked for and is there. The client takes a shorter first
  read for the whole LOB, as the comment in \<^verbatim>\<open>lob_reader.hpp\<close> says; of a server that makes one, the result is
  exactly what that read served.
\<close>

theorem lob_content_complete:
  assumes "serves_lob source holds character content" "lob_fits character content" "holds s"
    and "length content div unit_width character < 2 ^ 64 - 1"
  shows "\<exists>s' s1 first. lob_read source 1 (chunk_units character) s = (s1, Inr first) \<and> holds s' \<and>
    ReadOracleLobContent source character s = (s', Inr
      (if unat (served_amount first) < min (unat (chunk_units character)) (length content div unit_width character)
       then take (unit_width character * unat (served_amount first)) content else content))"
proof -
  let ?chunk = "chunk_units character"
  define n where "n = length content div unit_width character"
  define u where "u = (of_nat n :: u64)"
  have u: "unat u = n" using assms(4) by (simp add: u_def n_def unat_of_nat take_bit_nat_eq_self)
  have "1 \<le> unat (1 :: u64)" by simp
  then obtain s1 r where r: "lob_read source 1 ?chunk s = (s1, Inr r)" "holds s1" "serves_part character content 1 ?chunk r"
    using serves_lobD[OF assms(1,3)] by metis
  have app: "append_response character [] r ?chunk = Inr (take (unit_width character * unat (served_amount r)) content)"
    using append_part[OF assms(2) r(3)] by simp
  have amount: "unat (served_amount r) \<le> min (unat ?chunk) n" using r(3) by (simp add: serves_part_def units_left_def n_def)
  have whole: "take (unit_width character * m) content = content" if "n \<le> m" for m
  proof -
    have "length content = unit_width character * n" using assms(2) by (auto simp: lob_fits_def n_def)
    with that show ?thesis by simp
  qed
  have "\<exists>s'. holds s' \<and> ReadOracleLobContent source character s = (s', Inr
      (if unat (served_amount r) < min (unat ?chunk) n then take (unit_width character * unat (served_amount r)) content else content))"
  proof (cases "served_amount r < ?chunk")
    case True
    then have "unat (served_amount r) < unat ?chunk" by (simp add: word_less_nat_alt)
    then have "\<not> unat (served_amount r) < min (unat ?chunk) n \<Longrightarrow> n \<le> unat (served_amount r)" by simp
    with True r show ?thesis by (auto simp: ReadOracleLobContent_def app whole returning_def)
  next
    case False
    then have full: "\<not> unat (served_amount r) < min (unat ?chunk) n" by (simp add: word_less_nat_alt)
    from assms(1) r(2) obtain s2 where s2: "lob_length source s1 = (s2, Inr u)" "holds s2" unfolding serves_lob_def u_def n_def by blast
    have le: "unat (served_amount r) \<le> unat u" using amount u by simp
    have "unat (- 1 :: u64) = 2 ^ 64 - 1" by (simp add: unsigned_minus_1_eq_mask mask_eq_exp_minus_1)
    then have "u \<noteq> - 1" using u assms(4) by (auto simp: n_def)
    moreover have "\<not> u < served_amount r" using le by (simp add: word_less_nat_alt)
    moreover from read_rest_serves[OF assms(1,2) _ s2(2) le] obtain s3 where
      "read_rest source character u (served_amount r) (take (unit_width character * unat (served_amount r)) content) s2 = (s3, Inr content)" "holds s3"
      using u n_def by auto
    ultimately show ?thesis unfolding if_not_P[OF full] using False by (simp add: ReadOracleLobContent_def r(1) app s2(1))
  qed
  with r(1) show ?thesis unfolding n_def by blast
qed

text \<open>
  A server that hands out at most seven units at a time after the first read, and at most \<open>first_units\<close> in the first, counting
  the calls.
\<close>

definition slow_server :: "nat \<Rightarrow> bytes \<Rightarrow> nat lob_source" where
  "slow_server first_units content =
     \<lparr>lob_read = (\<lambda>offset amount s.
        let left = length content - (unat offset - 1); k = min (unat amount) (if offset = 1 then min first_units left else min 7 left)
        in (s + 1, Inr \<lparr>lob_data = take k (drop (unat offset - 1) content), served_amount = of_nat k\<rparr>)),
      lob_length = (\<lambda>s. (s + 1, Inr (of_nat (length content))))\<rparr>"

lemma slow_server_serves:
  assumes "length content < 2 ^ 64" "0 < first_units"
  shows "serves_lob (slow_server first_units content) (\<lambda>_. True) False content"
proof -
  have part: "serves_part False content offset amount \<lparr>lob_data = take k (drop (unat offset - 1) content), served_amount = of_nat k\<rparr>"
    if k: "k = min (unat amount) (if offset = 1 then min first_units (length content - (unat offset - 1))
      else min 7 (length content - (unat offset - 1)))"
    for offset amount k
  proof -
    have "k \<le> length content" using k by auto
    then have "unat (of_nat k :: u64) = k" using assms by (simp add: unat_of_nat take_bit_nat_eq_self)
    then show ?thesis using k assms(2) by (cases "offset = 1") (simp_all add: serves_part_def units_left_def unit_width_def min_def)
  qed
  show ?thesis
    unfolding serves_lob_def
  proof (intro allI impI conjI)
    fix s offset amount
    show "\<exists>s'. lob_length (slow_server first_units content) s = (s', Inr (of_nat (length content div unit_width False))) \<and> True"
      by (simp add: slow_server_def unit_width_def)
    show "\<exists>s' r. lob_read (slow_server first_units content) offset amount s = (s', Inr r) \<and> True \<and> serves_part False content offset amount r"
      using part[OF refl, of offset amount] by (simp only: slow_server_def lob_source.simps Let_def prod.inject sum.inject simp_thms ex_simps) blast
  qed
qed

lemma lob_content_complete_witness:
  "(\<exists>s. ReadOracleLobContent (slow_server 65536 (replicate 70000 1)) False 0 = (s, Inr (replicate 70000 1))) \<and>
   (\<exists>s. ReadOracleLobContent (slow_server 1 (replicate 70000 1)) False 0 = (s, Inr [1]))"
proof -
  obtain c where c: "c = replicate 70000 (1 :: u8)" by simp
  then have len: "length c = 70000" by simp
  have chunk: "unat (chunk_units False) = 65536" by (simp add: chunk_units_def)
  have first: "lob_read (slow_server k c) 1 (chunk_units False) 0 = (1, Inr \<lparr>lob_data = take k c, served_amount = of_nat k\<rparr>)"
    if "k \<le> 65536" for k
    using that len by (simp add: slow_server_def chunk Let_def min_def)
  have serves: "serves_lob (slow_server k c) (\<lambda>_. True) False c" if "0 < k" for k
    by (rule slow_server_serves) (simp_all add: len that)
  have "(\<exists>s. ReadOracleLobContent (slow_server k c) False 0 = (s, Inr (if k < 65536 then take k c else c)))"
    if "0 < k" "k \<le> 65536" for k
  proof -
    have "unat (of_nat k :: u64) = k" using that by (simp add: unat_of_nat take_bit_nat_eq_self)
    then show ?thesis
      using lob_content_complete[OF serves[OF that(1)], of 0] first[OF that(2)]
      by (auto simp: lob_fits_def unit_width_def MAX_VECTOR_BYTES_def len chunk)
  qed
  from this[of 65536] this[of 1] show ?thesis
    unfolding c[symmetric] by (simp add: c take_Cons')
qed

end
