(* ===== verification/Temp_Lob.thy ===== *)
theory Temp_Lob
  imports Ttc_Lob
begin

text \<open>
  \<^verbatim>\<open>src/temp_lob.cpp\<close>: values too large for a bind are written to temporary LOBs on the server and bound
  by locator. The scope remembers every LOB that it created, to release them when the statement is done.
\<close>

section \<open>The writer and the scope\<close>

text \<open>\<^verbatim>\<open>TemporaryLobWriter\<close> is an abstract class: its three operations are arguments of the model.\<close>

record 'w lob_writer =
  writer_create :: "temp_lob_kind \<Rightarrow> ('w, bytes) action"
  writer_write :: "bytes \<Rightarrow> u64 \<Rightarrow> bytes \<Rightarrow> ('w, bytes) action"
  writer_free :: "bytes list \<Rightarrow> ('w, unit) action"

record 'w lob_scope =
  locators :: "bytes list"
  scope_world :: 'w

definition TEMP_LOB_WRITE_CHUNK_BYTES :: nat where
  "TEMP_LOB_WRITE_CHUNK_BYTES = 2 * 2 ^ 20"

definition on_world :: "('w, 'a) action \<Rightarrow> ('w lob_scope, 'a) action" where
  "on_world f s = (case f (scope_world s) of (w, r) \<Rightarrow> (s\<lparr>scope_world := w\<rparr>, r))"

definition IsLargeLob :: "oracle_bind \<Rightarrow> bool" where
  "IsLargeLob b \<longleftrightarrow> bind_lob_content b \<noteq> 0 \<and>
     (case bind_value b of None \<Rightarrow> False | Some v \<Rightarrow> length v > TEMP_LOB_THRESHOLD_BYTES)"

fun retreat :: "bytes \<Rightarrow> nat \<Rightarrow> nat \<Rightarrow> nat" where
  "retreat t begin_at 0 = 0"
| "retreat t begin_at (Suc e) =
     (if Suc e < length t \<and> Suc e > begin_at \<and> t ! Suc e AND 0xC0 = 0x80 then retreat t begin_at e else Suc e)"

definition Utf8PieceEnd :: "bytes \<Rightarrow> nat \<Rightarrow> nat \<Rightarrow> nat result" where
  "Utf8PieceEnd t begin_at limit =
     (let e = retreat t begin_at (min (length t) (begin_at + limit)) in
      if e = begin_at then throw MALFORMED else Inr e)"

definition Needed :: "oracle_bind list \<Rightarrow> bool" where
  "Needed binds = list_ex IsLargeLob binds"

definition NeededRows :: "oracle_bind list list \<Rightarrow> nat \<Rightarrow> nat \<Rightarrow> bool" where
  "NeededRows batch begin_at end_at = list_ex Needed (take (end_at - begin_at) (drop begin_at batch))"

section \<open>Converting a bind\<close>

definition piece_end :: "bool \<Rightarrow> bytes \<Rightarrow> nat \<Rightarrow> nat result" where
  "piece_end character content begin_at =
     (if character then Utf8PieceEnd content begin_at TEMP_LOB_WRITE_CHUNK_BYTES
      else Inr (min (length content) (begin_at + TEMP_LOB_WRITE_CHUNK_BYTES)))"

definition piece_bytes :: "bool \<Rightarrow> bytes \<Rightarrow> bytes result" where
  "piece_bytes character part = (if character then EncodeUtf8ToUtf16Be (to_string part) else Inr part)"

lemma retreat_bounds: "retreat t b e \<le> e \<and> (b \<le> e \<longrightarrow> b \<le> retreat t b e)"
  by (induction t b e rule: retreat.induct) (auto split: if_splits)

lemma piece_end_bounds:
  assumes "piece_end character content b = Inr e" "b < length content"
  shows "b < e" "e \<le> length content"
  using assms retreat_bounds[of content b "min (length content) (b + TEMP_LOB_WRITE_CHUNK_BYTES)"]
  by (auto simp: piece_end_def Utf8PieceEnd_def Let_def TEMP_LOB_WRITE_CHUNK_BYTES_def split: if_split_asm)

text \<open>The loop over the pieces; \<open>slot\<close> is where the scope keeps the locator of this LOB.\<close>

function write_pieces :: "'w lob_writer \<Rightarrow> bool \<Rightarrow> bytes \<Rightarrow> nat \<Rightarrow> bytes \<Rightarrow> u64 \<Rightarrow> nat \<Rightarrow> ('w lob_scope, bytes) action" where
  "write_pieces writer character content slot locator offset begin_at s =
     (if begin_at < length content
      then case piece_end character content begin_at of
          Inl e \<Rightarrow> (s, Inl e)
        | Inr end_at \<Rightarrow>
            (case piece_bytes character (take (end_at - begin_at) (drop begin_at content)) of
               Inl e \<Rightarrow> (s, Inl e)
             | Inr piece \<Rightarrow>
                 (case on_world (writer_write writer locator offset piece) s of
                    (s', Inl e) \<Rightarrow> (s', Inl e)
                  | (s', Inr locator') \<Rightarrow>
                      write_pieces writer character content slot locator'
                        (offset + of_nat (if character then length piece div 2 else length piece)) end_at
                        (s'\<lparr>locators := (locators s')[slot := locator']\<rparr>)))
      else (s, Inr locator))"
  by pat_completeness auto
termination
  by (relation "measure (\<lambda>(writer, character, content, slot, locator, offset, begin_at, s). length content - begin_at)")
    (auto dest: piece_end_bounds)

declare write_pieces.simps [simp del]

definition by_locator :: "bytes option \<Rightarrow> oracle_bind \<Rightarrow> oracle_bind" where
  "by_locator v b = b\<lparr>bind_type := ucast (bind_lob_content b), bind_value := v, bind_charset_form := 0,
     bind_maximum_bytes := 0, bind_lob_content := 0\<rparr>"

definition ConvertBind :: "'w lob_writer \<Rightarrow> oracle_bind \<Rightarrow> ('w lob_scope, oracle_bind) action" where
  "ConvertBind writer b =
     (case bind_value b of
        None \<Rightarrow> returning (by_locator None b)
      | Some content \<Rightarrow>
          let character = bind_lob_content b = 112 in
          if length content > TEMP_LOB_MAXIMUM_BYTES then failing LIMIT_EXCEEDED
          else after (on_world (writer_create writer (if character then CLOB else BLOB))) (\<lambda>locator s.
            after (write_pieces writer character content (length (locators s)) locator 1 0)
              (\<lambda>locator. returning (by_locator (Some locator) b))
              (s\<lparr>locators := locators s @ [locator]\<rparr>)))"

fun Convert :: "'w lob_writer \<Rightarrow> oracle_bind list \<Rightarrow> ('w lob_scope, oracle_bind list) action" where
  "Convert writer [] = returning []"
| "Convert writer (b # bs) =
     after (if IsLargeLob b then ConvertBind writer b else returning b) (\<lambda>b'.
     after (Convert writer bs) (\<lambda>bs'. returning (b' # bs')))"

text \<open>One column of every row, then the columns one after the other. A bind that was converted before an exception is
  not returned: the caller gives up the whole statement.\<close>

fun convert_column :: "'w lob_writer \<Rightarrow> nat \<Rightarrow> oracle_bind list list \<Rightarrow> ('w lob_scope, oracle_bind list list) action" where
  "convert_column writer column [] = returning []"
| "convert_column writer column (row # batch) =
     after (if column < length row \<and> bind_lob_content (row ! column) \<noteq> 0
            then after (ConvertBind writer (row ! column)) (\<lambda>b. returning (row[column := b]))
            else returning row) (\<lambda>row'.
     after (convert_column writer column batch) (\<lambda>batch'. returning (row' # batch')))"

fun convert_columns :: "'w lob_writer \<Rightarrow> nat list \<Rightarrow> oracle_bind list list \<Rightarrow> ('w lob_scope, oracle_bind list list) action" where
  "convert_columns writer [] batch = returning batch"
| "convert_columns writer (column # columns) batch =
     after (if list_ex (\<lambda>row. column < length row \<and> IsLargeLob (row ! column)) batch
            then convert_column writer column batch else returning batch)
       (convert_columns writer columns)"

definition ConvertRows :: "'w lob_writer \<Rightarrow> oracle_bind list list \<Rightarrow> ('w lob_scope, oracle_bind list list) action" where
  "ConvertRows writer batch = (if batch = [] then returning [] else convert_columns writer [0..<length (hd batch)] batch)"

definition Release :: "'w lob_writer \<Rightarrow> ('w lob_scope, unit) action" where
  "Release writer s =
     (if locators s = [] then (s, Inr ()) else on_world (writer_free writer (locators s)) (s\<lparr>locators := []\<rparr>))"

definition ReleaseQuietly :: "'w lob_writer \<Rightarrow> 'w lob_scope \<Rightarrow> 'w lob_scope" where
  "ReleaseQuietly writer s = fst (Release writer s)"

section \<open>A server that keeps temporary LOBs\<close>

text \<open>
  The documented behaviour of the three operations, on a map from the locators of the live temporary LOBs to
  their kind and content: a new LOB is empty and has a locator of its own; a write at the position
  after the last unit appends and may hand out another locator for the same LOB; a release removes what it names.
  An operation that fails leaves the LOBs alone.
\<close>

definition keeps_lobs :: "'w lob_writer \<Rightarrow> ('w \<Rightarrow> bytes \<rightharpoonup> bool \<times> bytes) \<Rightarrow> bool" where
  "keeps_lobs writer lobs \<longleftrightarrow>
     (\<forall>k w w' r. writer_create writer k w = (w', r) \<longrightarrow>
        (case r of Inl _ \<Rightarrow> lobs w' = lobs w | Inr l \<Rightarrow> lobs w l = None \<and> lobs w' = (lobs w)(l \<mapsto> (k \<noteq> BLOB, [])))) \<and>
     (\<forall>l offset data w w' r ch c. writer_write writer l offset data w = (w', r) \<longrightarrow> lobs w l = Some (ch, c) \<longrightarrow>
        unat offset = length c div unit_width ch + 1 \<longrightarrow>
        (case r of Inl _ \<Rightarrow> lobs w' = lobs w
         | Inr l' \<Rightarrow> (l' = l \<or> lobs w l' = None) \<and> lobs w' = ((lobs w)(l := None))(l' \<mapsto> (ch, c @ data)))) \<and>
     (\<forall>ls w w'. writer_free writer ls w = (w', Inr ()) \<longrightarrow> lobs w' = lobs w |` (- set ls))"

definition scope_ok :: "('w \<Rightarrow> bytes \<rightharpoonup> bool \<times> bytes) \<Rightarrow> (bytes \<rightharpoonup> bool \<times> bytes) \<Rightarrow> 'w lob_scope \<Rightarrow> bool" where
  "scope_ok lobs others s \<longleftrightarrow> distinct (locators s) \<and> set (locators s) \<subseteq> dom (lobs (scope_world s)) \<and>
     lobs (scope_world s) |` (- set (locators s)) = others"

definition continues :: "('w \<Rightarrow> bytes \<rightharpoonup> bool \<times> bytes) \<Rightarrow> 'w lob_scope \<Rightarrow> 'w lob_scope \<Rightarrow> bool" where
  "continues lobs s s' \<longleftrightarrow> (\<exists>new. locators s' = locators s @ new) \<and>
     (\<forall>l\<in>set (locators s). lobs (scope_world s') l = lobs (scope_world s) l)"

lemma continues_refl [simp]: "continues lobs s s"
  by (simp add: continues_def)

lemma continues_trans: "\<lbrakk>continues lobs a b; continues lobs b c\<rbrakk> \<Longrightarrow> continues lobs a c"
  by (auto simp: continues_def)

text \<open>What a LOB holds once the value is in it.\<close>

definition stored :: "bool \<Rightarrow> bytes \<Rightarrow> bytes result" where
  "stored character v = (if character then EncodeUtf8ToUtf16Be (to_string v) else Inr v)"

lemma to_bytes_to_string: "to_bytes (to_string bs) = bs"
proof -
  have "(of_char (char_of (unat b) :: char) :: u8) = b" for b
    using u8_bound[of b] by (simp add: word_unat_eq_iff)
  then show ?thesis by (simp add: to_bytes_def to_string_def o_def)
qed

lemma stored_text: "stored True v = utf8_loop v"
  by (simp add: stored_def EncodeUtf8ToUtf16Be_def to_bytes_to_string)

lemma stored_append: "\<lbrakk>stored character a = Inr x; stored character b = Inr y\<rbrakk> \<Longrightarrow> stored character (a @ b) = Inr (x @ y)"
proof (cases character)
  case True
  assume "stored character a = Inr x" "stored character b = Inr y"
  with True obtain as bs where "list_all scalar as" "a = utf8 as" "x = utf16 as" "list_all scalar bs" "b = utf8 bs" "y = utf16 bs"
    by (auto simp: stored_text utf8_loop_iff)
  then have "list_all scalar (as @ bs) \<and> a @ b = utf8 (as @ bs) \<and> x @ y = utf16 (as @ bs)" by (simp add: utf8_def utf16_def)
  then have "\<exists>cs. list_all scalar cs \<and> a @ b = utf8 cs \<and> x @ y = utf16 cs" by blast
  with True show ?thesis by (simp add: stored_text utf8_loop_iff)
qed (simp add: stored_def)

lemma stored_length: "stored character a = Inr x \<Longrightarrow> length x \<le> 2 * length a \<and> length x mod unit_width character = 0"
proof (cases character)
  case True
  assume "stored character a = Inr x"
  with True obtain cs where cs: "a = utf8 cs" "x = utf16 cs" by (auto simp: stored_text utf8_loop_iff)
  have "length (put_code_point c) \<le> 2 * length (append_utf8 c)" for c
    by (auto simp: put_code_point_def put_unit_def append_utf8_def Let_def word_le_nat_alt word_less_nat_alt)
  then have "length (utf16 cs) \<le> 2 * length (utf8 cs)" for cs
  proof (induction cs)
    case (Cons c cs)
    then show ?case using Cons.prems[of c] by (auto simp: utf16_def utf8_def intro: add_mono)
  qed (simp add: utf16_def)
  with True cs utf16_even[of cs] show ?thesis by (simp add: unit_width_def)
qed (simp add: stored_def unit_width_def)

lemma stored_Nil: "stored character [] = Inr []"
  by (simp add: stored_def EncodeUtf8ToUtf16Be_def utf8_loop.simps to_string_def to_bytes_def)

lemma store_write:
  assumes "keeps_lobs writer lobs" "scope_ok lobs others s" "k < length (locators s)" "lobs (scope_world s) (locators s ! k) = Some (ch, c)"
    and "unat offset = length c div unit_width ch + 1" "on_world (writer_write writer (locators s ! k) offset data) s = (s', r)"
  shows "case r of Inl _ \<Rightarrow> scope_ok lobs others s' \<and> locators s' = locators s \<and> lobs (scope_world s') = lobs (scope_world s)
    | Inr l' \<Rightarrow> scope_ok lobs others (s'\<lparr>locators := (locators s')[k := l']\<rparr>) \<and> locators s' = locators s \<and>
        lobs (scope_world s') l' = Some (ch, c @ data) \<and>
        (\<forall>l\<in>set (take k (locators s)). lobs (scope_world s') l = lobs (scope_world s) l)"
proof -
  let ?l = "locators s ! k"
  obtain w' where w: "writer_write writer ?l offset data (scope_world s) = (w', r)" "s' = s\<lparr>scope_world := w'\<rparr>"
    using assms(6) by (auto simp: on_world_def split: prod.splits)
  have law: "case r of Inl _ \<Rightarrow> lobs w' = lobs (scope_world s)
         | Inr l' \<Rightarrow> (l' = ?l \<or> lobs (scope_world s) l' = None) \<and> lobs w' = ((lobs (scope_world s))(?l := None))(l' \<mapsto> (ch, c @ data))"
    using assms(1,4,5) w(1) unfolding keeps_lobs_def by blast
  have ok: "distinct (locators s)" "set (locators s) \<subseteq> dom (lobs (scope_world s))" "lobs (scope_world s) |` (- set (locators s)) = others"
    using assms(2) by (auto simp: scope_ok_def)
  show ?thesis
  proof (cases r)
    case (Inl e)
    with law w(2) assms(2) show ?thesis by (simp add: scope_ok_def)
  next
    case (Inr l')
    with law have l': "l' = ?l \<or> l' \<notin> set (locators s)" and map: "lobs w' = ((lobs (scope_world s))(?l := None))(l' \<mapsto> (ch, c @ data))"
      using ok(2) by auto
    have fresh: "l' = ?l \<or> lobs (scope_world s) l' = None" using law Inr by simp
    have mem: "?l \<in> set (locators s)" using assms(3) by simp
    have set: "set ((locators s)[k := l']) = insert l' (set (locators s) - {?l})"
      using ok(1) assms(3) by (simp add: set_update_distinct)
    have "distinct ((locators s)[k := l'])" using ok(1) l' assms(3) by (auto simp: distinct_list_update)
    moreover have "set ((locators s)[k := l']) \<subseteq> dom (lobs w')" unfolding set map using ok(2) by auto
    moreover have "lobs w' |` (- set ((locators s)[k := l'])) = others"
      unfolding set map ok(3)[symmetric] using mem l' fresh by (auto simp: restrict_map_def fun_eq_iff)
    moreover have "lobs w' l = lobs (scope_world s) l" if "l \<in> set (take k (locators s))" for l
    proof -
      have "l \<noteq> ?l" using that ok(1) assms(3) by (auto simp: in_set_conv_nth nth_eq_iff_index_eq)
      moreover have "l \<noteq> l' \<or> l' = ?l" using that l' by (auto dest: in_set_takeD)
      ultimately show ?thesis using map by auto
    qed
    ultimately show ?thesis using Inr w(2) map by (simp add: scope_ok_def)
  qed
qed

text \<open>The pieces written so far are the beginning of the value; the other LOBs of the scope stay as they are.\<close>

lemma write_pieces_store:
  assumes keeps: "keeps_lobs writer lobs" and small: "length content \<le> TEMP_LOB_MAXIMUM_BYTES"
  shows "\<lbrakk>scope_ok lobs others s; k + 1 = length (locators s); locators s ! k = locator; b \<le> length content;
     lobs (scope_world s) locator = Some (ch, c); stored ch (take b content) = Inr c; unat offset = length c div unit_width ch + 1;
     write_pieces writer ch content k locator offset b s = (s', r)\<rbrakk> \<Longrightarrow>
   scope_ok lobs others s' \<and> length (locators s') = k + 1 \<and> take k (locators s') = take k (locators s) \<and>
   (\<forall>l\<in>set (take k (locators s)). lobs (scope_world s') l = lobs (scope_world s) l) \<and>
   (case r of Inl _ \<Rightarrow> True | Inr l \<Rightarrow> locators s' ! k = l \<and> (\<exists>c'. stored ch content = Inr c' \<and> lobs (scope_world s') l = Some (ch, c')))"
proof (induction "length content - b" arbitrary: b locator c offset s rule: less_induct)
  case less
  show ?case
  proof (cases "b < length content")
    case False
    with less.prems show ?thesis by (auto simp: write_pieces.simps)
  next
    case True
    note unfold = write_pieces.simps[of writer ch content k locator offset b s]
    show ?thesis
    proof (cases "piece_end ch content b")
      case (Inl e)
      with less.prems True show ?thesis by (auto simp: unfold)
    next
      case (Inr e)
      note bounds = piece_end_bounds[OF Inr True]
      show ?thesis
      proof (cases "piece_bytes ch (take (e - b) (drop b content))")
        case (Inl err)
        with less.prems(8) True Inr have "s' = s" "r = Inl err" by (simp_all add: unfold)
        with less.prems(1,2) show ?thesis by simp
      next
        case piece: (Inr piece)
        then have st: "stored ch (take (e - b) (drop b content)) = Inr piece" by (simp add: piece_bytes_def stored_def)
        have take: "take b content @ take (e - b) (drop b content) = take e content"
          using bounds by (metis le_add_diff_inverse less_imp_le take_add)
        have st': "stored ch (take e content) = Inr (c @ piece)" using stored_append[OF less.prems(6) st] unfolding take .
        obtain s1 r1 where w: "on_world (writer_write writer locator offset piece) s = (s1, r1)" by (cases "on_world (writer_write writer locator offset piece) s")
        have k: "k < length (locators s)" using less.prems(2) by simp
        note step = store_write[OF keeps less.prems(1) k _ less.prems(7), of piece s1 r1, unfolded less.prems(3), OF less.prems(5) w]
        show ?thesis
        proof (cases r1)
          case Inl2: (Inl err)
          with step less.prems True Inr piece w show ?thesis by (auto simp: unfold)
        next
          case served: (Inr l')
          let ?off = "offset + of_nat (if ch then length piece div 2 else length piece)"
          let ?s = "s1\<lparr>locators := (locators s1)[k := l']\<rparr>"
          have parts: "length piece mod unit_width ch = 0" "length c mod unit_width ch = 0" "length (c @ piece) \<le> 2 * length (take e content)"
            using stored_length[OF st] stored_length[OF less.prems(6)] stored_length[OF st'] by auto
          have div: "length (c @ piece) div unit_width ch = length c div unit_width ch + length piece div unit_width ch"
            using div_plus_div_distrib_dvd_left[OF mod_0_imp_dvd[OF parts(2)], of "length piece"] by simp
          have eq: "(if ch then length piece div 2 else length piece) = length piece div unit_width ch" by (simp add: unit_width_def)
          have "length (c @ piece) div unit_width ch \<le> 2 * length content"
            using parts(3) by (simp add: unit_width_def) linarith
          then have lt: "length c div unit_width ch + length piece div unit_width ch < 2 ^ 63" using small div by (simp add: TEMP_LOB_MAXIMUM_BYTES_def)
          then have "unat (of_nat (length piece div unit_width ch) :: u64) = length piece div unit_width ch"
            by (simp add: unat_of_nat take_bit_nat_eq_self)
          then have off: "unat ?off = length (c @ piece) div unit_width ch + 1"
            unfolding eq div using lt less.prems(7) unat_add_lem[of offset "of_nat (length piece div unit_width ch)"] by simp
          from step served have s: "scope_ok lobs others ?s" "locators s1 = locators s" "lobs (scope_world s1) l' = Some (ch, c @ piece)"
            "\<forall>l\<in>set (take k (locators s)). lobs (scope_world s1) l = lobs (scope_world s) l" by auto
          have rest: "write_pieces writer ch content k l' ?off e ?s = (s', r)"
            using less.prems(8) True Inr piece w served by (simp add: unfold)
          have "length content - e < length content - b" using bounds True by linarith
          from less.hyps[OF this s(1) _ _ bounds(2) _ st' off rest] s k less.prems(2)
          show ?thesis by auto
        qed
      qed
    qed
  qed
qed

text \<open>A converted bind is the old one by locator, and its LOB holds the value.\<close>

definition holds_value :: "('w \<Rightarrow> bytes \<rightharpoonup> bool \<times> bytes) \<Rightarrow> 'w lob_scope \<Rightarrow> oracle_bind \<Rightarrow> oracle_bind \<Rightarrow> bool" where
  "holds_value lobs s b b' \<longleftrightarrow>
     (case bind_value b of
        None \<Rightarrow> b' = by_locator None b
      | Some v \<Rightarrow> \<exists>l c. b' = by_locator (Some l) b \<and> l \<in> set (locators s) \<and> stored (bind_lob_content b = 112) v = Inr c \<and>
          lobs (scope_world s) l = Some (bind_lob_content b = 112, c))"

lemma holds_value_continues: "\<lbrakk>holds_value lobs s b b'; continues lobs s s'\<rbrakk> \<Longrightarrow> holds_value lobs s' b b'"
  by (auto simp: holds_value_def continues_def split: option.splits)

definition kept_value :: "('w \<Rightarrow> bytes \<rightharpoonup> bool \<times> bytes) \<Rightarrow> 'w lob_scope \<Rightarrow> oracle_bind \<Rightarrow> oracle_bind \<Rightarrow> bool" where
  "kept_value lobs s b b' \<longleftrightarrow> (if IsLargeLob b then holds_value lobs s b b' else b' = b)"

lemma kept_value_continues: "\<lbrakk>kept_value lobs s b b'; continues lobs s s'\<rbrakk> \<Longrightarrow> kept_value lobs s' b b'"
  by (auto simp: kept_value_def holds_value_continues)

lemma scope_ok_create:
  assumes "keeps_lobs writer lobs" "scope_ok lobs others s" "on_world (writer_create writer kind) s = (s1, r)"
  shows "locators s1 = locators s \<and> (case r of Inl _ \<Rightarrow> scope_ok lobs others s1 \<and> lobs (scope_world s1) = lobs (scope_world s)
    | Inr l \<Rightarrow> scope_ok lobs others (s1\<lparr>locators := locators s1 @ [l]\<rparr>) \<and> lobs (scope_world s1) l = Some (kind \<noteq> BLOB, []) \<and>
        (\<forall>l'\<in>set (locators s). lobs (scope_world s1) l' = lobs (scope_world s) l'))"
proof -
  obtain w' where w: "writer_create writer kind (scope_world s) = (w', r)" "s1 = s\<lparr>scope_world := w'\<rparr>"
    using assms(3) by (auto simp: on_world_def split: prod.splits)
  have law: "case r of Inl _ \<Rightarrow> lobs w' = lobs (scope_world s)
      | Inr l \<Rightarrow> lobs (scope_world s) l = None \<and> lobs w' = (lobs (scope_world s))(l \<mapsto> (kind \<noteq> BLOB, []))"
    using assms(1) w(1) unfolding keeps_lobs_def by blast
  show ?thesis
  proof (cases r)
    case (Inr l)
    with law have l: "lobs (scope_world s) l = None" "lobs w' = (lobs (scope_world s))(l \<mapsto> (kind \<noteq> BLOB, []))" by simp_all
    have fresh: "l \<notin> set (locators s)" using assms(2) l(1) by (auto simp: scope_ok_def)
    have "lobs w' |` (- insert l (set (locators s))) = lobs (scope_world s) |` (- set (locators s))"
      using l by (auto simp: restrict_map_def fun_eq_iff)
    with assms(2) fresh l w(2) Inr show ?thesis by (auto simp: scope_ok_def)
  qed (use law w(2) assms(2) in \<open>simp add: scope_ok_def\<close>)
qed

lemma ConvertBind_store:
  assumes keeps: "keeps_lobs writer lobs" and ok: "scope_ok lobs others s" and run: "ConvertBind writer b s = (s', r)"
  shows "scope_ok lobs others s' \<and> continues lobs s s' \<and> (case r of Inl _ \<Rightarrow> True | Inr b' \<Rightarrow> holds_value lobs s' b b')"
proof (cases "bind_value b")
  case None
  with run ok show ?thesis by (auto simp: ConvertBind_def returning_def holds_value_def)
next
  case (Some v)
  let ?ch = "bind_lob_content b = 112"
  show ?thesis
  proof (cases "length v > TEMP_LOB_MAXIMUM_BYTES")
    case True
    with run ok Some show ?thesis by (auto simp: ConvertBind_def failing_def Let_def)
  next
    case False
    then have small: "length v \<le> TEMP_LOB_MAXIMUM_BYTES" by simp
    let ?kind = "if ?ch then CLOB else BLOB"
    obtain s1 r1 where c: "on_world (writer_create writer ?kind) s = (s1, r1)" by (cases "on_world (writer_create writer ?kind) s")
    note create = scope_ok_create[OF keeps ok c]
    show ?thesis
    proof (cases r1)
      case (Inl e)
      with run Some False c have "s' = s1" "r = Inl e" by (simp_all add: ConvertBind_def Let_def)
      with create Inl show ?thesis by (simp add: continues_def)
    next
      case (Inr l)
      let ?s = "s1\<lparr>locators := locators s1 @ [l]\<rparr>"
      obtain s2 r2 where w: "write_pieces writer ?ch v (length (locators s)) l 1 0 ?s = (s2, r2)"
        by (cases "write_pieces writer ?ch v (length (locators s)) l 1 0 ?s")
      have lobs: "scope_ok lobs others ?s" "lobs (scope_world ?s) l = Some (?ch, [])" "locators s1 = locators s"
        "\<forall>l'\<in>set (locators s). lobs (scope_world s1) l' = lobs (scope_world s) l'"
        using create Inr by (auto split: if_split_asm)
      from write_pieces_store[OF keeps small lobs(1) _ _ _ lobs(2) _ _ w] lobs(3)
      have p: "scope_ok lobs others s2" "length (locators s2) = length (locators s) + 1" "take (length (locators s)) (locators s2) = locators s"
        "\<forall>l\<in>set (locators s). lobs (scope_world s2) l = lobs (scope_world s1) l"
        "case r2 of Inl _ \<Rightarrow> True | Inr l \<Rightarrow> locators s2 ! length (locators s) = l \<and>
           (\<exists>c'. stored ?ch v = Inr c' \<and> lobs (scope_world s2) l = Some (?ch, c'))"
        by (simp_all add: stored_Nil)
      have "locators s2 = locators s @ drop (length (locators s)) (locators s2)"
        using p(3) append_take_drop_id by metis
      then have "continues lobs s s2" using p(4) lobs(4) unfolding continues_def by (metis (no_types, lifting))
      moreover have "(s', r) = (s2, map_sum id (\<lambda>l. by_locator (Some l) b) r2)"
        using run Some False c Inr w lobs(3) by (cases r2) (simp_all add: ConvertBind_def Let_def returning_def)
      moreover have "holds_value lobs s2 b (by_locator (Some l2) b)" if "r2 = Inr l2" for l2
        using p(2,5) that Some by (auto simp: holds_value_def)
      ultimately show ?thesis using p(1) by (cases r2) auto
    qed
  qed
qed

text \<open>All binds of a statement.\<close>

lemma Convert_store:
  assumes keeps: "keeps_lobs writer lobs"
  shows "\<lbrakk>scope_ok lobs others s; Convert writer bs s = (s', r)\<rbrakk> \<Longrightarrow>
    scope_ok lobs others s' \<and> continues lobs s s' \<and>
    (case r of Inl _ \<Rightarrow> True | Inr bs' \<Rightarrow> list_all2 (kept_value lobs s') bs bs')"
proof (induction bs arbitrary: s s' r)
  case (Cons b bs)
  obtain s1 r1 where one: "(if IsLargeLob b then ConvertBind writer b else returning b) s = (s1, r1)"
    by (cases "(if IsLargeLob b then ConvertBind writer b else returning b) s")
  have first: "scope_ok lobs others s1 \<and> continues lobs s s1 \<and>
      (case r1 of Inl _ \<Rightarrow> True | Inr b' \<Rightarrow> kept_value lobs s1 b b')"
    using one Cons.prems(1) ConvertBind_store[OF keeps Cons.prems(1), of b s1 r1]
    by (cases r1) (auto simp: returning_def kept_value_def split: if_split_asm)
  show ?case
  proof (cases r1)
    case (Inl e)
    with Cons.prems(2) one first show ?thesis by (auto simp del: if_split)
  next
    case (Inr b')
    obtain s2 r2 where two: "Convert writer bs s1 = (s2, r2)" by (cases "Convert writer bs s1")
    with Cons.IH[of s1 s2 r2] first have second: "scope_ok lobs others s2 \<and> continues lobs s1 s2 \<and>
      (case r2 of Inl _ \<Rightarrow> True | Inr bs' \<Rightarrow> list_all2 (kept_value lobs s2) bs bs')" by simp
    have "(s', r) = (s2, map_sum id (\<lambda>bs'. b' # bs') r2)"
      using Cons.prems(2) one two Inr by (cases r2) (auto simp: returning_def simp del: if_split)
    with first second Inr show ?thesis
      by (cases r2) (auto intro: continues_trans kept_value_continues)
  qed
qed (simp add: returning_def)

lemma scope_ok_empty: "scope_ok lobs (lobs w) \<lparr>locators = [], scope_world = w\<rparr>"
  by (simp add: scope_ok_def restrict_map_def)

lemma released_scope: "\<lbrakk>scope_ok lobs others s; locators s = []\<rbrakk> \<Longrightarrow> lobs (scope_world s) = others"
  by (simp add: scope_ok_def restrict_map_def)

section \<open>Properties\<close>

text \<open>
  C33. Sending values by locator loses nothing. After a conversion every large value of the statement is the
  content of a temporary LOB, as it is for a BLOB and as UTF-16 for a CLOB, its bind names that LOB, and the
  other binds are untouched; the pieces the value was cut into and the locators that changed on the way do not show.
\<close>

theorem large_values_stored:
  assumes "keeps_lobs writer lobs" "Convert writer bs \<lparr>locators = [], scope_world = w\<rparr> = (s', Inr bs')"
  shows "list_all2 (kept_value lobs s') bs bs'"
  using Convert_store[OF assms(1) scope_ok_empty assms(2)] by simp

text \<open>
  C34. No temporary LOB is left behind. However a conversion ends, by success or by an exception in any of
  its operations, a release that succeeds leaves the server with exactly the temporary LOBs it had before. (Of the server it is
  assumed that a create makes a new empty LOB, that a write appends and may move the LOB to a new locator, that a free frees
  exactly what it names, and that an operation that fails leaves the LOBs as they are.)
\<close>

theorem temporary_lobs_released:
  assumes "keeps_lobs writer lobs" "Convert writer bs \<lparr>locators = [], scope_world = w\<rparr> = (s', r)" "Release writer s' = (s'', Inr ())"
  shows "lobs (scope_world s'') = lobs w \<and> locators s'' = []"
proof -
  have ok: "scope_ok lobs (lobs w) s'" using Convert_store[OF assms(1) scope_ok_empty assms(2)] by simp
  show ?thesis
  proof (cases "locators s' = []")
    case True
    with released_scope[OF ok True] assms(3) show ?thesis by (simp add: Release_def)
  next
    case False
    then obtain w' where w': "writer_free writer (locators s') (scope_world s') = (w', Inr ())" "s'' = s'\<lparr>locators := [], scope_world := w'\<rparr>"
      using assms(3) by (auto simp: Release_def on_world_def split: prod.splits)
    then have "lobs w' = lobs (scope_world s') |` (- set (locators s'))" using assms(1) unfolding keeps_lobs_def by blast
    with ok w'(2) show ?thesis by (simp add: scope_ok_def)
  qed
qed

section \<open>A server in memory\<close>

text \<open>The temporary LOBs of a session in the order they were created; the locator of the \<open>n\<close>-th one is \<open>n\<close> zero bytes.\<close>

type_synonym memory = "(bool \<times> bytes) option list"

definition memory_lobs :: "memory \<Rightarrow> bytes \<rightharpoonup> bool \<times> bytes" where
  "memory_lobs w l = (if length l < length w \<and> l = replicate (length l) 0 then w ! length l else None)"

definition memory_writer :: "memory lob_writer" where
  "memory_writer = \<lparr>writer_create = (\<lambda>k w. (w @ [Some (k \<noteq> BLOB, [])], Inr (replicate (length w) 0))),
     writer_write = (\<lambda>l offset data w. case memory_lobs w l of
        None \<Rightarrow> (w, throw MALFORMED)
      | Some (ch, c) \<Rightarrow> (w[length l := Some (ch, c @ data)], Inr l)),
     writer_free = (\<lambda>ls w. (map (\<lambda>n. if replicate n 0 \<in> set ls then None else w ! n) [0..<length w], Inr ()))\<rparr>"

lemma memory_keeps_lobs: "keeps_lobs memory_writer memory_lobs"
  unfolding keeps_lobs_def memory_writer_def
proof (intro conjI allI impI, goal_cases)
  case (1 k w w' r)
  then show ?case by (auto simp: memory_lobs_def fun_eq_iff nth_append) (metis less_antisym)
next
  case (2 l offset data w w' r ch c)
  then show ?case by (auto simp: memory_lobs_def fun_eq_iff nth_list_update split: if_split_asm)
next
  case (3 ls w w')
  then show ?case by (auto simp: memory_lobs_def fun_eq_iff restrict_map_def)
qed

lemma memory_takes_pieces:
  "\<lbrakk>length l < length (scope_world s); l = replicate (length l) 0; scope_world s ! length l \<noteq> None\<rbrakk> \<Longrightarrow>
   \<exists>s'. write_pieces memory_writer False content k l offset b s = (s', Inr l)"
proof (induction "length content - b" arbitrary: b offset s rule: less_induct)
  case less
  show ?case
  proof (cases "b < length content")
    case False
    then show ?thesis by (simp add: write_pieces.simps)
  next
    case True
    let ?e = "min (length content) (b + TEMP_LOB_WRITE_CHUNK_BYTES)"
    let ?piece = "take (?e - b) (drop b content)"
    obtain ch c where c: "scope_world s ! length l = Some (ch, c)" using less.prems(3) by auto
    let ?w = "(scope_world s)[length l := Some (ch, c @ ?piece)]"
    have m: "memory_lobs (scope_world s) l = Some (ch, c)" unfolding memory_lobs_def using less.prems(1,2) c by (simp only: if_True simp_thms)
    have wr: "on_world (writer_write memory_writer l offset ?piece) s = (s\<lparr>scope_world := ?w\<rparr>, Inr l)"
      using m by (simp add: on_world_def memory_writer_def)
    have d: "length content - ?e < length content - b" using True by (auto simp: TEMP_LOB_WRITE_CHUNK_BYTES_def)
    show ?thesis
      using less.hyps[OF d, of "s\<lparr>scope_world := ?w, locators := (locators s)[k := l]\<rparr>"] less.prems True wr
      by (subst write_pieces.simps) (simp add: piece_end_def piece_bytes_def)
  qed
qed

definition large_blob :: oracle_bind where
  "large_blob = \<lparr>bind_name = ''b'', bind_type = 23, bind_direction = BIND_IN,
     bind_value = Some (replicate (TEMP_LOB_THRESHOLD_BYTES + 1) 7), bind_maximum_bytes = 0, bind_charset_form = 0, bind_lob_content = 113\<rparr>"

lemma memory_create: "on_world (writer_create memory_writer k) s =
    (s\<lparr>scope_world := scope_world s @ [Some (k \<noteq> BLOB, [])]\<rparr>, Inr (replicate (length (scope_world s)) 0))"
  by (simp add: on_world_def memory_writer_def)

lemma large_blob_converted:
  "\<exists>s' bs'. Convert memory_writer [large_blob] \<lparr>locators = [], scope_world = []\<rparr> = (s', Inr bs')"
proof -
  have "\<exists>s'. write_pieces memory_writer False (replicate (TEMP_LOB_THRESHOLD_BYTES + 1) 7) 0 [] 1 0
      \<lparr>locators = [[]], scope_world = [Some (False, [])]\<rparr> = (s', Inr [])"
    by (rule memory_takes_pieces) simp_all
  then show ?thesis
    by (auto simp: ConvertBind_def IsLargeLob_def large_blob_def TEMP_LOB_THRESHOLD_BYTES_def TEMP_LOB_MAXIMUM_BYTES_def
        memory_create returning_def after_def)
qed

lemma large_values_stored_witness:
  "\<exists>s' bs'. Convert memory_writer [large_blob] \<lparr>locators = [], scope_world = []\<rparr> = (s', Inr bs') \<and>
     list_all2 (kept_value memory_lobs s') [large_blob] bs'"
  using large_blob_converted large_values_stored[OF memory_keeps_lobs, of "[large_blob]" "[]"] by blast

lemma temporary_lobs_released_witness:
  "\<exists>s' s'' bs'. Convert memory_writer [large_blob] \<lparr>locators = [], scope_world = []\<rparr> = (s', Inr bs') \<and>
     Release memory_writer s' = (s'', Inr ()) \<and> memory_lobs (scope_world s'') = memory_lobs [] \<and> locators s'' = []"
proof -
  obtain s' bs' where c: "Convert memory_writer [large_blob] \<lparr>locators = [], scope_world = []\<rparr> = (s', Inr bs')"
    using large_blob_converted by blast
  obtain s'' where r: "Release memory_writer s' = (s'', Inr ())"
    by (cases "locators s' = []") (simp_all add: Release_def on_world_def memory_writer_def)
  show ?thesis using c r temporary_lobs_released[OF memory_keeps_lobs c r] by blast
qed

end
