(* ===== verification/Local_Reader.thy ===== *)
theory Local_Reader
  imports Byte_Buffer
begin

text \<open>
  Readers that depend on nothing but the bytes they consume: whatever such a reader returned in one buffer, it
  returns for the same bytes in every other one. The operations of \<^verbatim>\<open>ByteReader\<close> that do not look ahead have the
  property and sequencing keeps it, so a value can be cut out of a message, kept, and read again on its own.
\<close>

named_theorems local_intros

locale local_reader =
  fixes m :: "'a reader"
  assumes local: "m (reader_at pre post) = Inr (a, r') \<Longrightarrow>
      \<exists>w rest. post = w @ rest \<and> r' = reader_at (pre @ w) rest \<and> parses m w a"
begin

lemma consumed:
  assumes "m (reader_at pre post) = Inr (a, r')"
  obtains w rest where "post = w @ rest" "r' = reader_at (pre @ w) rest" "parses m w a"
  using local[OF assms] by blast

text \<open>The consumed bytes on their own read the same.\<close>

lemma cut_out:
  assumes "m (reader_at pre post) = Inr (a, r')"
  shows "m (new_reader (take (rd_position r' - length pre) post)) =
    Inr (a, reader_at (take (rd_position r' - length pre) post) [])"
  using assms by (elim consumed) (simp add: parses_all)

end

lemma read_exactly:
  assumes "m (reader_at pre (w @ rest)) = Inr (a, r')" "parses m w b"
  shows "a = b \<and> r' = reader_at (pre @ w) rest"
  using assms(1) parsesD[OF assms(2), of pre rest] by simp

lemma exactly_local:
  assumes "m (reader_at pre post) = Inr (a, r')" "post = w @ rest" "parses m w b"
  shows "\<exists>w rest. post = w @ rest \<and> r' = reader_at (pre @ w) rest \<and> parses m w a"
  using read_exactly[OF _ assms(3)] assms by blast

lemma local_ret [local_intros]: "local_reader (ret a)"
proof
  fix pre post b r'
  assume "ret a (reader_at pre post) = Inr (b, r')"
  from exactly_local[OF this _ parses_ret]
  show "\<exists>w rest. post = w @ rest \<and> r' = reader_at (pre @ w) rest \<and> parses (ret a) w b" by simp
qed

lemma local_raise [local_intros]: "local_reader (raise k)"
  by unfold_locales (simp add: raise_def)

lemma local_bindr [local_intros]:
  assumes "local_reader m" "\<And>a. local_reader (f a)"
  shows "local_reader (bindr m f)"
proof
  fix pre post b r'
  assume "bindr m f (reader_at pre post) = Inr (b, r')"
  then obtain a r1 where 1: "m (reader_at pre post) = Inr (a, r1)" "f a r1 = Inr (b, r')" by (auto simp: bindr_simps)
  from 1(1) obtain w rest where w: "post = w @ rest" "r1 = reader_at (pre @ w) rest" "parses m w a"
    by (rule local_reader.consumed[OF assms(1)])
  from 1(2)[unfolded w(2)] obtain v rest' where v: "rest = v @ rest'" "r' = reader_at ((pre @ w) @ v) rest'" "parses (f a) v b"
    by (rule local_reader.consumed[OF assms(2)])
  have "post = (w @ v) @ rest' \<and> r' = reader_at (pre @ w @ v) rest' \<and> parses (bindr m f) (w @ v) b"
    using w v parses_bind by simp
  then show "\<exists>w rest. post = w @ rest \<and> r' = reader_at (pre @ w) rest \<and> parses (bindr m f) w b" by blast
qed

lemma local_thenr [local_intros]: "\<lbrakk>local_reader m; local_reader n\<rbrakk> \<Longrightarrow> local_reader (thenr m n)"
  unfolding thenr_def by (rule local_bindr)

lemma local_if [local_intros]: "\<lbrakk>c \<Longrightarrow> local_reader m; \<not> c \<Longrightarrow> local_reader n\<rbrakk> \<Longrightarrow> local_reader (if c then m else n)"
  by simp

lemma local_option [local_intros]:
  "\<lbrakk>x = None \<Longrightarrow> local_reader m; \<And>a. x = Some a \<Longrightarrow> local_reader (f a)\<rbrakk> \<Longrightarrow> local_reader (case x of None \<Rightarrow> m | Some a \<Rightarrow> f a)"
  by (cases x) auto

lemma local_refuse [local_intros]: "local_reader (refuse c k)"
  unfolding refuse_def by (intro local_intros)

lemma local_whenr [local_intros]: "local_reader m \<Longrightarrow> local_reader (whenr c m)"
  unfolding whenr_def by (intro local_intros)

lemma local_discard [local_intros]: "local_reader m \<Longrightarrow> local_reader (discard m)"
  unfolding discard_def by (intro local_intros)

lemma local_byte [local_intros]: "local_reader ReadByte"
proof
  fix pre post and a :: u8 and r'
  assume a: "ReadByte (reader_at pre post) = Inr (a, r')"
  then obtain b rest where "post = b # rest" by (cases post) (auto simp: ReadByte_def)
  then have "post = [b] @ rest" by simp
  from exactly_local[OF a this parses_byte]
  show "\<exists>w rest. post = w @ rest \<and> r' = reader_at (pre @ w) rest \<and> parses ReadByte w a" .
qed

lemma local_raw [local_intros]: "local_reader (ReadRaw n)"
proof
  fix pre post and a :: bytes and r'
  assume a: "ReadRaw n (reader_at pre post) = Inr (a, r')"
  then have "n \<le> length post" by (auto simp: ReadRaw_def split: if_split_asm)
  then have "length (take n post) = n" by simp
  from exactly_local[OF a append_take_drop_id[symmetric] parses_raw[OF this]]
  show "\<exists>w rest. post = w @ rest \<and> r' = reader_at (pre @ w) rest \<and> parses (ReadRaw n) w a" .
qed

lemma local_skip [local_intros]: "local_reader (Skip n)"
  unfolding Skip_def by (intro local_intros)

lemma local_fixed [local_intros]: "local_reader ReadUInt16BE" "local_reader ReadUInt16LE" "local_reader ReadUInt32BE"
  unfolding ReadUInt16BE_def ReadUInt16LE_def ReadUInt32BE_def by (intro local_intros)+

lemma local_universal_loop [local_intros]: "local_reader (universal_loop n v)"
  by (induction n arbitrary: v) (simp_all add: local_intros)

lemma local_universal [local_intros]: "local_reader (ReadUniversal n)"
  unfolding ReadUniversal_def by (intro local_intros)

lemma local_ub [local_intros]: "local_reader ReadUB2" "local_reader ReadUB4" "local_reader ReadUB8"
  unfolding ReadUB2_def ReadUB4_def ReadUB8_def by (intro local_intros)+

lemma local_repeatr [local_intros]: "local_reader m \<Longrightarrow> local_reader (repeatr n m)"
  by (induction n) (simp_all add: local_intros)

lemma local_reader_cong: "(\<And>r. reader_ok r \<Longrightarrow> m r = n r) \<Longrightarrow> local_reader n \<Longrightarrow> local_reader m"
  unfolding local_reader_def parses_def by simp

text \<open>The chunked form: each chunk is consumed, then the rest of the loop.\<close>

lemma local_chunk_loop [local_intros]: "local_reader (chunk_loop m result)"
proof
  fix pre post a r'
  let ?more = "\<lambda>result n. bindr (ReadRaw (unat n)) (\<lambda>chunk. chunk_loop m (result @ chunk))"
  let ?step = "\<lambda>result (n :: u32). if n = 0 then ret (if result = [] then None else Some result)
    else if unat n > size_sub m (length result) then raise LIMIT_EXCEEDED else ?more result n"
  have turn: "parses (chunk_loop m result) (u @ v) a" if "parses ReadUB4 u n" "parses (?step result n) v a" for result u v a n
    using parses_bind[of ReadUB4 u n "?step result" v a] that
    by (subst parses_cong[where get' = "bindr ReadUB4 (?step result)"]) (simp_all only: chunk_loop_unfold)
  show "chunk_loop m result (reader_at pre post) = Inr (a, r') \<Longrightarrow>
      \<exists>w rest. post = w @ rest \<and> r' = reader_at (pre @ w) rest \<and> parses (chunk_loop m result) w a"
  proof (induction "length post" arbitrary: pre post result rule: less_induct)
    case less
    from less.prems obtain n r1 where n: "ReadUB4 (reader_at pre post) = Inr (n, r1)" "?step result n r1 = Inr (a, r')"
      using chunk_loop_unfold[of "reader_at pre post" m result] by (auto simp: bindr_simps)
    from n(1) obtain u post1 where u: "post = u @ post1" "r1 = reader_at (pre @ u) post1" "parses ReadUB4 u n"
      by (rule local_reader.consumed[OF local_ub(2)])
    have shorter: "length post1 < length post" using ub4_consumes[OF _ n(1)] u by simp
    show ?case
    proof (cases "n = 0 \<or> unat n > size_sub m (length result)")
      case True
      then have "local_reader (?step result n)" by (auto intro!: local_intros)
      from local_reader.consumed[OF this n(2)[unfolded u(2)]]
      obtain v rest where v: "post1 = v @ rest" "r' = reader_at ((pre @ u) @ v) rest" "parses (?step result n) v a" by blast
      with turn[OF u(3) v(3)] u(1) show ?thesis by (intro exI[of _ "u @ v"] exI[of _ rest]) simp
    next
      case False
      with n(2) obtain chunk r2 where c: "ReadRaw (unat n) r1 = Inr (chunk, r2)" "chunk_loop m (result @ chunk) r2 = Inr (a, r')"
        by (auto simp: bindr_simps)
      from c(1)[unfolded u(2)] obtain v post2 where v: "post1 = v @ post2" "r2 = reader_at ((pre @ u) @ v) post2" "parses (ReadRaw (unat n)) v chunk"
        by (rule local_reader.consumed[OF local_raw])
      have "length post2 < length post" using shorter v(1) by simp
      from less.hyps[OF this c(2)[unfolded v(2)]]
      obtain w rest where w: "post2 = w @ rest" "r' = reader_at (((pre @ u) @ v) @ w) rest" "parses (chunk_loop m (result @ chunk)) w a" by blast
      have "parses (?step result n) (v @ w) a"
        using False parses_bind[of "ReadRaw (unat n)" v chunk "\<lambda>chunk. chunk_loop m (result @ chunk)" w a] v(3) w(3) by simp
      with turn[OF u(3) this] u(1) v(1) w(1,2) show ?thesis by (intro exI[of _ "u @ v @ w"] exI[of _ rest]) simp
    qed
  qed
qed

lemma local_length_prefixed [local_intros]: "local_reader (ReadLengthPrefixed n)"
  unfolding ReadLengthPrefixed_def by (intro local_intros)

end
