(* ===== verification/Lob_Prefetch.thy ===== *)
theory Lob_Prefetch
  imports Ttc_Lob Ttc_Define Local_Reader
begin

text \<open>
  \<^verbatim>\<open>src/include/oracle_scanner/lob_prefetch_reader.hpp\<close>, \<^verbatim>\<open>lob_prefetch_wire.hpp\<close> and
  \<^verbatim>\<open>lob_prefetch_cursor.hpp\<close>: CLOB and BLOB values whose first part arrives with the row. Which columns qualify, how many
  rows the budgets allow, the define request, one prefetched cell, and the value put together from the prefix and
  further reads.
\<close>

section \<open>Data\<close>

record lob_prefetch =
  prefetch_character :: bool
  prefetch_units :: u64
  prefix_units :: u64
  prefix_bytes_read :: bytes
  prefetch_locator :: bytes

record prefetch_limits =
  limit_prefix_units :: u32
  maximum_content_bytes :: nat
  maximum_row_bytes :: nat
  maximum_batch_bytes :: nat
  maximum_rows :: u32

definition OracleLobPrefetchLimits :: prefetch_limits where
  "OracleLobPrefetchLimits = \<lparr>limit_prefix_units = 4096, maximum_content_bytes = (2 ^ 64 - 1) div 2,
     maximum_row_bytes = 2 ^ 20, maximum_batch_bytes = 4 * 2 ^ 20, maximum_rows = 128\<rparr>"

section \<open>The profile of a cursor\<close>

definition prefetchable :: "oracle_column \<Rightarrow> bool" where
  "prefetchable c \<longleftrightarrow> character_set_form c \<le> 1 \<and>
     (oracle_type c \<in> {112, 113, 1, 2, 23, 12, 180} \<or> (oracle_type c = 96 \<and> omitted_from_row_data c))"

definition SupportsLobPrefetchColumns :: "oracle_column list \<Rightarrow> u8 \<Rightarrow> bool" where
  "SupportsLobPrefetchColumns columns field_version \<longleftrightarrow>
     \<not> (field_version < 12 \<or> columns = [] \<or> length columns > 4096) \<and>
     list_all prefetchable columns \<and> list_ex (\<lambda>c. IsOracleLobType (oracle_type c)) columns"

definition bad_limits :: "prefetch_limits \<Rightarrow> bool" where
  "bad_limits limits \<longleftrightarrow> limit_prefix_units limits > 32768 \<or> maximum_content_bytes limits = 0 \<or> maximum_row_bytes limits = 0 \<or>
     maximum_batch_bytes limits < maximum_row_bytes limits \<or> maximum_rows limits = 0 \<or> maximum_rows limits > 128 \<or>
     maximum_batch_bytes limits > 64 * 2 ^ 20"

definition cell_estimate :: "prefetch_limits \<Rightarrow> oracle_column \<Rightarrow> nat" where
  "cell_estimate limits c =
     (let cell = unat (byte_width c) in
      if IsOracleLobType (oracle_type c) then unat (limit_prefix_units limits) * (if oracle_type c = 112 then 2 else 1) + 4096 + 64
      else if oracle_type c = 1 then (if cell = 0 then 131068 else cell)
      else if oracle_type c = 23 then (if cell = 0 then 32767 else cell)
      else if oracle_type c = 2 then max cell 22
      else if oracle_type c = 12 then max cell 7
      else if oracle_type c = 180 then max cell 11
      else cell)"

fun row_estimate :: "prefetch_limits \<Rightarrow> nat \<Rightarrow> oracle_column list \<Rightarrow> nat result" where
  "row_estimate limits per_row [] = Inr per_row"
| "row_estimate limits per_row (c # columns) =
     (if omitted_from_row_data c then row_estimate limits per_row columns
      else if cell_estimate limits c > maximum_row_bytes limits - per_row then throw LIMIT_EXCEEDED
      else row_estimate limits (per_row + cell_estimate limits c) columns)"

definition BoundedLobPrefetchRows :: "oracle_column list \<Rightarrow> nat \<Rightarrow> prefetch_limits \<Rightarrow> u32 result" where
  "BoundedLobPrefetchRows columns desired limits =
     (if \<not> SupportsLobPrefetchColumns columns 12 \<or> desired = 0 \<or> bad_limits limits then throw MALFORMED
      else andthen (row_estimate limits 0 columns) (\<lambda>per_row.
        Inr (of_nat (min desired (min (unat (maximum_rows limits)) (maximum_batch_bytes limits div max per_row 1))))))"

section \<open>Requests\<close>

definition WritePrefetchColumn :: "prefetch_limits \<Rightarrow> oracle_column \<Rightarrow> byte_writer \<Rightarrow> byte_writer" where
  "WritePrefetchColumn limits c =
     (let type = (if oracle_type c = 96 then 1 else oracle_type c);
          lob = IsOracleLobType type;
          maximum = (if lob then 0 else if type = 1 then 131068 else if type = 23 then 32767 else 0x7fffffff)
      in writes
       [WriteByte (ucast type), WriteByte 3, WriteByte 0, WriteByte 0,
        WriteUB4 maximum, WriteUB4 0, WriteUB8 (if lob then LOB_PREFETCH_FLAG else if type = 1 then 16 else 0),
        WriteUB4 0, WriteUB2 0, WriteUB2 873, WriteByte 1,
        WriteUB4 (if lob then limit_prefix_units limits else 0), WriteUB4 0])"

definition EncodeLobPrefetchDefine ::
  "u8 \<Rightarrow> u32 \<Rightarrow> oracle_column list \<Rightarrow> u32 \<Rightarrow> u8 \<Rightarrow> prefetch_limits \<Rightarrow> bytes result" where
  "EncodeLobPrefetchDefine sequence cursor columns row_count field_version limits =
     (if sequence = 0 \<or> cursor = 0 \<or> \<not> SupportsLobPrefetchColumns columns field_version \<or> row_count = 0 then throw MALFORMED
      else andthen (BoundedLobPrefetchRows columns (unat row_count) limits) (\<lambda>bounded.
      if bounded \<noteq> row_count then throw MALFORMED
      else Inr (writes
      ([WriteByte TTC_MESSAGE_FUNCTION, WriteByte TTC_FUNCTION_EXECUTE, WriteByte sequence, WriteUB4 0x8050, WriteUB4 cursor,
        WriteByte 0, WriteUB4 0, WriteByte 1, WriteUB4 13, WriteByte 0, WriteByte 0,
        WriteUB4 0, WriteUB4 0, WriteUB4 0x7fffffff, WriteByte 0, WriteUB4 0] @
       map (\<lambda>i. WriteByte 0) [0..<5] @
       [WriteByte 1, WriteUB4 (of_nat (length columns)), WriteUB4 0,
        WriteByte 0, WriteByte 1, WriteByte 0, WriteUB4 0, WriteByte 0, WriteUB4 0, WriteUB4 0,
        WriteByte 0, WriteUB4 0, WriteByte 0,
        WriteByte 0, WriteUB4 0, WriteByte 0, WriteUB4 0, WriteByte 0,
        WriteByte 0, WriteUB4 0] @
       map (\<lambda>i. WriteUB4 (if i = 1 then row_count else if i = 7 then 1 else 0)) [0..<13] @
       map (WritePrefetchColumn limits) columns) [])))"

text \<open>The probe of a single column: the statement first, and with a cursor its define.\<close>

definition EncodeLobPrefetchProbeRequest ::
  "u8 \<Rightarrow> u32 \<Rightarrow> string \<Rightarrow> u16 \<Rightarrow> u8 \<Rightarrow> u32 \<Rightarrow> u8 \<Rightarrow> bytes result" where
  "EncodeLobPrefetchProbeRequest sequence cursor sql type form units field_version =
     (let define_call = cursor \<noteq> 0 in
      if sequence = 0 \<or> field_version \<noteq> 12 \<or> units > 32768 \<or> (type \<noteq> 112 \<and> type \<noteq> 113) \<or> (form \<noteq> 1 \<and> form \<noteq> 2) \<or>
         (if define_call then sql \<noteq> [] else sql = [] \<or> length sql > 2 ^ 20 \<or> CHR 0x00 \<in> set sql)
      then throw MALFORMED
      else Inr (writes
      ([WriteByte 3, WriteByte 94, WriteByte sequence,
        WriteUB4 (if define_call then 0x8050 else 0x8021), WriteUB4 cursor,
        WriteByte (if define_call then 0 else 1), WriteUB4 (of_nat (length sql)),
        WriteByte 1, WriteUB4 13, WriteByte 0, WriteByte 0,
        WriteUB4 0, WriteUB4 (if define_call then 0 else 1), WriteUB4 0x7fffffff,
        WriteByte 0, WriteUB4 0] @
       map (\<lambda>i. WriteByte 0) [0..<5] @
       [WriteByte (if define_call then 1 else 0), WriteUB4 (if define_call then 1 else 0), WriteUB4 0,
        WriteByte 0, WriteByte 1, WriteByte 0, WriteUB4 0, WriteByte 0, WriteUB4 0, WriteUB4 0,
        WriteByte 0, WriteUB4 0, WriteByte 0,
        WriteByte 0, WriteUB4 0, WriteByte 0, WriteUB4 0, WriteByte 0,
        WriteByte 0, WriteUB4 0] @
       (if define_call then [] else [WriteLengthPrefixed (Some (to_bytes sql))]) @
       map (\<lambda>i. WriteUB4 (if i = 0 then (if define_call then 0 else 1) else if i = 1 then (if define_call then 1 else 0)
              else if i = 7 then 1 else if i = 9 \<and> \<not> define_call then 0x8000 else 0)) [0..<13] @
       (if define_call then
         [WriteByte (ucast type), WriteByte 3, WriteByte 0, WriteByte 0,
          WriteUB4 0, WriteUB4 0, WriteUB8 0x02000000, WriteUB4 0, WriteUB2 0,
          WriteUB2 (if form = 2 then 2000 else 873), WriteByte form, WriteUB4 units, WriteUB4 0] else [])) []))"

section \<open>A prefetched cell\<close>

text \<open>
  The character set that goes with a prefix: UTF-16, stated or that of a national column. A cursor also takes an
  empty CLOB without one.
\<close>

definition read_charset :: "bool \<Rightarrow> u16 \<Rightarrow> u64 \<Rightarrow> unit reader" where
  "read_charset empty_allowed national_charset units =
     bindr ReadByte (\<lambda>has_charset.
     thenr (refuse (has_charset > 1) MALFORMED)
     (bindr (if has_charset \<noteq> 0 then ReadUB2 else ret national_charset) (\<lambda>charset.
      bindr ReadByte (\<lambda>form.
      refuse (\<not> (empty_allowed \<and> has_charset = 0 \<and> form = 1 \<and> units = 0) \<and>
              (charset \<noteq> 2000 \<or> (form \<noteq> 1 \<and> form \<noteq> 2) \<or> (has_charset = 0 \<and> form \<noteq> 2))) UNSUPPORTED))))"

definition read_prefix :: "bool \<Rightarrow> bool \<Rightarrow> u32 \<Rightarrow> u16 \<Rightarrow> u64 \<Rightarrow> bytes reader" where
  "read_prefix empty_allowed character requested national_charset units =
     thenr (whenr character (read_charset empty_allowed national_charset units))
     (bindr (ReadLengthPrefixed (unat requested * unit_width character)) (\<lambda>part.
      let content = (case part of None \<Rightarrow> [] | Some p \<Rightarrow> p) in
      thenr (refuse (length content mod unit_width character \<noteq> 0) MALFORMED)
      (thenr (refuse (of_nat (length content div unit_width character) > units) MALFORMED)
      (ret content))))"

definition read_prefetch_cell :: "bool \<Rightarrow> bool \<Rightarrow> u32 \<Rightarrow> nat \<Rightarrow> u16 \<Rightarrow> lob_prefetch option reader" where
  "read_prefetch_cell empty_allowed character requested content_budget national_charset =
     (if requested > 32768 \<or> content_budget = 0 then raise MALFORMED
      else bindr ReadUB4 (\<lambda>locator_size.
        if locator_size = 0 then ret None
        else if locator_size > 4096 then raise LIMIT_EXCEEDED
        else bindr ReadUB8 (\<lambda>units.
        thenr (refuse (unat units > content_budget div unit_width character) LIMIT_EXCEEDED)
        (thenr ReadUB4
        (bindr (if requested \<noteq> 0 then read_prefix empty_allowed character requested national_charset units else ret []) (\<lambda>content.
         bindr (ReadLengthPrefixed (unat locator_size)) (\<lambda>locator.
         case locator of
           None \<Rightarrow> raise MALFORMED
         | Some l \<Rightarrow> if length l \<noteq> unat locator_size then raise MALFORMED
             else ret (Some \<lparr>prefetch_character = character, prefetch_units = units,
               prefix_units = of_nat (length content div unit_width character), prefix_bytes_read = content, prefetch_locator = l\<rparr>))))))))"

definition DecodeLobPrefetchProbeCell :: "bool \<Rightarrow> u32 \<Rightarrow> nat \<Rightarrow> u16 \<Rightarrow> lob_prefetch option reader" where
  "DecodeLobPrefetchProbeCell = read_prefetch_cell False"

definition DecodeCursorLobPrefetchCell :: "bool \<Rightarrow> u32 \<Rightarrow> nat \<Rightarrow> u16 \<Rightarrow> lob_prefetch option reader" where
  "DecodeCursorLobPrefetchCell = read_prefetch_cell True"

definition DecodeStoredLobPrefetch :: "bytes \<Rightarrow> bool \<Rightarrow> prefetch_limits \<Rightarrow> lob_prefetch result" where
  "DecodeStoredLobPrefetch cell character limits =
     (if length cell > maximum_row_bytes limits then throw LIMIT_EXCEEDED
      else andthen (run_prefix (DecodeCursorLobPrefetchCell character (limit_prefix_units limits) (maximum_content_bytes limits) 0) cell)
        (\<lambda>(v, used). case v of None \<Rightarrow> throw MALFORMED | Some p \<Rightarrow> if used \<noteq> length cell then throw MALFORMED else Inr p))"

section \<open>The whole value\<close>

type_synonym 's locator_source = "bytes \<Rightarrow> u64 \<Rightarrow> u64 \<Rightarrow> ('s, lob_response) action"

definition bad_remainder :: "bool \<Rightarrow> lob_response \<Rightarrow> u64 \<Rightarrow> bool" where
  "bad_remainder character r requested \<longleftrightarrow>
     served_amount r > requested \<or> length (lob_data r) \<noteq> unat (served_amount r) * unit_width character"

lemma remainder_progress:
  assumes "\<not> bad_remainder character r (min (lob_units - served) chunk)" "served_amount r \<noteq> 0" "served < lob_units"
  shows "unat lob_units - unat (served + served_amount r) < unat lob_units - unat served"
    "unat (served + served_amount r) = unat served + unat (served_amount r)"
    "unat (served_amount r) \<le> unat lob_units - unat served"
proof -
  let ?r = "\<lparr>lob_data = [1], served_amount = served_amount r\<rparr> :: lob_response"
  have pos: "0 < unat (served_amount r)" using assms(2) by (simp add: unat_gt_0)
  have le: "served_amount r \<le> min (lob_units - served) chunk" using assms(1) unfolding bad_remainder_def by (simp only: not_less de_Morgan_disj)
  have "0 < unat (min (lob_units - served) chunk)" using le pos by (simp add: word_le_nat_alt)
  then have "append_response character [] ?r (min (lob_units - served) chunk) = Inr [1]"
    using le assms(2) by (auto simp: append_response_def unit_width_def MAX_VECTOR_BYTES_def not_less Suc_le_eq)
  from served_progress[OF this _ assms(3)] assms(2)
  show "unat lob_units - unat (served + served_amount r) < unat lob_units - unat served"
    "unat (served + served_amount r) = unat served + unat (served_amount r)"
    "unat (served_amount r) \<le> unat lob_units - unat served" by simp_all
qed

function read_remainder :: "'s locator_source \<Rightarrow> lob_prefetch \<Rightarrow> u64 \<Rightarrow> bytes \<Rightarrow> ('s, bytes) action" where
  "read_remainder source lob served content s =
     (if served < prefetch_units lob
      then let requested = min (prefetch_units lob - served) (chunk_units (prefetch_character lob)) in
        case source (prefetch_locator lob) (served + 1) requested s of
          (s', Inl e) \<Rightarrow> (s', Inl e)
        | (s', Inr r) \<Rightarrow>
            if bad_remainder (prefetch_character lob) r requested then (s', throw MALFORMED)
            else if served_amount r = 0 then (s', throw TRUNCATED)
            else read_remainder source lob (served + served_amount r) (content @ lob_data r) s'
      else (s, Inr content))"
  by pat_completeness auto
termination
  by (relation "measure (\<lambda>(source, lob, served, content, s). unat (prefetch_units lob) - unat served)")
    (auto intro: remainder_progress(1))

declare read_remainder.simps [simp del]

definition over_bounds :: "lob_prefetch \<Rightarrow> nat \<Rightarrow> nat \<Rightarrow> bool" where
  "over_bounds lob maximum_prefix maximum_content \<longleftrightarrow>
     length (prefix_bytes_read lob) > maximum_prefix \<or> length (prefetch_locator lob) > 4096 \<or>
     unat (prefetch_units lob) > maximum_content div unit_width (prefetch_character lob)"

definition inconsistent_prefetch :: "lob_prefetch \<Rightarrow> nat \<Rightarrow> bool" where
  "inconsistent_prefetch lob maximum_prefix \<longleftrightarrow>
     prefix_units lob > prefetch_units lob \<or> unat (prefix_units lob) > maximum_prefix div unit_width (prefetch_character lob) \<or>
     length (prefix_bytes_read lob) \<noteq> unat (prefix_units lob) * unit_width (prefetch_character lob) \<or>
     (prefix_units lob < prefetch_units lob \<and> prefetch_locator lob = [])"

definition MaterializePrefetchedOracleLob ::
  "'s locator_source \<Rightarrow> nat \<Rightarrow> nat \<Rightarrow> lob_prefetch option \<Rightarrow> ('s, bytes option) action" where
  "MaterializePrefetchedOracleLob source maximum_prefix maximum_content v =
     (if maximum_prefix = 0 \<or> maximum_prefix > 65536 \<or> maximum_content = 0 then failing MALFORMED
      else case v of
          None \<Rightarrow> returning None
        | Some lob \<Rightarrow>
            if over_bounds lob maximum_prefix maximum_content then failing LIMIT_EXCEEDED
            else if inconsistent_prefetch lob maximum_prefix then failing MALFORMED
            else if unat (prefetch_units lob) > MAX_VECTOR_BYTES div unit_width (prefetch_character lob) then failing LIMIT_EXCEEDED
            else after (read_remainder source lob (prefix_units lob) (prefix_bytes_read lob)) (\<lambda>content. returning (Some content)))"

section \<open>The value is complete\<close>

definition serves_locator :: "'s locator_source \<Rightarrow> ('s \<Rightarrow> bool) \<Rightarrow> bytes \<Rightarrow> bool \<Rightarrow> bytes \<Rightarrow> bool" where
  "serves_locator source holds locator character content \<longleftrightarrow>
     (\<forall>s offset amount. holds s \<longrightarrow> 1 \<le> unat offset \<longrightarrow>
        (\<exists>s' r. source locator offset amount s = (s', Inr r) \<and> holds s' \<and> serves_part character content offset amount r))"

definition prefetched_from :: "bytes \<Rightarrow> lob_prefetch \<Rightarrow> bool" where
  "prefetched_from content lob \<longleftrightarrow> lob_fits (prefetch_character lob) content \<and>
     length content div unit_width (prefetch_character lob) = unat (prefetch_units lob) \<and>
     prefix_units lob \<le> prefetch_units lob \<and>
     prefix_bytes_read lob = take (unit_width (prefetch_character lob) * unat (prefix_units lob)) content"

lemma part_size:
  assumes "lob_fits character content" "serves_part character content offset amount r"
  shows "length (lob_data r) = unat (served_amount r) * unit_width character"
proof -
  define w n where "w = unit_width character" and "n = length content div unit_width character"
  have len: "length content = w * n" using assms(1) by (auto simp: w_def n_def lob_fits_def)
  have "unat (served_amount r) \<le> n - (unat offset - 1)" using assms(2) by (simp add: serves_part_def units_left_def n_def)
  then have "w * unat (served_amount r) \<le> w * n - w * (unat offset - 1)" unfolding diff_mult_distrib2[symmetric] by (rule mult_le_mono2)
  moreover have "lob_data r = take (w * unat (served_amount r)) (drop (w * (unat offset - 1)) content)"
    using assms(2) by (simp add: serves_part_def w_def)
  ultimately show ?thesis by (simp add: len w_def[symmetric] min_absorb2 mult.commute)
qed

lemma read_remainder_serves:
  assumes serves: "serves_locator source holds (prefetch_locator lob) (prefetch_character lob) content"
    and fits: "lob_fits (prefetch_character lob) content"
    and units: "length content div unit_width (prefetch_character lob) = unat (prefetch_units lob)"
  shows "\<lbrakk>holds s; served \<le> prefetch_units lob\<rbrakk> \<Longrightarrow>
    \<exists>s'. read_remainder source lob served (take (unit_width (prefetch_character lob) * unat served) content) s = (s', Inr content) \<and> holds s'"
proof (induction "unat (prefetch_units lob) - unat served" arbitrary: served s rule: less_induct)
  case less
  let ?w = "unit_width (prefetch_character lob)"
  show ?case
  proof (cases "served < prefetch_units lob")
    case False
    then have "served = prefetch_units lob" using less.prems(2) by simp
    moreover have "length content = ?w * unat (prefetch_units lob)"
      using fits units by (simp add: lob_fits_def) (metis dvd_mult_div_cancel mod_0_imp_dvd)
    ultimately show ?thesis using less.prems(1) by (simp add: read_remainder.simps)
  next
    case True
    let ?amount = "min (prefetch_units lob - served) (chunk_units (prefetch_character lob))"
    have lt: "unat served < unat (prefetch_units lob)" using True by (simp add: word_less_nat_alt)
    have "unat served + 1 < 2 ^ 64" using lt unsigned_less[of "prefetch_units lob", where 'a = nat] by simp
    then have off: "unat (served + 1) = unat served + 1" using unat_add_lem[of served 1] by simp
    have "1 \<le> unat (served + 1)" unfolding off by simp
    then obtain s' r where r: "source (prefetch_locator lob) (served + 1) ?amount s = (s', Inr r)" "holds s'"
      "serves_part (prefetch_character lob) content (served + 1) ?amount r"
      using serves less.prems(1) unfolding serves_locator_def by metis
    have "served_amount r \<le> ?amount" using r(3) by (simp add: serves_part_def word_le_nat_alt)
    then have good: "\<not> bad_remainder (prefetch_character lob) r ?amount"
      unfolding bad_remainder_def using part_size[OF fits r(3)] by (simp only: not_less de_Morgan_disj simp_thms)
    have "0 < unat ?amount" using True lt by (auto simp: min_def chunk_units_def word_le_nat_alt unat_sub)
    then have "0 < unat (served_amount r)" using r(3) off lt units by (simp add: serves_part_def units_left_def)
    then have pos: "served_amount r \<noteq> 0" by auto
    note progress = remainder_progress[OF good pos True]
    have le: "served + served_amount r \<le> prefetch_units lob" using progress(2,3) lt by (simp add: word_le_nat_alt)
    have data: "take (?w * unat served) content @ lob_data r = take (?w * unat (served + served_amount r)) content"
      using r(3) off unfolding progress(2) by (simp add: serves_part_def take_add distrib_left)
    from less.hyps[OF progress(1) r(2) le] data
    show ?thesis using True pos good by (simp add: read_remainder.simps[of _ _ served] r(1) Let_def)
  qed
qed

lemma prefetched_value_complete:
  assumes "serves_locator source holds (prefetch_locator lob) (prefetch_character lob) content" "prefetched_from content lob" "holds s"
    and "0 < maximum_prefix" "maximum_prefix \<le> 65536" "0 < maximum_content" "\<not> over_bounds lob maximum_prefix maximum_content"
    and "prefetch_locator lob \<noteq> []"
  shows "\<exists>s'. MaterializePrefetchedOracleLob source maximum_prefix maximum_content (Some lob) s = (s', Inr (Some content))"
proof -
  let ?w = "unit_width (prefetch_character lob)"
  have fits: "lob_fits (prefetch_character lob) content" and units: "length content div ?w = unat (prefetch_units lob)"
    and le: "prefix_units lob \<le> prefetch_units lob" and part: "prefix_bytes_read lob = take (?w * unat (prefix_units lob)) content"
    using assms(2) by (simp_all add: prefetched_from_def)
  have w: "0 < ?w" by (rule unit_width_pos)
  have "length content = ?w * unat (prefetch_units lob)"
    using fits units by (simp add: lob_fits_def) (metis dvd_mult_div_cancel mod_0_imp_dvd)
  then have len: "length (prefix_bytes_read lob) = unat (prefix_units lob) * ?w"
    using le part by (simp add: word_le_nat_alt min_absorb2 mult.commute)
  moreover have "unat (prefix_units lob) * ?w \<le> maximum_prefix" using assms(7) len by (simp add: over_bounds_def)
  then have "unat (prefix_units lob) \<le> maximum_prefix div ?w" using w by (simp add: less_eq_div_iff_mult_less_eq)
  ultimately have "\<not> inconsistent_prefetch lob maximum_prefix"
    using le assms(8) by (simp add: inconsistent_prefetch_def not_less)
  moreover have "unat (prefetch_units lob) \<le> MAX_VECTOR_BYTES div ?w"
    using fits unfolding units[symmetric] lob_fits_def by (simp add: div_le_mono)
  moreover obtain s' where "read_remainder source lob (prefix_units lob) (prefix_bytes_read lob) s = (s', Inr content)"
    using read_remainder_serves[OF assms(1) fits units assms(3) le] part by auto
  ultimately show ?thesis
    using assms(4-7) by (simp add: MaterializePrefetchedOracleLob_def returning_def)
qed

section \<open>Cells cut out of a row\<close>

lemma local_read_charset [local_intros]: "local_reader (read_charset e n u)"
  unfolding read_charset_def by (intro local_intros)

lemma local_read_prefix [local_intros]: "local_reader (read_prefix e ch q n u)"
  unfolding read_prefix_def Let_def by (intro local_intros)

lemma local_prefetch_cell [local_intros]: "local_reader (read_prefetch_cell e ch q b n)"
  unfolding read_prefetch_cell_def by (intro local_intros)

lemma wire_prefetch_cell [wire_intros]: "wire_reader (read_prefetch_cell e ch q b n)"
  unfolding read_prefetch_cell_def read_prefix_def read_charset_def Let_def by (intro wire_intros)

interpretation cursor_cell: local_reader "DecodeCursorLobPrefetchCell ch q b n" for ch q b n
  unfolding DecodeCursorLobPrefetchCell_def by (rule local_prefetch_cell)

end
