(* ===== verification/Prefetch_Fetch.thy ===== *)
theory Prefetch_Fetch
  imports Lob_Prefetch Ttc_Call
begin

text \<open>
  \<^verbatim>\<open>src/lob_prefetch_fetch.cpp\<close>: the response to a fetch of prefetched LOB columns. The messages are those of
  an ordinary fetch; a LOB cell is kept as the slice of the message it came in, and rows and batches have byte
  budgets that a repeated column counts against too.
\<close>

section \<open>Rows\<close>

text \<open>A LOB cell: what it takes on the wire is what is stored.\<close>

definition stored_cell :: "prefetch_limits \<Rightarrow> bool \<Rightarrow> nat \<Rightarrow> bytes option reader" where
  "stored_cell limits character left r =
     (case DecodeCursorLobPrefetchCell character (limit_prefix_units limits) (maximum_content_bytes limits) 0 r of
        Inl e \<Rightarrow> Inl e
      | Inr (None, r') \<Rightarrow> Inr (None, r')
      | Inr (Some _, r') \<Rightarrow>
          let size = rd_position r' - rd_position r in
          if size > left then throw LIMIT_EXCEEDED
          else Inr (Some (take size (drop (rd_position r) (rd_data r))), r'))"

definition prefetched_cell :: "prefetch_limits \<Rightarrow> oracle_column \<Rightarrow> nat \<Rightarrow> bytes option reader" where
  "prefetched_cell limits c row_bytes =
     (if IsOracleLobType (oracle_type c) then stored_cell limits (oracle_type c = 112) (maximum_row_bytes limits - row_bytes)
      else ReadLengthPrefixed (maximum_row_bytes limits - row_bytes))"

definition cell_size :: "bytes option \<Rightarrow> nat" where
  "cell_size v = (case v of None \<Rightarrow> 0 | Some b \<Rightarrow> length b)"

fun prefetched_cells :: "prefetch_limits \<Rightarrow> oracle_column list \<Rightarrow> nat \<Rightarrow> nat list \<Rightarrow> ttc_row_data reader" where
  "prefetched_cells limits columns row_bytes [] = ret []"
| "prefetched_cells limits columns row_bytes (i # is) =
     (if i \<ge> length columns then raise MALFORMED
      else bindr (prefetched_cell limits (columns ! i) row_bytes) (\<lambda>v.
           bindr (prefetched_cells limits columns (row_bytes + cell_size v) is) (\<lambda>vs. ret (v # vs))))"

definition DecodePrefetchedRow :: "nat list \<Rightarrow> oracle_column list \<Rightarrow> prefetch_limits \<Rightarrow> ttc_row_data decoder" where
  "DecodePrefetchedRow wire_columns columns limits = run_prefix (bindr ReadByte (\<lambda>t.
     thenr (refuse (t \<noteq> TTC_MESSAGE_ROW_DATA) MALFORMED) (prefetched_cells limits columns 0 wire_columns)))"

definition PrefetchWireColumns :: "oracle_column list \<Rightarrow> nat list option \<Rightarrow> nat list result" where
  "PrefetchWireColumns columns selection =
     (case selection of
        Some cs \<Rightarrow> if list_ex (\<lambda>c. c \<ge> length columns) cs then throw MALFORMED
                   else Inr (filter (\<lambda>c. \<not> omitted_from_row_data (columns ! c)) cs)
      | None \<Rightarrow> Inr (filter (\<lambda>c. \<not> omitted_from_row_data (columns ! c)) [0..<length columns]))"

definition PrefetchExpandRow :: "nat \<Rightarrow> nat list \<Rightarrow> ttc_row_data \<Rightarrow> ttc_row_data result" where
  "PrefetchExpandRow column_count wire_columns values =
     (if length wire_columns \<noteq> length values then throw MALFORMED
      else Inr (place wire_columns values (replicate column_count None)))"

section \<open>The decoder\<close>

record prefetch_decoder =
  pf_columns :: "oracle_column list"
  pf_limits :: prefetch_limits
  pf_field_version :: u8
  pf_preceding_row :: "ttc_row_data option"
  pf_rows :: "ttc_row_data list"
  pf_completion :: "ttc_error_info option"
  pf_exhausted :: bool
  pf_completed :: bool
  pf_used_selection :: bool
  pf_used_continuation :: bool
  pf_bytes_consumed :: nat
  pf_resume_offset :: nat
  pf_kept_rows :: nat
  pf_kept_batch_bytes :: nat
  pf_kept_selection :: bool
  pf_kept_continuation :: bool

definition LobPrefetchFetchResponseDecoder ::
  "oracle_column list \<Rightarrow> prefetch_limits \<Rightarrow> u8 \<Rightarrow> ttc_row_data option \<Rightarrow> prefetch_decoder result" where
  "LobPrefetchFetchResponseDecoder columns limits version preceding =
     (if columns = [] \<or> length columns > 4096 then throw MALFORMED
      else andthen (BoundedLobPrefetchRows columns 1 limits) (\<lambda>_.
        if (case preceding of None \<Rightarrow> False | Some row \<Rightarrow> length row \<noteq> length columns) then throw MALFORMED
        else Inr \<lparr>pf_columns = columns, pf_limits = limits, pf_field_version = version, pf_preceding_row = preceding,
          pf_rows = [], pf_completion = None, pf_exhausted = False, pf_completed = False, pf_used_selection = False,
          pf_used_continuation = False, pf_bytes_consumed = 0, pf_resume_offset = 0, pf_kept_rows = 0,
          pf_kept_batch_bytes = 0, pf_kept_selection = False, pf_kept_continuation = False\<rparr>))"

definition pf_previous_row :: "prefetch_decoder \<Rightarrow> ttc_row_data option" where
  "pf_previous_row d = (if pf_rows d \<noteq> [] then Some (last (pf_rows d)) else pf_preceding_row d)"

text \<open>The bytes of a row as it will be stored: a selected column counts with its new value, any other with the old one.\<close>

fun account_columns :: "nat \<Rightarrow> ttc_row_data option \<Rightarrow> nat list \<Rightarrow> nat list \<Rightarrow> ttc_row_data \<Rightarrow> nat \<Rightarrow> (nat \<times> nat list) result" where
  "account_columns limit previous [] selection values stored = Inr (stored, selection)"
| "account_columns limit previous (c # cs) selection values stored =
     (let kept = (case previous of None \<Rightarrow> None | Some row \<Rightarrow> row ! c);
          changed = selection \<noteq> [] \<and> hd selection = c;
          v = (if changed then hd values else kept)
      in if v \<noteq> None \<and> cell_size v > limit - stored then throw LIMIT_EXCEEDED
         else if changed then account_columns limit previous cs (tl selection) (tl values) (stored + cell_size v)
         else account_columns limit previous cs selection values (stored + cell_size v))"

definition account_row :: "prefetch_decoder \<Rightarrow> nat \<Rightarrow> ttc_row_data \<Rightarrow> nat list \<Rightarrow> ttc_row_data option \<Rightarrow> nat result" where
  "account_row d batch values selection previous =
     (if length values \<noteq> length selection \<or> (case previous of None \<Rightarrow> False | Some row \<Rightarrow> length row \<noteq> length (pf_columns d))
      then throw MALFORMED
      else andthen (account_columns (maximum_row_bytes (pf_limits d)) previous [0..<length (pf_columns d)] selection values 0)
        (\<lambda>(stored, left). if left \<noteq> [] then throw MALFORMED
          else if length (pf_rows d) \<ge> unat (maximum_rows (pf_limits d)) \<or> stored > maximum_batch_bytes (pf_limits d) - batch
          then throw LIMIT_EXCEEDED
          else Inr (batch + stored)))"

definition pf_keep_row :: "nat list option \<Rightarrow> nat \<Rightarrow> nat \<Rightarrow> ttc_row_data \<Rightarrow> prefetch_decoder \<Rightarrow> prefetch_decoder" where
  "pf_keep_row header offset batch row d =
     (let d = d\<lparr>pf_rows := pf_rows d @ [row]\<rparr> in
      if header = None
      then d\<lparr>pf_resume_offset := offset, pf_kept_rows := length (pf_rows d), pf_kept_batch_bytes := batch,
             pf_kept_selection := pf_used_selection d, pf_kept_continuation := pf_used_continuation d\<rparr>
      else d)"

text \<open>A message: as in the scalar decoder, and the bytes of the batch so far.\<close>

type_synonym prefetch_handler =
  "prefetch_decoder \<Rightarrow> nat list option \<Rightarrow> nat \<Rightarrow> nat \<Rightarrow> bytes \<Rightarrow> prefetch_decoder \<times> (nat list option \<times> nat \<times> nat) result"

definition pf_read_row :: "prefetch_decoder \<Rightarrow> nat list \<Rightarrow> ttc_row_data decoder" where
  "pf_read_row d wire at = (if wire = [] then Inr ([], 1) else DecodePrefetchedRow wire (pf_columns d) (pf_limits d) at)"

definition pf_row_data :: prefetch_handler where
  "pf_row_data d header batch offset at =
     (case andthen (PrefetchWireColumns (pf_columns d) header) (\<lambda>wire. andthen (pf_read_row d wire at) (\<lambda>v. Inr (wire, v))) of
        Inl e \<Rightarrow> (d, Inl e)
      | Inr (wire, values, used) \<Rightarrow>
          if header = None then
            (case andthen (account_row d batch values wire None) (\<lambda>batch'.
                    andthen (PrefetchExpandRow (length (pf_columns d)) wire values) (\<lambda>row. Inr (batch', row))) of
               Inl e \<Rightarrow> (d, Inl e)
             | Inr (batch', row) \<Rightarrow> (pf_keep_row None (offset + used) batch' row d, Inr (None, batch', offset + used)))
          else
            (case pf_previous_row d of
               None \<Rightarrow> (d, throw MALFORMED)
             | Some previous \<Rightarrow>
                 (case andthen (account_row d batch values wire (Some previous)) (\<lambda>batch'.
                         andthen (MergeChangedColumns previous wire values (length (pf_columns d))) (\<lambda>row. Inr (batch', row))) of
                    Inl e \<Rightarrow> (d, Inl e)
                  | Inr (batch', row) \<Rightarrow> (pf_keep_row None (offset + used) batch' row (d\<lparr>pf_used_selection := True\<rparr>),
                                          Inr (None, batch', offset + used)))))"

definition pf_row_continuation :: prefetch_handler where
  "pf_row_continuation d header batch offset at =
     (case pf_previous_row d of
        None \<Rightarrow> (d, throw MALFORMED)
      | Some previous \<Rightarrow>
          (case andthen (DecodeRowContinuationPrefix (length (pf_columns d)) at) (\<lambda>(present, used).
                andthen (PrefetchWireColumns (pf_columns d) (Some present)) (\<lambda>wire.
                andthen (DecodePrefetchedRow wire (pf_columns d) (pf_limits d) (drop used at)) (\<lambda>(values, used').
                andthen (account_row d batch values wire (Some previous)) (\<lambda>batch'.
                andthen (MergeChangedColumns previous wire values (length (pf_columns d))) (\<lambda>row.
                Inr (batch', row, used + used')))))) of
             Inl e \<Rightarrow> (d, Inl e)
           | Inr (batch', row, used) \<Rightarrow> (pf_keep_row header (offset + used) batch' row (d\<lparr>pf_used_continuation := True\<rparr>),
                                         Inr (header, batch', offset + used))))"

definition pf_end_of_call :: prefetch_handler where
  "pf_end_of_call d header batch offset at =
     (case DecodeTtcErrorPrefix (pf_field_version d) at of
        Inl e \<Rightarrow> (d, Inl e)
      | Inr (info, used) \<Rightarrow>
          let d = d\<lparr>pf_exhausted := error_number info = 1403, pf_completion := Some info\<rparr> in
          if error_number info \<noteq> 0 \<and> \<not> pf_exhausted d
          then (d, Inl (ProtocolError INVALID_STATE (Some (error_number info))))
          else (d\<lparr>pf_completed := pf_exhausted d \<or> used = length at\<rparr>, Inr (header, batch, offset + used)))"

definition prefetch_message :: prefetch_handler where
  "prefetch_message d header batch offset at =
     (let message_type = hd at in
      if message_type = 6 then
        (case DecodeRowHeaderPrefix (length (pf_columns d)) at of
           Inl e \<Rightarrow> (d, Inl e) | Inr (present, used) \<Rightarrow> (d, Inr (present, batch, offset + used)))
      else if message_type = TTC_MESSAGE_ROW_DATA then pf_row_data d header batch offset at
      else if message_type = 21 then pf_row_continuation d header batch offset at
      else if message_type = TTC_MESSAGE_PARAMETER then
        (case DecodeTtcReturnParameterPrefix at of
           Inl e \<Rightarrow> (d, Inl e) | Inr (_, used) \<Rightarrow> (d, Inr (header, batch, offset + used)))
      else if message_type = TTC_MESSAGE_ERROR then pf_end_of_call d header batch offset at
      else if message_type = TTC_MESSAGE_STATUS then
        (case run_prefix status_reader at of
           Inl e \<Rightarrow> (d, Inl e) | Inr (_, used) \<Rightarrow> (d\<lparr>pf_completed := True\<rparr>, Inr (header, batch, offset + used)))
      else if message_type = 29 then (d\<lparr>pf_completed := True\<rparr>, Inr (header, batch, offset + 1))
      else if message_type = TTC_MESSAGE_SERVER_PIGGYBACK then
        (case SkippedTtcServerPiggybackBytes at of
           Inl e \<Rightarrow> (d, Inl e) | Inr used \<Rightarrow> (d, Inr (header, batch, offset + used)))
      else (d, throw MALFORMED))"

section \<open>Every message consumes a byte\<close>

lemma wire_cursor_cell [wire_intros]: "wire_reader (DecodeCursorLobPrefetchCell ch q b n)"
  unfolding DecodeCursorLobPrefetchCell_def by (rule wire_prefetch_cell)

lemma wire_stored_cell [wire_intros]: "wire_reader (stored_cell limits ch left)"
proof
  fix r assume ok: "reader_ok r"
  let ?m = "DecodeCursorLobPrefetchCell ch (limit_prefix_units limits) (maximum_content_bytes limits) 0"
  have w: "wire_reader ?m" by (rule wire_cursor_cell)
  note x = wire_reader.extends[OF w ok] wire_reader.fails[OF w ok] wire_reader.advances[OF w ok]
  { fix a r' assume g: "stored_cell limits ch left r = Inr (a, r')"
    then obtain v where v: "?m r = Inr (v, r')" by (auto simp: stored_cell_def Let_def split: sum.splits option.splits if_split_asm)
    from x(3)[OF v] show adv: "rd_data r' = rd_data r \<and> rd_position r \<le> rd_position r' \<and> reader_ok r'" .
    show "stored_cell limits ch left (feed r ys) = Inr (a, feed r' ys)" for ys
    proof -
      have "take (rd_position r' - rd_position r) (drop (rd_position r) (rd_data r @ ys)) =
          take (rd_position r' - rd_position r) (drop (rd_position r) (rd_data r))"
        using adv ok by (auto simp: reader_ok_def)
      with g v x(1)[OF v, of ys] show ?thesis
        by (auto simp: stored_cell_def Let_def feed_def split: option.splits if_split_asm)
    qed }
  { fix e ys assume f: "stored_cell limits ch left r = Inl e"
    show "Kind e = TRUNCATED \<or> stored_cell limits ch left (feed r ys) = Inl e"
    proof (cases "?m r")
      case (Inl e')
      with f x(2)[OF Inl, of ys] show ?thesis by (auto simp: stored_cell_def)
    next
      case (Inr p)
      obtain v r' where p: "p = (v, r')" by (cases p)
      with f Inr x(1)[of v r' ys] show ?thesis
        by (auto simp: stored_cell_def Let_def feed_def split: option.splits if_split_asm)
    qed }
qed

lemma wire_prefetched_cells [wire_intros]: "wire_reader (prefetched_cells limits columns n is)"
  by (induction "is" arbitrary: n) (auto simp: prefetched_cell_def intro!: wire_intros)

interpretation prefetched_row: prefix_decoder "DecodePrefetchedRow wire columns limits" for wire columns limits
  unfolding DecodePrefetchedRow_def by (intro prefix_decoder_run wire_intros)

lemma prefetched_row_consumes: "DecodePrefetchedRow wire columns limits at = Inr (vs, used) \<Longrightarrow> 0 < used"
  unfolding DecodePrefetchedRow_def by (erule consumes_run[rotated]) (intro consumes_bind_first wire_intros consumes_byte)

lemma pf_read_row_consumes: "pf_read_row d wire at = Inr (vs, used) \<Longrightarrow> 0 < used"
  by (auto simp: pf_read_row_def dest: prefetched_row_consumes split: if_split_asm)

lemma prefetch_message_progress:
  assumes "prefetch_message d header batch offset at = (d', Inr (header', batch', offset'))"
  shows "offset < offset'"
  using assms
  by (auto simp: prefetch_message_def Let_def pf_row_data_def pf_row_continuation_def pf_end_of_call_def andthen_eq_Inr
      split: if_split_asm sum.splits option.splits dest!: decoders_consume(1,2) decoders_within(3-6) pf_read_row_consumes prefetched_row_consumes)

section \<open>The loop over the messages\<close>

function prefetch_loop :: "prefetch_decoder \<Rightarrow> nat list option \<Rightarrow> nat \<Rightarrow> nat \<Rightarrow> bytes \<Rightarrow> prefetch_decoder \<times> nat result" where
  "prefetch_loop d header batch offset message =
     (if offset < length message \<and> \<not> pf_completed d
      then case prefetch_message d header batch offset (drop offset message) of
          (d, Inl e) \<Rightarrow> (d, Inl e)
        | (d, Inr (header, batch, offset)) \<Rightarrow> prefetch_loop d header batch offset message
      else (d, Inr offset))"
  by pat_completeness auto
termination
proof (relation "measure (\<lambda>(d, header, batch, offset, message). length message - offset)", goal_cases)
  case (2 d header batch offset message d' res x header' y batch' offset')
  then have "prefetch_message d header batch offset (drop offset message) = (d', Inr (header', batch', offset'))" by simp
  from prefetch_message_progress[OF this] 2(1) show ?case by auto
qed simp

declare prefetch_loop.simps [simp del]

definition pf_restart :: "prefetch_decoder \<Rightarrow> prefetch_decoder" where
  "pf_restart d = d\<lparr>pf_rows := take (pf_kept_rows d) (pf_rows d), pf_used_selection := pf_kept_selection d,
     pf_used_continuation := pf_kept_continuation d, pf_completion := None, pf_exhausted := False, pf_completed := False\<rparr>"

definition PrefetchDecode :: "bytes \<Rightarrow> (prefetch_decoder, bool) action" where
  "PrefetchDecode message d =
     (if length message > 64 * 2 ^ 20 then (d, throw LIMIT_EXCEEDED)
      else if length message < pf_resume_offset d then (d, throw INVALID_STATE)
      else let d = pf_restart d in
        case (if pf_preceding_row d \<noteq> None \<and> pf_resume_offset d = 0
              then account_row d (pf_kept_batch_bytes d) [] [] (pf_preceding_row d) else Inr 0) of
          Inl e \<Rightarrow> (d, Inl e)
        | Inr _ \<Rightarrow>
            (case prefetch_loop d None (pf_kept_batch_bytes d) (pf_resume_offset d) message of
               (d, Inl e) \<Rightarrow> (d, Inl e)
             | (d, Inr offset) \<Rightarrow> (d\<lparr>pf_bytes_consumed := offset\<rparr>, Inr (pf_completed d))))"

definition PrefetchTake :: "prefetch_decoder \<Rightarrow> fetch_response" where
  "PrefetchTake d = \<lparr>response_rows = pf_rows d, response_last_row = pf_previous_row d, response_completion = pf_completion d,
     response_exhausted = pf_exhausted d, response_completed = pf_completed d,
     response_used_row_header_selection = pf_used_selection d,
     response_used_row_continuation = pf_used_continuation d, response_bytes_consumed = pf_bytes_consumed d\<rparr>"

definition DecodeLobPrefetchFetchResponse ::
    "bytes \<Rightarrow> oracle_column list \<Rightarrow> prefetch_limits \<Rightarrow> u8 \<Rightarrow> ttc_row_data option \<Rightarrow> fetch_response result" where
  "DecodeLobPrefetchFetchResponse message columns limits version preceding =
     andthen (LobPrefetchFetchResponseDecoder columns limits version preceding) (\<lambda>d.
       case PrefetchDecode message d of (d, Inl e) \<Rightarrow> Inl e | (d, Inr _) \<Rightarrow> Inr (PrefetchTake d))"

section \<open>What a row takes\<close>

definition stored_size :: "ttc_row_data \<Rightarrow> nat" where
  "stored_size row = sum_list (map cell_size row)"

definition lookup :: "nat list \<Rightarrow> ttc_row_data \<Rightarrow> ttc_row_data option \<Rightarrow> nat \<Rightarrow> bytes option" where
  "lookup selection vals previous c =
     (case map_of (zip selection vals) c of Some v \<Rightarrow> v | None \<Rightarrow> (case previous of None \<Rightarrow> None | Some row \<Rightarrow> row ! c))"

lemma account_columns_sum:
  "\<lbrakk>account_columns limit previous cs selection vals stored = Inr (s, []); distinct cs; length vals = length selection; stored \<le> limit\<rbrakk> \<Longrightarrow>
   distinct selection \<and> set selection \<subseteq> set cs \<and> s \<le> limit \<and>
   s = stored + sum_list (map (\<lambda>c. cell_size (lookup selection vals previous c)) cs)"
proof (induction cs arbitrary: selection vals stored)
  case (Cons c cs)
  show ?case
  proof (cases "selection \<noteq> [] \<and> hd selection = c")
    case True
    then obtain ss v vs where p: "selection = c # ss" "vals = v # vs" using Cons.prems(3) by (cases selection; cases vals) auto
    with Cons.prems have run: "account_columns limit previous cs ss vs (stored + cell_size v) = Inr (s, [])"
      and fits: "stored + cell_size v \<le> limit" by (auto simp: cell_size_def split: if_split_asm option.splits)
    from Cons.IH[OF run _ _ fits] Cons.prems(2,3) p
    have ih: "distinct ss" "set ss \<subseteq> set cs" "s \<le> limit" "s = stored + cell_size v + sum_list (map (\<lambda>c. cell_size (lookup ss vs previous c)) cs)"
      by auto
    have others: "map (\<lambda>x. cell_size (lookup selection vals previous x)) cs = map (\<lambda>x. cell_size (lookup ss vs previous x)) cs"
      using Cons.prems(2) p by (auto simp: lookup_def)
    have here: "lookup selection vals previous c = v" using p by (simp add: lookup_def)
    have "distinct selection" "set selection \<subseteq> set (c # cs)" using ih(1,2) Cons.prems(2) p(1) by auto
    with ih(3,4) show ?thesis by (simp add: others here)
  next
    case False
    let ?v = "lookup [] [] previous c"
    from False Cons.prems have run: "account_columns limit previous cs selection vals (stored + cell_size ?v) = Inr (s, [])"
      and fits: "stored + cell_size ?v \<le> limit" by (auto simp: cell_size_def lookup_def Let_def split: if_split_asm option.splits)
    from Cons.IH[OF run _ Cons.prems(3) fits] Cons.prems(2)
    have ih: "distinct selection" "set selection \<subseteq> set cs" "s \<le> limit"
      "s = stored + cell_size ?v + sum_list (map (\<lambda>c. cell_size (lookup selection vals previous c)) cs)" by auto
    moreover have "c \<notin> set selection" using ih(2) Cons.prems(2) by auto
    then have "map_of (zip selection vals) c = None" using Cons.prems(3) by (simp add: map_of_zip_is_None)
    then have "lookup selection vals previous c = ?v" by (simp add: lookup_def)
    ultimately show ?thesis by auto
  qed
qed (auto split: if_split_asm)

lemma place_nth:
  "\<lbrakk>length selection = length vals; distinct selection; set selection \<subseteq> {..<length row}; c < length row\<rbrakk> \<Longrightarrow>
   place selection vals row ! c = lookup selection vals (Some row) c"
proof (induction selection vals arbitrary: row rule: list_induct2')
  case (4 s ss v vs)
  have "place (s # ss) (v # vs) row = place ss vs (row[s := v])" by (simp add: place_def)
  moreover have "place ss vs (row[s := v]) ! c = lookup ss vs (Some (row[s := v])) c" using 4 by simp
  moreover have "map_of (zip ss vs) s = None" using "4.prems"(1,2) by (simp add: map_of_zip_is_None)
  ultimately show ?case using "4.prems"(4) by (cases "c = s") (simp_all add: lookup_def nth_list_update split: option.split)
qed (auto simp: lookup_def place_def)

lemma place_stored_size:
  assumes "length selection = length vals" "distinct selection" "set selection \<subseteq> {..<length row}"
  shows "stored_size (place selection vals row) = sum_list (map (\<lambda>c. cell_size (lookup selection vals (Some row) c)) [0..<length row])"
proof -
  have "map cell_size (place selection vals row) = map (\<lambda>c. cell_size (place selection vals row ! c)) [0..<length row]"
    by (rule nth_equalityI) simp_all
  also have "\<dots> = map (\<lambda>c. cell_size (lookup selection vals (Some row) c)) [0..<length row]"
    using place_nth[OF assms] by simp
  finally show ?thesis unfolding stored_size_def by simp
qed

lemma account_row_sum:
  assumes "account_row d batch vals selection previous = Inr batch'"
    and "base = (case previous of None \<Rightarrow> replicate (length (pf_columns d)) None | Some row \<Rightarrow> row)"
  shows "length base = length (pf_columns d) \<and> length vals = length selection \<and> distinct selection \<and> set selection \<subseteq> {..<length (pf_columns d)} \<and>
    stored_size (place selection vals base) \<le> maximum_row_bytes (pf_limits d) \<and>
    batch' = batch + stored_size (place selection vals base) \<and>
    stored_size (place selection vals base) \<le> maximum_batch_bytes (pf_limits d) - batch \<and>
    length (pf_rows d) < unat (maximum_rows (pf_limits d))"
proof -
  let ?n = "length (pf_columns d)"
  have len: "length vals = length selection" "length base = ?n"
    using assms by (auto simp: account_row_def split: if_split_asm option.splits)
  from assms(1) obtain stored where run: "account_columns (maximum_row_bytes (pf_limits d)) previous [0..<?n] selection vals 0 = Inr (stored, [])"
    and b: "batch' = batch + stored" "stored \<le> maximum_batch_bytes (pf_limits d) - batch" "length (pf_rows d) < unat (maximum_rows (pf_limits d))"
    by (auto simp: account_row_def andthen_eq_Inr not_less not_le split: if_split_asm)
  from account_columns_sum[OF run] len have s: "distinct selection" "set selection \<subseteq> {..<?n}" "stored \<le> maximum_row_bytes (pf_limits d)"
    "stored = sum_list (map (\<lambda>c. cell_size (lookup selection vals previous c)) [0..<?n])" by (auto simp: atLeast0LessThan)
  have "map (\<lambda>c. cell_size (lookup selection vals previous c)) [0..<?n] = map (\<lambda>c. cell_size (lookup selection vals (Some base) c)) [0..<?n]"
    using assms(2) by (auto simp: lookup_def split: option.splits)
  with place_stored_size[of selection vals base] s len have "stored_size (place selection vals base) = stored" by simp
  with s b len show ?thesis by simp
qed

section \<open>What a stored cell holds\<close>

definition cell_readable :: "prefetch_limits \<Rightarrow> oracle_column \<Rightarrow> bytes option \<Rightarrow> bool" where
  "cell_readable limits c v \<longleftrightarrow>
     (case v of None \<Rightarrow> True
      | Some b \<Rightarrow> IsOracleLobType (oracle_type c) \<longrightarrow>
          (\<exists>p. run_prefix (DecodeCursorLobPrefetchCell (oracle_type c = 112) (limit_prefix_units limits) (maximum_content_bytes limits) 0) b =
             Inr (Some p, length b)))"

lemma cell_readable_None [simp]: "cell_readable limits c None"
  by (simp add: cell_readable_def)

lemma stored_cell_cut:
  assumes "stored_cell limits ch left (reader_at pre post) = Inr (v, r')"
  shows "(\<exists>w rest. r' = reader_at (pre @ w) rest) \<and>
    (\<forall>b. v = Some b \<longrightarrow> (\<exists>p. run_prefix (DecodeCursorLobPrefetchCell ch (limit_prefix_units limits) (maximum_content_bytes limits) 0) b = Inr (Some p, length b)))"
proof -
  let ?m = "DecodeCursorLobPrefetchCell ch (limit_prefix_units limits) (maximum_content_bytes limits) 0"
  from assms obtain x where x: "?m (reader_at pre post) = Inr (x, r')"
    by (auto simp: stored_cell_def Let_def split: sum.splits option.splits if_split_asm)
  note cut = cursor_cell.cut_out[OF x]
  obtain w rest where w: "post = w @ rest" "r' = reader_at (pre @ w) rest" by (rule cursor_cell.consumed[OF x])
  have "\<exists>p. run_prefix ?m b = Inr (Some p, length b)" if "v = Some b" for b
  proof -
    from assms x that w have b: "b = w" and "\<exists>p. x = Some p"
      by (auto simp: stored_cell_def Let_def split: option.splits if_split_asm)
    with cut w show ?thesis by (auto simp: run_prefix_def)
  qed
  with w show ?thesis by blast
qed

lemma prefetched_cells_readable:
  "prefetched_cells limits columns n wire (reader_at pre post) = Inr (vs, r') \<Longrightarrow>
   list_all2 (\<lambda>i v. i < length columns \<and> cell_readable limits (columns ! i) v) wire vs"
proof (induction wire arbitrary: n pre post vs)
  case (Cons i wire)
  from Cons.prems have i: "i < length columns" by (simp add: raise_def split: if_split_asm)
  with Cons.prems obtain v r1 us where v: "prefetched_cell limits (columns ! i) n (reader_at pre post) = Inr (v, r1)"
    and us: "prefetched_cells limits columns (n + cell_size v) wire r1 = Inr (us, r')" "vs = v # us"
    by (auto simp: bindr_simps ret_def)
  have "cell_readable limits (columns ! i) v \<and> (\<exists>w rest. r1 = reader_at (pre @ w) rest)"
  proof (cases "IsOracleLobType (oracle_type (columns ! i))")
    case True
    with v stored_cell_cut[of limits "oracle_type (columns ! i) = 112" "maximum_row_bytes limits - n" pre post v r1]
    show ?thesis by (auto simp: prefetched_cell_def cell_readable_def split: option.split)
  next
    case False
    with v have r: "ReadLengthPrefixed (maximum_row_bytes limits - n) (reader_at pre post) = Inr (v, r1)" by (simp add: prefetched_cell_def)
    obtain w rest where "r1 = reader_at (pre @ w) rest" by (rule local_reader.consumed[OF local_length_prefixed r])
    with False show ?thesis by (auto simp: cell_readable_def split: option.split)
  qed
  with us i Cons.IH show ?case by auto
qed (simp add: ret_def)

lemma prefetched_row_readable:
  assumes "DecodePrefetchedRow wire columns limits at = Inr (vs, used)"
  shows "list_all2 (\<lambda>i v. i < length columns \<and> cell_readable limits (columns ! i) v) wire vs"
proof -
  from assms obtain r' where "bindr ReadByte (\<lambda>t. thenr (refuse (t \<noteq> TTC_MESSAGE_ROW_DATA) MALFORMED)
      (prefetched_cells limits columns 0 wire)) (reader_at [] at) = Inr (vs, r')"
    by (auto simp: DecodePrefetchedRow_def run_prefix_def map_sum_def new_reader_at split: sum.splits)
  then obtain t r1 where t: "ReadByte (reader_at [] at) = Inr (t, r1)"
    and rest: "thenr (refuse (t \<noteq> TTC_MESSAGE_ROW_DATA) MALFORMED) (prefetched_cells limits columns 0 wire) r1 = Inr (vs, r')"
    by (auto simp: bindr_simps)
  from t obtain w post where "r1 = reader_at ([] @ w) post" by (rule local_reader.consumed[OF local_byte])
  moreover from rest have "prefetched_cells limits columns 0 wire r1 = Inr (vs, r')"
    by (auto simp: thenr_def refuse_def bindr_simps raise_def ret_def split: if_split_asm)
  ultimately show ?thesis using prefetched_cells_readable by blast
qed

section \<open>Budgets\<close>

definition row_ok :: "prefetch_decoder \<Rightarrow> ttc_row_data \<Rightarrow> bool" where
  "row_ok d row \<longleftrightarrow> list_all2 (cell_readable (pf_limits d)) (pf_columns d) row"

definition batch_size :: "ttc_row_data list \<Rightarrow> nat" where
  "batch_size rs = sum_list (map stored_size rs)"

definition preceding_ok :: "prefetch_decoder \<Rightarrow> bool" where
  "preceding_ok d \<longleftrightarrow> (case pf_preceding_row d of None \<Rightarrow> True | Some row \<Rightarrow> row_ok d row)"

definition within_budget :: "prefetch_decoder \<Rightarrow> ttc_row_data list \<Rightarrow> bool" where
  "within_budget d rs \<longleftrightarrow> length rs \<le> unat (maximum_rows (pf_limits d)) \<and> batch_size rs \<le> maximum_batch_bytes (pf_limits d) \<and>
     (\<forall>row\<in>set rs. row_ok d row \<and> stored_size row \<le> maximum_row_bytes (pf_limits d))"

definition prefetch_ok :: "prefetch_decoder \<Rightarrow> nat \<Rightarrow> bool" where
  "prefetch_ok d batch \<longleftrightarrow> within_budget d (pf_rows d) \<and> preceding_ok d \<and> batch = batch_size (pf_rows d) \<and>
     pf_kept_rows d \<le> length (pf_rows d) \<and> pf_kept_batch_bytes d = batch_size (take (pf_kept_rows d) (pf_rows d))"

definition same_profile :: "prefetch_decoder \<Rightarrow> prefetch_decoder \<Rightarrow> bool" where
  "same_profile d d' \<longleftrightarrow> pf_columns d' = pf_columns d \<and> pf_limits d' = pf_limits d \<and> pf_preceding_row d' = pf_preceding_row d"

lemma pf_wire_columns: "PrefetchWireColumns columns selection = Inr wire \<Longrightarrow> set wire \<subseteq> {..<length columns}"
  by (cases selection) (force simp: PrefetchWireColumns_def list_ex_iff not_le split: if_split_asm)+

lemma placed_row_ok:
  assumes "account_row d batch vals wire previous = Inr batch'"
    and "base = (case previous of None \<Rightarrow> replicate (length (pf_columns d)) None | Some row \<Rightarrow> row)"
    and "list_all2 (\<lambda>i v. i < length (pf_columns d) \<and> cell_readable (pf_limits d) (pf_columns d ! i) v) wire vals"
    and "row_ok d base"
  shows "row_ok d (place wire vals base)"
proof -
  note sum = account_row_sum[OF assms(1,2)]
  have len: "length base = length (pf_columns d)" "length wire = length vals" using sum by simp_all
  have "cell_readable (pf_limits d) (pf_columns d ! c) (place wire vals base ! c)" if c: "c < length (pf_columns d)" for c
  proof -
    have "place wire vals base ! c = lookup wire vals (Some base) c" 
    proof (rule place_nth)
      show "length wire = length vals" by (rule len)
    qed (use sum c in simp_all)
    moreover have "cell_readable (pf_limits d) (pf_columns d ! c) v" if "map_of (zip wire vals) c = Some v" for v
      using bspec[OF conjunct2[OF assms(3)[unfolded list_all2_iff]] map_of_SomeD[OF that]] by simp
    moreover have "cell_readable (pf_limits d) (pf_columns d ! c) (base ! c)" using assms(4) c by (simp add: row_ok_def list_all2_conv_all_nth)
    ultimately show ?thesis by (simp add: lookup_def split: option.split)
  qed
  with len show ?thesis by (simp add: row_ok_def list_all2_conv_all_nth)
qed

lemma row_ok_same: "same_profile d d' \<Longrightarrow> row_ok d' row = row_ok d row"
  by (simp add: same_profile_def row_ok_def)

text \<open>A row that was accounted for is kept.\<close>

lemma keep_row_ok:
  assumes ok: "prefetch_ok d batch" and account: "account_row d batch vals wire previous = Inr batch'"
    and base: "base = (case previous of None \<Rightarrow> replicate (length (pf_columns d)) None | Some row \<Rightarrow> row)"
    and readable: "list_all2 (\<lambda>i v. i < length (pf_columns d) \<and> cell_readable (pf_limits d) (pf_columns d ! i) v) wire vals"
    and base_ok: "row_ok d base"
    and d': "same_profile d d'" "pf_rows d' = pf_rows d" "pf_kept_rows d' = pf_kept_rows d" "pf_kept_batch_bytes d' = pf_kept_batch_bytes d"
  shows "prefetch_ok (pf_keep_row header offset batch' (place wire vals base) d') batch'"
proof -
  let ?row = "place wire vals base"
  note sum = account_row_sum[OF account base]
  have "row_ok d ?row" by (rule placed_row_ok[OF account base readable base_ok])
  then have row: "row_ok d' ?row" using row_ok_same[OF d'(1)] by simp
  have "batch_size (pf_rows d) + stored_size ?row \<le> maximum_batch_bytes (pf_limits d)"
    using sum ok by (auto simp: prefetch_ok_def within_budget_def)
  then have "within_budget d' (pf_rows d @ [?row])"
    using ok sum row d'(1) row_ok_same[OF d'(1)] by (auto simp: prefetch_ok_def within_budget_def batch_size_def same_profile_def)
  then show ?thesis
    using ok sum d' row_ok_same[OF d'(1)]
    by (auto simp: prefetch_ok_def pf_keep_row_def Let_def preceding_ok_def batch_size_def same_profile_def within_budget_def row_ok_def
        split: option.splits)
qed

lemma keep_row_profile [simp]: "same_profile d (pf_keep_row header offset batch row d') = same_profile d d'"
  by (simp add: same_profile_def pf_keep_row_def Let_def)

lemma same_profile_simps [simp]: "same_profile d d" "same_profile d (d\<lparr>pf_used_selection := b\<rparr>)" "same_profile d (d\<lparr>pf_used_continuation := b\<rparr>)"
  by (simp_all add: same_profile_def)

lemma read_row_readable:
  "pf_read_row d wire at = Inr (vs, used) \<Longrightarrow>
   list_all2 (\<lambda>i v. i < length (pf_columns d) \<and> cell_readable (pf_limits d) (pf_columns d ! i) v) wire vs"
  by (auto simp: pf_read_row_def dest: prefetched_row_readable split: if_split_asm)

lemma empty_row_ok: "row_ok d (replicate (length (pf_columns d)) None)"
  by (simp add: row_ok_def list_all2_conv_all_nth)

lemma previous_row_ok: "\<lbrakk>prefetch_ok d batch; pf_previous_row d = Some row\<rbrakk> \<Longrightarrow> row_ok d row"
  by (auto simp: prefetch_ok_def within_budget_def pf_previous_row_def preceding_ok_def split: if_split_asm)

lemma pf_row_data_ok:
  assumes "pf_row_data d header batch offset at = (d', Inr (header', batch', offset'))" "prefetch_ok d batch"
  shows "prefetch_ok d' batch' \<and> same_profile d d'"
proof -
  from assms(1) obtain wire vs used where w: "PrefetchWireColumns (pf_columns d) header = Inr wire" "pf_read_row d wire at = Inr (vs, used)"
    by (auto simp: pf_row_data_def andthen_eq_Inr split: sum.splits)
  note readable = read_row_readable[OF w(2)]
  show ?thesis
  proof (cases header)
    case None
    with assms(1) w obtain row where r: "account_row d batch vs wire None = Inr batch'" "PrefetchExpandRow (length (pf_columns d)) wire vs = Inr row"
      "d' = pf_keep_row None (offset + used) batch' row d"
      by (auto simp: pf_row_data_def andthen_eq_Inr split: sum.splits)
    then have "row = place wire vs (replicate (length (pf_columns d)) None)" by (simp add: PrefetchExpandRow_def split: if_split_asm)
    with keep_row_ok[OF assms(2) r(1) _ readable empty_row_ok, of d] r(3)
    show ?thesis by simp
  next
    case (Some selection)
    with assms(1) w obtain previous row where r: "pf_previous_row d = Some previous" "account_row d batch vs wire (Some previous) = Inr batch'"
      "MergeChangedColumns previous wire vs (length (pf_columns d)) = Inr row"
      "d' = pf_keep_row None (offset + used) batch' row (d\<lparr>pf_used_selection := True\<rparr>)"
      by (auto simp: pf_row_data_def andthen_eq_Inr split: sum.splits option.splits)
    then have "row = place wire vs previous" by (simp add: MergeChangedColumns_def split: if_split_asm)
    with keep_row_ok[OF assms(2) r(2) _ readable previous_row_ok[OF assms(2) r(1)], of "d\<lparr>pf_used_selection := True\<rparr>"] r(4)
    show ?thesis by simp
  qed
qed

lemma pf_row_continuation_ok:
  assumes "pf_row_continuation d header batch offset at = (d', Inr (header', batch', offset'))" "prefetch_ok d batch"
  shows "prefetch_ok d' batch' \<and> same_profile d d'"
proof -
  from assms(1) obtain previous wire vs used used' row where r: "pf_previous_row d = Some previous"
    "DecodePrefetchedRow wire (pf_columns d) (pf_limits d) (drop used at) = Inr (vs, used')"
    "account_row d batch vs wire (Some previous) = Inr batch'" "MergeChangedColumns previous wire vs (length (pf_columns d)) = Inr row"
    "d' = pf_keep_row header (offset + used + used') batch' row (d\<lparr>pf_used_continuation := True\<rparr>)"
    by (auto simp: pf_row_continuation_def andthen_eq_Inr add.assoc split: sum.splits option.splits)
  then have "row = place wire vs previous" by (simp add: MergeChangedColumns_def split: if_split_asm)
  with keep_row_ok[OF assms(2) r(3) _ prefetched_row_readable[OF r(2)] previous_row_ok[OF assms(2) r(1)], of "d\<lparr>pf_used_continuation := True\<rparr>"] r(5)
  show ?thesis by simp
qed

lemma prefetch_ok_flags:
  assumes "prefetch_ok d batch" "same_profile d d'" "pf_rows d' = pf_rows d" "pf_kept_rows d' = pf_kept_rows d"
    "pf_kept_batch_bytes d' = pf_kept_batch_bytes d"
  shows "prefetch_ok d' batch"
  using assms row_ok_same[OF assms(2)] by (auto simp: prefetch_ok_def within_budget_def preceding_ok_def same_profile_def split: option.splits)

lemma handlers_refuse:
  "pf_row_data d header batch offset at = (d', Inl e) \<Longrightarrow> d' = d"
  "pf_row_continuation d header batch offset at = (d', Inl e) \<Longrightarrow> d' = d"
  by (auto simp: pf_row_data_def pf_row_continuation_def split: sum.splits option.splits if_split_asm)

text \<open>Every other message leaves the rows alone.\<close>

definition flags_only :: "prefetch_decoder \<Rightarrow> prefetch_decoder \<Rightarrow> bool" where
  "flags_only d d' \<longleftrightarrow> same_profile d d' \<and> pf_rows d' = pf_rows d \<and> pf_kept_rows d' = pf_kept_rows d \<and>
     pf_kept_batch_bytes d' = pf_kept_batch_bytes d"

definition same_batch :: "nat \<Rightarrow> (nat list option \<times> nat \<times> nat) result \<Rightarrow> bool" where
  "same_batch batch r \<longleftrightarrow> (case r of Inl _ \<Rightarrow> True | Inr (_, batch', _) \<Rightarrow> batch' = batch)"

lemma flags_only_simps [simp]: "flags_only d d" "flags_only d (d\<lparr>pf_completed := b\<rparr>)"
  by (simp_all add: flags_only_def same_profile_def)

lemma same_batch_simps [simp]: "same_batch batch (Inl e)" "same_batch batch (Inr (h, batch', n)) = (batch' = batch)"
  by (simp_all add: same_batch_def)

lemma end_of_call_flags: "pf_end_of_call d header batch offset at = (d', r) \<Longrightarrow> flags_only d d' \<and> same_batch batch r"
  by (auto simp: pf_end_of_call_def Let_def flags_only_def same_profile_def split: sum.splits if_split_asm)

lemma other_message_flags:
  assumes "prefetch_message d header batch offset at = (d', r)" "hd at \<noteq> TTC_MESSAGE_ROW_DATA" "hd at \<noteq> 21"
  shows "flags_only d d' \<and> same_batch batch r"
proof (cases "hd at = TTC_MESSAGE_ERROR")
  case True
  with assms(1) have "pf_end_of_call d header batch offset at = (d', r)" by (simp add: prefetch_message_def)
  then show ?thesis by (rule end_of_call_flags)
next
  case False
  consider "hd at = 6" | "hd at = TTC_MESSAGE_PARAMETER" | "hd at = TTC_MESSAGE_STATUS" | "hd at = 29" | "hd at = TTC_MESSAGE_SERVER_PIGGYBACK"
    | "hd at \<notin> {6, TTC_MESSAGE_PARAMETER, TTC_MESSAGE_STATUS, 29, TTC_MESSAGE_SERVER_PIGGYBACK}" by auto
  then show ?thesis
    using assms False by cases (auto simp: prefetch_message_def split: sum.splits)
qed

lemma prefetch_message_ok:
  assumes "prefetch_message d header batch offset at = (d', r)" "prefetch_ok d batch"
  shows "(\<exists>batch'. prefetch_ok d' batch') \<and> same_profile d d' \<and>
    (case r of Inl _ \<Rightarrow> True | Inr (_, batch', _) \<Rightarrow> prefetch_ok d' batch')"
proof -
  consider "hd at = TTC_MESSAGE_ROW_DATA" | "hd at = 21" | "hd at \<noteq> TTC_MESSAGE_ROW_DATA" "hd at \<noteq> 21" by blast
  then show ?thesis
  proof cases
    case 1
    then have "pf_row_data d header batch offset at = (d', r)" using assms(1) by (simp add: prefetch_message_def)
    with pf_row_data_ok[of d header batch offset at d'] handlers_refuse(1)[of d header batch offset at d'] assms(2)
    show ?thesis by (cases r) (fastforce, auto)
  next
    case 2
    then have "pf_row_continuation d header batch offset at = (d', r)" using assms(1) by (simp add: prefetch_message_def)
    with pf_row_continuation_ok[of d header batch offset at d'] handlers_refuse(2)[of d header batch offset at d'] assms(2)
    show ?thesis by (cases r) (fastforce, auto)
  next
    case 3
    from other_message_flags[OF assms(1) 3] prefetch_ok_flags[OF assms(2)]
    have "prefetch_ok d' batch" "same_profile d d'" "same_batch batch r" by (auto simp: flags_only_def)
    then show ?thesis by (auto simp: same_batch_def split: sum.splits)
  qed
qed

lemma prefetch_loop_ok:
  "\<lbrakk>prefetch_loop d header batch offset m = (d', r); prefetch_ok d batch\<rbrakk> \<Longrightarrow> (\<exists>batch'. prefetch_ok d' batch') \<and> same_profile d d'"
proof (induction d header batch offset m arbitrary: d' r rule: prefetch_loop.induct)
  case (1 d header batch offset m)
  show ?case
  proof (cases "offset < length m \<and> \<not> pf_completed d")
    case False
    with "1.prems" show ?thesis by (auto simp: prefetch_loop.simps[of d header batch offset m])
  next
    case True
    obtain d1 r1 where m: "prefetch_message d header batch offset (drop offset m) = (d1, r1)" by (metis surj_pair)
    note ok = prefetch_message_ok[OF m "1.prems"(2)]
    show ?thesis
    proof (cases r1)
      case (Inl e)
      with True "1.prems" m ok show ?thesis by (auto simp: prefetch_loop.simps[of d header batch offset m])
    next
      case (Inr x)
      obtain h1 b1 o1 where x: "x = (h1, b1, o1)" by (cases x)
      have rest: "prefetch_loop d1 h1 b1 o1 m = (d', r)" using "1.prems" True m Inr x by (simp add: prefetch_loop.simps[of d header batch offset m])
      have "prefetch_ok d1 b1" using ok Inr x by simp
      from "1.IH"[OF True m[symmetric] Inr x[symmetric] refl rest this] ok show ?thesis by (auto simp: same_profile_def)
    qed
  qed
qed

lemma restart_ok:
  assumes "prefetch_ok d batch"
  shows "prefetch_ok (pf_restart d) (pf_kept_batch_bytes d)" "same_profile d (pf_restart d)"
proof -
  show p: "same_profile d (pf_restart d)" by (simp add: same_profile_def pf_restart_def)
  have "batch_size (take k rs) \<le> batch_size rs" for k rs
    unfolding batch_size_def by (metis append_take_drop_id le_add1 map_append sum_list_append)
  then have "batch_size (take (pf_kept_rows d) (pf_rows d)) \<le> maximum_batch_bytes (pf_limits d)"
    using assms le_trans by (fastforce simp: prefetch_ok_def within_budget_def)
  with assms row_ok_same[OF p] show "prefetch_ok (pf_restart d) (pf_kept_batch_bytes d)"
    by (auto simp: prefetch_ok_def within_budget_def pf_restart_def preceding_ok_def row_ok_def dest: in_set_takeD split: option.splits)
qed

lemma PrefetchDecode_ok:
  assumes "prefetch_ok d batch"
  shows "(\<exists>batch'. prefetch_ok (fst (PrefetchDecode m d)) batch') \<and> same_profile d (fst (PrefetchDecode m d))"
proof -
  note r = restart_ok[OF assms]
  obtain d' res where l: "prefetch_loop (pf_restart d) None (pf_kept_batch_bytes d) (pf_resume_offset d) m = (d', res)" by (metis surj_pair)
  then have l': "prefetch_loop (pf_restart d) None (pf_kept_batch_bytes (pf_restart d)) (pf_resume_offset (pf_restart d)) m = (d', res)"
    by (simp add: pf_restart_def)
  from prefetch_loop_ok[OF l r(1)] r(2) obtain b where b: "prefetch_ok d' b" "same_profile d d'" by (auto simp: same_profile_def)
  have "prefetch_ok (d'\<lparr>pf_bytes_consumed := n\<rparr>) b \<and> same_profile d (d'\<lparr>pf_bytes_consumed := n\<rparr>)" for n
    using prefetch_ok_flags[OF b(1), of "d'\<lparr>pf_bytes_consumed := n\<rparr>"] b(2) by (simp add: same_profile_def)
  with b r assms l' show ?thesis
    by (auto simp: PrefetchDecode_def Let_def split: sum.splits) blast+
qed

definition prefetch_pieces :: "bytes list \<Rightarrow> prefetch_decoder \<Rightarrow> prefetch_decoder" where
  "prefetch_pieces ms d = fold (\<lambda>m d. fst (PrefetchDecode m d)) ms d"

lemma prefetch_pieces_ok:
  "prefetch_ok d batch \<Longrightarrow> (\<exists>batch'. prefetch_ok (prefetch_pieces ms d) batch') \<and> same_profile d (prefetch_pieces ms d)"
proof (induction ms arbitrary: d batch)
  case (Cons m ms)
  obtain b where b: "prefetch_ok (fst (PrefetchDecode m d)) b" "same_profile d (fst (PrefetchDecode m d))"
    using PrefetchDecode_ok[OF Cons.prems] by blast
  from Cons.IH[OF b(1)] b(2) show ?case by (auto simp: prefetch_pieces_def same_profile_def)
qed (auto simp: prefetch_pieces_def)

lemma cell_size_stored: "v \<in> set row \<Longrightarrow> cell_size v \<le> stored_size row"
  unfolding stored_size_def by (simp add: member_le_sum_list)

section \<open>Property\<close>

text \<open>
  C35. A prefetched batch stays inside its budgets and every LOB value in it can be read again. Whatever pieces a server sends,
  well-formed or not, and however its row headers and continuations repeat earlier values, the decoder holds
  at most the number of rows, the bytes of a row and the bytes of a batch that its limits allow, and each LOB cell it stored is a slice that
  decodes on its own.
\<close>

theorem prefetched_batch_bounded:
  assumes "LobPrefetchFetchResponseDecoder columns limits version preceding = Inr d"
    and "case preceding of None \<Rightarrow> True | Some row \<Rightarrow> list_all2 (cell_readable limits) columns row"
  shows "let rs = response_rows (PrefetchTake (prefetch_pieces pieces d)) in
    length rs \<le> unat (maximum_rows limits) \<and> batch_size rs \<le> maximum_batch_bytes limits \<and>
    (\<forall>row\<in>set rs. length row = length columns \<and> stored_size row \<le> maximum_row_bytes limits \<and>
       (\<forall>c < length columns. \<forall>b. IsOracleLobType (oracle_type (columns ! c)) \<longrightarrow> row ! c = Some b \<longrightarrow>
          (\<exists>p. DecodeStoredLobPrefetch b (oracle_type (columns ! c) = 112) limits = Inr p)))"
proof -
  have d: "pf_columns d = columns" "pf_limits d = limits" "pf_preceding_row d = preceding" "pf_rows d = []" "pf_kept_rows d = 0" "pf_kept_batch_bytes d = 0"
    using assms(1) by (auto simp: LobPrefetchFetchResponseDecoder_def andthen_eq_Inr split: if_split_asm)
  then have "prefetch_ok d 0"
    using assms(2) by (simp add: prefetch_ok_def within_budget_def batch_size_def preceding_ok_def row_ok_def split: option.splits)
  from prefetch_pieces_ok[OF this, of pieces]
  obtain b where ok: "prefetch_ok (prefetch_pieces pieces d) b" "same_profile d (prefetch_pieces pieces d)" by blast
  let ?rs = "pf_rows (prefetch_pieces pieces d)"
  have budget: "length ?rs \<le> unat (maximum_rows limits)" "batch_size ?rs \<le> maximum_batch_bytes limits"
    "\<And>row. row \<in> set ?rs \<Longrightarrow> list_all2 (cell_readable limits) columns row \<and> stored_size row \<le> maximum_row_bytes limits"
    using ok d by (auto simp: prefetch_ok_def within_budget_def same_profile_def row_ok_def)
  have "\<exists>p. DecodeStoredLobPrefetch v (oracle_type (columns ! c) = 112) limits = Inr p"
    if row: "row \<in> set ?rs" and c: "c < length columns" "IsOracleLobType (oracle_type (columns ! c))" "row ! c = Some v" for row c v
  proof -
    note r = budget(3)[OF row]
    then have len: "length row = length columns" by (auto dest: list_all2_lengthD)
    have "cell_readable limits (columns ! c) (row ! c)" using r c(1) by (simp add: list_all2_nthD)
    moreover have "cell_size (row ! c) \<le> maximum_row_bytes limits" using cell_size_stored[of "row ! c" row] r c(1) len by (simp add: le_trans)
    ultimately show ?thesis using c by (auto simp: cell_readable_def cell_size_def DecodeStoredLobPrefetch_def)
  qed
  moreover have "length row = length columns" if "row \<in> set ?rs" for row using budget(3)[OF that] by (auto dest: list_all2_lengthD)
  ultimately show ?thesis using budget by (auto simp: PrefetchTake_def Let_def)
qed

definition blob_column :: oracle_column where
  "blob_column = OracleColumn\<lparr>oracle_type := 113\<rparr>"

text \<open>One BLOB of five bytes, of which the first came with the row.\<close>

definition blob_cell :: bytes where
  "blob_cell = [1, 1, 1, 5, 0, 1, 65, 1, 9]"

definition small_limits :: prefetch_limits where
  "small_limits = \<lparr>limit_prefix_units = 4, maximum_content_bytes = 100, maximum_row_bytes = 5000, maximum_batch_bytes = 10000, maximum_rows = 4\<rparr>"

definition blob_decoder :: prefetch_decoder where
  "blob_decoder = \<lparr>pf_columns = [blob_column], pf_limits = small_limits, pf_field_version = 12, pf_preceding_row = None,
     pf_rows = [], pf_completion = None, pf_exhausted = False, pf_completed = False, pf_used_selection = False,
     pf_used_continuation = False, pf_bytes_consumed = 0, pf_resume_offset = 0, pf_kept_rows = 0,
     pf_kept_batch_bytes = 0, pf_kept_selection = False, pf_kept_continuation = False\<rparr>"

lemma blob_decoder: "LobPrefetchFetchResponseDecoder [blob_column] small_limits 12 None = Inr blob_decoder"
  by (simp add: LobPrefetchFetchResponseDecoder_def blob_decoder_def blob_column_def OracleColumn_def BoundedLobPrefetchRows_def
      SupportsLobPrefetchColumns_def prefetchable_def IsOracleLobType_def bad_limits_def small_limits_def cell_estimate_def)

lemma blob_row_reads: "DecodePrefetchedRow [0] [blob_column] small_limits (7 # blob_cell @ [29]) = Inr ([Some blob_cell], 10)"
  by (simp add: DecodePrefetchedRow_def prefetched_cell_def stored_cell_def DecodeCursorLobPrefetchCell_def read_prefetch_cell_def read_prefix_def
      small_limits_def blob_cell_def blob_column_def IsOracleLobType_def reader_eval unit_width_def cell_size_def)

lemma blob_response:
  "response_rows (PrefetchTake (prefetch_pieces [7 # blob_cell @ [29]] blob_decoder)) = [[Some blob_cell]]"
proof -
  have omitted: "\<not> omitted_from_row_data blob_column" by (simp add: blob_column_def OracleColumn_def)
  have size: "cell_size (Some blob_cell) = 9" by (simp add: cell_size_def blob_cell_def)
  have len: "length blob_cell = 9" by (simp add: blob_cell_def)
  let ?m = "7 # blob_cell @ [29]"
  let ?d = "pf_keep_row None 10 9 [Some blob_cell] blob_decoder"
  have row: "prefetch_message blob_decoder None 0 0 ?m = (?d, Inr (None, 9, 10))"
    using omitted size by (simp add: prefetch_message_def pf_row_data_def PrefetchWireColumns_def pf_read_row_def blob_decoder_def
        blob_row_reads account_row_def small_limits_def[THEN arg_cong[where f = maximum_row_bytes]]
        small_limits_def[THEN arg_cong[where f = maximum_batch_bytes]] small_limits_def[THEN arg_cong[where f = maximum_rows]] PrefetchExpandRow_def place_def)
  have "prefetch_loop ?d None 9 10 ?m = (?d\<lparr>pf_completed := True\<rparr>, Inr 11)"
    by (simp add: prefetch_loop.simps prefetch_message_def len pf_keep_row_def blob_decoder_def)
  then have "prefetch_loop blob_decoder None 0 0 ?m = (?d\<lparr>pf_completed := True\<rparr>, Inr 11)"
    using row by (subst prefetch_loop.simps) (simp add: len blob_decoder_def)
  moreover have "pf_restart blob_decoder = blob_decoder" by (simp add: pf_restart_def blob_decoder_def)
  ultimately show ?thesis
    by (simp add: prefetch_pieces_def PrefetchDecode_def PrefetchTake_def len)
       (simp add: blob_decoder_def pf_keep_row_def)
qed

lemma prefetched_batch_bounded_witness:
  "response_rows (PrefetchTake (prefetch_pieces [7 # blob_cell @ [29]] blob_decoder)) = [[Some blob_cell]] \<and>
   stored_size [Some blob_cell] \<le> 5000 \<and> (\<exists>p. DecodeStoredLobPrefetch blob_cell False small_limits = Inr p)"
  using prefetched_batch_bounded[OF blob_decoder, of "[7 # blob_cell @ [29]]"] blob_response
  by (simp add: small_limits_def[THEN arg_cong[where f = maximum_row_bytes]] blob_column_def IsOracleLobType_def)

end
