(* ===== verification/Statement_Channel.thy ===== *)
theory Statement_Channel
  imports Ttc_Call Statement_Registry Ttc_Channel Prefetch_Fetch
begin

text \<open>
  \<^verbatim>\<open>src/ttc_statement_channel.cpp\<close>: the calls of a statement, over the TTC channel and the statement registry. A
  response may arrive in several pieces that nothing delimits, so the decoder says when it is whole; a
  call that fails leaves its statement poisoned.
\<close>

section \<open>State\<close>

record statement_channel =
  ttc :: ttc_channel
  registry :: statement_registry

definition on_ttc :: "(ttc_channel, 'a) action \<Rightarrow> (statement_channel, 'a) action" where
  "on_ttc f s = (case f (ttc s) of (c, r) \<Rightarrow> (s\<lparr>ttc := c\<rparr>, r))"

definition on_registry :: "(statement_registry, 'a) action \<Rightarrow> (statement_channel, 'a) action" where
  "on_registry f s = (case f (registry s) of (g, r) \<Rightarrow> (s\<lparr>registry := g\<rparr>, r))"

text \<open>
  The two exception handlers around the calls: both poison the statement and throw again, and what the poisoning
  itself throws takes the place of the first exception. The second asks for the state first.
\<close>

definition or_poison :: "u32 \<Rightarrow> (statement_channel, 'a) action \<Rightarrow> (statement_channel, 'a) action" where
  "or_poison handle f s =
     (case f s of
        (s', Inr a) \<Rightarrow> (s', Inr a)
      | (s', Inl e) \<Rightarrow> after (on_registry (Poison handle)) (\<lambda>_. lifting (Inl e)) s')"

definition or_poison_once :: "u32 \<Rightarrow> (statement_channel, 'a) action \<Rightarrow> (statement_channel, 'a) action" where
  "or_poison_once handle f s =
     (case f s of
        (s', Inr a) \<Rightarrow> (s', Inr a)
      | (s', Inl e) \<Rightarrow>
          after (lifting (State handle (registry s'))) (\<lambda>state.
          after (if state \<noteq> POISONED then on_registry (Poison handle) else returning ()) (\<lambda>_. lifting (Inl e))) s')"

section \<open>Joining the pieces of a response\<close>

definition MAX_RESPONSE_FRAGMENTS :: nat where
  "MAX_RESPONSE_FRAGMENTS = 4096"

definition MAX_RESPONSE_BYTES :: nat where
  "MAX_RESPONSE_BYTES = 64 * 2 ^ 20"

text \<open>
  The decoder is called with all that has arrived and has a state of its own, in which it leaves its result. The first
  argument counts the fragments that may still be joined.
\<close>

type_synonym 'd piece_decoder = "bytes \<Rightarrow> ('d, bool) action"

fun fragments_loop :: "'d piece_decoder \<Rightarrow> nat \<Rightarrow> 'd \<Rightarrow> bytes \<Rightarrow> (ttc_channel, 'd) action" where
  "fragments_loop decoder 0 d accumulated c =
     (case decoder accumulated d of
        (d, Inr True) \<Rightarrow> (c, Inr d)
      | (d, Inr False) \<Rightarrow> (c, throw LIMIT_EXCEEDED)
      | (d, Inl e) \<Rightarrow> (c, if Kind e = TRUNCATED then throw LIMIT_EXCEEDED else Inl e))"
| "fragments_loop decoder (Suc left) d accumulated c =
     (let more = (\<lambda>d. after Receive (\<lambda>next_bytes.
            if length next_bytes > MAX_RESPONSE_BYTES \<or> length accumulated > MAX_RESPONSE_BYTES - length next_bytes
            then failing LIMIT_EXCEEDED
            else fragments_loop decoder left d (accumulated @ next_bytes)) c)
      in case decoder accumulated d of
           (d, Inr True) \<Rightarrow> (c, Inr d)
         | (d, Inr False) \<Rightarrow> more d
         | (d, Inl e) \<Rightarrow> if Kind e = TRUNCATED then more d else (c, Inl e))"

definition ReceiveResponseFragments :: "'d piece_decoder \<Rightarrow> 'd \<Rightarrow> (ttc_channel, 'd) action" where
  "ReceiveResponseFragments decoder d =
     after Receive (\<lambda>accumulated. fragments_loop decoder (MAX_RESPONSE_FRAGMENTS - 1) d accumulated)"

text \<open>A decoder that starts over each time and keeps what it decoded.\<close>

definition each_time :: "(bytes \<Rightarrow> 'a result) \<Rightarrow> ('a \<Rightarrow> bool) \<Rightarrow> 'a option piece_decoder" where
  "each_time decode whole message d =
     (case decode message of Inl e \<Rightarrow> (d, Inl e) | Inr a \<Rightarrow> (Some a, Inr (whole a)))"

section \<open>LOB calls\<close>

definition MAX_LOB_RESPONSE_MESSAGES :: nat where
  "MAX_LOB_RESPONSE_MESSAGES = 4096"

definition MAX_LOB_RESPONSE_BYTES :: nat where
  "MAX_LOB_RESPONSE_BYTES = 16 * 2 ^ 20 + 64 * 2 ^ 10"

fun lob_loop :: "(bytes \<Rightarrow> 'a result) \<Rightarrow> nat \<Rightarrow> bytes \<Rightarrow> (ttc_channel, 'a) action" where
  "lob_loop decode left response c =
     (case decode response of
        Inr a \<Rightarrow> (c, Inr a)
      | Inl e \<Rightarrow>
          if Kind e \<noteq> TRUNCATED then (c, Inl e)
          else (case left of
            0 \<Rightarrow> (c, throw LIMIT_EXCEEDED)
          | Suc left \<Rightarrow> after Receive (\<lambda>more.
              if more = [] then failing TRUNCATED
              else if length response > MAX_LOB_RESPONSE_BYTES \<or> length more > MAX_LOB_RESPONSE_BYTES - length response
              then failing LIMIT_EXCEEDED
              else lob_loop decode left (response @ more)) c))"

declare lob_loop.simps [simp del]

definition LobExchange :: "bytes \<Rightarrow> (bytes \<Rightarrow> 'a result) \<Rightarrow> (ttc_channel, 'a) action" where
  "LobExchange request decode =
     after (Send request) (\<lambda>_. after Receive (lob_loop decode (MAX_LOB_RESPONSE_MESSAGES - 1)))"

definition LobOperation :: "lob_request \<Rightarrow> u8 \<Rightarrow> (ttc_channel, lob_response) action" where
  "LobOperation request server_field_version =
     after (lifting (EncodeTtcLobRequest request)) (\<lambda>bytes.
       LobExchange bytes (\<lambda>response. map_sum id fst
         (DecodeCompleteTtcLobCall response (length (request_locator request)) server_field_version)))"

definition LocatorOperation :: "bytes \<Rightarrow> nat \<Rightarrow> bool \<Rightarrow> u8 \<Rightarrow> (ttc_channel, bytes) action" where
  "LocatorOperation request locator_count created server_field_version =
     LobExchange request (\<lambda>response. DecodeCompleteTtcLocatorCall response locator_count created server_field_version)"

section \<open>Execute\<close>

definition execute_open :: "u32 \<Rightarrow> bytes result \<Rightarrow> (statement_channel, unit) action" where
  "execute_open handle request s =
     (case State handle (registry s) of
        Inl e \<Rightarrow> (s, Inl e)
      | Inr state \<Rightarrow>
          if state \<noteq> OPEN then (s, throw INVALID_STATE)
          else or_poison handle (after (lifting request) (\<lambda>bytes. on_ttc (Send bytes))) s)"

definition ExecuteNoBinds :: "u32 \<Rightarrow> no_binds_request \<Rightarrow> (statement_channel, unit) action" where
  "ExecuteNoBinds handle request = execute_open handle (EncodeTtcExecuteNoBindsRequest request)"

definition ExecuteBinds :: "u32 \<Rightarrow> binds_request \<Rightarrow> (statement_channel, unit) action" where
  "ExecuteBinds handle request = execute_open handle (EncodeTtcExecuteBindsRequest request)"

text \<open>A response in one piece. The statement is poisoned before the error is thrown, and not again by the handler.\<close>

definition receive_one :: "u32 \<Rightarrow> (bytes \<Rightarrow> 'a result) \<Rightarrow> (statement_channel, 'a) action" where
  "receive_one handle decode =
     or_poison_once handle (after (on_ttc Receive) (\<lambda>response.
       if IsTtcErrorMessage response
       then after (on_registry (Poison handle)) (\<lambda>_. lifting (ThrowTtcServerError response))
       else lifting (decode response)))"

definition ReceiveExecuteResponse :: "u32 \<Rightarrow> (statement_channel, bytes) action" where
  "ReceiveExecuteResponse handle = receive_one handle Inr"

definition ReceivePlsqlOutBindsResponse ::
  "u32 \<Rightarrow> oracle_bind list \<Rightarrow> u8 \<Rightarrow> (statement_channel, io_vector \<times> nat list \<times> out_binds \<times> nat) action" where
  "ReceivePlsqlOutBindsResponse handle binds field_version =
     receive_one handle (\<lambda>response. DecodeTtcPlsqlOutBindsResponse response binds field_version)"

definition execute_piece :: "u8 \<Rightarrow> u8 \<Rightarrow> execute_response option piece_decoder" where
  "execute_piece field_version server_field_version message d =
     (case (if IsTtcErrorMessage message
            then andthen (DecodeTtcErrorPrefix server_field_version message) (\<lambda>(info, _).
              if error_number info \<noteq> 0 then refusal info else Inr ())
            else Inr ()) of
        Inl e \<Rightarrow> (None, Inl e)
      | Inr _ \<Rightarrow>
          (case DecodeTtcExecuteResponse message field_version server_field_version of
             Inl e \<Rightarrow> (None, Inl e)
           | Inr r \<Rightarrow> (Some r, Inr (execute_completed r))))"

definition ReceiveDecodedExecuteResponse :: "u32 \<Rightarrow> u8 \<Rightarrow> u8 \<Rightarrow> (statement_channel, execute_response) action" where
  "ReceiveDecodedExecuteResponse handle field_version server_field_version =
     or_poison_once handle
       (after (on_ttc (ReceiveResponseFragments (execute_piece field_version server_field_version) None)) (\<lambda>d. returning (the d)))"

definition ReceiveCallResponse :: "u32 \<Rightarrow> oracle_bind list \<Rightarrow> u8 \<Rightarrow> u8 \<Rightarrow> (statement_channel, call_response) action" where
  "ReceiveCallResponse handle binds field_version server_field_version =
     or_poison_once handle
       (after (on_ttc (ReceiveResponseFragments (each_time
           (\<lambda>message. map_sum id fst (DecodeTtcCallResponse message binds field_version server_field_version)) call_completed) None))
         (\<lambda>d. returning (the d)))"

text \<open>A statement that changes rows: the error of a failed one names the row.\<close>

datatype dml_outcome = Dml_done ttc_error_info | Dml_failed u32 u32

definition ReceiveDmlResponse :: "u32 \<Rightarrow> u8 \<Rightarrow> (statement_channel, dml_outcome) action" where
  "ReceiveDmlResponse handle server_field_version =
     or_poison_once handle
       (after (on_ttc (ReceiveResponseFragments (each_time (\<lambda>message. DecodeTtcExecuteCompletion message server_field_version) (\<lambda>_. True)) None))
         (\<lambda>d. if error_number (the d) \<noteq> 0
              then after (on_registry (Poison handle)) (\<lambda>_. returning (Dml_failed (current_row (the d)) (error_number (the d))))
              else returning (Dml_done (the d))))"

definition CompleteExecute :: "u32 \<Rightarrow> bool \<Rightarrow> u32 \<Rightarrow> (statement_channel, unit) action" where
  "CompleteExecute handle query cursor =
     after (if query \<and> cursor = 0 then failing MALFORMED
            else if cursor \<noteq> 0 then on_registry (BindRemoteCursor handle cursor)
            else returning ()) (\<lambda>_. on_registry (MarkExecuted handle query))"

section \<open>Fetch\<close>

definition fetch_call :: "u32 \<Rightarrow> bytes result \<Rightarrow> (statement_channel, unit) action" where
  "fetch_call handle request =
     after (on_registry (BeginFetch handle)) (\<lambda>_.
       or_poison handle (after (lifting request) (\<lambda>bytes. on_ttc (Send bytes))))"

definition Fetch :: "u32 \<Rightarrow> u8 \<Rightarrow> u32 \<Rightarrow> (statement_channel, unit) action" where
  "Fetch handle sequence row_count s =
     after (lifting (RemoteCursorId handle (registry s))) (\<lambda>cursor.
       fetch_call handle (EncodeTtcFetchRequest \<lparr>fetch_sequence = sequence, fetch_cursor_id = cursor, requested_rows = row_count\<rparr>)) s"

text \<open>The other requests are encoded before the fetch begins.\<close>

definition prepared_fetch :: "u32 \<Rightarrow> (u32 \<Rightarrow> bytes result) \<Rightarrow> (statement_channel, unit) action" where
  "prepared_fetch handle encode s =
     after (lifting (andthen (RemoteCursorId handle (registry s)) encode)) (\<lambda>request. fetch_call handle (Inr request)) s"

definition FetchOpenedCursor :: "u32 \<Rightarrow> u8 \<Rightarrow> u32 \<Rightarrow> u8 \<Rightarrow> (statement_channel, unit) action" where
  "FetchOpenedCursor handle sequence row_count field_version =
     prepared_fetch handle (\<lambda>cursor. EncodeTtcCursorFetchRequest sequence cursor row_count field_version)"

definition DefineInlineLobs :: "u32 \<Rightarrow> u8 \<Rightarrow> oracle_column list \<Rightarrow> u32 \<Rightarrow> (statement_channel, unit) action" where
  "DefineInlineLobs handle sequence columns row_count =
     prepared_fetch handle (\<lambda>cursor. EncodeInlineLobDefine sequence cursor columns row_count)"

definition DefineLobPrefetch ::
  "u32 \<Rightarrow> u8 \<Rightarrow> oracle_column list \<Rightarrow> u32 \<Rightarrow> u8 \<Rightarrow> prefetch_limits \<Rightarrow> (statement_channel, unit) action" where
  "DefineLobPrefetch handle sequence columns row_count field_version limits =
     prepared_fetch handle (\<lambda>cursor. EncodeLobPrefetchDefine sequence cursor columns row_count field_version limits)"

definition ReceiveFetchResponse :: "u32 \<Rightarrow> (statement_channel, bytes) action" where
  "ReceiveFetchResponse handle = or_poison_once handle (on_ttc Receive)"

definition ReceiveDecodedFetchResponse ::
  "u32 \<Rightarrow> oracle_column list \<Rightarrow> u8 \<Rightarrow> ttc_row_data option \<Rightarrow> (statement_channel, fetch_response) action" where
  "ReceiveDecodedFetchResponse handle columns server_field_version preceding =
     or_poison_once handle (on_ttc (after Receive (\<lambda>accumulated.
       after (lifting (TtcFetchResponseDecoder columns server_field_version preceding)) (\<lambda>d.
       after (fragments_loop Decode (MAX_RESPONSE_FRAGMENTS - 1) d accumulated) (\<lambda>d. returning (TakeResponse d))))))"

text \<open>The prefetch decoder is made when the first piece is there; a decoder that cannot be made is made anew for each piece.\<close>

definition prefetch_piece ::
  "oracle_column list \<Rightarrow> prefetch_limits \<Rightarrow> u8 \<Rightarrow> ttc_row_data option \<Rightarrow> prefetch_decoder option piece_decoder" where
  "prefetch_piece columns limits server_field_version preceding message d =
     (case (case d of Some d \<Rightarrow> Inr d | None \<Rightarrow> LobPrefetchFetchResponseDecoder columns limits server_field_version preceding) of
        Inl e \<Rightarrow> (None, Inl e)
      | Inr d \<Rightarrow> (case PrefetchDecode message d of (d, r) \<Rightarrow> (Some d, r)))"

definition ReceiveDecodedLobPrefetchFetchResponse ::
  "u32 \<Rightarrow> oracle_column list \<Rightarrow> prefetch_limits \<Rightarrow> u8 \<Rightarrow> ttc_row_data option \<Rightarrow> (statement_channel, fetch_response) action" where
  "ReceiveDecodedLobPrefetchFetchResponse handle columns limits server_field_version preceding =
     or_poison_once handle
       (after (on_ttc (ReceiveResponseFragments (prefetch_piece columns limits server_field_version preceding) None))
         (\<lambda>d. returning (PrefetchTake (the d))))"

section \<open>The end of a statement\<close>

definition CancelStatement :: "u32 \<Rightarrow> (statement_channel, unit) action" where
  "CancelStatement handle s = after (lifting (RemoteCursorId handle (registry s))) (\<lambda>_. on_ttc Cancel) s"

definition MarkFetchExhausted :: "u32 \<Rightarrow> (statement_channel, unit) action" where
  "MarkFetchExhausted handle = on_registry (MarkExhausted handle)"

definition CloseStatement :: "u32 \<Rightarrow> (statement_channel, bool) action" where
  "CloseStatement handle s =
     (let cursor = TryRemoteCursorId handle (registry s);
          (g, held) = Statement_Registry.Close handle (registry s)
      in if \<not> held then (s\<lparr>registry := g\<rparr>, Inr False)
         else case cursor of
             None \<Rightarrow> (s\<lparr>registry := g\<rparr>, Inr True)
           | Some cursor_id \<Rightarrow> after (on_ttc (QueueCloseCursor cursor_id)) (\<lambda>_. returning True) (s\<lparr>registry := g\<rparr>))"

section \<open>A failed call loses its statement\<close>

definition held :: "u32 \<Rightarrow> statement_registry \<Rightarrow> bool" where
  "held handle g \<longleftrightarrow> handle \<noteq> 0 \<and> map_of (statements g) handle \<noteq> None"

definition poisoned :: "u32 \<Rightarrow> statement_registry \<Rightarrow> statement_registry" where
  "poisoned handle g = fst (Poison handle g)"

lemma Poison_held: "held handle g \<Longrightarrow> Poison handle g = (poisoned handle g, Inr ())"
  by (auto simp: poisoned_def Poison_def move_def RequireOpen_def held_def split: option.split)
    (metis statement_state.exhaust)

lemma held_state: "held handle g \<Longrightarrow> State handle g = Inr (state_of handle g)"
  by (simp add: held_def State_def state_of_def split: option.split)

lemma poisoned_state: "held handle g \<Longrightarrow> state_of handle (poisoned handle g) = POISONED"
  by (auto simp: poisoned_def Poison_def move_def RequireOpen_def held_def set_record_state split: option.split)
    (metis statement_state.exhaust)

lemma poisoned_held: "held handle g \<Longrightarrow> held handle (poisoned handle g)"
  by (auto simp: poisoned_def Poison_def move_def RequireOpen_def held_def set_record_def update_conv' split: option.split)

lemma update_same: "map_of al k = Some v \<Longrightarrow> AList.update k v al = al"
  by (induction al) auto

lemma poisoned_again:
  assumes "held handle g" "state_of handle g = POISONED"
  shows "poisoned handle g = g"
proof -
  obtain x where x: "handle \<noteq> 0" "map_of (statements g) handle = Some x" "st_state x = POISONED"
    using assms by (auto simp: held_def state_of_def)
  then have "x\<lparr>st_state := POISONED\<rparr> = x" by simp
  with x show ?thesis
    by (simp add: poisoned_def Poison_def move_def RequireOpen_def set_record_def update_same)
qed

lemma poisoned_step: "registry_step g (poisoned handle g)"
  unfolding poisoned_def by (rule step_poison)

lemma lost_for_good:
  assumes "held handle g" "registry_ok g" "registry_step\<^sup>*\<^sup>* (poisoned handle g) g'"
  shows "state_of handle g' = POISONED \<or> state_of handle g' = CLOSED"
proof -
  have "handle \<in> fst ` set (statements g)" using assms(1) by (simp add: held_def map_of_eq_None_iff)
  then have "issued handle g" using assms(1,2) by (auto simp: registry_ok_def issued_def held_def)
  then have "issued handle (poisoned handle g)" "registry_ok (poisoned handle g)"
    using registry_step_monotone[OF poisoned_step assms(2)] registry_step_ok[OF poisoned_step assms(2)] by blast+
  with registry_reachable_monotone[OF assms(3)] have "rank POISONED \<le> rank (state_of handle g')"
    using poisoned_state[OF assms(1)] by metis
  then show ?thesis by (cases "state_of handle g'") simp_all
qed

definition failure :: "('a \<Rightarrow> bool) \<Rightarrow> statement_channel \<times> 'a result \<Rightarrow> statement_channel \<times> bool" where
  "failure refused = map_prod id (case_sum (\<lambda>_. True) refused)"

text \<open>
  What the receiving calls promise: one that fails, in the sense of \<open>refused\<close> when the failure is a value, has
  poisoned the statement, and no other changes the registry.
\<close>

locale poisoning_call =
  fixes call :: "u32 \<Rightarrow> (statement_channel, 'a) action" and refused :: "'a \<Rightarrow> bool"
  assumes outcome: "\<lbrakk>call handle s = (s', r); held handle (registry s)\<rbrakk> \<Longrightarrow>
    registry s' = (if case_sum (\<lambda>_. True) refused r then poisoned handle (registry s) else registry s)"
begin

lemma statement_lost:
  assumes "failure refused (call handle s) = (s', True)"
    and "held handle (registry s)" "registry_ok (registry s)" "registry_step\<^sup>*\<^sup>* (registry s') g"
  shows "state_of handle g = POISONED \<or> state_of handle g = CLOSED"
proof -
  obtain r where "call handle s = (s', r)" "case_sum (\<lambda>_. True) refused r"
    using assms(1) by (cases "call handle s") (auto simp: failure_def)
  with outcome[OF _ assms(2)] lost_for_good[OF assms(2,3)] assms(4) show ?thesis by simp
qed

lemma success_keeps: "\<lbrakk>call handle s = (s', Inr a); held handle (registry s); \<not> refused a\<rbrakk> \<Longrightarrow> registry s' = registry s"
  using outcome by fastforce

end

lemma on_ttc_registry [simp]: "registry (fst (on_ttc f s)) = registry s"
  by (simp add: on_ttc_def split: prod.split)

lemma on_ttc_outcome: "on_ttc f s = (s', r) \<Longrightarrow> registry s' = registry s"
  using on_ttc_registry[of f s] by simp

lemma on_registry_poison:
  "held handle (registry s) \<Longrightarrow> on_registry (Poison handle) s = (s\<lparr>registry := poisoned handle (registry s)\<rparr>, Inr ())"
  by (simp add: on_registry_def Poison_held)

text \<open>The handler poisons once: it leaves the registry of a call that has poisoned the statement already.\<close>

lemma or_poison_once_outcome:
  assumes "f s = (s1, r1)" "registry s1 = registry s \<or> registry s1 = poisoned handle (registry s)"
    and "held handle (registry s)" "or_poison_once handle f s = (s', r)"
  shows "r = r1 \<and> registry s' = (if isl r1 then poisoned handle (registry s) else registry s1)"
proof -
  have h: "held handle (registry s1)" using assms(2,3) poisoned_held by metis
  have p: "poisoned handle (registry s1) = poisoned handle (registry s)"
    using assms(2) poisoned_again[OF poisoned_held poisoned_state] assms(3) by metis
  show ?thesis
  proof (cases r1)
    case (Inr a)
    then show ?thesis using assms(1,4) by (auto simp: or_poison_once_def)
  next
    case (Inl e)
    have "or_poison_once handle f s = (if state_of handle (registry s1) = POISONED then (s1, Inl e)
        else (s1\<lparr>registry := poisoned handle (registry s1)\<rparr>, Inl e))"
      by (simp add: or_poison_once_def assms(1) Inl held_state[OF h] on_registry_poison[OF h] returning_def lifting_def)
    then show ?thesis using assms(4) Inl p poisoned_again[OF h] by (auto split: if_splits)
  qed
qed

lemma or_poison_once_ttc: "\<lbrakk>or_poison_once handle f s = (s', r'); f s = (s1, r)\<rbrakk> \<Longrightarrow> ttc s' = ttc s1"
  by (auto simp: or_poison_once_def after_def lifting_def returning_def on_registry_def split: sum.splits prod.splits if_splits)

text \<open>A call that leaves the registry to the handler.\<close>

lemma handler_outcome:
  assumes "or_poison_once handle f s = (s', r)" "held handle (registry s)"
    and "\<And>s1 r1. f s = (s1, r1) \<Longrightarrow> registry s1 = registry s"
  shows "registry s' = (if isl r then poisoned handle (registry s) else registry s)"
  using or_poison_once_outcome[OF _ _ assms(2,1)] assms(3) by (metis surj_pair)

lemma after_ttc_registry:
  "after (on_ttc f) (\<lambda>a. lifting (g a)) s = (s1, r1) \<Longrightarrow> registry s1 = registry s"
  "after (on_ttc f) (\<lambda>a. returning (h a)) s = (s1, r2) \<Longrightarrow> registry s1 = registry s"
  by (auto simp: after_def lifting_def returning_def split: prod.splits sum.splits dest!: on_ttc_outcome)

abbreviation never :: "'a \<Rightarrow> bool" where
  "never \<equiv> \<lambda>_. False"

lemma poisoning_callI:
  assumes "\<And>handle s s' r. \<lbrakk>call handle s = (s', r); held handle (registry s)\<rbrakk> \<Longrightarrow>
    registry s' = (if isl r then poisoned handle (registry s) else registry s)"
  shows "poisoning_call call never"
proof
  fix handle s s' r assume "call handle s = (s', r)" "held handle (registry s)"
  from assms[OF this] show "registry s' = (if case_sum (\<lambda>_. True) never r then poisoned handle (registry s) else registry s)"
    by (cases r) simp_all
qed

lemma server_error_thrown: "isl (ThrowTtcServerError message)"
  by (cases "ParseTtcServerError message") (simp_all add: ThrowTtcServerError_def)

lemma receive_one_outcome:
  assumes "receive_one handle decode s = (s', r)" "held handle (registry s)"
  shows "registry s' = (if isl r then poisoned handle (registry s) else registry s)"
proof -
  let ?f = "after (on_ttc Receive) (\<lambda>response.
       if IsTtcErrorMessage response
       then after (on_registry (Poison handle)) (\<lambda>_. lifting (ThrowTtcServerError response))
       else lifting (decode response))"
  obtain s1 r1 where f: "?f s = (s1, r1)" by fastforce
  obtain s0 r0 where r0: "on_ttc Receive s = (s0, r0)" by fastforce
  then have reg: "registry s0 = registry s" by (rule on_ttc_outcome)
  have "registry s1 = registry s \<or> registry s1 = poisoned handle (registry s) \<and> isl r1"
    using f r0 reg assms(2) on_registry_poison[of handle s0]
    by (cases r0) (auto simp: lifting_def server_error_thrown split: if_splits)
  with or_poison_once_outcome[where f = ?f, OF f _ assms(2)] assms(1) show ?thesis
    unfolding receive_one_def by (metis (no_types, lifting))
qed

interpretation execute: poisoning_call ReceiveExecuteResponse never
  by (rule poisoning_callI) (simp add: ReceiveExecuteResponse_def receive_one_outcome)

interpretation out_binds: poisoning_call "\<lambda>handle. ReceivePlsqlOutBindsResponse handle binds version" never
  by (rule poisoning_callI) (simp add: ReceivePlsqlOutBindsResponse_def receive_one_outcome)

interpretation decoded_execute: poisoning_call "\<lambda>handle. ReceiveDecodedExecuteResponse handle version server" never
  by (rule poisoning_callI, unfold ReceiveDecodedExecuteResponse_def) (erule handler_outcome, assumption, erule after_ttc_registry)

interpretation call: poisoning_call "\<lambda>handle. ReceiveCallResponse handle binds version server" never
  by (rule poisoning_callI, unfold ReceiveCallResponse_def) (erule handler_outcome, assumption, erule after_ttc_registry)

interpretation raw_fetch: poisoning_call ReceiveFetchResponse never
  by (rule poisoning_callI, unfold ReceiveFetchResponse_def) (erule handler_outcome, assumption, erule on_ttc_outcome)

interpretation fetch: poisoning_call "\<lambda>handle. ReceiveDecodedFetchResponse handle columns server preceding" never
  by (rule poisoning_callI, unfold ReceiveDecodedFetchResponse_def) (erule handler_outcome, assumption, erule on_ttc_outcome)

interpretation prefetch: poisoning_call "\<lambda>handle. ReceiveDecodedLobPrefetchFetchResponse handle columns limits server preceding" never
  by (rule poisoning_callI, unfold ReceiveDecodedLobPrefetchFetchResponse_def) (erule handler_outcome, assumption, erule after_ttc_registry)

fun dml_refused :: "dml_outcome \<Rightarrow> bool" where
  "dml_refused (Dml_done info) \<longleftrightarrow> False"
| "dml_refused (Dml_failed row code) \<longleftrightarrow> True"

interpretation dml: poisoning_call "\<lambda>handle. ReceiveDmlResponse handle server" dml_refused
proof
  fix handle s s' r
  assume r: "ReceiveDmlResponse handle server s = (s', r)" and h: "held handle (registry s)"
  let ?decoder = "each_time (\<lambda>message. DecodeTtcExecuteCompletion message server) (\<lambda>_. True)"
  let ?f = "after (on_ttc (ReceiveResponseFragments ?decoder None))
    (\<lambda>d. if error_number (the d) \<noteq> 0
      then after (on_registry (Poison handle)) (\<lambda>_. returning (Dml_failed (current_row (the d)) (error_number (the d))))
      else returning (Dml_done (the d)))"
  obtain s1 r1 where f: "?f s = (s1, r1)" by fastforce
  obtain s0 r0 where r0: "on_ttc (ReceiveResponseFragments ?decoder None) s = (s0, r0)" by fastforce
  then have reg: "registry s0 = registry s" by (rule on_ttc_outcome)
  have "registry s1 = (if case_sum never dml_refused r1 then poisoned handle (registry s) else registry s)"
    using f r0 reg h on_registry_poison[of handle s0]
    by (cases r0) (auto simp: returning_def split: if_splits)
  moreover from this have "r = r1 \<and> registry s' = (if isl r1 then poisoned handle (registry s) else registry s1)"
    by (intro or_poison_once_outcome[where f = ?f, OF f _ h]) (use r in \<open>simp_all add: ReceiveDmlResponse_def\<close>)
  ultimately show "registry s' = (if case_sum (\<lambda>_. True) dml_refused r then poisoned handle (registry s) else registry s)"
    by (cases r1) simp_all
qed

section \<open>A response in several pieces\<close>

text \<open>What a channel hands over, message by message.\<close>

inductive delivers :: "ttc_channel \<Rightarrow> bytes list \<Rightarrow> ttc_channel \<Rightarrow> bool" where
  delivers_nothing: "delivers c [] c"
| delivers_next: "\<lbrakk>Receive c = (c', Inr w); delivers c' ws c''\<rbrakk> \<Longrightarrow> delivers c (w # ws) c''"

inductive_cases delivers_NilE: "delivers c [] c'"
inductive_cases delivers_ConsE: "delivers c (w # ws) c'"

text \<open>A decoding that settles what the response is, and so ends the wait for more of it.\<close>

fun conclusive :: "fetch_response result \<Rightarrow> bool" where
  "conclusive (Inl e) \<longleftrightarrow> Kind e \<noteq> TRUNCATED"
| "conclusive (Inr r) \<longleftrightarrow> response_completed r"

definition same_response :: "fetch_response \<Rightarrow> fetch_response \<Rightarrow> bool" where
  "same_response whole r \<longleftrightarrow> r\<lparr>response_completion := None\<rparr> = whole\<lparr>response_completion := None\<rparr> \<and>
     (response_completion r = response_completion whole \<or>
      response_completion r = None \<and> (\<exists>info. response_completion whole = Some info \<and> error_number info = 0))"

fun same_outcome :: "fetch_response result \<Rightarrow> fetch_response result \<Rightarrow> bool" where
  "same_outcome (Inr whole) (Inr r) \<longleftrightarrow> same_response whole r"
| "same_outcome (Inl e) r \<longleftrightarrow> r = Inl e"
| "same_outcome (Inr whole) (Inl e) \<longleftrightarrow> False"

lemma Decode_agrees:
  assumes "TtcFetchResponseDecoder columns version preceding = Inr d\<^sub>0" "\<forall>m\<in>set pieces. prefix m message"
    and "Decode message (decode_pieces pieces d\<^sub>0) = (d, r)"
  shows "same_outcome (DecodeTtcFetchResponse message columns version preceding) (map_sum id (\<lambda>_. TakeResponse d) r)"
    and "conclusive (DecodeTtcFetchResponse message columns version preceding) \<longleftrightarrow>
      (case r of Inl e \<Rightarrow> Kind e \<noteq> TRUNCATED | Inr finished \<Rightarrow> finished)"
  using pieces_agree[OF assms(1,2)] assms(3)
  by (auto simp: same_response_def TakeResponse_def split: sum.splits)

lemma fragments_loop_step:
  "fragments_loop decoder (Suc left) d accumulated c =
     (case decoder accumulated d of (d', r) \<Rightarrow>
        if (case r of Inl e \<Rightarrow> Kind e \<noteq> TRUNCATED | Inr finished \<Rightarrow> finished)
        then (c, map_sum id (\<lambda>_. d') r)
        else after Receive (\<lambda>next_bytes.
          if length next_bytes > MAX_RESPONSE_BYTES \<or> length accumulated > MAX_RESPONSE_BYTES - length next_bytes
          then failing LIMIT_EXCEEDED
          else fragments_loop decoder left d' (accumulated @ next_bytes)) c)"
  by (auto simp: Let_def split: prod.splits sum.splits bool.splits)

lemma fragments_loop_ends:
  assumes "decoder accumulated d = (d', r)" "case r of Inl e \<Rightarrow> Kind e \<noteq> TRUNCATED | Inr finished \<Rightarrow> finished"
  shows "fragments_loop decoder left d accumulated c = (c, map_sum id (\<lambda>_. d') r)"
  using assms by (cases left; cases r) (auto simp: Let_def)

lemma loop_delivers:
  assumes "delivers c ws c'" "length ws \<le> left" "length (accumulated @ concat ws) \<le> MAX_RESPONSE_BYTES"
    and d0: "TtcFetchResponseDecoder columns version preceding = Inr d\<^sub>0"
    and "\<forall>m\<in>set pieces. prefix m accumulated"
    and "\<And>i. i < length ws \<Longrightarrow>
      \<not> conclusive (DecodeTtcFetchResponse (accumulated @ concat (take i ws)) columns version preceding)"
    and "conclusive (DecodeTtcFetchResponse (accumulated @ concat ws) columns version preceding)"
  shows "\<exists>r. fragments_loop Decode left (decode_pieces pieces d\<^sub>0) accumulated c = (c', r) \<and>
    same_outcome (DecodeTtcFetchResponse (accumulated @ concat ws) columns version preceding) (map_sum id TakeResponse r)"
  using assms(1-3,5-)
proof (induction ws arbitrary: c accumulated pieces left)
  case Nil
  obtain d r where d: "Decode accumulated (decode_pieces pieces d\<^sub>0) = (d, r)" by fastforce
  have "c' = c" using Nil.prems(1) by (auto elim: delivers_NilE)
  with fragments_loop_ends[of Decode, OF d] Decode_agrees[OF d0 Nil.prems(4) d] Nil.prems(6) show ?case
    by (cases r) auto
next
  case (Cons w ws)
  obtain k where k: "left = Suc k" using Cons.prems(2) by (cases left) auto
  obtain c1 where c1: "Receive c = (c1, Inr w)" "delivers c1 ws c'"
    using Cons.prems(1) by (auto elim: delivers_ConsE)
  obtain d r where d: "Decode accumulated (decode_pieces pieces d\<^sub>0) = (d, r)" by fastforce
  have "\<not> (case r of Inl e \<Rightarrow> Kind e \<noteq> TRUNCATED | Inr finished \<Rightarrow> finished)"
    using Decode_agrees(2)[OF d0 Cons.prems(4) d] Cons.prems(5)[of 0] by simp
  moreover have "decode_pieces (pieces @ [accumulated]) d\<^sub>0 = d" using d by (simp add: decode_pieces_def)
  moreover have "\<not> (length w > MAX_RESPONSE_BYTES \<or> length accumulated > MAX_RESPONSE_BYTES - length w)"
    using Cons.prems(3) by auto
  ultimately have step: "fragments_loop Decode left (decode_pieces pieces d\<^sub>0) accumulated c =
      fragments_loop Decode k (decode_pieces (pieces @ [accumulated]) d\<^sub>0) (accumulated @ w) c1"
    using c1(1) unfolding k fragments_loop_step d by simp
  have "\<exists>r. fragments_loop Decode k (decode_pieces (pieces @ [accumulated]) d\<^sub>0) (accumulated @ w) c1 = (c', r) \<and>
      same_outcome (DecodeTtcFetchResponse ((accumulated @ w) @ concat ws) columns version preceding) (map_sum id TakeResponse r)"
  proof (rule Cons.IH[OF c1(2)])
    show "\<not> conclusive (DecodeTtcFetchResponse ((accumulated @ w) @ concat (take i ws)) columns version preceding)"
      if "i < length ws" for i
      using Cons.prems(5)[of "Suc i"] that by simp
  qed (use Cons.prems k in \<open>auto simp: prefix_def\<close>)
  then show ?case unfolding step by (simp only: append_assoc concat.simps)
qed

section \<open>Properties\<close>

text \<open>Every call that reads a response, and every call that sends a request for a statement.\<close>

datatype reception =
    Execute_response | Decoded_execute u8 u8 | Dml_response u8 | Plsql_out_binds "oracle_bind list" u8
  | Call_response "oracle_bind list" u8 u8 | Fetch_response | Decoded_fetch "oracle_column list" u8 "ttc_row_data option"
  | Decoded_prefetch "oracle_column list" prefetch_limits u8 "ttc_row_data option"

fun receive :: "reception \<Rightarrow> u32 \<Rightarrow> statement_channel \<Rightarrow> statement_channel \<times> bool" where
  "receive Execute_response h s = failure never (ReceiveExecuteResponse h s)"
| "receive (Decoded_execute v w) h s = failure never (ReceiveDecodedExecuteResponse h v w s)"
| "receive (Dml_response v) h s = failure dml_refused (ReceiveDmlResponse h v s)"
| "receive (Plsql_out_binds binds v) h s = failure never (ReceivePlsqlOutBindsResponse h binds v s)"
| "receive (Call_response binds v w) h s = failure never (ReceiveCallResponse h binds v w s)"
| "receive Fetch_response h s = failure never (ReceiveFetchResponse h s)"
| "receive (Decoded_fetch columns v p) h s = failure never (ReceiveDecodedFetchResponse h columns v p s)"
| "receive (Decoded_prefetch columns limits v p) h s =
     failure never (ReceiveDecodedLobPrefetchFetchResponse h columns limits v p s)"

datatype request =
    Execute_plain no_binds_request | Execute_bound binds_request | Fetch_rows u8 u32 | Fetch_cursor u8 u32 u8
  | Define_lobs u8 "oracle_column list" u32 | Define_prefetch u8 "oracle_column list" u32 u8 prefetch_limits

fun request_call :: "request \<Rightarrow> u32 \<Rightarrow> (statement_channel, unit) action" where
  "request_call (Execute_plain q) h = ExecuteNoBinds h q"
| "request_call (Execute_bound q) h = ExecuteBinds h q"
| "request_call (Fetch_rows n k) h = Fetch h n k"
| "request_call (Fetch_cursor n k v) h = FetchOpenedCursor h n k v"
| "request_call (Define_lobs n columns k) h = DefineInlineLobs h n columns k"
| "request_call (Define_prefetch n columns k v limits) h = DefineLobPrefetch h n columns k v limits"

lemma BeginFetch_refused:
  assumes "state_of h g = POISONED \<or> state_of h g = CLOSED"
  shows "\<exists>e. BeginFetch h g = (g, Inl e)"
  using assms by (auto simp: BeginFetch_def move_def RequireOpen_def state_of_def split: option.splits)

lemma fetch_call_refused:
  "state_of h (registry s) = POISONED \<or> state_of h (registry s) = CLOSED \<Longrightarrow> \<exists>e. fetch_call h request s = (s, Inl e)"
  using BeginFetch_refused[of h "registry s"] by (auto simp: fetch_call_def on_registry_def after_def)

lemma request_refused:
  assumes "state_of h (registry s) = POISONED \<or> state_of h (registry s) = CLOSED"
  shows "\<exists>e. request_call q h s = (s, Inl e)"
proof -
  have f: "\<exists>e. after (lifting r) (\<lambda>a. fetch_call h (k a)) s = (s, Inl e)" for r :: "'b result" and k
    using fetch_call_refused[OF assms] by (cases r) simp_all
  have x: "\<exists>e. execute_open h r s = (s, Inl e)" for r
    using assms by (auto simp: execute_open_def State_def state_of_def split: option.splits)
  show ?thesis
    by (cases q) (simp_all add: ExecuteNoBinds_def ExecuteBinds_def Fetch_def FetchOpenedCursor_def DefineInlineLobs_def
        DefineLobPrefetch_def x f prepared_fetch_def)
qed

lemmas statement_lost_all = execute.statement_lost decoded_execute.statement_lost dml.statement_lost out_binds.statement_lost
  call.statement_lost raw_fetch.statement_lost fetch.statement_lost prefetch.statement_lost

lemma failed_reception:
  assumes "receive r h s = (s', True)" "held h (registry s)" "registry_ok (registry s)"
    and "registry_step\<^sup>*\<^sup>* (registry s') g"
  shows "state_of h g = POISONED \<or> state_of h g = CLOSED"
  using assms by (cases r) (simp_all only: receive.simps statement_lost_all)

text \<open>
  C5. A statement whose response could not be read is lost for good: when a call that receives fails, by the
  transport, by a response that does not decode, by an error the server sent, or by exceeding a
  limit, then whatever is done with the statements of the session afterwards, no execute, define or fetch on that
  handle is ever sent again, each being refused with the state untouched.
\<close>

theorem failed_statement_lost:
  assumes "registry_ok (registry s)" "handle \<noteq> 0" "map_of (statements (registry s)) handle \<noteq> None"
    and "receive reception handle s = (s', True)"
    and "registry_step\<^sup>*\<^sup>* (registry s') (registry later)"
  shows "\<exists>e. request_call request handle later = (later, Inl e)"
  using failed_reception[OF assms(4) _ assms(1,5)] assms(2,3) by (intro request_refused) (simp add: held_def)

definition silent_statements :: statement_channel where
  "silent_statements = \<lparr>ttc = sample_channel\<lparr>packets := (packets sample_channel)\<lparr>stream := \<lparr>inbound = [], outbound = [], accepted = []\<rparr>\<rparr>\<rparr>,
     registry = sample_registry\<rparr>"

lemma sample_registry_ok: "registry_ok sample_registry"
  by (simp add: registry_ok_def cursors_ok_def sample_registry_def)

lemma failed_statement_lost_witness:
  "\<exists>s' e. ReceiveFetchResponse 1 silent_statements = (s', Inl e) \<and> State 1 (registry s') = Inr POISONED \<and>
     (\<forall>request. \<exists>e. ExecuteNoBinds 1 request s' = (s', Inl e))"
proof -
  have read: "ReadExact TNS_PACKET_HEADER_SIZE [] \<lparr>inbound = [], outbound = [], accepted = []\<rparr> =
      (\<lparr>inbound = [], outbound = [], accepted = []\<rparr>, throw TRUNCATED)"
    by (subst ReadExact.simps) (simp add: Read_def TNS_PACKET_HEADER_SIZE_def)
  have "receive_turn 0 0 (ttc silent_statements) = (ttc silent_statements, throw TRUNCATED)"
    by (simp add: receive_turn_def on_packets_def ReceivePacket_def read silent_statements_def)
  then have "Receive (ttc silent_statements) = (ttc silent_statements, throw TRUNCATED)"
    by (simp add: Receive_def receive_loop.simps[of 0 0 "ttc silent_statements"])
  then have "on_ttc Receive silent_statements = (silent_statements, throw TRUNCATED)" by (simp add: on_ttc_def)
  then obtain s' e where f: "ReceiveFetchResponse 1 silent_statements = (s', Inl e)" "State 1 (registry s') = Inr POISONED"
    by (simp add: ReceiveFetchResponse_def or_poison_once_def silent_statements_def
        sample_registry_def State_def on_registry_def Poison_def move_def RequireOpen_def set_record_def lifting_def)
  have "\<exists>e. request_call (Execute_plain request) 1 s' = (s', Inl e)" for request
  proof (rule failed_statement_lost)
    show "receive Fetch_response 1 silent_statements = (s', True)" using f(1) by (simp add: failure_def)
  qed (simp_all add: silent_statements_def sample_registry_ok, simp add: sample_registry_def)
  with f show ?thesis by simp
qed

text \<open>
  C36. A fetch response that the channel delivers in pieces, none of which but the last settles what it is, is received
  as what decoding the whole of it in one pass gives: the rows, flags and consumed bytes of the response, at most an end of call
  without an error that the server sent before later rows missing, or the error of that pass, with the statement
  poisoned. It takes exactly the delivered messages off the channel.
\<close>

theorem fetch_response_received:
  assumes "delivers (ttc s) (first # ws) c'" "length (first # ws) \<le> MAX_RESPONSE_FRAGMENTS"
    and "length (concat (first # ws)) \<le> MAX_RESPONSE_BYTES"
    and "\<And>i. i < length ws \<Longrightarrow> \<not> conclusive (DecodeTtcFetchResponse (first @ concat (take i ws)) columns version preceding)"
    and "conclusive (DecodeTtcFetchResponse (concat (first # ws)) columns version preceding)"
    and "handle \<noteq> 0" "map_of (statements (registry s)) handle \<noteq> None"
  shows "\<exists>s' r. ReceiveDecodedFetchResponse handle columns version preceding s = (s', r) \<and> ttc s' = c' \<and>
    same_outcome (DecodeTtcFetchResponse (concat (first # ws)) columns version preceding) r \<and>
    registry s' = (if isl r then fst (Poison handle (registry s)) else registry s)"
proof -
  obtain c1 where c1: "Receive (ttc s) = (c1, Inr first)" "delivers c1 ws c'"
    using assms(1) by (auto elim: delivers_ConsE)
  let ?whole = "DecodeTtcFetchResponse (concat (first # ws)) columns version preceding"
  let ?f = "on_ttc (after Receive (\<lambda>accumulated.
       after (lifting (TtcFetchResponseDecoder columns version preceding)) (\<lambda>d.
       after (fragments_loop Decode (MAX_RESPONSE_FRAGMENTS - 1) d accumulated) (\<lambda>d. returning (TakeResponse d)))))"
  have h: "held handle (registry s)" using assms(6,7) by (simp add: held_def)
  have "\<exists>r. ?f s = (s\<lparr>ttc := c'\<rparr>, r) \<and> same_outcome ?whole r"
  proof (cases "TtcFetchResponseDecoder columns version preceding")
    case (Inl e)
    then have all: "DecodeTtcFetchResponse m columns version preceding = Inl e" for m
      by (simp add: DecodeTtcFetchResponse_def)
    have "ws = []" using assms(4)[of 0] assms(5) by (cases ws) (simp_all add: all)
    then show ?thesis using c1 by (auto simp: Inl all on_ttc_def elim: delivers_NilE)
  next
    case (Inr d\<^sub>0)
    have "length ws \<le> MAX_RESPONSE_FRAGMENTS - 1" "decode_pieces [] d\<^sub>0 = d\<^sub>0"
      using assms(2) by (simp_all add: decode_pieces_def)
    with loop_delivers[OF c1(2) _ _ Inr, of "MAX_RESPONSE_FRAGMENTS - 1" first "[]"] assms(2-5)
    obtain r where r: "fragments_loop Decode (MAX_RESPONSE_FRAGMENTS - 1) d\<^sub>0 first c1 = (c', r)"
      "same_outcome ?whole (map_sum id TakeResponse r)" by auto
    then show ?thesis
      using c1(1) by (cases r) (simp_all add: Inr on_ttc_def returning_def)
  qed
  then obtain r where r: "?f s = (s\<lparr>ttc := c'\<rparr>, r)" "same_outcome ?whole r" by blast
  obtain s' r' where call: "ReceiveDecodedFetchResponse handle columns version preceding s = (s', r')" by fastforce
  have "r' = r \<and> registry s' = (if isl r then poisoned handle (registry s) else registry s)"
    using or_poison_once_outcome[where f = ?f, OF r(1) _ h] call by (simp add: ReceiveDecodedFetchResponse_def)
  moreover have "ttc s' = c'"
    using or_poison_once_ttc[where f = ?f, OF _ r(1)] call by (simp add: ReceiveDecodedFetchResponse_def)
  ultimately show ?thesis using call r(2) by (auto simp: poisoned_def)
qed

definition two_packets :: ttc_channel where
  "two_packets = sample_channel\<lparr>packets := (packets sample_channel)\<lparr>stream :=
     \<lparr>inbound = [[0, 0, 0, 12, 6, 0, 0, 0, 0x20, 0, 7, 1, 0], [0, 0, 12, 6, 0, 0, 0, 0x20, 0, 65, 29]],
      outbound = [], accepted = []\<rparr>\<rparr>\<rparr>"

definition sample_statements :: statement_channel where
  "sample_statements = \<lparr>ttc = two_packets, registry = sample_registry\<rparr>"

lemma two_packets: "\<exists>c'. delivers two_packets [[7, 1], [65, 29]] c'"
proof -
  have e: "EncodeTnsDataPackets [a, b] True 100 0x2000 = Inr [[0, 0, 0, 12, 6, 0, 0, 0, 0x20, 0, a, b]]" for a b
    by (simp add: EncodeTnsDataPackets_def TNS_PACKET_HEADER_SIZE_def data_packets.simps Let_def
        EncodeTnsPacket_eq MAX_TNS_PACKET_LENGTH_def header_bytes_def be_bytes_4 DATA_def)
  have flags: "end_flags 0x2000" by (simp add: TNS_DATA_FLAG_END_OF_RESPONSE_def TNS_DATA_FLAG_EOF_def)
  have ok: "channel_ok two_packets"
    by (simp add: channel_ok_def two_packets_def sample_channel_def MAX_TNS_PACKET_LENGTH_def assembler_ok_def pieces_ok_def)
  note start = two_packets_def sample_channel_def pending_def
  have sdu: "negotiated_sdu two_packets = 100" "maximum_message_size (assembler two_packets) = 1000" by (simp_all add: start)
  obtain c1 where 1: "Receive two_packets = (c1, Inr [7, 1])" "channel_ok c1" "buffered (assembler c1) = []"
    "channel_pending c1 = concat [[0, 0, 0, 12, 6, 0, 0, 0, 0x20, 0, 65, 29]] @ []" "same_settings two_packets c1"
    using message_received[OF ok _ e[of 7 1, folded sdu(1)] _ _ flags, of "[0, 0, 0, 12, 6, 0, 0, 0, 0x20, 0, 65, 29]"]
    by (auto simp: start)
  have "negotiated_sdu c1 = 100" "maximum_message_size (assembler c1) = 1000" using 1(5) sdu by (simp_all add: same_settings_def)
  with message_received[OF 1(2,3) e[of 65 29, folded this(1)] _ _ flags 1(4)]
  obtain c2 where "Receive c1 = (c2, Inr [65, 29])" by auto
  with 1(1) show ?thesis by (blast intro: delivers.intros)
qed

lemma fetch_response_received_witness:
  "\<exists>s' r. ReceiveDecodedFetchResponse 1 [OracleColumn] 12 None sample_statements = (s', Inr r) \<and>
     response_rows r = [[Some [65]]] \<and> response_completed r \<and> registry s' = sample_registry"
proof -
  obtain c' where c': "delivers two_packets [[7, 1], [65, 29]] c'" using two_packets by blast
  have part: "\<not> conclusive (DecodeTtcFetchResponse [7, 1] [OracleColumn] 12 None)"
    by (simp add: DecodeTtcFetchResponse_def fetch_eval reader_eval)
  obtain whole where whole: "DecodeTtcFetchResponse [7, 1, 65, 29] [OracleColumn] 12 None = Inr whole"
    "response_rows whole = [[Some [65]]]" "response_completed whole"
    by (simp add: DecodeTtcFetchResponse_def fetch_eval reader_eval TakeResponse_def)
  have "\<exists>s' r. ReceiveDecodedFetchResponse 1 [OracleColumn] 12 None sample_statements = (s', r) \<and> ttc s' = c' \<and>
    same_outcome (DecodeTtcFetchResponse (concat [[7, 1], [65, 29]]) [OracleColumn] 12 None) r \<and>
    registry s' = (if isl r then fst (Poison 1 (registry sample_statements)) else registry sample_statements)"
    by (rule fetch_response_received)
      (use c' part whole in \<open>auto simp: sample_statements_def sample_registry_def MAX_RESPONSE_FRAGMENTS_def MAX_RESPONSE_BYTES_def\<close>)
  then obtain s' r where "ReceiveDecodedFetchResponse 1 [OracleColumn] 12 None sample_statements = (s', r)"
    "same_outcome (Inr whole) r" "registry s' = (if isl r then fst (Poison 1 sample_registry) else sample_registry)"
    using whole(1) by (auto simp: sample_statements_def)
  then show ?thesis using whole(2,3)
    by (cases r) (auto simp: same_response_def dest: arg_cong[where f = response_rows] arg_cong[where f = response_completed])
qed

end
