(* ===== verification/Connect_Config.thy ===== *)
theory Connect_Config
  imports Prelude "HOL-Library.Multiset"
begin

text \<open>
  \<^verbatim>\<open>src/connect_descriptor.cpp\<close> with the errors of \<^verbatim>\<open>connect_error.hpp\<close>, the client identity and the order
  of \<^verbatim>\<open>src/connect_plan.cpp\<close>: the configuration of a connection, its validation, the connect data it is
  rendered to, and the addresses one physical connect tries.
\<close>

section \<open>Addresses and routing\<close>

datatype transport_protocol = TCP | TCPS

record connect_address =
  ca_host :: string
  ca_port :: u16
  ca_protocol :: transport_protocol

record connect_address_list =
  addresses :: "connect_address list"
  list_failover :: bool
  list_load_balance :: bool

definition MAX_CONNECT_ADDRESSES :: nat where
  "MAX_CONNECT_ADDRESSES = 16"

definition MAX_CONNECT_RETRY_COUNT :: u32 where
  "MAX_CONNECT_RETRY_COUNT = 100"

definition MAX_CONNECT_RETRY_DELAY_SECONDS :: u32 where
  "MAX_CONNECT_RETRY_DELAY_SECONDS = 3600"

definition MAX_CONNECT_BUDGET_SECONDS :: u32 where
  "MAX_CONNECT_BUDGET_SECONDS = 3600"

definition DEFAULT_CONNECT_BUDGET_SECONDS :: u32 where
  "DEFAULT_CONNECT_BUDGET_SECONDS = 60"

record connect_routing =
  address_lists :: "connect_address_list list"
  failover :: bool
  load_balance :: bool
  retry_count :: u32
  retry_delay_seconds :: u32
  connect_budget_seconds :: u32

definition ConnectRouting :: connect_routing where
  "ConnectRouting = \<lparr>address_lists = [], failover = True, load_balance = False, retry_count = 0,
     retry_delay_seconds = 1, connect_budget_seconds = 0\<rparr>"

text \<open>The fields the validation, the connect data and the connect loop read.\<close>

record connection_config =
  host :: string
  port :: u16
  service_name :: string
  sid :: string
  instance_name :: string
  server_type :: string
  connection_id :: string
  client_program :: string
  protocol :: transport_protocol
  connect_timeout_seconds :: u32
  read_timeout_seconds :: u32
  routing :: connect_routing
  tls_server_name :: string
  tls_sni_name :: string
  tls_ca_file :: string
  wallet_pem_file :: string
  wallet_password :: string

definition ConnectionConfig :: connection_config where
  "ConnectionConfig = \<lparr>host = '''', port = 1521, service_name = '''', sid = '''', instance_name = '''', server_type = '''',
     connection_id = '''', client_program = '''', protocol = TCP, connect_timeout_seconds = 10, read_timeout_seconds = 30,
     routing = ConnectRouting, tls_server_name = '''', tls_sni_name = '''', tls_ca_file = '''', wallet_pem_file = '''',
     wallet_password = ''''\<rparr>"

section \<open>The platform\<close>

text \<open>
  What the operating system answers: whether \<^verbatim>\<open>inet_pton\<close> takes a text as an address, the path of the
  executable, the environment, the host name and the process id.
\<close>

record platform =
  inet_pton4 :: "string \<Rightarrow> bool"
  inet_pton6 :: "string \<Rightarrow> bool"
  executable_path :: "string option"
  env_user :: "string option"
  host_name :: "string option"
  process_number :: int

text \<open>\<^verbatim>\<open>c_str()\<close>: what a C function sees of a string.\<close>

definition c_str :: "string \<Rightarrow> string" where
  "c_str = takeWhile (\<lambda>c. c \<noteq> CHR 0x00)"

record client_identity =
  program :: string
  terminal :: string
  machine :: string
  process_id :: string
  os_user :: string

definition CurrentExecutablePath :: "platform \<Rightarrow> string result" where
  "CurrentExecutablePath os = (case executable_path os of None \<Rightarrow> throw INVALID_STATE | Some p \<Rightarrow> Inr p)"

definition CurrentOracleClientIdentity :: "platform \<Rightarrow> string \<Rightarrow> client_identity result" where
  "CurrentOracleClientIdentity os program_name =
     andthen (if program_name = '''' then CurrentExecutablePath os else Inr program_name) (\<lambda>p.
       let user = (case env_user os of None \<Rightarrow> '''' | Some u \<Rightarrow> u);
           user = (if user = '''' then ''oracle_scanner'' else user)
       in case host_name os of
            None \<Rightarrow> throw INVALID_STATE
          | Some name \<Rightarrow>
              if name = '''' then throw INVALID_STATE
              else Inr \<lparr>program = p, terminal = ''unknown'', machine = name,
                process_id = (if process_number os < 0 then [CHR ''-''] else []) @ decimal (nat \<bar>process_number os\<bar>),
                os_user = user\<rparr>)"

section \<open>Validation\<close>

definition descriptor_char :: "char \<Rightarrow> bool" where
  "descriptor_char c \<longleftrightarrow> isalnum c \<or> c = CHR ''.'' \<or> c = CHR ''_'' \<or> c = CHR ''-''"

definition IsDescriptorAtom :: "string \<Rightarrow> bool" where
  "IsDescriptorAtom s \<longleftrightarrow> s \<noteq> '''' \<and> list_all descriptor_char s"

definition IsSafeIpv6Literal :: "platform \<Rightarrow> string \<Rightarrow> bool" where
  "IsSafeIpv6Literal os s = inet_pton6 os (c_str s)"

definition IsIpLiteral :: "platform \<Rightarrow> string \<Rightarrow> bool" where
  "IsIpLiteral os s \<longleftrightarrow> inet_pton4 os (c_str s) \<or> inet_pton6 os (c_str s)"

definition check :: "bool \<Rightarrow> error_kind \<Rightarrow> unit result" where
  "check bad k = (if bad then throw k else Inr ())"

definition ValidateAddress :: "platform \<Rightarrow> string \<Rightarrow> u16 \<Rightarrow> unit result" where
  "ValidateAddress os name number =
     (if length name > 255 then throw LIMIT_EXCEEDED
      else if \<not> IsDescriptorAtom name \<and> \<not> IsSafeIpv6Literal os name then throw MALFORMED
      else if number = 0 then throw MALFORMED
      else Inr ())"

text \<open>The loops over the address lists: how many addresses there were so far, and whether one uses TLS.\<close>

fun validate_addresses :: "platform \<Rightarrow> connect_address list \<Rightarrow> nat \<times> bool \<Rightarrow> (nat \<times> bool) result" where
  "validate_addresses os [] (counted, any_tcps) = Inr (counted, any_tcps)"
| "validate_addresses os (a # as) (counted, any_tcps) =
     (if counted + 1 > MAX_CONNECT_ADDRESSES then throw LIMIT_EXCEEDED
      else andthen (ValidateAddress os (ca_host a) (ca_port a))
        (\<lambda>_. validate_addresses os as (counted + 1, any_tcps \<or> ca_protocol a = TCPS)))"

definition validate_list :: "platform \<Rightarrow> connect_address_list \<Rightarrow> nat \<times> bool \<Rightarrow> (nat \<times> bool) result" where
  "validate_list os l so_far = (if addresses l = [] then throw MALFORMED else validate_addresses os (addresses l) so_far)"

definition ValidateAddresses :: "platform \<Rightarrow> connection_config \<Rightarrow> unit result" where
  "ValidateAddresses os config =
     andthen
       (if address_lists (routing config) = [] then ValidateAddress os (host config) (port config)
        else if host config \<noteq> '''' then throw MALFORMED
        else andthen (each (validate_list os) (address_lists (routing config)) (0, False)) (\<lambda>(counted, any_tcps).
          check (any_tcps \<noteq> (protocol config = TCPS)) MALFORMED)) (\<lambda>_.
     andthen (check (retry_count (routing config) > MAX_CONNECT_RETRY_COUNT) LIMIT_EXCEEDED) (\<lambda>_.
     andthen (check (retry_delay_seconds (routing config) > MAX_CONNECT_RETRY_DELAY_SECONDS \<or>
         connect_budget_seconds (routing config) > MAX_CONNECT_BUDGET_SECONDS) LIMIT_EXCEEDED) (\<lambda>_.
     andthen (check (instance_name config \<noteq> '''' \<and> \<not> IsDescriptorAtom (instance_name config)) MALFORMED) (\<lambda>_.
     check (server_type config \<noteq> '''' \<and> upper (server_type config) \<noteq> ''DEDICATED'' \<and>
         upper (server_type config) \<noteq> ''SHARED'') UNSUPPORTED))))"

text \<open>
  The characters that \<^verbatim>\<open>find_first_of("()\0")\<close> looks for: the argument is a C string, which ends at the NUL.
\<close>

definition ValidateConnectionConfig :: "platform \<Rightarrow> connection_config \<Rightarrow> unit result" where
  "ValidateConnectionConfig os config =
     andthen (check (length (tls_server_name config) > 255 \<or> length (tls_sni_name config) > 255) LIMIT_EXCEEDED) (\<lambda>_.
     andthen (ValidateAddresses os config) (\<lambda>_.
     andthen (check ((service_name config = '''') = (sid config = '''')) MALFORMED) (\<lambda>_.
     andthen (check (\<not> IsDescriptorAtom (if service_name config = '''' then sid config else service_name config)) MALFORMED) (\<lambda>_.
     andthen (check (length (connection_id config) > 128 \<or>
         list_ex (\<lambda>c. c = CHR ''('' \<or> c = CHR '')'') (connection_id config)) MALFORMED) (\<lambda>_.
     andthen (check (connect_timeout_seconds config = 0 \<or> connect_timeout_seconds config > 3600 \<or>
         read_timeout_seconds config = 0 \<or> read_timeout_seconds config > 86400) LIMIT_EXCEEDED) (\<lambda>_.
     andthen (check (tls_server_name config \<noteq> '''' \<and> \<not> IsDescriptorAtom (tls_server_name config)) MALFORMED) (\<lambda>_.
     andthen (check (tls_sni_name config \<noteq> '''' \<and> \<not> IsDescriptorAtom (tls_sni_name config)) MALFORMED) (\<lambda>_.
     andthen (check (length (tls_ca_file config) > 4096 \<or> CHR 0x00 \<in> set (tls_ca_file config) \<or>
         length (wallet_pem_file config) > 4096 \<or> CHR 0x00 \<in> set (wallet_pem_file config) \<or>
         length (wallet_password config) > 32767 \<or> CHR 0x00 \<in> set (wallet_password config)) LIMIT_EXCEEDED) (\<lambda>_.
     check (protocol config = TCP \<and> (tls_server_name config \<noteq> '''' \<or> tls_sni_name config \<noteq> '''' \<or> tls_ca_file config \<noteq> '''' \<or>
         wallet_pem_file config \<noteq> '''' \<or> wallet_password config \<noteq> '''')) MALFORMED)))))))))"

section \<open>What a configuration means\<close>

definition EffectiveAddressLists :: "connection_config \<Rightarrow> connect_address_list list" where
  "EffectiveAddressLists config =
     (if address_lists (routing config) \<noteq> [] then address_lists (routing config)
      else [\<lparr>addresses = [\<lparr>ca_host = host config, ca_port = port config, ca_protocol = protocol config\<rparr>],
             list_failover = True, list_load_balance = False\<rparr>])"

definition EffectiveConnectBudgetSeconds :: "connection_config \<Rightarrow> u32" where
  "EffectiveConnectBudgetSeconds config =
     (if connect_budget_seconds (routing config) \<noteq> 0 then connect_budget_seconds (routing config)
      else max DEFAULT_CONNECT_BUDGET_SECONDS (connect_timeout_seconds config))"

definition protocol_name :: "transport_protocol \<Rightarrow> string" where
  "protocol_name p = (if p = TCPS then ''tcps'' else ''tcp'')"

definition address_key :: "connect_address \<Rightarrow> string" where
  "address_key a = '' '' @ protocol_name (ca_protocol a) @ ''://'' @ ca_host a @ '':'' @ decimal (unat (ca_port a))"

definition list_key :: "connect_address_list \<Rightarrow> string" where
  "list_key l = ''['' @ [if list_failover l then CHR ''F'' else CHR ''f'', if list_load_balance l then CHR ''L'' else CHR ''l''] @
     concat (map address_key (addresses l)) @ '']''"

definition ConnectionTargetKey :: "connection_config \<Rightarrow> string" where
  "ConnectionTargetKey config =
     concat (map list_key (EffectiveAddressLists config)) @
     ''/'' @ service_name config @ ''/sid='' @ sid config @ ''/'' @ instance_name config @ ''/'' @ upper (server_type config) @ ''/'' @
     [if failover (routing config) then CHR ''F'' else CHR ''f'', if load_balance (routing config) then CHR ''L'' else CHR ''l''] @
     ''/'' @ decimal (unat (retry_count (routing config))) @ ''/'' @ decimal (unat (retry_delay_seconds (routing config))) @
     ''/'' @ decimal (unat (connect_budget_seconds (routing config))) @ ''/'' @ decimal (unat (connect_timeout_seconds config))"

section \<open>Connect data\<close>

definition element :: "string \<Rightarrow> string \<Rightarrow> string" where
  "element key text_of = ''('' @ key @ ''='' @ text_of @ '')''"

definition BuildDescriptor :: "platform \<Rightarrow> connection_config \<Rightarrow> connect_address \<Rightarrow> bool \<Rightarrow> string result" where
  "BuildDescriptor os config address include_cid =
     andthen (ValidateConnectionConfig os config) (\<lambda>_.
     andthen (ValidateAddress os (ca_host address) (ca_port address)) (\<lambda>_.
     andthen (CurrentOracleClientIdentity os (client_program config)) (\<lambda>identity.
       let descriptor =
         ''(DESCRIPTION=(ADDRESS=(PROTOCOL='' @ protocol_name (ca_protocol address) @ '')(HOST='' @ ca_host address @
         '')(PORT='' @ decimal (unat (ca_port address)) @ ''))(CONNECT_DATA=('' @
         (if sid config = '''' then ''SERVICE_NAME='' @ service_name config else ''SID='' @ sid config) @ '')'' @
         (if instance_name config \<noteq> '''' then element ''INSTANCE_NAME'' (instance_name config) else '''') @
         (if server_type config \<noteq> '''' then element ''SERVER'' (upper (server_type config)) else '''') @
         (if include_cid then element ''CID'' (element ''PROGRAM'' (program identity) @ element ''HOST'' (machine identity) @
            element ''USER'' (os_user identity)) else '''') @
         (if connection_id config \<noteq> '''' then element ''CONNECTION_ID'' (connection_id config) else '''') @ ''))''
       in if length descriptor > 65535 then throw LIMIT_EXCEEDED else Inr descriptor)))"

definition BuildConnectDescriptor :: "platform \<Rightarrow> connection_config \<Rightarrow> connect_address \<Rightarrow> string result" where
  "BuildConnectDescriptor os config address = BuildDescriptor os config address True"

definition BuildAuthConnectString :: "platform \<Rightarrow> connection_config \<Rightarrow> connect_address \<Rightarrow> string result" where
  "BuildAuthConnectString os config address = BuildDescriptor os config address False"

section \<open>The order of the addresses\<close>

text \<open>The random numbers are drawn from a stream, and the rest of the stream is handed on.\<close>

type_synonym draws = "u64 list"

definition draw :: "draws \<Rightarrow> u64 \<times> draws" where
  "draw r = (case r of [] \<Rightarrow> (0, []) | n # r \<Rightarrow> (n, r))"

fun shuffle_loop :: "nat \<Rightarrow> 'a list \<times> draws \<Rightarrow> 'a list \<times> draws" where
  "shuffle_loop index (xs, r) =
     (if index \<le> 1 then (xs, r)
      else let (n, r) = draw r;
               chosen = unat n mod index
           in shuffle_loop (index - 1) (xs[index - 1 := xs ! chosen, chosen := xs ! (index - 1)], r))"

declare shuffle_loop.simps [simp del]

definition Shuffle :: "'a list \<Rightarrow> draws \<Rightarrow> 'a list \<times> draws" where
  "Shuffle xs r = shuffle_loop (length xs) (xs, r)"

definition ActiveChildren :: "'a list \<Rightarrow> bool \<Rightarrow> bool \<Rightarrow> draws \<Rightarrow> 'a list \<times> draws" where
  "ActiveChildren children fail balance r =
     (if length children \<le> 1 then (children, r)
      else if fail then (if balance then Shuffle children r else (children, r))
      else if balance then (case draw r of (n, r) \<Rightarrow> ([children ! (unat n mod length children)], r))
      else ([hd children], r))"

fun plan_lists :: "connect_address_list list \<Rightarrow> draws \<Rightarrow> connect_address list \<times> draws" where
  "plan_lists [] r = ([], r)"
| "plan_lists (l # ls) r =
     (let (active, r) = ActiveChildren (addresses l) (list_failover l) (list_load_balance l) r;
          (order, r) = plan_lists ls r
      in (active @ order, r))"

definition PlanConnectOrder :: "connection_config \<Rightarrow> draws \<Rightarrow> connect_address list \<times> draws" where
  "PlanConnectOrder config r =
     (let (lists, r) = ActiveChildren (EffectiveAddressLists config) (failover (routing config)) (load_balance (routing config)) r
      in plan_lists lists r)"

section \<open>Why a connect attempt failed\<close>

datatype connect_failure =
    UNREACHABLE | TRANSPORT_LOST | LISTENER_REFUSED | REDIRECT_FAILED | TLS_HANDSHAKE | TLS_VERIFICATION | PROTOCOL_FAULT
  | CANCELLED | BUDGET_EXHAUSTED | RESOURCE_EXHAUSTED

fun ConnectFailureAllowsFailover :: "connect_failure \<Rightarrow> bool" where
  "ConnectFailureAllowsFailover UNREACHABLE = True"
| "ConnectFailureAllowsFailover TRANSPORT_LOST = True"
| "ConnectFailureAllowsFailover LISTENER_REFUSED = True"
| "ConnectFailureAllowsFailover REDIRECT_FAILED = True"
| "ConnectFailureAllowsFailover TLS_HANDSHAKE = True"
| "ConnectFailureAllowsFailover _ = False"

text \<open>A connect error is a protocol error that also says why, with the ORA number of a refusal or 0.\<close>

datatype connect_error =
    OracleConnectError (connect_kind: error_kind) connect_failure u32
  | Plain_error protocol_error

type_synonym 'a connecting = "connect_error + 'a"

section \<open>Lemmas\<close>

lemma swap_mset: "\<lbrakk>i < length xs; j < length xs\<rbrakk> \<Longrightarrow> mset (xs[i := xs ! j, j := xs ! i]) = mset xs"
  by (rule mset_swap)

lemma mset_concat_map: "mset xs = mset ys \<Longrightarrow> mset (concat (map f xs)) = mset (concat (map f ys))"
proof -
  have "mset (concat (map f zs)) = \<Sum>\<^sub># (image_mset (\<lambda>z. mset (f z)) (mset zs))" for zs
    by (induction zs) simp_all
  then show "mset xs = mset ys \<Longrightarrow> mset (concat (map f xs)) = mset (concat (map f ys))" by simp
qed

lemma shuffle_loop_mset:
  "\<lbrakk>index \<le> length xs; shuffle_loop index (xs, r) = (ys, r')\<rbrakk> \<Longrightarrow> mset ys = mset xs"
proof (induction index "(xs, r)" arbitrary: xs r rule: shuffle_loop.induct)
  case (1 index xs r)
  show ?case
  proof (cases "index \<le> 1")
    case False
    obtain n r1 where d: "draw r = (n, r1)" by fastforce
    let ?chosen = "unat n mod index"
    let ?xs = "xs[index - 1 := xs ! ?chosen, ?chosen := xs ! (index - 1)]"
    have bounds: "index - 1 < length xs" "?chosen < length xs"
      using 1(2) False by (auto intro: less_le_trans[of _ index])
    have "shuffle_loop (index - 1) (?xs, r1) = (ys, r')"
      using 1(3) False d by (subst (asm) shuffle_loop.simps) (simp add: Let_def)
    with 1(1)[OF False d[symmetric] refl refl] 1(2) have "mset ys = mset ?xs" by simp
    with swap_mset[OF bounds] show ?thesis by simp
  qed (use 1(3) in \<open>simp add: shuffle_loop.simps\<close>)
qed

lemma Shuffle_mset: "Shuffle xs r = (ys, r') \<Longrightarrow> mset ys = mset xs"
  unfolding Shuffle_def using shuffle_loop_mset[of "length xs" xs] by simp

lemma ActiveChildren_sub: "ActiveChildren xs fail balance r = (ys, r') \<Longrightarrow> set ys \<subseteq> set xs"
proof -
  assume a: "ActiveChildren xs fail balance r = (ys, r')"
  have "set ys = set xs" if "Shuffle xs r = (ys, r')" using Shuffle_mset[OF that] by (metis set_mset_mset)
  moreover have "xs ! (unat n mod length xs) \<in> set xs" if "1 < length xs" for n :: u64
    using that by (intro nth_mem mod_less_divisor) linarith
  moreover have "hd xs \<in> set xs" if "1 < length xs" using that by (cases xs) auto
  ultimately show ?thesis using a by (auto simp: ActiveChildren_def split: if_splits prod.splits)
qed

lemma ActiveChildren_nonempty: "\<lbrakk>ActiveChildren xs fail balance r = (ys, r'); xs \<noteq> []\<rbrakk> \<Longrightarrow> ys \<noteq> []"
  using Shuffle_mset[of xs r ys r'] by (auto simp: ActiveChildren_def split: if_splits prod.splits)

lemma ActiveChildren_all: "ActiveChildren xs True balance r = (ys, r') \<Longrightarrow> mset ys = mset xs"
  using Shuffle_mset[of xs r ys r'] by (auto simp: ActiveChildren_def split: if_splits)

lemma ActiveChildren_ordered: "ActiveChildren xs True False r = (xs, r)"
  by (simp add: ActiveChildren_def)

lemma plan_lists_sub: "plan_lists ls r = (order, r') \<Longrightarrow> set order \<subseteq> (\<Union>l\<in>set ls. set (addresses l))"
  by (induction ls arbitrary: r order) (fastforce split: prod.splits dest: ActiveChildren_sub)+

lemma plan_lists_all:
  "\<lbrakk>plan_lists ls r = (order, r'); \<forall>l\<in>set ls. list_failover l\<rbrakk> \<Longrightarrow> mset order = mset (concat (map addresses ls))"
  by (induction ls arbitrary: r order) (auto split: prod.splits dest: ActiveChildren_all)

lemma plan_lists_ordered:
  "\<forall>l\<in>set ls. list_failover l \<and> \<not> list_load_balance l \<Longrightarrow> plan_lists ls r = (concat (map addresses ls), r)"
  by (induction ls arbitrary: r) (auto simp: ActiveChildren_ordered)

lemma plan_lists_nonempty:
  "\<lbrakk>plan_lists ls r = (order, r'); ls \<noteq> []; \<forall>l\<in>set ls. addresses l \<noteq> []\<rbrakk> \<Longrightarrow> order \<noteq> []"
  by (cases ls) (auto split: prod.splits dest: ActiveChildren_nonempty)

lemma validated_lists:
  "each (validate_list os) ls s = Inr t \<Longrightarrow> \<forall>l\<in>set ls. addresses l \<noteq> []"
  by (induction ls arbitrary: s) (auto simp: validate_list_def andthen_eq_Inr split: if_splits)

lemma valid_lists:
  assumes "ValidateConnectionConfig os config = Inr ()"
  shows "EffectiveAddressLists config \<noteq> []" "\<forall>l\<in>set (EffectiveAddressLists config). addresses l \<noteq> []"
  using assms by (auto simp: EffectiveAddressLists_def ValidateConnectionConfig_def ValidateAddresses_def andthen_eq_Inr
      split: if_splits dest!: validated_lists)

section \<open>Properties\<close>

text \<open>
  C37. The addresses a connect tries. Whatever random numbers are drawn, a valid configuration gives at least one,
  and none that it does not name; with failover on everywhere every configured address is tried
  exactly as often as it is written, and without load balancing in the written order.
\<close>

theorem connect_order:
  assumes "ValidateConnectionConfig os config = Inr ()" and "PlanConnectOrder config r = (order, r')"
  shows "order \<noteq> [] \<and> set order \<subseteq> set (concat (map addresses (EffectiveAddressLists config))) \<and>
    ((failover (routing config) \<and> list_all list_failover (EffectiveAddressLists config)) \<longrightarrow>
       (mset order = mset (concat (map addresses (EffectiveAddressLists config))))) \<and>
    ((failover (routing config) \<and> \<not> load_balance (routing config) \<and>
        list_all (\<lambda>l. list_failover l \<and> \<not> list_load_balance l) (EffectiveAddressLists config)) \<longrightarrow>
       (order = concat (map addresses (EffectiveAddressLists config)) \<and> r' = r))"
proof -
  let ?ls = "EffectiveAddressLists config"
  obtain lists r1 where l: "ActiveChildren ?ls (failover (routing config)) (load_balance (routing config)) r = (lists, r1)"
    by fastforce
  have p: "plan_lists lists r1 = (order, r')" using assms(2) l by (simp add: PlanConnectOrder_def)
  have sub: "set lists \<subseteq> set ?ls" by (rule ActiveChildren_sub[OF l])
  note v = valid_lists[OF assms(1)]
  have "order \<noteq> []"
    using plan_lists_nonempty[OF p] ActiveChildren_nonempty[OF l v(1)] v(2) sub by auto
  moreover have "set order \<subseteq> set (concat (map addresses ?ls))"
    using plan_lists_sub[OF p] sub by auto
  moreover have "mset order = mset (concat (map addresses ?ls))"
    if "failover (routing config)" "list_all list_failover ?ls"
  proof -
    have "mset lists = mset ?ls" using ActiveChildren_all l that(1) by metis
    then have "mset (concat (map addresses lists)) = mset (concat (map addresses ?ls))" by (rule mset_concat_map)
    moreover have "\<forall>l\<in>set lists. list_failover l" using that(2) sub by (auto simp: list_all_iff)
    ultimately show ?thesis using plan_lists_all[OF p] by simp
  qed
  moreover have "order = concat (map addresses ?ls) \<and> r' = r"
    if "failover (routing config)" "\<not> load_balance (routing config)"
      "list_all (\<lambda>l. list_failover l \<and> \<not> list_load_balance l) ?ls"
  proof -
    have "lists = ?ls" "r1 = r" using l that(1,2) by (simp_all add: ActiveChildren_ordered)
    with p plan_lists_ordered[of ?ls r] that(3) show ?thesis by (auto simp: list_all_iff)
  qed
  ultimately show ?thesis by auto
qed

definition sample_os :: platform where
  "sample_os = \<lparr>inet_pton4 = (\<lambda>_. False), inet_pton6 = (\<lambda>s. s = ''::1''), executable_path = Some ''/bin/db'',
     env_user = None, host_name = Some ''box'', process_number = 7\<rparr>"

definition two_hosts :: connection_config where
  "two_hosts = ConnectionConfig\<lparr>service_name := ''db'',
     routing := ConnectRouting\<lparr>address_lists :=
       [\<lparr>addresses = [\<lparr>ca_host = ''a'', ca_port = 1521, ca_protocol = TCP\<rparr>, \<lparr>ca_host = ''b'', ca_port = 1522, ca_protocol = TCP\<rparr>],
         list_failover = True, list_load_balance = True\<rparr>]\<rparr>\<rparr>"

lemmas config_eval = ValidateConnectionConfig_def ValidateAddresses_def ValidateAddress_def validate_list_def check_def
  IsDescriptorAtom_def descriptor_char_def isalnum_def isalpha_def isupper_def islower_def isdigit_def
  ConnectionConfig_def ConnectRouting_def MAX_CONNECT_ADDRESSES_def MAX_CONNECT_RETRY_COUNT_def
  MAX_CONNECT_RETRY_DELAY_SECONDS_def MAX_CONNECT_BUDGET_SECONDS_def

lemma connect_order_witness:
  "\<exists>order r'. PlanConnectOrder two_hosts [5, 2] = (order, r') \<and> mset (map ca_host order) = {# ''b'', ''a'' #}"
proof -
  obtain order r' where p: "PlanConnectOrder two_hosts [5, 2] = (order, r')" by fastforce
  have "ValidateConnectionConfig sample_os two_hosts = Inr ()"
    by (simp add: two_hosts_def config_eval)
  from connect_order[OF this p]
  have "mset order = mset (concat (map addresses (EffectiveAddressLists two_hosts)))"
    by (simp add: EffectiveAddressLists_def two_hosts_def ConnectRouting_def)
  then have "mset (map ca_host order) = {# ''b'', ''a'' #}"
    by (simp add: EffectiveAddressLists_def two_hosts_def)
  with p show ?thesis by blast
qed

end
