(* ===== verification/Descriptor_Parser.thy ===== *)
theory Descriptor_Parser
  imports Connect_Config
begin

text \<open>
  \<^verbatim>\<open>src/descriptor_parser.cpp\<close>: Oracle Net descriptors. The parser's position is the rest of the input that it
  has not read. Its two entries are a descriptor the user wrote and the text a listener sends in a redirect.
\<close>

section \<open>The parser\<close>

datatype node = Node (key: string) (content: string) (children: "node list")

datatype value_grammar = USER_WRITTEN | LISTENER_SUPPLIED

definition SkipWhitespace :: "string \<Rightarrow> string" where
  "SkipWhitespace = dropWhile isspace"

definition printable :: "char \<Rightarrow> bool" where
  "printable c \<longleftrightarrow> 0x20 \<le> code_of c \<and> code_of c \<le> 0x7e"

definition ParseQuotedAtom :: "string \<Rightarrow> (string \<times> string) result" where
  "ParseQuotedAtom s =
     (let quoted = takeWhile (\<lambda>c. c \<noteq> CHR 0x22) (tl s);
          rest = dropWhile (\<lambda>c. c \<noteq> CHR 0x22) (tl s)
      in if \<not> list_all printable quoted then throw MALFORMED
         else if rest = [] then throw MALFORMED
         else if quoted = '''' \<or> length quoted > 1024 then throw MALFORMED
         else Inr (quoted, tl rest))"

fun atom_loop :: "char \<Rightarrow> string \<Rightarrow> string \<Rightarrow> (string \<times> string) result" where
  "atom_loop terminator atom [] = throw MALFORMED"
| "atom_loop terminator atom (c # cs) =
     (if c = terminator then (if atom = '''' then throw MALFORMED else Inr (atom, c # cs))
      else if isspace c then
        (let rest = SkipWhitespace (c # cs)
         in if atom = '''' \<or> rest = [] \<or> hd rest \<noteq> terminator then throw MALFORMED else Inr (atom, rest))
      else if code_of c \<le> 0x20 \<or> code_of c > 0x7e \<or> c = CHR ''('' \<or> c = CHR ''='' then throw MALFORMED
      else atom_loop terminator (atom @ [c]) cs)"

definition trim :: "string \<Rightarrow> string" where
  "trim s = rev (dropWhile isspace (rev (dropWhile isspace s)))"

definition ParseListenerValue :: "string \<Rightarrow> (string \<times> string) result" where
  "ParseListenerValue s =
     (let raw = takeWhile (\<lambda>c. c \<noteq> CHR '')'') s;
          rest = dropWhile (\<lambda>c. c \<noteq> CHR '')'') s
      in if list_ex (\<lambda>c. c = CHR ''('' \<or> (code_of c < 0x20 \<and> \<not> isspace c) \<or> code_of c > 0x7e) raw then throw MALFORMED
         else if rest = [] then throw MALFORMED
         else if trim raw = '''' then throw MALFORMED
         else Inr (trim raw, rest))"

definition ParseAtom :: "value_grammar \<Rightarrow> char \<Rightarrow> string \<Rightarrow> (string \<times> string) result" where
  "ParseAtom grammar terminator s =
     (if terminator = CHR '')'' \<and> s \<noteq> [] \<and> hd s = CHR 0x22 then
        andthen (ParseQuotedAtom s) (\<lambda>(quoted, rest).
          let rest = SkipWhitespace rest
          in if rest = [] \<or> hd rest \<noteq> CHR '')'' then throw MALFORMED else Inr (quoted, rest))
      else if terminator = CHR '')'' \<and> grammar = LISTENER_SUPPLIED then ParseListenerValue s
      else atom_loop terminator '''' s)"

definition starts :: "char \<Rightarrow> string \<Rightarrow> bool" where
  "starts c s \<longleftrightarrow> s \<noteq> [] \<and> hd s = c"

function (sequential) ParseNode :: "value_grammar \<Rightarrow> nat \<Rightarrow> string \<Rightarrow> (node \<times> string) result"
  and parse_children :: "value_grammar \<Rightarrow> nat \<Rightarrow> string \<Rightarrow> (node list \<times> string) result"
where
  "ParseNode grammar depth s =
     (if depth > 16 \<or> \<not> starts (CHR ''('') s then throw MALFORMED
      else case ParseAtom grammar (CHR ''='') (SkipWhitespace (tl s)) of
          Inl e \<Rightarrow> Inl e
        | Inr (name, s1) \<Rightarrow>
            if \<not> starts (CHR ''='') (SkipWhitespace s1) then throw MALFORMED
            else
              let s2 = SkipWhitespace (tl (SkipWhitespace s1))
              in case (if starts (CHR ''('') s2
                       then map_sum id (map_prod (Node (upper name) '''') id) (parse_children grammar depth s2)
                       else map_sum id (map_prod (\<lambda>v. Node (upper name) v []) id) (ParseAtom grammar (CHR '')'') s2)) of
                   Inl e \<Rightarrow> Inl e
                 | Inr (node, s3) \<Rightarrow>
                     if \<not> starts (CHR '')'') (SkipWhitespace s3) then throw MALFORMED
                     else Inr (node, tl (SkipWhitespace s3)))"
| "parse_children grammar depth s =
     (if \<not> starts (CHR ''('') s then Inr ([], s)
      else case ParseNode grammar (depth + 1) s of
          Inl e \<Rightarrow> Inl e
        | Inr (node, s1) \<Rightarrow> map_sum id (map_prod ((#) node) id) (parse_children grammar depth (SkipWhitespace s1)))"
  by pat_completeness auto

lemma skip_length: "length (SkipWhitespace s) \<le> length s"
  by (simp add: SkipWhitespace_def length_dropWhile_le)

lemma atom_loop_length: "atom_loop t a s = Inr (v, rest) \<Longrightarrow> length rest \<le> length s"
proof (induction t a s rule: atom_loop.induct)
  case (2 t a c cs)
  then show ?case using skip_length[of "c # cs"] by (auto simp: Let_def split: if_splits)
qed simp

lemma dropWhile_shorter: "length (tl (dropWhile P s)) \<le> length s"
  using length_dropWhile_le[of P s] by simp

lemma ParseAtom_length: "ParseAtom g t s = Inr (v, rest) \<Longrightarrow> length rest \<le> length s"
proof -
  assume a: "ParseAtom g t s = Inr (v, rest)"
  have q: "length rest' \<le> length s" if "ParseQuotedAtom s = Inr (v, rest')" for v rest'
    using that dropWhile_shorter[of "\<lambda>c. c \<noteq> CHR 0x22" "tl s"]
    by (auto simp: ParseQuotedAtom_def Let_def split: if_splits)
  show ?thesis
    using a by (auto simp: ParseAtom_def Let_def ParseListenerValue_def andthen_eq_Inr length_dropWhile_le split: if_splits
        dest!: q intro: order_trans[OF skip_length] atom_loop_length)
qed


lemma mapped_Inr: "map_sum id (map_prod f id) x = Inr (n, b) \<longleftrightarrow> (\<exists>v. x = Inr (v, b) \<and> n = f v)"
  by (cases x) auto

lemma tl_shorter: "starts c s \<Longrightarrow> length (tl s) < length s"
  by (cases s) (simp_all add: starts_def)

lemma shorter:
  "ParseNode_parse_children_dom (Inl (g, d, s)) \<Longrightarrow> \<forall>n rest. ParseNode g d s = Inr (n, rest) \<longrightarrow> length rest < length s"
  "ParseNode_parse_children_dom (Inr (g, d, s)) \<Longrightarrow> \<forall>ns rest. parse_children g d s = Inr (ns, rest) \<longrightarrow> length rest \<le> length s"
proof (induction rule: ParseNode_parse_children.pinduct)
  case (1 g d s)
  show ?case
  proof (intro allI impI)
    fix n rest assume a: "ParseNode g d s = Inr (n, rest)"
    then have s: "\<not> d > 16" "starts (CHR ''('') s"
      by (auto simp: ParseNode.psimps[OF 1(1)] split: if_splits)
    then obtain name s1 where n: "ParseAtom g (CHR ''='') (SkipWhitespace (tl s)) = Inr (name, s1)"
      using a by (auto simp: ParseNode.psimps[OF 1(1)] split: sum.splits)
    let ?s2 = "SkipWhitespace (tl (SkipWhitespace s1))"
    have e: "starts (CHR ''='') (SkipWhitespace s1)"
      using a s n by (auto simp: ParseNode.psimps[OF 1(1)] split: if_splits)
    have "length s1 < length s"
      using ParseAtom_length[OF n] skip_length[of "tl s"] tl_shorter[OF s(2)] by linarith
    then have l2: "length ?s2 < length s"
      using skip_length[of "tl (SkipWhitespace s1)"] tl_shorter[OF e] skip_length[of s1] by linarith
    obtain s3 where s3: "rest = tl (SkipWhitespace s3)" "length s3 \<le> length ?s2"
      using a s n e 1(2)[OF _ n refl _ refl] ParseAtom_length[of g "CHR '')''" ?s2]
      by (auto simp: ParseNode.psimps[OF 1(1)] Let_def mapped_Inr split: if_splits sum.splits)
    then show "length rest < length s" using l2 skip_length[of s3] by auto
  qed
next
  case (2 g d s)
  show ?case
  proof (intro allI impI)
    fix ns rest assume a: "parse_children g d s = Inr (ns, rest)"
    show "length rest \<le> length s"
    proof (cases "starts (CHR ''('') s")
      case True
      then obtain n s1 where n: "ParseNode g (d + 1) s = Inr (n, s1)"
        using a by (auto simp: parse_children.psimps[OF 2(1)] split: sum.splits)
      then obtain ms where "parse_children g d (SkipWhitespace s1) = Inr (ms, rest)"
        using a True by (auto simp: parse_children.psimps[OF 2(1)] map_sum_def split: sum.splits)
      then show ?thesis
        using 2(2) 2(3) True n skip_length[of s1] by fastforce
    qed (use a in \<open>auto simp: parse_children.psimps[OF 2(1)]\<close>)
  qed
qed

termination ParseNode
proof (relation "measure (\<lambda>x. case x of Inl (g, d, s) \<Rightarrow> 2 * length s | Inr (g, d, s) \<Rightarrow> 2 * length s + 1)")
  fix g :: value_grammar and d :: nat and s x name s1 s2
  assume a: "\<not> (16 < d \<or> \<not> starts (CHR ''('') s)" "ParseAtom g (CHR ''='') (SkipWhitespace (tl s)) = Inr x" "(name, s1) = x"
    "\<not> \<not> starts (CHR ''='') (SkipWhitespace s1)" "s2 = SkipWhitespace (tl (SkipWhitespace s1))"
  have "length s1 < length s"
    using ParseAtom_length[of g _ _ name s1] a(2,3) skip_length[of "tl s"] tl_shorter[of _ s] a(1) by fastforce
  moreover have "length s2 < length s1"
    using a(5) skip_length[of "tl (SkipWhitespace s1)"] tl_shorter[OF a(4)[unfolded not_not]] skip_length[of s1] by simp
  ultimately show "(Inr (g, d, s2), Inl (g, d, s)) \<in> measure (\<lambda>x. case x of Inl (g, d, s) \<Rightarrow> 2 * length s | Inr (g, d, s) \<Rightarrow> 2 * length s + 1)"
    by simp
next
  fix g :: value_grammar and d :: nat and s x n s1
  assume a: "ParseNode_parse_children_dom (Inl (g, d + 1, s))" "ParseNode g (d + 1) s = Inr x" "(n, s1) = x"
  then have "length s1 < length s" using shorter(1) by blast
  then show "(Inr (g, d, SkipWhitespace s1), Inr (g, d, s)) \<in> measure (\<lambda>x. case x of Inl (g, d, s) \<Rightarrow> 2 * length s | Inr (g, d, s) \<Rightarrow> 2 * length s + 1)"
    using skip_length[of s1] by simp
qed simp_all

declare ParseNode.simps [simp del] parse_children.simps [simp del]

definition Parse :: "value_grammar \<Rightarrow> string \<Rightarrow> node result" where
  "Parse grammar input =
     (if input = [] \<or> length input > 65535 then throw MALFORMED
      else andthen (ParseNode grammar 0 (SkipWhitespace input)) (\<lambda>(root, rest).
        if SkipWhitespace rest \<noteq> [] then throw MALFORMED else Inr root))"

section \<open>Fields of a descriptor\<close>

definition named :: "string \<Rightarrow> node \<Rightarrow> node list" where
  "named k n = filter (\<lambda>c. key c = k) (children n)"

definition RequiredChild :: "node \<Rightarrow> string \<Rightarrow> string result" where
  "RequiredChild n k =
     (case named k n of
        [c] \<Rightarrow> if children c \<noteq> [] \<or> content c = '''' then throw MALFORMED else Inr (content c)
      | _ \<Rightarrow> throw MALFORMED)"

definition RequiredContainer :: "node \<Rightarrow> string \<Rightarrow> node result" where
  "RequiredContainer n k =
     (case named k n of [c] \<Rightarrow> if content c \<noteq> '''' then throw MALFORMED else Inr c | _ \<Rightarrow> throw MALFORMED)"

definition OptionalScalar :: "node \<Rightarrow> string \<Rightarrow> node option result" where
  "OptionalScalar n k =
     (case named k n of
        [] \<Rightarrow> Inr None
      | [c] \<Rightarrow> if children c \<noteq> [] \<or> content c = '''' then throw MALFORMED else Inr (Some c)
      | _ \<Rightarrow> throw MALFORMED)"

fun port_loop :: "nat \<Rightarrow> string \<Rightarrow> u16 result" where
  "port_loop n [] = (if n = 0 then throw MALFORMED else Inr (of_nat n))"
| "port_loop n (c # cs) =
     (if \<not> isdigit c then throw MALFORMED
      else let n = n * 10 + digit_value c in if n > 65535 then throw MALFORMED else port_loop n cs)"

definition ParsePort :: "string \<Rightarrow> u16 result" where
  "ParsePort = port_loop 0"

definition ParseSwitch :: "node \<Rightarrow> bool result" where
  "ParseSwitch n =
     (let v = upper (content n)
      in if v = ''ON'' \<or> v = ''YES'' \<or> v = ''TRUE'' then Inr True
         else if v = ''OFF'' \<or> v = ''NO'' \<or> v = ''FALSE'' then Inr False
         else throw MALFORMED)"

fun seconds_loop :: "nat \<Rightarrow> nat \<Rightarrow> string \<Rightarrow> nat result" where
  "seconds_loop maximum n [] = Inr n"
| "seconds_loop maximum n (c # cs) =
     (if \<not> isdigit c then throw MALFORMED
      else let n = n * 10 + digit_value c in if n > maximum then throw LIMIT_EXCEEDED else seconds_loop maximum n cs)"

definition ParseSeconds :: "node \<Rightarrow> u32 \<Rightarrow> u32 result" where
  "ParseSeconds n maximum =
     (let v = content n;
          large = upper v
      in if length large > 2 \<and> drop (length large - 2) large = ''MS'' then throw UNSUPPORTED
         else map_sum id of_nat (seconds_loop (unat maximum) 0 v))"

definition ParseProtocolName :: "string \<Rightarrow> transport_protocol result" where
  "ParseProtocolName v =
     (if upper v = ''TCPS'' then Inr TCPS else if upper v = ''TCP'' then Inr TCP else throw UNSUPPORTED)"

definition IsIgnoredDescriptionKey :: "string \<Rightarrow> bool" where
  "IsIgnoredDescriptionKey k \<longleftrightarrow> k \<in> {''ENABLE'', ''EXPIRE_TIME'', ''SDU'', ''TDU'', ''RECV_BUF_SIZE'', ''SEND_BUF_SIZE'',
     ''TYPE_OF_SERVICE'', ''USE_SNI''}"

definition RefuseSourceRoute :: "node \<Rightarrow> unit result" where
  "RefuseSourceRoute n =
     andthen (OptionalScalar n ''SOURCE_ROUTE'') (\<lambda>route.
       case route of
         None \<Rightarrow> Inr ()
       | Some r \<Rightarrow> andthen (ParseSwitch r) (\<lambda>b. if b then throw UNSUPPORTED else Inr ()))"

text \<open>A scalar that is read when it is there.\<close>

definition optionally :: "node \<Rightarrow> string \<Rightarrow> (node \<Rightarrow> 'a result) \<Rightarrow> 'a \<Rightarrow> 'a result" where
  "optionally n k read absent = andthen (OptionalScalar n k) (\<lambda>c. case c of None \<Rightarrow> Inr absent | Some c \<Rightarrow> read c)"

definition ParseAddress :: "node \<Rightarrow> connect_address result" where
  "ParseAddress n =
     (if list_all (\<lambda>c. key c \<in> {''PROTOCOL'', ''HOST'', ''PORT'', ''SEND_BUF_SIZE'', ''RECV_BUF_SIZE''}) (children n)
      then andthen (optionally n ''PROTOCOL'' (\<lambda>c. ParseProtocolName (content c)) TCP) (\<lambda>p.
           andthen (RequiredChild n ''HOST'') (\<lambda>h.
           andthen (optionally n ''PORT'' (\<lambda>c. ParsePort (content c)) 1521) (\<lambda>number.
           Inr \<lparr>ca_host = h, ca_port = number, ca_protocol = p\<rparr>)))
      else throw UNSUPPORTED)"

definition list_child :: "node \<Rightarrow> connect_address list \<Rightarrow> connect_address list result" where
  "list_child c as =
     (if key c = ''ADDRESS'' then andthen (ParseAddress c) (\<lambda>a. Inr (as @ [a]))
      else if key c \<in> {''FAILOVER'', ''LOAD_BALANCE'', ''SOURCE_ROUTE'', ''ENABLE''} then Inr as
      else throw UNSUPPORTED)"

definition ParseAddressList :: "node \<Rightarrow> connect_address_list result" where
  "ParseAddressList n =
     andthen (each list_child (children n) []) (\<lambda>as.
       if as = [] then throw MALFORMED
       else andthen (RefuseSourceRoute n) (\<lambda>_.
            andthen (optionally n ''FAILOVER'' ParseSwitch True) (\<lambda>f.
            andthen (optionally n ''LOAD_BALANCE'' ParseSwitch False) (\<lambda>b.
            Inr \<lparr>addresses = as, list_failover = f, list_load_balance = b\<rparr>))))"

section \<open>Descriptors of the user\<close>

record parsed_descriptor =
  endpoints :: "connect_address list"
  pd_lists :: "connect_address_list list"
  pd_failover :: bool
  pd_load_balance :: bool
  pd_retry_count :: "u32 option"
  pd_retry_delay :: "u32 option"
  pd_connect_timeout :: "u32 option"
  pd_transport_timeout :: "u32 option"
  pd_service_name :: string
  pd_sid :: string
  pd_instance_name :: string
  pd_server_type :: string
  server_cert_dn :: string
  server_dn_match :: bool

definition ParsedConnectDescriptor :: parsed_descriptor where
  "ParsedConnectDescriptor = \<lparr>endpoints = [], pd_lists = [], pd_failover = True, pd_load_balance = False,
     pd_retry_count = None, pd_retry_delay = None, pd_connect_timeout = None, pd_transport_timeout = None,
     pd_service_name = '''', pd_sid = '''', pd_instance_name = '''', pd_server_type = '''', server_cert_dn = '''', server_dn_match = True\<rparr>"

definition parse_server :: "node \<Rightarrow> string result" where
  "parse_server c =
     (let v = upper (content c) in if v \<noteq> ''DEDICATED'' \<and> v \<noteq> ''SHARED'' then throw UNSUPPORTED else Inr v)"

definition ParseConnectData :: "node \<Rightarrow> parsed_descriptor \<Rightarrow> parsed_descriptor result" where
  "ParseConnectData n d =
     (if \<not> list_all (\<lambda>c. key c \<in> {''SERVICE_NAME'', ''INSTANCE_NAME'', ''SERVER'', ''SID''}) (children n) then throw UNSUPPORTED
      else andthen (OptionalScalar n ''SERVICE_NAME'') (\<lambda>service.
           andthen (OptionalScalar n ''SID'') (\<lambda>sid_node.
           if service \<noteq> None \<and> sid_node \<noteq> None then throw MALFORMED
           else andthen (case sid_node of
                Some c \<Rightarrow> Inr (d\<lparr>pd_sid := content c\<rparr>)
              | None \<Rightarrow> andthen (RequiredChild n ''SERVICE_NAME'') (\<lambda>v. Inr (d\<lparr>pd_service_name := v\<rparr>))) (\<lambda>d.
           andthen (optionally n ''INSTANCE_NAME'' (\<lambda>c. Inr (content c)) (pd_instance_name d)) (\<lambda>i.
           andthen (optionally n ''SERVER'' parse_server (pd_server_type d)) (\<lambda>v.
           Inr (d\<lparr>pd_instance_name := i, pd_server_type := v\<rparr>)))))))"

definition CheckRoot :: "node \<Rightarrow> unit result" where
  "CheckRoot root = (if key root \<noteq> ''DESCRIPTION'' \<or> content root \<noteq> '''' then throw MALFORMED else Inr ())"

text \<open>The address lists so far, and which of them the addresses directly under the description go to.\<close>

definition description_child ::
  "node \<Rightarrow> connect_address_list list \<times> nat option \<Rightarrow> (connect_address_list list \<times> nat option) result" where
  "description_child c = (\<lambda>(lists, implicit).
     if key c = ''ADDRESS'' then
       let (lists, i) = (case implicit of
             Some i \<Rightarrow> (lists, i)
           | None \<Rightarrow> (lists @ [\<lparr>addresses = [], list_failover = True, list_load_balance = False\<rparr>], length lists))
       in andthen (ParseAddress c) (\<lambda>a.
            Inr (lists[i := (lists ! i)\<lparr>addresses := addresses (lists ! i) @ [a]\<rparr>], Some i))
     else if key c = ''ADDRESS_LIST'' then andthen (ParseAddressList c) (\<lambda>l. Inr (lists @ [l], implicit))
     else if key c \<in> {''CONNECT_DATA'', ''SECURITY'', ''FAILOVER'', ''LOAD_BALANCE'', ''RETRY_COUNT'', ''RETRY_DELAY'',
         ''CONNECT_TIMEOUT'', ''TRANSPORT_CONNECT_TIMEOUT'', ''SOURCE_ROUTE''} \<or> IsIgnoredDescriptionKey (key c)
     then Inr (lists, implicit)
     else throw UNSUPPORTED)"

definition positive :: "u32 option \<Rightarrow> u32 option result" where
  "positive t = (if t = Some 0 then throw MALFORMED else Inr t)"

definition seconds_of :: "node \<Rightarrow> string \<Rightarrow> u32 \<Rightarrow> u32 option result" where
  "seconds_of n k maximum = optionally n k (\<lambda>c. map_sum id Some (ParseSeconds c maximum)) None"

definition security_setting :: "node \<Rightarrow> parsed_descriptor \<Rightarrow> parsed_descriptor result" where
  "security_setting c d =
     (if key c = ''SSL_SERVER_CERT_DN'' then
        if server_cert_dn d \<noteq> '''' then throw MALFORMED else Inr (d\<lparr>server_cert_dn := content c\<rparr>)
      else if key c = ''SSL_SERVER_DN_MATCH'' then
        Inr (d\<lparr>server_dn_match := upper (content c) \<noteq> ''NO'' \<and> upper (content c) \<noteq> ''FALSE''\<rparr>)
      else Inr d)"

definition validate_endpoint :: "platform \<Rightarrow> parsed_descriptor \<Rightarrow> connect_address \<Rightarrow> unit \<Rightarrow> unit result" where
  "validate_endpoint os d a _ =
     ValidateConnectionConfig os (ConnectionConfig\<lparr>host := ca_host a, port := ca_port a, service_name := pd_service_name d,
       sid := pd_sid d, instance_name := pd_instance_name d, protocol := ca_protocol a\<rparr>)"

definition ParseDescription :: "platform \<Rightarrow> node \<Rightarrow> parsed_descriptor result" where
  "ParseDescription os root =
     andthen (each description_child (children root) ([], None)) (\<lambda>(lists, implicit).
     let number = sum_list (map (\<lambda>l. length (addresses l)) lists)
     in if number = 0 \<or> number > MAX_CONNECT_ADDRESSES then throw MALFORMED
     else andthen (RefuseSourceRoute root) (\<lambda>_.
     andthen (optionally root ''FAILOVER'' ParseSwitch True) (\<lambda>f.
     andthen (optionally root ''LOAD_BALANCE'' ParseSwitch False) (\<lambda>b.
     let lists = (case implicit of None \<Rightarrow> lists | Some i \<Rightarrow> lists[i := (lists ! i)\<lparr>list_failover := f, list_load_balance := b\<rparr>])
     in andthen (seconds_of root ''RETRY_COUNT'' MAX_CONNECT_RETRY_COUNT) (\<lambda>retries.
     andthen (seconds_of root ''RETRY_DELAY'' MAX_CONNECT_RETRY_DELAY_SECONDS) (\<lambda>delay.
     andthen (andthen (seconds_of root ''CONNECT_TIMEOUT'' MAX_CONNECT_BUDGET_SECONDS) positive) (\<lambda>timeout.
     andthen (andthen (seconds_of root ''TRANSPORT_CONNECT_TIMEOUT'' 3600) positive) (\<lambda>transport.
     andthen (RequiredContainer root ''CONNECT_DATA'') (\<lambda>data.
     andthen (ParseConnectData data (ParsedConnectDescriptor\<lparr>endpoints := concat (map addresses lists), pd_lists := lists,
         pd_failover := f, pd_load_balance := b, pd_retry_count := retries, pd_retry_delay := delay,
         pd_connect_timeout := timeout, pd_transport_timeout := transport\<rparr>)) (\<lambda>d.
     andthen (each (\<lambda>c. each security_setting (children c)) (named ''SECURITY'' root) d) (\<lambda>d.
     andthen (each (validate_endpoint os d) (endpoints d) ()) (\<lambda>_. Inr d))))))))))))"

text \<open>The descriptions of a list are merged, as long as they name one database.\<close>

definition same_database :: "parsed_descriptor \<Rightarrow> parsed_descriptor \<Rightarrow> bool" where
  "same_database d e \<longleftrightarrow> pd_service_name d = pd_service_name e \<and> pd_sid d = pd_sid e \<and> pd_instance_name d = pd_instance_name e \<and>
     pd_server_type d = pd_server_type e \<and> server_cert_dn d = server_cert_dn e"

definition first_of :: "'a option \<Rightarrow> 'a option \<Rightarrow> 'a option" where
  "first_of a b = (if a = None then b else a)"

definition merge_descriptions :: "parsed_descriptor \<Rightarrow> parsed_descriptor \<Rightarrow> parsed_descriptor" where
  "merge_descriptions d e = d\<lparr>endpoints := endpoints d @ endpoints e, pd_lists := pd_lists d @ pd_lists e,
     pd_retry_count := first_of (pd_retry_count d) (pd_retry_count e),
     pd_retry_delay := first_of (pd_retry_delay d) (pd_retry_delay e),
     pd_connect_timeout := first_of (pd_connect_timeout d) (pd_connect_timeout e),
     pd_transport_timeout := first_of (pd_transport_timeout d) (pd_transport_timeout e)\<rparr>"

definition merge_child ::
  "platform \<Rightarrow> node \<Rightarrow> bool \<times> bool \<times> parsed_descriptor option \<Rightarrow> (bool \<times> bool \<times> parsed_descriptor option) result" where
  "merge_child os c = (\<lambda>(f, b, merged).
     if key c = ''FAILOVER'' then andthen (ParseSwitch c) (\<lambda>f. Inr (f, b, merged))
     else if key c = ''LOAD_BALANCE'' then andthen (ParseSwitch c) (\<lambda>b. Inr (f, b, merged))
     else if key c \<noteq> ''DESCRIPTION'' \<or> content c \<noteq> '''' then throw UNSUPPORTED
     else andthen (ParseDescription os c) (\<lambda>part.
       case merged of
         None \<Rightarrow> Inr (f, b, Some part)
       | Some m \<Rightarrow> if \<not> same_database part m then throw UNSUPPORTED else Inr (f, b, Some (merge_descriptions m part))))"

definition ParseConnectDescriptor :: "platform \<Rightarrow> string \<Rightarrow> parsed_descriptor result" where
  "ParseConnectDescriptor os descriptor =
     andthen (Parse USER_WRITTEN descriptor) (\<lambda>root.
       if key root \<noteq> ''DESCRIPTION_LIST'' then andthen (CheckRoot root) (\<lambda>_. ParseDescription os root)
       else if children root = [] \<or> length (children root) > MAX_CONNECT_ADDRESSES then throw MALFORMED
       else andthen (each (merge_child os) (children root) (True, False, None)) (\<lambda>(f, b, merged).
         case merged of
           None \<Rightarrow> throw MALFORMED
         | Some d \<Rightarrow> if length (endpoints d) > MAX_CONNECT_ADDRESSES then throw MALFORMED
                     else Inr (d\<lparr>pd_failover := f, pd_load_balance := b\<rparr>)))"

section \<open>Text of a listener\<close>

record redirect_address =
  ra_address :: connect_address
  protocol_given :: bool

definition redirect_nodes :: "node \<Rightarrow> node list result" where
  "redirect_nodes root =
     (if key root = ''ADDRESS'' then Inr [root]
      else if key root = ''ADDRESS_LIST'' \<or> key root = ''DESCRIPTION'' then
        Inr (concat (map (\<lambda>c.
          if key c = ''ADDRESS'' then [c]
          else if key c = ''ADDRESS_LIST'' \<and> key root = ''DESCRIPTION'' then named ''ADDRESS'' c
          else []) (children root)))
      else if key root = ''DESCRIPTION_LIST'' then throw UNSUPPORTED
      else throw MALFORMED)"

definition redirect_address_of :: "platform \<Rightarrow> node \<Rightarrow> redirect_address result" where
  "redirect_address_of os n =
     andthen (OptionalScalar n ''PROTOCOL'') (\<lambda>p.
     andthen (case p of None \<Rightarrow> Inr TCP | Some c \<Rightarrow> ParseProtocolName (content c)) (\<lambda>named_protocol.
     andthen (RequiredChild n ''HOST'') (\<lambda>h.
     andthen (andthen (RequiredChild n ''PORT'') ParsePort) (\<lambda>number.
     andthen (ValidateConnectionConfig os (ConnectionConfig\<lparr>host := h, port := number, service_name := ''redirect''\<rparr>)) (\<lambda>_.
     Inr \<lparr>ra_address = \<lparr>ca_host = h, ca_port = number, ca_protocol = named_protocol\<rparr>, protocol_given = (p \<noteq> None)\<rparr>)))))"

definition ParseRedirectAddresses :: "platform \<Rightarrow> string \<Rightarrow> redirect_address list result" where
  "ParseRedirectAddresses os input =
     andthen (andthen (Parse LISTENER_SUPPLIED input) redirect_nodes) (\<lambda>nodes.
       if nodes = [] \<or> length nodes > MAX_CONNECT_ADDRESSES then throw MALFORMED
       else collect (redirect_address_of os) nodes)"

definition MAX_RECONNECT_DATA_BYTES :: nat where
  "MAX_RECONNECT_DATA_BYTES = 16384"

definition ValidateRedirectReconnectData :: "string \<Rightarrow> unit result" where
  "ValidateRedirectReconnectData input =
     (if length input > MAX_RECONNECT_DATA_BYTES then throw LIMIT_EXCEEDED
      else andthen (Parse LISTENER_SUPPLIED input) (\<lambda>root.
        if key root \<noteq> ''DESCRIPTION'' \<or> content root \<noteq> '''' then throw MALFORMED
        else andthen (RequiredContainer root ''CONNECT_DATA'') (\<lambda>_. Inr ())))"

section \<open>Reading back what is written\<close>

definition plain_char :: "char \<Rightarrow> bool" where
  "plain_char c \<longleftrightarrow> 0x20 < code_of c \<and> code_of c \<le> 0x7e \<and> c \<notin> {CHR ''('', CHR '')'', CHR ''=''}"

definition plain :: "string \<Rightarrow> bool" where
  "plain s \<longleftrightarrow> s \<noteq> '''' \<and> list_all plain_char s \<and> hd s \<noteq> CHR 0x22"

definition quotable :: "string \<Rightarrow> bool" where
  "quotable s \<longleftrightarrow> s \<noteq> '''' \<and> length s \<le> 1024 \<and> list_all printable s \<and> CHR 0x22 \<notin> set s"

text \<open>What stays itself as an unquoted value, if it has no parenthesis in it: no quote in front and no blank at either end.\<close>

definition clean :: "string \<Rightarrow> bool" where
  "clean s \<longleftrightarrow> s \<noteq> '''' \<and> list_all printable s \<and> hd s \<notin> {CHR '' '', CHR 0x22} \<and> last s \<noteq> CHR '' ''"

definition unescaped :: "string \<Rightarrow> bool" where
  "unescaped s \<longleftrightarrow> clean s \<and> CHR ''('' \<notin> set s \<and> CHR '')'' \<notin> set s"

text \<open>The texts of a value and of a node, as each of the two grammars reads them.\<close>

inductive writes_value :: "value_grammar \<Rightarrow> string \<Rightarrow> string \<Rightarrow> bool" for g where
  writes_plain: "plain v \<Longrightarrow> writes_value g v v"
| writes_quoted: "quotable v \<Longrightarrow> writes_value g v (CHR 0x22 # v @ [CHR 0x22])"
| writes_free: "\<lbrakk>g = LISTENER_SUPPLIED; unescaped v\<rbrakk> \<Longrightarrow> writes_value g v v"

inductive writes :: "value_grammar \<Rightarrow> nat \<Rightarrow> node \<Rightarrow> string \<Rightarrow> bool" for g where
  writes_leaf: "\<lbrakk>d \<le> 16; plain k; writes_value g v raw\<rbrakk> \<Longrightarrow> writes g d (Node (upper k) v []) (element k raw)"
| writes_branch: "\<lbrakk>d \<le> 16; plain k; cs \<noteq> []; list_all2 (writes g (Suc d)) cs ss\<rbrakk> \<Longrightarrow>
    writes g d (Node (upper k) '''' cs) (element k (concat ss))"
  monos list.rel_mono

lemma plain_char_space: "plain_char c \<Longrightarrow> \<not> isspace c"
  by (auto simp: plain_char_def isspace_def)

lemma skip_none: "s \<noteq> [] \<Longrightarrow> \<not> isspace (hd s) \<Longrightarrow> SkipWhitespace s = s"
  by (cases s) (simp_all add: SkipWhitespace_def)

lemma skip_marks [simp]:
  "SkipWhitespace (CHR ''('' # s) = CHR ''('' # s" "SkipWhitespace (CHR '')'' # s) = CHR '')'' # s"
  "SkipWhitespace (CHR ''='' # s) = CHR ''='' # s" "SkipWhitespace (CHR 0x22 # s) = CHR 0x22 # s" "SkipWhitespace [] = []"
  by (simp_all add: SkipWhitespace_def isspace_def)

lemma skip_plain [simp]: "plain s \<Longrightarrow> SkipWhitespace (s @ t) = s @ t"
  by (cases s) (auto simp: plain_def intro!: skip_none plain_char_space)

lemma atom_loop_plain:
  assumes "list_all plain_char v" "a @ v \<noteq> []" "t = CHR '')'' \<or> t = CHR ''=''"
  shows "atom_loop t a (v @ t # rest) = Inr (a @ v, t # rest)"
  using assms
proof (induction v arbitrary: a)
  case (Cons c v)
  then have "c \<noteq> t" "\<not> isspace c" "\<not> (code_of c \<le> 0x20 \<or> code_of c > 0x7e \<or> c = CHR ''('' \<or> c = CHR ''='')"
    by (auto simp: plain_char_def plain_char_space)
  with Cons show ?case by simp
qed auto

lemma while_to: "c \<notin> set v \<Longrightarrow> takeWhile (\<lambda>x. x \<noteq> c) (v @ c # rest) = v \<and> dropWhile (\<lambda>x. x \<noteq> c) (v @ c # rest) = c # rest"
  by (induction v) auto

lemma plain_in: "\<lbrakk>plain v; c \<in> set v\<rbrakk> \<Longrightarrow> plain_char c"
  by (simp add: plain_def list_all_iff)

lemma plain_paren: "plain v \<Longrightarrow> CHR '')'' \<notin> set v"
  using plain_in[of v "CHR '')''"] by (auto simp: plain_char_def)

lemma trim_plain:
  assumes "plain v"
  shows "trim v = v"
proof -
  have d: "dropWhile isspace w = w" if "set w \<subseteq> set v" for w
    using that plain_in[OF assms] plain_char_space by (cases w) auto
  show ?thesis using d[of v] d[of "rev v"] by (simp add: trim_def)
qed

lemma printable_space: "\<lbrakk>printable c; isspace c\<rbrakk> \<Longrightarrow> c = CHR '' ''"
  by (rule of_char_eqI[where 'a = nat]) (auto simp: printable_def isspace_def)

lemma trim_unescaped:
  assumes "unescaped v"
  shows "trim v = v"
proof -
  have u: "v \<noteq> []" "hd v \<noteq> CHR '' ''" "last v \<noteq> CHR '' ''" "\<forall>c\<in>set v. printable c"
    using assms by (auto simp: unescaped_def clean_def list_all_iff)
  have blank: "isspace c \<Longrightarrow> c = CHR '' ''" if "c \<in> set v" for c
    using u(4) that printable_space by blast
  have "dropWhile isspace v = v" using u(1,2) blank[of "hd v"] by (cases v) auto
  moreover have "dropWhile isspace (rev v) = rev v"
    using u(1,3) blank[of "last v"] by (cases v rule: rev_cases) auto
  ultimately show ?thesis by (simp add: trim_def)
qed

lemma listener_unescaped:
  assumes "unescaped v"
  shows "ParseListenerValue (v @ CHR '')'' # rest) = Inr (v, CHR '')'' # rest)"
proof -
  have u: "v \<noteq> []" "CHR ''('' \<notin> set v" "CHR '')'' \<notin> set v" "\<forall>c\<in>set v. printable c"
    using assms by (auto simp: unescaped_def clean_def list_all_iff)
  have "\<not> (c = CHR ''('' \<or> (code_of c < 0x20 \<and> \<not> isspace c) \<or> code_of c > 0x7e)" if "c \<in> set v" for c
    using u(2,4) that by (auto simp: printable_def)
  then have "\<not> list_ex (\<lambda>c. c = CHR ''('' \<or> (code_of c < 0x20 \<and> \<not> isspace c) \<or> code_of c > 0x7e) v"
    unfolding list_ex_iff by blast
  then show ?thesis
    using while_to[OF u(3), of rest] u(1) unfolding ParseListenerValue_def by (simp add: trim_unescaped[OF assms])
qed

lemma listener_plain:
  assumes "plain v"
  shows "ParseListenerValue (v @ CHR '')'' # rest) = Inr (v, CHR '')'' # rest)"
proof -
  have "\<not> (c = CHR ''('' \<or> (code_of c < 0x20 \<and> \<not> isspace c) \<or> code_of c > 0x7e)" if "c \<in> set v" for c
    using plain_in[OF assms that] unfolding plain_char_def by simp
  then have "\<not> list_ex (\<lambda>c. c = CHR ''('' \<or> (code_of c < 0x20 \<and> \<not> isspace c) \<or> code_of c > 0x7e) v"
    unfolding list_ex_iff by blast
  moreover have "v \<noteq> []" using assms by (simp add: plain_def)
  ultimately show ?thesis
    using while_to[OF plain_paren[OF assms], of rest] unfolding ParseListenerValue_def by (simp add: trim_plain[OF assms])
qed

lemma key_read: "plain k \<Longrightarrow> ParseAtom g (CHR ''='') (k @ CHR ''='' # rest) = Inr (k, CHR ''='' # rest)"
  using atom_loop_plain[of k "[]" "CHR ''=''" rest] by (simp add: ParseAtom_def plain_def)

lemma value_read: "writes_value g v raw \<Longrightarrow> ParseAtom g (CHR '')'') (raw @ CHR '')'' # rest) = Inr (v, CHR '')'' # rest)"
proof (induction rule: writes_value.induct)
  case (writes_plain v)
  then have "\<not> hd (v @ CHR '')'' # rest) = CHR 0x22" by (cases v) (auto simp: plain_def)
  then show ?case
    using writes_plain listener_plain[OF writes_plain] atom_loop_plain[of v "[]" "CHR '')''" rest]
    by (simp add: ParseAtom_def plain_def)
next
  case (writes_quoted v)
  then have "CHR 0x22 \<notin> set v" by (simp add: quotable_def)
  from while_to[OF this, of "CHR '')'' # rest"] writes_quoted show ?case
    by (simp add: ParseAtom_def ParseQuotedAtom_def quotable_def)
next
  case (writes_free v)
  then have "hd (v @ CHR '')'' # rest) \<noteq> CHR 0x22" by (cases v) (auto simp: unescaped_def clean_def)
  then show ?case using writes_free listener_unescaped[of v rest] by (simp add: ParseAtom_def)
qed

lemma starts_mark: "starts c (c # s)" "s \<noteq> [] \<Longrightarrow> starts c (s @ t) = starts c s"
  by (simp_all add: starts_def)

lemma value_start: "writes_value g v raw \<Longrightarrow> \<not> starts (CHR ''('') (raw @ s) \<and> SkipWhitespace (raw @ s) = raw @ s"
proof (induction rule: writes_value.induct)
  case (writes_free v)
  then obtain c w where v: "v = c # w" "c \<noteq> CHR ''(''" "printable c" "c \<noteq> CHR '' ''" by (cases v) (auto simp: unescaped_def clean_def)
  then have "\<not> isspace c" using printable_space by blast
  then show ?case using v by (simp add: starts_def SkipWhitespace_def)
qed (auto simp: starts_def plain_def plain_char_def hd_append list_all_iff)

lemma writes_starts: "writes g d n s \<Longrightarrow> starts (CHR ''('') (s @ t) \<and> SkipWhitespace (s @ t) = s @ t"
  by (induction rule: writes.induct) (simp_all add: element_def starts_def)

lemma writes_concat:
  assumes "list_all2 (writes g d) cs ss"
  shows "SkipWhitespace (concat ss @ CHR '')'' # rest) = concat ss @ CHR '')'' # rest"
    and "cs \<noteq> [] \<Longrightarrow> starts (CHR ''('') (concat ss @ CHR '')'' # rest)"
  using assms writes_starts[of g d] by (cases cs; auto simp: list_all2_Cons1)+

lemma node_read: "writes g d n s \<Longrightarrow> ParseNode g d (s @ rest) = Inr (n, rest)"
proof (induction arbitrary: rest rule: writes.induct)
  case (writes_leaf d k v raw)
  have "starts (CHR ''('') (raw @ CHR '')'' # rest) = False" using value_start[OF writes_leaf(3)] by blast
  then show ?case
    using writes_leaf key_read[of k g "raw @ CHR '')'' # rest"] value_read[of g v raw rest] value_start[OF writes_leaf(3), of "CHR '')'' # rest"]
    by (subst ParseNode.simps) (simp add: element_def Let_def starts_mark)
next
  case (writes_branch d k cs ss)
  have kids: "parse_children g d (concat ss @ CHR '')'' # rest) = Inr (cs, CHR '')'' # rest)"
    using writes_branch(4)
  proof (induction rule: list_all2_induct)
    case Nil
    then show ?case by (subst parse_children.simps) (simp add: starts_def)
  next
    case (Cons c cs s ss)
    have "list_all2 (writes g (Suc d)) cs ss" using Cons(2) by (rule list.rel_mono_strong) simp
    from writes_concat(1)[OF this] show ?case
      using Cons writes_starts[of g "Suc d" c s] by (subst parse_children.simps) (simp add: starts_def)
  qed
  have all: "list_all2 (writes g (Suc d)) cs ss" using writes_branch(4) by (rule list.rel_mono_strong) simp
  from writes_concat[OF all] writes_branch(3) show ?case
    using writes_branch(1,2) key_read[of k g "concat ss @ CHR '')'' # rest"] kids
    by (subst ParseNode.simps) (simp add: element_def Let_def starts_mark)
qed

lemma text_read: "\<lbrakk>writes g 0 n s; length s \<le> 65535\<rbrakk> \<Longrightarrow> Parse g s = Inr n"
  using node_read[of g 0 n s "[]"] writes_starts[of g 0 n s "[]"] by (auto simp: Parse_def starts_def)

definition ipv6_char :: "char \<Rightarrow> bool" where
  "ipv6_char c \<longleftrightarrow> isalnum c \<or> c = CHR '':'' \<or> c = CHR ''.''"

text \<open>What \<^verbatim>\<open>inet_pton(AF_INET6)\<close> takes as an address consists of hexadecimal digits, colons and dots.\<close>

definition numeric_ipv6 :: "string \<Rightarrow> bool" where
  "numeric_ipv6 s \<longleftrightarrow> s \<noteq> '''' \<and> list_all ipv6_char s"

lemma alnum_plain: "isalnum c \<Longrightarrow> plain_char c \<and> c \<noteq> CHR 0x22"
  by (auto simp: isalnum_def isalpha_def isupper_def islower_def isdigit_def plain_char_def)

lemma plainI: "\<lbrakk>s \<noteq> ''''; \<And>c. c \<in> set s \<Longrightarrow> plain_char c \<and> c \<noteq> CHR 0x22\<rbrakk> \<Longrightarrow> plain s"
  by (cases s) (auto simp: plain_def list_all_iff)

lemma descriptor_char_plain: "descriptor_char c \<Longrightarrow> plain_char c \<and> c \<noteq> CHR 0x22"
  unfolding descriptor_char_def using alnum_plain[of c] by (elim disjE) (simp_all add: plain_char_def)

lemma ipv6_char_plain: "ipv6_char c \<Longrightarrow> plain_char c \<and> c \<noteq> CHR 0x22"
  unfolding ipv6_char_def using alnum_plain[of c] by (elim disjE) (simp_all add: plain_char_def)

lemma atom_plain: "IsDescriptorAtom s \<Longrightarrow> plain s"
  by (rule plainI) (simp_all add: IsDescriptorAtom_def list_all_iff descriptor_char_plain)

lemma toupper_class: "plain_char c \<Longrightarrow> c \<noteq> CHR 0x22 \<Longrightarrow> plain_char (toupper c) \<and> toupper c \<noteq> CHR 0x22"
proof (cases "islower c")
  case True
  then have "isalnum (toupper c)" by (auto simp: toupper_def islower_def isalnum_def isalpha_def isupper_def)
  then show ?thesis by (rule alnum_plain)
qed (simp add: toupper_def)

lemma c_str_id: "CHR 0x00 \<notin> set s \<Longrightarrow> c_str s = s"
  by (simp add: c_str_def takeWhile_eq_all_conv) metis

lemma host_plain:
  assumes "\<And>s. inet_pton6 os s \<Longrightarrow> numeric_ipv6 s" "CHR 0x00 \<notin> set h" "ValidateAddress os h p = Inr ()"
  shows "plain h"
proof -
  have "IsDescriptorAtom h \<or> inet_pton6 os h"
    using assms(2,3) by (auto simp: ValidateAddress_def IsSafeIpv6Literal_def c_str_id split: if_splits)
  then show ?thesis
  proof
    assume "inet_pton6 os h"
    then have "numeric_ipv6 h" by (rule assms(1))
    then show ?thesis by (intro plainI) (simp_all add: numeric_ipv6_def list_all_iff ipv6_char_plain)
  qed (rule atom_plain)
qed

lemma digits_plain: "\<lbrakk>s \<noteq> ''''; list_all isdigit s\<rbrakk> \<Longrightarrow> plain s"
  by (rule plainI) (simp_all add: list_all_iff alnum_plain isalnum_def)

lemma foldl_digits_mono: "(n::nat) \<le> foldl (\<lambda>v c. v * 10 + digit_value c) n s"
proof (induction s arbitrary: n)
  case (Cons c s)
  show ?case using Cons[of "n * 10 + digit_value c"] by simp
qed simp

lemma port_loop_digits:
  "\<lbrakk>list_all isdigit s; foldl (\<lambda>v c. v * 10 + digit_value c) n s \<le> 65535; 0 < foldl (\<lambda>v c. v * 10 + digit_value c) n s\<rbrakk> \<Longrightarrow>
   port_loop n s = Inr (of_nat (foldl (\<lambda>v c. v * 10 + digit_value c) n s))"
proof (induction s arbitrary: n)
  case (Cons c s)
  have "n * 10 + digit_value c \<le> 65535"
    using foldl_digits_mono[of "n * 10 + digit_value c" s] Cons.prems(2) by simp
  with Cons show ?case by (simp add: Let_def)
qed simp

lemma port_read: "p \<noteq> 0 \<Longrightarrow> ParsePort (decimal (unat p)) = Inr p"
proof -
  assume "p \<noteq> 0"
  then have "0 < unat p" by (simp add: unat_gt_0)
  moreover have "unat p \<le> 65535" using unsigned_less[of p, where 'a = nat] by simp
  ultimately show ?thesis
    using port_loop_digits[OF decimal_digits, of 0 "unat p"] by (simp add: ParsePort_def decimal_value)
qed

section \<open>Connect data read back\<close>

definition leaf :: "string \<Rightarrow> string \<Rightarrow> node" where
  "leaf k v = Node k v []"

definition data_leaves :: "connection_config \<Rightarrow> node list" where
  "data_leaves config =
     [if sid config = '''' then leaf ''SERVICE_NAME'' (service_name config) else leaf ''SID'' (sid config)] @
     (if instance_name config \<noteq> '''' then [leaf ''INSTANCE_NAME'' (instance_name config)] else []) @
     (if server_type config \<noteq> '''' then [leaf ''SERVER'' (upper (server_type config))] else [])"

text \<open>The client's description of itself, which the text for the authentication leaves out, and the id of the connection.\<close>

definition client_leaves :: "connection_config \<Rightarrow> client_identity option \<Rightarrow> node list" where
  "client_leaves config me =
     (case me of None \<Rightarrow> []
      | Some me \<Rightarrow> [Node ''CID'' '''' [leaf ''PROGRAM'' (program me), leaf ''HOST'' (machine me), leaf ''USER'' (os_user me)]]) @
     (if connection_id config \<noteq> '''' then [leaf ''CONNECTION_ID'' (connection_id config)] else [])"

definition address_node :: "connect_address \<Rightarrow> node" where
  "address_node a = Node ''ADDRESS'' '''' [leaf ''PROTOCOL'' (protocol_name (ca_protocol a)), leaf ''HOST'' (ca_host a),
     leaf ''PORT'' (decimal (unat (ca_port a)))]"

definition connect_tree :: "connection_config \<Rightarrow> connect_address \<Rightarrow> client_identity option \<Rightarrow> node" where
  "connect_tree config a me = Node ''DESCRIPTION'' ''''
     [address_node a, Node ''CONNECT_DATA'' '''' (data_leaves config @ client_leaves config me)]"

lemma writes_leaf': "\<lbrakk>d \<le> 16; plain k; upper k = k; plain v\<rbrakk> \<Longrightarrow> writes g d (leaf k v) (element k v)"
  using writes_leaf[of d k g v v] writes_plain by (simp add: leaf_def)

lemma writes_branch':
  "\<lbrakk>d \<le> 16; plain k; upper k = k; cs \<noteq> []; list_all2 (writes g (Suc d)) cs ss; s = element k (concat ss)\<rbrakk> \<Longrightarrow> writes g d (Node k '''' cs) s"
  using writes_branch[of d k cs g ss] by simp

lemma key_plain [simp]:
  "plain ''DESCRIPTION''" "plain ''ADDRESS''" "plain ''CONNECT_DATA''" "plain ''PROTOCOL''" "plain ''HOST''" "plain ''PORT''"
  "plain ''SERVICE_NAME''" "plain ''SID''" "plain ''INSTANCE_NAME''" "plain ''SERVER''" "plain ''SECURITY''"
  "upper ''DESCRIPTION'' = ''DESCRIPTION''" "upper ''ADDRESS'' = ''ADDRESS''" "upper ''CONNECT_DATA'' = ''CONNECT_DATA''"
  "upper ''PROTOCOL'' = ''PROTOCOL''" "upper ''HOST'' = ''HOST''" "upper ''PORT'' = ''PORT''"
  "upper ''SERVICE_NAME'' = ''SERVICE_NAME''" "upper ''SID'' = ''SID''" "upper ''INSTANCE_NAME'' = ''INSTANCE_NAME''"
  "upper ''SERVER'' = ''SERVER''" "upper ''SECURITY'' = ''SECURITY''" "plain ''tcp''" "plain ''tcps''"
  "plain ''CID''" "plain ''PROGRAM''" "plain ''USER''" "plain ''CONNECTION_ID''"
  "upper ''CID'' = ''CID''" "upper ''PROGRAM'' = ''PROGRAM''" "upper ''USER'' = ''USER''" "upper ''CONNECTION_ID'' = ''CONNECTION_ID''"
  by (simp_all add: plain_def plain_char_def upper_def toupper_def islower_def)

lemma ValidateD:
  assumes "ValidateConnectionConfig os config = Inr ()"
  shows "(service_name config = '''') \<noteq> (sid config = '''')"
    and "IsDescriptorAtom (if service_name config = '''' then sid config else service_name config)"
    and "instance_name config \<noteq> '''' \<Longrightarrow> IsDescriptorAtom (instance_name config)"
    and "server_type config \<noteq> '''' \<Longrightarrow> upper (server_type config) \<in> {''DEDICATED'', ''SHARED''}"
  using assms by (auto simp: ValidateConnectionConfig_def ValidateAddresses_def check_def andthen_eq_Inr split: if_splits)

lemma validated_id:
  assumes "ValidateConnectionConfig os config = Inr ()"
  shows "CHR ''('' \<notin> set (connection_id config)" "CHR '')'' \<notin> set (connection_id config)"
proof -
  have "\<exists>u. check (length (connection_id config) > 128 \<or> list_ex (\<lambda>c. c = CHR ''('' \<or> c = CHR '')'') (connection_id config)) MALFORMED = Inr u"
    using assms unfolding ValidateConnectionConfig_def andthen_eq_Inr by blast
  then have "\<not> list_ex (\<lambda>c. c = CHR ''('' \<or> c = CHR '')'') (connection_id config)" by (simp add: check_def split: if_splits)
  then show "CHR ''('' \<notin> set (connection_id config)" "CHR '')'' \<notin> set (connection_id config)" by (auto simp: list_ex_iff)
qed

lemma server_plain [simp]: "plain ''DEDICATED''" "plain ''SHARED''"
  by (simp_all add: plain_def plain_char_def)

lemma writes_free': "\<lbrakk>d \<le> 16; plain k; upper k = k; unescaped v\<rbrakk> \<Longrightarrow> writes LISTENER_SUPPLIED d (leaf k v) (element k v)"
  using writes_leaf[of d k LISTENER_SUPPLIED v v] writes_free by (simp add: leaf_def)

lemma address_node_written:
  assumes "plain (ca_host a)"
  shows "writes g (Suc 0) (address_node a) (element ''ADDRESS'' (element ''PROTOCOL'' (protocol_name (ca_protocol a)) @
    element ''HOST'' (ca_host a) @ element ''PORT'' (decimal (unat (ca_port a)))))"
  unfolding address_node_def
proof (rule writes_branch'[where ss = "[element ''PROTOCOL'' (protocol_name (ca_protocol a)), element ''HOST'' (ca_host a),
     element ''PORT'' (decimal (unat (ca_port a)))]"])
  show "list_all2 (writes g (Suc (Suc 0))) [leaf ''PROTOCOL'' (protocol_name (ca_protocol a)), leaf ''HOST'' (ca_host a),
      leaf ''PORT'' (decimal (unat (ca_port a)))]
    [element ''PROTOCOL'' (protocol_name (ca_protocol a)), element ''HOST'' (ca_host a), element ''PORT'' (decimal (unat (ca_port a)))]"
    using assms digits_plain[OF decimal_not_Nil decimal_digits] by (auto simp: protocol_name_def intro!: writes_leaf')
qed simp_all

definition data_texts :: "connection_config \<Rightarrow> string list" where
  "data_texts config =
     [if sid config = '''' then element ''SERVICE_NAME'' (service_name config) else element ''SID'' (sid config)] @
     (if instance_name config \<noteq> '''' then [element ''INSTANCE_NAME'' (instance_name config)] else []) @
     (if server_type config \<noteq> '''' then [element ''SERVER'' (upper (server_type config))] else [])"

lemma data_leaves_written:
  assumes "ValidateConnectionConfig os config = Inr ()"
  shows "list_all2 (writes g (Suc (Suc 0))) (data_leaves config) (data_texts config)"
  unfolding data_leaves_def data_texts_def
proof (intro list_all2_appendI)
  note valid = ValidateD[OF assms]
  show "list_all2 (writes g (Suc (Suc 0)))
      [if sid config = '''' then leaf ''SERVICE_NAME'' (service_name config) else leaf ''SID'' (sid config)]
      [if sid config = '''' then element ''SERVICE_NAME'' (service_name config) else element ''SID'' (sid config)]"
    using valid(1,2) by (auto intro!: writes_leaf' intro: atom_plain split: if_splits)
  show "list_all2 (writes g (Suc (Suc 0))) (if instance_name config \<noteq> '''' then [leaf ''INSTANCE_NAME'' (instance_name config)] else [])
     (if instance_name config \<noteq> '''' then [element ''INSTANCE_NAME'' (instance_name config)] else [])"
    using valid(3) by (auto intro!: writes_leaf' intro: atom_plain)
  show "list_all2 (writes g (Suc (Suc 0))) (if server_type config \<noteq> '''' then [leaf ''SERVER'' (upper (server_type config))] else [])
     (if server_type config \<noteq> '''' then [element ''SERVER'' (upper (server_type config))] else [])"
    using valid(4) by (auto intro!: writes_leaf')
qed

text \<open>What the platform says of the client is written as it is, so it has to be readable.\<close>

definition identity_readable :: "client_identity \<Rightarrow> bool" where
  "identity_readable me \<longleftrightarrow> unescaped (program me) \<and> unescaped (machine me) \<and> unescaped (os_user me)"

definition client_texts :: "connection_config \<Rightarrow> client_identity option \<Rightarrow> string list" where
  "client_texts config me =
     (case me of None \<Rightarrow> []
      | Some me \<Rightarrow> [element ''CID'' (element ''PROGRAM'' (program me) @ element ''HOST'' (machine me) @ element ''USER'' (os_user me))]) @
     (if connection_id config \<noteq> '''' then [element ''CONNECTION_ID'' (connection_id config)] else [])"

lemma client_leaves_written:
  assumes "ValidateConnectionConfig os config = Inr ()" "connection_id config \<noteq> '''' \<Longrightarrow> clean (connection_id config)"
    and "\<And>i. me = Some i \<Longrightarrow> identity_readable i"
  shows "list_all2 (writes LISTENER_SUPPLIED (Suc (Suc 0))) (client_leaves config me) (client_texts config me)"
  unfolding client_leaves_def client_texts_def
proof (rule list_all2_appendI)
  show "list_all2 (writes LISTENER_SUPPLIED (Suc (Suc 0)))
      (case me of None \<Rightarrow> [] | Some me \<Rightarrow> [Node ''CID'' '''' [leaf ''PROGRAM'' (program me), leaf ''HOST'' (machine me), leaf ''USER'' (os_user me)]])
      (case me of None \<Rightarrow> [] | Some me \<Rightarrow> [element ''CID'' (element ''PROGRAM'' (program me) @ element ''HOST'' (machine me) @ element ''USER'' (os_user me))])"
  proof (cases me)
    case (Some i)
    let ?ss = "[element ''PROGRAM'' (program i), element ''HOST'' (machine i), element ''USER'' (os_user i)]"
    have "list_all2 (writes LISTENER_SUPPLIED (Suc (Suc (Suc 0)))) [leaf ''PROGRAM'' (program i), leaf ''HOST'' (machine i), leaf ''USER'' (os_user i)] ?ss"
      using assms(3)[OF Some] by (simp add: identity_readable_def writes_free')
    then show ?thesis using Some by (auto intro!: writes_branch'[where ss = ?ss])
  qed simp
  show "list_all2 (writes LISTENER_SUPPLIED (Suc (Suc 0))) (if connection_id config \<noteq> '''' then [leaf ''CONNECTION_ID'' (connection_id config)] else [])
     (if connection_id config \<noteq> '''' then [element ''CONNECTION_ID'' (connection_id config)] else [])"
    using assms(2) validated_id[OF assms(1)] by (auto intro!: writes_free' simp: unescaped_def)
qed

lemma built_text:
  assumes "BuildDescriptor os config a cid = Inr d"
  shows "\<exists>me. CurrentOracleClientIdentity os (client_program config) = Inr me \<and> ValidateConnectionConfig os config = Inr () \<and>
    ValidateAddress os (ca_host a) (ca_port a) = Inr () \<and> length d \<le> 65535 \<and>
    d = element ''DESCRIPTION'' (concat [element ''ADDRESS'' (element ''PROTOCOL'' (protocol_name (ca_protocol a)) @
      element ''HOST'' (ca_host a) @ element ''PORT'' (decimal (unat (ca_port a)))),
      element ''CONNECT_DATA'' (concat (data_texts config @ client_texts config (if cid then Some me else None)))])"
proof -
  obtain me where me: "CurrentOracleClientIdentity os (client_program config) = Inr me"
    using assms by (auto simp: BuildDescriptor_def andthen_eq_Inr)
  with assms show ?thesis
    by (auto simp: BuildDescriptor_def andthen_eq_Inr Let_def element_def data_texts_def client_texts_def split: if_splits)
qed

lemma connect_tree_written:
  assumes "ValidateConnectionConfig os config = Inr ()" "plain (ca_host a)"
    and "list_all2 (writes g (Suc (Suc 0))) (client_leaves config me) (client_texts config me)"
  shows "writes g 0 (connect_tree config a me) (element ''DESCRIPTION'' (concat [element ''ADDRESS'' (element ''PROTOCOL'' (protocol_name (ca_protocol a)) @
      element ''HOST'' (ca_host a) @ element ''PORT'' (decimal (unat (ca_port a)))),
      element ''CONNECT_DATA'' (concat (data_texts config @ client_texts config me))]))"
  unfolding connect_tree_def
proof (rule writes_branch'[OF _ _ _ _ _ refl])
  have "list_all2 (writes g (Suc (Suc 0))) (data_leaves config @ client_leaves config me) (data_texts config @ client_texts config me)"
    by (rule list_all2_appendI[OF data_leaves_written[OF assms(1)] assms(3)])
  from writes_branch'[OF _ _ _ _ this refl, of "''CONNECT_DATA''"]
  have "writes g (Suc 0) (Node ''CONNECT_DATA'' '''' (data_leaves config @ client_leaves config me))
      (element ''CONNECT_DATA'' (concat (data_texts config @ client_texts config me)))"
    by (simp add: data_leaves_def)
  then show "list_all2 (writes g (Suc 0)) [address_node a, Node ''CONNECT_DATA'' '''' (data_leaves config @ client_leaves config me)]
      [element ''ADDRESS'' (element ''PROTOCOL'' (protocol_name (ca_protocol a)) @ element ''HOST'' (ca_host a) @
         element ''PORT'' (decimal (unat (ca_port a)))),
       element ''CONNECT_DATA'' (concat (data_texts config @ client_texts config me))]"
    using address_node_written[OF assms(2)] by simp
qed simp_all

lemma leaf_simps [simp]: "key (leaf k v) = k" "content (leaf k v) = v" "children (leaf k v) = []"
  by (simp_all add: leaf_def)

lemma address_node_simps [simp]: "key (address_node a) = ''ADDRESS'' \<and> content (address_node a) = []"
  by (simp add: address_node_def)

lemma upper_protocol: "upper ''tcp'' = ''TCP''" "upper ''tcps'' = ''TCPS''"
  by code_simp+

lemma protocol_read [simp]: "ParseProtocolName (protocol_name t) = Inr t" "protocol_name t \<noteq> ''''"
  by (cases t; simp add: ParseProtocolName_def protocol_name_def upper_protocol)+

lemma ParseAddress_tree:
  assumes "plain (ca_host a)" "ca_port a \<noteq> 0"
  shows "ParseAddress (address_node a) = Inr a"
proof -
  have "ca_host a \<noteq> ''''" using assms(1) by (simp add: plain_def)
  then show ?thesis
    using port_read[OF assms(2)]
    by (simp add: ParseAddress_def address_node_def optionally_def OptionalScalar_def RequiredChild_def named_def)
qed

lemma ParseConnectData_tree:
  assumes "ValidateConnectionConfig os config = Inr ()" "pd_instance_name d = ''''" "pd_server_type d = ''''"
    "pd_service_name d = ''''" "pd_sid d = ''''"
  shows "ParseConnectData (Node ''CONNECT_DATA'' '''' (data_leaves config)) d =
    Inr (d\<lparr>pd_service_name := service_name config, pd_sid := sid config, pd_instance_name := instance_name config,
      pd_server_type := upper (server_type config)\<rparr>)"
proof -
  note v = ValidateD[OF assms(1)]
  have one: "named k (Node ''CONNECT_DATA'' '''' (data_leaves config)) =
      (if k = ''SERVICE_NAME'' \<and> sid config = '''' then [leaf k (service_name config)]
       else if k = ''SID'' \<and> sid config \<noteq> '''' then [leaf k (sid config)]
       else if k = ''INSTANCE_NAME'' \<and> instance_name config \<noteq> '''' then [leaf k (instance_name config)]
       else if k = ''SERVER'' \<and> server_type config \<noteq> '''' then [leaf k (upper (server_type config))]
       else [])" for k
    by (auto simp: named_def data_leaves_def)
  have keys: "list_all (\<lambda>c. key c \<in> {''SERVICE_NAME'', ''INSTANCE_NAME'', ''SERVER'', ''SID''}) (data_leaves config)"
    by (simp add: data_leaves_def)
  have server: "optionally (Node ''CONNECT_DATA'' '''' (data_leaves config)) ''SERVER'' parse_server '''' = Inr (upper (server_type config))"
  proof (cases "server_type config = ''''")
    case False
    then have e: "upper (server_type config) \<noteq> ''''" by (simp add: upper_def)
    have "parse_server (leaf ''SERVER'' (upper (server_type config))) = Inr (upper (server_type config))"
      unfolding parse_server_def leaf_simps upper_idem Let_def using v(4)[OF False] by simp
    with False e show ?thesis by (simp add: optionally_def OptionalScalar_def one)
  qed (simp add: optionally_def OptionalScalar_def one upper_def)
  have inst: "optionally (Node ''CONNECT_DATA'' '''' (data_leaves config)) ''INSTANCE_NAME'' (\<lambda>c. Inr (content c)) '''' =
      Inr (instance_name config)"
    by (simp add: optionally_def OptionalScalar_def one)
  show ?thesis
    using keys v(1) server inst assms(2-5) unfolding ParseConnectData_def
    by (cases "sid config = ''''") (simp_all add: OptionalScalar_def RequiredChild_def one)
qed

lemma validate_written:
  assumes "ValidateConnectionConfig os config = Inr ()" "ValidateAddress os h p = Inr ()"
  shows "ValidateConnectionConfig os (ConnectionConfig\<lparr>host := h, port := p, service_name := service_name config,
    sid := sid config, instance_name := instance_name config, protocol := t\<rparr>) = Inr ()"
  using assms(2) ValidateD[OF assms(1)]
  by (auto simp: ValidateConnectionConfig_def ValidateAddresses_def check_def ConnectionConfig_def ConnectRouting_def
      MAX_CONNECT_RETRY_COUNT_def MAX_CONNECT_RETRY_DELAY_SECONDS_def MAX_CONNECT_BUDGET_SECONDS_def)

lemma connect_tree_parsed:
  assumes "ValidateConnectionConfig os config = Inr ()" "ValidateAddress os (ca_host a) (ca_port a) = Inr ()" "plain (ca_host a)"
    and "connection_id config = ''''"
  shows "ParseDescription os (connect_tree config a None) = Inr (ParsedConnectDescriptor\<lparr>endpoints := [a],
    pd_lists := [\<lparr>addresses = [a], list_failover = True, list_load_balance = False\<rparr>],
    pd_service_name := service_name config, pd_sid := sid config, pd_instance_name := instance_name config,
    pd_server_type := upper (server_type config)\<rparr>)"
proof -
  let ?data = "Node ''CONNECT_DATA'' '''' (data_leaves config)"
  have "ca_port a \<noteq> 0" using assms(2) by (auto simp: ValidateAddress_def split: if_splits)
  from ParseAddress_tree[OF assms(3) this] have address: "ParseAddress (address_node a) = Inr a" .
  have none: "named k (connect_tree config a None) = []" if "k \<notin> {''ADDRESS'', ''CONNECT_DATA''}" for k
    using that by (auto simp: named_def connect_tree_def client_leaves_def assms(4))
  have absent: "OptionalScalar (connect_tree config a None) k = Inr None" if "k \<notin> {''ADDRESS'', ''CONNECT_DATA''}" for k
    using none[OF that] by (simp add: OptionalScalar_def)
  have lists: "each description_child (children (connect_tree config a None)) ([], None) =
      Inr ([\<lparr>addresses = [a], list_failover = True, list_load_balance = False\<rparr>], Some 0)"
    by (simp add: connect_tree_def description_child_def address)
  have data: "RequiredContainer (connect_tree config a None) ''CONNECT_DATA'' = Inr ?data"
    by (simp add: RequiredContainer_def named_def connect_tree_def client_leaves_def assms(4))
  show ?thesis
    unfolding ParseDescription_def lists data
    by (simp add: MAX_CONNECT_ADDRESSES_def RefuseSourceRoute_def optionally_def seconds_of_def absent none positive_def
        ParseConnectData_tree[OF assms(1)] ParsedConnectDescriptor_def validate_endpoint_def validate_written[OF assms(1,2)])
qed

lemma redirect_written:
  assumes "ValidateAddress os (ca_host a) (ca_port a) = Inr ()" "plain (ca_host a)"
  shows "redirect_nodes (connect_tree config a me) = Inr [address_node a]"
    and "redirect_address_of os (address_node a) = Inr \<lparr>ra_address = a, protocol_given = True\<rparr>"
proof -
  show "redirect_nodes (connect_tree config a me) = Inr [address_node a]"
    by (simp add: redirect_nodes_def connect_tree_def)
  have "ca_port a \<noteq> 0" "ca_host a \<noteq> ''''" using assms by (auto simp: ValidateAddress_def plain_def split: if_splits)
  moreover have "IsDescriptorAtom ''redirect''" by code_simp
  then have "ValidateConnectionConfig os (ConnectionConfig\<lparr>host := ca_host a, port := ca_port a, service_name := ''redirect''\<rparr>) = Inr ()"
    using assms(1) by (simp add: ValidateConnectionConfig_def ValidateAddresses_def check_def ConnectionConfig_def ConnectRouting_def
        MAX_CONNECT_RETRY_COUNT_def MAX_CONNECT_RETRY_DELAY_SECONDS_def MAX_CONNECT_BUDGET_SECONDS_def)
  ultimately show "redirect_address_of os (address_node a) = Inr \<lparr>ra_address = a, protocol_given = True\<rparr>"
    using port_read[of "ca_port a"]
    by (simp add: redirect_address_of_def address_node_def OptionalScalar_def RequiredChild_def named_def)
qed

lemma listener_reads:
  assumes "BuildDescriptor os config a cid = Inr d" "CurrentOracleClientIdentity os (client_program config) = Inr me"
    and "\<And>s. inet_pton6 os s \<Longrightarrow> numeric_ipv6 s" "CHR 0x00 \<notin> set (ca_host a)"
    and "connection_id config \<noteq> '''' \<Longrightarrow> clean (connection_id config)" "cid \<Longrightarrow> identity_readable me"
  shows "Parse LISTENER_SUPPLIED d = Inr (connect_tree config a (if cid then Some me else None)) \<and>
    ParseRedirectAddresses os d = Inr [\<lparr>ra_address = a, protocol_given = True\<rparr>]"
proof -
  let ?me = "if cid then Some me else None"
  from built_text[OF assms(1)] assms(2) have v: "ValidateConnectionConfig os config = Inr ()"
    "ValidateAddress os (ca_host a) (ca_port a) = Inr ()" "length d \<le> 65535"
    and d: "d = element ''DESCRIPTION'' (concat [element ''ADDRESS'' (element ''PROTOCOL'' (protocol_name (ca_protocol a)) @
      element ''HOST'' (ca_host a) @ element ''PORT'' (decimal (unat (ca_port a)))),
      element ''CONNECT_DATA'' (concat (data_texts config @ client_texts config ?me))])" by auto
  have host: "plain (ca_host a)" by (rule host_plain[OF assms(3,4) v(2)])
  have client: "list_all2 (writes LISTENER_SUPPLIED (Suc (Suc 0))) (client_leaves config ?me) (client_texts config ?me)"
    by (rule client_leaves_written[OF v(1) assms(5)]) (use assms(6) in \<open>auto split: if_splits\<close>)
  have p: "Parse LISTENER_SUPPLIED d = Inr (connect_tree config a ?me)"
    by (rule text_read[OF _ v(3)]) (unfold d, rule connect_tree_written[OF v(1) host client])
  with redirect_written(1)[OF v(2) host, of config ?me] redirect_written(2)[OF v(2) host] show ?thesis
    by (simp add: ParseRedirectAddresses_def MAX_CONNECT_ADDRESSES_def)
qed

section \<open>Properties\<close>

text \<open>
  C3. Connect data cannot be forged. What the client sends for an address of a validated configuration, with the
  description of itself and the id of the connection, which \<^verbatim>\<open>Connect\<close> fills with 24 base64 characters when it is
  empty, reads back with the grammar for listener text as exactly this tree: that address with its
  protocol, that service or SID, instance and server type, those three fields of the client and that id, and nothing
  else; as a redirect it names that address alone. The text for the authentication reads back as the
  same tree without the client's fields, and, if it has no id, the parser of user descriptors takes it
  for the configuration it was made from. So no host, service, instance name, server type or id can add an element. The
  client's own fields are written unchecked: they, and an id, are assumed printable, without a blank at either
  end or a quote in front, and the client's fields without a parenthesis. (An IPv6 literal is taken on the word of \<^verbatim>\<open>inet_pton\<close>, which sees a host up to its
  first NUL.)
\<close>

theorem connect_data_read_back:
  assumes "\<And>s. inet_pton6 os s \<Longrightarrow> numeric_ipv6 s" "CHR 0x00 \<notin> set (ca_host a)"
    and "CurrentOracleClientIdentity os (client_program config) = Inr me"
    and "connection_id config \<noteq> '''' \<Longrightarrow> clean (connection_id config)"
  shows "(identity_readable me \<and> BuildConnectDescriptor os config a = Inr d \<longrightarrow>
      Parse LISTENER_SUPPLIED d = Inr (connect_tree config a (Some me)) \<and>
      ParseRedirectAddresses os d = Inr [\<lparr>ra_address = a, protocol_given = True\<rparr>]) \<and>
    (BuildAuthConnectString os config a = Inr d \<longrightarrow>
      Parse LISTENER_SUPPLIED d = Inr (connect_tree config a None) \<and>
      ParseRedirectAddresses os d = Inr [\<lparr>ra_address = a, protocol_given = True\<rparr>]) \<and>
    (BuildAuthConnectString os config a = Inr d \<and> connection_id config = '''' \<longrightarrow>
      ParseConnectDescriptor os d = Inr (ParsedConnectDescriptor\<lparr>endpoints := [a],
        pd_lists := [\<lparr>addresses = [a], list_failover = True, list_load_balance = False\<rparr>],
        pd_service_name := service_name config, pd_sid := sid config, pd_instance_name := instance_name config,
        pd_server_type := upper (server_type config)\<rparr>))"
proof (intro conjI[OF _ conjI] impI; (elim conjE)?)
  assume "identity_readable me" and b: "BuildConnectDescriptor os config a = Inr d"
  with listener_reads[OF b[unfolded BuildConnectDescriptor_def] assms(3,1,2,4)]
  show "Parse LISTENER_SUPPLIED d = Inr (connect_tree config a (Some me)) \<and>
      ParseRedirectAddresses os d = Inr [\<lparr>ra_address = a, protocol_given = True\<rparr>]" by simp
next
  assume b: "BuildAuthConnectString os config a = Inr d"
  from listener_reads[OF b[unfolded BuildAuthConnectString_def] assms(3,1,2,4)]
  show "Parse LISTENER_SUPPLIED d = Inr (connect_tree config a None) \<and>
      ParseRedirectAddresses os d = Inr [\<lparr>ra_address = a, protocol_given = True\<rparr>]" by simp
next
  assume b: "BuildAuthConnectString os config a = Inr d" and no_id: "connection_id config = ''''"
  from built_text[OF b[unfolded BuildAuthConnectString_def]] have v: "ValidateConnectionConfig os config = Inr ()"
    "ValidateAddress os (ca_host a) (ca_port a) = Inr ()" "length d \<le> 65535"
    and d: "d = element ''DESCRIPTION'' (concat [element ''ADDRESS'' (element ''PROTOCOL'' (protocol_name (ca_protocol a)) @
      element ''HOST'' (ca_host a) @ element ''PORT'' (decimal (unat (ca_port a)))),
      element ''CONNECT_DATA'' (concat (data_texts config @ client_texts config None))])" by auto
  note host = host_plain[OF assms(1,2) v(2)]
  have "list_all2 (writes USER_WRITTEN (Suc (Suc 0))) (client_leaves config None) (client_texts config None)"
    using no_id by (simp add: client_leaves_def client_texts_def)
  from connect_tree_written[OF v(1) host this] have "Parse USER_WRITTEN d = Inr (connect_tree config a None)"
    unfolding d[symmetric] by (rule text_read[OF _ v(3)])
  moreover have "CheckRoot (connect_tree config a None) = Inr ()" "key (connect_tree config a None) \<noteq> ''DESCRIPTION_LIST''"
    by (simp_all add: CheckRoot_def connect_tree_def)
  ultimately show "ParseConnectDescriptor os d = Inr (ParsedConnectDescriptor\<lparr>endpoints := [a],
        pd_lists := [\<lparr>addresses = [a], list_failover = True, list_load_balance = False\<rparr>],
        pd_service_name := service_name config, pd_sid := sid config, pd_instance_name := instance_name config,
        pd_server_type := upper (server_type config)\<rparr>)"
    using connect_tree_parsed[OF v(1,2) host no_id] by (simp add: ParseConnectDescriptor_def)
qed

text \<open>The proviso is needed: a host with a NUL passes the validation and reaches the connect data whole.\<close>

definition nul_host :: connection_config where
  "nul_host = ConnectionConfig\<lparr>host := ''::1'' @ [CHR 0x00] @ '')(HOST=elsewhere'', service_name := ''db'', client_program := ''p''\<rparr>"

lemma nul_hides_descriptor_syntax:
  "ValidateConnectionConfig sample_os nul_host = Inr () \<and>
   BuildAuthConnectString sample_os nul_host \<lparr>ca_host = host nul_host, ca_port = 1521, ca_protocol = TCP\<rparr> =
     Inr (''(DESCRIPTION=(ADDRESS=(PROTOCOL=tcp)(HOST=::1'' @ [CHR 0x00] @ '')(HOST=elsewhere)(PORT=1521))(CONNECT_DATA=(SERVICE_NAME=db)))'')"
proof -
  have v: "ValidateConnectionConfig sample_os nul_host = Inr ()" "ValidateAddress sample_os (host nul_host) 1521 = Inr ()"
    by (simp_all add: nul_host_def config_eval IsSafeIpv6Literal_def c_str_def sample_os_def)
  have "decimal 1521 = ''1521''"
    by code_simp
  then show ?thesis
    using v by (auto simp: BuildAuthConnectString_def BuildDescriptor_def Let_def CurrentOracleClientIdentity_def sample_os_def
        nul_host_def ConnectionConfig_def element_def protocol_name_def)
qed

definition sample_config :: connection_config where
  "sample_config = ConnectionConfig\<lparr>host := ''::1'', service_name := ''db.x'', server_type := ''SHARED'',
     connection_id := ''AAECAwQFBgcICQoLDA0ODw=='', client_program := ''/opt/my client/p''\<rparr>"

lemma connect_data_read_back_witness:
  "\<exists>d root. BuildConnectDescriptor sample_os sample_config \<lparr>ca_host = ''::1'', ca_port = 2484, ca_protocol = TCPS\<rparr> = Inr d \<and>
     Parse LISTENER_SUPPLIED d = Inr root \<and> map key (children root) = [''ADDRESS'', ''CONNECT_DATA''] \<and>
     map key (children (children root ! 1)) = [''SERVICE_NAME'', ''SERVER'', ''CID'', ''CONNECTION_ID'']"
proof -
  let ?a = "\<lparr>ca_host = ''::1'', ca_port = 2484, ca_protocol = TCPS\<rparr>"
  let ?me = "\<lparr>program = ''/opt/my client/p'', terminal = ''unknown'', machine = ''box'', process_id = decimal 7, os_user = ''oracle_scanner''\<rparr>"
  have me: "CurrentOracleClientIdentity sample_os (client_program sample_config) = Inr ?me"
    by (simp add: CurrentOracleClientIdentity_def sample_os_def sample_config_def ConnectionConfig_def)
  have "\<exists>d. BuildConnectDescriptor sample_os sample_config ?a = Inr d"
    by (simp add: BuildConnectDescriptor_def BuildDescriptor_def Let_def CurrentOracleClientIdentity_def sample_os_def
        sample_config_def config_eval element_def protocol_name_def IsSafeIpv6Literal_def c_str_def upper_def toupper_def
        islower_def decimal.simps)
  then obtain d where d: "BuildConnectDescriptor sample_os sample_config ?a = Inr d" ..
  have six: "numeric_ipv6 s" if "inet_pton6 sample_os s" for s
    using that by (simp add: sample_os_def numeric_ipv6_def ipv6_char_def isalnum_def isdigit_def)
  have "identity_readable ?me" by (simp add: identity_readable_def unescaped_def clean_def printable_def)
  moreover have "clean (connection_id sample_config)"
    by (simp add: sample_config_def ConnectionConfig_def clean_def printable_def)
  ultimately have "Parse LISTENER_SUPPLIED d = Inr (connect_tree sample_config ?a (Some ?me))"
    using connect_data_read_back[OF six _ me, of ?a d] d by simp
  with d show ?thesis
    by (simp add: connect_tree_def data_leaves_def client_leaves_def sample_config_def ConnectionConfig_def)
qed

text \<open>
  The client's own fields need their proviso too: the user name of the environment can add an element to what is sent.
\<close>

definition forging_os :: platform where
  "forging_os = sample_os\<lparr>env_user := Some ''u))(SERVER=SHARED)(CID=(USER=x''\<rparr>"

definition plain_config :: connection_config where
  "plain_config = ConnectionConfig\<lparr>host := ''h'', service_name := ''db'', client_program := ''p''\<rparr>"

lemma identity_adds_element:
  "\<exists>d root. BuildConnectDescriptor forging_os plain_config \<lparr>ca_host = ''h'', ca_port = 1521, ca_protocol = TCP\<rparr> = Inr d \<and>
     server_type plain_config = '''' \<and> Parse LISTENER_SUPPLIED d = Inr root \<and>
     leaf ''SERVER'' ''SHARED'' \<in> set (children (children root ! 1))"
proof -
  let ?a = "\<lparr>ca_host = ''h'', ca_port = 1521, ca_protocol = TCP\<rparr>"
  let ?data = "[leaf ''SERVICE_NAME'' ''db'', Node ''CID'' '''' [leaf ''PROGRAM'' ''p'', leaf ''HOST'' ''box'', leaf ''USER'' ''u''],
     leaf ''SERVER'' ''SHARED'', Node ''CID'' '''' [leaf ''USER'' ''x'']]"
  let ?root = "Node ''DESCRIPTION'' '''' [address_node ?a, Node ''CONNECT_DATA'' '''' ?data]"
  let ?d = "''(DESCRIPTION=(ADDRESS=(PROTOCOL=tcp)(HOST=h)(PORT=1521))(CONNECT_DATA=(SERVICE_NAME=db)(CID=(PROGRAM=p)(HOST=box)(USER=u))(SERVER=SHARED)(CID=(USER=x))))''"
  have number: "decimal 1521 = ''1521''" by code_simp
  have [simp]: "plain ''db''" "plain ''p''" "plain ''box''" "plain ''u''" "plain ''x''" "plain ''h''" by code_simp+
  have text_of: "writes g n (leaf k v) s" if "n \<le> 16" "plain k" "upper k = k" "plain v" "s = element k v" for g n k v s
    using writes_leaf'[OF that(1-4)] that(5) by simp
  have cid: "writes g 2 (Node ''CID'' '''' [leaf ''PROGRAM'' ''p'', leaf ''HOST'' ''box'', leaf ''USER'' ''u''])
      ''(CID=(PROGRAM=p)(HOST=box)(USER=u))''" for g
    by (rule writes_branch'[where ss = "[''(PROGRAM=p)'', ''(HOST=box)'', ''(USER=u)'']"]) (simp_all add: text_of element_def)
  have cid': "writes g 2 (Node ''CID'' '''' [leaf ''USER'' ''x'']) ''(CID=(USER=x))''" for g
    by (rule writes_branch'[where ss = "[''(USER=x)'']"]) (simp_all add: text_of element_def)
  have data: "writes g 1 (Node ''CONNECT_DATA'' '''' ?data)
      ''(CONNECT_DATA=(SERVICE_NAME=db)(CID=(PROGRAM=p)(HOST=box)(USER=u))(SERVER=SHARED)(CID=(USER=x)))''" for g
    by (rule writes_branch'[where ss = "[''(SERVICE_NAME=db)'', ''(CID=(PROGRAM=p)(HOST=box)(USER=u))'', ''(SERVER=SHARED)'', ''(CID=(USER=x))'']"])
      (use cid cid' in \<open>simp_all add: text_of element_def numeral_2_eq_2\<close>)
  have "writes LISTENER_SUPPLIED 0 ?root ?d"
    by (rule writes_branch'[where ss = "[element ''ADDRESS'' (element ''PROTOCOL'' ''tcp'' @ element ''HOST'' ''h'' @ element ''PORT'' ''1521''),
          ''(CONNECT_DATA=(SERVICE_NAME=db)(CID=(PROGRAM=p)(HOST=box)(USER=u))(SERVER=SHARED)(CID=(USER=x)))'']"])
      (use data address_node_written[of ?a LISTENER_SUPPLIED] in \<open>simp_all add: protocol_name_def number element_def\<close>)
  then have p: "Parse LISTENER_SUPPLIED ?d = Inr ?root" by (rule text_read) simp
  have "BuildConnectDescriptor forging_os plain_config ?a = Inr ?d"
    by (simp add: BuildConnectDescriptor_def BuildDescriptor_def Let_def CurrentOracleClientIdentity_def sample_os_def forging_os_def
        plain_config_def config_eval element_def protocol_name_def number)
  with p show ?thesis by (auto simp: plain_config_def ConnectionConfig_def)
qed

end
