(* ===== verification/Tns_Names.thy ===== *)
theory Tns_Names
  imports Descriptor_Parser "HOL-Library.Sublist"
begin

text \<open>
  \<^verbatim>\<open>FindTnsAliasDescriptor\<close> of \<^verbatim>\<open>src/descriptor_parser.cpp\<close>: the search for an alias in the text of a
  \<^verbatim>\<open>tnsnames.ora\<close>. A position in the text is the text from there on. The search does not always return, so it is
  a partial function: not returning is \<open>None\<close>.
\<close>

section \<open>The search\<close>

definition is_eol :: "char \<Rightarrow> bool" where
  "is_eol c \<longleftrightarrow> c = CHR 0x0D \<or> c = CHR 0x0A"

definition next_line :: "string \<Rightarrow> string" where
  "next_line s = tl (dropWhile (\<lambda>c. \<not> is_eol c) s)"

text \<open>The descriptor from its first parenthesis to the one that closes it, and what follows; \<open>None\<close> when none does.\<close>

fun scan_descriptor :: "nat \<Rightarrow> string \<Rightarrow> string \<Rightarrow> (string \<times> string) option result" where
  "scan_descriptor depth seen [] = Inr None"
| "scan_descriptor depth seen (c # cs) =
     (if code_of c < 0x20 \<and> \<not> isspace c then throw MALFORMED
      else if c = CHR ''('' then
        if depth + 1 > 16 then throw MALFORMED else scan_descriptor (depth + 1) (seen @ [c]) cs
      else if c = CHR '')'' then
        if depth = 1 then Inr (Some (seen @ [c], cs)) else scan_descriptor (depth - 1) (seen @ [c]) cs
      else scan_descriptor depth (seen @ [c]) cs)"

definition name_char :: "char \<Rightarrow> bool" where
  "name_char c \<longleftrightarrow> \<not> isspace c \<and> c \<noteq> CHR ''=''"

text \<open>
  What a line defines: the name it starts with and, after an equals sign, the text that follows. A comment or an empty
  line defines nothing.
\<close>

definition line_definition :: "string \<Rightarrow> (string \<times> string) option" where
  "line_definition s =
     (let line = takeWhile (\<lambda>c. \<not> is_eol c) s;
          cursor = dropWhile isspace line;
          rest = dropWhile isspace (dropWhile name_char cursor)
      in if cursor = [] \<or> hd cursor = CHR ''#'' \<or> hd cursor = CHR '';'' then None
         else if rest = [] \<or> hd rest \<noteq> CHR ''='' then None
         else Some (takeWhile name_char cursor, dropWhile isspace (drop (length line - length rest + 1) s)))"

partial_function (option) find_loop :: "string \<Rightarrow> string \<Rightarrow> string \<Rightarrow> string result option" where
  "find_loop expected found s =
     (if s = [] then Some (if found = '''' then throw MALFORMED else Inr found)
      else case line_definition s of
          None \<Rightarrow> find_loop expected found (next_line s)
        | Some (name, defined) \<Rightarrow>
            if upper name \<noteq> expected then find_loop expected found (next_line s)
            else if \<not> starts (CHR ''('') defined then Some (throw MALFORMED)
            else (case scan_descriptor 0 '''' defined of
                Inl e \<Rightarrow> Some (Inl e)
              | Inr (Some (descriptor, rest)) \<Rightarrow>
                  if found \<noteq> '''' then Some (throw MALFORMED) else find_loop expected descriptor (next_line rest)
              | Inr None \<Rightarrow> if found \<noteq> '''' then find_loop expected found s else Some (throw MALFORMED)))"

definition alias_char :: "char \<Rightarrow> bool" where
  "alias_char c \<longleftrightarrow> isalnum c \<or> c = CHR ''_'' \<or> c = CHR ''-'' \<or> c = CHR ''.''"

definition FindTnsAliasDescriptor :: "string \<Rightarrow> string \<Rightarrow> string result option" where
  "FindTnsAliasDescriptor tnsnames alias_name =
     (if alias_name = '''' \<or> length alias_name > 128 \<or> tnsnames = '''' \<or> length tnsnames > 2 ^ 20 then Some (throw MALFORMED)
      else if \<not> list_all alias_char alias_name then Some (throw MALFORMED)
      else find_loop (upper alias_name) '''' tnsnames)"

section \<open>Lemmas\<close>

lemma next_line_suffix: "\<exists>pre. s = pre @ next_line s"
  unfolding next_line_def
  by (metis append_Nil2 append.assoc append_Cons append_Nil list.collapse list.sel(2) takeWhile_dropWhile_id)

lemma next_line_shorter: "s \<noteq> [] \<Longrightarrow> length (next_line s) < length s"
proof -
  assume "s \<noteq> []"
  moreover have "length (next_line s) = length (dropWhile (\<lambda>c. \<not> is_eol c) s) - 1" by (simp add: next_line_def)
  moreover have "length (dropWhile (\<lambda>c. \<not> is_eol c) s) \<le> length s" by (rule length_dropWhile_le)
  moreover have "0 < length s" using calculation(1) by simp
  ultimately show ?thesis by linarith
qed

lemma scan_parts: "scan_descriptor depth seen s = Inr (Some (d, rest)) \<Longrightarrow> seen @ s = d @ rest"
  by (induction depth seen s rule: scan_descriptor.induct) (auto split: if_splits)

text \<open>
  What a file says, without the search: a position at which a line starts; a line that begins with a name, an equals sign and
  the rest of the file; and a text whose first parenthesis is closed by its last character and not before.
\<close>

definition starts_line :: "string \<Rightarrow> bool" where
  "starts_line before \<longleftrightarrow> before = '''' \<or> is_eol (last before)"

definition line_defines :: "string \<Rightarrow> string \<Rightarrow> string \<Rightarrow> bool" where
  "line_defines t name tail \<longleftrightarrow> (\<exists>blank gap. t = blank @ name @ gap @ CHR ''='' # tail \<and> list_all isspace (blank @ gap) \<and>
     list_all name_char name \<and> \<not> list_ex is_eol (blank @ name @ gap))"

definition parentheses :: "char \<Rightarrow> string \<Rightarrow> nat" where
  "parentheses c s = length (filter (\<lambda>x. x = c) s)"

definition parenthesised :: "string \<Rightarrow> bool" where
  "parenthesised d \<longleftrightarrow> starts (CHR ''('') d \<and> parentheses (CHR ''('') d = parentheses (CHR '')'') d \<and>
     (\<forall>k. 0 < k \<and> k < length d \<longrightarrow> parentheses (CHR '')'') (take k d) < parentheses (CHR ''('') (take k d))"

lemma parentheses_simps [simp]:
  "parentheses c [] = 0" "parentheses c (s @ t) = parentheses c s + parentheses c t"
  "parentheses c (x # s) = (if x = c then 1 else 0) + parentheses c s"
  by (simp_all add: parentheses_def)

text \<open>The scan keeps count of the parentheses that are open.\<close>

lemma scan_open:
  assumes "scan_descriptor depth seen s = Inr (Some (d, rest))" "parentheses (CHR ''('') seen = parentheses (CHR '')'') seen + depth"
    and "0 < depth"
  shows "parentheses (CHR ''('') d = parentheses (CHR '')'') d \<and> last d = CHR '')'' \<and> length seen < length d \<and>
    (\<forall>k. length seen \<le> k \<and> k < length d \<longrightarrow> parentheses (CHR '')'') (take k d) < parentheses (CHR ''('') (take k d))"
  using assms
proof (induction depth seen s rule: scan_descriptor.induct)
  case (2 depth seen c cs)
  have d: "seen @ c # cs = d @ rest" by (rule scan_parts[OF 2(4)])
  have here: "parentheses (CHR '')'') (take (length seen) d) < parentheses (CHR ''('') (take (length seen) d)" if "length seen < length d"
  proof -
    have "take (length seen) d = seen" using arg_cong[OF d, where f = "take (length seen)"] that by simp
    with 2(5,6) show ?thesis by simp
  qed
  have step: ?case
    if "parentheses (CHR ''('') d = parentheses (CHR '')'') d \<and> last d = CHR '')'' \<and> length (seen @ [c]) < length d \<and>
      (\<forall>k. length (seen @ [c]) \<le> k \<and> k < length d \<longrightarrow> parentheses (CHR '')'') (take k d) < parentheses (CHR ''('') (take k d))"
    using that here by (auto simp: le_eq_less_or_eq[of "length seen"] Suc_le_eq[symmetric])
  show ?case
  proof (cases "c = CHR '')'' \<and> depth = 1")
    case True
    then have "d = seen @ [c]" using 2(4) by (auto split: if_splits)
    with True 2(5) show ?thesis using here by (auto simp: less_Suc_eq_le le_less)
  next
    case False
    show ?thesis by (rule step) (use 2 False in \<open>auto split: if_splits\<close>)
  qed
qed simp

lemma scan_parenthesised:
  assumes "scan_descriptor 0 '''' s = Inr (Some (d, rest))" "starts (CHR ''('') s"
  shows "parenthesised d \<and> last d = CHR '')'' \<and> s = d @ rest"
proof -
  obtain cs where s: "s = CHR ''('' # cs" using assms(2) by (cases s) (auto simp: starts_def)
  then have "scan_descriptor 1 ''('' cs = Inr (Some (d, rest))" using assms(1) by (simp split: if_splits)
  from scan_open[OF this] have "parentheses (CHR ''('') d = parentheses (CHR '')'') d \<and> last d = CHR '')'' \<and> 1 < length d \<and>
    (\<forall>k. 1 \<le> k \<and> k < length d \<longrightarrow> parentheses (CHR '')'') (take k d) < parentheses (CHR ''('') (take k d))" by simp
  moreover have "s = d @ rest" using scan_parts[OF assms(1)] by simp
  ultimately show ?thesis using s by (cases d) (auto simp: parenthesised_def starts_def)
qed

lemma line_definition_defines:
  assumes "line_definition s = Some (name, follows)"
  shows "\<exists>space. line_defines s name (space @ follows) \<and> list_all isspace space"
proof -
  let ?line = "takeWhile (\<lambda>c. \<not> is_eol c) s"
  let ?cursor = "dropWhile isspace ?line"
  let ?tail = "dropWhile name_char ?cursor"
  let ?rest = "dropWhile isspace ?tail"
  let ?pre = "takeWhile isspace ?line @ name @ takeWhile isspace ?tail"
  have r: "?rest \<noteq> []" "hd ?rest = CHR ''=''" "name = takeWhile name_char ?cursor"
    "follows = dropWhile isspace (drop (length ?line - length ?rest + 1) s)"
    using assms by (auto simp: line_definition_def Let_def split: if_splits)
  have l: "?line = ?pre @ ?rest" unfolding r(3) by simp
  then have n: "length ?line - length ?rest = length ?pre"
    by (metis add_diff_cancel_right' length_append)
  let ?after = "tl ?rest @ dropWhile (\<lambda>c. \<not> is_eol c) s"
  have "?rest = CHR ''='' # tl ?rest" using r(1,2) by (metis list.collapse)
  moreover have "s = ?line @ dropWhile (\<lambda>c. \<not> is_eol c) s" by simp
  ultimately have s: "s = ?pre @ CHR ''='' # ?after" using l by (metis append.assoc append_Cons)
  have "drop (length ?pre + 1) s = ?after" by (subst s) simp
  then have "follows = dropWhile isspace ?after" using r(4) n by simp
  then have a: "?after = takeWhile isspace ?after @ follows" by simp
  have "set ?pre \<subseteq> set ?line" using l by (metis Un_upper1 set_append)
  moreover have "\<forall>c\<in>set ?line. \<not> is_eol c" by (auto dest: set_takeWhileD)
  ultimately have "\<not> list_ex is_eol ?pre" unfolding list_ex_iff by blast
  moreover have "list_all isspace (takeWhile isspace ?line @ takeWhile isspace ?tail)" "list_all isspace (takeWhile isspace ?after)"
    by (auto simp: list_all_iff dest: set_takeWhileD)
  moreover have "list_all name_char name" unfolding r(3) by (auto simp: list_all_iff dest: set_takeWhileD)
  ultimately show ?thesis
    using s a unfolding line_defines_def by (metis append.assoc)
qed

lemma line_defines_found:
  assumes "line_defines s name tail" "name \<noteq> ''''" "hd name \<noteq> CHR ''#''" "hd name \<noteq> CHR '';''"
  shows "\<exists>follows. line_definition s = Some (name, follows)"
proof -
  obtain blank gap where s: "s = blank @ name @ gap @ CHR ''='' # tail" and c: "list_all isspace (blank @ gap)"
    "list_all name_char name" "\<not> list_ex is_eol (blank @ name @ gap)"
    using assms(1) unfolding line_defines_def by blast
  let ?tail = "takeWhile (\<lambda>c. \<not> is_eol c) tail"
  have line: "takeWhile (\<lambda>c. \<not> is_eol c) s = blank @ name @ gap @ CHR ''='' # ?tail"
    using c(3) unfolding s by (auto simp: takeWhile_append list_ex_iff is_eol_def)
  obtain n ns where name: "name = n # ns" using assms(2) by (cases name) auto
  have "dropWhile isspace (blank @ t) = dropWhile isspace t" for t using c(1) by (induction blank) auto
  then have cursor: "dropWhile isspace (blank @ name @ gap @ CHR ''='' # ?tail) = name @ gap @ CHR ''='' # ?tail"
    using c(2) by (simp add: name name_char_def)
  have stop: "gap @ CHR ''='' # ?tail \<noteq> [] \<and> \<not> name_char (hd (gap @ CHR ''='' # ?tail))"
    using c(1) by (cases gap) (auto simp: name_char_def)
  have "takeWhile name_char (name @ t) = name @ takeWhile name_char t \<and> dropWhile name_char (name @ t) = dropWhile name_char t" for t
    using c(2) by (induction name) auto
  then have word: "takeWhile name_char (name @ gap @ CHR ''='' # ?tail) = name"
    "dropWhile name_char (name @ gap @ CHR ''='' # ?tail) = gap @ CHR ''='' # ?tail"
    using stop by (cases gap; simp)+
  have "dropWhile isspace (gap @ t) = dropWhile isspace t" for t using c(1) by (induction gap) auto
  then have "dropWhile isspace (gap @ CHR ''='' # ?tail) = CHR ''='' # ?tail" by (simp add: isspace_def)
  then show ?thesis
    unfolding line_definition_def Let_def line cursor word using assms(2-4) by simp
qed

text \<open>A text in which no line ends but at its end.\<close>

definition one_line :: "string \<Rightarrow> bool" where
  "one_line pre \<longleftrightarrow> (\<forall>q. q \<noteq> [] \<longrightarrow> strict_prefix q pre \<longrightarrow> \<not> is_eol (last q))"

lemma next_line_pre:
  obtains pre where "s = pre @ next_line s" "one_line pre"
    "next_line s = [] \<or> (pre \<noteq> [] \<and> is_eol (last pre))"
proof -
  let ?line = "takeWhile (\<lambda>c. \<not> is_eol c) s"
  let ?rest = "dropWhile (\<lambda>c. \<not> is_eol c) s"
  have line: "\<not> is_eol (last q)" if "q \<noteq> []" "prefix q ?line" for q
    using that by (metis in_mono last_in_set set_mono_prefix set_takeWhileD)
  show ?thesis
  proof (cases ?rest)
    case Nil
    then have "?line = s" using takeWhile_dropWhile_id[of "\<lambda>c. \<not> is_eol c" s] by simp
    note line' = line[unfolded this]
    moreover have "next_line s = []" unfolding next_line_def Nil by simp
    ultimately show ?thesis
      using that[of s] by (auto simp: strict_prefix_def one_line_def)
  next
    case (Cons c cs)
    then have "is_eol c" by (metis dropWhile_eq_Cons_conv)
    moreover have "s = (?line @ [c]) @ next_line s"
      using Cons by (simp add: next_line_def) (metis takeWhile_dropWhile_id)
    moreover have "one_line (?line @ [c])"
      using line by (auto simp: one_line_def strict_prefix_def)
    ultimately show ?thesis using that[of "?line @ [c]"] by simp
  qed
qed

text \<open>
  A line of the file that defines the alias. The search so far: none was met, or this descriptor was taken from the only one.
\<close>

definition defining_line :: "string \<Rightarrow> string \<Rightarrow> string \<Rightarrow> string \<Rightarrow> bool" where
  "defining_line s expected before line \<longleftrightarrow> s = before @ line \<and> starts_line before \<and>
     (\<exists>name tail. line_defines line name tail \<and> upper name = expected)"

definition none_before :: "string \<Rightarrow> string \<Rightarrow> nat \<Rightarrow> bool" where
  "none_before s expected position \<longleftrightarrow> (\<forall>p t. defining_line s expected p t \<longrightarrow> position \<le> length p)"

definition defined_once :: "string \<Rightarrow> string \<Rightarrow> nat \<Rightarrow> string \<Rightarrow> bool" where
  "defined_once s expected position d \<longleftrightarrow> (\<exists>before line name space rest. s = before @ line \<and> starts_line before \<and>
     line_defines line name (space @ d @ rest) \<and> upper name = expected \<and> list_all isspace space \<and> parenthesised d \<and>
     (\<forall>p t. defining_line s expected p t \<longrightarrow> position \<le> length p \<or> length before \<le> length p \<and> length rest < length t))"

definition search_state :: "string \<Rightarrow> string \<Rightarrow> nat \<Rightarrow> string \<Rightarrow> bool" where
  "search_state s expected position found \<longleftrightarrow>
     (if found = [] then none_before s expected position else defined_once s expected position found)"

lemma no_line_between:
  assumes "s = before @ pre @ tail" "one_line pre"
    and "s = p @ t" "starts_line p" "length before \<le> length p" "length p < length before + length pre"
  shows "p = before"
proof -
  obtain q where p: "p = before @ q"
    using assms(1,3,5) by (metis append_eq_append_conv_if append_take_drop_id)
  have "q @ t = pre @ tail" using assms(1,3) p by simp
  moreover have "length q < length pre" using assms(6) p by simp
  ultimately have "strict_prefix q pre"
    by (auto simp: strict_prefix_def append_eq_append_conv2)
  then have "q = []" using assms(2,4) p by (cases "q = []") (auto simp: starts_line_def one_line_def)
  with p show ?thesis by simp
qed

lemma none_before_mono:
  "\<lbrakk>none_before s expected n; \<And>p t. \<lbrakk>defining_line s expected p t; n \<le> length p\<rbrakk> \<Longrightarrow> m \<le> length p\<rbrakk> \<Longrightarrow> none_before s expected m"
  unfolding none_before_def by blast

lemma defined_once_mono:
  "\<lbrakk>defined_once s expected n d; \<And>p t. \<lbrakk>defining_line s expected p t; n \<le> length p\<rbrakk> \<Longrightarrow> m \<le> length p\<rbrakk> \<Longrightarrow> defined_once s expected m d"
  unfolding defined_once_def by (elim exE conjE) (intro exI conjI, assumption+, blast)

text \<open>A line that does not define the alias can be passed over, and one that does is the first.\<close>

lemma search_state_skip:
  assumes "search_state s expected (length before) found" "s = before @ pre @ tail" "\<not> defining_line s expected before (pre @ tail)"
    and "one_line pre"
  shows "search_state s expected (length (before @ pre)) found"
proof -
  have "length (before @ pre) \<le> length p" if d: "defining_line s expected p t" and l: "length before \<le> length p" for p t
  proof (rule ccontr)
    assume "\<not> length (before @ pre) \<le> length p"
    moreover have "s = p @ t" "starts_line p" using d by (auto simp: defining_line_def)
    ultimately have "p = before" using no_line_between[OF assms(2,4)] l by simp
    with d assms(2,3) show False by (simp add: defining_line_def)
  qed
  note later = this
  show ?thesis
  proof (cases "found = []")
    case True
    then have "none_before s expected (length before)" using assms(1) by (simp add: search_state_def)
    from none_before_mono[OF this later] True show ?thesis by (simp add: search_state_def)
  next
    case False
    then have "defined_once s expected (length before) found" using assms(1) by (simp add: search_state_def)
    from defined_once_mono[OF this later] False show ?thesis by (simp add: search_state_def)
  qed
qed

lemma search_state_found:
  assumes "none_before s expected (length before)" "s = before @ line" "starts_line before"
    and "line_defines line name (space @ d @ pre @ tail)" "upper name = expected" "list_all isspace space" "parenthesised d" "last d = CHR '')''"
    and "one_line pre"
  shows "search_state s expected (length s - length tail) d"
proof -
  have d: "d \<noteq> []" using assms(7) by (auto simp: parenthesised_def starts_def)
  obtain upto where upto: "s = (upto @ d) @ pre @ tail"
    using assms(2,4) unfolding line_defines_def by (metis append.assoc append_Cons)
  have "length s - length tail \<le> length p \<or> length before \<le> length p \<and> length (pre @ tail) < length t"
    if line: "defining_line s expected p t" for p t
  proof (rule ccontr)
    assume no: "\<not> ?thesis"
    have p: "s = p @ t" "starts_line p" using line by (auto simp: defining_line_def)
    have "length before \<le> length p" using assms(1) line by (auto simp: none_before_def)
    with no have "length t \<le> length (pre @ tail)" "length p < length s - length tail" by simp_all
    then have "length (upto @ d) \<le> length p" "length p < length (upto @ d) + length pre"
      using arg_cong[OF upto, where f = length] arg_cong[OF p(1), where f = length] by simp_all
    from no_line_between[OF upto assms(9) p this] p(2) d assms(8) show False by (simp add: starts_line_def is_eol_def)
  qed
  then have "defined_once s expected (length s - length tail) d"
    unfolding defined_once_def using assms(2-7)
    by (intro exI[of _ before] exI[of _ line] exI[of _ name] exI[of _ space] exI[of _ "pre @ tail"] conjI) simp_all
  with d show ?thesis by (simp add: search_state_def)
qed

lemma mark_upper: "toupper CHR ''#'' = CHR ''#''" "toupper CHR '';'' = CHR '';''"
  by (simp_all add: toupper_def islower_def)

lemma alias_upper: "alias_char c \<Longrightarrow> toupper c \<noteq> CHR ''#'' \<and> toupper c \<noteq> CHR '';''"
proof (cases "islower c")
  case True
  then have "isalnum (toupper c)" by (auto simp: toupper_def islower_def isalnum_def isalpha_def isupper_def)
  then show ?thesis by (auto simp: isalnum_def isalpha_def isupper_def islower_def isdigit_def)
next
  case False
  moreover assume "alias_char c"
  ultimately show ?thesis by (auto simp: toupper_def alias_char_def isalnum_def isalpha_def isupper_def isdigit_def)
qed

text \<open>
  A comment has no name that an alias could have, since an alias consists of letters, digits, \<^verbatim>\<open>_\<close>, \<^verbatim>\<open>-\<close> and
  \<^verbatim>\<open>.\<close>: the search's own test for a comment sign saves work and does not change its result.
\<close>

lemma alias_no_comment:
  assumes "upper name = upper alias_name" "alias_name \<noteq> []" "list_all alias_char alias_name"
  shows "name \<noteq> [] \<and> hd name \<noteq> CHR ''#'' \<and> hd name \<noteq> CHR '';''"
proof -
  obtain c cs where name: "name = c # cs" "toupper c = toupper (hd alias_name)"
    using assms(1,2) by (cases name; cases alias_name) (auto simp: upper_def)
  have "alias_char (hd alias_name)" using assms(2,3) by (cases alias_name) auto
  then have "c \<noteq> CHR ''#'' \<and> c \<noteq> CHR '';''"
    using name(2) alias_upper by (metis mark_upper)
  with name(1) show ?thesis by simp
qed

lemma defines_nothing:
  assumes "line_definition line = None \<or> line_definition line = Some (name, follows) \<and> upper name \<noteq> upper alias_name"
    and "alias_name \<noteq> []" "list_all alias_char alias_name"
  shows "\<not> defining_line s (upper alias_name) before line"
proof
  assume "defining_line s (upper alias_name) before line"
  then obtain name' tail where n: "line_defines line name' tail" "upper name' = upper alias_name" by (auto simp: defining_line_def)
  with line_defines_found[OF n(1)] alias_no_comment[OF n(2) assms(2,3)] assms(1) show False by auto
qed

lemma find_loop_found:
  assumes "find_loop expected found s = Some r" and letters: "alias_name \<noteq> []" "list_all alias_char alias_name"
  shows "\<forall>d before. r = Inr d \<longrightarrow> s\<^sub>0 = before @ s \<longrightarrow> (s = [] \<or> starts_line before) \<longrightarrow> expected = upper alias_name \<longrightarrow>
    search_state s\<^sub>0 expected (length before) found \<longrightarrow> d \<noteq> [] \<and> search_state s\<^sub>0 expected (length s\<^sub>0) d"
proof (rule find_loop.raw_induct[OF _ assms(1), where P = "\<lambda>expected found s r. \<forall>d before. r = Inr d \<longrightarrow> s\<^sub>0 = before @ s \<longrightarrow>
    (s = [] \<or> starts_line before) \<longrightarrow> expected = upper alias_name \<longrightarrow> search_state s\<^sub>0 expected (length before) found \<longrightarrow>
    d \<noteq> [] \<and> search_state s\<^sub>0 expected (length s\<^sub>0) d"])
  fix find_loop expected found s r
  assume IH: "\<And>e f t y. find_loop e f t = Some y \<Longrightarrow> \<forall>d before. y = Inr d \<longrightarrow> s\<^sub>0 = before @ t \<longrightarrow>
      (t = [] \<or> starts_line before) \<longrightarrow> e = upper alias_name \<longrightarrow> search_state s\<^sub>0 e (length before) f \<longrightarrow>
      d \<noteq> [] \<and> search_state s\<^sub>0 e (length s\<^sub>0) d"
    and body: "(if s = [] then Some (if found = '''' then throw MALFORMED else Inr found)
      else case line_definition s of
          None \<Rightarrow> find_loop expected found (next_line s)
        | Some (name, defined) \<Rightarrow>
            if upper name \<noteq> expected then find_loop expected found (next_line s)
            else if \<not> starts (CHR ''('') defined then Some (throw MALFORMED)
            else (case scan_descriptor 0 '''' defined of
                Inl e \<Rightarrow> Some (Inl e)
              | Inr (Some (descriptor, rest)) \<Rightarrow>
                  if found \<noteq> '''' then Some (throw MALFORMED) else find_loop expected descriptor (next_line rest)
              | Inr None \<Rightarrow> if found \<noteq> '''' then find_loop expected found s else Some (throw MALFORMED))) = Some r"
  show "\<forall>d before. r = Inr d \<longrightarrow> s\<^sub>0 = before @ s \<longrightarrow> (s = [] \<or> starts_line before) \<longrightarrow> expected = upper alias_name \<longrightarrow>
      search_state s\<^sub>0 expected (length before) found \<longrightarrow> d \<noteq> [] \<and> search_state s\<^sub>0 expected (length s\<^sub>0) d"
  proof (intro allI impI)
    fix d before
    assume r: "r = Inr d" and s0: "s\<^sub>0 = before @ s" and b: "s = [] \<or> starts_line before" and e: "expected = upper alias_name"
      and state: "search_state s\<^sub>0 expected (length before) found"
    have passed: "d \<noteq> [] \<and> search_state s\<^sub>0 expected (length s\<^sub>0) d"
      if "find_loop expected found (next_line s) = Some r"
        and "line_definition s = None \<or> line_definition s = Some (name, follows) \<and> upper name \<noteq> expected" for name follows
    proof -
      obtain pre where pre: "s = pre @ next_line s" "one_line pre"
        "next_line s = [] \<or> (pre \<noteq> [] \<and> is_eol (last pre))" by (rule next_line_pre[of s])
      have no: "\<not> defining_line s\<^sub>0 expected before (pre @ next_line s)"
        unfolding pre(1)[symmetric] e by (rule defines_nothing[OF that(2)[unfolded e] letters])
      have s0': "s\<^sub>0 = before @ pre @ next_line s" using s0 pre(1) by simp
      have "next_line s = [] \<or> starts_line (before @ pre)" using pre(3) by (auto simp: starts_line_def)
      moreover have "search_state s\<^sub>0 expected (length (before @ pre)) found" by (rule search_state_skip[OF state s0' no pre(2)])
      moreover have "s\<^sub>0 = (before @ pre) @ next_line s" using s0' by simp
      ultimately show ?thesis using IH[OF that(1)] r e by blast
    qed
    show "d \<noteq> [] \<and> search_state s\<^sub>0 expected (length s\<^sub>0) d"
    proof (cases "s = [] \<or> (\<forall>name follows. line_definition s = Some (name, follows) \<longrightarrow> upper name \<noteq> expected)")
      case True
      with body r state s0 passed show ?thesis by (cases "line_definition s") (auto split: if_splits)
    next
      case False
      then obtain name follows where ld: "line_definition s = Some (name, follows)" "upper name = expected" "s \<noteq> []" by blast
      show ?thesis
      proof (cases "scan_descriptor 0 [] follows")
        case (Inr y)
        show ?thesis
        proof (cases y)
          case None
          with body ld Inr have "find_loop expected found s = Some (Inr d)" using r by (auto split: if_splits)
          from IH[OF this] s0 b e state show ?thesis by blast
        next
          case (Some z)
          obtain descriptor rest where z: "z = (descriptor, rest)" by fastforce
          have f: "found = []" "starts (CHR ''('') follows" "find_loop expected descriptor (next_line rest) = Some r"
            using body r ld Inr Some z by (auto split: if_splits)
          have sc: "parenthesised descriptor" "last descriptor = CHR '')''" "follows = descriptor @ rest"
            using scan_parenthesised[OF _ f(2)] Inr Some z by auto
          obtain pre where pre: "rest = pre @ next_line rest" "one_line pre"
            "next_line rest = [] \<or> (pre \<noteq> [] \<and> is_eol (last pre))" by (rule next_line_pre[of rest])
          obtain space where space: "line_defines s name (space @ descriptor @ pre @ next_line rest)" "list_all isspace space"
            using line_definition_defines[OF ld(1)] sc(3) pre(1) by metis
          have "none_before s\<^sub>0 expected (length before)" using state f(1) by (simp add: search_state_def)
          moreover have "starts_line before" using b ld(3) by simp
          ultimately have found': "search_state s\<^sub>0 expected (length s\<^sub>0 - length (next_line rest)) descriptor"
            using search_state_found[OF _ s0 _ space(1) ld(2) space(2) sc(1,2) pre(2)] by blast
          obtain upto where "s = upto @ pre @ next_line rest"
            using space(1) unfolding line_defines_def by (metis append.assoc append_Cons)
          then have up: "s\<^sub>0 = (before @ upto @ pre) @ next_line rest" using s0 by simp
          then have "search_state s\<^sub>0 expected (length (before @ upto @ pre)) descriptor" using found' by simp
          moreover have "next_line rest = [] \<or> starts_line (before @ upto @ pre)"
            using pre(3) by (auto simp: starts_line_def)
          ultimately show ?thesis
            using IH[OF f(3)] r e up by blast
        qed
      qed (use body r ld in \<open>auto split: if_splits\<close>)
    qed
  qed
qed

lemma defined_suffix:
  assumes "line_definition s = Some (name, follows)"
  shows "\<exists>pre. s = pre @ follows"
  using line_definition_defines[OF assms] unfolding line_defines_def by (metis append.assoc append_Cons)

lemma find_loop_ends:
  assumes closed: "\<And>pre t. \<lbrakk>s\<^sub>0 = pre @ t; starts (CHR ''('') t\<rbrakk> \<Longrightarrow> scan_descriptor 0 '''' t \<noteq> Inr None"
    and "s\<^sub>0 = before @ s"
  shows "\<exists>r. find_loop expected found s = Some r"
  using assms(2)
proof (induction "length s" arbitrary: s before found rule: less_induct)
  case less
  have next_ends: "\<exists>r. find_loop expected found (next_line s) = Some r" if "s \<noteq> []"
    using less(1)[OF next_line_shorter[OF that]] next_line_suffix[of s] less(2) by (metis append.assoc)
  show ?case
  proof (cases "line_definition s")
    case None
    then show ?thesis using next_ends by (subst find_loop.simps) auto
  next
    case (Some x)
    obtain name follows where x: "x = (name, follows)" by fastforce
    note ld = Some[unfolded x]
    obtain pre where pre: "s = pre @ follows" using defined_suffix[OF ld] by blast
    show ?thesis
    proof (cases "s = [] \<or> upper name \<noteq> expected \<or> \<not> starts (CHR ''('') follows")
      case True
      then show ?thesis using next_ends ld by (subst find_loop.simps) auto
    next
      case False
      have "scan_descriptor 0 '''' follows \<noteq> Inr None"
        using closed[of "before @ pre" follows] less(2) pre False by simp
      moreover have "\<exists>r. find_loop expected d (next_line rest) = Some r"
        if "scan_descriptor 0 '''' follows = Inr (Some (d, rest))" for d rest
      proof -
        have f: "follows = d @ rest" using scan_parts[OF that] by simp
        have n: "rest \<noteq> [] \<or> next_line rest = []" by (auto simp: next_line_def)
        have "length (next_line rest) < length s"
          using next_line_shorter[of rest] n pre f False by (cases "rest = []") auto
        moreover obtain q where "rest = q @ next_line rest" using next_line_suffix by blast
        ultimately show ?thesis
          using less(1)[of "next_line rest" "before @ pre @ d @ q" d] less(2) pre f by (metis append.assoc)
      qed
      ultimately show ?thesis
        using False ld by (subst find_loop.simps) (auto split: sum.split option.split)
    qed
  qed
qed

section \<open>Properties\<close>

text \<open>
  C38. The alias that is found is the one definition of it in the file. There is a line of the file that starts, after blanks, with
  the alias in any case, then an equals sign, and the descriptor returned is what follows, from a parenthesis to the one that
  closes it. No other line outside that descriptor defines the alias: neither one before it nor one that starts after its end. A
  name that only ends in the alias, or stands behind a comment sign, is not the start of such a line. (A comment sign is no letter of an
  alias, so the code's own test for one is redundant, by \<open>alias_no_comment\<close>.)
\<close>

theorem alias_found:
  assumes "FindTnsAliasDescriptor tnsnames alias_name = Some (Inr d)"
  shows "\<exists>before line name space rest. tnsnames = before @ line \<and> starts_line before \<and>
    line_defines line name (space @ d @ rest) \<and> upper name = upper alias_name \<and> list_all isspace space \<and> parenthesised d \<and>
    (\<forall>p t other follows. tnsnames = p @ t \<and> starts_line p \<and> line_defines t other follows \<and> upper other = upper alias_name \<longrightarrow>
       length before \<le> length p \<and> length rest < length t)"
proof -
  have a: "alias_name \<noteq> []" "list_all alias_char alias_name" "find_loop (upper alias_name) [] tnsnames = Some (Inr d)"
    using assms by (auto simp: FindTnsAliasDescriptor_def split: if_splits)
  have "search_state tnsnames (upper alias_name) 0 []" "starts_line []"
    by (simp_all add: search_state_def none_before_def starts_line_def)
  with find_loop_found[OF a(3,1,2), of tnsnames]
  have "defined_once tnsnames (upper alias_name) (length tnsnames) d"
    by (auto simp: search_state_def split: if_splits)
  then obtain before line name space rest where d: "tnsnames = before @ line" "starts_line before"
    "line_defines line name (space @ d @ rest)" "upper name = upper alias_name" "list_all isspace space" "parenthesised d"
    and sole: "\<And>p t. defining_line tnsnames (upper alias_name) p t \<Longrightarrow>
      length tnsnames \<le> length p \<or> length before \<le> length p \<and> length rest < length t"
    unfolding defined_once_def by blast
  have "length before \<le> length p \<and> length rest < length t"
    if "tnsnames = p @ t" "starts_line p" "line_defines t other follows" "upper other = upper alias_name" for p t other follows
  proof -
    have "0 < length t" using that(3) by (auto simp: line_defines_def)
    then show ?thesis using sole[of p t] that unfolding defining_line_def by auto
  qed
  with d show ?thesis by blast
qed

text \<open>
  C39. The search for an alias ends on every file in which each parenthesis that is opened is closed again or is met by
  an error first, whatever the alias and however often it is defined.
\<close>

theorem alias_search_ends:
  assumes "\<And>pre t. \<lbrakk>tnsnames = pre @ t; starts (CHR ''('') t\<rbrakk> \<Longrightarrow> scan_descriptor 0 '''' t \<noteq> Inr None"
  shows "\<exists>r. FindTnsAliasDescriptor tnsnames alias_name = Some r"
  using find_loop_ends[of tnsnames "[]" tnsnames] assms by (auto simp: FindTnsAliasDescriptor_def)

definition two_lines :: string where
  "two_lines = ''# names'' @ [CHR 0x0A] @ ''Db = (D=(x))''"

lemma two_lines_eval:
  "line_definition two_lines = None" "next_line two_lines = ''Db = (D=(x))''"
  "line_definition ''Db = (D=(x))'' = Some (''Db'', ''(D=(x))'')"
  "scan_descriptor 0 '''' ''(D=(x))'' = Inr (Some (''(D=(x))'', ''''))" "upper ''Db'' = ''DB''" "upper ''db'' = ''DB''"
  by code_simp+

lemma two_lines_found: "FindTnsAliasDescriptor two_lines ''db'' = Some (Inr ''(D=(x))'')"
proof -
  have "find_loop ''DB'' ''(D=(x))'' [] = Some (Inr ''(D=(x))'')" by (subst find_loop.simps) simp
  then have "find_loop ''DB'' '''' ''Db = (D=(x))'' = Some (Inr ''(D=(x))'')"
    by (subst find_loop.simps) (simp add: two_lines_eval starts_def next_line_def)
  then have "find_loop ''DB'' '''' two_lines = Some (Inr ''(D=(x))'')"
    by (subst find_loop.simps) (simp add: two_lines_eval, simp add: two_lines_def)
  then show ?thesis
    by (simp add: FindTnsAliasDescriptor_def two_lines_eval alias_char_def isalnum_def isalpha_def isupper_def islower_def)
      (simp add: two_lines_def)
qed

lemma alias_found_witness:
  "\<exists>before line name space rest. two_lines = before @ line \<and> starts_line before \<and>
    line_defines line name (space @ ''(D=(x))'' @ rest) \<and> upper name = ''DB'' \<and> list_all isspace space"
  using alias_found[OF two_lines_found] unfolding two_lines_eval(6) by blast

lemma alias_search_ends_witness: "\<exists>r. FindTnsAliasDescriptor ''x=()'' ''db'' = Some r"
proof (rule alias_search_ends)
  fix pre t :: string
  assume s: "''x=()'' = pre @ t" and t: "starts (CHR ''('') t"
  then have "t = ''()''" by (auto simp: Cons_eq_append_conv starts_def)
  then show "scan_descriptor 0 '''' t \<noteq> Inr None" by simp
qed

text \<open>
  It does not end when a second definition of the alias is left open: the loop starts over at the same line.
\<close>

lemma alias_search_stuck: "FindTnsAliasDescriptor (''a=()'' @ [CHR 0x0A] @ ''a=('') ''a'' = None"
proof -
  have line: "line_definition ''a=('' = Some (''a'', ''('')" "scan_descriptor 0 '''' ''('' = Inr None" "upper ''a'' = ''A''"
    by code_simp+
  have stuck: "find_loop ''A'' ''()'' ''a=('' = None"
  proof (rule ccontr)
    assume "find_loop ''A'' ''()'' ''a=('' \<noteq> None"
    then obtain r where "find_loop ''A'' ''()'' ''a=('' = Some r" by blast
    then have "\<not> (''A'' = ''A'' \<and> ''()'' = ''()'' \<and> ''a=('' = ''a=('')"
      by (rule find_loop.raw_induct[rotated, where P = "\<lambda>e f s r. \<not> (e = ''A'' \<and> f = ''()'' \<and> s = ''a=('')"])
        (auto simp: line starts_def, blast)
    then show False by simp
  qed
  have line1: "line_definition (''a=()'' @ [CHR 0x0A] @ ''a=('') = Some (''a'', ''()'' @ [CHR 0x0A] @ ''a=('')"
    "scan_descriptor 0 '''' (''()'' @ [CHR 0x0A] @ ''a=('') = Inr (Some (''()'', [CHR 0x0A] @ ''a=(''))"
    "next_line ([CHR 0x0A] @ ''a=('') = ''a=(''"
    by code_simp+
  have "find_loop ''A'' '''' (''a=()'' @ [CHR 0x0A] @ ''a=('') = None"
    by (subst find_loop.simps) (use stuck line1 in \<open>simp add: line(3) starts_def\<close>)
  then show ?thesis
    by (simp add: FindTnsAliasDescriptor_def line alias_char_def isalnum_def isalpha_def islower_def)
qed

end
