(* ===== verification/Easy_Connect.thy ===== *)
theory Easy_Connect
  imports Descriptor_Parser
begin

text \<open>
  The Easy Connect strings of \<^verbatim>\<open>src/descriptor_parser.cpp\<close>, \<^verbatim>\<open>[tcp[s]://]host[:port],.../service[:server][/instance][?key=value&...]\<close>,
  which are rewritten into a descriptor for the one descriptor parser.
\<close>

section \<open>Cutting strings\<close>

definition lower :: "string \<Rightarrow> string" where
  "lower = map tolower"

text \<open>The text before the first occurrence of a pattern and the text after it.\<close>

fun cut :: "string \<Rightarrow> string \<Rightarrow> (string \<times> string) option" where
  "cut pattern [] = None"
| "cut pattern (c # cs) =
     (if take (length pattern) (c # cs) = pattern then Some ([], drop (length pattern) (c # cs))
      else map_option (apfst ((#) c)) (cut pattern cs))"

text \<open>The pieces between the separators; there is always one more than there are separators.\<close>

fun split_on :: "char \<Rightarrow> string \<Rightarrow> string list" where
  "split_on separator [] = [[]]"
| "split_on separator (c # cs) =
     (if c = separator then [] # split_on separator cs
      else case split_on separator cs of [] \<Rightarrow> [[c]] | piece # pieces \<Rightarrow> (c # piece) # pieces)"

section \<open>The parts of an Easy Connect string\<close>

definition IsEasyConnectWordChar :: "string \<Rightarrow> char \<Rightarrow> bool" where
  "IsEasyConnectWordChar extra c \<longleftrightarrow> isalnum c \<or> c \<in> set extra"

definition RequireEasyConnectWord :: "string \<Rightarrow> string \<Rightarrow> unit result" where
  "RequireEasyConnectWord word extra =
     (if word = '''' \<or> length word > 255 \<or> \<not> list_all (IsEasyConnectWordChar extra) word then throw MALFORMED else Inr ())"

definition IsEasyConnectString :: "string \<Rightarrow> bool" where
  "IsEasyConnectString s \<longleftrightarrow> s \<noteq> [] \<and> hd s \<noteq> CHR ''('' \<and> (CHR ''/'' \<in> set s \<or> CHR '':'' \<in> set s)"

text \<open>The protocol and what follows it.\<close>

definition easy_scheme :: "string \<Rightarrow> (string \<times> string) result" where
  "easy_scheme s =
     (case cut ''://'' s of
        Some (scheme, rest) \<Rightarrow>
          if lower scheme \<noteq> ''tcp'' \<and> lower scheme \<noteq> ''tcps'' then throw UNSUPPORTED
          else Inr (if lower scheme = ''tcps'' then ''TCPS'' else ''TCP'', rest)
      | None \<Rightarrow> Inr (''TCP'', if take 2 s = ''//'' then drop 2 s else s))"

text \<open>Service, instance and server type.\<close>

definition easy_service :: "string \<Rightarrow> (string \<times> string \<times> string) result" where
  "easy_service s =
     andthen (case cut ''/'' s of
         None \<Rightarrow> Inr (s, '''')
       | Some (service, instance_part) \<Rightarrow> andthen (RequireEasyConnectWord instance_part ''_.-$#'') (\<lambda>_. Inr (service, instance_part)))
       (\<lambda>(service, instance_part).
     andthen (case cut '':'' service of
         None \<Rightarrow> Inr (service, '''')
       | Some (service, server) \<Rightarrow> andthen (RequireEasyConnectWord server '''') (\<lambda>_. Inr (service, server)))
       (\<lambda>(service, server).
     andthen (RequireEasyConnectWord service ''_.-$#'') (\<lambda>_. Inr (service, instance_part, server))))"

definition easy_host :: "string \<Rightarrow> (string \<times> string) result" where
  "easy_host entry =
     andthen
       (if starts (CHR ''['') entry then
          (case cut '']'' entry of
             None \<Rightarrow> throw MALFORMED
           | Some (before, rest) \<Rightarrow>
               andthen (RequireEasyConnectWord (tl before) '':.'') (\<lambda>_.
                 if rest = '''' then Inr (tl before, ''1521'')
                 else if hd rest \<noteq> CHR '':'' then throw MALFORMED
                 else Inr (tl before, tl rest)))
        else
          (let (name, number) = (case cut '':'' entry of None \<Rightarrow> (entry, ''1521'') | Some (name, number) \<Rightarrow> (name, number))
           in andthen (RequireEasyConnectWord name ''_.-'') (\<lambda>_. Inr (name, number))))
       (\<lambda>(name, number).
     andthen (RequireEasyConnectWord number '''') (\<lambda>_.
       if \<not> list_all isdigit number then throw MALFORMED else Inr (name, number)))"

definition address_text :: "string \<Rightarrow> string \<times> string \<Rightarrow> string" where
  "address_text proto = (\<lambda>(name, number). ''(ADDRESS=(PROTOCOL='' @ proto @ '')(HOST='' @ name @ '')(PORT='' @ number @ ''))'')"

fun easy_addresses :: "string \<Rightarrow> nat \<Rightarrow> string list \<Rightarrow> string result" where
  "easy_addresses proto n [] = Inr ''''"
| "easy_addresses proto n (entry # entries) =
     (if n + 1 > MAX_CONNECT_ADDRESSES then throw LIMIT_EXCEEDED
      else andthen (easy_host entry) (\<lambda>a.
           andthen (easy_addresses proto (n + 1) entries) (\<lambda>addresses. Inr (address_text proto a @ addresses))))"

definition description_keys :: "string list" where
  "description_keys = [''transport_connect_timeout'', ''connect_timeout'', ''retry_count'', ''retry_delay'', ''failover'',
     ''load_balance'', ''expire_time'', ''sdu'']"

definition unquoted :: "string \<Rightarrow> string" where
  "unquoted s = (if length s \<ge> 2 \<and> hd s = CHR 0x22 \<and> last s = CHR 0x22 then butlast (tl s) else s)"

text \<open>A parameter becomes a key of the description or a setting of its security.\<close>

definition easy_parameter :: "string \<Rightarrow> string \<times> string \<Rightarrow> (string \<times> string) result" where
  "easy_parameter pair = (\<lambda>(keys, security).
     case cut ''='' pair of
       None \<Rightarrow> throw MALFORMED
     | Some (name, given) \<Rightarrow>
         if name = '''' then throw MALFORMED
         else
           let k = lower name;
               v = unquoted given
           in if k \<in> set description_keys then
                andthen (RequireEasyConnectWord v '''') (\<lambda>_. Inr (keys @ element (upper k) v, security))
              else if k = ''ssl_server_dn_match'' then
                andthen (RequireEasyConnectWord v '''') (\<lambda>_. Inr (keys, security @ element ''SSL_SERVER_DN_MATCH'' v))
              else if k = ''ssl_server_cert_dn'' then
                if v = '''' \<or> length v > 1024 \<or>
                   list_ex (\<lambda>c. c \<in> {CHR 0x22, CHR ''('', CHR '')'', CHR 0x5C, CHR ''%''}) v then throw MALFORMED
                else Inr (keys, security @ element ''SSL_SERVER_CERT_DN'' (CHR 0x22 # v @ [CHR 0x22]))
              else throw UNSUPPORTED)"

definition easy_descriptor :: "string \<Rightarrow> string \<Rightarrow> string \<Rightarrow> string \<Rightarrow> string \<Rightarrow> string \<Rightarrow> string" where
  "easy_descriptor keys hosts service server instance_part security =
     ''(DESCRIPTION='' @ keys @ hosts @
     ''(CONNECT_DATA=(SERVICE_NAME='' @ service @ '')'' @
     (if server \<noteq> '''' then ''(SERVER='' @ server @ '')'' else '''') @
     (if instance_part \<noteq> '''' then ''(INSTANCE_NAME='' @ instance_part @ '')'' else '''') @ '')'' @
     (if security = '''' then '''' else ''(SECURITY='' @ security @ '')'') @ '')''"

definition easy_parameters :: "string \<Rightarrow> (string \<times> string) result" where
  "easy_parameters parameters =
     each easy_parameter (if parameters = '''' then [] else split_on (CHR ''&'') parameters) ('''', '''')"

definition easy_body :: "string \<Rightarrow> string \<Rightarrow> string \<Rightarrow> string result" where
  "easy_body proto rest parameters =
     (case cut ''/'' rest of
        None \<Rightarrow> throw MALFORMED
      | Some (host_part, service_part) \<Rightarrow>
          andthen (easy_service service_part) (\<lambda>(service, instance_part, server).
          andthen (easy_addresses proto 0 (split_on (CHR '','') host_part)) (\<lambda>addresses.
          andthen (easy_parameters parameters) (\<lambda>(keys, security).
          Inr (easy_descriptor keys addresses service server instance_part security)))))"

definition EasyConnectToDescriptor :: "string \<Rightarrow> string result" where
  "EasyConnectToDescriptor input =
     (if input = '''' \<or> length input > 4096 then throw MALFORMED
      else if list_ex (\<lambda>c. code_of c \<le> 0x20 \<or> code_of c > 0x7e) input then throw MALFORMED
      else andthen (easy_scheme input) (\<lambda>(proto, rest).
        case cut ''?'' rest of
          None \<Rightarrow> easy_body proto rest ''''
        | Some (rest, parameters) \<Rightarrow> easy_body proto rest parameters))"

section \<open>What a string means\<close>

text \<open>
  The grammar, independently of how it is read: words of letters, digits and the given characters, the scheme, a host with its
  port, and a parameter with the node it becomes.
\<close>

fun joined :: "string \<Rightarrow> string list \<Rightarrow> string" where
  "joined separator [] = ''''"
| "joined separator [p] = p"
| "joined separator (p # q # ps) = p @ separator @ joined separator (q # ps)"

definition word :: "string \<Rightarrow> string \<Rightarrow> bool" where
  "word extra w \<longleftrightarrow> w \<noteq> '''' \<and> length w \<le> 255 \<and> (\<forall>c\<in>set w. isalnum c \<or> c \<in> set extra)"

definition scheme_means :: "string \<Rightarrow> string \<Rightarrow> bool" where
  "scheme_means scheme proto \<longleftrightarrow>
     scheme \<in> {'''', ''//''} \<and> proto = ''TCP'' \<or>
     (\<exists>s. scheme = s @ ''://'' \<and> (lower s = ''tcp'' \<and> proto = ''TCP'' \<or> lower s = ''tcps'' \<and> proto = ''TCPS''))"

definition host_means :: "string \<Rightarrow> string \<times> string \<Rightarrow> bool" where
  "host_means entry = (\<lambda>(name, number).
     (\<exists>written. (word ''_.-'' name \<and> entry = name @ written \<or> word '':.'' name \<and> entry = ''['' @ name @ '']'' @ written) \<and>
       (written = '''' \<and> number = ''1521'' \<or> written = '':'' @ number)) \<and>
     word '''' number \<and> (\<forall>c\<in>set number. isdigit c))"

definition parameter_means :: "string \<Rightarrow> node \<Rightarrow> bool" where
  "parameter_means pair n \<longleftrightarrow>
     CHR ''&'' \<notin> set pair \<and>
     (\<exists>name v. CHR ''='' \<notin> set name \<and> CHR 0x22 \<notin> set v \<and> n = leaf (upper name) v \<and>
        (pair = name @ ''='' @ v \<or> pair = name @ ''='' @ [CHR 0x22] @ v @ [CHR 0x22]))"

text \<open>The whole string: scheme, hosts, service, server type, instance and parameters. What is left out is empty.\<close>

definition easy_means :: "string \<Rightarrow> string \<Rightarrow> (string \<times> string) list \<Rightarrow> string \<Rightarrow> string \<Rightarrow> string \<Rightarrow> node list \<Rightarrow> bool" where
  "easy_means input proto hosts service server instance_part nodes \<longleftrightarrow>
     (\<exists>scheme entries pairs parameters.
        input = scheme @ joined '','' entries @ ''/'' @ service @ (if server = '''' then '''' else '':'' @ server) @
          (if instance_part = '''' then '''' else ''/'' @ instance_part) @ parameters \<and>
        scheme_means scheme proto \<and> list_all2 host_means entries hosts \<and>
        word ''_.-$#'' service \<and> (server = '''' \<or> word '''' server) \<and> (instance_part = '''' \<or> word ''_.-$#'' instance_part) \<and>
        (parameters = '''' \<and> pairs = [] \<or> parameters = ''?'' @ joined ''&'' pairs) \<and>
        list_all2 parameter_means pairs nodes)"

section \<open>Lemmas\<close>

lemma RequireEasyConnectWord_word: "RequireEasyConnectWord w extra = Inr () \<longleftrightarrow> word extra w"
  by (auto simp: RequireEasyConnectWord_def word_def IsEasyConnectWordChar_def list_all_iff)

text \<open>Texts of a list of nodes with these keys, and how long they are at most.\<close>

definition texts :: "value_grammar \<Rightarrow> nat \<Rightarrow> node list \<Rightarrow> string \<Rightarrow> bool" where
  "texts g d ns s \<longleftrightarrow> (\<exists>ss. list_all2 (writes g d) ns ss \<and> s = concat ss)"

lemma texts_Nil [simp]: "texts g d [] s \<longleftrightarrow> s = ''''"
  by (auto simp: texts_def)

lemma texts_append: "\<lbrakk>texts g d ns s; texts g d ms t\<rbrakk> \<Longrightarrow> texts g d (ns @ ms) (s @ t)"
  unfolding texts_def by (metis concat_append list_all2_appendI)

lemma texts_one: "writes g d n s \<Longrightarrow> texts g d [n] s"
  unfolding texts_def by (intro exI[of _ "[s]"]) simp

lemma texts_branch: "\<lbrakk>d \<le> 16; plain k; upper k = k; ns \<noteq> []; texts g (Suc d) ns s\<rbrakk> \<Longrightarrow> writes g d (Node k '''' ns) (element k s)"
  unfolding texts_def using writes_branch' by blast

lemma texts_leaf: "\<lbrakk>d \<le> 16; plain k; upper k = k; plain v\<rbrakk> \<Longrightarrow> texts g d [leaf k v] (element k v)"
  by (intro texts_one writes_leaf')

lemma word_plain:
  assumes "RequireEasyConnectWord w extra = Inr ()" "set extra \<subseteq> {CHR ''_'', CHR ''.'', CHR ''-'', CHR ''$'', CHR ''#'', CHR '':''}"
  shows "plain w" "length w \<le> 255"
proof -
  have w: "w \<noteq> ''''" "length w \<le> 255" "\<And>c. c \<in> set w \<Longrightarrow> IsEasyConnectWordChar extra c"
    using assms(1) by (auto simp: RequireEasyConnectWord_def list_all_iff split: if_splits)
  have "plain_char c \<and> c \<noteq> CHR 0x22" if "c \<in> set w" for c
    using w(3)[OF that] assms(2) alnum_plain[of c] by (auto simp: IsEasyConnectWordChar_def plain_char_def)
  with w(1,2) show "plain w" "length w \<le> 255" by (auto intro: plainI)
qed

lemma cut_parts: "\<lbrakk>cut p s = Some (a, b); p \<noteq> []\<rbrakk> \<Longrightarrow> s = a @ p @ b"
proof (induction s arbitrary: a)
  case (Cons c s)
  then show ?case by (auto split: if_splits) (metis append_take_drop_id)
qed simp

lemma split_on_nonempty: "split_on c s \<noteq> []"
  by (cases s) (auto split: list.split)

lemma cut_first: "cut [c] s = Some (a, b) \<Longrightarrow> c \<notin> set a"
  by (induction s arbitrary: a) (auto split: if_splits)

lemma split_on_joined: "joined [c] (split_on c s) = s"
proof (induction s)
  case (Cons a s)
  then show ?case using split_on_nonempty[of c s] by (cases "split_on c s" rule: remdups_adj.cases) auto
qed simp

lemma split_on_length: "sum_list (map (\<lambda>p. length p + 1) (split_on c s)) = length s + 1"
  by (induction s) (auto split: list.split)

lemma split_on_without: "p \<in> set (split_on c s) \<Longrightarrow> c \<notin> set p"
proof (induction s arbitrary: p)
  case (Cons a s)
  then show ?case using split_on_nonempty[of c s] by (cases "split_on c s") (auto split: if_splits)
qed simp

lemma split_on_set: "p \<in> set (split_on c s) \<Longrightarrow> set p \<subseteq> set s"
proof (induction s arbitrary: p)
  case (Cons a s)
  show ?case
  proof (cases "split_on c s")
    case (Cons x xs)
    have "set q \<subseteq> set s" if "q = x \<or> q \<in> set xs" for q using Cons.IH[of q] that Cons by simp
    then show ?thesis using Cons.prems Cons by (force split: if_splits)
  qed (use split_on_nonempty in auto)
qed simp


definition address_tree :: "string \<Rightarrow> string \<times> string \<Rightarrow> node" where
  "address_tree proto = (\<lambda>(name, number).
     Node ''ADDRESS'' '''' [leaf ''PROTOCOL'' proto, leaf ''HOST'' name, leaf ''PORT'' number])"

lemma address_written:
  assumes "plain name" "plain number" "proto \<in> {''TCP'', ''TCPS''}"
  shows "writes g 1 (address_tree proto (name, number)) (address_text proto (name, number))"
proof -
  have p: "plain proto" using assms(3) by (auto simp: plain_def plain_char_def)
  have "texts g 2 [leaf ''PROTOCOL'' proto, leaf ''HOST'' name, leaf ''PORT'' number]
      (element ''PROTOCOL'' proto @ element ''HOST'' name @ element ''PORT'' number)"
    using texts_append[OF texts_leaf texts_append[OF texts_leaf texts_leaf]] p assms(1,2) by simp
  then show ?thesis
    using texts_branch[of 1 "''ADDRESS''" "[leaf ''PROTOCOL'' proto, leaf ''HOST'' name, leaf ''PORT'' number]" g
        "element ''PROTOCOL'' proto @ element ''HOST'' name @ element ''PORT'' number"]
    by (simp add: address_tree_def address_text_def element_def numeral_2_eq_2)
qed

lemma easy_host_plain:
  assumes "easy_host entry = Inr (name, number)"
  shows "plain name \<and> plain number \<and> length name \<le> 255 \<and> length number \<le> 255"
proof -
  have name: "plain name \<and> length name \<le> 255"
    using assms word_plain[of name "'':.''"] word_plain[of name "''_.-''"] unfolding easy_host_def
    by (auto simp: andthen_eq_Inr Let_def simp del: list.pred_inject split: if_splits option.splits prod.splits)
  have "RequireEasyConnectWord number '''' = Inr ()"
    using assms unfolding easy_host_def by (auto simp: andthen_eq_Inr split: if_splits)
  from word_plain[OF this] name show ?thesis by simp
qed

lemma easy_host_means:
  assumes "easy_host entry = Inr h"
  shows "host_means entry h"
proof -
  obtain name number where h: "h = (name, number)" by fastforce
  have number: "word '''' number" "\<forall>c\<in>set number. isdigit c"
    using assms unfolding easy_host_def h by (auto simp: andthen_eq_Inr RequireEasyConnectWord_word list_all_iff split: if_splits)
  have "\<exists>written. (word ''_.-'' name \<and> entry = name @ written \<or> word '':.'' name \<and> entry = ''['' @ name @ '']'' @ written) \<and>
       (written = '''' \<and> number = ''1521'' \<or> written = '':'' @ number)"
  proof (cases "starts (CHR ''['') entry")
    case True
    then obtain before rest where c: "cut '']'' entry = Some (before, rest)" and w: "word '':.'' (tl before)" "name = tl before"
      and r: "rest = '''' \<and> number = ''1521'' \<or> rest \<noteq> '''' \<and> hd rest = CHR '':'' \<and> number = tl rest"
      using assms unfolding easy_host_def h
      by (auto simp: andthen_eq_Inr RequireEasyConnectWord_word split: if_splits option.splits)
    have e: "entry = before @ '']'' @ rest" by (rule cut_parts[OF c]) simp
    have "before \<noteq> ''''" using w(1) by (auto simp: word_def)
    moreover from this True e have "hd before = CHR ''[''" by (simp add: starts_def)
    ultimately have "before = CHR ''['' # name" using w(2) by (metis list.collapse)
    then have "entry = ''['' @ name @ '']'' @ rest" using e by simp
    moreover have "rest = '''' \<and> number = ''1521'' \<or> rest = '':'' @ number" using r by (cases rest) auto
    ultimately show ?thesis using w by blast
  next
    case False
    then have w: "word ''_.-'' name" and c: "case cut '':'' entry of None \<Rightarrow> name = entry \<and> number = ''1521'' | Some p \<Rightarrow> p = (name, number)"
      using assms unfolding easy_host_def h
      by (auto simp: andthen_eq_Inr RequireEasyConnectWord_word Let_def split: if_splits option.splits prod.splits)
    show ?thesis
    proof (cases "cut '':'' entry")
      case None
      with w c show ?thesis by (intro exI[of _ "''''"]) simp
    next
      case (Some p)
      with c have "cut '':'' entry = Some (name, number)" by simp
      from cut_parts[OF this] have "entry = name @ '':'' @ number" by simp
      with w show ?thesis by blast
    qed
  qed
  with number show ?thesis by (simp add: host_means_def h)
qed

lemma easy_addresses_written:
  assumes "easy_addresses proto n entries = Inr s" "proto \<in> {''TCP'', ''TCPS''}"
  shows "\<exists>hosts. texts g 1 (map (address_tree proto) hosts) s \<and> list_all2 host_means entries hosts \<and>
    length s \<le> 600 * length entries \<and> (entries \<noteq> [] \<longrightarrow> n + length entries \<le> MAX_CONNECT_ADDRESSES)"
  using assms
proof (induction proto n entries arbitrary: s rule: easy_addresses.induct)
  case (2 proto n entry entries)
  obtain name number t where h: "easy_host entry = Inr (name, number)" "easy_addresses proto (n + 1) entries = Inr t"
    "s = address_text proto (name, number) @ t" "n + 1 \<le> MAX_CONNECT_ADDRESSES"
    using 2(2) by (auto simp: andthen_eq_Inr split: if_splits)
  have "andthen (easy_host entry) f = f (name, number)" for f :: "string \<times> string \<Rightarrow> string result" using h(1) by simp
  obtain hosts where ih: "texts g 1 (map (address_tree proto) hosts) t" "list_all2 host_means entries hosts"
    "length t \<le> 600 * length entries" "entries \<noteq> [] \<longrightarrow> n + 1 + length entries \<le> MAX_CONNECT_ADDRESSES"
    using 2(1)[OF _ h(2) 2(3)] h(4) by auto
  note p = easy_host_plain[OF h(1)]
  have "texts g 1 ([address_tree proto (name, number)] @ map (address_tree proto) hosts) s"
    unfolding h(3) using address_written p 2(3) by (intro texts_append texts_one ih(1)) auto
  moreover have "length (address_text proto (name, number)) \<le> 600"
    using p 2(3) by (auto simp: address_text_def)
  ultimately show ?case
    using ih(2-4) h(3,4) easy_host_means[OF h(1)] by (intro exI[of _ "(name, number) # hosts"]) auto
qed simp

lemma description_keys_plain: "k \<in> set description_keys \<Longrightarrow> plain (upper k) \<and> length (upper k) = length k"
proof -
  have "list_all (\<lambda>k. plain (upper k)) description_keys" by code_simp
  then show "k \<in> set description_keys \<Longrightarrow> plain (upper k) \<and> length (upper k) = length k" by (simp add: list_all_iff)
qed

lemma unquoted_part: "set (unquoted s) \<subseteq> set s" "length (unquoted s) \<le> length s"
  by (auto simp: unquoted_def dest: in_set_butlastD list.set_sel(2)[rotated]) (metis in_set_butlastD list.sel(2) list.set_sel(2))

text \<open>The settings of the description and those of its security.\<close>

definition setting :: "node \<Rightarrow> bool" where
  "setting n \<longleftrightarrow> key n \<in> upper ` set description_keys"

definition security_keys :: "string set" where
  "security_keys = {''SSL_SERVER_DN_MATCH'', ''SSL_SERVER_CERT_DN''}"

lemma security_keys_apart: "key n \<in> security_keys \<Longrightarrow> \<not> setting n"
proof -
  have "\<not> list_ex (\<lambda>k. upper k = ''SSL_SERVER_DN_MATCH'' \<or> upper k = ''SSL_SERVER_CERT_DN'') description_keys" by code_simp
  then show "key n \<in> security_keys \<Longrightarrow> \<not> setting n" by (auto simp: setting_def security_keys_def list_ex_iff)
qed

lemma upper_lower: "upper (lower s) = upper s"
proof -
  have "toupper (tolower c) = toupper c" for c
    by (cases "isupper c") (auto simp: toupper_def tolower_def isupper_def islower_def)
  then show ?thesis by (simp add: upper_def lower_def)
qed

lemma unquoted_means: "CHR 0x22 \<notin> set (unquoted s) \<Longrightarrow> s = unquoted s \<or> s = [CHR 0x22] @ unquoted s @ [CHR 0x22]"
proof -
  have "s = hd s # butlast (tl s) @ [last s]" if "length s \<ge> 2"
    using that by (cases s; cases "tl s" rule: rev_cases) auto
  then show ?thesis by (auto simp: unquoted_def)
qed

lemma word_unquoted: "RequireEasyConnectWord v '''' = Inr () \<Longrightarrow> CHR 0x22 \<notin> set v"
  by (auto simp: RequireEasyConnectWord_word word_def isalnum_def isalpha_def isupper_def islower_def isdigit_def)

lemma parameter_written:
  assumes "easy_parameter pair (K, S) = Inr (K', S')" "texts g 1 ks K" "texts g 2 ss S" and "\<And>c. c \<in> set pair \<Longrightarrow> printable c" "CHR ''&'' \<notin> set pair"
  shows "\<exists>n. parameter_means pair n \<and> (setting n \<or> key n \<in> security_keys) \<and>
    texts g 1 (ks @ filter setting [n]) K' \<and> texts g 2 (ss @ filter (\<lambda>n. \<not> setting n) [n]) S' \<and>
    length K' + length S' \<le> length K + length S + length pair + 4"
proof -
  obtain name given where c: "cut ''='' pair = Some (name, given)" "name \<noteq> ''''"
    using assms(1) by (auto simp: easy_parameter_def split: option.splits if_splits)
  have pair: "pair = name @ ''='' @ given" by (rule cut_parts[OF c(1)]) simp
  let ?k = "lower name"
  let ?v = "unquoted given"
  let ?n = "leaf (upper name) ?v"
  have len: "length ?k = length name" by (simp add: lower_def)
  have v: "length ?v \<le> length given" "set ?v \<subseteq> set given" by (rule unquoted_part)+
  have means: "parameter_means pair ?n" if "CHR 0x22 \<notin> set ?v"
    using unquoted_means[OF that] cut_first[OF c(1)] that pair assms(5) unfolding parameter_means_def
    by (intro conjI exI[of _ name] exI[of _ ?v]) auto
  consider (key) "?k \<in> set description_keys" "RequireEasyConnectWord ?v '''' = Inr ()" "K' = K @ element (upper name) ?v" "S' = S"
    | (match) "?k = ''ssl_server_dn_match''" "RequireEasyConnectWord ?v '''' = Inr ()" "K' = K" "S' = S @ element ''SSL_SERVER_DN_MATCH'' ?v"
    | (dn) "?k = ''ssl_server_cert_dn''" "?v \<noteq> ''''" "length ?v \<le> 1024" "CHR 0x22 \<notin> set ?v" "K' = K"
        "S' = S @ element ''SSL_SERVER_CERT_DN'' (CHR 0x22 # ?v @ [CHR 0x22])"
    using assms(1) c by (auto simp: easy_parameter_def Let_def andthen_eq_Inr list_ex_iff upper_lower split: if_splits)
  then show ?thesis
  proof cases
    case key
    note p = description_keys_plain[OF key(1), unfolded upper_lower] word_plain[OF key(2)]
    have n: "setting ?n" using key(1) by (auto simp: setting_def leaf_def upper_lower[of name, symmetric])
    have "texts g 1 (ks @ [?n]) K'"
      unfolding key(3) using p by (intro texts_append[OF assms(2)] texts_leaf) simp_all
    then show ?thesis
      using assms(3) key n v(1) len p(1) pair means[OF word_unquoted[OF key(2)]] by (intro exI[of _ ?n]) (auto simp: element_def)
  next
    case match
    have k: "upper name = ''SSL_SERVER_DN_MATCH''" unfolding upper_lower[of name, symmetric] match(1) by code_simp
    then have n: "key ?n \<in> security_keys" by (simp add: leaf_def security_keys_def)
    have "plain ''SSL_SERVER_DN_MATCH''" "upper ''SSL_SERVER_DN_MATCH'' = ''SSL_SERVER_DN_MATCH''" by code_simp+
    then have "texts g 2 (ss @ [?n]) S'"
      unfolding match(4) using word_plain[OF match(2)] k by (intro texts_append[OF assms(3)]) (auto intro!: texts_leaf)
    moreover have "length name = 19" using arg_cong[OF match(1), where f = length] len by simp
    ultimately show ?thesis
      using assms(2) match(3,4) n security_keys_apart[OF n] v(1) pair means[OF word_unquoted[OF match(2)]]
      by (intro exI[of _ ?n]) (auto simp: element_def)
  next
    case dn
    have k: "upper name = ''SSL_SERVER_CERT_DN''" unfolding upper_lower[of name, symmetric] dn(1) by code_simp
    then have n: "key ?n \<in> security_keys" by (simp add: leaf_def security_keys_def)
    have "plain ''SSL_SERVER_CERT_DN''" "upper ''SSL_SERVER_CERT_DN'' = ''SSL_SERVER_CERT_DN''" by code_simp+
    moreover have "quotable ?v"
      using dn(2-4) v(2) assms(4) pair by (auto simp: quotable_def list_all_iff)
    ultimately have "writes g 2 ?n (element ''SSL_SERVER_CERT_DN'' (CHR 0x22 # ?v @ [CHR 0x22]))"
      using writes_leaf[of 2 "''SSL_SERVER_CERT_DN''", OF _ _ writes_quoted, of ?v g] k by (simp add: leaf_def)
    then have "texts g 2 (ss @ [?n]) S'"
      unfolding dn(6) by (intro texts_append[OF assms(3)] texts_one)
    moreover have "length name = 18" using arg_cong[OF dn(1), where f = length] len by simp
    ultimately show ?thesis
      using assms(2) dn(5,6) n security_keys_apart[OF n] v(1) pair means[OF dn(4)] by (intro exI[of _ ?n]) (auto simp: element_def)
  qed
qed

lemma parameters_written:
  assumes "each easy_parameter pairs (K, S) = Inr (K', S')" "texts g 1 ks K" "texts g 2 ss S"
    and "\<forall>pair\<in>set pairs. (\<forall>c\<in>set pair. printable c) \<and> CHR ''&'' \<notin> set pair"
  shows "\<exists>nodes. list_all2 parameter_means pairs nodes \<and> (\<forall>n\<in>set nodes. setting n \<or> key n \<in> security_keys) \<and>
    texts g 1 (ks @ filter setting nodes) K' \<and> texts g 2 (ss @ filter (\<lambda>n. \<not> setting n) nodes) S' \<and>
    length K' + length S' \<le> length K + length S + 4 * sum_list (map (\<lambda>p. length p + 1) pairs)"
  using assms
proof (induction pairs arbitrary: K S ks ss)
  case (Cons pair pairs)
  obtain K1 S1 where s1: "easy_parameter pair (K, S) = Inr (K1, S1)" "each easy_parameter pairs (K1, S1) = Inr (K', S')"
    using Cons.prems(1) by (auto simp: andthen_eq_Inr)
  have "printable c" if "c \<in> set pair" for c using Cons.prems(4) that by simp
  moreover have "CHR ''&'' \<notin> set pair" using Cons.prems(4) by simp
  ultimately
  obtain n where n: "parameter_means pair n" "setting n \<or> key n \<in> security_keys"
    "texts g 1 (ks @ filter setting [n]) K1" "texts g 2 (ss @ filter (\<lambda>n. \<not> setting n) [n]) S1"
    "length K1 + length S1 \<le> length K + length S + length pair + 4" using parameter_written[OF s1(1) Cons.prems(2,3)] by auto
  have "\<forall>p\<in>set pairs. (\<forall>c\<in>set p. printable c) \<and> CHR ''&'' \<notin> set p" using Cons.prems(4) by simp
  from Cons.IH[OF s1(2) n(3,4) this] obtain nodes where "list_all2 parameter_means pairs nodes"
    "\<forall>n\<in>set nodes. setting n \<or> key n \<in> security_keys"
    "texts g 1 ((ks @ filter setting [n]) @ filter setting nodes) K'" "texts g 2 ((ss @ filter (\<lambda>n. \<not> setting n) [n]) @ filter (\<lambda>n. \<not> setting n) nodes) S'"
    "length K' + length S' \<le> length K1 + length S1 + 4 * sum_list (map (\<lambda>p. length p + 1) pairs)" by blast
  with n show ?case by (intro exI[of _ "n # nodes"]) (auto split: if_splits)
qed auto

lemma easy_scheme_means:
  assumes "easy_scheme s = Inr (proto, rest)"
  shows "\<exists>scheme. s = scheme @ rest \<and> scheme_means scheme proto"
proof (cases "cut ''://'' s")
  case None
  show ?thesis
  proof (cases "take 2 s = ''//''")
    case True
    then have "s = ''//'' @ drop 2 s" by (metis append_take_drop_id)
    with True None assms show ?thesis by (intro exI[of _ "''//''"]) (auto simp: easy_scheme_def scheme_means_def)
  qed (use None assms in \<open>auto simp: easy_scheme_def scheme_means_def intro!: exI[of _ "''''"]\<close>)
next
  case (Some x)
  obtain a b where x: "x = (a, b)" by fastforce
  have "s = a @ ''://'' @ b" by (rule cut_parts) (use Some x in simp_all)
  with Some x assms show ?thesis
    by (intro exI[of _ "a @ ''://''"]) (auto simp: easy_scheme_def scheme_means_def split: if_splits)
qed

lemma easy_scheme_proto: "easy_scheme s = Inr (proto, rest) \<Longrightarrow> proto \<in> {''TCP'', ''TCPS''} \<and> set rest \<subseteq> set s \<and> length rest \<le> length s"
  by (auto simp: easy_scheme_def split: option.splits if_splits dest!: cut_parts dest: in_set_dropD)

lemma easy_service_words:
  assumes "easy_service s = Inr (service, instance_part, server)"
  shows "plain service \<and> length service \<le> 255" "server \<noteq> '''' \<Longrightarrow> plain server" "length server \<le> 255"
    "instance_part \<noteq> '''' \<Longrightarrow> plain instance_part" "length instance_part \<le> 255"
proof -
  have s: "RequireEasyConnectWord service ''_.-$#'' = Inr ()"
    "instance_part = '''' \<or> RequireEasyConnectWord instance_part ''_.-$#'' = Inr ()"
    "server = '''' \<or> RequireEasyConnectWord server '''' = Inr ()"
    using assms unfolding easy_service_def by (auto simp: andthen_eq_Inr split: option.splits)
  note w = word_plain[of _ "''_.-$#''"] word_plain[of _ "''''"]
  show "plain service \<and> length service \<le> 255" using w(1,2)[OF s(1)] by simp
  show "server \<noteq> '''' \<Longrightarrow> plain server" "length server \<le> 255" using s(3) w(3,4)[of server] by auto
  show "instance_part \<noteq> '''' \<Longrightarrow> plain instance_part" "length instance_part \<le> 255" using s(2) w(1,2)[of instance_part] by auto
qed

lemma easy_service_means:
  assumes "easy_service s = Inr (service, instance_part, server)"
  shows "s = service @ (if server = '''' then '''' else '':'' @ server) @ (if instance_part = '''' then '''' else ''/'' @ instance_part) \<and>
    word ''_.-$#'' service \<and> (server = '''' \<or> word '''' server) \<and> (instance_part = '''' \<or> word ''_.-$#'' instance_part)"
proof -
  have nonempty: "\<not> word extra ''''" for extra by (simp add: word_def)
  obtain head where head: "s = head @ (if instance_part = '''' then '''' else ''/'' @ instance_part)"
    "instance_part = '''' \<or> word ''_.-$#'' instance_part"
    and r: "word ''_.-$#'' service"
      "case cut '':'' head of None \<Rightarrow> service = head \<and> server = '''' | Some p \<Rightarrow> p = (service, server) \<and> word '''' server"
  proof (cases "cut ''/'' s")
    case None
    with assms that[of s] show ?thesis
      by (auto simp: easy_service_def andthen_eq_Inr RequireEasyConnectWord_word split: option.splits)
  next
    case (Some p)
    then have "s = fst p @ ''/'' @ snd p" by (intro cut_parts) simp_all
    moreover from Some assms have "snd p = instance_part" "word ''_.-$#'' instance_part" "word ''_.-$#'' service"
      "case cut '':'' (fst p) of None \<Rightarrow> service = fst p \<and> server = '''' | Some q \<Rightarrow> q = (service, server) \<and> word '''' server"
      by (cases p; auto simp: easy_service_def andthen_eq_Inr RequireEasyConnectWord_word split: option.splits)+
    moreover from this(2) have "instance_part \<noteq> ''''" by (auto simp: nonempty)
    ultimately show ?thesis using that[of "fst p"] by simp
  qed
  have "head = service @ (if server = '''' then '''' else '':'' @ server) \<and> (server = '''' \<or> word '''' server)"
  proof (cases "cut '':'' head")
    case None
    with r show ?thesis by simp
  next
    case (Some p)
    with r(2) have "cut '':'' head = Some (service, server)" "word '''' server" by auto
    with cut_parts[OF this(1)] nonempty show ?thesis by auto
  qed
  with head r(1) show ?thesis by simp
qed

definition easy_data :: "string \<Rightarrow> string \<Rightarrow> string \<Rightarrow> node list" where
  "easy_data service server instance_part =
     [leaf ''SERVICE_NAME'' service] @ (if server \<noteq> '''' then [leaf ''SERVER'' server] else []) @
     (if instance_part \<noteq> '''' then [leaf ''INSTANCE_NAME'' instance_part] else [])"

definition easy_data_text :: "string \<Rightarrow> string \<Rightarrow> string \<Rightarrow> string" where
  "easy_data_text service server instance_part =
     element ''SERVICE_NAME'' service @ (if server \<noteq> '''' then element ''SERVER'' server else '''') @
     (if instance_part \<noteq> '''' then element ''INSTANCE_NAME'' instance_part else '''')"

lemma easy_data_written:
  assumes "plain service" "server \<noteq> '''' \<Longrightarrow> plain server" "instance_part \<noteq> '''' \<Longrightarrow> plain instance_part"
  shows "texts g 2 (easy_data service server instance_part) (easy_data_text service server instance_part)"
  unfolding easy_data_def easy_data_text_def
  by (intro texts_append) (use assms in \<open>auto intro: texts_leaf\<close>)

text \<open>What an Easy Connect string stands for.\<close>

definition easy_tree ::
  "node list \<Rightarrow> string \<Rightarrow> (string \<times> string) list \<Rightarrow> string \<Rightarrow> string \<Rightarrow> string \<Rightarrow> node list \<Rightarrow> node" where
  "easy_tree ks proto hosts service server instance_part security = Node ''DESCRIPTION'' ''''
     (ks @ map (address_tree proto) hosts @ [Node ''CONNECT_DATA'' '''' (easy_data service server instance_part)] @
      (if security = [] then [] else [Node ''SECURITY'' '''' security]))"

lemma easy_text_written:
  assumes "texts g 1 ks K" "texts g 2 ss S" "texts g 1 (map (address_tree proto) hosts) A" "hosts \<noteq> []"
    and "plain service" "server \<noteq> '''' \<Longrightarrow> plain server" "instance_part \<noteq> '''' \<Longrightarrow> plain instance_part"
  shows "writes g 0 (easy_tree ks proto hosts service server instance_part ss)
    (element ''DESCRIPTION'' (K @ A @ element ''CONNECT_DATA'' (easy_data_text service server instance_part) @
       (if S = '''' then '''' else element ''SECURITY'' S)))"
proof -
  have data: "writes g 1 (Node ''CONNECT_DATA'' '''' (easy_data service server instance_part))
      (element ''CONNECT_DATA'' (easy_data_text service server instance_part))"
    using easy_data_written[OF assms(5-7)] by (intro texts_branch) (simp_all add: easy_data_def numeral_2_eq_2)
  have iff: "ss = [] \<longleftrightarrow> S = ''''"
  proof
    assume "S = ''''"
    show "ss = []"
    proof (cases ss)
      case (Cons n ns)
      then obtain s t where "S = s @ t" "writes g 2 n s"
        using assms(2) by (auto simp: texts_def list_all2_Cons1)
      with writes_starts[of g 2 n s t] \<open>S = ''''\<close> show ?thesis by (simp add: starts_def)
    qed
  qed (use assms(2) in simp)
  have security: "texts g 1 (if ss = [] then [] else [Node ''SECURITY'' '''' ss]) (if S = '''' then '''' else element ''SECURITY'' S)"
    using assms(2) iff by (auto intro!: texts_one texts_branch simp: numeral_2_eq_2)
  have "texts g 1 (ks @ map (address_tree proto) hosts @ [Node ''CONNECT_DATA'' '''' (easy_data service server instance_part)] @
      (if ss = [] then [] else [Node ''SECURITY'' '''' ss]))
     (K @ A @ element ''CONNECT_DATA'' (easy_data_text service server instance_part) @ (if S = '''' then '''' else element ''SECURITY'' S))"
    using assms(1,3) data security by (intro texts_append texts_one)
  then show ?thesis unfolding easy_tree_def by (intro texts_branch) (simp_all add: One_nat_def)
qed

lemma EasyConnect_parts:
  assumes "EasyConnectToDescriptor input = Inr d"
  obtains scheme proto host_part service_part service server instance_part written parameters addresses K S where
    "input = scheme @ host_part @ ''/'' @ service_part @ written" "scheme_means scheme proto" "proto \<in> {''TCP'', ''TCPS''}"
    "written = '''' \<and> parameters = '''' \<or> written = ''?'' @ parameters" "length parameters \<le> 4096" "\<forall>c\<in>set parameters. printable c"
    "easy_service service_part = Inr (service, instance_part, server)"
    "easy_addresses proto 0 (split_on (CHR '','') host_part) = Inr addresses"
    "each easy_parameter (if parameters = [] then [] else split_on (CHR ''&'') parameters) ([], []) = Inr (K, S)"
    "d = easy_descriptor K addresses service server instance_part S"
proof -
  have chars: "printable c" if "c \<in> set input" for c
    using assms that by (auto simp: EasyConnectToDescriptor_def list_ex_iff printable_def not_le split: if_splits)
  have len: "length input \<le> 4096" using assms by (auto simp: EasyConnectToDescriptor_def split: if_splits)
  obtain proto rest where scheme: "easy_scheme input = Inr (proto, rest)"
    using assms by (auto simp: EasyConnectToDescriptor_def andthen_eq_Inr split: if_splits)
  then obtain scheme_text where text_of: "input = scheme_text @ rest" "scheme_means scheme_text proto"
    using easy_scheme_means by blast
  note proto = easy_scheme_proto[OF scheme]
  obtain body written parameters where body: "easy_body proto body parameters = Inr d"
    and ps: "rest = body @ written" "written = '''' \<and> parameters = '''' \<or> written = ''?'' @ parameters"
  proof (cases "cut ''?'' rest")
    case None
    then show ?thesis using assms scheme that[of rest "''''" "''''"] by (auto simp: EasyConnectToDescriptor_def split: if_splits)
  next
    case (Some x)
    then show ?thesis
      using assms scheme that[of "fst x" "snd x" "''?'' @ snd x"] cut_parts[of "''?''" rest "fst x" "snd x"]
      by (cases x) (auto simp: EasyConnectToDescriptor_def split: if_splits)
  qed
  obtain host_part service_part where c: "cut ''/'' body = Some (host_part, service_part)"
    using body by (auto simp: easy_body_def split: option.splits)
  obtain service server instance_part addresses K S where
    p: "easy_service service_part = Inr (service, instance_part, server)"
      "easy_addresses proto 0 (split_on (CHR '','') host_part) = Inr addresses"
      "each easy_parameter (if parameters = [] then [] else split_on (CHR ''&'') parameters) ([], []) = Inr (K, S)"
    and d: "d = easy_descriptor K addresses service server instance_part S"
    using body c unfolding easy_body_def easy_parameters_def by (auto simp: andthen_eq_Inr simp del: each.simps)
  have "body = host_part @ ''/'' @ service_part" by (rule cut_parts[OF c]) simp
  then have input: "input = scheme_text @ host_part @ ''/'' @ service_part @ written" using text_of(1) ps(1) by simp
  have "set parameters \<subseteq> set input" "length parameters \<le> length input" using ps(2) input by auto
  then show ?thesis
    using that[OF input text_of(2) _ ps(2) _ _ p d] proto len chars by auto
qed

section \<open>Properties\<close>

text \<open>
  C4. Easy Connect strings mean what they say. A string that is accepted is made of a scheme, hosts, a service,
  a server type, an instance and parameters, as the grammar has them, and the descriptor it is
  rewritten into parses to exactly that: TCP without a scheme or with \<^verbatim>\<open>tcp\<close>, TCPS with \<^verbatim>\<open>tcps\<close>; one address per host named, in their order, with the
  port written or 1521; that service, server type and instance; and one node per parameter, with its key in capitals and its value without quotes,
  the settings of the description in front and the two security settings under \<^verbatim>\<open>SECURITY\<close>. No part of the string can add
  an element, close one early or exceed the parser's size limit.
\<close>

theorem easy_connect_means:
  assumes "EasyConnectToDescriptor input = Inr d"
  shows "\<exists>proto hosts service server instance_part nodes.
    easy_means input proto hosts service server instance_part nodes \<and>
    Parse grammar d = Inr (easy_tree (filter setting nodes) proto hosts service server instance_part (filter (\<lambda>n. \<not> setting n) nodes)) \<and>
    1 \<le> length hosts \<and> length hosts \<le> MAX_CONNECT_ADDRESSES \<and> (\<forall>n\<in>set nodes. setting n \<or> key n \<in> security_keys)"
proof -
  obtain scheme proto host_part service_part service server instance_part written parameters addresses K S where
    input: "input = scheme @ host_part @ ''/'' @ service_part @ written" "scheme_means scheme proto"
      "written = '''' \<and> parameters = '''' \<or> written = ''?'' @ parameters"
    and proto: "proto \<in> {''TCP'', ''TCPS''}" and ps: "length parameters \<le> 4096" "\<forall>c\<in>set parameters. printable c"
    and p: "easy_service service_part = Inr (service, instance_part, server)"
      "easy_addresses proto 0 (split_on (CHR '','') host_part) = Inr addresses"
      "each easy_parameter (if parameters = [] then [] else split_on (CHR ''&'') parameters) ([], []) = Inr (K, S)"
    and d: "d = easy_descriptor K addresses service server instance_part S"
    by (rule EasyConnect_parts[OF assms])
  let ?pairs = "if parameters = [] then [] else split_on (CHR ''&'') parameters"
  let ?entries = "split_on (CHR '','') host_part"
  have some: "?entries \<noteq> []" by (rule split_on_nonempty)
  obtain hosts where hosts: "texts grammar 1 (map (address_tree proto) hosts) addresses" "list_all2 host_means ?entries hosts"
    "length addresses \<le> 600 * length ?entries" "length ?entries \<le> MAX_CONNECT_ADDRESSES"
    using easy_addresses_written[OF p(2)] proto some by auto
  have number: "length ?entries = length hosts" by (rule list_all2_lengthD[OF hosts(2)])
  have "\<forall>pair\<in>set ?pairs. (\<forall>c\<in>set pair. printable c) \<and> CHR ''&'' \<notin> set pair"
    using ps(2) split_on_set[of _ "CHR ''&''" parameters] split_on_without by (auto split: if_splits)
  with parameters_written[OF p(3), of grammar "[]" "[]"] obtain nodes where
    nodes: "list_all2 parameter_means ?pairs nodes" "\<forall>n\<in>set nodes. setting n \<or> key n \<in> security_keys"
      "texts grammar 1 (filter setting nodes) K" "texts grammar 2 (filter (\<lambda>n. \<not> setting n) nodes) S"
      "length K + length S \<le> 4 * sum_list (map (\<lambda>p. length p + 1) ?pairs)" by auto
  have "sum_list (map (\<lambda>p. length p + 1) ?pairs) \<le> 4097"
    using split_on_length[of "CHR ''&''" parameters] ps by auto
  then have KS: "length K + length S \<le> 16388" using nodes(5) by linarith
  note service = easy_service_words[OF p(1)]
  have spelt: "d = element ''DESCRIPTION'' (K @ addresses @ element ''CONNECT_DATA'' (easy_data_text service server instance_part) @
       (if S = '''' then '''' else element ''SECURITY'' S))"
    unfolding d easy_descriptor_def element_def easy_data_text_def by simp
  have "hosts \<noteq> []" using number some by auto
  note w = easy_text_written[OF nodes(3,4) hosts(1) this conjunct1[OF service(1)] service(2,4), folded spelt]
  have "length d \<le> 65535"
    using KS hosts(3,4) service(1,3,5) unfolding d easy_descriptor_def by (simp add: MAX_CONNECT_ADDRESSES_def)
  from text_read[OF w this] have "Parse grammar d = Inr (easy_tree (filter setting nodes) proto hosts service server instance_part
     (filter (\<lambda>n. \<not> setting n) nodes))" .
  moreover have "easy_means input proto hosts service server instance_part nodes"
    unfolding easy_means_def
    using input easy_service_means[OF p(1)] hosts(2) nodes(1) split_on_joined[of "CHR '',''" host_part] split_on_joined[of "CHR ''&''" parameters]
    by (intro exI[of _ scheme] exI[of _ ?entries] exI[of _ ?pairs] exI[of _ written]) (auto split: if_splits)
  moreover have "1 \<le> length hosts" using \<open>hosts \<noteq> []\<close> by (cases hosts) auto
  ultimately show ?thesis using hosts(4) nodes(2) unfolding number by blast
qed

lemma easy_connect_means_witness:
  "\<exists>d root. EasyConnectToDescriptor ''tcps://a,[::1]:1522/db?sdu=512&ssl_server_cert_dn=CN=x'' = Inr d \<and>
     Parse USER_WRITTEN d = Inr root \<and> key root = ''DESCRIPTION'' \<and> named ''ADDRESS'' root \<noteq> []"
proof -
  let ?d = "''(DESCRIPTION=(SDU=512)(ADDRESS=(PROTOCOL=TCPS)(HOST=a)(PORT=1521))(ADDRESS=(PROTOCOL=TCPS)(HOST=::1)(PORT=1522))(CONNECT_DATA=(SERVICE_NAME=db))(SECURITY=(SSL_SERVER_CERT_DN=''
    @ [CHR 0x22] @ ''CN=x'' @ [CHR 0x22] @ '')))''"
  have d: "EasyConnectToDescriptor ''tcps://a,[::1]:1522/db?sdu=512&ssl_server_cert_dn=CN=x'' = Inr ?d"
    by code_simp
  from easy_connect_means[OF d, of USER_WRITTEN] obtain proto hosts service server instance_part nodes where
    p: "Parse USER_WRITTEN ?d = Inr (easy_tree (filter setting nodes) proto hosts service server instance_part
        (filter (\<lambda>n. \<not> setting n) nodes))" "1 \<le> length hosts" by blast
  obtain host hosts' where "hosts = host # hosts'" using p(2) by (cases hosts) auto
  then have "named ''ADDRESS'' (easy_tree (filter setting nodes) proto hosts service server instance_part
      (filter (\<lambda>n. \<not> setting n) nodes)) \<noteq> []"
    by (cases host) (simp add: named_def easy_tree_def address_tree_def)
  then show ?thesis using d p(1) by (auto simp: easy_tree_def)
qed

end
