(* ===== verification/Resolver_Pool.thy ===== *)
theory Resolver_Pool
  imports State_Machine Connect_Config
begin

text \<open>
  The resolver pool of \<^verbatim>\<open>src/connect_plan.cpp\<close>: names are looked up by a few detached workers, and callers wait for the
  answer as long as they care to. Each part of a method that runs under the lock is one operation; a wait ends it, and so does the
  lookup, which runs without the lock. The operations of all callers and workers interleave.
\<close>

section \<open>State and operations\<close>

definition MAX_RESOLVER_WORKERS :: nat where "MAX_RESOLVER_WORKERS = 4"
definition MAX_RESOLVER_QUEUE :: nat where "MAX_RESOLVER_QUEUE = 16"

record resolve_request =
  rr_host :: string
  rr_port :: u16
  rr_started :: bool
  rr_done :: bool
  rr_result :: "string list connecting"

text \<open>
  A request is known by the identity of its object. Besides the members of the class the state has where its workers are: those
  that were started and have not run yet, those that look up a name, and \<open>idle\<close> of them waiting for work.
\<close>

record resolver_pool =
  rp_queue :: "nat list"
  rp_workers :: nat
  rp_idle :: nat
  rp_requests :: "nat \<rightharpoonup> resolve_request"
  rp_next :: nat
  rp_starting :: nat
  rp_running :: "nat list"

definition ResolverPool :: resolver_pool where
  "ResolverPool = \<lparr>rp_queue = [], rp_workers = 0, rp_idle = 0, rp_requests = Map.empty, rp_next = 0, rp_starting = 0, rp_running = []\<rparr>"

definition Withdraw :: "nat \<Rightarrow> resolver_pool \<Rightarrow> resolver_pool" where
  "Withdraw i p =
     (case rp_requests p i of
        Some r \<Rightarrow> if rr_started r then p else p\<lparr>rp_queue := filter (\<lambda>j. j \<noteq> i) (rp_queue p)\<rparr>
      | None \<Rightarrow> p)"

text \<open>A request is put into the queue once it has room. \<open>thread_starts\<close> is whether the platform can start another thread.\<close>

definition submit :: "bool \<Rightarrow> string \<Rightarrow> u16 \<Rightarrow> resolver_pool \<Rightarrow> resolver_pool \<times> nat connecting" where
  "submit thread_starts name_to_resolve port_number p =
     (let i = rp_next p;
          p = p\<lparr>rp_queue := rp_queue p @ [i], rp_next := i + 1,
                rp_requests := (rp_requests p)(i \<mapsto> \<lparr>rr_host = name_to_resolve, rr_port = port_number, rr_started = False, rr_done = False,
                                                    rr_result = Inr []\<rparr>)\<rparr>
      in if length (rp_queue p) > rp_idle p \<and> rp_workers p < MAX_RESOLVER_WORKERS then
           if thread_starts then (p\<lparr>rp_workers := rp_workers p + 1, rp_starting := rp_starting p + 1\<rparr>, Inr i)
           else if rp_workers p = 0 then (Withdraw i p, Inl (OracleConnectError INVALID_STATE RESOURCE_EXHAUSTED 0))
           else (p, Inr i)
         else (p, Inr i))"

text \<open>
  A turn of either loop in which a caller waits: for room in the queue, and for the answer. \<open>None\<close> is to wait on; a check that
  throws ends the wait, and the request is withdrawn.
\<close>

definition room_turn :: "connect_error option \<Rightarrow> resolver_pool \<Rightarrow> unit connecting option" where
  "room_turn check_error p =
     (if length (rp_queue p) \<ge> MAX_RESOLVER_QUEUE then map_option Inl check_error else Some (Inr ()))"

definition answer_turn :: "nat \<Rightarrow> connect_error option \<Rightarrow> resolver_pool \<Rightarrow> resolver_pool \<times> string list connecting option" where
  "answer_turn i check_error p =
     (case rp_requests p i of
        None \<Rightarrow> (p, None)
      | Some r \<Rightarrow>
          if rr_done r then (p, Some (rr_result r))
          else case check_error of
              Some e \<Rightarrow> (Withdraw i p, Some (Inl e))
            | None \<Rightarrow> (p, None))"

definition take_request :: "resolver_pool \<Rightarrow> resolver_pool" where
  "take_request p =
     (case rp_queue p of
        [] \<Rightarrow> p
      | i # rest \<Rightarrow> p\<lparr>rp_queue := rest, rp_requests := (rp_requests p)(i := map_option (rr_started_update (\<lambda>_. True)) (rp_requests p i)),
                       rp_running := i # rp_running p\<rparr>)"

text \<open>The top of the worker's loop: it takes a request, or counts itself idle and waits.\<close>

definition worker_top :: "resolver_pool \<Rightarrow> resolver_pool" where
  "worker_top p = (if rp_queue p \<noteq> [] then take_request p else p\<lparr>rp_idle := rp_idle p + 1\<rparr>)"

definition worker_start :: "resolver_pool \<Rightarrow> resolver_pool" where
  "worker_start p = worker_top (p\<lparr>rp_starting := rp_starting p - 1\<rparr>)"

definition worker_wake :: "resolver_pool \<Rightarrow> resolver_pool" where
  "worker_wake p = take_request (p\<lparr>rp_idle := rp_idle p - 1\<rparr>)"

definition worker_finish :: "nat \<Rightarrow> string list connecting \<Rightarrow> resolver_pool \<Rightarrow> resolver_pool" where
  "worker_finish i found p =
     worker_top (p\<lparr>rp_running := remove1 i (rp_running p),
       rp_requests := (rp_requests p)(i := map_option (\<lambda>r. r\<lparr>rr_result := found, rr_done := True\<rparr>) (rp_requests p i))\<rparr>)"

section \<open>Interleavings\<close>

text \<open>
  \<open>can\<close> says that the platform never refuses a thread. What \<open>check\<close> throws and what a lookup finds are any values; a caller whose
  wait for room ended with an error leaves the pool as it is.
\<close>

inductive resolver_step :: "bool \<Rightarrow> resolver_pool \<Rightarrow> resolver_pool \<Rightarrow> bool" for can :: bool where
  submitted: "\<lbrakk>room_turn e p = Some (Inr ()); can \<longrightarrow> starts\<rbrakk> \<Longrightarrow> resolver_step can p (fst (submit starts h n p))"
| waited: "resolver_step can p (fst (answer_turn i e p))"
| started: "rp_starting p > 0 \<Longrightarrow> resolver_step can p (worker_start p)"
| woken: "\<lbrakk>rp_idle p > 0; rp_queue p \<noteq> []\<rbrakk> \<Longrightarrow> resolver_step can p (worker_wake p)"
| finished: "i \<in> set (rp_running p) \<Longrightarrow> resolver_step can p (worker_finish i found p)"

inductive_cases resolver_stepE: "resolver_step can p p'"

definition pool_start :: "resolver_pool \<Rightarrow> bool" where
  "pool_start p \<longleftrightarrow> p = ResolverPool"

text \<open>Where a request may be, by what it says of itself.\<close>

definition request_ok :: "resolver_pool \<Rightarrow> nat \<Rightarrow> resolve_request option \<Rightarrow> bool" where
  "request_ok p i q =
     (case q of
        None \<Rightarrow> i \<ge> rp_next p \<and> i \<notin> set (rp_queue p) \<and> i \<notin> set (rp_running p)
      | Some r \<Rightarrow> i < rp_next p \<and> (i \<in> set (rp_queue p) \<longrightarrow> \<not> rr_started r) \<and>
          (i \<in> set (rp_running p) \<longleftrightarrow> rr_started r \<and> \<not> rr_done r) \<and> (rr_done r \<longrightarrow> rr_started r))"

definition resolver_ok :: "bool \<Rightarrow> resolver_pool \<Rightarrow> bool" where
  "resolver_ok can p \<longleftrightarrow> length (rp_queue p) \<le> MAX_RESOLVER_QUEUE \<and> rp_workers p \<le> MAX_RESOLVER_WORKERS \<and>
     rp_workers p = rp_starting p + rp_idle p + length (rp_running p) \<and> distinct (rp_queue p) \<and> distinct (rp_running p) \<and>
     (rp_queue p \<noteq> [] \<longrightarrow> rp_workers p > 0) \<and>
     (can \<longrightarrow> rp_workers p = MAX_RESOLVER_WORKERS \<or> length (rp_queue p) \<le> rp_idle p + rp_starting p) \<and>
     (\<forall>i. request_ok p i (rp_requests p i))"

lemma request_ok_counters [simp]:
  "request_ok (p\<lparr>rp_starting := n\<rparr>) = request_ok p" "request_ok (p\<lparr>rp_idle := n\<rparr>) = request_ok p"
  "request_ok (p\<lparr>rp_workers := n\<rparr>) = request_ok p"
  by (intro ext; simp add: request_ok_def cong: option.case_cong)+

lemma resolver_okD:
  assumes "resolver_ok can p"
  shows "rp_requests p i = Some r \<Longrightarrow> i < rp_next p" "i \<in> set (rp_queue p) \<Longrightarrow> \<exists>r. rp_requests p i = Some r \<and> \<not> rr_started r \<and> \<not> rr_done r"
    "i \<in> set (rp_running p) \<Longrightarrow> \<exists>r. rp_requests p i = Some r \<and> rr_started r \<and> \<not> rr_done r"
    "i \<ge> rp_next p \<Longrightarrow> rp_requests p i = None \<and> i \<notin> set (rp_queue p) \<and> i \<notin> set (rp_running p)"
proof -
  have ok: "request_ok p i (rp_requests p i)"
    using assms by (simp add: resolver_ok_def)
  then show "rp_requests p i = Some r \<Longrightarrow> i < rp_next p" "i \<in> set (rp_queue p) \<Longrightarrow> \<exists>r. rp_requests p i = Some r \<and> \<not> rr_started r \<and> \<not> rr_done r"
    "i \<in> set (rp_running p) \<Longrightarrow> \<exists>r. rp_requests p i = Some r \<and> rr_started r \<and> \<not> rr_done r"
    "i \<ge> rp_next p \<Longrightarrow> rp_requests p i = None \<and> i \<notin> set (rp_queue p) \<and> i \<notin> set (rp_running p)"
    by (auto simp: request_ok_def split: option.splits)
qed

lemma request_ok_withdrawn: "request_ok p j q \<Longrightarrow> request_ok (p\<lparr>rp_queue := filter P (rp_queue p)\<rparr>) j q"
  by (auto simp: request_ok_def split: option.splits)

lemma Withdraw_ok: "resolver_ok can p \<Longrightarrow> resolver_ok can (Withdraw i p)"
  by (auto simp: Withdraw_def resolver_ok_def request_ok_withdrawn le_trans [OF length_filter_le] split: option.splits)

lemma answer_turn_ok: "resolver_ok can p \<Longrightarrow> resolver_ok can (fst (answer_turn i e p))"
  by (auto simp: answer_turn_def Withdraw_ok split: option.splits)

text \<open>A request put into a queue with room, before a worker is started for it.\<close>

definition with_request :: "resolve_request \<Rightarrow> resolver_pool \<Rightarrow> resolver_pool" where
  "with_request r p = p\<lparr>rp_queue := rp_queue p @ [rp_next p], rp_next := rp_next p + 1, rp_requests := (rp_requests p)(rp_next p \<mapsto> r)\<rparr>"

lemma request_ok_queued:
  assumes "request_ok p j (rp_requests p j)" "request_ok p (rp_next p) (rp_requests p (rp_next p))" "\<not> rr_started r" "\<not> rr_done r"
  shows "request_ok (with_request r p) j (rp_requests (with_request r p) j)"
proof (cases "j = rp_next p")
  case True
  then show ?thesis
    using assms by (auto simp: request_ok_def with_request_def split: option.splits)
next
  case False
  then show ?thesis
    using assms by (auto simp: request_ok_def with_request_def split: option.splits)
qed

lemma submit_ok:
  assumes "resolver_ok can p" "length (rp_queue p) < MAX_RESOLVER_QUEUE" "can \<longrightarrow> starts"
  shows "resolver_ok can (fst (submit starts h n p))"
proof -
  define r where "r = \<lparr>rr_host = h, rr_port = n, rr_started = False, rr_done = False, rr_result = Inr []\<rparr>"
  have fresh: "rp_next p \<notin> set (rp_queue p)" "\<And>j. request_ok p j (rp_requests p j)"
    using assms(1) resolver_okD(4) [OF assms(1) order_refl] by (auto simp: resolver_ok_def)
  have with_request: "request_ok (with_request r p) j (rp_requests (with_request r p) j)" for j
    by (rule request_ok_queued) (simp_all add: fresh r_def)
  have "filter (\<lambda>j. j \<noteq> rp_next p) (rp_queue p) = rp_queue p"
    using fresh(1) by (auto intro: filter_True)
  then have gone: "Withdraw (rp_next p) (with_request r p) = with_request r p\<lparr>rp_queue := rp_queue p\<rparr>"
      "(with_request r p)\<lparr>rp_queue := filter (\<lambda>j. j \<noteq> rp_next p) (rp_queue (with_request r p))\<rparr> = with_request r p\<lparr>rp_queue := rp_queue p\<rparr>"
    by (simp_all add: Withdraw_def with_request_def r_def)
  have withdrawn: "request_ok (with_request r p\<lparr>rp_queue := rp_queue p\<rparr>) j (rp_requests (with_request r p) j)" for j
    using request_ok_withdrawn [OF with_request [of j], of "\<lambda>j. j \<noteq> rp_next p"] unfolding gone(2) .
  have submit: "fst (submit starts h n p) =
      (if length (rp_queue p) + 1 > rp_idle p \<and> rp_workers p < MAX_RESOLVER_WORKERS then
         if starts then with_request r p\<lparr>rp_workers := rp_workers p + 1, rp_starting := rp_starting p + 1\<rparr>
         else if rp_workers p = 0 then Withdraw (rp_next p) (with_request r p) else with_request r p
       else with_request r p)"
    by (simp add: submit_def Let_def with_request_def r_def)
  have fields: "rp_queue (with_request r p) = rp_queue p @ [rp_next p]" "rp_workers (with_request r p) = rp_workers p" "rp_idle (with_request r p) = rp_idle p"
      "rp_starting (with_request r p) = rp_starting p" "rp_running (with_request r p) = rp_running p"
    by (simp_all add: with_request_def)
  have some_worker: "MAX_RESOLVER_WORKERS > 0"
    by (simp add: MAX_RESOLVER_WORKERS_def)
  show ?thesis
    using assms fresh(1) some_worker unfolding submit gone(1) resolver_ok_def
    by (auto simp: fields with_request withdrawn)
qed

text \<open>A worker that leaves \<open>idle\<close>, or starts, or is done with a request, is between two entries of the account.\<close>

definition worker_free :: "bool \<Rightarrow> resolver_pool \<Rightarrow> bool" where
  "worker_free can p \<longleftrightarrow> rp_workers p > 0 \<and> resolver_ok can (p\<lparr>rp_idle := rp_idle p + 1\<rparr>)"

lemma take_request_ok:
  assumes "worker_free can p" "rp_queue p \<noteq> []"
  shows "resolver_ok can (take_request p)"
proof -
  obtain i rest where q: "rp_queue p = i # rest"
    using assms(2) by (cases "rp_queue p") auto
  have ok: "resolver_ok can (p\<lparr>rp_idle := rp_idle p + 1\<rparr>)"
    using assms(1) by (simp add: worker_free_def)
  obtain r where r: "rp_requests p i = Some r" "\<not> rr_started r" "\<not> rr_done r"
    using resolver_okD(2) [OF ok, of i] q by auto
  have "request_ok (take_request p) j (rp_requests (take_request p) j)" for j
  proof -
    have "request_ok (p\<lparr>rp_idle := rp_idle p + 1\<rparr>) j (rp_requests p j)"
      using ok by (simp add: resolver_ok_def)
    moreover have "i \<notin> set rest"
      using ok q by (simp add: resolver_ok_def)
    ultimately show ?thesis
      using q r by (auto simp: take_request_def request_ok_def split: option.splits)
  qed
  moreover have "i \<notin> set (rp_running p)"
    using resolver_okD(3) [OF ok, of i] r by auto
  ultimately show ?thesis
    using ok q by (auto simp: resolver_ok_def take_request_def)
qed

lemma worker_top_ok: "worker_free can p \<Longrightarrow> resolver_ok can (worker_top p)"
  using take_request_ok by (simp add: worker_top_def worker_free_def)

lemma worker_start_ok: "\<lbrakk>resolver_ok can p; rp_starting p > 0\<rbrakk> \<Longrightarrow> resolver_ok can (worker_start p)"
  unfolding worker_start_def
  by (rule worker_top_ok) (auto simp: worker_free_def resolver_ok_def)

lemma worker_wake_ok: "\<lbrakk>resolver_ok can p; rp_idle p > 0; rp_queue p \<noteq> []\<rbrakk> \<Longrightarrow> resolver_ok can (worker_wake p)"
  unfolding worker_wake_def by (rule take_request_ok) (auto simp: worker_free_def resolver_ok_def)

lemma request_ok_finished:
  assumes "request_ok p j (rp_requests p j)" "request_ok p i (rp_requests p i)" "i \<in> set (rp_running p)" "distinct (rp_running p)"
  shows "request_ok (p\<lparr>rp_running := remove1 i (rp_running p),
      rp_requests := (rp_requests p)(i := map_option (\<lambda>r. r\<lparr>rr_result := found, rr_done := True\<rparr>) (rp_requests p i))\<rparr>) j
    (((rp_requests p)(i := map_option (\<lambda>r. r\<lparr>rr_result := found, rr_done := True\<rparr>) (rp_requests p i))) j)"
proof (cases "j = i")
  case True
  then show ?thesis
    using assms by (auto simp: request_ok_def split: option.splits)
next
  case False
  then show ?thesis
    using assms(1,4) by (auto simp: request_ok_def split: option.splits)
qed

lemma worker_finish_ok:
  assumes "resolver_ok can p" "i \<in> set (rp_running p)"
  shows "resolver_ok can (worker_finish i found p)"
proof -
  have len: "Suc (length (remove1 i (rp_running p))) = length (rp_running p)"
    using assms(2) length_pos_if_in_set [OF assms(2)] by (simp add: length_remove1)
  have ok: "request_ok p j (rp_requests p j)" "distinct (rp_running p)" for j
    using assms(1) by (auto simp: resolver_ok_def)
  define p' where "p' = p\<lparr>rp_running := remove1 i (rp_running p),
    rp_requests := (rp_requests p)(i := map_option (\<lambda>r. r\<lparr>rr_result := found, rr_done := True\<rparr>) (rp_requests p i))\<rparr>"
  have "\<forall>j. request_ok p' j (rp_requests p' j)"
    using request_ok_finished [OF ok(1) ok(1) assms(2) ok(2)] unfolding p'_def by simp
  moreover have "rp_queue p' = rp_queue p" "rp_workers p' = rp_workers p" "rp_idle p' = rp_idle p" "rp_starting p' = rp_starting p"
      "length (rp_running p') + 1 = length (rp_running p)" "distinct (rp_running p')"
    using len ok(2) by (simp_all add: p'_def)
  ultimately have "worker_free can p'"
    using assms(1) unfolding worker_free_def resolver_ok_def by auto
  then show ?thesis
    unfolding worker_finish_def p'_def by (rule worker_top_ok)
qed

interpretation resolver: guarded_machine pool_start "resolver_step can" "resolver_ok can" for can
proof
  show "resolver_ok can p" if "pool_start p" for p
    using that by (simp add: pool_start_def ResolverPool_def resolver_ok_def request_ok_def)
  show "resolver_ok can p'" if "resolver_step can p p'" "resolver_ok can p" for p p'
    using that by (cases rule: resolver_stepE)
      (auto simp: room_turn_def answer_turn_ok worker_start_ok worker_wake_ok worker_finish_ok split: if_splits intro: submit_ok)
qed

text \<open>A request that was given up before a worker took it.\<close>

definition abandoned :: "nat \<Rightarrow> resolver_pool \<Rightarrow> bool" where
  "abandoned i p \<longleftrightarrow> i \<notin> set (rp_queue p) \<and> (\<exists>r. rp_requests p i = Some r \<and> \<not> rr_started r \<and> \<not> rr_done r)"

lemma Withdraw_abandons:
  assumes "resolver_ok can p" "rp_requests p i = Some r" "\<not> rr_started r"
  shows "abandoned i (Withdraw i p)"
proof -
  have "request_ok p i (Some r)"
    using assms(1,2) unfolding resolver_ok_def by metis
  then show ?thesis
    using assms(2,3) by (auto simp: request_ok_def abandoned_def Withdraw_def)
qed

lemma abandoned_take: "abandoned i p \<Longrightarrow> abandoned i (take_request p)"
  by (auto simp: abandoned_def take_request_def split: list.splits)

lemma abandoned_top: "abandoned i p \<Longrightarrow> abandoned i (worker_top p)"
  by (simp add: worker_top_def abandoned_take) (simp add: abandoned_def)

lemma abandoned_step:
  assumes "resolver_ok can p" "resolver_step can p p'" "abandoned i p"
  shows "abandoned i p'"
  using assms(2)
proof cases
  case (submitted e starts h n)
  have "i < rp_next p"
    using assms(1,3) resolver_okD(1) by (auto simp: abandoned_def)
  then show ?thesis
    using assms(3) submitted by (auto simp: abandoned_def submit_def Let_def Withdraw_def split: option.splits)
next
  case (waited j e)
  then show ?thesis
    using assms(3) by (auto simp: answer_turn_def Withdraw_def abandoned_def split: option.splits)
next
  case (finished j found)
  then have "j \<noteq> i"
    using assms(1,3) resolver_okD(3) by (fastforce simp: abandoned_def)
  then show ?thesis
    using assms(3) finished unfolding finished worker_finish_def by (intro abandoned_top) (simp add: abandoned_def)
qed (use assms(3) in \<open>auto simp: worker_start_def worker_wake_def abandoned_def intro!: abandoned_top [unfolded abandoned_def] abandoned_take [unfolded abandoned_def]\<close>)

text \<open>A request that was answered, and how.\<close>

definition has_answer :: "nat \<Rightarrow> string list connecting \<Rightarrow> resolver_pool \<Rightarrow> bool" where
  "has_answer i found p \<longleftrightarrow> (\<exists>r. rp_requests p i = Some r \<and> rr_started r \<and> rr_done r \<and> rr_result r = found)"

lemma has_answer_take:
  assumes "has_answer i found p" "\<And>j. j \<in> set (rp_queue p) \<Longrightarrow> j \<noteq> i"
  shows "has_answer i found (take_request p)"
  using assms by (auto simp: has_answer_def take_request_def split: list.splits)

lemma has_answer_top:
  "\<lbrakk>has_answer i found p; \<And>j. j \<in> set (rp_queue p) \<Longrightarrow> j \<noteq> i\<rbrakk> \<Longrightarrow> has_answer i found (worker_top p)"
  by (simp add: worker_top_def has_answer_take) (simp add: has_answer_def)

lemma worker_finish_answers:
  assumes "resolver_ok can p" "i \<in> set (rp_running p)"
  shows "has_answer i found (worker_finish i found p)"
proof -
  obtain r where "rp_requests p i = Some r" "rr_started r"
    using resolver_okD(3) [OF assms] by blast
  moreover from this have "i \<notin> set (rp_queue p)"
    using resolver_okD(2) [OF assms(1), of i] by auto
  ultimately show ?thesis
    unfolding worker_finish_def by (intro has_answer_top) (auto simp: has_answer_def)
qed

lemma has_answer_step:
  assumes "resolver_ok can p" "resolver_step can p p'" "has_answer i found p"
  shows "has_answer i found p'"
proof -
  have i: "i < rp_next p" "\<And>j. j \<in> set (rp_queue p) \<Longrightarrow> j \<noteq> i" "i \<notin> set (rp_running p)"
    using assms(3) resolver_okD [OF assms(1), of i] by (auto simp: has_answer_def)
  from assms(2) show ?thesis
  proof cases
    case (submitted e starts h n)
    then show ?thesis
      using assms(3) i(1) by (auto simp: has_answer_def submit_def Let_def Withdraw_def split: option.splits)
  next
    case (waited j e)
    then show ?thesis
      using assms(3) by (auto simp: answer_turn_def Withdraw_def has_answer_def split: option.splits)
  next
    case (finished j v)
    then show ?thesis
      using assms(3) i unfolding finished worker_finish_def by (intro has_answer_top) (auto simp: has_answer_def)
  next
    case started
    then show ?thesis
      using assms(3) i(2) unfolding started worker_start_def by (intro has_answer_top) (auto simp: has_answer_def)
  next
    case woken
    then show ?thesis
      using assms(3) i(2) unfolding woken worker_wake_def by (intro has_answer_take) (auto simp: has_answer_def)
  qed
qed

section \<open>Properties\<close>

text \<open>
  C13. Whatever the callers, the workers and the platform do, and in whichever order: at most four workers exist and at most sixteen
  requests wait, no request waits or is looked up twice, and a request that waits has a worker to get to it, as many as are free
  while the platform starts threads unless there are already four. A request its caller gave up before a worker took it is never
  looked up, and an answer stays what the worker found until the caller reads it.
\<close>

theorem resolver_pool_safe:
  assumes "reachable pool_start (resolver_step can) p"
  shows "rp_workers p \<le> 4 \<and> length (rp_queue p) \<le> 16 \<and> distinct (rp_queue p) \<and> distinct (rp_running p) \<and>
    set (rp_queue p) \<inter> set (rp_running p) = {} \<and> (rp_queue p \<noteq> [] \<longrightarrow> rp_workers p > 0) \<and>
    (can \<longrightarrow> rp_workers p = 4 \<or> length (rp_queue p) \<le> rp_idle p + rp_starting p) \<and>
    (\<forall>i r p'. rp_requests p i = Some r \<and> \<not> rr_started r \<and> (resolver_step can)\<^sup>*\<^sup>* (Withdraw i p) p' \<longrightarrow>
       i \<notin> set (rp_queue p') \<and> i \<notin> set (rp_running p')) \<and>
    (\<forall>i found p' e. i \<in> set (rp_running p) \<and> (resolver_step can)\<^sup>*\<^sup>* (worker_finish i found p) p' \<longrightarrow>
       answer_turn i e p' = (p', Some found))"
proof -
  have ok: "resolver_ok can p"
    using assms by (rule resolver.always)
  have apart: "set (rp_queue p) \<inter> set (rp_running p) = {}"
    using resolver_okD(2,3) [OF ok] by fastforce
  have given_up: "i \<notin> set (rp_queue p') \<and> i \<notin> set (rp_running p')"
    if "rp_requests p i = Some r" "\<not> rr_started r" "(resolver_step can)\<^sup>*\<^sup>* (Withdraw i p) p'" for i r p'
  proof -
    note w = Withdraw_ok [OF ok, of i]
    have "abandoned i p'"
      by (rule resolver.steps_mono [where P = "\<lambda>_. abandoned i", OF that(3) w])
        (auto intro: abandoned_step Withdraw_abandons [OF ok that(1,2)])
    then show ?thesis
      using resolver_okD(3) [OF resolver.steps_inv [OF that(3) w], of i] by (auto simp: abandoned_def)
  qed
  have delivered: "answer_turn i e p' = (p', Some found)"
    if "i \<in> set (rp_running p)" "(resolver_step can)\<^sup>*\<^sup>* (worker_finish i found p) p'" for i found p' e
  proof -
    have "has_answer i found p'"
      by (rule resolver.steps_mono [where P = "\<lambda>_. has_answer i found", OF that(2) worker_finish_ok [OF ok that(1)]])
        (auto intro: has_answer_step worker_finish_answers [OF ok that(1)])
    then show ?thesis
      by (auto simp: has_answer_def answer_turn_def)
  qed
  have "rp_workers p \<le> 4 \<and> length (rp_queue p) \<le> 16 \<and> distinct (rp_queue p) \<and> distinct (rp_running p) \<and>
      (rp_queue p \<noteq> [] \<longrightarrow> rp_workers p > 0) \<and> (can \<longrightarrow> rp_workers p = 4 \<or> length (rp_queue p) \<le> rp_idle p + rp_starting p)"
    using ok unfolding resolver_ok_def MAX_RESOLVER_WORKERS_def MAX_RESOLVER_QUEUE_def by (elim conjE) (intro conjI, assumption+)
  with apart given_up delivered show ?thesis
    by blast
qed

text \<open>A caller asks for a name and gives up before the worker started for it runs; the worker then finds nothing to do.\<close>

definition one_asked :: resolver_pool where
  "one_asked = fst (submit True ''db'' 1521 ResolverPool)"

lemma one_asked_reachable: "reachable pool_start (resolver_step True) one_asked"
proof (rule reachable_step)
  show "reachable pool_start (resolver_step True) ResolverPool"
    by (rule reachable_start) (simp add: pool_start_def)
  show "resolver_step True ResolverPool one_asked"
    unfolding one_asked_def
    by (rule resolver_step.submitted [where e = None]) (simp_all add: room_turn_def ResolverPool_def MAX_RESOLVER_QUEUE_def)
qed

lemma resolver_pool_safe_witness:
  "rp_workers one_asked = 1 \<and> rp_queue one_asked = [0] \<and> length (rp_queue one_asked) \<le> rp_idle one_asked + rp_starting one_asked \<and>
   0 \<notin> set (rp_running (worker_start (Withdraw 0 one_asked)))"
proof -
  have asked: "rp_workers one_asked = 1" "rp_queue one_asked = [0]" "rp_starting one_asked = 1"
      "\<exists>r. rp_requests one_asked 0 = Some r \<and> \<not> rr_started r"
    by (simp_all add: one_asked_def submit_def ResolverPool_def MAX_RESOLVER_WORKERS_def Let_def)
  then have "resolver_step True (Withdraw 0 one_asked) (worker_start (Withdraw 0 one_asked))"
    by (intro resolver_step.started) (auto simp: Withdraw_def split: option.splits)
  then show ?thesis
    using resolver_pool_safe [OF one_asked_reachable] asked by auto
qed

end
