(* ===== verification/Tns_Handshake.thy ===== *)
theory Tns_Handshake
  imports Byte_Stream Connect_Config
begin

text \<open>
  \<^verbatim>\<open>src/tns_connect.cpp\<close> and \<^verbatim>\<open>src/tns_handshake.cpp\<close>: the CONNECT a client sends a listener, and what it makes of
  the answer: an ACCEPT, a REDIRECT whose data may follow in DATA packets, or a REFUSE.
\<close>

section \<open>CONNECT\<close>

definition CONNECT :: tns_packet_type where "CONNECT = 1"
definition ACCEPT :: tns_packet_type where "ACCEPT = 2"
definition REFUSE :: tns_packet_type where "REFUSE = 4"
definition REDIRECT :: tns_packet_type where "REDIRECT = 5"
definition RESEND :: tns_packet_type where "RESEND = 11"

definition TNS_PACKET_FLAG_REDIRECT :: u8 where "TNS_PACKET_FLAG_REDIRECT = 4"

record tns_connect_options =
  desired_version :: u16
  minimum_version :: u16
  requested_sdu :: u16
  requested_tdu :: u16
  supports_oob :: bool
  packet_flags :: u8

definition TnsConnectOptions :: tns_connect_options where
  "TnsConnectOptions = \<lparr>desired_version = 319, minimum_version = 300, requested_sdu = 8192, requested_tdu = 8192,
     supports_oob = True, packet_flags = 0\<rparr>"

definition CONNECT_FIXED_PAYLOAD_SIZE :: nat where "CONNECT_FIXED_PAYLOAD_SIZE = 66"

definition CONNECT_HEADER_TOTAL_SIZE :: nat where
  "CONNECT_HEADER_TOTAL_SIZE = TNS_PACKET_HEADER_SIZE + CONNECT_FIXED_PAYLOAD_SIZE"

definition MAX_INLINE_CONNECT_DATA :: nat where "MAX_INLINE_CONNECT_DATA = 230"

definition StoreUInt16 :: "nat \<Rightarrow> u16 \<Rightarrow> bytes \<Rightarrow> bytes" where
  "StoreUInt16 offset v target = target[offset := ucast (drop_bit 8 v), offset + 1 := ucast v]"

definition StoreUInt32 :: "nat \<Rightarrow> u32 \<Rightarrow> bytes \<Rightarrow> bytes" where
  "StoreUInt32 offset v target = target[offset := ucast (drop_bit 24 v), offset + 1 := ucast (drop_bit 16 v),
     offset + 2 := ucast (drop_bit 8 v), offset + 3 := ucast v]"

definition connect_fields :: "string \<Rightarrow> tns_connect_options \<Rightarrow> bytes \<Rightarrow> bytes" where
  "connect_fields descriptor options payload =
     (let payload = StoreUInt16 0 (desired_version options) payload;
          payload = StoreUInt16 2 (minimum_version options) payload;
          payload = StoreUInt16 4 (0x0001 OR (if supports_oob options then 0x0400 else 0)) payload;
          payload = StoreUInt16 6 (requested_sdu options) payload;
          payload = StoreUInt16 8 (requested_tdu options) payload;
          payload = StoreUInt16 10 0x4f98 payload;
          payload = StoreUInt16 14 0x0001 payload;
          payload = StoreUInt16 16 (of_nat (length descriptor)) payload;
          payload = StoreUInt16 18 (of_nat CONNECT_HEADER_TOTAL_SIZE) payload;
          payload = StoreUInt32 20 0 payload
      in payload[24 := 0x84, 25 := 0x84, 52 := 0x20, 56 := 0x20, 25 := 0x84,
           65 := if supports_oob options then 0x01 else 0x00])"

definition BuildTnsConnectPackets :: "string \<Rightarrow> tns_connect_options \<Rightarrow> tns_packet list result" where
  "BuildTnsConnectPackets descriptor options =
     (if descriptor = '''' \<or> length descriptor > 65535 - TNS_PACKET_HEADER_SIZE - 2 \<or>
         desired_version options < minimum_version options \<or> requested_sdu options < 512 \<or>
         requested_tdu options < requested_sdu options then throw MALFORMED
      else
        let inline = length descriptor \<le> MAX_INLINE_CONNECT_DATA;
            payload = connect_fields descriptor options (replicate CONNECT_FIXED_PAYLOAD_SIZE 0) @
              (if inline then to_bytes descriptor else [])
        in Inr (\<lparr>pk_type = CONNECT, pk_flags = packet_flags options, pk_payload = payload\<rparr> #
             (if inline then [] else [\<lparr>pk_type = DATA, pk_flags = 0, pk_payload = [0, 0] @ to_bytes descriptor\<rparr>])))"

section \<open>REDIRECT\<close>

definition ReadUInt16 :: "bytes \<Rightarrow> nat \<Rightarrow> u16" where
  "ReadUInt16 bs offset = push_bit 8 (ucast (bs ! offset)) OR ucast (bs ! (offset + 1))"

definition ReadUInt32 :: "bytes \<Rightarrow> nat \<Rightarrow> u32" where
  "ReadUInt32 bs offset = push_bit 24 (ucast (bs ! offset)) OR push_bit 16 (ucast (bs ! (offset + 1))) OR
     push_bit 8 (ucast (bs ! (offset + 2))) OR ucast (bs ! (offset + 3))"

definition redirect_char :: "u8 \<Rightarrow> char result" where
  "redirect_char b =
     (if b = 0x0d \<or> b = 0x0a \<or> b = 0x09 then Inr (CHR '' '')
      else if b < 0x20 \<or> b > 0x7e then throw MALFORMED
      else Inr (char_of (unat b)))"

definition trim_blanks :: "string \<Rightarrow> string" where
  "trim_blanks s = rev (dropWhile (\<lambda>c. c = CHR '' '') (rev (dropWhile (\<lambda>c. c = CHR '' '') s)))"

definition RedirectText :: "bytes \<Rightarrow> string result" where
  "RedirectText bs = map_sum id trim_blanks (collect redirect_char bs)"

record tns_redirect =
  redirect_address :: string
  reconnect_data :: string

definition TNS_REDIRECT_FLAG_HAS_RECONNECT_DATA :: u8 where "TNS_REDIRECT_FLAG_HAS_RECONNECT_DATA = 2"

definition drop_nuls :: "bytes \<Rightarrow> bytes" where
  "drop_nuls bs = rev (dropWhile (\<lambda>b. b = 0) (rev bs))"

definition ParseTnsRedirectData :: "bytes \<Rightarrow> u8 \<Rightarrow> tns_redirect result" where
  "ParseTnsRedirectData data flags =
     (if data = [] then throw MALFORMED
      else
        let address_part = takeWhile (\<lambda>b. b \<noteq> 0) data;
            rest = dropWhile (\<lambda>b. b \<noteq> 0) data
        in if rest = [] \<and> flags AND TNS_REDIRECT_FLAG_HAS_RECONNECT_DATA \<noteq> 0 then throw MALFORMED
           else andthen (RedirectText address_part) (\<lambda>address.
                andthen (if rest = [] then Inr '''' else RedirectText (drop_nuls (tl rest))) (\<lambda>reconnect.
                if length address < 2 \<or> hd address \<noteq> CHR ''('' \<or> last address \<noteq> CHR '')'' then throw MALFORMED
                else if reconnect \<noteq> '''' \<and> (hd reconnect \<noteq> CHR ''('' \<or> last reconnect \<noteq> CHR '')'') then throw MALFORMED
                else Inr \<lparr>redirect_address = address, reconnect_data = reconnect\<rparr>)))"

text \<open>Actions of the handshake, whose errors say why a connect failed.\<close>

type_synonym ('s, 'a) connect_action = "'s \<Rightarrow> 's \<times> 'a connecting"

definition then_connect :: "('s, 'a) connect_action \<Rightarrow> ('a \<Rightarrow> ('s, 'b) connect_action) \<Rightarrow> ('s, 'b) connect_action" where
  "then_connect m f s = (case m s of (s', Inl e) \<Rightarrow> (s', Inl e) | (s', Inr a) \<Rightarrow> f a s')"

lemma then_connect_simps [simp]:
  "m s = (s', Inl e) \<Longrightarrow> then_connect m f s = (s', Inl e)"
  "m s = (s', Inr a) \<Longrightarrow> then_connect m f s = f a s'"
  by (simp_all add: then_connect_def)

definition plain_result :: "'a result \<Rightarrow> ('s, 'a) connect_action" where
  "plain_result r s = (s, map_sum Plain_error id r)"

text \<open>A read that finds the stream ended is the transport's fault, any other failure the listener's.\<close>

definition receive_classified :: "(packet_stream, tns_packet) connect_action" where
  "receive_classified p =
     (case ReceivePacket p of
        (p', Inl e) \<Rightarrow> (p', Inl (if Kind e = TRUNCATED then OracleConnectError TRUNCATED TRANSPORT_LOST 0 else Plain_error e))
      | (p', Inr packet) \<Rightarrow> (p', Inr packet))"

definition send_classified :: "tns_packet list \<Rightarrow> (packet_stream, unit) connect_action" where
  "send_classified request p =
     (case SendGroup request p of
        (p', Inl e) \<Rightarrow> (p', Inl (OracleConnectError TRUNCATED TRANSPORT_LOST 0))
      | (p', Inr _) \<Rightarrow> (p', Inr ()))"

definition TNS_MAX_REDIRECT_CONTINUATIONS :: nat where "TNS_MAX_REDIRECT_CONTINUATIONS = 16"

text \<open>The first argument counts the continuation packets that may still be read.\<close>

fun redirect_loop :: "nat \<Rightarrow> nat \<Rightarrow> bytes \<Rightarrow> (packet_stream, bytes) connect_action" where
  "redirect_loop 0 declared data p =
     (p, if length data < declared then Inl (Plain_error (ProtocolError LIMIT_EXCEEDED None)) else Inr data)"
| "redirect_loop (Suc left) declared data p =
     (if length data < declared then
        then_connect receive_classified (\<lambda>packet.
          let payload = pk_payload packet
          in if pk_type packet \<noteq> DATA then plain_result (throw MALFORMED)
             else if length payload < 2 then plain_result (throw TRUNCATED)
             else if length payload = 2 then plain_result (throw MALFORMED)
             else if length data + (length payload - 2) > declared then plain_result (throw MALFORMED)
             else redirect_loop left declared (data @ drop 2 payload)) p
      else (p, Inr data))"

definition ReadRedirectData :: "tns_packet \<Rightarrow> (packet_stream, bytes) connect_action" where
  "ReadRedirectData redirect =
     (let payload = pk_payload redirect
      in if length payload < 2 then plain_result (throw TRUNCATED)
         else
           let declared = unat (ReadUInt16 payload 0)
           in if declared = 0 then plain_result (throw MALFORMED)
              else if length payload - 2 > declared then plain_result (throw MALFORMED)
              else redirect_loop TNS_MAX_REDIRECT_CONTINUATIONS declared (drop 2 payload))"

section \<open>REFUSE\<close>

text \<open>The first \<^verbatim>\<open>(ERR=NNNNN)\<close> of a message, in any case and with white space around its parts; 0 when there is none.\<close>

definition error_element :: "string \<Rightarrow> nat option" where
  "error_element s =
     (let s = dropWhile isspace s
      in if upper (take 3 s) \<noteq> ''ERR'' then None
         else
           let s = dropWhile isspace (drop 3 s)
           in if s = [] \<or> hd s \<noteq> CHR ''='' then None
              else
                let s = dropWhile isspace (tl s);
                    digits = takeWhile isdigit (take 9 s);
                    s = dropWhile isspace (drop (length digits) s)
                in if digits = [] \<or> s = [] \<or> hd s \<noteq> CHR '')'' then None
                   else Some (foldl (\<lambda>v c. v * 10 + digit_value c) 0 digits))"

fun ExtractRefusalCode :: "string \<Rightarrow> u32" where
  "ExtractRefusalCode [] = 0"
| "ExtractRefusalCode (c # cs) =
     (if c = CHR ''('' then (case error_element cs of Some code \<Rightarrow> of_nat code | None \<Rightarrow> ExtractRefusalCode cs)
      else ExtractRefusalCode cs)"

record tns_refusal =
  user_reason :: u8
  system_reason :: u8
  oracle_error :: u32
  refusal_message :: string

definition MAX_REFUSAL_MESSAGE :: nat where "MAX_REFUSAL_MESSAGE = 1024"

definition refusal_text :: "bytes \<Rightarrow> string" where
  "refusal_text payload =
     (let declared = unat (ReadUInt16 payload 2);
          available = min declared (length payload - 4)
      in map (\<lambda>b. if 0x20 \<le> b \<and> b \<le> 0x7e then char_of (unat b) else CHR '' '')
           (take MAX_REFUSAL_MESSAGE (takeWhile (\<lambda>b. b \<noteq> 0) (take available (drop 4 payload)))))"

definition ParseTnsRefusal :: "bytes \<Rightarrow> tns_refusal" where
  "ParseTnsRefusal payload =
     (let message = (if length payload \<ge> 4 then refusal_text payload else '''')
      in \<lparr>user_reason = if length payload \<ge> 2 then payload ! 0 else 0,
          system_reason = if length payload \<ge> 2 then payload ! 1 else 0,
          oracle_error = ExtractRefusalCode message, refusal_message = message\<rparr>)"

section \<open>The exchange\<close>

definition TNS_VERSION_MIN_END_OF_RESPONSE :: u16 where "TNS_VERSION_MIN_END_OF_RESPONSE = 319"
definition TNS_ACCEPT_FLAG_HAS_END_OF_RESPONSE :: u32 where "TNS_ACCEPT_FLAG_HAS_END_OF_RESPONSE = 0x02000000"

record tns_accepted =
  accepted_sdu :: u16
  check_oob :: bool
  accept_version :: u16
  end_of_response :: bool

datatype tns_connect_result = Accepted tns_accepted | Redirected tns_redirect

definition parse_accept :: "bytes \<Rightarrow> tns_accepted result" where
  "parse_accept payload =
     (if length payload < 28 then throw TRUNCATED
      else if ReadUInt16 payload 26 < 512 then throw MALFORMED
      else
        let flags2 = (if length payload \<ge> 37 then ReadUInt32 payload 33 else 0);
            version = ReadUInt16 payload 0
        in Inr \<lparr>accepted_sdu = ReadUInt16 payload 26, check_oob = (flags2 AND 1 \<noteq> 0), accept_version = version,
             end_of_response = (version \<ge> TNS_VERSION_MIN_END_OF_RESPONSE \<and>
               flags2 AND TNS_ACCEPT_FLAG_HAS_END_OF_RESPONSE \<noteq> 0)\<rparr>)"

definition answer :: "tns_packet \<Rightarrow> (packet_stream, tns_connect_result) connect_action" where
  "answer response =
     (if pk_type response = ACCEPT then plain_result (map_sum id Accepted (parse_accept (pk_payload response)))
      else if pk_type response = REDIRECT then
        then_connect (ReadRedirectData response) (\<lambda>data.
          plain_result (map_sum id Redirected (ParseTnsRedirectData data (pk_flags response))))
      else if pk_type response = REFUSE then
        (\<lambda>p. (p, Inl (OracleConnectError INVALID_STATE LISTENER_REFUSED (oracle_error (ParseTnsRefusal (pk_payload response))))))
      else plain_result (throw MALFORMED))"

definition RunTnsConnect :: "string \<Rightarrow> tns_connect_options \<Rightarrow> (packet_stream, tns_connect_result) connect_action" where
  "RunTnsConnect descriptor options =
     then_connect (plain_result (BuildTnsConnectPackets descriptor options)) (\<lambda>request.
     then_connect (send_classified request) (\<lambda>_.
     then_connect receive_classified (\<lambda>response.
       if pk_type response = RESEND
       then then_connect (send_classified request) (\<lambda>_. then_connect receive_classified answer)
       else answer response)))"

section \<open>Lemmas\<close>

text \<open>A stream that delivers these packets one after the other, and then this.\<close>

inductive sends :: "packet_stream \<Rightarrow> tns_packet list \<Rightarrow> packet_stream \<Rightarrow> bool" where
  sends_nothing: "sends p [] p"
| sends_packet: "\<lbrakk>ReceivePacket p = (p', Inr packet); sends p' packets p''\<rbrakk> \<Longrightarrow> sends p (packet # packets) p''"

inductive_cases sends_NilE: "sends p [] p'"
inductive_cases sends_ConsE: "sends p (packet # packets) p'"

abbreviation continuation :: "u8 \<Rightarrow> bytes \<Rightarrow> bytes \<Rightarrow> tns_packet" where
  "continuation flags data_flags chunk \<equiv> \<lparr>pk_type = DATA, pk_flags = flags, pk_payload = data_flags @ chunk\<rparr>"

lemma redirect_loop_reads:
  assumes "sends p packets p'" "list_all2 (\<lambda>packet chunk. \<exists>f g. packet = continuation f g chunk \<and> length g = 2 \<and> chunk \<noteq> []) packets chunks"
    and "length packets \<le> left" "length (data @ concat chunks) = declared"
  shows "redirect_loop left declared data p = (p', Inr (data @ concat chunks))"
  using assms
proof (induction packets arbitrary: p chunks left data)
  case Nil
  then show ?case by (cases left) (auto elim: sends_NilE)
next
  case (Cons packet packets)
  obtain f g chunk cs where c: "chunks = chunk # cs" "packet = continuation f g chunk" "length g = 2" "chunk \<noteq> []"
    "list_all2 (\<lambda>packet chunk. \<exists>f g. packet = continuation f g chunk \<and> length g = 2 \<and> chunk \<noteq> []) packets cs"
    using Cons.prems(2) by (auto simp: list_all2_Cons1)
  obtain n where n: "left = Suc n" using Cons.prems(3) by (cases left) auto
  obtain p1 where p1: "ReceivePacket p = (p1, Inr packet)" "sends p1 packets p'"
    using Cons.prems(1) by (auto elim: sends_ConsE)
  have "receive_classified p = (p1, Inr packet)" using p1(1) by (simp add: receive_classified_def)
  moreover have "length data < declared" "\<not> declared < length data + length chunk"
    using Cons.prems(4) c(1,4) by auto
  ultimately have "redirect_loop left declared data p = redirect_loop n declared (data @ chunk) p1"
    unfolding n using c(2-4) by (simp add: Let_def)
  then show ?case
    using Cons.IH[OF p1(2) c(5), of n "data @ chunk"] Cons.prems(3,4) c(1) n by simp
qed

section \<open>Properties\<close>

text \<open>
  C40. Redirect data is assembled whole. However a listener spreads the data it declares over the REDIRECT packet and
  at most sixteen DATA packets after it, none of them empty, it is the parts in order that are parsed, and nothing
  after them is read.
\<close>

theorem redirect_assembled:
  assumes "ReceivePacket p = (p\<^sub>1, Inr \<lparr>pk_type = REDIRECT, pk_flags = flags, pk_payload = [high, low] @ first\<rparr>)"
    and "sends p\<^sub>1 packets p\<^sub>2" "length packets \<le> TNS_MAX_REDIRECT_CONTINUATIONS"
    and "list_all2 (\<lambda>packet chunk. \<exists>f g. packet = continuation f g chunk \<and> length g = 2 \<and> chunk \<noteq> []) packets chunks"
    and "unat (push_bit 8 (ucast high) OR ucast low :: u16) = length (first @ concat chunks)" "first @ concat chunks \<noteq> []"
  shows "then_connect receive_classified answer p =
    (p\<^sub>2, map_sum Plain_error Redirected (ParseTnsRedirectData (first @ concat chunks) flags))"
proof -
  let ?data = "first @ concat chunks"
  let ?packet = "\<lparr>pk_type = REDIRECT, pk_flags = flags, pk_payload = [high, low] @ first\<rparr>"
  have d: "unat (ReadUInt16 ([high, low] @ first) 0) = length ?data" using assms(5) by (simp add: ReadUInt16_def)
  have "redirect_loop TNS_MAX_REDIRECT_CONTINUATIONS (length ?data) first p\<^sub>1 = (p\<^sub>2, Inr ?data)"
    using redirect_loop_reads[OF assms(2,4,3)] by simp
  moreover have "length ?data \<noteq> 0" using assms(6) by (metis length_0_conv)
  ultimately have "ReadRedirectData ?packet p\<^sub>1 = (p\<^sub>2, Inr ?data)"
    using d unfolding ReadRedirectData_def Let_def by auto
  moreover have "receive_classified p = (p\<^sub>1, Inr ?packet)" using assms(1) by (simp add: receive_classified_def)
  moreover have "REDIRECT \<noteq> ACCEPT" by (simp add: REDIRECT_def ACCEPT_def)
  ultimately show ?thesis
    by (simp add: answer_def plain_result_def sum.map_comp comp_def)
qed

definition redirect_stream :: packet_stream where
  "redirect_stream = \<lparr>stream = \<lparr>inbound = [[0, 11, 0, 0, 5, 0, 0, 0], [0, 2, 0x28, 0], [11, 0, 0, 6, 0, 0, 0, 0, 0, 0x29]], outbound = [], accepted = []\<rparr>,
     large_length = False, packet_limit = 100, bytes_sent = 0, bytes_received = 0, round_trips = 0, awaiting_response = False\<rparr>"

lemma redirect_assembled_witness:
  "\<exists>p'. then_connect receive_classified answer redirect_stream =
     (p', Inr (Redirected \<lparr>redirect_address = ''()'', reconnect_data = ''''\<rparr>))"
proof -
  have decode: "DecodeTnsPacket [0, 11, 0, 0, 5, 0, 0, 0, 0, 2, 0x28] False 100 = Inr \<lparr>pk_type = REDIRECT, pk_flags = 0, pk_payload = [0, 2] @ [0x28]\<rparr>"
    "DecodeTnsPacket [0, 11, 0, 0, 6, 0, 0, 0, 0, 0, 0x29] False 100 = Inr (continuation 0 [0, 0] [0x29])"
    by (simp_all add: DecodeTnsPacket_def header_uint16_def TNS_PACKET_HEADER_SIZE_def MAX_TNS_PACKET_LENGTH_def REDIRECT_def DATA_def Let_def)
  obtain p1 where p1: "ReceivePacket redirect_stream = (p1, Inr \<lparr>pk_type = REDIRECT, pk_flags = 0, pk_payload = [0, 2] @ [0x28]\<rparr>)"
    "pieces_ok (stream p1)" "pending (stream p1) = [0, 11, 0, 0, 6, 0, 0, 0, 0, 0, 0x29]" "large_length p1 = False" "packet_limit p1 = 100"
    using ReceivePacket_wire[of redirect_stream "[0, 11, 0, 0, 5, 0, 0, 0, 0, 2, 0x28]" "[0, 11, 0, 0, 6, 0, 0, 0, 0, 0, 0x29]"] decode(1)
    by (auto simp: redirect_stream_def pieces_ok_def pending_def)
  obtain p2 where p2: "ReceivePacket p1 = (p2, Inr (continuation 0 [0, 0] [0x29]))"
    using ReceivePacket_wire[of p1 "[0, 11, 0, 0, 6, 0, 0, 0, 0, 0, 0x29]" "[]"] p1(2-5) decode(2) by auto
  have "then_connect receive_classified answer redirect_stream =
    (p2, map_sum Plain_error Redirected (ParseTnsRedirectData ([0x28] @ concat [[0x29]]) 0))"
  proof (rule redirect_assembled[OF p1(1)])
    show "sends p1 [continuation 0 [0, 0] [0x29]] p2" by (rule sends_packet[OF p2 sends_nothing])
    show "list_all2 (\<lambda>packet chunk. \<exists>f g. packet = continuation f g chunk \<and> length g = 2 \<and> chunk \<noteq> [])
        [continuation 0 [0, 0] [0x29]] [[0x29]]"
      by simp
  qed (simp_all add: TNS_MAX_REDIRECT_CONTINUATIONS_def)
  moreover have "char_of (40 :: nat) = CHR ''(''" "char_of (41 :: nat) = CHR '')''" by code_simp+
  ultimately show ?thesis
    by (simp add: ParseTnsRedirectData_def RedirectText_def redirect_char_def trim_blanks_def
        TNS_REDIRECT_FLAG_HAS_RECONNECT_DATA_def drop_nuls_def)
qed

end
