(* ===== verification/Connect_Run.thy ===== *)
theory Connect_Run
  imports Tns_Handshake Descriptor_Parser
begin

text \<open>
  The connect loop of \<^verbatim>\<open>src/tns_client.cpp\<close> (\<^verbatim>\<open>ConnectRun\<close>) over \<^verbatim>\<open>src/transport_factory.cpp\<close>: which
  listeners one physical connect dials, in which order, what it does with a redirect, and when it gives up. The network, the
  resolver and the clock are the record \<open>network\<close>; every call of it says how much time has passed.
\<close>

section \<open>What the loop is given\<close>

text \<open>What the checks around a wait found: the deadline passed or the caller cancelled.\<close>

datatype interruption = Undisturbed | By_cancellation | By_budget

text \<open>One transport that is opened: the address dialled, its port, the timeout, and the TLS names its certificate is checked against.\<close>

record dial =
  dial_address :: string
  dial_port :: u16
  dial_timeout :: u32
  dial_tls :: bool
  dial_server_name :: string
  dial_sni_name :: string

record 'w network =
  cancelled :: "'w \<Rightarrow> bool"
  lookup_host :: "string \<Rightarrow> u16 \<Rightarrow> 'w \<Rightarrow> (interruption \<times> string list connecting) \<times> nat \<times> 'w"
  open_transport :: "dial \<Rightarrow> 'w \<Rightarrow> byte_stream connecting \<times> nat \<times> 'w"
  exchanged :: "dial \<Rightarrow> 'w \<Rightarrow> interruption \<times> nat \<times> 'w"
  send_urgent :: "u8 \<Rightarrow> byte_stream \<Rightarrow> byte_stream \<times> unit result"
  sleep_over :: "nat \<Rightarrow> 'w \<Rightarrow> nat \<times> 'w"

record connect_setup =
  os :: platform
  config :: connection_config
  tls_server :: string
  tls_sni :: string
  deadline :: nat

record 'w connect_run =
  world :: 'w
  clock :: nat
  transport_opens :: nat
  opened :: "dial list"
  attempts :: "(connect_address \<times> string) list"

type_synonym ('w, 'a) step = "'w connect_run \<Rightarrow> 'w connect_run \<times> 'a connecting"

definition MAX_CONNECT_REDIRECTS :: nat where "MAX_CONNECT_REDIRECTS = 3"
definition MAX_CONNECT_TRANSPORT_OPENS :: nat where "MAX_CONNECT_TRANSPORT_OPENS = 256"
definition MAX_RESOLVED_ADDRESSES :: nat where "MAX_RESOLVED_ADDRESSES = 8"

section \<open>Limits\<close>

definition cancelled_error :: connect_error where
  "cancelled_error = OracleConnectError INVALID_STATE CANCELLED 0"

definition budget_error :: connect_error where
  "budget_error = OracleConnectError TRUNCATED BUDGET_EXHAUSTED 0"

definition CheckCancelled :: "'w network \<Rightarrow> ('w, unit) step" where
  "CheckCancelled n r = (r, if cancelled n (world r) then Inl cancelled_error else Inr ())"

definition CheckBudget :: "connect_setup \<Rightarrow> ('w, unit) step" where
  "CheckBudget x r = (r, if clock r \<ge> deadline x then Inl budget_error else Inr ())"

definition check_interruption :: "interruption \<Rightarrow> ('w, unit) step" where
  "check_interruption i r =
     (r, case i of Undisturbed \<Rightarrow> Inr () | By_cancellation \<Rightarrow> Inl cancelled_error | By_budget \<Rightarrow> Inl budget_error)"

definition BeforeAttempt :: "'w network \<Rightarrow> connect_setup \<Rightarrow> ('w, unit) step" where
  "BeforeAttempt n x =
     then_connect (CheckCancelled n) (\<lambda>_.
     then_connect (CheckBudget x) (\<lambda>_ r.
       (r\<lparr>transport_opens := transport_opens r + 1\<rparr>,
        if transport_opens r + 1 > MAX_CONNECT_TRANSPORT_OPENS then Inl budget_error else Inr ())))"

text \<open>Whole seconds, rounded up, of what is left of the budget.\<close>

definition AttemptTimeoutSeconds :: "connect_setup \<Rightarrow> 'w connect_run \<Rightarrow> u32" where
  "AttemptTimeoutSeconds x r =
     (let remaining = max (deadline x - clock r) 1
      in min (connect_timeout_seconds (config x)) (of_nat (min (unat (connect_timeout_seconds (config x))) ((remaining + 999) div 1000))))"

text \<open>\<open>RETRY_DELAY\<close> in slices of a tenth of a second; a sleep may take longer than it was asked to.\<close>

function delay_loop :: "'w network \<Rightarrow> nat \<Rightarrow> ('w, unit) step" where
  "delay_loop n finish r =
     (if clock r < finish then
        let slice = min (finish - clock r) 100;
            (over, w) = sleep_over n slice (world r)
        in if cancelled n w then (r\<lparr>clock := clock r + slice + over, world := w\<rparr>, Inl cancelled_error)
           else delay_loop n finish (r\<lparr>clock := clock r + slice + over, world := w\<rparr>)
      else (r, Inr ()))"
  by pat_completeness auto
termination
  by (relation "measure (\<lambda>(n, finish, r). finish - clock r)") (auto simp: min_def)

declare delay_loop.simps [simp del]

definition Delay :: "'w network \<Rightarrow> connect_setup \<Rightarrow> ('w, unit) step" where
  "Delay n x =
     then_connect (CheckCancelled n) (\<lambda>_ r.
       let finish = clock r + unat (retry_delay_seconds (routing (config x))) * 1000
       in if finish \<ge> deadline x then (r, Inl budget_error) else delay_loop n finish r)"

section \<open>Names\<close>

text \<open>At most eight different addresses, in the resolver's order.\<close>

fun distinct_addresses :: "string list \<Rightarrow> string list \<Rightarrow> string list" where
  "distinct_addresses found [] = found"
| "distinct_addresses found (a # as) =
     (let found = (if a \<in> set found then found else found @ [a])
      in if length found = MAX_RESOLVED_ADDRESSES then found else distinct_addresses found as)"

definition ResolveOracleHost :: "string list connecting \<Rightarrow> string list connecting" where
  "ResolveOracleHost resolved =
     (case resolved of
        Inl e \<Rightarrow> Inl e
      | Inr as \<Rightarrow> if distinct_addresses [] as = [] then Inl (OracleConnectError TRUNCATED UNREACHABLE 0)
                  else Inr (distinct_addresses [] as))"

definition Resolve :: "'w network \<Rightarrow> connect_setup \<Rightarrow> connect_address \<Rightarrow> ('w, string list) step" where
  "Resolve n x target =
     then_connect (CheckCancelled n) (\<lambda>_.
     then_connect (CheckBudget x) (\<lambda>_ r.
       if IsIpLiteral (os x) (ca_host target) then (r, Inr [ca_host target])
       else case lookup_host n (ca_host target) (ca_port target) (world r) of
           ((interrupted, resolved), elapsed, w) \<Rightarrow>
             then_connect (check_interruption interrupted) (\<lambda>_.
             then_connect (\<lambda>r. (r, ResolveOracleHost resolved)) (\<lambda>as.
             then_connect (CheckBudget x) (\<lambda>_ r. (r, Inr as))))
             (r\<lparr>clock := clock r + elapsed, world := w\<rparr>)))"

section \<open>Redirects\<close>

definition lower_host :: "string \<Rightarrow> string" where
  "lower_host = map tolower"

definition AddressKey :: "connect_address \<Rightarrow> string" where
  "AddressKey a = lower_host (ca_host a) @ '':'' @ decimal (unat (ca_port a))"

text \<open>
  One level of a redirect chain: the target that is being dialled, the targets after it, and the target's addresses that are
  left. The source keeps two vectors and the indices of what comes next in them.
\<close>

record level =
  lv_target :: "connect_address option"
  lv_targets :: "connect_address list"
  lv_addresses :: "string list"
  lv_reconnect_data :: string
  lv_packet_flags :: u8
  lv_depth :: nat

definition current_target :: "level \<Rightarrow> connect_address" where
  "current_target l = the (lv_target l)"

fun redirect_targets :: "connect_address \<Rightarrow> string set \<Rightarrow> redirect_address list \<Rightarrow> connect_address list connecting" where
  "redirect_targets from path [] = Inr []"
| "redirect_targets from path (c # cs) =
     (if protocol_given c \<and> ca_protocol (ra_address c) \<noteq> ca_protocol from
      then Inl (OracleConnectError INVALID_STATE PROTOCOL_FAULT 0)
      else
        let address = (ra_address c)\<lparr>ca_protocol := ca_protocol from\<rparr>
        in if AddressKey address \<in> path then redirect_targets from path cs
           else map_sum id ((#) address) (redirect_targets from path cs))"

definition FollowRedirect ::
  "connect_setup \<Rightarrow> connect_address \<Rightarrow> tns_redirect \<Rightarrow> nat \<Rightarrow> level list \<Rightarrow> connect_address list connecting" where
  "FollowRedirect x from redirect depth stack =
     (if depth + 1 > MAX_CONNECT_REDIRECTS then Inl (OracleConnectError INVALID_STATE REDIRECT_FAILED 0)
      else case ParseRedirectAddresses (os x) (redirect_address redirect) of
          Inl e \<Rightarrow> Inl (Plain_error e)
        | Inr redirected \<Rightarrow>
            (case (if reconnect_data redirect = '''' then Inr () else ValidateRedirectReconnectData (reconnect_data redirect)) of
               Inl e \<Rightarrow> Inl (Plain_error e)
             | Inr _ \<Rightarrow>
                 (case redirect_targets from (set (map (\<lambda>l. AddressKey (current_target l)) stack)) redirected of
                    Inl e \<Rightarrow> Inl e
                  | Inr [] \<Rightarrow> Inl (OracleConnectError INVALID_STATE REDIRECT_FAILED 0)
                  | Inr (a # as) \<Rightarrow> Inr (a # as))))"

section \<open>One attempt\<close>

record accepted_stream =
  as_stream :: byte_stream
  as_result :: tns_accepted
  as_descriptor :: string
  as_original :: connect_address

text \<open>The out-of-band probe that an ACCEPT may ask for.\<close>

definition CONTROL :: tns_packet_type where "CONTROL = 14"

definition RunCheckOobProbe :: "'w network \<Rightarrow> u16 \<Rightarrow> byte_stream \<Rightarrow> byte_stream \<times> unit result" where
  "RunCheckOobProbe n sdu s =
     (case send_urgent n 0x21 s of
        (s, Inl e) \<Rightarrow> (s, Inl e)
      | (s, Inr _) \<Rightarrow>
          (case TnsPacketStream s True (unat sdu) of
             Inl e \<Rightarrow> (s, Inl e)
           | Inr p \<Rightarrow>
               (case after (SendPacket \<lparr>pk_type = 12, pk_flags = 0, pk_payload = [1, 0, 2]\<rparr>) (\<lambda>_.
                       after ReceivePacket (\<lambda>reply.
                         if pk_type reply \<noteq> CONTROL \<or> length (pk_payload reply) \<noteq> 2 then failing MALFORMED else returning ())) p of
                  (p, r) \<Rightarrow> (stream p, r))))"

text \<open>What an attempt comes to.\<close>

datatype outcome =
    Taken accepted_stream
  | Sent_on level
  | Try_next connect_error
  | Give_up connect_error

definition outcome_of :: "connect_error \<Rightarrow> outcome" where
  "outcome_of e =
     (case e of
        OracleConnectError k f c \<Rightarrow> if ConnectFailureAllowsFailover f then Try_next e else Give_up e
      | Plain_error _ \<Rightarrow> Give_up e)"

definition after_exchange :: "'w network \<Rightarrow> dial \<Rightarrow> 'w connect_run \<Rightarrow> interruption \<times> 'w connect_run" where
  "after_exchange n d r = (case exchanged n d (world r) of (i, elapsed, w) \<Rightarrow> (i, r\<lparr>clock := clock r + elapsed, world := w\<rparr>))"

definition Accept ::
  "'w network \<Rightarrow> connect_setup \<Rightarrow> dial \<Rightarrow> byte_stream \<Rightarrow> tns_accepted \<Rightarrow> string \<Rightarrow> connect_address \<Rightarrow> ('w, accepted_stream) step" where
  "Accept n x d s result descriptor original r =
     (let (s, probed) = (if check_oob result then RunCheckOobProbe n (accepted_sdu result) s else (s, Inr ()));
          (interrupted, r) = (if check_oob result then after_exchange n d r else (Undisturbed, r))
      in then_connect (check_interruption interrupted) (\<lambda>_.
         then_connect (plain_result probed) (\<lambda>_.
         then_connect (CheckCancelled n) (\<lambda>_.
         then_connect (CheckBudget x) (\<lambda>_ r.
           (r, Inr \<lparr>as_stream = s, as_result = result, as_descriptor = descriptor, as_original = original\<rparr>))))) r)"

definition log_attempt :: "connect_address \<Rightarrow> string \<Rightarrow> 'w connect_run \<Rightarrow> 'w connect_run" where
  "log_attempt target address r = r\<lparr>attempts := attempts r @ [(target, address)]\<rparr>"

definition handshake :: "level \<Rightarrow> connect_address \<Rightarrow> string \<Rightarrow> byte_stream \<Rightarrow> byte_stream \<times> tns_connect_result connecting" where
  "handshake l target descriptor s =
     (case TnsPacketStream s False MAX_TNS_PACKET_LENGTH of
        Inl e \<Rightarrow> (s, Inl (Plain_error e))
      | Inr p \<Rightarrow>
          (case RunTnsConnect descriptor (TnsConnectOptions\<lparr>supports_oob := (ca_protocol target \<noteq> TCPS), packet_flags := lv_packet_flags l\<rparr>) p of
             (p, r) \<Rightarrow> (stream p, r)))"

definition dial_of :: "connect_setup \<Rightarrow> connect_address \<Rightarrow> connect_address \<Rightarrow> string \<Rightarrow> 'w connect_run \<Rightarrow> dial" where
  "dial_of x original target address r =
     \<lparr>dial_address = address, dial_port = ca_port target, dial_timeout = AttemptTimeoutSeconds x r,
      dial_tls = (ca_protocol target = TCPS),
      dial_server_name = (if tls_server x = '''' then ca_host original else tls_server x),
      dial_sni_name = (if tls_sni x = '''' then ca_host original else tls_sni x)\<rparr>"

text \<open>What is done with the listener's answer, once it is there.\<close>

definition answered ::
  "'w network \<Rightarrow> connect_setup \<Rightarrow> connect_address \<Rightarrow> level list \<Rightarrow> dial \<Rightarrow> string \<Rightarrow> byte_stream \<Rightarrow> tns_connect_result connecting \<Rightarrow>
   'w connect_run \<Rightarrow> 'w connect_run \<times> outcome" where
  "answered n x original stack d descriptor s result r =
     (let l = hd stack;
          target = current_target l
      in case result of
           Inl e \<Rightarrow> (log_attempt target (dial_address d) r, outcome_of e)
         | Inr (Accepted a) \<Rightarrow>
             (case Accept n x d s a descriptor original r of
                (r, Inl e) \<Rightarrow>
                  ((case e of OracleConnectError _ _ _ \<Rightarrow> log_attempt target (dial_address d) r | Plain_error _ \<Rightarrow> r), Give_up e)
              | (r, Inr taken) \<Rightarrow> (r, Taken taken))
         | Inr (Redirected redirect) \<Rightarrow>
             (log_attempt target (dial_address d) r,
              case FollowRedirect x target redirect (lv_depth l) stack of
                Inl e \<Rightarrow> outcome_of e
              | Inr hops \<Rightarrow> Sent_on \<lparr>lv_target = None, lv_targets = hops, lv_addresses = [],
                  lv_reconnect_data = reconnect_data redirect, lv_packet_flags = TNS_PACKET_FLAG_REDIRECT,
                  lv_depth = lv_depth l + 1\<rparr>))"

text \<open>A failed open counts as an unreachable address when the transport reports it as a mere truncation.\<close>

definition open_error :: "connect_error \<Rightarrow> outcome" where
  "open_error e =
     (case e of
        Plain_error p \<Rightarrow> if Kind p = TRUNCATED then Try_next (OracleConnectError TRUNCATED UNREACHABLE 0) else Give_up e
      | _ \<Rightarrow> outcome_of e)"

definition dial_target ::
  "'w network \<Rightarrow> connect_setup \<Rightarrow> connect_address \<Rightarrow> level list \<Rightarrow> string \<Rightarrow> 'w connect_run \<Rightarrow> 'w connect_run \<times> outcome" where
  "dial_target n x original stack address r =
     (let l = hd stack;
          target = current_target l
      in case (if lv_reconnect_data l = '''' then BuildConnectDescriptor (os x) (config x) target else Inr (lv_reconnect_data l)) of
           Inl e \<Rightarrow> (r, Give_up (Plain_error e))
         | Inr descriptor \<Rightarrow>
             (case BeforeAttempt n x r of
                (r, Inl e) \<Rightarrow> (r, Give_up e)
              | (r, Inr _) \<Rightarrow>
                  let d = dial_of x original target address r
                  in case open_transport n d (world r) of
                       (opened_stream, elapsed, w) \<Rightarrow>
                         let r = r\<lparr>clock := clock r + elapsed, world := w, opened := opened r @ [d]\<rparr>
                         in case opened_stream of
                              Inl e \<Rightarrow> (log_attempt target address r, open_error e)
                            | Inr s \<Rightarrow>
                                let (s, result) = handshake l target descriptor s;
                                    (interrupted, r) = after_exchange n d r;
                                    result = (case check_interruption interrupted r of (_, Inl e) \<Rightarrow> Inl e | (_, Inr _) \<Rightarrow> result)
                                in answered n x original stack d descriptor s result r))"

section \<open>The loop\<close>

text \<open>What an operation leaves as it is: the transports that were opened and their number.\<close>

definition same_opens :: "'w connect_run \<Rightarrow> 'w connect_run \<Rightarrow> bool" where
  "same_opens r r' \<longleftrightarrow> transport_opens r' = transport_opens r \<and> opened r' = opened r"

lemma same_opens_refl [simp]: "same_opens r r"
  by (simp add: same_opens_def)

lemma same_opens_updates [simp]:
  "same_opens r (r'\<lparr>clock := c, world := w\<rparr>) = same_opens r r'" "same_opens r (log_attempt t a r') = same_opens r r'"
  by (simp_all add: same_opens_def log_attempt_def)

definition keeps_opens :: "('w, 'a) step \<Rightarrow> bool" where
  "keeps_opens f \<longleftrightarrow> (\<forall>r r' q. f r = (r', q) \<longrightarrow> same_opens r r')"

lemma keepsD: "\<lbrakk>keeps_opens f; f r = (r', q)\<rbrakk> \<Longrightarrow> same_opens r r'"
  by (simp add: keeps_opens_def)

lemma same_opens_trans: "\<lbrakk>same_opens r r'; same_opens r' r''\<rbrakk> \<Longrightarrow> same_opens r r''"
  by (simp add: same_opens_def)

named_theorems keeps_intros "operations that open no transport"

lemma keeps_then [keeps_intros]: "\<lbrakk>keeps_opens m; \<And>a. keeps_opens (f a)\<rbrakk> \<Longrightarrow> keeps_opens (then_connect m f)"
  unfolding keeps_opens_def then_connect_def
  by (auto split: prod.splits sum.splits) (metis same_opens_trans)+

lemma keeps_pure [keeps_intros]: "keeps_opens (\<lambda>r. (r, g r))"
  by (simp add: keeps_opens_def)

lemma keeps_checks [keeps_intros]:
  "keeps_opens (CheckCancelled n)" "keeps_opens (CheckBudget x)" "keeps_opens (check_interruption i)" "keeps_opens (plain_result v)"
  by (auto simp: keeps_opens_def CheckCancelled_def CheckBudget_def check_interruption_def plain_result_def)

lemma Resolve_opens: "keeps_opens (Resolve n x target)"
  unfolding Resolve_def
proof (intro keeps_intros)
  have inner: "keeps_opens (then_connect (check_interruption i) (\<lambda>_. then_connect (\<lambda>r. (r, ResolveOracleHost v))
      (\<lambda>as. then_connect (CheckBudget x) (\<lambda>_ r. (r, Inr as)))))" for i v
    by (intro keeps_intros)
  show "keeps_opens (\<lambda>r. if IsIpLiteral (os x) (ca_host target) then (r, Inr [ca_host target])
       else case lookup_host n (ca_host target) (ca_port target) (world r) of
           ((interrupted, resolved), elapsed, w) \<Rightarrow>
             then_connect (check_interruption interrupted) (\<lambda>_.
             then_connect (\<lambda>r. (r, ResolveOracleHost resolved)) (\<lambda>as.
             then_connect (CheckBudget x) (\<lambda>_ r. (r, Inr as))))
             (r\<lparr>clock := clock r + elapsed, world := w\<rparr>))"
    unfolding keeps_opens_def by (auto split: if_splits prod.splits dest!: keepsD[OF inner]) (auto simp: same_opens_def)
qed

lemma after_exchange_opens: "after_exchange n d r = (i, r') \<Longrightarrow> same_opens r r'"
  by (auto simp: after_exchange_def split: prod.splits)

lemma Accept_opens: "keeps_opens (Accept n x d s result descriptor original)"
proof -
  have inner: "keeps_opens (then_connect (check_interruption i) (\<lambda>_. then_connect (plain_result v) (\<lambda>_.
         then_connect (CheckCancelled n) (\<lambda>_. then_connect (CheckBudget x) (\<lambda>_ r. (r, Inr a))))))" for i v a
    by (intro keeps_intros)
  show ?thesis
    unfolding keeps_opens_def Accept_def Let_def
    by (cases "check_oob result") (auto split: prod.splits dest!: keepsD[OF inner] after_exchange_opens intro: same_opens_trans)
qed

lemma answered_opens: "answered n x original stack d descriptor s result r = (r', q) \<Longrightarrow> same_opens r r'"
  unfolding answered_def Let_def
  by (cases result) (auto split: sum.splits tns_connect_result.splits prod.splits connect_error.splits dest!: keepsD[OF Accept_opens])

text \<open>A dial is counted, and the count is what bounds it.\<close>

lemma dial_target_opens:
  fixes r :: "'w connect_run"
  assumes "dial_target n x original stack address r = (r', q)"
  shows "same_opens r r' \<and> (\<exists>e. q = Give_up e) \<or>
    (transport_opens r' = transport_opens r + 1 \<and>
     (opened r' = opened r \<and> (\<exists>e. q = Give_up e) \<or>
      transport_opens r' \<le> MAX_CONNECT_TRANSPORT_OPENS \<and>
      (\<exists>r1 :: 'w connect_run. opened r' = opened r @ [dial_of x original (current_target (hd stack)) address r1])))"
proof -
  let ?target = "current_target (hd stack)"
  let ?descriptor = "if lv_reconnect_data (hd stack) = '''' then BuildConnectDescriptor (os x) (config x) ?target else Inr (lv_reconnect_data (hd stack))"
  obtain r1 b where b: "BeforeAttempt n x r = (r1, b)" by fastforce
  have b1: "r1 = r \<and> isl b \<or> r1 = r\<lparr>transport_opens := transport_opens r + 1\<rparr> \<and> (isl b \<or> transport_opens r + 1 \<le> MAX_CONNECT_TRANSPORT_OPENS)"
    using b unfolding BeforeAttempt_def
    by (auto simp: then_connect_def CheckCancelled_def CheckBudget_def split: if_splits)
  show ?thesis
  proof (cases ?descriptor)
    case (Inl e)
    then show ?thesis using assms by (auto simp: dial_target_def Let_def)
  next
    case descriptor: (Inr descriptor)
    show ?thesis
    proof (cases b)
      case (Inl e)
      then show ?thesis using assms descriptor b b1 by (auto simp: dial_target_def Let_def same_opens_def)
    next
      case (Inr u)
      let ?d = "dial_of x original ?target address r1"
      obtain q0 elapsed w where o: "open_transport n ?d (world r1) = (q0, elapsed, w)" by (metis prod_cases3)
      let ?r2 = "r1\<lparr>clock := clock r1 + elapsed, world := w, opened := opened r1 @ [?d]\<rparr>"
      have r1: "r1 = r\<lparr>transport_opens := transport_opens r + 1\<rparr>" "transport_opens r + 1 \<le> MAX_CONNECT_TRANSPORT_OPENS"
        using b1 Inr by auto
      have "same_opens ?r2 r'"
        using assms descriptor b Inr o
        by (auto simp: dial_target_def Let_def split: sum.splits prod.splits dest!: answered_opens after_exchange_opens)
          (auto simp: same_opens_def)
      then show ?thesis using r1 by (auto simp: same_opens_def)
    qed
  qed
qed

definition redirect_failed :: "connect_error \<Rightarrow> connect_error" where
  "redirect_failed e = (case e of OracleConnectError k _ c \<Rightarrow> OracleConnectError k REDIRECT_FAILED c | Plain_error _ \<Rightarrow> e)"

definition chain_failed :: "(connect_error \<times> nat) option \<Rightarrow> connect_error" where
  "chain_failed last_error =
     (case last_error of
        None \<Rightarrow> Plain_error (ProtocolError INVALID_STATE None)
      | Some (e, depth) \<Rightarrow> if depth = 0 then e else redirect_failed e)"

text \<open>The loop ends because every dial counts against the limit, and between two dials a level loses a target or is dropped.\<close>

function chain_loop ::
  "'w network \<Rightarrow> connect_setup \<Rightarrow> connect_address \<Rightarrow> level list \<Rightarrow> (connect_error \<times> nat) option \<Rightarrow> ('w, accepted_stream) step" where
  "chain_loop n x original [] last_error r = (r, Inl (chain_failed last_error))"
| "chain_loop n x original (l # below) last_error r =
     (case lv_addresses l of
        [] \<Rightarrow>
          (case lv_targets l of
             [] \<Rightarrow> chain_loop n x original below last_error r
           | target # rest \<Rightarrow>
               (case Resolve n x target r of
                  (r, Inr as) \<Rightarrow>
                    chain_loop n x original (l\<lparr>lv_target := Some target, lv_targets := rest, lv_addresses := as\<rparr> # below) last_error r
                | (r, Inl e) \<Rightarrow>
                    (case outcome_of e of
                       Try_next e \<Rightarrow>
                         chain_loop n x original (l\<lparr>lv_target := Some target, lv_targets := rest\<rparr> # below) (Some (e, lv_depth l))
                           (log_attempt target '''' r)
                     | _ \<Rightarrow> ((case e of OracleConnectError _ _ _ \<Rightarrow> log_attempt target '''' r | Plain_error _ \<Rightarrow> r), Inl e))))
      | address # rest \<Rightarrow>
          let l = l\<lparr>lv_addresses := rest\<rparr>
          in case dial_target n x original (l # below) address r of
               (r, Taken a) \<Rightarrow> (r, Inr a)
             | (r, Sent_on next_level) \<Rightarrow> chain_loop n x original (next_level # l # below) last_error r
             | (r, Try_next e) \<Rightarrow> chain_loop n x original (l # below) (Some (e, lv_depth l)) r
             | (r, Give_up e) \<Rightarrow> (r, Inl e))"
  by pat_completeness auto
lemma Resolve_count: "Resolve n x target r = (r', q) \<Longrightarrow> transport_opens r' = transport_opens r"
  by (drule keepsD[OF Resolve_opens]) (simp add: same_opens_def)

lemma dial_count:
  "\<lbrakk>dial_target n x original stack address r = (r', q); \<forall>e. q \<noteq> Give_up e\<rbrakk> \<Longrightarrow>
    transport_opens r < transport_opens r' \<and> transport_opens r' \<le> MAX_CONNECT_TRANSPORT_OPENS"
  using dial_target_opens[of n x original stack address r r' q] by auto

lemma log_attempt_count [simp]: "transport_opens (log_attempt t a r) = transport_opens r"
  by (simp add: log_attempt_def)

termination chain_loop
proof (relation "inv_image (less_than <*lex*> less_than) (\<lambda>(n, x, original, stack, last_error, r).
    (MAX_CONNECT_TRANSPORT_OPENS + 1 - transport_opens r, sum_list (map (\<lambda>l. length (lv_targets l) + 1) stack)))",
    goal_cases)
  case 1
  then show ?case by auto
qed (auto dest!: Resolve_count[OF sym] dial_count[OF sym])

declare chain_loop.simps [simp del]

definition root_level :: "connect_address \<Rightarrow> string \<Rightarrow> level" where
  "root_level original address =
     \<lparr>lv_target = Some original, lv_targets = [], lv_addresses = [address], lv_reconnect_data = '''', lv_packet_flags = 0, lv_depth = 0\<rparr>"

definition FollowChain :: "'w network \<Rightarrow> connect_setup \<Rightarrow> connect_address \<Rightarrow> string \<Rightarrow> ('w, accepted_stream) step" where
  "FollowChain n x original address = chain_loop n x original [root_level original address] None"

fun resolved_loop ::
  "'w network \<Rightarrow> connect_setup \<Rightarrow> connect_address \<Rightarrow> string list \<Rightarrow> connect_error option \<Rightarrow> ('w, accepted_stream) step" where
  "resolved_loop n x original [] last_error r =
     (r, Inl (case last_error of None \<Rightarrow> Plain_error (ProtocolError INVALID_STATE None) | Some e \<Rightarrow> e))"
| "resolved_loop n x original (a # as) last_error r =
     (case FollowChain n x original a r of
        (r, Inr taken) \<Rightarrow> (r, Inr taken)
      | (r, Inl e) \<Rightarrow> (case outcome_of e of Try_next e \<Rightarrow> resolved_loop n x original as (Some e) r | _ \<Rightarrow> (r, Inl e)))"

definition DialOriginal :: "'w network \<Rightarrow> connect_setup \<Rightarrow> connect_address \<Rightarrow> ('w, accepted_stream) step" where
  "DialOriginal n x original r =
     (case Resolve n x original r of
        (r, Inr as) \<Rightarrow> resolved_loop n x original as None r
      | (r, Inl e) \<Rightarrow> ((case e of OracleConnectError _ _ _ \<Rightarrow> log_attempt original '''' r | Plain_error _ \<Rightarrow> r), Inl e))"

text \<open>One pass over the planned order. The result is the accepted stream, or the last error after which the next pass may try.\<close>

fun order_loop ::
  "'w network \<Rightarrow> connect_setup \<Rightarrow> connect_address list \<Rightarrow> connect_error option \<Rightarrow> ('w, connect_error option + accepted_stream) step" where
  "order_loop n x [] last_error r = (r, Inr (Inl last_error))"
| "order_loop n x (a # as) last_error r =
     (case DialOriginal n x a r of
        (r, Inr taken) \<Rightarrow> (r, Inr (Inr taken))
      | (r, Inl e) \<Rightarrow> (case outcome_of e of Try_next e \<Rightarrow> order_loop n x as (Some e) r | _ \<Rightarrow> (r, Inl e)))"

text \<open>The first pass is \<open>pass = 0\<close>; the number of passes that are left bounds the loop.\<close>

fun pass_loop ::
  "'w network \<Rightarrow> connect_setup \<Rightarrow> connect_address list \<Rightarrow> nat \<Rightarrow> nat \<Rightarrow> connect_error option \<Rightarrow>
   ('w, connect_error option + accepted_stream) step" where
  "pass_loop n x order pass 0 last_error = (\<lambda>r. (r, Inr (Inl last_error)))"
| "pass_loop n x order pass (Suc left) last_error =
     then_connect (if pass > 0 then Delay n x else (\<lambda>r. (r, Inr ()))) (\<lambda>_.
     then_connect (order_loop n x order last_error) (\<lambda>q.
       case q of
         Inr taken \<Rightarrow> (\<lambda>r. (r, Inr (Inr taken)))
       | Inl last_error \<Rightarrow> pass_loop n x order (pass + 1) left last_error))"

definition Run :: "'w network \<Rightarrow> connect_setup \<Rightarrow> draws \<Rightarrow> ('w, accepted_stream) step" where
  "Run n x draws r =
     (case pass_loop n x (fst (PlanConnectOrder (config x) draws)) 0 (unat (retry_count (routing (config x))) + 1) None r of
        (r, Inr (Inr taken)) \<Rightarrow> (r, Inr taken)
      | (r, Inr (Inl None)) \<Rightarrow> (r, Inl (Plain_error (ProtocolError INVALID_STATE None)))
      | (r, Inr (Inl (Some e))) \<Rightarrow> (r, Inl e)
      | (r, Inl (OracleConnectError k f c)) \<Rightarrow> (r, Inl (OracleConnectError k f c))
      | (r, Inl (Plain_error p)) \<Rightarrow> (r, Inl (OracleConnectError (Kind p) PROTOCOL_FAULT 0)))"

section \<open>A connection\<close>

record tns_connection =
  cn_stream :: byte_stream
  cn_negotiated_sdu :: u16
  cn_end_of_response :: bool
  cn_connect_descriptor :: string
  cn_auth_connect_string :: string
  cn_client_identity :: client_identity
  cn_cancellation_supported :: bool

text \<open>
  \<^verbatim>\<open>TnsClientConnection::Connect\<close>. The random connection id, the TLS names of the configuration and the caller's own
  deadline are arguments. Times are in milliseconds.
\<close>

definition effective_config :: "platform \<Rightarrow> string \<Rightarrow> connection_config \<Rightarrow> connection_config result" where
  "effective_config plat random_id cfg =
     (let cfg = (if connection_id cfg = '''' then cfg\<lparr>connection_id := random_id\<rparr> else cfg)
      in if client_program cfg = '''' then andthen (CurrentExecutablePath plat) (\<lambda>p. Inr (cfg\<lparr>client_program := p\<rparr>)) else Inr cfg)"

definition connect_deadline :: "connection_config \<Rightarrow> nat option \<Rightarrow> nat \<Rightarrow> nat" where
  "connect_deadline cfg caller now =
     (let own = now + unat (EffectiveConnectBudgetSeconds cfg) * 1000
      in case caller of None \<Rightarrow> own | Some t \<Rightarrow> min own t)"

definition Connect ::
  "'w network \<Rightarrow> platform \<Rightarrow> string \<times> string \<Rightarrow> nat option \<Rightarrow> string \<Rightarrow> draws \<Rightarrow> connection_config \<Rightarrow> ('w, tns_connection) step" where
  "Connect n plat names caller random_id draws cfg =
     then_connect (plain_result (ValidateConnectionConfig plat cfg)) (\<lambda>_.
     then_connect (plain_result (effective_config plat random_id cfg)) (\<lambda>cfg r.
       let x = \<lparr>os = plat, config = cfg, tls_server = fst names, tls_sni = snd names, deadline = connect_deadline cfg caller (clock r)\<rparr>
       in then_connect (Run n x draws) (\<lambda>taken.
          then_connect (plain_result (BuildAuthConnectString plat cfg (as_original taken))) (\<lambda>auth.
          then_connect (plain_result (CurrentOracleClientIdentity plat (client_program cfg))) (\<lambda>identity r.
            (r, Inr \<lparr>cn_stream = as_stream taken, cn_negotiated_sdu = accepted_sdu (as_result taken),
               cn_end_of_response = end_of_response (as_result taken), cn_connect_descriptor = as_descriptor taken,
               cn_auth_connect_string = auth, cn_client_identity = identity,
               cn_cancellation_supported = (ca_protocol (as_original taken) \<noteq> TCPS)\<rparr>)))) r))"

section \<open>What is dialled\<close>

text \<open>A dial made for a configured address: its protocol, and the names its certificate is checked against.\<close>

definition dialled_for :: "string \<times> string \<Rightarrow> connect_address \<Rightarrow> dial \<Rightarrow> bool" where
  "dialled_for names a d \<longleftrightarrow> (dial_tls d \<longleftrightarrow> ca_protocol a = TCPS) \<and>
     dial_server_name d = (if fst names = '''' then ca_host a else fst names) \<and>
     dial_sni_name d = (if snd names = '''' then ca_host a else snd names)"

definition dials_ok :: "string \<times> string \<Rightarrow> connect_address set \<Rightarrow> 'w connect_run \<Rightarrow> bool" where
  "dials_ok names A r \<longleftrightarrow> length (opened r) \<le> transport_opens r \<and> length (opened r) \<le> MAX_CONNECT_TRANSPORT_OPENS \<and>
     (\<forall>d\<in>set (opened r). \<exists>a\<in>A. dialled_for names a d)"

definition same_protocol :: "connect_address \<Rightarrow> connect_address \<Rightarrow> bool" where
  "same_protocol a b \<longleftrightarrow> ca_protocol a = ca_protocol b"

definition level_ok :: "connect_address \<Rightarrow> level \<Rightarrow> bool" where
  "level_ok original l \<longleftrightarrow>
     list_all (same_protocol original) (lv_targets l) \<and> pred_option (same_protocol original) (lv_target l) \<and>
     (lv_addresses l \<noteq> [] \<longrightarrow> lv_target l \<noteq> None)"

lemma level_ok_next:
  assumes "level_ok original l" "lv_targets l = target # rest"
  shows "level_ok original (l\<lparr>lv_target := Some target, lv_targets := rest, lv_addresses := as\<rparr>)"
    "lv_addresses l = [] \<Longrightarrow> level_ok original (l\<lparr>lv_target := Some target, lv_targets := rest\<rparr>)"
  using assms by (simp_all add: level_ok_def)

lemma dials_ok_same: "\<lbrakk>dials_ok names A r; same_opens r r'\<rbrakk> \<Longrightarrow> dials_ok names A r'"
  by (simp add: dials_ok_def same_opens_def)

lemma dials_ok_keeps: "\<lbrakk>f r = (r', q); keeps_opens f; dials_ok names A r\<rbrakk> \<Longrightarrow> dials_ok names A r'"
  using keepsD dials_ok_same by blast

lemma dials_ok_log [simp]: "dials_ok names A (log_attempt t a r) = dials_ok names A r"
  by (simp add: dials_ok_def log_attempt_def)

lemma redirect_targets_protocol:
  "redirect_targets from path cs = Inr hops \<Longrightarrow> h \<in> set hops \<Longrightarrow> ca_protocol h = ca_protocol from"
proof (induction cs arbitrary: hops)
  case (Cons c cs)
  then show ?case by (auto simp: Let_def split: if_splits sum.splits) (auto simp: map_sum_def split: sum.splits)
qed simp

lemma FollowRedirect_protocol:
  "\<lbrakk>FollowRedirect x from redirect depth stack = Inr hops; h \<in> set hops\<rbrakk> \<Longrightarrow> ca_protocol h = ca_protocol from"
  unfolding FollowRedirect_def
  by (auto split: if_splits sum.splits list.splits dest!: redirect_targets_protocol)


lemma Accept_original: "Accept n x d s result descriptor original r = (r', Inr a) \<Longrightarrow> as_original a = original"
  unfolding Accept_def Let_def
  by (auto simp: then_connect_def CheckCancelled_def CheckBudget_def check_interruption_def plain_result_def
      split: if_splits prod.splits sum.splits interruption.splits)

lemma answered_cases:
  assumes "answered n x original stack d descriptor s result r = (r', q)"
  shows "(q = Taken a \<longrightarrow> as_original a = original) \<and>
    (q = Sent_on next_level \<longrightarrow> lv_target next_level = None \<and> lv_addresses next_level = [] \<and>
       (\<forall>h\<in>set (lv_targets next_level). ca_protocol h = ca_protocol (current_target (hd stack))))"
proof (cases result)
  case (Inl e)
  then show ?thesis
    using assms by (auto simp: answered_def Let_def outcome_of_def split: connect_error.splits if_splits)
next
  case (Inr p)
  show ?thesis
  proof (cases p)
    case (Accepted t)
    then show ?thesis
      using assms Inr by (auto simp: answered_def Let_def split: prod.splits sum.splits dest: Accept_original)
  next
    case (Redirected t)
    then show ?thesis
      using assms Inr
      by (auto simp: answered_def Let_def outcome_of_def split: sum.splits connect_error.splits if_splits dest: FollowRedirect_protocol)
  qed
qed

lemma dial_target_cases:
  assumes "dial_target n x original stack address r = (r', q)"
  shows "(q = Taken a \<longrightarrow> as_original a = original) \<and>
    (q = Sent_on next_level \<longrightarrow> lv_target next_level = None \<and> lv_addresses next_level = [] \<and>
       (\<forall>h\<in>set (lv_targets next_level). ca_protocol h = ca_protocol (current_target (hd stack))))"
proof -
  consider (early) e where "q = Give_up e" | (unopened) e where "q = open_error e"
    | (answered) d descriptor s result r1 where "answered n x original stack d descriptor s result r1 = (r', q)"
    using assms unfolding dial_target_def Let_def by (auto split: sum.splits prod.splits)
  then show ?thesis
  proof cases
    case answered
    then show ?thesis by (rule answered_cases)
  qed (auto simp: open_error_def outcome_of_def split: connect_error.splits if_splits)
qed

lemma dial_of_for:
  "ca_protocol target = ca_protocol original \<Longrightarrow> dialled_for (tls_server x, tls_sni x) original (dial_of x original target address r)"
  by (simp add: dialled_for_def dial_of_def)

lemma dial_target_ok:
  fixes r :: "'w connect_run"
  assumes "dial_target n x original stack address r = (r', q)" "dials_ok names A r" "names = (tls_server x, tls_sni x)" "original \<in> A"
    and "ca_protocol (current_target (hd stack)) = ca_protocol original"
  shows "dials_ok names A r'"
proof -
  have new: "\<exists>a\<in>A. dialled_for names a (dial_of x original (current_target (hd stack)) address r1)" for r1 :: "'w connect_run"
    using assms(3,4) dial_of_for[OF assms(5)] by blast
  show ?thesis using dial_target_opens[OF assms(1)] assms(2) new by (auto simp: dials_ok_def same_opens_def)
qed

lemma chain_loop_ok:
  assumes "chain_loop n x original stack last_error r = (r', q)" "dials_ok names A r" "names = (tls_server x, tls_sni x)" "original \<in> A"
    and "\<forall>l\<in>set stack. level_ok original l"
  shows "dials_ok names A r' \<and> (\<forall>a. q = Inr a \<longrightarrow> as_original a = original)"
  using assms
proof (induction n x original stack last_error r arbitrary: r' q rule: chain_loop.induct)
  case (1 n x original last_error r)
  then show ?case by (auto simp: chain_loop.simps)
next
  case (2 n x original l below last_error r)
  note step = chain_loop.simps(2)[of n x original l below last_error r]
  show ?case
  proof (cases "lv_addresses l")
    case Nil
    show ?thesis
    proof (cases "lv_targets l")
      case Nil': Nil
      then have "chain_loop n x original below last_error r = (r', q)" using 2(6) Nil by (simp add: step)
      from 2(1)[OF Nil Nil' this 2(7-9)] 2(10) show ?thesis by simp
    next
      case (Cons target rest)
      obtain r1 v where res: "Resolve n x target r = (r1, v)" by fastforce
      have r1: "dials_ok names A r1" using dials_ok_keeps[OF res Resolve_opens 2(7)] .
      have ok: "level_ok original (l\<lparr>lv_target := Some target, lv_targets := rest, lv_addresses := as\<rparr>)"
        "level_ok original (l\<lparr>lv_target := Some target, lv_targets := rest\<rparr>)" for as
        using level_ok_next[OF _ Cons] 2(10) Nil by simp_all
      show ?thesis
      proof (cases v)
        case (Inr as)
        then show ?thesis using 2(3)[OF Nil Cons res[symmetric] Inr] 2(6-) Nil Cons res r1 ok by (simp add: step)
      next
        case (Inl e)
        show ?thesis
        proof (cases "outcome_of e")
          case (Try_next e')
          then show ?thesis
            using 2(2)[OF Nil Cons res[symmetric] Inl Try_next] 2(6-) Nil Cons res r1 ok Inl by (simp add: step)
        qed (use 2(6) Nil Cons res Inl r1 in \<open>auto simp: step split: connect_error.splits\<close>)
      qed
    qed
  next
    case (Cons address rest)
    let ?l = "l\<lparr>lv_addresses := rest\<rparr>"
    obtain r1 v where res: "dial_target n x original (?l # below) address r = (r1, v)" by fastforce
    have l: "level_ok original l" "\<forall>l\<in>set below. level_ok original l" using 2(10) by auto
    then have target: "ca_protocol (current_target ?l) = ca_protocol original" and ok: "level_ok original ?l"
      using Cons by (auto simp: level_ok_def current_target_def same_protocol_def)
    have r1: "dials_ok names A r1" using dial_target_ok[OF res 2(7-9)] target by simp
    note cases = dial_target_cases[OF res]
    show ?thesis
    proof (cases v)
      case (Taken a)
      then show ?thesis using 2(6) Cons res r1 cases by (auto simp: step)
    next
      case (Sent_on next_level)
      then have "level_ok original next_level" using cases[of _ next_level] target by (auto simp: level_ok_def same_protocol_def list_all_iff)
      then show ?thesis using 2(4)[OF Cons refl res[symmetric] Sent_on] 2(6-) Cons res r1 ok l Sent_on by (simp add: step)
    next
      case (Try_next e)
      then show ?thesis using 2(5)[OF Cons refl res[symmetric] Try_next] 2(6-) Cons res r1 ok l by (simp add: step)
    next
      case (Give_up e)
      then show ?thesis using 2(6) Cons res r1 by (auto simp: step)
    qed
  qed
qed


text \<open>What every loop of the connect keeps: only configured addresses are dialled for, and an accepted stream belongs to one.\<close>

definition run_keeps :: "string \<times> string \<Rightarrow> connect_address set \<Rightarrow> ('a \<Rightarrow> bool) \<Rightarrow> ('w, 'a) step \<Rightarrow> bool" where
  "run_keeps names A P f \<longleftrightarrow> (\<forall>r r' q. f r = (r', q) \<longrightarrow> dials_ok names A r \<longrightarrow> dials_ok names A r' \<and> (\<forall>a. q = Inr a \<longrightarrow> P a))"

lemma run_keepsD: "\<lbrakk>run_keeps names A P f; f r = (r', q); dials_ok names A r\<rbrakk> \<Longrightarrow> dials_ok names A r' \<and> (\<forall>a. q = Inr a \<longrightarrow> P a)"
  by (auto simp: run_keeps_def)

lemma run_keeps_then:
  assumes "run_keeps names A P m" "\<And>a. P a \<Longrightarrow> run_keeps names A Q (f a)"
  shows "run_keeps names A Q (then_connect m f)"
  using assms unfolding run_keeps_def then_connect_def
  by (auto split: prod.splits sum.splits) blast+

lemma run_keeps_opens: "\<lbrakk>keeps_opens f; \<And>r r' a. f r = (r', Inr a) \<Longrightarrow> P a\<rbrakk> \<Longrightarrow> run_keeps names A P f"
  unfolding run_keeps_def using keepsD dials_ok_same by blast

lemma run_keeps_pure: "P a \<Longrightarrow> run_keeps names A P (\<lambda>r. (r, Inr a))"
  by (simp add: run_keeps_def)

abbreviation names_of :: "connect_setup \<Rightarrow> string \<times> string" where
  "names_of x \<equiv> (tls_server x, tls_sni x)"

lemma FollowChain_keeps:
  "original \<in> A \<Longrightarrow> run_keeps (names_of x) A (\<lambda>a. as_original a = original) (FollowChain n x original address)"
proof -
  assume o: "original \<in> A"
  have "\<forall>l\<in>set [root_level original address]. level_ok original l"
    by (simp add: root_level_def level_ok_def same_protocol_def)
  from chain_loop_ok[OF _ _ refl o this] show ?thesis unfolding run_keeps_def FollowChain_def by blast
qed

lemma resolved_loop_keeps:
  "original \<in> A \<Longrightarrow> run_keeps (names_of x) A (\<lambda>a. as_original a = original) (resolved_loop n x original as last_error)"
proof (induction as arbitrary: last_error)
  case (Cons a as)
  then show ?case
    unfolding run_keeps_def
    by (auto split: prod.splits sum.splits outcome.splits dest!: run_keepsD[OF FollowChain_keeps])
qed (simp add: run_keeps_def)

lemma DialOriginal_keeps: "a \<in> A \<Longrightarrow> run_keeps (names_of x) A (\<lambda>s. as_original s \<in> A) (DialOriginal n x a)"
proof -
  assume a: "a \<in> A"
  show ?thesis
    unfolding run_keeps_def
  proof (intro allI impI)
    fix r r' q assume d: "DialOriginal n x a r = (r', q)" "dials_ok (names_of x) A r"
    obtain r1 v where res: "Resolve n x a r = (r1, v)" by fastforce
    have r1: "dials_ok (names_of x) A r1" using dials_ok_keeps[OF res Resolve_opens d(2)] .
    show "dials_ok (names_of x) A r' \<and> (\<forall>s. q = Inr s \<longrightarrow> as_original s \<in> A)"
    proof (cases v)
      case (Inl e)
      then show ?thesis using d r1 res by (auto simp: DialOriginal_def split: connect_error.splits)
    next
      case (Inr as)
      then have "resolved_loop n x a as None r1 = (r', q)" using d res by (simp add: DialOriginal_def)
      from run_keepsD[OF resolved_loop_keeps[OF a] this r1] a show ?thesis by auto
    qed
  qed
qed

definition from_configured :: "connect_address set \<Rightarrow> connect_error option + accepted_stream \<Rightarrow> bool" where
  "from_configured A q \<longleftrightarrow> (\<forall>s. q = Inr s \<longrightarrow> as_original s \<in> A)"

lemma order_loop_keeps: "set order \<subseteq> A \<Longrightarrow> run_keeps (names_of x) A (from_configured A) (order_loop n x order last_error)"
proof (induction order arbitrary: last_error)
  case (Cons a as)
  show ?case
    unfolding run_keeps_def
  proof (intro allI impI)
    fix r r' q assume d: "order_loop n x (a # as) last_error r = (r', q)" "dials_ok (names_of x) A r"
    obtain r1 v where one: "DialOriginal n x a r = (r1, v)" by fastforce
    have r1: "dials_ok (names_of x) A r1" "\<forall>s. v = Inr s \<longrightarrow> as_original s \<in> A"
      using run_keepsD[OF DialOriginal_keeps one d(2)] Cons.prems by auto
    show "dials_ok (names_of x) A r' \<and> (\<forall>s. q = Inr s \<longrightarrow> from_configured A s)"
    proof (cases v)
      case (Inl e)
      show ?thesis
      proof (cases "outcome_of e")
        case (Try_next e')
        then have "order_loop n x as (Some e') r1 = (r', q)" using d one Inl by simp
        from run_keepsD[OF Cons.IH this r1(1)] Cons.prems show ?thesis by simp
      qed (use d one Inl r1 in auto)
    qed (use d one r1 in \<open>auto simp: from_configured_def\<close>)
  qed
qed (simp add: run_keeps_def from_configured_def)

lemma delay_loop_opens: "delay_loop n finish r = (r', q) \<Longrightarrow> same_opens r r'"
proof (induction n finish r rule: delay_loop.induct)
  case (1 n finish r)
  let ?slice = "min (finish - clock r) 100"
  obtain over w where s: "sleep_over n ?slice (world r) = (over, w)" by fastforce
  show ?case
    using 1 s delay_loop.simps[of n finish r]
    by (auto simp: Let_def split: if_splits) (auto simp: same_opens_def)
qed

lemma Delay_opens: "keeps_opens (Delay n x)"
  unfolding Delay_def
proof (intro keeps_intros)
  show "keeps_opens (\<lambda>r. let finish = clock r + unat (retry_delay_seconds (routing (config x))) * 1000
       in if finish \<ge> deadline x then (r, Inl budget_error) else delay_loop n finish r)"
    unfolding keeps_opens_def Let_def by (auto split: if_splits dest: delay_loop_opens)
qed

lemma pass_loop_keeps:
  "set order \<subseteq> A \<Longrightarrow> run_keeps (names_of x) A (from_configured A) (pass_loop n x order pass left last_error)"
proof (induction left arbitrary: pass last_error)
  case 0
  then show ?case by (simp add: run_keeps_def from_configured_def)
next
  case (Suc left)
  have d: "run_keeps (names_of x) A (\<lambda>_. True) (if pass > 0 then Delay n x else (\<lambda>r. (r, Inr ())))"
    by (simp add: run_keeps_opens[OF Delay_opens] run_keeps_pure)
  have s: "run_keeps (names_of x) A (from_configured A) (case q of Inr taken \<Rightarrow> (\<lambda>r. (r, Inr (Inr taken)))
       | Inl last_error \<Rightarrow> pass_loop n x order (pass + 1) left last_error)" if "from_configured A q" for q
    using that Suc by (cases q) (simp_all add: run_keeps_pure)
  show ?case
    unfolding pass_loop.simps by (intro run_keeps_then[OF d] run_keeps_then[OF order_loop_keeps[OF Suc.prems]] s)
qed

lemma Run_keeps:
  assumes "set (fst (PlanConnectOrder (config x) draws)) \<subseteq> A"
  shows "run_keeps (names_of x) A (\<lambda>s. as_original s \<in> A) (Run n x draws)"
  unfolding run_keeps_def
proof (intro allI impI)
  fix r r' q assume r: "Run n x draws r = (r', q)" "dials_ok (names_of x) A r"
  obtain r1 v where p: "pass_loop n x (fst (PlanConnectOrder (config x) draws)) 0 (unat (retry_count (routing (config x))) + 1) None r = (r1, v)"
    by fastforce
  from run_keepsD[OF pass_loop_keeps[OF assms] p r(2)] r(1) p
  show "dials_ok (names_of x) A r' \<and> (\<forall>s. q = Inr s \<longrightarrow> as_original s \<in> A)"
    by (auto simp: Run_def from_configured_def simp del: pass_loop.simps split: sum.splits option.splits connect_error.splits)
qed


definition configured_addresses :: "connection_config \<Rightarrow> connect_address set" where
  "configured_addresses cfg = (\<Union>l\<in>set (EffectiveAddressLists cfg). set (addresses l))"

lemma planned_configured: "set (fst (PlanConnectOrder cfg draws)) \<subseteq> configured_addresses cfg"
proof -
  obtain lists r where a: "ActiveChildren (EffectiveAddressLists cfg) (failover (routing cfg)) (load_balance (routing cfg)) draws = (lists, r)"
    by fastforce
  obtain order r' where p: "plan_lists lists r = (order, r')" by fastforce
  show ?thesis
    using ActiveChildren_sub[OF a] plan_lists_sub[OF p] a p by (fastforce simp: PlanConnectOrder_def configured_addresses_def)
qed

lemma effective_config_addresses: "effective_config plat i cfg = Inr cfg' \<Longrightarrow> configured_addresses cfg' = configured_addresses cfg"
  by (auto simp: effective_config_def Let_def andthen_eq_Inr configured_addresses_def EffectiveAddressLists_def split: if_splits)

lemma plain_result_keeps: "run_keeps names A (\<lambda>a. v = Inr a) (plain_result v)"
  unfolding run_keeps_def plain_result_def by (cases v) auto

lemma Connect_keeps:
  "run_keeps names (configured_addresses cfg)
     (\<lambda>c. \<exists>a\<in>configured_addresses cfg. \<exists>cfg'. effective_config plat random_id cfg = Inr cfg' \<and>
        BuildAuthConnectString plat cfg' a = Inr (cn_auth_connect_string c))
     (Connect n plat names caller random_id draws cfg)"
  unfolding Connect_def
proof (intro run_keeps_then[OF plain_result_keeps])
  fix u cfg'
  assume c: "effective_config plat random_id cfg = Inr cfg'"
  let ?P = "\<lambda>c. \<exists>a\<in>configured_addresses cfg. \<exists>cfg'. effective_config plat random_id cfg = Inr cfg' \<and>
        BuildAuthConnectString plat cfg' a = Inr (cn_auth_connect_string c)"
  have inner: "run_keeps (names_of x) (configured_addresses cfg) ?P
      (then_connect (Run n x draws) (\<lambda>taken.
          then_connect (plain_result (BuildAuthConnectString plat cfg' (as_original taken))) (\<lambda>auth.
          then_connect (plain_result (CurrentOracleClientIdentity plat (client_program cfg'))) (\<lambda>identity r.
            (r, Inr \<lparr>cn_stream = as_stream taken, cn_negotiated_sdu = accepted_sdu (as_result taken),
               cn_end_of_response = end_of_response (as_result taken), cn_connect_descriptor = as_descriptor taken,
               cn_auth_connect_string = auth, cn_client_identity = identity,
               cn_cancellation_supported = (ca_protocol (as_original taken) \<noteq> TCPS)\<rparr>)))))"
    if "config x = cfg'" for x
  proof (intro run_keeps_then[OF Run_keeps] run_keeps_then[OF plain_result_keeps])
    show "set (fst (PlanConnectOrder (config x) draws)) \<subseteq> configured_addresses cfg"
      using planned_configured[of cfg' draws] effective_config_addresses[OF c] that by simp
  qed (use c in \<open>auto intro!: run_keeps_pure\<close>)
  show "run_keeps names (configured_addresses cfg) ?P (\<lambda>r.
       let x = \<lparr>os = plat, config = cfg', tls_server = fst names, tls_sni = snd names, deadline = connect_deadline cfg' caller (clock r)\<rparr>
       in then_connect (Run n x draws) (\<lambda>taken.
          then_connect (plain_result (BuildAuthConnectString plat cfg' (as_original taken))) (\<lambda>auth.
          then_connect (plain_result (CurrentOracleClientIdentity plat (client_program cfg'))) (\<lambda>identity r.
            (r, Inr \<lparr>cn_stream = as_stream taken, cn_negotiated_sdu = accepted_sdu (as_result taken),
               cn_end_of_response = end_of_response (as_result taken), cn_connect_descriptor = as_descriptor taken,
               cn_auth_connect_string = auth, cn_client_identity = identity,
               cn_cancellation_supported = (ca_protocol (as_original taken) \<noteq> TCPS)\<rparr>)))) r)"
    using inner[of "\<lparr>os = plat, config = cfg', tls_server = fst names, tls_sni = snd names, deadline = connect_deadline cfg' caller t\<rparr>" for t]
    unfolding run_keeps_def Let_def by simp
qed


section \<open>Properties\<close>

text \<open>
  C6. A connect stays with what was configured. However listeners answer, redirect or fail and whatever names resolve to, at most
  \<^const>\<open>MAX_CONNECT_TRANSPORT_OPENS\<close> transports are opened; each of them uses TLS exactly when the configured address it is dialled
  for does, and its certificate is checked against that address's own host or the configured name, never against one that a listener
  sent. A connection that results gives authentication the descriptor of a configured address.
\<close>

theorem connect_stays_configured:
  assumes "Connect n plat names caller random_id draws cfg r = (r', q)" "opened r = []" "transport_opens r = 0"
  shows "length (opened r') \<le> MAX_CONNECT_TRANSPORT_OPENS \<and>
    (\<forall>d\<in>set (opened r'). \<exists>a\<in>configured_addresses cfg. dialled_for names a d) \<and>
    (\<forall>c. q = Inr c \<longrightarrow> (\<exists>a\<in>configured_addresses cfg. \<exists>cfg'. effective_config plat random_id cfg = Inr cfg' \<and>
        BuildAuthConnectString plat cfg' a = Inr (cn_auth_connect_string c)))"
  using run_keepsD[OF Connect_keeps assms(1)] assms(2,3) unfolding dials_ok_def by simp

definition unreachable_network :: "unit network" where
  "unreachable_network = \<lparr>cancelled = (\<lambda>_. False), lookup_host = (\<lambda>_ _ _. ((Undisturbed, Inr []), 5, ())),
     open_transport = (\<lambda>_ _. (Inl (OracleConnectError TRUNCATED UNREACHABLE 0), 20, ())), exchanged = (\<lambda>_ _. (Undisturbed, 0, ())),
     send_urgent = (\<lambda>_ s. (s, Inr ())), sleep_over = (\<lambda>_ _. (0, ()))\<rparr>"

definition fresh_run :: "unit connect_run" where
  "fresh_run = \<lparr>world = (), clock = 0, transport_opens = 0, opened = [], attempts = []\<rparr>"

definition local_config :: connection_config where
  "local_config = ConnectionConfig\<lparr>host := ''::1'', service_name := ''db'', connection_id := ''id'', client_program := ''p''\<rparr>"

definition local_address :: connect_address where
  "local_address = \<lparr>ca_host = ''::1'', ca_port = 1521, ca_protocol = TCP\<rparr>"

definition sample_setup :: connect_setup where
  "sample_setup = \<lparr>os = sample_os, config = local_config, tls_server = '''', tls_sni = '''', deadline = 60000\<rparr>"

lemma local_prepared:
  "ValidateConnectionConfig sample_os local_config = Inr ()"
  "effective_config sample_os ''id'' local_config = Inr local_config"
  "PlanConnectOrder local_config [] = ([local_address], [])"
  "connect_deadline local_config None 0 = 60000"
  "\<exists>d. BuildConnectDescriptor sample_os local_config local_address = Inr d"
  subgoal by (simp add: local_config_def config_eval sample_os_def IsSafeIpv6Literal_def c_str_def)
  subgoal by (simp add: local_config_def effective_config_def ConnectionConfig_def)
  subgoal by (simp add: local_config_def PlanConnectOrder_def EffectiveAddressLists_def ConnectionConfig_def ConnectRouting_def ActiveChildren_def local_address_def)
  subgoal by (simp add: local_config_def connect_deadline_def EffectiveConnectBudgetSeconds_def ConnectionConfig_def ConnectRouting_def DEFAULT_CONNECT_BUDGET_SECONDS_def)
  subgoal by (simp add: BuildConnectDescriptor_def BuildDescriptor_def Let_def CurrentOracleClientIdentity_def sample_os_def local_address_def
        local_config_def config_eval element_def protocol_name_def IsSafeIpv6Literal_def c_str_def decimal.simps)
  done

lemmas network_eval = unreachable_network_def fresh_run_def sample_setup_def BeforeAttempt_def CheckCancelled_def CheckBudget_def
  then_connect_def plain_result_def outcome_of_def log_attempt_def

lemma local_dial:
  assumes "clock r = 0" "transport_opens r = 0" "opened r = []"
  shows "opened (fst (DialOriginal unreachable_network sample_setup local_address r)) =
      [dial_of sample_setup local_address local_address ''::1'' r] \<and>
    snd (DialOriginal unreachable_network sample_setup local_address r) = Inl (OracleConnectError TRUNCATED UNREACHABLE 0)"
proof -
  let ?n = unreachable_network and ?x = sample_setup and ?a = local_address
  have res: "Resolve ?n ?x ?a r = (r, Inr [''::1''])"
    using assms by (simp add: Resolve_def network_eval local_address_def IsIpLiteral_def sample_os_def c_str_def)
  obtain d where d: "BuildConnectDescriptor sample_os local_config ?a = Inr d" using local_prepared(5) ..
  let ?stack = "[(root_level ?a ''::1'')\<lparr>lv_addresses := []\<rparr>]"
  obtain r2 where r2: "dial_target ?n ?x ?a ?stack ''::1'' r = (r2, Try_next (OracleConnectError TRUNCATED UNREACHABLE 0))"
    "opened r2 = [dial_of ?x ?a ?a ''::1'' r]"
    using assms d
    by (simp add: dial_target_def network_eval root_level_def current_target_def open_error_def MAX_CONNECT_TRANSPORT_OPENS_def
        Let_def dial_of_def AttemptTimeoutSeconds_def)
  have "FollowChain ?n ?x ?a ''::1'' r = (r2, Inl (OracleConnectError TRUNCATED UNREACHABLE 0))"
    using r2 by (simp add: FollowChain_def chain_loop.simps root_level_def chain_failed_def)
  then show ?thesis using res r2 by (simp add: DialOriginal_def outcome_of_def)
qed

lemma connect_stays_configured_witness:
  "\<exists>r' q d. Connect unreachable_network sample_os ('''', '''') None ''id'' [] local_config fresh_run = (r', q) \<and>
     opened r' = [d] \<and> \<not> dial_tls d \<and> dial_server_name d = ''::1''"
proof -
  obtain r' q where c: "Connect unreachable_network sample_os ('''', '''') None ''id'' [] local_config fresh_run = (r', q)"
    by fastforce
  have x: "\<lparr>os = sample_os, config = local_config, tls_server = '''', tls_sni = '''', deadline = 60000\<rparr> = sample_setup"
    by (simp add: sample_setup_def)
  obtain r1 where one: "DialOriginal unreachable_network sample_setup local_address fresh_run = (r1, Inl (OracleConnectError TRUNCATED UNREACHABLE 0))"
    "opened r1 = [dial_of sample_setup local_address local_address ''::1'' fresh_run]"
    using local_dial[of fresh_run] by (cases "DialOriginal unreachable_network sample_setup local_address fresh_run") (simp add: fresh_run_def)
  have plan: "PlanConnectOrder (config sample_setup) [] = ([local_address], [])" "retry_count (routing (config sample_setup)) = 0"
    using local_prepared(3) by (simp_all add: sample_setup_def local_config_def ConnectionConfig_def ConnectRouting_def)
  have "fst (Run unreachable_network sample_setup [] fresh_run) = r1"
    using one plan by (simp add: Run_def then_connect_def outcome_of_def)
  then have "r' = r1"
    using c x local_prepared
    by (auto simp: Connect_def then_connect_def plain_result_def fresh_run_def Let_def split: prod.splits sum.splits)
  moreover have "configured_addresses local_config = {local_address}"
    by (simp add: configured_addresses_def EffectiveAddressLists_def local_config_def ConnectionConfig_def ConnectRouting_def local_address_def)
  ultimately show ?thesis
    using c one connect_stays_configured[OF c] by (auto simp: fresh_run_def dialled_for_def local_address_def)
qed

end
