(* ===== verification/O5_Logon.thy ===== *)
theory O5_Logon
  imports Ttc_Channel
begin

text \<open>
  The O5LOGON authentication of \<^verbatim>\<open>src/auth_crypto.cpp\<close>, \<^verbatim>\<open>src/ttc_auth.cpp\<close> and \<^verbatim>\<open>src/ttc_o5logon.cpp\<close>: the
  client's proof of its password, the exchange that carries it, and the check of the server's own proof. The primitives of
  OpenSSL are the record \<open>crypto\<close>; what the code relies on is \<open>crypto_ok\<close>.
\<close>

section \<open>Primitives\<close>

record crypto =
  pbkdf2_hmac_sha512 :: "bytes \<Rightarrow> bytes \<Rightarrow> u32 \<Rightarrow> nat \<Rightarrow> bytes"
  sha512_digest :: "bytes \<Rightarrow> bytes"
  cbc_seal :: "bytes \<Rightarrow> bytes \<Rightarrow> bytes"
  cbc_open :: "bytes \<Rightarrow> bytes \<Rightarrow> bytes option"
  cbc_seal_raw :: "bytes \<Rightarrow> bytes \<Rightarrow> bytes"
  cbc_open_raw :: "bytes \<Rightarrow> bytes \<Rightarrow> bytes"

definition aes_key :: "bytes \<Rightarrow> bool" where
  "aes_key k \<longleftrightarrow> length k \<in> {16, 24, 32}"

definition INT_MAX :: nat where
  "INT_MAX = 2147483647"

definition Pbkdf2Sha512 :: "crypto \<Rightarrow> bytes \<Rightarrow> bytes \<Rightarrow> u32 \<Rightarrow> nat \<Rightarrow> bytes result" where
  "Pbkdf2Sha512 c password salt iterations output_size =
     (if iterations = 0 \<or> iterations > 10000000 \<or> output_size = 0 \<or> output_size > 1024 \<or> length password > INT_MAX \<or>
         length salt > INT_MAX then throw LIMIT_EXCEEDED
      else Inr (pbkdf2_hmac_sha512 c password salt iterations output_size))"

definition Sha512 :: "crypto \<Rightarrow> bytes list \<Rightarrow> bytes" where
  "Sha512 c parts = sha512_digest c (concat parts)"

definition blocks :: "bytes \<Rightarrow> bool" where
  "blocks input \<longleftrightarrow> length input \<noteq> 0 \<and> length input mod 16 = 0"

definition AesCbcEncrypt :: "crypto \<Rightarrow> bytes \<Rightarrow> bytes \<Rightarrow> bytes result" where
  "AesCbcEncrypt c k plaintext =
     (if \<not> aes_key k then throw MALFORMED
      else if length plaintext > INT_MAX then throw LIMIT_EXCEEDED
      else Inr (cbc_seal c k plaintext))"

definition AesCbcDecrypt :: "crypto \<Rightarrow> bytes \<Rightarrow> bytes \<Rightarrow> bytes result" where
  "AesCbcDecrypt c k ciphertext =
     (if \<not> blocks ciphertext then throw MALFORMED
      else if \<not> aes_key k then throw MALFORMED
      else if length ciphertext > INT_MAX then throw LIMIT_EXCEEDED
      else case cbc_open c k ciphertext of None \<Rightarrow> throw MALFORMED | Some p \<Rightarrow> Inr p)"

definition AesCbcEncryptRaw :: "crypto \<Rightarrow> bytes \<Rightarrow> bytes \<Rightarrow> bytes result" where
  "AesCbcEncryptRaw c k plaintext =
     (if \<not> aes_key k \<or> \<not> blocks plaintext then throw MALFORMED
      else if length plaintext > INT_MAX then throw LIMIT_EXCEEDED
      else Inr (cbc_seal_raw c k plaintext))"

definition AesCbcDecryptRaw :: "crypto \<Rightarrow> bytes \<Rightarrow> bytes \<Rightarrow> bytes result" where
  "AesCbcDecryptRaw c k ciphertext =
     (if \<not> blocks ciphertext \<or> \<not> aes_key k then throw MALFORMED
      else if length ciphertext > INT_MAX then throw LIMIT_EXCEEDED
      else Inr (cbc_open_raw c k ciphertext))"

section \<open>Hexadecimal text\<close>

definition hex_digit :: "u8 \<Rightarrow> char" where
  "hex_digit n = ''0123456789ABCDEF'' ! unat n"

fun UpperHex :: "bytes \<Rightarrow> string" where
  "UpperHex [] = ''''"
| "UpperHex (b # bs) = hex_digit (drop_bit 4 b) # hex_digit (and b 0x0F) # UpperHex bs"

definition nibble :: "char \<Rightarrow> u8 result" where
  "nibble ch =
     (if isdigit ch then Inr (of_char ch - 48)
      else if 97 \<le> code_of ch \<and> code_of ch \<le> 102 then Inr (of_char ch - 87)
      else if 65 \<le> code_of ch \<and> code_of ch \<le> 70 then Inr (of_char ch - 55)
      else throw MALFORMED)"

fun hex_loop :: "string \<Rightarrow> bytes result" where
  "hex_loop (a # b # s) =
     andthen (nibble a) (\<lambda>high. andthen (nibble b) (\<lambda>low. andthen (hex_loop s) (\<lambda>bs.
       Inr (or (push_bit 4 high) low # bs))))"
| "hex_loop s = Inr []"

definition DecodeHex :: "string \<Rightarrow> nat \<Rightarrow> bytes result" where
  "DecodeHex s maximum_bytes =
     (if length s mod 2 \<noteq> 0 \<or> length s div 2 > maximum_bytes then throw LIMIT_EXCEEDED else hex_loop s)"

section \<open>The client's answer to a challenge\<close>

record o5logon_response =
  client_session_key_hex :: string
  speedy_key_hex :: string
  encrypted_password_hex :: string
  combo_key :: bytes

definition speedy_label :: bytes where
  "speedy_label = to_bytes ''AUTH_PBKDF2_SPEEDY_KEY''"

definition bad_iterations :: "u32 \<Rightarrow> bool" where
  "bad_iterations n \<longleftrightarrow> n = 0 \<or> n > 10000000"

definition BuildO5LogonResponse ::
  "crypto \<Rightarrow> string \<Rightarrow> o5logon_challenge \<Rightarrow> bytes \<Rightarrow> bytes \<Rightarrow> bytes \<Rightarrow> o5logon_response result" where
  "BuildO5LogonResponse c password challenge client_session_key password_salt speedy_key_salt =
     (if password = '''' \<or> length password > 1024 \<or> length client_session_key \<noteq> 32 \<or> length password_salt \<noteq> 16 \<or>
         length speedy_key_salt \<noteq> 16 then throw MALFORMED
      else
        andthen (RequireSupportedO5LogonVerifier (verifier_type challenge)) (\<lambda>_.
        andthen (DecodeHex (verifier_data_hex challenge) 64) (\<lambda>verifier.
        andthen (DecodeHex (server_session_key_hex challenge) 64) (\<lambda>encrypted_server_key.
        andthen (DecodeHex (combo_key_salt_hex challenge) 64) (\<lambda>combo_salt.
          if length verifier \<noteq> 16 \<or> length encrypted_server_key \<noteq> 32 \<or> length combo_salt \<noteq> 16 then throw MALFORMED
          else if bad_iterations (verifier_iterations challenge) \<or> bad_iterations (combo_key_iterations challenge) then throw MALFORMED
          else
            andthen (Pbkdf2Sha512 c (to_bytes password) (verifier @ speedy_label) (verifier_iterations challenge) 64) (\<lambda>password_key.
            let password_digest = take 32 (Sha512 c [password_key, verifier])
            in andthen (AesCbcDecryptRaw c password_digest encrypted_server_key) (\<lambda>server_session_key.
               andthen (AesCbcEncryptRaw c password_digest client_session_key) (\<lambda>encrypted_client_key.
               andthen (Pbkdf2Sha512 c (to_bytes (UpperHex (client_session_key @ server_session_key))) combo_salt
                          (combo_key_iterations challenge) 32) (\<lambda>combo.
               andthen (AesCbcEncrypt c combo (password_salt @ to_bytes password)) (\<lambda>encrypted_password.
               andthen (AesCbcEncrypt c combo (speedy_key_salt @ password_key)) (\<lambda>speedy_ciphertext.
                 if length speedy_ciphertext < 80 then throw INVALID_STATE
                 else Inr \<lparr>client_session_key_hex = UpperHex encrypted_client_key,
                   speedy_key_hex = UpperHex (take 80 speedy_ciphertext),
                   encrypted_password_hex = UpperHex encrypted_password, combo_key = combo\<rparr>)))))))))))"

definition VerifyO5LogonServerResponse :: "crypto \<Rightarrow> o5logon_response \<Rightarrow> string \<Rightarrow> bool result" where
  "VerifyO5LogonServerResponse c response server_response_hex =
     (if length (combo_key response) \<noteq> 32 then throw INVALID_STATE
      else andthen (DecodeHex server_response_hex 256) (\<lambda>ciphertext.
           andthen (AesCbcDecrypt c (combo_key response) ciphertext) (\<lambda>plaintext.
             Inr (length plaintext \<ge> 32 \<and> take 16 (drop 16 plaintext) = to_bytes ''SERVER_TO_CLIENT''))))"

section \<open>The exchange\<close>

definition BuildO5LogonPhaseTwoParameters :: "o5logon_response \<Rightarrow> ttc_parameter list result" where
  "BuildO5LogonPhaseTwoParameters response =
     (if client_session_key_hex response = '''' \<or> encrypted_password_hex response = '''' \<or> length (combo_key response) \<noteq> 32
      then throw INVALID_STATE
      else Inr [\<lparr>param_key = ''AUTH_SESSKEY'', param_value = client_session_key_hex response, param_flags = 1\<rparr>,
                \<lparr>param_key = ''AUTH_PBKDF2_SPEEDY_KEY'', param_value = speedy_key_hex response, param_flags = 0\<rparr>,
                \<lparr>param_key = ''AUTH_PASSWORD'', param_value = encrypted_password_hex response, param_flags = 0\<rparr>])"

record o5logon_request =
  rq_username :: string
  rq_password :: string
  rq_auth_mode :: u32
  rq_phase_one :: "ttc_parameter list"
  rq_phase_two :: "ttc_parameter list"
  rq_client_session_key :: bytes
  rq_password_salt :: bytes
  rq_speedy_key_salt :: bytes

text \<open>A received message that is not the server's error.\<close>

definition receive_answer :: "(ttc_channel, bytes) action" where
  "receive_answer = after Receive (\<lambda>m. if IsTtcErrorMessage m then lifting (ThrowTtcServerError m) else returning m)"

definition proof_value :: "ttc_parameter \<Rightarrow> (string \<rightharpoonup> string) \<Rightarrow> (string \<rightharpoonup> string) result" where
  "proof_value p known = (if known (param_key p) \<noteq> None then throw MALFORMED else Inr (known(param_key p \<mapsto> param_value p)))"

definition check_proof :: "crypto \<Rightarrow> o5logon_response \<Rightarrow> bytes \<Rightarrow> o5logon_response result" where
  "check_proof c response message =
     andthen (DecodeTtcParameters message) (\<lambda>parameters.
     andthen (each proof_value parameters Map.empty) (\<lambda>known.
       case known ''AUTH_SVR_RESPONSE'' of
         None \<Rightarrow> throw INVALID_STATE
       | Some p \<Rightarrow> andthen (VerifyO5LogonServerResponse c response p) (\<lambda>ok. if ok then Inr response else throw INVALID_STATE)))"

definition answer_challenge :: "crypto \<Rightarrow> o5logon_request \<Rightarrow> bytes \<Rightarrow> o5logon_response result" where
  "answer_challenge c q message =
     andthen (DecodeTtcParameters message) (\<lambda>parameters.
     andthen (O5LogonChallengeFromParameters parameters) (\<lambda>challenge.
       BuildO5LogonResponse c (rq_password q) challenge (rq_client_session_key q) (rq_password_salt q) (rq_speedy_key_salt q)))"

definition phase_two_message :: "o5logon_request \<Rightarrow> o5logon_response \<Rightarrow> bytes result" where
  "phase_two_message q response =
     andthen (BuildO5LogonPhaseTwoParameters response) (\<lambda>parameters.
       EncodeTtcAuthFunction TTC_FUNCTION_AUTH_PHASE_TWO 2 (rq_username q) 0x0101 (parameters @ rq_phase_two q))"

definition RunO5Logon :: "crypto \<Rightarrow> o5logon_request \<Rightarrow> (ttc_channel, o5logon_response) action" where
  "RunO5Logon c q =
     (if rq_username q = '''' \<or> length (rq_username q) > 252 \<or> rq_password q = '''' \<or> length (rq_client_session_key q) \<noteq> 32 \<or>
         length (rq_password_salt q) \<noteq> 16 \<or> length (rq_speedy_key_salt q) \<noteq> 16 then failing MALFORMED
      else
        after (lifting (EncodeTtcAuthFunction TTC_FUNCTION_AUTH_PHASE_ONE 1 (rq_username q) (rq_auth_mode q) (rq_phase_one q))) (\<lambda>m.
        after (Send m) (\<lambda>_.
        after receive_answer (\<lambda>challenge_message.
        after (lifting (answer_challenge c q challenge_message)) (\<lambda>response.
        after (lifting (phase_two_message q response)) (\<lambda>m.
        after (Send m) (\<lambda>_.
        after receive_answer (\<lambda>proof_message. lifting (check_proof c response proof_message)))))))))"

section \<open>A server that knows the password\<close>

text \<open>
  What the code relies on in the primitives: sizes, and that opening undoes sealing under every key of an AES size.
\<close>

definition crypto_ok :: "crypto \<Rightarrow> bool" where
  "crypto_ok c \<longleftrightarrow>
     (\<forall>p s i n. length (pbkdf2_hmac_sha512 c p s i n) = n) \<and> (\<forall>m. length (sha512_digest c m) = 64) \<and>
     (\<forall>k m. aes_key k \<longrightarrow> cbc_open c k (cbc_seal c k m) = Some m \<and> length (cbc_seal c k m) = (length m div 16 + 1) * 16) \<and>
     (\<forall>k m. aes_key k \<and> blocks m \<longrightarrow> cbc_open_raw c k (cbc_seal_raw c k m) = m \<and> length (cbc_seal_raw c k m) = length m)"

text \<open>The server's record of an account, and what it sends and computes.\<close>

record account =
  verifier_salt :: bytes
  password_hash :: bytes

definition enrolled :: "crypto \<Rightarrow> string \<Rightarrow> bytes \<Rightarrow> u32 \<Rightarrow> account" where
  "enrolled c password salt iterations =
     \<lparr>verifier_salt = salt,
      password_hash = take 32 (Sha512 c [pbkdf2_hmac_sha512 c (to_bytes password) (salt @ speedy_label) iterations 64, salt])\<rparr>"

definition server_challenge :: "crypto \<Rightarrow> account \<Rightarrow> bytes \<Rightarrow> bytes \<Rightarrow> u32 \<Rightarrow> u32 \<Rightarrow> o5logon_challenge" where
  "server_challenge c a session_key combo_salt iterations combo_iterations =
     \<lparr>verifier_data_hex = UpperHex (verifier_salt a), server_session_key_hex = UpperHex (cbc_seal_raw c (password_hash a) session_key),
      combo_key_salt_hex = UpperHex combo_salt, verifier_iterations = iterations, combo_key_iterations = combo_iterations,
      verifier_type = O5LOGON_VERIFIER_12C\<rparr>"

definition server_combo_key :: "crypto \<Rightarrow> account \<Rightarrow> bytes \<Rightarrow> bytes \<Rightarrow> u32 \<Rightarrow> o5logon_response \<Rightarrow> bytes result" where
  "server_combo_key c a session_key combo_salt combo_iterations response =
     andthen (DecodeHex (client_session_key_hex response) 64) (\<lambda>sealed.
       Inr (pbkdf2_hmac_sha512 c (to_bytes (UpperHex (cbc_open_raw c (password_hash a) sealed @ session_key))) combo_salt combo_iterations 32))"

definition server_reads_password :: "crypto \<Rightarrow> bytes \<Rightarrow> o5logon_response \<Rightarrow> string option" where
  "server_reads_password c combo response =
     (case hex_loop (encrypted_password_hex response) of
        Inl _ \<Rightarrow> None
      | Inr sealed \<Rightarrow> map_option (\<lambda>p. to_string (drop 16 p)) (cbc_open c combo sealed))"

definition server_proof :: "crypto \<Rightarrow> bytes \<Rightarrow> bytes \<Rightarrow> string" where
  "server_proof c combo nonce = UpperHex (cbc_seal c combo (nonce @ to_bytes ''SERVER_TO_CLIENT''))"

section \<open>Lemmas\<close>

lemma UpperHex_length [simp]: "length (UpperHex bs) = 2 * length bs"
  by (induction bs rule: UpperHex.induct) simp_all

lemma all_nibbles: "list_all (\<lambda>n. nibble (hex_digit (of_nat n)) = Inr (of_nat n)) [0..<16]"
  by code_simp

lemma nibble_hex_digit: "unat n < 16 \<Longrightarrow> nibble (hex_digit n) = Inr n"
  using all_nibbles by (auto simp: list_all_iff dest!: bspec[of _ _ "unat n"])

lemma byte_halves:
  fixes b :: u8
  shows "or (push_bit 4 (drop_bit 4 b)) (and b 0x0F) = b" "unat (drop_bit 4 b) < 16" "unat (and b 0x0F) < 16"
proof -
  have m: "(0x0F :: u8) = mask 4" by (simp add: mask_eq_exp_minus_1)
  show "or (push_bit 4 (drop_bit 4 b)) (and b 0x0F) = b"
    unfolding m
  proof (rule bit_word_eqI)
    fix n assume "n < LENGTH(8)"
    then show "bit (or (push_bit 4 (drop_bit 4 b)) (and b (mask 4))) n = bit b n"
      by (cases "n < 4") (auto simp: bit_simps)
  qed
  show "unat (drop_bit 4 b) < 16"
  proof -
    have "unat (drop_bit 4 b) = unat b div 16" by (subst unat_drop_bit_eq) (simp add: drop_bit_eq_div)
    moreover have "unat b < 2 ^ LENGTH(8)" by (rule unsigned_less)
    ultimately show ?thesis by simp
  qed
  show "unat (and b 0x0F) < 16"
    unfolding m using take_bit_nat_less_exp[of 4 "unat b"] by (simp add: take_bit_eq_mask[symmetric] unsigned_take_bit_eq)
qed

lemma hex_loop_UpperHex: "hex_loop (UpperHex bs) = Inr bs"
  by (induction bs rule: UpperHex.induct) (simp_all add: nibble_hex_digit byte_halves)

lemma DecodeHex_UpperHex: "length bs \<le> n \<Longrightarrow> DecodeHex (UpperHex bs) n = Inr bs"
  by (simp add: DecodeHex_def hex_loop_UpperHex)

section \<open>Properties\<close>

lemma to_bytes_size: "length (to_bytes ''SERVER_TO_CLIENT'') = 16"
  by simp

lemma server_hash: "crypto_ok c \<Longrightarrow> aes_key (password_hash (enrolled c password salt iterations))"
  by (simp add: crypto_ok_def enrolled_def Sha512_def aes_key_def)

lemma crypto_sizes:
  assumes "crypto_ok c"
  shows "length (pbkdf2_hmac_sha512 c p s i n) = n" "aes_key k \<Longrightarrow> cbc_open c k (cbc_seal c k m) = Some m"
    "aes_key k \<Longrightarrow> length (cbc_seal c k m) = (length m div 16 + 1) * 16"
    "aes_key k \<Longrightarrow> blocks m \<Longrightarrow> cbc_open_raw c k (cbc_seal_raw c k m) = m"
    "aes_key k \<Longrightarrow> blocks m \<Longrightarrow> length (cbc_seal_raw c k m) = length m"
  using assms by (auto simp: crypto_ok_def)

text \<open>
  C7. Client and server agree. Against a server that enrolled the same password, that takes any session key and salts of the
  protocol's sizes and acceptable iteration counts, the client answers the challenge; the server then computes the combo key
  the client did, reads the client's password out of the answer, and its proof under that key is accepted.
\<close>

theorem logon_agreement:
  assumes "crypto_ok c" "password \<noteq> ''''" "length password \<le> 1024"
    and "length salt = 16" "length session_key = 32" "length combo_salt = 16" "length nonce = 16"
    and "length client_key = 32" "length password_salt = 16" "length speedy_salt = 16"
    and "\<not> bad_iterations iterations" "\<not> bad_iterations combo_iterations"
    and "account = enrolled c password salt iterations"
    and "challenge = server_challenge c account session_key combo_salt iterations combo_iterations"
  shows "\<exists>response. BuildO5LogonResponse c password challenge client_key password_salt speedy_salt = Inr response \<and>
    server_combo_key c account session_key combo_salt combo_iterations response = Inr (combo_key response) \<and>
    server_reads_password c (combo_key response) response = Some password \<and>
    VerifyO5LogonServerResponse c response (server_proof c (combo_key response) nonce) = Inr True"
proof -
  note ok = crypto_sizes[OF assms(1)]
  let ?digest = "password_hash account" and ?key = "pbkdf2_hmac_sha512 c (to_bytes password) (salt @ speedy_label) iterations 64"
  let ?combo = "pbkdf2_hmac_sha512 c (to_bytes (UpperHex (client_key @ session_key))) combo_salt combo_iterations 32"
  let ?r = "\<lparr>client_session_key_hex = UpperHex (cbc_seal_raw c ?digest client_key),
     speedy_key_hex = UpperHex (take 80 (cbc_seal c ?combo (speedy_salt @ ?key))),
     encrypted_password_hex = UpperHex (cbc_seal c ?combo (password_salt @ to_bytes password)), combo_key = ?combo\<rparr>"
  have k: "aes_key ?digest" "aes_key ?combo" using server_hash[OF assms(1)] assms(13) ok(1) by (simp_all add: aes_key_def)
  have b: "blocks session_key" "blocks client_key" using assms(5,8) by (auto simp: blocks_def)
  then have sealed: "length (cbc_seal_raw c ?digest session_key) = 32" "length (cbc_seal_raw c ?digest client_key) = 32"
    using ok(5)[OF k(1)] assms(5,8) by simp_all
  then have "blocks (cbc_seal_raw c ?digest session_key)" by (auto simp: blocks_def)
  have digest: "take 32 (Sha512 c [?key, salt]) = ?digest" "verifier_salt account = salt"
    using assms(13) by (simp_all add: enrolled_def)
  have "BuildO5LogonResponse c password challenge client_key password_salt speedy_salt = Inr ?r"
    using assms(2-12) sealed \<open>blocks (cbc_seal_raw c ?digest session_key)\<close> k b ok digest
    by (simp add: BuildO5LogonResponse_def assms(14) server_challenge_def RequireSupportedO5LogonVerifier_def DecodeHex_UpperHex
        Pbkdf2Sha512_def bad_iterations_def AesCbcDecryptRaw_def AesCbcEncryptRaw_def AesCbcEncrypt_def INT_MAX_def speedy_label_def)
  moreover have "server_combo_key c account session_key combo_salt combo_iterations ?r = Inr ?combo"
    using sealed(2) ok(4)[OF k(1) b(2)] by (simp add: server_combo_key_def DecodeHex_UpperHex)
  moreover have "server_reads_password c ?combo ?r = Some password"
    using ok(2)[OF k(2)] assms(9) by (simp add: server_reads_password_def hex_loop_UpperHex)
  moreover have "VerifyO5LogonServerResponse c ?r (server_proof c ?combo nonce) = Inr True"
  proof -
    have n: "length (cbc_seal c ?combo (nonce @ to_bytes ''SERVER_TO_CLIENT'')) = 48"
      using ok(3)[OF k(2), of "nonce @ to_bytes ''SERVER_TO_CLIENT''"] assms(7) by simp
    then have "blocks (cbc_seal c ?combo (nonce @ to_bytes ''SERVER_TO_CLIENT''))" by (simp add: blocks_def)
    then show ?thesis
      using n ok(1) ok(2)[OF k(2)] k(2) assms(7)
      by (simp add: VerifyO5LogonServerResponse_def server_proof_def DecodeHex_UpperHex AesCbcDecrypt_def INT_MAX_def)
  qed
  ultimately show ?thesis by (intro exI[of _ ?r]) simp
qed

text \<open>Padding to whole blocks without a cipher: the laws hold, and the exchange can be followed by hand.\<close>

definition plain_crypto :: crypto where
  "plain_crypto = \<lparr>pbkdf2_hmac_sha512 = (\<lambda>_ _ _ n. replicate n 7), sha512_digest = (\<lambda>_. replicate 64 9),
     cbc_seal = (\<lambda>_ m. m @ replicate (16 - length m mod 16) (of_nat (16 - length m mod 16))),
     cbc_open = (\<lambda>_ s. Some (take (length s - unat (last s)) s)), cbc_seal_raw = (\<lambda>_ m. m), cbc_open_raw = (\<lambda>_ m. m)\<rparr>"

lemma plain_crypto_ok: "crypto_ok plain_crypto"
proof -
  have pad: "0 < 16 - n mod (16::nat)" "16 - n mod (16::nat) \<le> 16" for n by simp_all
  have "unat (of_nat k :: u8) = k" if "k \<le> 16" for k
    using that by (simp add: unat_of_nat)
  from this[OF pad(2)] have "unat (of_nat (16 - n mod 16) :: u8) = 16 - n mod 16" for n .
  moreover have "n + (16 - n mod 16) = (n div 16 + 1) * (16::nat)" for n
    by presburger
  ultimately show ?thesis using pad by (auto simp: crypto_ok_def plain_crypto_def last_append)
qed

lemma logon_agreement_witness:
  "\<exists>response. BuildO5LogonResponse plain_crypto ''tiger''
      (server_challenge plain_crypto (enrolled plain_crypto ''tiger'' (replicate 16 1) 4096) (replicate 32 2) (replicate 16 3) 4096 3)
      (replicate 32 4) (replicate 16 5) (replicate 16 6) = Inr response \<and>
    server_reads_password plain_crypto (combo_key response) response = Some ''tiger'' \<and>
    VerifyO5LogonServerResponse plain_crypto response (server_proof plain_crypto (combo_key response) (replicate 16 8)) = Inr True"
  using logon_agreement[OF plain_crypto_ok, of "''tiger''" "replicate 16 1" "replicate 32 2" "replicate 16 3" "replicate 16 8"
      "replicate 32 4" "replicate 16 5" "replicate 16 6" 4096 3, OF _ _ _ _ _ _ _ _ _ _ _ refl refl]
  by (auto simp: bad_iterations_def)

end
