(* ===== verification/Ttc_Negotiation.thy ===== *)
theory Ttc_Negotiation
  imports O5_Logon
begin

text \<open>
  The TTC negotiation of \<^verbatim>\<open>src/ttc_negotiation.cpp\<close>: the protocol request and the server's answer, whose capabilities
  decide the field version both sides then speak, and the data types request, which is a recorded one unless capabilities are given.
\<close>

section \<open>Constants\<close>

definition TTC_MESSAGE_PROTOCOL :: u8 where "TTC_MESSAGE_PROTOCOL = 1"
definition TTC_MESSAGE_DATA_TYPES :: u8 where "TTC_MESSAGE_DATA_TYPES = 2"
definition ORACLE_CHARSET_AL32UTF8 :: u16 where "ORACLE_CHARSET_AL32UTF8 = 873"
definition TTC_CAPABILITY_FIELD_VERSION_INDEX :: nat where "TTC_CAPABILITY_FIELD_VERSION_INDEX = 7"
definition TTC_DATA_TYPES_CAPABILITIES_OFFSET :: nat where "TTC_DATA_TYPES_CAPABILITIES_OFFSET = 7"
definition ORACLE_CLIENT_TTC_FIELD_VERSION :: u8 where "ORACLE_CLIENT_TTC_FIELD_VERSION = 24"
definition MAX_CAPABILITY_BYTES :: nat where "MAX_CAPABILITY_BYTES = 4096"
definition MAX_BANNER_BYTES :: nat where "MAX_BANNER_BYTES = 1024"

record ttc_protocol_info =
  server_version :: u8
  field_version :: u8
  server_field_version :: u8
  server_banner :: string
  charset_id :: u16
  server_flags :: u8
  compile_capabilities :: bytes
  runtime_capabilities :: bytes

record negotiation_options =
  ng_ttc_version :: u8
  ng_driver_name :: string
  ng_compile_capabilities :: bytes
  ng_runtime_capabilities :: bytes

definition TtcNegotiationOptions :: negotiation_options where
  "TtcNegotiationOptions = \<lparr>ng_ttc_version = 6, ng_driver_name = ''python-oracledb'', ng_compile_capabilities = [], ng_runtime_capabilities = []\<rparr>"

definition ReadCapabilities :: "bytes reader" where
  "ReadCapabilities = bindr (ReadLengthPrefixed MAX_CAPABILITY_BYTES) (\<lambda>v. ret (case v of None \<Rightarrow> [] | Some bs \<Rightarrow> bs))"

definition WriteCapabilities :: "bytes \<Rightarrow> byte_writer \<Rightarrow> byte_writer result" where
  "WriteCapabilities v w =
     (if length v > MAX_CAPABILITY_BYTES then throw LIMIT_EXCEEDED
      else Inr (if v = [] then WriteByte 0 w else WriteLengthPrefixed (Some v) w))"

definition LooksLikeAno :: "bytes \<Rightarrow> bool" where
  "LooksLikeAno message \<longleftrightarrow> take 4 message = [0xde, 0xad, 0xbe, 0xef]"

definition BuildTtcProtocolRequest :: "negotiation_options \<Rightarrow> bytes result" where
  "BuildTtcProtocolRequest options =
     (if (ng_ttc_version options \<noteq> 6 \<and> ng_ttc_version options \<noteq> 8) \<or> ng_driver_name options = '''' \<or>
         length (ng_driver_name options) > MAX_BANNER_BYTES \<or> CHR 0x00 \<in> set (ng_driver_name options) then throw MALFORMED
      else Inr (writes [WriteByte TTC_MESSAGE_PROTOCOL, WriteByte (ng_ttc_version options), WriteByte 0,
                        WriteNullTerminated (ng_driver_name options)] []))"

definition negotiated_field :: "bytes \<Rightarrow> u8 \<times> u8" where
  "negotiated_field capabilities =
     (if length capabilities > TTC_CAPABILITY_FIELD_VERSION_INDEX then
        let reported = capabilities ! TTC_CAPABILITY_FIELD_VERSION_INDEX
        in (min ORACLE_CLIENT_TTC_FIELD_VERSION reported, reported)
      else (ORACLE_CLIENT_TTC_FIELD_VERSION, ORACLE_CLIENT_TTC_FIELD_VERSION))"

definition protocol_reader :: "ttc_protocol_info reader" where
  "protocol_reader =
     bindr ReadByte (\<lambda>t. thenr (refuse (t \<noteq> TTC_MESSAGE_PROTOCOL) MALFORMED) (
     bindr ReadByte (\<lambda>version. thenr (Skip 1) (
     bindr (ReadNullTerminated MAX_BANNER_BYTES) (\<lambda>banner.
     bindr ReadUInt16LE (\<lambda>charset.
     bindr ReadByte (\<lambda>flags.
     bindr ReadUInt16LE (\<lambda>elements. thenr (refuse (elements > 512) LIMIT_EXCEEDED) (thenr (Skip (unat elements * 5)) (
     bindr ReadUInt16BE (\<lambda>fdo. thenr (refuse (unat fdo > MAX_CAPABILITY_BYTES) LIMIT_EXCEEDED) (thenr (Skip (unat fdo)) (
     bindr ReadCapabilities (\<lambda>compile.
     bindr ReadCapabilities (\<lambda>runtime.
     thenr (\<lambda>r. if Remaining r > 16 then throw MALFORMED else Inr ((), r)) (
     ret \<lparr>server_version = version, field_version = fst (negotiated_field compile), server_field_version = snd (negotiated_field compile),
          server_banner = banner, charset_id = charset, server_flags = flags, compile_capabilities = compile,
          runtime_capabilities = runtime\<rparr>))))))))))))))))"

definition ParseTtcProtocolResponse :: "bytes \<Rightarrow> ttc_protocol_info result" where
  "ParseTtcProtocolResponse message =
     (if LooksLikeAno message then throw UNSUPPORTED else decode_message protocol_reader message)"

text \<open>The recorded request of a 19c session, byte for byte.\<close>

definition template_head :: bytes where
  "template_head =
    [2, 105, 3, 105, 3, 3, 53, 6, 0, 0, 0, 234, 24, 0, 12, 1,
     1, 0, 0, 0, 0, 0, 41, 144, 3, 7, 3, 0, 1, 0, 207, 0,
     0, 4, 1, 0, 0, 0, 16, 0, 0, 12, 32, 0, 184, 0, 8, 68,
     0, 5, 0, 62, 2, 0, 0, 0, 0, 0, 0, 3, 11, 2, 0, 0,
     0, 0, 0, 5, 0, 0, 0, 0, 0, 1, 0, 1, 0, 1, 0, 0,
     0, 2, 0, 2, 0, 10, 0, 0, 0, 8, 0, 8, 0, 1, 0, 0,
     0, 12, 0, 12, 0, 10, 0, 0, 0, 23, 0, 23, 0, 1, 0, 0,
     0, 24, 0, 24, 0, 1, 0, 0, 0, 25, 0, 25, 0, 1, 0, 0,
     0, 26, 0, 26, 0, 1, 0, 0, 0, 27, 0, 27, 0, 10, 0, 0,
     0, 28, 0, 28, 0, 1, 0, 0, 0, 29, 0, 29, 0, 1, 0, 0,
     0, 30, 0, 30, 0, 1, 0, 0, 0, 31, 0, 31, 0, 1, 0, 0,
     0, 32, 0, 32, 0, 1, 0, 0, 0, 33, 0, 33, 0, 1, 0, 0,
     0, 10, 0, 10, 0, 1, 0, 0, 0, 11, 0, 11, 0, 1, 0, 0,
     0, 40, 0, 40, 0, 1, 0, 0, 0, 41, 0, 41, 0, 1, 0, 0,
     0, 117, 0, 117, 0, 1, 0, 0, 0, 120, 0, 120, 0, 1, 0, 0,
     1, 34, 1, 34, 0, 1, 0, 0, 1, 35, 1, 35, 0, 1, 0, 0,
     1, 36, 1, 36, 0, 1, 0, 0, 1, 37, 1, 37, 0, 1, 0, 0,
     1, 38, 1, 38, 0, 1, 0, 0, 1, 42, 1, 42, 0, 1, 0, 0,
     1, 43, 1, 43, 0, 1, 0, 0, 1, 44, 1, 44, 0, 1, 0, 0,
     1, 45, 1, 45, 0, 1, 0, 0, 1, 46, 1, 46, 0, 1, 0, 0,
     1, 47, 1, 47, 0, 1, 0, 0, 1, 48, 1, 48, 0, 1, 0, 0,
     1, 49, 1, 49, 0, 1, 0, 0, 1, 50, 1, 50, 0, 1, 0, 0,
     1, 51, 1, 51, 0, 1, 0, 0, 1, 52, 1, 52, 0, 1, 0, 0,
     1, 53, 1, 53, 0, 1, 0, 0, 1, 54, 1, 54, 0, 1, 0, 0,
     1, 55, 1, 55, 0, 1, 0, 0, 1, 56, 1, 56, 0, 1, 0, 0,
     1, 57, 1, 57, 0, 1, 0, 0, 1, 59, 1, 59, 0, 1, 0, 0,
     1, 60, 1, 60, 0, 1, 0, 0, 1, 61, 1, 61, 0, 1, 0, 0,
     1, 62, 1, 62, 0, 1, 0, 0, 1, 63, 1, 63, 0, 1, 0, 0,
     1, 64, 1, 64, 0, 1, 0, 0, 1, 65, 1, 65, 0, 1, 0, 0,
     1, 66, 1, 66, 0, 1, 0, 0, 1, 67, 1, 67, 0, 1, 0, 0,
     1, 71, 1, 71, 0, 1, 0, 0, 1, 72, 1, 72, 0, 1, 0, 0,
     1, 73, 1, 73, 0, 1, 0, 0, 1, 75, 1, 75, 0, 1, 0, 0,
     1, 77, 1, 77, 0, 1, 0, 0, 1, 78, 1, 78, 0, 1, 0, 0,
     1, 79, 1, 79, 0, 1, 0, 0, 1, 80, 1, 80, 0, 1, 0, 0,
     1, 81, 1, 81, 0, 1, 0, 0, 1, 82, 1, 82, 0, 1, 0, 0,
     1, 83, 1, 83, 0, 1, 0, 0, 1, 84, 1, 84, 0, 1, 0, 0,
     1, 85, 1, 85, 0, 1, 0, 0, 1, 86, 1, 86, 0, 1, 0, 0,
     1, 87, 1, 87, 0, 1, 0, 0, 1, 88, 1, 88, 0, 1, 0, 0,
     1, 89, 1, 89, 0, 1, 0, 0, 1, 90, 1, 90, 0, 1, 0, 0,
     1, 92, 1, 92, 0, 1, 0, 0, 1, 93, 1, 93, 0, 1, 0, 0,
     1, 98, 1, 98, 0, 1, 0, 0, 1, 99, 1, 99, 0, 1, 0, 0,
     1, 103, 1, 103, 0, 1, 0, 0, 1, 107, 1, 107, 0, 1, 0, 0,
     1, 124, 1, 124, 0, 1, 0, 0, 1, 125, 1, 125, 0, 1, 0, 0,
     1, 126, 1, 126, 0, 1, 0, 0, 1, 127, 1, 127, 0, 1, 0, 0,
     1, 128, 1, 128, 0, 1, 0, 0, 1, 129, 1, 129, 0, 1, 0, 0,
     1, 130, 1, 130, 0, 1, 0, 0, 1, 131, 1, 131, 0, 1, 0, 0,
     1, 132, 1, 132, 0, 1, 0, 0, 1, 133, 1, 133, 0, 1, 0, 0,
     1, 134, 1, 134, 0, 1, 0, 0, 1, 135, 1, 135, 0, 1, 0, 0,
     1, 137, 1, 137, 0, 1, 0, 0, 1, 138, 1, 138, 0, 1, 0, 0,
     1, 139, 1, 139, 0, 1, 0, 0, 1, 140, 1, 140, 0, 1, 0, 0,
     1, 141, 1, 141, 0, 1, 0, 0, 1, 142, 1, 142, 0, 1, 0, 0,
     1, 143, 1, 143, 0, 1, 0, 0, 1, 144, 1, 144, 0, 1, 0, 0,
     1, 145, 1, 145, 0, 1, 0, 0, 1, 148, 1, 148, 0, 1, 0, 0,
     1, 149, 1, 149, 0, 1, 0, 0, 1, 150, 1, 150, 0, 1, 0, 0,
     1, 151, 1, 151, 0, 1, 0, 0, 1, 157, 1, 157, 0, 1, 0, 0,
     1, 158, 1, 158, 0, 1, 0, 0, 1, 159, 1, 159, 0, 1, 0, 0,
     1, 160, 1, 160, 0, 1, 0, 0, 1, 161, 1, 161, 0, 1, 0, 0,
     1, 162, 1, 162, 0, 1, 0, 0, 1, 163, 1, 163, 0, 1, 0, 0,
     1, 164, 1, 164, 0, 1, 0, 0, 1, 165, 1, 165, 0, 1, 0, 0,
     1, 166, 1, 166, 0, 1, 0, 0, 1, 167, 1, 167, 0, 1, 0, 0,
     1, 168, 1, 168, 0, 1, 0, 0, 1, 169, 1, 169, 0, 1, 0, 0,
     1, 170, 1, 170, 0, 1, 0, 0, 1, 171, 1, 171, 0, 1, 0, 0,
     1, 173, 1, 173, 0, 1, 0, 0, 1, 174, 1, 174, 0, 1, 0, 0,
     1, 175, 1, 175, 0, 1, 0, 0, 1, 176, 1, 176, 0, 1, 0, 0,
     1, 177, 1, 177, 0, 1, 0, 0, 1, 193, 1, 193, 0, 1, 0, 0,
     1, 194, 1, 194, 0, 1, 0, 0, 1, 198, 1, 198, 0, 1, 0, 0,
     1, 199, 1, 199, 0, 1, 0, 0, 1, 200, 1, 200, 0, 1, 0, 0,
     1, 201, 1, 201, 0, 1, 0, 0, 1, 202, 1, 202, 0, 1, 0, 0,
     1, 203, 1, 203, 0, 1, 0, 0, 1, 204, 1, 204, 0, 1, 0, 0,
     1, 205, 1, 205, 0, 1, 0, 0, 1, 206, 1, 206, 0, 1, 0, 0,
     1, 207, 1, 207, 0, 1, 0, 0, 1, 210, 1, 210, 0, 1, 0, 0,
     1, 211, 1, 211, 0, 1, 0, 0, 1, 212, 1, 212, 0, 1, 0, 0,
     1, 213, 1, 213, 0, 1, 0, 0, 1, 214, 1, 214, 0, 1, 0, 0,
     1, 215, 1, 215, 0, 1, 0, 0, 1, 216, 1, 216, 0, 1, 0, 0,
     1, 217, 1, 217, 0, 1, 0, 0, 1, 218, 1, 218, 0, 1, 0, 0,
     1, 219, 1, 219, 0, 1, 0, 0, 1, 220, 1, 220, 0, 1, 0, 0,
     1, 221, 1, 221, 0, 1, 0, 0, 1, 222, 1, 222, 0, 1, 0, 0,
     1, 223, 1, 223, 0, 1, 0, 0, 1, 224, 1, 224, 0, 1, 0, 0,
     1, 225, 1, 225, 0, 1, 0, 0, 1, 226, 1, 226, 0, 1, 0, 0,
     1, 227, 1, 227, 0, 1, 0, 0, 1, 228, 1, 228, 0, 1, 0, 0,
     1, 229, 1, 229, 0, 1, 0, 0, 1, 230, 1, 230, 0, 1, 0, 0,
     1, 234, 1, 234, 0, 1, 0, 0, 1, 235, 1, 235, 0, 1, 0, 0,
     1, 236, 1, 236, 0, 1, 0, 0, 1, 237, 1, 237, 0, 1, 0, 0]"

definition template_tail :: bytes where
  "template_tail =
    [1, 238, 1, 238, 0, 1, 0, 0, 1, 239, 1, 239, 0, 1, 0, 0,
     1, 240, 1, 240, 0, 1, 0, 0, 1, 242, 1, 242, 0, 1, 0, 0,
     1, 243, 1, 243, 0, 1, 0, 0, 1, 244, 1, 244, 0, 1, 0, 0,
     1, 245, 1, 245, 0, 1, 0, 0, 1, 246, 1, 246, 0, 1, 0, 0,
     1, 253, 1, 253, 0, 1, 0, 0, 1, 254, 1, 254, 0, 1, 0, 0,
     2, 1, 2, 1, 0, 1, 0, 0, 2, 2, 2, 2, 0, 1, 0, 0,
     2, 4, 2, 4, 0, 1, 0, 0, 2, 5, 2, 5, 0, 1, 0, 0,
     2, 6, 2, 6, 0, 1, 0, 0, 2, 7, 2, 7, 0, 1, 0, 0,
     2, 8, 2, 8, 0, 1, 0, 0, 2, 9, 2, 9, 0, 1, 0, 0,
     2, 10, 2, 10, 0, 1, 0, 0, 2, 11, 2, 11, 0, 1, 0, 0,
     2, 12, 2, 12, 0, 1, 0, 0, 2, 13, 2, 13, 0, 1, 0, 0,
     2, 14, 2, 14, 0, 1, 0, 0, 2, 15, 2, 15, 0, 1, 0, 0,
     2, 16, 2, 16, 0, 1, 0, 0, 2, 17, 2, 17, 0, 1, 0, 0,
     2, 18, 2, 18, 0, 1, 0, 0, 2, 19, 2, 19, 0, 1, 0, 0,
     2, 20, 2, 20, 0, 1, 0, 0, 2, 21, 2, 21, 0, 1, 0, 0,
     2, 22, 2, 22, 0, 1, 0, 0, 2, 23, 2, 23, 0, 1, 0, 0,
     2, 24, 2, 24, 0, 1, 0, 0, 2, 25, 2, 25, 0, 1, 0, 0,
     2, 26, 2, 26, 0, 1, 0, 0, 2, 27, 2, 27, 0, 1, 0, 0,
     2, 28, 2, 28, 0, 1, 0, 0, 2, 29, 2, 29, 0, 1, 0, 0,
     2, 30, 2, 30, 0, 1, 0, 0, 2, 31, 2, 31, 0, 1, 0, 0,
     2, 48, 2, 48, 0, 1, 0, 0, 2, 53, 2, 53, 0, 1, 0, 0,
     2, 60, 2, 60, 0, 1, 0, 0, 2, 61, 2, 61, 0, 1, 0, 0,
     2, 62, 2, 62, 0, 1, 0, 0, 2, 63, 2, 63, 0, 1, 0, 0,
     2, 64, 2, 64, 0, 1, 0, 0, 2, 66, 2, 66, 0, 1, 0, 0,
     2, 51, 2, 51, 0, 1, 0, 0, 2, 52, 2, 52, 0, 1, 0, 0,
     2, 67, 2, 67, 0, 1, 0, 0, 2, 68, 2, 68, 0, 1, 0, 0,
     2, 69, 2, 69, 0, 1, 0, 0, 2, 70, 2, 70, 0, 1, 0, 0,
     2, 71, 2, 71, 0, 1, 0, 0, 2, 72, 2, 72, 0, 1, 0, 0,
     2, 73, 2, 73, 0, 1, 0, 0, 0, 3, 0, 2, 0, 10, 0, 0,
     0, 4, 0, 2, 0, 10, 0, 0, 0, 5, 0, 1, 0, 1, 0, 0,
     0, 6, 0, 2, 0, 10, 0, 0, 0, 7, 0, 2, 0, 10, 0, 0,
     0, 9, 0, 1, 0, 1, 0, 0, 0, 15, 0, 1, 0, 1, 0, 0,
     0, 39, 0, 39, 0, 1, 0, 0, 0, 68, 0, 2, 0, 10, 0, 0,
     0, 91, 0, 2, 0, 10, 0, 0, 0, 94, 0, 1, 0, 1, 0, 0,
     0, 95, 0, 23, 0, 1, 0, 0, 0, 96, 0, 96, 0, 1, 0, 0,
     0, 97, 0, 96, 0, 1, 0, 0, 0, 100, 0, 100, 0, 1, 0, 0,
     0, 101, 0, 101, 0, 1, 0, 0, 0, 102, 0, 102, 0, 1, 0, 0,
     0, 104, 0, 11, 0, 1, 0, 0, 0, 106, 0, 106, 0, 1, 0, 0,
     0, 108, 0, 109, 0, 1, 0, 0, 0, 109, 0, 109, 0, 1, 0, 0,
     0, 110, 0, 111, 0, 1, 0, 0, 0, 111, 0, 111, 0, 1, 0, 0,
     0, 112, 0, 112, 0, 1, 0, 0, 0, 113, 0, 113, 0, 1, 0, 0,
     0, 114, 0, 114, 0, 1, 0, 0, 0, 115, 0, 115, 0, 1, 0, 0,
     0, 116, 0, 102, 0, 1, 0, 0, 0, 119, 0, 119, 0, 1, 0, 0,
     0, 198, 0, 198, 0, 1, 0, 0, 0, 146, 0, 146, 0, 1, 0, 0,
     0, 152, 0, 2, 0, 10, 0, 0, 0, 153, 0, 2, 0, 10, 0, 0,
     0, 154, 0, 2, 0, 10, 0, 0, 0, 155, 0, 1, 0, 1, 0, 0,
     0, 156, 0, 12, 0, 10, 0, 0, 0, 172, 0, 2, 0, 10, 0, 0,
     0, 178, 0, 178, 0, 1, 0, 0, 0, 179, 0, 179, 0, 1, 0, 0,
     0, 180, 0, 180, 0, 1, 0, 0, 0, 181, 0, 181, 0, 1, 0, 0,
     0, 182, 0, 182, 0, 1, 0, 0, 0, 183, 0, 183, 0, 1, 0, 0,
     0, 184, 0, 12, 0, 10, 0, 0, 0, 185, 0, 185, 0, 1, 0, 0,
     0, 186, 0, 186, 0, 1, 0, 0, 0, 187, 0, 187, 0, 1, 0, 0,
     0, 188, 0, 188, 0, 1, 0, 0, 0, 189, 0, 189, 0, 1, 0, 0,
     0, 190, 0, 190, 0, 1, 0, 0, 0, 195, 0, 112, 0, 1, 0, 0,
     0, 196, 0, 113, 0, 1, 0, 0, 0, 197, 0, 114, 0, 1, 0, 0,
     0, 208, 0, 208, 0, 1, 0, 0, 0, 231, 0, 231, 0, 1, 0, 0,
     0, 232, 0, 231, 0, 1, 0, 0, 0, 233, 0, 233, 0, 1, 0, 0,
     0, 241, 0, 109, 0, 1, 0, 0, 0, 252, 0, 252, 0, 1, 0, 0,
     2, 78, 2, 78, 0, 1, 0, 0, 2, 79, 2, 79, 0, 1, 0, 0,
     2, 80, 2, 80, 0, 1, 0, 0, 2, 101, 2, 101, 0, 1, 0, 0,
     2, 102, 2, 102, 0, 1, 0, 0, 2, 103, 2, 103, 0, 1, 0, 0,
     2, 104, 2, 104, 0, 1, 0, 0, 2, 99, 2, 99, 0, 1, 0, 0,
     2, 100, 2, 100, 0, 1, 0, 0, 2, 81, 2, 81, 0, 1, 0, 0,
     2, 82, 2, 82, 0, 1, 0, 0, 2, 83, 2, 83, 0, 1, 0, 0,
     2, 84, 2, 84, 0, 1, 0, 0, 2, 85, 2, 85, 0, 1, 0, 0,
     2, 86, 2, 86, 0, 1, 0, 0, 2, 87, 2, 87, 0, 1, 0, 0,
     2, 88, 2, 88, 0, 1, 0, 0, 2, 89, 2, 89, 0, 1, 0, 0,
     2, 90, 2, 90, 0, 1, 0, 0, 2, 91, 2, 91, 0, 1, 0, 0,
     2, 92, 2, 92, 0, 1, 0, 0, 2, 93, 2, 93, 0, 1, 0, 0,
     2, 110, 2, 110, 0, 1, 0, 0, 2, 111, 2, 111, 0, 1, 0, 0,
     2, 112, 2, 112, 0, 1, 0, 0, 2, 113, 2, 113, 0, 1, 0, 0,
     2, 114, 2, 114, 0, 1, 0, 0, 2, 115, 2, 115, 0, 1, 0, 0,
     2, 116, 2, 116, 0, 1, 0, 0, 2, 117, 2, 117, 0, 1, 0, 0,
     2, 118, 2, 118, 0, 1, 0, 0, 2, 119, 2, 119, 0, 1, 0, 0,
     2, 120, 2, 120, 0, 1, 0, 0, 2, 125, 2, 125, 0, 1, 0, 0,
     2, 126, 2, 126, 0, 1, 0, 0, 2, 124, 2, 124, 0, 1, 0, 0,
     2, 127, 2, 127, 0, 1, 0, 0, 2, 151, 2, 151, 0, 1, 0, 0,
     2, 128, 2, 128, 0, 1, 0, 0, 2, 140, 2, 140, 0, 1, 0, 0,
     2, 134, 2, 134, 0, 1, 0, 0, 2, 135, 2, 135, 0, 1, 0, 0,
     0, 127, 0, 127, 0, 1, 0, 0, 2, 148, 2, 148, 0, 1, 0, 0,
     2, 149, 2, 149, 0, 1, 0, 0, 2, 153, 2, 153, 0, 1, 0, 0,
     2, 157, 2, 157, 0, 1, 0, 0, 2, 158, 2, 158, 0, 1, 0, 0,
     0, 0]"

definition ORACLE_19C_TTC_DATA_TYPES_TEMPLATE :: bytes where
  "ORACLE_19C_TTC_DATA_TYPES_TEMPLATE = template_head @ template_tail"

definition BuildTtcDataTypesRequest :: "negotiation_options \<Rightarrow> bytes result" where
  "BuildTtcDataTypesRequest options =
     (if ng_compile_capabilities options = [] \<and> ng_runtime_capabilities options = [] then
        Inr (ORACLE_19C_TTC_DATA_TYPES_TEMPLATE
               [TTC_DATA_TYPES_CAPABILITIES_OFFSET + TTC_CAPABILITY_FIELD_VERSION_INDEX := ORACLE_CLIENT_TTC_FIELD_VERSION])
      else
        andthen (WriteCapabilities (ng_compile_capabilities options)
          (writes [WriteByte TTC_MESSAGE_DATA_TYPES, WriteUInt16LE ORACLE_CHARSET_AL32UTF8, WriteUInt16LE ORACLE_CHARSET_AL32UTF8,
                   WriteByte 0] [])) (\<lambda>w.
        andthen (WriteCapabilities (ng_runtime_capabilities options) w) (\<lambda>w. Inr (WriteUInt16BE 0 w))))"

definition ValidateTtcDataTypesResponse :: "bytes \<Rightarrow> unit result" where
  "ValidateTtcDataTypesResponse message =
     (if LooksLikeAno message then throw UNSUPPORTED
      else if message = [] \<or> hd message \<noteq> TTC_MESSAGE_DATA_TYPES then throw MALFORMED
      else if length message > MAX_CAPABILITY_BYTES * 4 then throw LIMIT_EXCEEDED
      else Inr ())"

definition RunTtcNegotiation :: "negotiation_options \<Rightarrow> (ttc_channel, ttc_protocol_info) action" where
  "RunTtcNegotiation options =
     after (lifting (BuildTtcProtocolRequest options)) (\<lambda>m.
     after (Send m) (\<lambda>_.
     after receive_answer (\<lambda>protocol_message.
     after (lifting (ParseTtcProtocolResponse protocol_message)) (\<lambda>info.
     after (lifting (BuildTtcDataTypesRequest options)) (\<lambda>m.
     after (Send m) (\<lambda>_.
     after receive_answer (\<lambda>types_message.
     after (lifting (ValidateTtcDataTypesResponse types_message)) (\<lambda>_. returning info))))))))"

section \<open>Lemmas\<close>

lemma negotiated_field_min: "fst (negotiated_field cs) = min ORACLE_CLIENT_TTC_FIELD_VERSION (snd (negotiated_field cs))"
  by (simp add: negotiated_field_def Let_def)

text \<open>A server that reports 27, as current ones do, is spoken to at version 24.\<close>

lemma current_servers_negotiate: "negotiated_field (replicate 7 0 @ [27]) = (24, 27)"
  by (simp add: negotiated_field_def TTC_CAPABILITY_FIELD_VERSION_INDEX_def ORACLE_CLIENT_TTC_FIELD_VERSION_def nth_append)

text \<open>Whatever a server reports, both sides speak at most the version this client advertises, and never more than reported.\<close>

lemma protocol_reader_version:
  "protocol_reader r = Inr (info, r') \<Longrightarrow> field_version info = min ORACLE_CLIENT_TTC_FIELD_VERSION (server_field_version info)"
  unfolding protocol_reader_def bindr_def thenr_def ret_def
  by (auto split: sum.splits if_splits simp: negotiated_field_min)

lemma negotiated_version:
  assumes "RunTtcNegotiation options channel = (channel', Inr info)"
  shows "field_version info = min ORACLE_CLIENT_TTC_FIELD_VERSION (server_field_version info)"
proof -
  from assms obtain m where "ParseTtcProtocolResponse m = Inr info"
    unfolding RunTtcNegotiation_def after_eq_Inr by (auto simp: lifting_def returning_def)
  then show ?thesis
    by (auto simp: ParseTtcProtocolResponse_def decode_message_def map_sum_def split: if_splits sum.splits dest!: protocol_reader_version)
qed

text \<open>An action on the channel that leaves the wire's field version as it is.\<close>

definition keeps_version :: "(ttc_channel, 'a) action \<Rightarrow> bool" where
  "keeps_version f \<longleftrightarrow> (\<forall>channel channel' r. f channel = (channel', r) \<longrightarrow> wire_field_version channel' = wire_field_version channel)"

lemma keeps_versionD: "\<lbrakk>keeps_version f; f channel = (channel', r)\<rbrakk> \<Longrightarrow> wire_field_version channel' = wire_field_version channel"
  by (simp add: keeps_version_def)

named_theorems version_intros "channel actions that keep the field version"

lemma keeps_version_after [version_intros]:
  "\<lbrakk>keeps_version m; \<And>a. keeps_version (f a)\<rbrakk> \<Longrightarrow> keeps_version (after m f)"
  unfolding keeps_version_def after_def by (fastforce split: prod.splits sum.splits)

lemma keeps_version_if [version_intros]: "\<lbrakk>keeps_version f; keeps_version g\<rbrakk> \<Longrightarrow> keeps_version (if b then f else g)"
  by simp

lemma keeps_version_basic [version_intros]:
  "keeps_version (lifting v)" "keeps_version (returning a)" "keeps_version (failing k)" "keeps_version (on_packets g)"
  "keeps_version (on_assembler h)"
  by (auto simp: keeps_version_def lifting_def returning_def failing_def on_packets_def on_assembler_def split: prod.splits)

lemma keeps_version_send_each: "keeps_version (send_each ws)"
proof (induction ws)
  case (Cons w ws)
  have "keeps_version (after (lifting (DecodeTnsPacket w True n)) (\<lambda>packet. after (on_packets (SendPacket packet)) (\<lambda>_. send_each ws)))" for n
    by (intro version_intros Cons)
  then show ?case by (simp add: keeps_version_def)
qed (simp add: version_intros)

lemma keeps_version_Send [version_intros]: "keeps_version (Send m)"
  unfolding keeps_version_def Send_def
  by (auto simp: after_def lifting_def split: if_splits sum.splits prod.splits dest!: keeps_versionD[OF keeps_version_send_each])

lemma keeps_version_turn: "keeps_version (receive_turn n m)"
proof -
  have marker: "keeps_version (receive_marker n m packet)" for packet
    unfolding keeps_version_def receive_marker_def Let_def
    by (auto simp: after_def returning_def split: if_splits sum.splits prod.splits dest!: keeps_versionD[OF keeps_version_basic(4)])
  have data: "keeps_version (receive_data n m packet)" for packet
    unfolding keeps_version_def receive_data_def
    by (auto simp: after_def returning_def split: if_splits sum.splits prod.splits option.splits dest!: keeps_versionD[OF keeps_version_basic(5)])
  show ?thesis
    unfolding receive_turn_def by (intro version_intros marker data)
qed

lemma keeps_version_Receive [version_intros]: "keeps_version Receive"
proof -
  have "receive_loop n m channel = (channel', r) \<Longrightarrow> wire_field_version channel' = wire_field_version channel" for n m channel channel' r
  proof (induction n m channel rule: receive_loop.induct)
    case (1 n m channel)
    obtain c1 t where t: "receive_turn n m channel = (c1, t)" by fastforce
    have v: "wire_field_version c1 = wire_field_version channel" using keeps_versionD[OF keeps_version_turn t] .
    show ?case
    proof (cases t)
      case (Inl e)
      then show ?thesis using 1(2) t v by (simp add: receive_loop.simps[of n m channel])
    next
      case (Inr q)
      show ?thesis
      proof (cases q)
        case (Message message)
        then show ?thesis using 1(2) t v Inr by (simp add: receive_loop.simps[of n m channel])
      next
        case (Go_on n' m')
        then have "receive_loop n' m' c1 = (channel', r)" using 1(2) t Inr by (simp add: receive_loop.simps[of n m channel])
        from 1(1)[OF t[symmetric] Inr Go_on this] v show ?thesis by simp
      qed
    qed
  qed
  then show ?thesis by (simp add: keeps_version_def Receive_def)
qed

lemma keeps_version_answer [version_intros]: "keeps_version receive_answer"
  unfolding receive_answer_def by (intro version_intros)

lemma keeps_version_logon: "keeps_version (RunO5Logon c q)"
  unfolding RunO5Logon_def by (intro version_intros)

end
