(* ===== verification/Bootstrap.thy ===== *)
theory Bootstrap
  imports Connect_Run Ttc_Negotiation
begin

text \<open>
  From an accepted transport to an authenticated session: the state of \<^verbatim>\<open>TnsClientConnection\<close> in
  \<^verbatim>\<open>src/tns_client.cpp\<close>, which lets negotiation and authentication run in that order only, once each, and not
  after the connection was closed.
\<close>

section \<open>The connection\<close>

datatype connection_state = TRANSPORT_CONNECTED | TTC_NEGOTIATED | AUTHENTICATED | CLOSED

record tns_client =
  cl_ttc :: "ttc_channel option"
  cl_field_version :: u8
  cl_server_field_version :: u8
  cl_establishing :: bool
  cl_state :: connection_state
  cl_identity :: client_identity
  cl_connect_string :: string

definition MAX_TTC_MESSAGE :: nat where
  "MAX_TTC_MESSAGE = 16777216"

definition TnsClientConnection :: "tns_connection \<Rightarrow> tns_client result" where
  "TnsClientConnection a =
     andthen (TnsPacketStream (cn_stream a) True (unat (cn_negotiated_sdu a))) (\<lambda>p.
     andthen (TtcChannel p (unat (cn_negotiated_sdu a)) MAX_TTC_MESSAGE (cn_cancellation_supported a)) (\<lambda>channel.
       Inr \<lparr>cl_ttc = Some channel, cl_field_version = ORACLE_CLIENT_TTC_FIELD_VERSION,
            cl_server_field_version = ORACLE_CLIENT_TTC_FIELD_VERSION, cl_establishing = True, cl_state = TRANSPORT_CONNECTED,
            cl_identity = cn_client_identity a, cl_connect_string = cn_auth_connect_string a\<rparr>))"

definition on_channel :: "(ttc_channel, 'a) action \<Rightarrow> (tns_client, 'a) action" where
  "on_channel f k =
     (case cl_ttc k of
        None \<Rightarrow> (k, throw INVALID_STATE)
      | Some channel \<Rightarrow> (case f channel of (channel, r) \<Rightarrow> (k\<lparr>cl_ttc := Some channel\<rparr>, r)))"

definition Negotiate :: "negotiation_options \<Rightarrow> (tns_client, ttc_protocol_info) action" where
  "Negotiate options k =
     (if cl_state k \<noteq> TRANSPORT_CONNECTED then (k, throw INVALID_STATE)
      else after (on_channel (RunTtcNegotiation options)) (\<lambda>info.
           after (on_channel (\<lambda>channel. (SetWireFieldVersion (field_version info) channel, Inr ()))) (\<lambda>_ k.
             (k\<lparr>cl_field_version := field_version info, cl_server_field_version := server_field_version info,
                cl_state := TTC_NEGOTIATED\<rparr>, Inr info))) k)"

definition EndEstablishment :: "tns_client \<Rightarrow> tns_client" where
  "EndEstablishment k = k\<lparr>cl_establishing := False\<rparr>"

definition phase_one_defaults :: "client_identity \<Rightarrow> ttc_parameter list" where
  "phase_one_defaults i =
     [\<lparr>param_key = ''AUTH_TERMINAL'', param_value = terminal i, param_flags = 0\<rparr>,
      \<lparr>param_key = ''AUTH_PROGRAM_NM'', param_value = program i, param_flags = 0\<rparr>,
      \<lparr>param_key = ''AUTH_MACHINE'', param_value = machine i, param_flags = 0\<rparr>,
      \<lparr>param_key = ''AUTH_PID'', param_value = process_id i, param_flags = 0\<rparr>,
      \<lparr>param_key = ''AUTH_SID'', param_value = os_user i, param_flags = 0\<rparr>]"

text \<open>\<^verbatim>\<open>sizeof\<close> of the literal less one keeps the NUL that is written in it.\<close>

definition phase_two_session :: "string \<Rightarrow> ttc_parameter list" where
  "phase_two_session connect_string =
     [\<lparr>param_key = ''SESSION_CLIENT_CHARSET'', param_value = ''873'', param_flags = 0\<rparr>,
      \<lparr>param_key = ''SESSION_CLIENT_DRIVER_NAME'', param_value = ''python-oracledb thn : 4.0.1'', param_flags = 0\<rparr>,
      \<lparr>param_key = ''SESSION_CLIENT_VERSION'', param_value = ''67112960'', param_flags = 0\<rparr>,
      \<lparr>param_key = ''AUTH_ALTER_SESSION'',
       param_value = ''ALTER SESSION SET TIME_ZONE='' @ [CHR 0x27] @ ''+00:00'' @ [CHR 0x27, CHR 0x00], param_flags = 1\<rparr>,
      \<lparr>param_key = ''AUTH_CONNECT_STRING'', param_value = connect_string, param_flags = 0\<rparr>]"

record login =
  lg_username :: string
  lg_password :: string
  lg_auth_mode :: u32
  lg_phase_one :: "ttc_parameter list"
  lg_session_key :: bytes
  lg_password_salt :: bytes
  lg_speedy_salt :: bytes

definition logon_request :: "login \<Rightarrow> tns_client \<Rightarrow> o5logon_request" where
  "logon_request g k =
     \<lparr>rq_username = lg_username g, rq_password = lg_password g, rq_auth_mode = lg_auth_mode g,
      rq_phase_one = (if lg_phase_one g = [] then phase_one_defaults (cl_identity k) else lg_phase_one g),
      rq_phase_two = phase_two_session (cl_connect_string k), rq_client_session_key = lg_session_key g,
      rq_password_salt = lg_password_salt g, rq_speedy_key_salt = lg_speedy_salt g\<rparr>"

definition AuthenticateO5Logon :: "crypto \<Rightarrow> login \<Rightarrow> (tns_client, o5logon_response) action" where
  "AuthenticateO5Logon c g k =
     (if cl_state k \<noteq> TTC_NEGOTIATED then (k, throw INVALID_STATE)
      else after (on_channel (RunO5Logon c (logon_request g k))) (\<lambda>response k.
             (EndEstablishment (k\<lparr>cl_state := AUTHENTICATED\<rparr>), Inr response)) k)"

definition CloseConnection :: "tns_client \<Rightarrow> tns_client" where
  "CloseConnection k = k\<lparr>cl_ttc := None, cl_establishing := False, cl_state := CLOSED\<rparr>"


section \<open>The order of the operations\<close>

text \<open>
  What a caller sees of a connection's life: the operations that succeeded, latest first. A refused or failed call and the end of
  the establishment limits leave no event.
\<close>

datatype event = Negotiated | Logged_on o5logon_response | Closed_down

inductive lives :: "crypto \<Rightarrow> tns_client \<Rightarrow> event list \<Rightarrow> tns_client \<Rightarrow> bool" for c k0 where
  "lives c k0 [] k0"
| "\<lbrakk>lives c k0 evs k; Negotiate options k = (k', Inr info)\<rbrakk> \<Longrightarrow> lives c k0 (Negotiated # evs) k'"
| "\<lbrakk>lives c k0 evs k; Negotiate options k = (k', Inl e)\<rbrakk> \<Longrightarrow> lives c k0 evs k'"
| "\<lbrakk>lives c k0 evs k; AuthenticateO5Logon c g k = (k', Inr response)\<rbrakk> \<Longrightarrow> lives c k0 (Logged_on response # evs) k'"
| "\<lbrakk>lives c k0 evs k; AuthenticateO5Logon c g k = (k', Inl e)\<rbrakk> \<Longrightarrow> lives c k0 evs k'"
| "lives c k0 evs k \<Longrightarrow> lives c k0 evs (EndEstablishment k)"
| "lives c k0 evs k \<Longrightarrow> lives c k0 (Closed_down # evs) (CloseConnection k)"

text \<open>The events that a state stands for.\<close>

fun history_of :: "connection_state \<Rightarrow> event list \<Rightarrow> bool" where
  "history_of TRANSPORT_CONNECTED evs = (evs = [])"
| "history_of TTC_NEGOTIATED evs = (evs = [Negotiated])"
| "history_of AUTHENTICATED evs = (\<exists>response. evs = [Logged_on response, Negotiated])"
| "history_of CLOSED evs = (\<exists>n rest. n > 0 \<and> evs = replicate n Closed_down @ rest \<and>
     (rest = [] \<or> rest = [Negotiated] \<or> (\<exists>response. rest = [Logged_on response, Negotiated])))"

definition client_ok :: "tns_client \<Rightarrow> bool" where
  "client_ok k \<longleftrightarrow> (cl_ttc k = None \<longleftrightarrow> cl_state k = CLOSED) \<and>
     cl_field_version k = min ORACLE_CLIENT_TTC_FIELD_VERSION (cl_server_field_version k) \<and>
     (cl_state k = AUTHENTICATED \<or> cl_state k = CLOSED \<longrightarrow> \<not> cl_establishing k) \<and>
     (\<forall>channel. cl_ttc k = Some channel \<and> cl_state k \<noteq> TRANSPORT_CONNECTED \<longrightarrow> wire_field_version channel = cl_field_version k)"

lemma on_channel_keeps: "on_channel f k = (k', r) \<Longrightarrow> \<exists>ch. k' = k\<lparr>cl_ttc := ch\<rparr> \<and> (ch = None \<longleftrightarrow> cl_ttc k = None)"
  by (cases "cl_ttc k") (auto simp: on_channel_def split: prod.splits)

lemma Negotiate_failed: "\<lbrakk>Negotiate options k = (k', Inl e); client_ok k\<rbrakk> \<Longrightarrow> client_ok k' \<and> cl_state k' = cl_state k"
  by (auto simp: Negotiate_def after_def on_channel_def client_ok_def split: if_splits prod.splits sum.splits option.splits)

lemma Negotiate_done:
  assumes "Negotiate options k = (k', Inr info)" "client_ok k"
  shows "client_ok k' \<and> cl_state k = TRANSPORT_CONNECTED \<and> cl_state k' = TTC_NEGOTIATED \<and>
    cl_field_version k' = field_version info"
proof -
  from assms(1) obtain channel channel' where ch: "cl_ttc k = Some channel" "RunTtcNegotiation options channel = (channel', Inr info)"
    and k': "k' = k\<lparr>cl_ttc := Some (SetWireFieldVersion (field_version info) channel'), cl_field_version := field_version info,
      cl_server_field_version := server_field_version info, cl_state := TTC_NEGOTIATED\<rparr>" "cl_state k = TRANSPORT_CONNECTED"
    by (auto simp: Negotiate_def after_def on_channel_def split: if_splits prod.splits sum.splits option.splits)
  then show ?thesis
    using negotiated_version[OF ch(2)] assms(2) by (simp add: client_ok_def SetWireFieldVersion_def)
qed

lemma logon_keeps:
  assumes "AuthenticateO5Logon c g k = (k', r)" "client_ok k"
  shows "client_ok k' \<and> (case r of Inl _ \<Rightarrow> cl_state k' = cl_state k | Inr _ \<Rightarrow> cl_state k = TTC_NEGOTIATED \<and> cl_state k' = AUTHENTICATED)"
proof (cases "cl_state k = TTC_NEGOTIATED")
  case True
  then obtain channel where ch: "cl_ttc k = Some channel" using assms(2) by (auto simp: client_ok_def)
  obtain channel' q where run: "RunO5Logon c (logon_request g k) channel = (channel', q)" by fastforce
  have "wire_field_version channel' = wire_field_version channel" using keeps_versionD[OF keeps_version_logon run] .
  then show ?thesis
    using assms True ch run by (cases q) (auto simp: AuthenticateO5Logon_def on_channel_def client_ok_def EndEstablishment_def)
qed (use assms in \<open>auto simp: AuthenticateO5Logon_def\<close>)

lemma connection_fresh: "TnsClientConnection a = Inr k \<Longrightarrow> client_ok k \<and> cl_state k = TRANSPORT_CONNECTED"
  by (auto simp: TnsClientConnection_def andthen_eq_Inr client_ok_def)

lemma lives_invariant:
  "\<lbrakk>lives c k0 evs k; client_ok k0; cl_state k0 = TRANSPORT_CONNECTED\<rbrakk> \<Longrightarrow> client_ok k \<and> history_of (cl_state k) evs"
proof (induction rule: lives.induct)
  case (2 evs k options k' info)
  then show ?case using Negotiate_done[OF 2(2)] by auto
next
  case (3 evs k options k' e)
  then show ?case using Negotiate_failed[OF 3(2)] by auto
next
  case (4 evs k g k' response)
  then show ?case using logon_keeps[OF 4(2)] by auto
next
  case (5 evs k g k' e)
  then show ?case using logon_keeps[OF 5(2)] by auto
next
  case (6 evs k)
  then show ?case by (auto simp: client_ok_def EndEstablishment_def)
next
  case (7 evs k)
  then have "history_of CLOSED (Closed_down # evs)"
  proof (cases "cl_state k")
    case CLOSED
    with 7 obtain n rest where n: "evs = replicate n Closed_down @ rest"
      "rest = [] \<or> rest = [Negotiated] \<or> (\<exists>response. rest = [Logged_on response, Negotiated])" by auto
    then show ?thesis by (auto intro!: exI[of _ "Suc n"])
  qed (auto intro!: exI[of _ 1])
  with 7 show ?case by (simp add: client_ok_def CloseConnection_def)
qed simp_all

section \<open>Properties\<close>

text \<open>
  C8. A connection is bootstrapped in order. Whatever operations are called on it and however they fail, the successful
  ones are a negotiation and then one logon, with nothing but closing after; the state tells exactly which of them have
  happened; the version both sides speak is the lower of the server's and this client's and is the one the channel
  writes; and the limits of the connect no longer hold once the session is authenticated.
\<close>

theorem bootstrap_in_order:
  assumes "TnsClientConnection connection = Inr k0" "lives c k0 evs k"
  shows "history_of (cl_state k) evs \<and> (cl_ttc k = None \<longleftrightarrow> cl_state k = CLOSED) \<and>
    cl_field_version k = min ORACLE_CLIENT_TTC_FIELD_VERSION (cl_server_field_version k) \<and>
    (cl_state k = AUTHENTICATED \<longrightarrow> \<not> cl_establishing k \<and>
       (\<exists>channel. cl_ttc k = Some channel \<and> wire_field_version channel = cl_field_version k))"
  using lives_invariant[OF assms(2)] connection_fresh[OF assms(1)] by (auto simp: client_ok_def)

definition opened_connection :: tns_connection where
  "opened_connection = \<lparr>cn_stream = \<lparr>inbound = [], outbound = [], accepted = []\<rparr>, cn_negotiated_sdu = 8192, cn_end_of_response = True,
     cn_connect_descriptor = ''d'', cn_auth_connect_string = ''a'',
     cn_client_identity = \<lparr>program = ''p'', terminal = ''unknown'', machine = ''m'', process_id = ''1'', os_user = ''u''\<rparr>,
     cn_cancellation_supported = True\<rparr>"

lemma bootstrap_in_order_witness:
  "\<exists>k0. TnsClientConnection opened_connection = Inr k0 \<and>
     lives plain_crypto k0 [Closed_down] (CloseConnection (EndEstablishment k0)) \<and>
     history_of (cl_state (CloseConnection (EndEstablishment k0))) [Closed_down] \<and>
     Negotiate TtcNegotiationOptions (CloseConnection k0) = (CloseConnection k0, throw INVALID_STATE)"
proof -
  obtain k0 where k0: "TnsClientConnection opened_connection = Inr k0"
    by (simp add: TnsClientConnection_def opened_connection_def TnsPacketStream_def TtcChannel_def TnsDataAssembler_def
        TNS_PACKET_HEADER_SIZE_def MAX_TNS_PACKET_LENGTH_def MAX_TTC_MESSAGE_def)
  have l: "lives plain_crypto k0 [Closed_down] (CloseConnection (EndEstablishment k0))"
    by (rule lives.intros(7)[OF lives.intros(6)[OF lives.intros(1)]])
  have "Negotiate TtcNegotiationOptions (CloseConnection k0) = (CloseConnection k0, throw INVALID_STATE)"
    by (simp add: Negotiate_def CloseConnection_def)
  with k0 l bootstrap_in_order[OF k0 l] show ?thesis by blast
qed

end
