(* ===== verification/Spec2Isabelle.thy ===== *)
theory Spec2Isabelle
  imports Ttc_Channel Call_Builder Call_Registry Statement_Registry Validating_Session Transaction Session_Pool Transaction_Session_Pool Ttc_Call Number_Codec Ttc_Define Temp_Lob Prefetch_Fetch Statement_Channel Tns_Names Easy_Connect Resolver_Pool Bootstrap
begin

text \<open>
  The native Oracle client of \<^verbatim>\<open>src/src\<close>: a driver written in C++ that speaks Oracle's TNS and TTC protocols without a
  vendor library, and a database extension on top of it. This development models the driver, from the bytes of a packet to the
  pools that lend sessions, and proves what makes each part correct.

  \<^bold>\<open>How the parts work together.\<close> A configuration or a connect string gives addresses (\<^verbatim>\<open>connect_descriptor.cpp\<close>,
  \<^verbatim>\<open>descriptor_parser.cpp\<close>); the connect loop dials them and follows redirects until a listener accepts
  (\<^verbatim>\<open>tns_client.cpp\<close>, \<^verbatim>\<open>tns_handshake.cpp\<close>); negotiation and O5LOGON make the transport a session
  (\<^verbatim>\<open>ttc_negotiation.cpp\<close>, \<^verbatim>\<open>ttc_o5logon.cpp\<close>, \<^verbatim>\<open>auth_crypto.cpp\<close>). From then on the TTC channel
  carries messages as DATA packets (\<^verbatim>\<open>ttc_channel.cpp\<close> over \<^verbatim>\<open>byte_stream.cpp\<close>, \<^verbatim>\<open>tns_packet.cpp\<close>,
  \<^verbatim>\<open>data_assembler.cpp\<close>), the statement channel runs the calls of a statement whose state the statement registry keeps
  (\<^verbatim>\<open>ttc_statement_channel.cpp\<close>, \<^verbatim>\<open>statement_registry.cpp\<close>), and the encoders and decoders of requests, responses
  and values turn calls into bytes and rows. Callers hold sessions through the abstract class \<^verbatim>\<open>OracleSession\<close>: a decorator
  checks every call, a transaction pins one session, and two pools lend them.

  \<^bold>\<open>Conventions.\<close> Fixed-width C++ integers are words of their width, \<^verbatim>\<open>size_t\<close> values that cannot wrap are natural
  numbers, a \<^verbatim>\<open>std::string\<close> is a list of characters and a byte vector a list of 8-bit words. An operation that may throw has
  a result of the sum type \<open>protocol_error + 'a\<close>; the error keeps the kind and the ORA number and drops the message text, unless a
  decision depends on it. An operation on an object is a function from its state to the new state and the result, so that an
  exception keeps the changes made before it. A buffer and a position in it are either the record \<open>byte_reader\<close> or, in the text
  parsers, the rest of the input. Names are those of the source, with a suffix or a prefix where HOL or another component uses the
  name.

  \<^bold>\<open>The theories.\<close>
  \<^item> \<open>Prelude\<close>: words, errors, sequencing, C-locale characters, big-endian bytes, and what all components share about them.
  \<^item> \<open>Byte_Buffer\<close> (\<^verbatim>\<open>byte_buffer.cpp\<close>): \<^verbatim>\<open>ByteReader\<close> and \<^verbatim>\<open>ByteWriter\<close>; what is written is read back, a
    reader never passes the end, and a failed or short read does not depend on bytes that have not arrived. \<open>Local_Reader\<close> adds
    that a reader's result depends on the bytes it consumes only.
  \<^item> \<open>Tns_Packet\<close>, \<open>Byte_Stream\<close>, \<open>Ttc_Channel\<close> (\<^verbatim>\<open>tns_packet.cpp\<close>, \<^verbatim>\<open>data_assembler.cpp\<close>, \<^verbatim>\<open>byte_stream.cpp\<close>,
    \<^verbatim>\<open>ttc_channel.cpp\<close>): framing, reassembly and the channel; a message arrives whole however the stream is cut, and a request
    goes out whole or the queue of piggybacks is kept.
  \<^item> \<open>Ttc_Messages\<close>: errors, piggybacks, parameters and the O5LOGON challenge of \<^verbatim>\<open>ttc_error.cpp\<close>, \<^verbatim>\<open>ttc_piggyback.cpp\<close>,
    \<^verbatim>\<open>ttc_parameter.cpp\<close>, \<^verbatim>\<open>ttc_auth.cpp\<close>, \<^verbatim>\<open>ttc_transaction.cpp\<close>.
  \<^item> \<open>Connect_Config\<close> (\<^verbatim>\<open>connect_descriptor.cpp\<close>, \<^verbatim>\<open>client_identity.cpp\<close>, the plan of \<^verbatim>\<open>connect_plan.cpp\<close>),
    \<open>Descriptor_Parser\<close>, \<open>Tns_Names\<close>, \<open>Easy_Connect\<close> (\<^verbatim>\<open>descriptor_parser.cpp\<close>): validation, the text of connect data and
    its grammar. What the client writes reads back as the configured address and service, an Easy Connect string cannot add to the
    descriptor it stands for, and an alias is one that the file defines. \<open>Resolver_Pool\<close> is the pool of \<^verbatim>\<open>connect_plan.cpp\<close>
    whose workers look up names: bounded, with a worker for whoever waits, and without lookups for callers that gave up.
  \<^item> \<open>Tns_Handshake\<close> (\<^verbatim>\<open>tns_connect.cpp\<close>, \<^verbatim>\<open>tns_handshake.cpp\<close>) and \<open>Connect_Run\<close> (\<^verbatim>\<open>tns_client.cpp\<close>,
    \<^verbatim>\<open>transport_factory.cpp\<close>): CONNECT and its answers, and the loop over addresses, names, redirects and retries, which
    never leaves what was configured.
  \<^item> \<open>O5_Logon\<close>, \<open>Ttc_Negotiation\<close>, \<open>Bootstrap\<close>: authentication, in which client and server agree, the negotiation of the
    protocol version, and the order in which a connection lets them happen.
  \<^item> \<open>Statement_Registry\<close>, \<open>Call_Registry\<close> (\<^verbatim>\<open>statement_registry.cpp\<close>, \<^verbatim>\<open>call_registry.cpp\<close>): states of statements, and
    cursors that calls returned; state never goes back, no remote cursor is shared, and a cursor is taken once.
  \<^item> \<open>Sql_Text\<close>, \<open>Call_Builder\<close> (\<^verbatim>\<open>sql_statement.cpp\<close>, \<^verbatim>\<open>sql_binds.cpp\<close>, \<^verbatim>\<open>bind_validation.cpp\<close>,
    \<^verbatim>\<open>call_builder.cpp\<close>): the placeholders of a statement and the blocks a call is sent as.
  \<^item> \<open>Ttc_Execute\<close>, \<open>Ttc_Define\<close>, \<open>Ttc_Rows\<close>, \<open>Fetch_Response\<close>, \<open>Ttc_Call\<close>, \<open>Statement_Channel\<close>: requests and
    responses of statements. A server that reads the request finds the call in it; decoding a response in pieces gives what decoding
    it whole gives; a statement whose exchange failed takes no further call.
  \<^item> \<open>Value_Codec\<close>, \<open>Number_Codec\<close>, \<open>Utf_Text\<close>: dates, intervals, rowids, numbers and the conversions between UTF-16 and UTF-8.
  \<^item> \<open>Ttc_Lob\<close>, \<open>Temp_Lob\<close>, \<open>Lob_Prefetch\<close>, \<open>Prefetch_Fetch\<close>: reading LOBs, temporary LOBs for large binds, and LOB content
    that arrives with the rows, within its budget.
  \<^item> \<open>Session_Interface\<close>, \<open>Validating_Session\<close>, \<open>State_Machine\<close>, \<open>Transaction\<close>, \<open>Session_Pool\<close>,
    \<open>Transaction_Session_Pool\<close>: the class \<^verbatim>\<open>OracleSession\<close>, its decorator, transactions and pools. An invariant over all
    interleavings of their critical sections shows that a session is lent to one holder and closed once.

  \<^bold>\<open>Interfaces.\<close> The contracts between components are locales, each interpreted on the model's own definitions:
  \<open>wire_reader\<close> (a reader stays within its buffer and asks for more when it is cut short), \<open>wire_codec\<close> (a writer and the reader
  of what it writes), \<open>prefix_decoder\<close> (a decoder of a prefix, which decodes the same when more bytes follow), \<open>local_reader\<close>,
  \<open>oall8_request\<close> (a request that a server reads back), \<open>poisoning_call\<close> (a call that poisons its statement when it fails) and
  \<open>guarded_machine\<close> (a step relation and its invariant).

  \<^bold>\<open>Termination.\<close> Every loop is a total function: its measure is the input that is left, the packets that are left on the stream,
  or for the connect loop the transports that may still be opened (256) and the targets that are left. The one exception is the search
  for an alias, which does not return on some files; it is a \<open>partial_function\<close> whose value \<open>None\<close> is not returning, and
  \<open>Tns_Names\<close> proves for which files it returns. No fuel is used anywhere.

  \<^bold>\<open>Locks and threads.\<close> A method that holds its lock throughout is one step. A method that gives the lock up in between, or calls a
  factory without it, is split there, and the relation of the steps interleaves with those of other threads. The lock around the calls
  of a statement channel is not modelled: its operations are taken one at a time.

  \<^bold>\<open>What is a parameter.\<close> Code outside \<^verbatim>\<open>src/\<close> is an argument with named laws where a property needs them: \<^verbatim>\<open>inet_pton\<close> and the
  other system calls of \<open>platform\<close>, the transports, the resolver and the clock of \<open>network\<close>, OpenSSL's primitives of \<open>crypto\<close>, random
  numbers, session factories. The time that calls take is part of what the network says, so deadlines are exact.

  \<^bold>\<open>Not modelled.\<close> The extension of the host database (\<^verbatim>\<open>oracle_query.cpp\<close>, \<^verbatim>\<open>oracle_catalog.cpp\<close>, \<^verbatim>\<open>oracle_write.cpp\<close>,
  \<^verbatim>\<open>oracle_filter.cpp\<close>, \<^verbatim>\<open>oracle_optimizer.cpp\<close>, \<^verbatim>\<open>oracle_types.cpp\<close>, \<^verbatim>\<open>oracle_parallel.cpp\<close>,
  \<^verbatim>\<open>oracle_snapshot.cpp\<close>, \<^verbatim>\<open>oracle_callable.cpp\<close> and the registration code): nearly every line of it works on the host's
  vectors, plans and catalogs, which are not in the repository. Sockets and TLS (\<^verbatim>\<open>openssl_stream.cpp\<close>) and wallets
  (\<^verbatim>\<open>sso_wallet.cpp\<close>, \<^verbatim>\<open>wallet_archive.cpp\<close>) are calls of OpenSSL. \<^verbatim>\<open>native_session.cpp\<close> composes the modelled
  parts behind the session interface. Binary JSON and vectors (\<^verbatim>\<open>oson.cpp\<close>, \<^verbatim>\<open>oracle_vector.cpp\<close>) render numbers with the
  C library's floating-point formatting. The process-wide hooks of \<^verbatim>\<open>connect_plan.cpp\<close> and
  \<^verbatim>\<open>transport_factory.cpp\<close> are globals; the connect loop takes what they deliver, and the answers of the resolver pool, as an
  argument.
\<close>

end
